(* ===== verification/Prelude.thy ===== *)
theory Prelude
  imports Main "HOL-Library.Word" "HOL-Library.Code_Target_Nat"
begin

text \<open>
  The vocabulary the components share: C strings, array scans, bounded printing and the two
  interfaces most components implement.

  \<^item> A C string is a \<^typ>\<open>string\<close> without its terminator, so \<open>strlen\<close> is
    \<^const>\<open>length\<close>, \<open>strcmp(a, b) == 0\<close> is equality and \<open>!*s\<close> is \<open>s = []\<close>. A pointer the code
    compares with \<open>NULL\<close> is a \<open>cstr\<close>, with \<^const>\<open>None\<close> for \<open>NULL\<close>.
  \<^item> An array with its element count is a list; a \<open>for\<close> loop that returns the first match is
    \<open>find_idx\<close> (the index) or \<^const>\<open>List.find\<close> (the element).
  \<^item> \<open>machine\<close> is the contract "every step keeps the invariant", whose client lemma is that
    every run keeps it; \<open>keyed_registry\<close> is the contract of the code's tables of named
    entries, whose client lemmas are uniqueness and stability of lookups.
\<close>

section \<open>Collections of facts\<close>

named_theorems frame_simps \<open>fields an operation leaves alone\<close>
named_theorems inv_rules \<open>operations that keep a component's invariant\<close>

section \<open>C strings\<close>

type_synonym cstr = "string option"

definition chr_ord :: "char \<Rightarrow> nat" where
  "chr_ord c = of_char c"

definition is_digit :: "char \<Rightarrow> bool" where
  "is_digit c \<longleftrightarrow> 48 \<le> chr_ord c \<and> chr_ord c \<le> 57"

definition is_upper :: "char \<Rightarrow> bool" where
  "is_upper c \<longleftrightarrow> 65 \<le> chr_ord c \<and> chr_ord c \<le> 90"

definition is_lower :: "char \<Rightarrow> bool" where
  "is_lower c \<longleftrightarrow> 97 \<le> chr_ord c \<and> chr_ord c \<le> 122"

definition is_alnum :: "char \<Rightarrow> bool" where
  "is_alnum c \<longleftrightarrow> is_digit c \<or> is_upper c \<or> is_lower c"

text \<open>\<open>tolower\<close> in the C locale, and \<open>strcasecmp(a, b) == 0\<close>.\<close>

definition to_lower :: "char \<Rightarrow> char" where
  "to_lower c = (if is_upper c then char_of (chr_ord c + 32) else c)"

definition strcaseeq :: "string \<Rightarrow> string \<Rightarrow> bool" where
  "strcaseeq a b \<longleftrightarrow> map to_lower a = map to_lower b"

lemma strcaseeq_refl [simp]: "strcaseeq a a"
  by (simp add: strcaseeq_def)

lemma strcaseeq_sym: "strcaseeq a b \<Longrightarrow> strcaseeq b a"
  by (simp add: strcaseeq_def)

lemma strcaseeq_trans: "strcaseeq a b \<Longrightarrow> strcaseeq b c \<Longrightarrow> strcaseeq a c"
  by (simp add: strcaseeq_def)

text \<open>\<open>strcmp(a, b) < 0\<close>: bytes compared as unsigned, a proper prefix first.\<close>

fun strcmp_lt :: "string \<Rightarrow> string \<Rightarrow> bool" where
  "strcmp_lt [] [] = False"
| "strcmp_lt [] (b # bs) = True"
| "strcmp_lt (a # as) [] = False"
| "strcmp_lt (a # as) (b # bs) =
     (if chr_ord a < chr_ord b then True
      else if chr_ord b < chr_ord a then False
      else strcmp_lt as bs)"

lemma strcmp_lt_irrefl [simp]: "\<not> strcmp_lt a a"
  by (induction a) auto

lemma chr_ord_inject [simp]: "chr_ord a = chr_ord b \<longleftrightarrow> a = b"
  by (simp add: chr_ord_def)

lemma strcmp_lt_linear: "strcmp_lt a b \<or> a = b \<or> strcmp_lt b a"
proof (induction a b rule: strcmp_lt.induct)
  case (4 a as b bs)
  then show ?case by (auto simp: not_less_iff_gr_or_eq)
qed auto

lemma strcmp_lt_trans: "strcmp_lt a b \<Longrightarrow> strcmp_lt b c \<Longrightarrow> strcmp_lt a c"
proof (induction a b arbitrary: c rule: strcmp_lt.induct)
  case (4 a as b bs)
  then show ?case by (cases c) (auto split: if_splits)
next
  case (2 b bs)
  then show ?case by (cases c) auto
qed auto

section \<open>Decimal printing\<close>

text \<open>\<open>printf("%u")\<close> and its 64-bit forms: no sign, no leading zero.\<close>

definition digit_chr :: "nat \<Rightarrow> char" where
  "digit_chr d = char_of (48 + d)"

fun show_nat :: "nat \<Rightarrow> string" where
  "show_nat n = (if n < 10 then [digit_chr n] else show_nat (n div 10) @ [digit_chr (n mod 10)])"

declare show_nat.simps [simp del]

definition digit_val :: "char \<Rightarrow> nat" where
  "digit_val c = chr_ord c - 48"

text \<open>The value of a string of digits, most significant first.\<close>

definition dec_val :: "string \<Rightarrow> nat" where
  "dec_val s = foldl (\<lambda>v c. 10 * v + digit_val c) 0 s"

lemma chr_ord_digit_chr [simp]: "d < 10 \<Longrightarrow> chr_ord (digit_chr d) = 48 + d"
  by (simp add: chr_ord_def digit_chr_def)

lemma is_digit_digit_chr [simp]: "d < 10 \<Longrightarrow> is_digit (digit_chr d)"
  by (simp add: is_digit_def)

lemma digit_val_digit_chr [simp]: "d < 10 \<Longrightarrow> digit_val (digit_chr d) = d"
  by (simp add: digit_val_def)

lemma show_nat_nonempty [simp]: "show_nat n \<noteq> []"
  by (subst show_nat.simps) simp

lemma show_nat_digits: "\<forall>c \<in> set (show_nat n). is_digit c"
proof (induction n rule: show_nat.induct)
  case (1 n)
  then show ?case by (cases "n < 10") (auto simp: show_nat.simps [of n])
qed

lemma dec_val_snoc: "dec_val (s @ [c]) = 10 * dec_val s + digit_val c"
  by (simp add: dec_val_def)

lemma dec_val_show_nat [simp]: "dec_val (show_nat n) = n"
proof (induction n rule: show_nat.induct)
  case (1 n)
  show ?case
  proof (cases "n < 10")
    case True
    then show ?thesis by (simp add: show_nat.simps [of n] dec_val_def)
  next
    case False
    with 1 show ?thesis by (simp add: show_nat.simps [of n] dec_val_snoc)
  qed
qed

lemma show_nat_inject [simp]: "show_nat m = show_nat n \<longleftrightarrow> m = n"
  by (metis dec_val_show_nat)

section \<open>Scanning an array for the first match\<close>

fun find_idx :: "('a \<Rightarrow> bool) \<Rightarrow> 'a list \<Rightarrow> nat option" where
  "find_idx P [] = None"
| "find_idx P (x # xs) = (if P x then Some 0 else map_option Suc (find_idx P xs))"

lemma find_idx_None [simp]: "find_idx P xs = None \<longleftrightarrow> (\<forall>x \<in> set xs. \<not> P x)"
  by (induction xs) auto

lemma find_idx_SomeD:
  "find_idx P xs = Some i \<Longrightarrow> i < length xs \<and> P (xs ! i) \<and> (\<forall>j < i. \<not> P (xs ! j))"
proof (induction xs arbitrary: i)
  case Nil
  then show ?case by simp
next
  case (Cons x xs)
  show ?case
  proof (cases "P x")
    case True
    with Cons.prems show ?thesis by simp
  next
    case False
    with Cons.prems obtain k where k: "find_idx P xs = Some k" "i = Suc k" by auto
    from Cons.IH [OF k(1)] False k(2) show ?thesis
      by (auto simp: nth_Cons split: nat.splits)
  qed
qed

lemma find_idx_distinct:
  assumes "distinct (map f xs)" "i < length xs" "f (xs ! i) = k"
  shows "find_idx (\<lambda>x. f x = k) xs = Some i"
proof (cases "find_idx (\<lambda>x. f x = k) xs")
  case None
  with assms show ?thesis by auto
next
  case (Some j)
  from find_idx_SomeD [OF this] have "j < length xs" "f (xs ! j) = k" by auto
  with assms have "map f xs ! j = map f xs ! i" by simp
  with assms \<open>j < length xs\<close> have "j = i"
    by (metis length_map nth_eq_iff_index_eq)
  with Some show ?thesis by simp
qed

lemma find_Some_iff_distinct:
  assumes "distinct (map f xs)"
  shows "List.find (\<lambda>x. f x = k) xs = Some e \<longleftrightarrow> e \<in> set xs \<and> f e = k"
  using assms by (induction xs) (auto simp: image_iff)

lemma find_SomeD: "List.find P xs = Some x \<Longrightarrow> x \<in> set xs \<and> P x"
  by (auto simp: find_Some_iff)

lemma find_append:
  "List.find P (xs @ ys) = (case List.find P xs of None \<Rightarrow> List.find P ys | Some x \<Rightarrow> Some x)"
  by (induction xs) auto

lemma map_eq_image: "map f xs = map f ys \<Longrightarrow> f ` set xs = f ` set ys"
  by (metis list.set_map)

lemma map_update_same: "f y = f (xs ! i) \<Longrightarrow> map f (xs[i := y]) = map f xs"
  by (metis list_update_id map_update)

section \<open>Interfaces\<close>

subsection \<open>A component whose operations keep an invariant\<close>

locale machine =
  fixes step :: "'e \<Rightarrow> 's \<Rightarrow> 's" and inv :: "'s \<Rightarrow> bool"
  assumes step_inv: "inv s \<Longrightarrow> inv (step e s)"
begin

lemma run_inv: "inv s \<Longrightarrow> inv (fold step es s)"
  by (induction es arbitrary: s) (auto intro: step_inv)

lemma prefix_inv: "inv s \<Longrightarrow> inv (fold step (take n es) s)"
  by (rule run_inv)

end

subsection \<open>A table of entries with unique keys\<close>

text \<open>
  The client sees a list of entries, a lookup by key and an insertion that may refuse. The
  provider promises that lookup is the first entry with the key and that an accepted entry
  had a fresh key and is added at one end, the rest unchanged.
\<close>

locale keyed_registry =
  fixes key :: "'e \<Rightarrow> 'k"
    and entries :: "'s \<Rightarrow> 'e list"
    and lookup :: "'s \<Rightarrow> 'k \<Rightarrow> 'e option"
    and add :: "'e \<Rightarrow> 's \<Rightarrow> 's option"
  assumes lookup_find: "lookup s k = List.find (\<lambda>e. key e = k) (entries s)"
    and add_fresh: "add e s = Some s' \<Longrightarrow> lookup s (key e) = None"
    and add_entries: "add e s = Some s' \<Longrightarrow>
          entries s' = entries s @ [e] \<or> entries s' = e # entries s"
begin

definition keys_unique :: "'s \<Rightarrow> bool" where
  "keys_unique s \<longleftrightarrow> distinct (map key (entries s))"

lemma add_unique: "keys_unique s \<Longrightarrow> add e s = Some s' \<Longrightarrow> keys_unique s'"
proof -
  assume u: "keys_unique s" and a: "add e s = Some s'"
  from add_fresh [OF a] have "key e \<notin> key ` set (entries s)"
    by (auto simp: lookup_find find_None_iff)
  with add_entries [OF a] u show ?thesis by (auto simp: keys_unique_def)
qed

lemma lookup_added: "add e s = Some s' \<Longrightarrow> lookup s' (key e) = Some e"
proof -
  assume a: "add e s = Some s'"
  from add_fresh [OF a] have "List.find (\<lambda>x. key x = key e) (entries s) = None"
    by (simp add: lookup_find)
  with add_entries [OF a] show ?thesis by (auto simp: lookup_find find_append)
qed

lemma lookup_other: "add e s = Some s' \<Longrightarrow> k \<noteq> key e \<Longrightarrow> lookup s' k = lookup s k"
  using add_entries [of e s s'] by (auto simp: lookup_find find_append split: option.splits)

lemma count_added: "add e s = Some s' \<Longrightarrow> length (entries s') = Suc (length (entries s))"
  using add_entries [of e s s'] by auto

lemma lookup_iff: "keys_unique s \<Longrightarrow> lookup s k = Some e \<longleftrightarrow> e \<in> set (entries s) \<and> key e = k"
  by (simp add: lookup_find keys_unique_def find_Some_iff_distinct)

end

end
