(* ===== verification/LinkTree.thy ===== *)
theory LinkTree
  imports Prelude
begin

text \<open>
  \<^verbatim>\<open>rrserver/link.tree.c\<close>: the server's tree of linked servers. Every known server has one
  parent and one \<^emph>\<open>peer\<close>, the directly connected server its messages are sent to. A linked peer
  offers its whole component at once (\<open>rr_link_tree_attach\<close>), extends its own branch
  (\<open>rr_link_tree_add\<close>) and withdraws a subtree (\<open>rr_link_tree_remove\<close>).

  The node array with its count is a list, the local server first. \<open>uuid_valid\<close> stands for
  \<open>rr_object_uuid_valid\<close> of librrprotocol, which is not in this repository; what the code relies
  on (it rejects \<open>NULL\<close> and accepts 36-character strings only, so that the 37-byte fields hold
  them) is the hypothesis \<open>uuid_checker\<close>. Allocation failure is not modelled.
\<close>

section \<open>State\<close>

record link_node =
  ln_server :: string
  ln_parent :: string
  ln_peer :: string
  ln_site :: string

record link_tree =
  lt_nodes :: "link_node list"
  lt_limit :: nat

text \<open>A node as a peer offers it: \<open>rr_link_node_t\<close>, whose fields may be \<open>NULL\<close>.\<close>

record link_offer =
  of_server :: cstr
  of_parent :: cstr
  of_site :: cstr

datatype link_result = RR_LINK_OK | RR_LINK_INVALID | RR_LINK_OVERLAP | RR_LINK_LIMIT

type_synonym uuid_check = "cstr \<Rightarrow> bool"

definition uuid_checker :: "uuid_check \<Rightarrow> bool" where
  "uuid_checker uv \<longleftrightarrow> \<not> uv None \<and> (\<forall>s. uv (Some s) \<longrightarrow> length s = 36)"

section \<open>Operations\<close>

definition valid_id :: "uuid_check \<Rightarrow> cstr \<Rightarrow> bool" where
  "valid_id uv ident \<longleftrightarrow>
     uv ident \<and> (case ident of None \<Rightarrow> True
       | Some s \<Rightarrow> list_all (\<lambda>c. \<not> (65 \<le> chr_ord c \<and> chr_ord c \<le> 70)) s)"

definition valid_site :: "cstr \<Rightarrow> bool" where
  "valid_site site = (case site of
     None \<Rightarrow> False
   | Some s \<Rightarrow> s \<noteq> [] \<and> length s < 128 \<and> list_all (\<lambda>c. \<not> (chr_ord c < 32 \<or> chr_ord c = 127)) s)"

definition lt_find_idx :: "link_tree \<Rightarrow> cstr \<Rightarrow> nat option" where
  "lt_find_idx tree ident = (case ident of
     None \<Rightarrow> None
   | Some s \<Rightarrow> find_idx (\<lambda>n. ln_server n = s) (lt_nodes tree))"

definition lt_find :: "link_tree \<Rightarrow> cstr \<Rightarrow> link_node option" where
  "lt_find tree ident = (case ident of
     None \<Rightarrow> None
   | Some s \<Rightarrow> List.find (\<lambda>n. ln_server n = s) (lt_nodes tree))"

definition rr_link_tree_new :: "uuid_check \<Rightarrow> cstr \<Rightarrow> nat \<Rightarrow> link_tree option" where
  "rr_link_tree_new uv local limit =
     (if \<not> valid_id uv local \<or> limit = 0 \<or> limit > 256 then None
      else case local of
        None \<Rightarrow> None
      | Some l \<Rightarrow> Some \<lparr>lt_nodes = [\<lparr>ln_server = l, ln_parent = [], ln_peer = [], ln_site = []\<rparr>],
                        lt_limit = limit\<rparr>)"

definition rr_link_tree_set_local_site :: "link_tree \<Rightarrow> cstr \<Rightarrow> bool \<times> link_tree" where
  "rr_link_tree_set_local_site tree site =
     (if \<not> valid_site site then (False, tree)
      else (True, tree\<lparr>lt_nodes := (lt_nodes tree)[0 := (lt_nodes tree ! 0)\<lparr>ln_site := the site\<rparr>]\<rparr>))"

definition rr_link_tree_count :: "link_tree \<Rightarrow> nat" where
  "rr_link_tree_count tree = length (lt_nodes tree)"

definition rr_link_tree_node :: "link_tree \<Rightarrow> nat \<Rightarrow> link_offer option" where
  "rr_link_tree_node tree index =
     (if index \<ge> length (lt_nodes tree) then None
      else let n = lt_nodes tree ! index in
        Some \<lparr>of_server = Some (ln_server n),
              of_parent = (if index \<noteq> 0 then Some (ln_parent n) else None),
              of_site = Some (ln_site n)\<rparr>)"

text \<open>
  The first loop of \<open>rr_link_tree_attach\<close>: \<open>seen\<close> are the offered nodes before the current one,
  \<open>roots\<close> counts those that are the peer. The first failing check decides the result.
\<close>

fun attach_scan :: "uuid_check \<Rightarrow> link_tree \<Rightarrow> string \<Rightarrow> link_offer list \<Rightarrow> link_offer list \<Rightarrow> nat
    \<Rightarrow> link_result + nat" where
  "attach_scan uv tree peer seen [] roots = Inr roots"
| "attach_scan uv tree peer seen (n # ns) roots =
     (if \<not> valid_id uv (of_server n) \<or> \<not> valid_site (of_site n) then Inl RR_LINK_INVALID
      else if lt_find tree (of_server n) \<noteq> None then Inl RR_LINK_OVERLAP
      else if list_ex (\<lambda>m. of_server m = of_server n) seen then Inl RR_LINK_OVERLAP
      else if of_server n = Some peer then
        (if of_parent n \<noteq> None then Inl RR_LINK_INVALID
         else attach_scan uv tree peer (seen @ [n]) ns (roots + 1))
      else if \<not> valid_id uv (of_parent n) then Inl RR_LINK_INVALID
      else attach_scan uv tree peer (seen @ [n]) ns roots)"

text \<open>
  The inner \<open>while\<close> of the parent-chain check. The code counts \<open>steps\<close> up to \<open>count\<close>; the first
  argument is what is left of that budget.
\<close>

fun chain_reaches :: "link_offer list \<Rightarrow> string \<Rightarrow> nat \<Rightarrow> string \<Rightarrow> bool" where
  "chain_reaches nodes peer 0 ident = (ident = peer)"
| "chain_reaches nodes peer (Suc budget) ident =
     (if ident = peer then True
      else case List.find (\<lambda>n. of_server n = Some ident) nodes of
        None \<Rightarrow> False
      | Some n \<Rightarrow> (case of_parent n of None \<Rightarrow> False | Some p \<Rightarrow> chain_reaches nodes peer budget p))"

definition attach_node :: "string \<Rightarrow> string \<Rightarrow> link_offer \<Rightarrow> link_node" where
  "attach_node local peer n =
     \<lparr>ln_server = the (of_server n),
      ln_parent = (case of_parent n of Some p \<Rightarrow> p | None \<Rightarrow> local),
      ln_peer = peer, ln_site = the (of_site n)\<rparr>"

text \<open>\<open>nodes = []\<close> stands for a \<open>NULL\<close> array or a zero count.\<close>

definition rr_link_tree_attach ::
    "uuid_check \<Rightarrow> link_tree \<Rightarrow> cstr \<Rightarrow> link_offer list \<Rightarrow> link_result \<times> link_tree" where
  "rr_link_tree_attach uv tree peer nodes =
     (if \<not> valid_id uv peer \<or> nodes = [] then (RR_LINK_INVALID, tree)
      else if length nodes > lt_limit tree - length (lt_nodes tree) then (RR_LINK_LIMIT, tree)
      else case attach_scan uv tree (the peer) [] nodes 0 of
        Inl e \<Rightarrow> (e, tree)
      | Inr roots \<Rightarrow>
          (if roots \<noteq> 1 then (RR_LINK_INVALID, tree)
           else if \<not> list_all (\<lambda>n. chain_reaches nodes (the peer) (length nodes) (the (of_server n))) nodes
             then (RR_LINK_INVALID, tree)
           else (RR_LINK_OK,
             tree\<lparr>lt_nodes := lt_nodes tree @
               map (attach_node (ln_server (lt_nodes tree ! 0)) (the peer)) nodes\<rparr>)))"

definition rr_link_tree_add ::
    "uuid_check \<Rightarrow> link_tree \<Rightarrow> cstr \<Rightarrow> cstr \<Rightarrow> cstr \<Rightarrow> cstr \<Rightarrow> link_result \<times> link_tree" where
  "rr_link_tree_add uv tree peer server parent site =
     (if \<not> valid_id uv peer \<or> \<not> valid_id uv server \<or> \<not> valid_id uv parent \<or> \<not> valid_site site
        then (RR_LINK_INVALID, tree)
      else case (lt_find tree peer, lt_find tree parent) of
        (Some source, Some owner) \<Rightarrow>
          (if ln_peer source \<noteq> the peer \<or> ln_server source \<noteq> ln_peer source \<or> ln_peer owner \<noteq> the peer
             then (RR_LINK_INVALID, tree)
           else if lt_find tree server \<noteq> None then (RR_LINK_OVERLAP, tree)
           else if length (lt_nodes tree) = lt_limit tree then (RR_LINK_LIMIT, tree)
           else (RR_LINK_OK, tree\<lparr>lt_nodes := lt_nodes tree @
                  [\<lparr>ln_server = the server, ln_parent = the parent, ln_peer = the peer, ln_site = the site\<rparr>]\<rparr>))
      | _ \<Rightarrow> (RR_LINK_INVALID, tree))"

definition rr_link_tree_route :: "link_tree \<Rightarrow> cstr \<Rightarrow> cstr" where
  "rr_link_tree_route tree server = (case lt_find tree server of
     None \<Rightarrow> None
   | Some n \<Rightarrow> (if ln_peer n \<noteq> [] then Some (ln_peer n) else None))"

text \<open>
  Removal marks before it compacts. \<open>mark_at\<close> is the body of the inner \<open>for\<close>, which sees the marks
  made earlier in the same pass; \<open>mark_loop\<close> is the \<open>do \<dots> while (changed)\<close>.
\<close>

definition mark_at :: "link_node list \<Rightarrow> nat \<Rightarrow> bool list \<times> bool \<Rightarrow> bool list \<times> bool" where
  "mark_at nodes i st = (case st of (removed, changed) \<Rightarrow>
     (if removed ! i then (removed, changed)
      else case find_idx (\<lambda>n. ln_server n = ln_parent (nodes ! i)) nodes of
        None \<Rightarrow> (removed, changed)
      | Some j \<Rightarrow> (if removed ! j then (removed[i := True], True) else (removed, changed))))"

definition mark_pass :: "link_node list \<Rightarrow> bool list \<Rightarrow> bool list \<times> bool" where
  "mark_pass nodes removed = fold (mark_at nodes) [1..<length nodes] (removed, False)"

definition unmarked :: "bool list \<Rightarrow> nat" where
  "unmarked removed = length (filter Not removed)"

lemma unmarked_update:
  "i < length r \<Longrightarrow> \<not> r ! i \<Longrightarrow> unmarked (r[i := True]) < unmarked r"
proof (induction r arbitrary: i)
  case Nil
  then show ?case by simp
next
  case (Cons b r)
  then show ?case by (cases i) (auto simp: unmarked_def)
qed

lemma mark_at_length [simp]: "length (fst (mark_at nodes i st)) = length (fst st)"
  by (auto simp: mark_at_def split: prod.splits option.splits)

lemma mark_fold_length [simp]: "length (fst (fold (mark_at nodes) is st)) = length (fst st)"
  by (induction "is" arbitrary: st) auto

lemma mark_at_unmarked:
  assumes "i < length (fst st)"
  shows "unmarked (fst (mark_at nodes i st)) \<le> unmarked (fst st) \<and>
    (snd (mark_at nodes i st) \<longrightarrow> snd st \<or> unmarked (fst (mark_at nodes i st)) < unmarked (fst st))"
  using assms unmarked_update [of i "fst st"]
  by (auto simp: mark_at_def less_imp_le split: prod.splits option.splits)

lemma mark_fold_unmarked:
  assumes "\<forall>i \<in> set is. i < length (fst st)"
  shows "unmarked (fst (fold (mark_at nodes) is st)) \<le> unmarked (fst st) \<and>
    (snd (fold (mark_at nodes) is st) \<longrightarrow>
       snd st \<or> unmarked (fst (fold (mark_at nodes) is st)) < unmarked (fst st))"
  using assms
proof (induction "is" arbitrary: st)
  case Nil
  then show ?case by simp
next
  case (Cons i "is")
  from Cons.prems have i: "i < length (fst st)" by simp
  from mark_at_unmarked [OF i, of nodes] Cons.IH [of "mark_at nodes i st"] Cons.prems
  show ?case by auto
qed

text \<open>The loop needs the marks to cover the node array, as \<open>removed[256]\<close> does.\<close>

function mark_loop :: "link_node list \<Rightarrow> bool list \<Rightarrow> bool list" where
  "mark_loop nodes removed =
     (if length removed \<noteq> length nodes then removed
      else if snd (mark_pass nodes removed) then mark_loop nodes (fst (mark_pass nodes removed))
      else fst (mark_pass nodes removed))"
  by pat_completeness auto
termination
proof (relation "measure (\<lambda>(nodes, removed). unmarked removed)", goal_cases)
  case (2 nodes removed)
  have "\<forall>i \<in> set [1..<length nodes]. i < length (fst (removed, False))" using 2(1) by simp
  from mark_fold_unmarked [OF this, of nodes] 2 show ?case by (simp add: mark_pass_def)
qed simp

declare mark_loop.simps [simp del]

definition rr_link_tree_remove :: "link_tree \<Rightarrow> cstr \<Rightarrow> cstr \<Rightarrow> bool \<times> link_tree" where
  "rr_link_tree_remove tree peer server = (case (lt_find_idx tree server, peer) of
     (Some i, Some p) \<Rightarrow>
       (if ln_peer (lt_nodes tree ! i) = [] \<or> ln_peer (lt_nodes tree ! i) \<noteq> p then (False, tree)
        else let nodes = lt_nodes tree;
                 removed = mark_loop nodes ((replicate (length nodes) False)[i := True])
             in (True, tree\<lparr>lt_nodes := map snd (filter (Not \<circ> fst) (zip removed nodes))\<rparr>))
   | _ \<Rightarrow> (False, tree))"


section \<open>Reference semantics\<close>

text \<open>
  \<open>branch ns s p\<close>: following parents from \<open>s\<close> leads to the local server, and \<open>p\<close> is the last
  server before it. \<open>below ns s t\<close>: \<open>t\<close> is \<open>s\<close> or one of its descendants. \<open>offered_under\<close> is
  the same path relation inside an offered component.
\<close>

inductive branch :: "link_node list \<Rightarrow> string \<Rightarrow> string \<Rightarrow> bool" for ns where
  branch_root: "n \<in> set (tl ns) \<Longrightarrow> ln_parent n = ln_server (hd ns) \<Longrightarrow>
     branch ns (ln_server n) (ln_server n)"
| branch_child: "n \<in> set (tl ns) \<Longrightarrow> branch ns (ln_parent n) p \<Longrightarrow> branch ns (ln_server n) p"

inductive below :: "link_node list \<Rightarrow> string \<Rightarrow> string \<Rightarrow> bool" for ns s where
  below_self: "below ns s s"
| below_child: "n \<in> set (tl ns) \<Longrightarrow> below ns s (ln_parent n) \<Longrightarrow> below ns s (ln_server n)"

inductive offered_under :: "link_offer list \<Rightarrow> string \<Rightarrow> string \<Rightarrow> bool" for os peer where
  under_peer: "offered_under os peer peer"
| under_child: "n \<in> set os \<Longrightarrow> of_server n = Some s \<Longrightarrow> of_parent n = Some p \<Longrightarrow>
     offered_under os peer p \<Longrightarrow> offered_under os peer s"

definition tree_inv :: "link_tree \<Rightarrow> bool" where
  "tree_inv tree \<longleftrightarrow>
     lt_nodes tree \<noteq> [] \<and> length (lt_nodes tree) \<le> lt_limit tree \<and> lt_limit tree \<le> 256 \<and>
     ln_peer (hd (lt_nodes tree)) = [] \<and> distinct (map ln_server (lt_nodes tree)) \<and>
     (\<forall>n \<in> set (tl (lt_nodes tree)).
        ln_peer n \<noteq> [] \<and> branch (lt_nodes tree) (ln_server n) (ln_peer n))"

lemma branch_server: "branch ns s p \<Longrightarrow> s \<in> ln_server ` set (tl ns)"
  by (induction rule: branch.induct) auto

lemma branch_mono:
  assumes "branch ns s p" "set (tl ns) \<subseteq> set (tl ms)" "ln_server (hd ms) = ln_server (hd ns)"
  shows "branch ms s p"
  using assms by (induction rule: branch.induct) (auto intro: branch.intros)

lemma distinct_serverD:
  "distinct (map ln_server ns) \<Longrightarrow> m \<in> set ns \<Longrightarrow> n \<in> set ns \<Longrightarrow>
     ln_server m = ln_server n \<Longrightarrow> m = n"
  by (auto simp: distinct_map dest: inj_onD)

lemma branch_unique:
  assumes "branch ns s p" "branch ns s q" "distinct (map ln_server ns)" "ns \<noteq> []"
  shows "p = q"
  using assms
proof (induction arbitrary: q rule: branch.induct)
  case (branch_root n)
  have local_no_branch: "\<not> branch ns (ln_server (hd ns)) q" for q
  proof
    assume "branch ns (ln_server (hd ns)) q"
    from branch_server [OF this] branch_root.prems show False
      by (cases ns) auto
  qed
  from \<open>branch ns (ln_server n) q\<close> show ?case
  proof (cases rule: branch.cases)
    case (branch_child m)
    with branch_root have "m = n"
      by (cases ns) (auto dest: distinct_serverD)
    with branch_child branch_root local_no_branch show ?thesis by simp
  qed simp
next
  case (branch_child n p)
  have local_no_branch: "\<not> branch ns (ln_server (hd ns)) q" for q
  proof
    assume "branch ns (ln_server (hd ns)) q"
    from branch_server [OF this] branch_child.prems show False
      by (cases ns) auto
  qed
  from \<open>branch ns (ln_server n) q\<close> show ?case
  proof (cases rule: branch.cases)
    case (branch_root m)
    with branch_child have "m = n"
      by (cases ns) (auto dest: distinct_serverD)
    with branch_root branch_child local_no_branch show ?thesis by auto
  next
    case (branch_child m)
    with \<open>n \<in> set (tl ns)\<close> branch_child.prems have "m = n"
      using \<open>distinct (map ln_server ns)\<close> by (cases ns) (auto dest: distinct_serverD)
    with branch_child branch_child.IH show ?thesis
      using \<open>distinct (map ln_server ns)\<close> \<open>ns \<noteq> []\<close> by blast
  qed
qed

section \<open>Attachment accepts exactly the well-formed components\<close>

lemma lt_find_None: "lt_find tree (Some s) = None \<longleftrightarrow> s \<notin> ln_server ` set (lt_nodes tree)"
  by (auto simp: lt_find_def find_None_iff)

lemma lt_find_Some:
  "distinct (map ln_server (lt_nodes tree)) \<Longrightarrow>
     lt_find tree (Some s) = Some n \<longleftrightarrow> n \<in> set (lt_nodes tree) \<and> ln_server n = s"
  by (simp add: lt_find_def find_Some_iff_distinct)

lemma lt_find_idx_Some:
  "distinct (map ln_server (lt_nodes tree)) \<Longrightarrow>
     lt_find_idx tree (Some s) = Some i \<longleftrightarrow>
       i < length (lt_nodes tree) \<and> ln_server (lt_nodes tree ! i) = s"
  by (auto simp: lt_find_idx_def dest: find_idx_SomeD intro: find_idx_distinct)

lemma valid_id_Some: "uuid_checker uv \<Longrightarrow> valid_id uv i \<Longrightarrow> \<exists>s. i = Some s \<and> length s = 36"
  by (cases i) (auto simp: valid_id_def uuid_checker_def)

definition offer_ok :: "uuid_check \<Rightarrow> link_tree \<Rightarrow> string \<Rightarrow> link_offer \<Rightarrow> bool" where
  "offer_ok uv tree peer n \<longleftrightarrow>
     valid_id uv (of_server n) \<and> valid_site (of_site n) \<and> lt_find tree (of_server n) = None \<and>
     (if of_server n = Some peer then of_parent n = None else valid_id uv (of_parent n))"

lemma attach_scan_Inr:
  "attach_scan uv tree peer seen ns r = Inr r' \<longleftrightarrow>
     (\<forall>n \<in> set ns. offer_ok uv tree peer n) \<and> distinct (map of_server ns) \<and>
     of_server ` set ns \<inter> of_server ` set seen = {} \<and>
     r' = r + length (filter (\<lambda>n. of_server n = Some peer) ns)"
proof (induction ns arbitrary: seen r)
  case Nil
  then show ?case by auto
next
  case (Cons n ns)
  have dup: "list_ex (\<lambda>m. of_server m = of_server n) seen \<longleftrightarrow> of_server n \<in> of_server ` set seen"
    unfolding list_ex_iff image_iff by (metis)
  have head: "attach_scan uv tree peer seen (n # ns) r = Inr r' \<longleftrightarrow>
      offer_ok uv tree peer n \<and> of_server n \<notin> of_server ` set seen \<and>
      attach_scan uv tree peer (seen @ [n]) ns
        (if of_server n = Some peer then r + 1 else r) = Inr r'"
    unfolding attach_scan.simps dup offer_ok_def by (cases "of_server n = Some peer") (simp; blast)+
  show ?case
    unfolding head Cons.IH by auto
qed

lemma count_peer:
  "distinct (map of_server ns) \<Longrightarrow>
     length (filter (\<lambda>n. of_server n = s) ns) = (if s \<in> of_server ` set ns then 1 else 0)"
  by (induction ns) (auto simp: filter_empty_conv)

lemma find_offer:
  "distinct (map of_server os) \<Longrightarrow>
     List.find (\<lambda>n. of_server n = Some s) os = Some n \<longleftrightarrow> n \<in> set os \<and> of_server n = Some s"
  by (rule find_Some_iff_distinct)

lemma chain_step:
  "chain_reaches os peer (Suc b) s \<longleftrightarrow> s = peer \<or>
     (\<exists>n p. List.find (\<lambda>n. of_server n = Some s) os = Some n \<and> of_parent n = Some p \<and>
            chain_reaches os peer b p)"
  by (auto split: option.splits)

declare chain_reaches.simps(2) [simp del]

lemma chain_sound: "chain_reaches os peer b s \<Longrightarrow> offered_under os peer s"
proof (induction b arbitrary: s)
  case 0
  then show ?case by (auto intro: under_peer)
next
  case (Suc b)
  then show ?case
    by (auto simp: chain_step intro: under_peer under_child dest!: find_SomeD)
qed

lemma chain_Suc: "chain_reaches os peer b s \<Longrightarrow> chain_reaches os peer (Suc b) s"
proof (induction b arbitrary: s)
  case 0
  then show ?case by (simp add: chain_step)
next
  case (Suc b)
  from Suc.prems have "s = peer \<or> (\<exists>n p. List.find (\<lambda>n. of_server n = Some s) os = Some n \<and>
      of_parent n = Some p \<and> chain_reaches os peer b p)"
    by (simp only: chain_step)
  with Suc.IH show ?case unfolding chain_step [of os peer "Suc b"] by blast
qed

lemma chain_mono: "b \<le> c \<Longrightarrow> chain_reaches os peer b s \<Longrightarrow> chain_reaches os peer c s"
  by (induction c rule: dec_induct) (auto intro: chain_Suc)

lemma under_chain:
  assumes "offered_under os peer s" "distinct (map of_server os)"
  shows "\<exists>b. chain_reaches os peer b s"
  using assms
proof (induction rule: offered_under.induct)
  case under_peer
  have "chain_reaches os peer 0 peer" by simp
  then show ?case ..
next
  case (under_child n s p)
  then obtain b where "chain_reaches os peer b p" by blast
  with under_child find_offer [of os s n] have "chain_reaches os peer (Suc b) s"
    by (auto simp: chain_step)
  then show ?case ..
qed

text \<open>
  The budget of the code is enough: a server first reached with budget \<open>k + 1\<close> has \<open>k + 1\<close>
  distinct offered servers on its chain, so \<open>k < length os\<close>.
\<close>

lemma chain_distinct_servers:
  "chain_reaches os peer (Suc k) s \<Longrightarrow> \<not> chain_reaches os peer k s \<Longrightarrow>
     \<exists>L. distinct L \<and> length L = Suc k \<and> set L \<subseteq> of_server ` set os \<and>
         (\<forall>x \<in> set L. \<exists>t. x = Some t \<and> chain_reaches os peer (Suc k) t)"
proof (induction k arbitrary: s)
  case 0
  then obtain n where "List.find (\<lambda>n. of_server n = Some s) os = Some n"
    by (auto simp: chain_step)
  then have "Some s \<in> of_server ` set os" by (force dest: find_SomeD)
  with 0 show ?case by (intro exI [of _ "[Some s]"]) auto
next
  case (Suc k)
  from Suc.prems obtain n p where n: "List.find (\<lambda>n. of_server n = Some s) os = Some n"
    and p: "of_parent n = Some p" "chain_reaches os peer (Suc k) p" and sp: "s \<noteq> peer"
    by (auto simp: chain_step [of os peer "Suc k"] chain_step [of os peer k s])
  from Suc.prems(2) sp n p(1) have np: "\<not> chain_reaches os peer k p" by (auto simp: chain_step)
  from Suc.IH [OF p(2) np] obtain L where L: "distinct L" "length L = Suc k"
    "set L \<subseteq> of_server ` set os" "\<forall>x \<in> set L. \<exists>t. x = Some t \<and> chain_reaches os peer (Suc k) t"
    by blast
  from L(4) Suc.prems(2) have "Some s \<notin> set L" by auto
  moreover from n have "Some s \<in> of_server ` set os" by (force dest: find_SomeD)
  moreover have "\<forall>x \<in> set L. \<exists>t. x = Some t \<and> chain_reaches os peer (Suc (Suc k)) t"
    using L(4) chain_Suc by blast
  ultimately show ?case
    using L(1-3) Suc.prems(1) by (intro exI [of _ "Some s # L"]) simp
qed

lemma chain_budget_enough:
  assumes "chain_reaches os peer b s"
  shows "chain_reaches os peer (length os) s"
proof (rule ccontr)
  assume no: "\<not> chain_reaches os peer (length os) s"
  define k where "k = (LEAST k. chain_reaches os peer k s)"
  from assms have k: "chain_reaches os peer k s" unfolding k_def by (rule LeastI)
  from no k have "length os < k" by (metis chain_mono not_less)
  then obtain j where j: "k = Suc j" by (cases k) auto
  have "j < (LEAST k. chain_reaches os peer k s)" using j unfolding k_def by simp
  then have "\<not> chain_reaches os peer j s" by (rule not_less_Least)
  with k j obtain L where L: "distinct L" "length L = Suc j" "set L \<subseteq> of_server ` set os"
    using chain_distinct_servers by blast
  have "length L = card (set L)" using L(1) by (simp add: distinct_card)
  also have "\<dots> \<le> card (of_server ` set os)" using L(3) by (simp add: card_mono)
  also have "\<dots> \<le> length os" by (meson card_image_le card_length finite_set le_trans)
  finally show False using L(2) j \<open>length os < k\<close> by simp
qed

lemma chain_iff_under:
  "distinct (map of_server os) \<Longrightarrow>
     chain_reaches os peer (length os) s \<longleftrightarrow> offered_under os peer s"
  by (meson chain_budget_enough chain_sound under_chain)

text \<open>What a peer may attach: a fresh, well-formed component in which every server is under the peer.\<close>

definition component_ok :: "uuid_check \<Rightarrow> link_tree \<Rightarrow> string \<Rightarrow> link_offer list \<Rightarrow> bool" where
  "component_ok uv tree peer os \<longleftrightarrow>
     length os + length (lt_nodes tree) \<le> lt_limit tree \<and>
     (\<forall>n \<in> set os. offer_ok uv tree peer n) \<and> distinct (map of_server os) \<and>
     Some peer \<in> of_server ` set os \<and>
     (\<forall>n \<in> set os. offered_under os peer (the (of_server n)))"

lemma attach_scan_Inl: "attach_scan uv tree peer seen ns r = Inl e \<Longrightarrow> e \<noteq> RR_LINK_OK"
  by (induction uv tree peer seen ns r rule: attach_scan.induct) (auto split: if_splits)

lemma attach_OK:
  assumes "valid_id uv (Some peer)" "length (lt_nodes tree) \<le> lt_limit tree"
  shows "fst (rr_link_tree_attach uv tree (Some peer) os) = RR_LINK_OK \<longleftrightarrow> component_ok uv tree peer os"
proof (cases "attach_scan uv tree peer [] os 0")
  case (Inl e)
  from attach_scan_Inl [OF Inl] have "e \<noteq> RR_LINK_OK" .
  moreover from Inl have "\<not> ((\<forall>n \<in> set os. offer_ok uv tree peer n) \<and> distinct (map of_server os))"
    using attach_scan_Inr [of uv tree peer "[]" os 0] by auto
  ultimately show ?thesis using Inl by (auto simp: rr_link_tree_attach_def component_ok_def)
next
  case (Inr r)
  from Inr have ok: "\<forall>n \<in> set os. offer_ok uv tree peer n" "distinct (map of_server os)"
    "r = length (filter (\<lambda>n. of_server n = Some peer) os)"
    using attach_scan_Inr [of uv tree peer "[]" os 0 r] by auto
  from count_peer [OF ok(2), of "Some peer"] ok(3)
  have r: "r = 1 \<longleftrightarrow> Some peer \<in> of_server ` set os" by simp
  show ?thesis
    using Inr assms ok r chain_iff_under [OF ok(2), of peer]
    by (auto simp: rr_link_tree_attach_def component_ok_def list_all_iff)
qed

section \<open>Every operation keeps the tree\<close>

lemma tree_invI:
  assumes "lt_nodes tree \<noteq> []" "length (lt_nodes tree) \<le> lt_limit tree" "lt_limit tree \<le> 256"
    "ln_peer (hd (lt_nodes tree)) = []" "distinct (map ln_server (lt_nodes tree))"
    "\<And>n. n \<in> set (tl (lt_nodes tree)) \<Longrightarrow> ln_peer n \<noteq> []"
    "\<And>n. n \<in> set (tl (lt_nodes tree)) \<Longrightarrow> branch (lt_nodes tree) (ln_server n) (ln_peer n)"
  shows "tree_inv tree"
  using assms by (simp add: tree_inv_def)

lemma new_inv: "rr_link_tree_new uv local limit = Some t \<Longrightarrow> tree_inv t"
  by (auto simp: rr_link_tree_new_def tree_inv_def split: if_splits option.splits)

lemma append_inv:
  assumes inv: "tree_inv tree" and fits: "length (lt_nodes tree) + length ms \<le> lt_limit tree"
    and fresh: "distinct (map ln_server (lt_nodes tree @ ms))"
    and new: "\<And>n. n \<in> set ms \<Longrightarrow> ln_peer n \<noteq> [] \<and>
                branch (lt_nodes tree @ ms) (ln_server n) (ln_peer n)"
  shows "tree_inv (tree\<lparr>lt_nodes := lt_nodes tree @ ms\<rparr>)"
proof -
  from inv have ne: "lt_nodes tree \<noteq> []" by (simp add: tree_inv_def)
  have old: "branch (lt_nodes tree @ ms) (ln_server n) (ln_peer n)"
    if "n \<in> set (tl (lt_nodes tree))" for n
    using that inv ne by (auto simp: tree_inv_def intro: branch_mono)
  show ?thesis
    by (rule tree_invI) (use inv fits fresh new ne old in \<open>auto simp: tree_inv_def\<close>)
qed

lemma set_local_site_inv [inv_rules]:
  "tree_inv tree \<Longrightarrow> tree_inv (snd (rr_link_tree_set_local_site tree site))"
proof -
  assume inv: "tree_inv tree"
  then obtain l ns where tree: "lt_nodes tree = l # ns" by (cases "lt_nodes tree") (auto simp: tree_inv_def)
  have "branch (l\<lparr>ln_site := x\<rparr> # ns) s p" if "branch (l # ns) s p" for s p x
    using that by (rule branch_mono) auto
  with inv tree show ?thesis
    by (auto simp: rr_link_tree_set_local_site_def tree_inv_def)
qed

text \<open>Parents of an attached component resolve inside it, so its path relation is the tree's.\<close>

lemma under_branch:
  assumes under: "offered_under os peer s"
    and peer: "m \<in> set os" "of_server m = Some peer" "of_parent m = None"
    and ns: "set (map (attach_node local p) os) \<subseteq> set (tl ns)" "ln_server (hd ns) = local"
  shows "branch ns s peer"
  using under
proof (induction rule: offered_under.induct)
  case under_peer
  have "attach_node local p m \<in> set (tl ns)" using peer ns by auto
  from branch_root [OF this] peer ns show ?case by (simp add: attach_node_def)
next
  case (under_child n s q)
  have "attach_node local p n \<in> set (tl ns)" using under_child ns by auto
  from branch_child [OF this, of peer] under_child show ?case by (simp add: attach_node_def)
qed

lemma attach_inv [inv_rules]:
  assumes uv: "uuid_checker uv" and inv: "tree_inv tree"
  shows "tree_inv (snd (rr_link_tree_attach uv tree peer os))"
proof (cases "fst (rr_link_tree_attach uv tree peer os) = RR_LINK_OK")
  case False
  then have "snd (rr_link_tree_attach uv tree peer os) = tree"
    by (auto simp: rr_link_tree_attach_def split: sum.splits if_splits)
  with inv show ?thesis by simp
next
  case True
  then have vp: "valid_id uv peer" by (auto simp: rr_link_tree_attach_def split: if_splits)
  with uv obtain p where p: "peer = Some p" "length p = 36" using valid_id_Some by blast
  let ?ns = "lt_nodes tree" and ?local = "ln_server (lt_nodes tree ! 0)"
  let ?ms = "map (attach_node ?local p) os"
  from inv have ne: "?ns \<noteq> []" and len: "length ?ns \<le> lt_limit tree" by (auto simp: tree_inv_def)
  from True vp p len have ok: "component_ok uv tree p os" by (simp add: attach_OK)
  then have offers: "\<forall>n \<in> set os. offer_ok uv tree p n" "distinct (map of_server os)" by (auto simp: component_ok_def)
  from ok obtain m where m: "m \<in> set os" "of_server m = Some p" by (auto simp: component_ok_def)
  with offers have mp: "of_parent m = None" by (auto simp: offer_ok_def)
  have some: "\<exists>s. of_server n = Some s" if "n \<in> set os" for n
    using that offers uv valid_id_Some by (fastforce simp: offer_ok_def)
  have res: "snd (rr_link_tree_attach uv tree peer os) = tree\<lparr>lt_nodes := ?ns @ ?ms\<rparr>"
    using True p(1) attach_scan_Inl [of uv tree p "[]" os 0]
    by (auto simp: rr_link_tree_attach_def split: sum.splits if_splits)
  have hd: "hd (?ns @ ?ms) = ?ns ! 0" using ne by (simp add: hd_append hd_conv_nth)
  have "tree_inv (tree\<lparr>lt_nodes := ?ns @ ?ms\<rparr>)"
  proof (rule append_inv [OF inv])
    show "length ?ns + length ?ms \<le> lt_limit tree" using ok by (simp add: component_ok_def)
    have "distinct (map (\<lambda>n. the (of_server n)) os)"
    proof (unfold distinct_map, intro conjI inj_onI)
      show "distinct os" using offers(2) by (simp add: distinct_map)
      fix x y assume xy: "x \<in> set os" "y \<in> set os" "the (of_server x) = the (of_server y)"
      with some [OF xy(1)] some [OF xy(2)] have "of_server x = of_server y" by auto
      with offers(2) xy show "x = y" by (auto simp: distinct_map dest: inj_onD)
    qed
    moreover have "the (of_server n) \<notin> ln_server ` set ?ns" if "n \<in> set os" for n
      using that offers some [OF that] by (auto simp: offer_ok_def lt_find_None)
    ultimately show "distinct (map ln_server (?ns @ ?ms))"
      using inv by (auto simp: tree_inv_def attach_node_def comp_def) (metis image_eqI)
  next
    fix n assume "n \<in> set ?ms"
    then obtain k where k: "k \<in> set os" "n = attach_node ?local p k" by auto
    from k(1) ok have "offered_under os p (the (of_server k))" by (simp add: component_ok_def)
    from under_branch [OF this m mp, of ?local p "?ns @ ?ms"] hd ne
    have "branch (?ns @ ?ms) (the (of_server k)) p" by simp
    with k(2) p(2) show "ln_peer n \<noteq> [] \<and> branch (?ns @ ?ms) (ln_server n) (ln_peer n)"
      by (auto simp: attach_node_def)
  qed
  with res show ?thesis by simp
qed

lemma add_OK_cases:
  assumes "rr_link_tree_add uv tree peer server parent site = (RR_LINK_OK, t)"
  obtains source owner where
    "valid_id uv peer" "valid_id uv server" "valid_id uv parent" "valid_site site"
    "lt_find tree peer = Some source" "ln_peer source = the peer" "ln_server source = the peer"
    "lt_find tree parent = Some owner" "ln_peer owner = the peer"
    "lt_find tree server = None" "length (lt_nodes tree) \<noteq> lt_limit tree"
    "t = tree\<lparr>lt_nodes := lt_nodes tree @ [\<lparr>ln_server = the server, ln_parent = the parent,
                ln_peer = the peer, ln_site = the site\<rparr>]\<rparr>"
  using assms by (auto simp: rr_link_tree_add_def split: if_splits option.splits)

lemma add_refused: "fst (rr_link_tree_add uv tree peer server parent site) \<noteq> RR_LINK_OK \<Longrightarrow>
    snd (rr_link_tree_add uv tree peer server parent site) = tree"
  by (auto simp: rr_link_tree_add_def split: if_splits option.splits)

lemma add_inv [inv_rules]:
  assumes uv: "uuid_checker uv" and inv: "tree_inv tree"
  shows "tree_inv (snd (rr_link_tree_add uv tree peer server parent site))"
proof (cases "fst (rr_link_tree_add uv tree peer server parent site) = RR_LINK_OK")
  case False
  with inv show ?thesis by (simp add: add_refused)
next
  case True
  then obtain t where t: "rr_link_tree_add uv tree peer server parent site = (RR_LINK_OK, t)"
    by (cases "rr_link_tree_add uv tree peer server parent site") auto
  then show ?thesis
  proof (cases rule: add_OK_cases)
    case (1 source owner)
    from 1 uv obtain p s q x where ids: "peer = Some p" "server = Some s" "parent = Some q" "length p = 36"
      using valid_id_Some by meson
    let ?ns = "lt_nodes tree"
    let ?n = "\<lparr>ln_server = s, ln_parent = q, ln_peer = p, ln_site = the site\<rparr>"
    from inv have d: "distinct (map ln_server ?ns)" and ne: "?ns \<noteq> []" by (auto simp: tree_inv_def)
    from 1 ids d have owner: "owner \<in> set ?ns" "ln_server owner = q" "ln_peer owner = p"
      by (auto simp: lt_find_Some)
    with inv ids(4) have "owner \<in> set (tl ?ns)" by (cases ?ns) (auto simp: tree_inv_def)
    with inv owner have b: "branch ?ns q p" by (auto simp: tree_inv_def)
    have "tree_inv (tree\<lparr>lt_nodes := ?ns @ [?n]\<rparr>)"
    proof (rule append_inv [OF inv])
      show "length ?ns + length [?n] \<le> lt_limit tree" using 1 inv by (simp add: tree_inv_def)
      show "distinct (map ln_server (?ns @ [?n]))" using 1 ids d by (auto simp: lt_find_None)
    next
      fix n assume n: "n \<in> set [?n]"
      have "branch (?ns @ [?n]) q p" using b ne by (auto intro: branch_mono)
      with ne have "branch (?ns @ [?n]) (ln_server ?n) p" by (intro branch_child) auto
      with n ids(4) show "ln_peer n \<noteq> [] \<and> branch (?ns @ [?n]) (ln_server n) (ln_peer n)" by auto
    qed
    with t 1 ids show ?thesis by simp
  qed
qed

section \<open>Removal takes exactly a subtree\<close>

text \<open>\<open>marks_ok\<close>: what is marked is below the removed server. \<open>mark_closed\<close>: no mark is missing at \<open>i\<close>.\<close>

definition marks_ok :: "link_node list \<Rightarrow> nat \<Rightarrow> bool list \<Rightarrow> bool" where
  "marks_ok nodes i0 r \<longleftrightarrow> length r = length nodes \<and> r ! i0 \<and>
     (\<forall>k < length nodes. r ! k \<longrightarrow> below nodes (ln_server (nodes ! i0)) (ln_server (nodes ! k)))"

definition mark_closed :: "link_node list \<Rightarrow> bool list \<Rightarrow> nat \<Rightarrow> bool" where
  "mark_closed nodes r i \<longleftrightarrow> r ! i \<or>
     (\<forall>j. find_idx (\<lambda>n. ln_server n = ln_parent (nodes ! i)) nodes = Some j \<longrightarrow> \<not> r ! j)"

lemma nth_in_tl: "i \<in> {1..<length xs} \<Longrightarrow> xs ! i \<in> set (tl xs)"
  by (cases xs) (auto simp: nth_Cons split: nat.splits)

lemma in_tl_nth: "x \<in> set (tl xs) \<Longrightarrow> \<exists>i \<in> {1..<length xs}. xs ! i = x"
  by (cases xs) (force simp: in_set_conv_nth)+

lemma mark_at_ok:
  assumes ok: "marks_ok nodes i0 (fst st)" and i: "i \<in> {1..<length nodes}"
  shows "marks_ok nodes i0 (fst (mark_at nodes i st))"
proof (cases "fst (mark_at nodes i st) = fst st")
  case True
  with ok show ?thesis by simp
next
  case False
  then obtain j where j: "find_idx (\<lambda>n. ln_server n = ln_parent (nodes ! i)) nodes = Some j"
    "fst st ! j" "fst (mark_at nodes i st) = (fst st)[i := True]"
    by (auto simp: mark_at_def split: prod.splits option.splits if_splits)
  from find_idx_SomeD [OF j(1)] have "j < length nodes" "ln_server (nodes ! j) = ln_parent (nodes ! i)" by auto
  with ok j(2) have "below nodes (ln_server (nodes ! i0)) (ln_parent (nodes ! i))"
    unfolding marks_ok_def by metis
  with nth_in_tl [OF i] have "below nodes (ln_server (nodes ! i0)) (ln_server (nodes ! i))"
    by (rule below_child)
  with ok j(3) i show ?thesis by (auto simp: marks_ok_def nth_list_update)
qed

lemma mark_fold_ok:
  "marks_ok nodes i0 (fst st) \<Longrightarrow> set is \<subseteq> {1..<length nodes} \<Longrightarrow>
     marks_ok nodes i0 (fst (fold (mark_at nodes) is st))"
proof (induction "is" arbitrary: st)
  case Nil
  then show ?case by simp
next
  case (Cons i "is")
  with mark_at_ok [of nodes i0 st i] Cons.IH [of "mark_at nodes i st"] show ?case by simp
qed

lemma mark_at_flag: "\<not> snd (mark_at nodes i st) \<Longrightarrow>
    mark_at nodes i st = st \<and> \<not> snd st \<and> mark_closed nodes (fst st) i"
  by (auto simp: mark_at_def mark_closed_def simp del: find_idx_None
      split: prod.splits option.splits if_splits)

lemma mark_fold_flag: "\<not> snd (fold (mark_at nodes) is st) \<Longrightarrow>
    fold (mark_at nodes) is st = st \<and> \<not> snd st \<and> (\<forall>i \<in> set is. mark_closed nodes (fst st) i)"
proof (induction "is" arbitrary: st)
  case Nil
  then show ?case by simp
next
  case (Cons i "is")
  then have "\<not> snd (fold (mark_at nodes) is (mark_at nodes i st))" by simp
  from Cons.IH [OF this] mark_at_flag [of nodes i st] show ?case by auto
qed

lemma mark_loop_ok:
  assumes "marks_ok nodes i0 r"
  shows "marks_ok nodes i0 (mark_loop nodes r) \<and>
    (\<forall>i \<in> {1..<length nodes}. mark_closed nodes (mark_loop nodes r) i)"
  using assms
proof (induction nodes r rule: mark_loop.induct)
  case (1 nodes r)
  then have len: "length r = length nodes" by (simp add: marks_ok_def)
  from mark_fold_ok [of nodes i0 "(r, False)" "[1..<length nodes]"] 1(2)
  have ok: "marks_ok nodes i0 (fst (mark_pass nodes r))" by (simp add: mark_pass_def)
  show ?case
  proof (cases "snd (mark_pass nodes r)")
    case True
    with 1(1) ok len show ?thesis by (simp add: mark_loop.simps [of nodes r])
  next
    case False
    with mark_fold_flag [of nodes "[1..<length nodes]" "(r, False)"] ok len show ?thesis
      by (auto simp: mark_loop.simps [of nodes r] mark_pass_def)
  qed
qed

lemma below_server: "below ns s t \<Longrightarrow> s \<in> ln_server ` set ns \<Longrightarrow> t \<in> ln_server ` set ns"
  by (induction rule: below.induct) (auto dest: list.set_sel(2) [rotated])

lemma marks_complete:
  assumes d: "distinct (map ln_server nodes)" and i0: "i0 < length nodes"
    and ok: "marks_ok nodes i0 r" and closed: "\<forall>i \<in> {1..<length nodes}. mark_closed nodes r i"
    and below: "below nodes (ln_server (nodes ! i0)) t"
  shows "\<forall>k < length nodes. ln_server (nodes ! k) = t \<longrightarrow> r ! k"
  using below
proof (induction rule: below.induct)
  case below_self
  with ok d i0 show ?case
    by (metis (no_types) marks_ok_def length_map nth_eq_iff_index_eq nth_map)
next
  case (below_child n)
  from in_tl_nth [OF below_child(1)] obtain k where k: "k \<in> {1..<length nodes}" "nodes ! k = n" ..
  from below_server [OF below_child(2)] i0 obtain j where j: "j < length nodes" "ln_server (nodes ! j) = ln_parent n"
    by (fastforce simp: in_set_conv_nth)
  with find_idx_distinct [OF d j] closed k below_child.IH have "r ! k" by (auto simp: mark_closed_def)
  with d k show ?case by (metis atLeastLessThan_iff length_map nth_eq_iff_index_eq nth_map)
qed

lemma kept_filter:
  assumes "length r = length xs" "\<And>k. k < length xs \<Longrightarrow> r ! k \<longleftrightarrow> P (xs ! k)"
  shows "map snd (filter (Not \<circ> fst) (zip r xs)) = filter (\<lambda>x. \<not> P x) xs"
  using assms
proof (induction r xs rule: list_induct2)
  case Nil
  then show ?case by simp
next
  case (Cons b r x xs)
  have "b = P x" using Cons.prems [of 0] by simp
  moreover have "r ! k \<longleftrightarrow> P (xs ! k)" if "k < length xs" for k using Cons.prems [of "Suc k"] that by simp
  ultimately show ?case using Cons.IH by simp
qed

text \<open>Which removals are accepted: those of a server the naming peer owns.\<close>

definition removable :: "link_tree \<Rightarrow> cstr \<Rightarrow> cstr \<Rightarrow> bool" where
  "removable tree peer server \<longleftrightarrow>
     (\<exists>n \<in> set (lt_nodes tree). server = Some (ln_server n) \<and> peer = Some (ln_peer n) \<and> ln_peer n \<noteq> [])"

lemma remove_exact:
  assumes inv: "tree_inv tree"
  shows "rr_link_tree_remove tree peer server =
    (if removable tree peer server
     then (True, tree\<lparr>lt_nodes := filter (\<lambda>n. \<not> below (lt_nodes tree) (the server) (ln_server n)) (lt_nodes tree)\<rparr>)
     else (False, tree))"
proof (cases "removable tree peer server")
  case True
  let ?ns = "lt_nodes tree"
  from True obtain n where n: "n \<in> set ?ns" "server = Some (ln_server n)" "peer = Some (ln_peer n)" "ln_peer n \<noteq> []"
    by (auto simp: removable_def)
  then obtain i where i: "i < length ?ns" "?ns ! i = n" by (auto simp: in_set_conv_nth)
  from inv have d: "distinct (map ln_server ?ns)" by (simp add: tree_inv_def)
  with i n have idx: "lt_find_idx tree server = Some i" by (simp add: lt_find_idx_Some)
  let ?r = "mark_loop ?ns ((replicate (length ?ns) False)[i := True])"
  have start: "marks_ok ?ns i ((replicate (length ?ns) False)[i := True])"
    using i by (auto simp: marks_ok_def nth_list_update intro: below_self)
  from mark_loop_ok [OF start] have ok: "marks_ok ?ns i ?r"
    "\<forall>k \<in> {1..<length ?ns}. mark_closed ?ns ?r k" by auto
  from marks_complete [OF d i(1) ok] ok(1) i n
  have "?r ! k \<longleftrightarrow> below ?ns (the server) (ln_server (?ns ! k))" if "k < length ?ns" for k
    using that by (auto simp: marks_ok_def)
  with kept_filter [of ?r ?ns "\<lambda>n. below ?ns (the server) (ln_server n)"] ok(1)
  have "map snd (filter (Not \<circ> fst) (zip ?r ?ns)) =
      filter (\<lambda>n. \<not> below ?ns (the server) (ln_server n)) ?ns" by (simp add: marks_ok_def)
  with True idx i n show ?thesis by (simp add: rr_link_tree_remove_def Let_def)
next
  case False
  have "lt_find_idx tree server = Some i \<Longrightarrow> i < length (lt_nodes tree) \<and> server = Some (ln_server (lt_nodes tree ! i))" for i
    by (cases server) (auto simp: lt_find_idx_def dest: find_idx_SomeD)
  with False show ?thesis
    by (fastforce simp: rr_link_tree_remove_def removable_def split: option.splits)
qed

lemma kept_branch:
  assumes "branch ns x p" "\<not> below ns s x"
  shows "branch (filter (\<lambda>n. \<not> below ns s (ln_server n)) ns) x p \<or> ns = [] \<or> below ns s (ln_server (hd ns))"
  using assms
proof (induction rule: branch.induct)
  case (branch_root n)
  then show ?case
    by (cases ns) (auto intro: branch.branch_root)
next
  case (branch_child n p)
  then have "\<not> below ns s (ln_parent n)" using below_child by metis
  with branch_child show ?case
    by (cases ns) (auto intro: branch.branch_child)
qed

lemma remove_inv [inv_rules]:
  assumes inv: "tree_inv tree"
  shows "tree_inv (snd (rr_link_tree_remove tree peer server))"
proof (cases "removable tree peer server")
  case False
  with inv show ?thesis by (simp add: remove_exact)
next
  case True
  let ?ns = "lt_nodes tree"
  from inv obtain l ms where ns: "?ns = l # ms" by (cases ?ns) (auto simp: tree_inv_def)
  from True obtain n where n: "n \<in> set ?ns" "server = Some (ln_server n)" "ln_peer n \<noteq> []"
    by (auto simp: removable_def)
  from inv ns have d: "ln_server l \<notin> ln_server ` set ms" "distinct (map ln_server ms)" by (auto simp: tree_inv_def)
  from inv ns n have s: "ln_server n \<noteq> ln_server l" using d by (auto simp: tree_inv_def) (metis image_eqI)
  have local: "\<not> below ?ns (the server) (ln_server l)"
  proof
    assume "below ?ns (the server) (ln_server l)"
    then show False by (cases rule: below.cases) (use n s d ns in auto)
  qed
  let ?kept = "filter (\<lambda>n. \<not> below ?ns (the server) (ln_server n)) ?ns"
  have "branch ?kept (ln_server m) (ln_peer m)" if "m \<in> set (tl ?kept)" for m
  proof -
    from that local ns have m: "m \<in> set ms" "\<not> below ?ns (the server) (ln_server m)" by auto
    with inv ns have "branch ?ns (ln_server m) (ln_peer m)" by (auto simp: tree_inv_def)
    from kept_branch [OF this m(2)] local ns show ?thesis by simp
  qed
  moreover have "length ?kept \<le> lt_limit tree"
    using inv by (intro le_trans [OF length_filter_le]) (simp add: tree_inv_def)
  ultimately have "tree_inv (tree\<lparr>lt_nodes := ?kept\<rparr>)"
    using inv ns local
    by (intro tree_invI) (auto simp: tree_inv_def distinct_map_filter)
  with True inv show ?thesis by (simp add: remove_exact)
qed

section \<open>Runs of the component\<close>

datatype link_op =
    SetLocalSite cstr
  | Attach cstr "link_offer list"
  | Add cstr cstr cstr cstr
  | Remove cstr cstr

fun link_step :: "uuid_check \<Rightarrow> link_op \<Rightarrow> link_tree \<Rightarrow> link_tree" where
  "link_step uv (SetLocalSite site) t = snd (rr_link_tree_set_local_site t site)"
| "link_step uv (Attach peer os) t = snd (rr_link_tree_attach uv t peer os)"
| "link_step uv (Add peer server parent site) t = snd (rr_link_tree_add uv t peer server parent site)"
| "link_step uv (Remove peer server) t = snd (rr_link_tree_remove t peer server)"

interpretation link: machine "link_step uv" "\<lambda>t. uuid_checker uv \<and> tree_inv t" for uv
proof
  fix t e assume "uuid_checker uv \<and> tree_inv t"
  then show "uuid_checker uv \<and> tree_inv (link_step uv e t)"
    by (cases e) (auto intro: inv_rules)
qed

text \<open>\<open>rr_link_tree_add\<close> as an insertion into the table of servers.\<close>

definition link_insert :: "uuid_check \<Rightarrow> link_node \<Rightarrow> link_tree \<Rightarrow> link_tree option" where
  "link_insert uv n t =
     (case rr_link_tree_add uv t (Some (ln_peer n)) (Some (ln_server n)) (Some (ln_parent n)) (Some (ln_site n)) of
        (r, t') \<Rightarrow> if r = RR_LINK_OK then Some t' else None)"

interpretation servers: keyed_registry ln_server lt_nodes "\<lambda>t k. lt_find t (Some k)" "link_insert uv" for uv
proof
  fix t k show "lt_find t (Some k) = List.find (\<lambda>e. ln_server e = k) (lt_nodes t)"
    by (simp add: lt_find_def)
next
  fix e t t' assume "link_insert uv e t = Some t'"
  then have *: "rr_link_tree_add uv t (Some (ln_peer e)) (Some (ln_server e)) (Some (ln_parent e)) (Some (ln_site e))
      = (RR_LINK_OK, t')"
    by (auto simp: link_insert_def split: prod.splits if_splits)
  then show "lt_find t (Some (ln_server e)) = None" by (cases rule: add_OK_cases) auto
  from * show "lt_nodes t' = lt_nodes t @ [e] \<or> lt_nodes t' = e # lt_nodes t"
    by (cases rule: add_OK_cases) auto
qed

definition link_run :: "uuid_check \<Rightarrow> link_op list \<Rightarrow> link_tree \<Rightarrow> link_tree" where
  "link_run uv ops t = fold (link_step uv) ops t"

lemma link_run_inv:
  "uuid_checker uv \<Longrightarrow> rr_link_tree_new uv local limit = Some t \<Longrightarrow> tree_inv (link_run uv ops t)"
  using link.run_inv [of uv t ops] new_inv by (auto simp: link_run_def)

lemma route_branch:
  assumes "tree_inv t"
  shows "rr_link_tree_route t server = Some p \<longleftrightarrow> (\<exists>s. server = Some s \<and> branch (lt_nodes t) s p)"
proof (cases server)
  case None
  then show ?thesis by (simp add: rr_link_tree_route_def lt_find_def)
next
  case (Some s)
  from assms obtain l ms where ns: "lt_nodes t = l # ms" by (cases "lt_nodes t") (auto simp: tree_inv_def)
  from assms have d: "distinct (map ln_server (lt_nodes t))" by (simp add: tree_inv_def)
  show ?thesis
  proof
    assume "rr_link_tree_route t server = Some p"
    then obtain n where n: "lt_find t (Some s) = Some n" "ln_peer n = p" "p \<noteq> []"
      using Some by (auto simp: rr_link_tree_route_def split: option.splits if_splits)
    with d have "n \<in> set (lt_nodes t)" "ln_server n = s" by (auto simp: lt_find_Some)
    with assms n ns Some show "\<exists>s. server = Some s \<and> branch (lt_nodes t) s p"
      by (auto simp: tree_inv_def)
  next
    assume "\<exists>s. server = Some s \<and> branch (lt_nodes t) s p"
    with Some have b: "branch (lt_nodes t) s p" by simp
    from branch_server [OF b] obtain n where n: "n \<in> set (tl (lt_nodes t))" "ln_server n = s" by auto
    with ns d have "lt_find t (Some s) = Some n" by (simp add: lt_find_Some)
    moreover from assms n have "ln_peer n \<noteq> []" "branch (lt_nodes t) s (ln_peer n)" by (auto simp: tree_inv_def)
    with branch_unique [OF b _ d] ns have "ln_peer n = p" by auto
    ultimately show "rr_link_tree_route t server = Some p"
      using Some \<open>ln_peer n \<noteq> []\<close> by (simp add: rr_link_tree_route_def)
  qed
qed

section \<open>Properties\<close>

text \<open>A checker and three servers for the witnesses.\<close>

definition demo_uuid :: uuid_check where
  "demo_uuid i = (case i of None \<Rightarrow> False | Some s \<Rightarrow> length s = 36)"

definition demo_id :: "char \<Rightarrow> string" where
  "demo_id c = replicate 36 c"

definition demo_ops :: "link_op list" where
  "demo_ops =
     [Attach (Some (demo_id CHR ''1''))
        [\<lparr>of_server = Some (demo_id CHR ''2''), of_parent = Some (demo_id CHR ''1''), of_site = Some ''B''\<rparr>,
         \<lparr>of_server = Some (demo_id CHR ''1''), of_parent = None, of_site = Some ''A''\<rparr>],
      Add (Some (demo_id CHR ''1'')) (Some (demo_id CHR ''3'')) (Some (demo_id CHR ''2'')) (Some ''C'')]"

definition demo_tree :: link_tree where
  "demo_tree = link_run demo_uuid demo_ops (the (rr_link_tree_new demo_uuid (Some (demo_id CHR ''0'')) 5))"

lemma demo_uuid_checker: "uuid_checker demo_uuid"
  by (simp add: uuid_checker_def demo_uuid_def)

lemma demo_new: "rr_link_tree_new demo_uuid (Some (demo_id CHR ''0'')) 5 =
    Some (the (rr_link_tree_new demo_uuid (Some (demo_id CHR ''0'')) 5))"
  by code_simp

lemma demo_tree_eq [code]: "demo_tree =
  \<lparr>lt_nodes =
     [\<lparr>ln_server = demo_id CHR ''0'', ln_parent = [], ln_peer = [], ln_site = []\<rparr>,
      \<lparr>ln_server = demo_id CHR ''2'', ln_parent = demo_id CHR ''1'', ln_peer = demo_id CHR ''1'', ln_site = ''B''\<rparr>,
      \<lparr>ln_server = demo_id CHR ''1'', ln_parent = demo_id CHR ''0'', ln_peer = demo_id CHR ''1'', ln_site = ''A''\<rparr>,
      \<lparr>ln_server = demo_id CHR ''3'', ln_parent = demo_id CHR ''2'', ln_peer = demo_id CHR ''1'', ln_site = ''C''\<rparr>],
   lt_limit = 5\<rparr>"
  by code_simp

lemma demo_tree_inv: "tree_inv demo_tree"
  unfolding demo_tree_def by (rule link_run_inv [OF demo_uuid_checker demo_new])

lemma demo_route: "rr_link_tree_route demo_tree (Some (demo_id CHR ''3'')) = Some (demo_id CHR ''1'')"
  by code_simp

text \<open>
  C24. Whatever peers attach, add, withdraw and name, in any order, the route to a server is the
  directly connected server at the top of its branch, found by following parents to the local
  server; a server off the tree, and the local server itself, have no route.
\<close>

theorem link_route_correct:
  assumes "uuid_checker uv" "rr_link_tree_new uv local limit = Some t"
  shows "rr_link_tree_route (link_run uv ops t) server = Some p \<longleftrightarrow>
     (\<exists>s. server = Some s \<and> branch (lt_nodes (link_run uv ops t)) s p)"
  by (rule route_branch [OF link_run_inv [OF assms]])

theorem link_route_correct_witness:
  "branch (lt_nodes demo_tree) (demo_id CHR ''3'') (demo_id CHR ''1'')"
  using link_route_correct [OF demo_uuid_checker demo_new, of demo_ops "Some (demo_id CHR ''3'')" "demo_id CHR ''1''"]
    demo_route
  by (simp add: demo_tree_def)

text \<open>
  In every reachable tree a server occurs once, and the nodes never exceed the configured
  limit, which is at most the 256 marks \<open>rr_link_tree_remove\<close> keeps on its stack.
\<close>

theorem link_tree_bounded:
  assumes "uuid_checker uv" "rr_link_tree_new uv local limit = Some t"
  shows "distinct (map ln_server (lt_nodes (link_run uv ops t))) \<and>
     rr_link_tree_count (link_run uv ops t) \<le> lt_limit (link_run uv ops t) \<and>
     lt_limit (link_run uv ops t) \<le> 256"
  using link_run_inv [OF assms, of ops] by (simp add: tree_inv_def rr_link_tree_count_def)

theorem link_tree_bounded_witness: "rr_link_tree_count demo_tree = 4 \<and> lt_limit demo_tree \<le> 256"
  using link_tree_bounded [OF demo_uuid_checker demo_new, of demo_ops]
  by (simp add: demo_tree_def [symmetric]) code_simp

text \<open>
  An offer is accepted exactly when it fits the limit, is well formed, has no server already
  known or repeated, contains the peer as its one root and every offered server reaches the peer
  through offered parents; a refused offer leaves the tree as it was.
\<close>

theorem link_attach_exact:
  assumes "tree_inv t" "valid_id uv (Some peer)"
  shows "(fst (rr_link_tree_attach uv t (Some peer) os) = RR_LINK_OK \<longleftrightarrow> component_ok uv t peer os) \<and>
     (fst (rr_link_tree_attach uv t (Some peer) os) \<noteq> RR_LINK_OK \<longrightarrow>
        snd (rr_link_tree_attach uv t (Some peer) os) = t)"
proof (intro conjI impI)
  show "fst (rr_link_tree_attach uv t (Some peer) os) = RR_LINK_OK \<longleftrightarrow> component_ok uv t peer os"
    using assms by (intro attach_OK) (auto simp: tree_inv_def)
  assume "fst (rr_link_tree_attach uv t (Some peer) os) \<noteq> RR_LINK_OK"
  then show "snd (rr_link_tree_attach uv t (Some peer) os) = t"
    by (auto simp: rr_link_tree_attach_def split: sum.splits if_splits)
qed

theorem link_attach_exact_witness:
  "component_ok demo_uuid demo_tree (demo_id CHR ''4'')
     [\<lparr>of_server = Some (demo_id CHR ''4''), of_parent = None, of_site = Some ''D''\<rparr>]"
proof -
  have v: "valid_id demo_uuid (Some (demo_id CHR ''4''))" by code_simp
  have "fst (rr_link_tree_attach demo_uuid demo_tree (Some (demo_id CHR ''4''))
     [\<lparr>of_server = Some (demo_id CHR ''4''), of_parent = None, of_site = Some ''D''\<rparr>]) = RR_LINK_OK"
    by code_simp
  with link_attach_exact [OF demo_tree_inv v] show ?thesis by blast
qed

text \<open>
  C25. Removing a server the naming peer owns takes it and everything below it, keeps every other
  server in order, and anything else is refused and changes nothing.
\<close>

theorem link_remove_exact:
  assumes "tree_inv t"
  shows "rr_link_tree_remove t peer server =
    (if removable t peer server
     then (True, t\<lparr>lt_nodes := filter (\<lambda>n. \<not> below (lt_nodes t) (the server) (ln_server n)) (lt_nodes t)\<rparr>)
     else (False, t))"
  by (rule remove_exact [OF assms])

theorem link_remove_exact_witness:
  "removable demo_tree (Some (demo_id CHR ''1'')) (Some (demo_id CHR ''2''))"
proof -
  have "fst (rr_link_tree_remove demo_tree (Some (demo_id CHR ''1'')) (Some (demo_id CHR ''2'')))"
    by code_simp
  with link_remove_exact [OF demo_tree_inv] show ?thesis by (metis fst_conv)
qed

end
