(* ===== verification/LinkMesh.thy ===== *)
theory LinkMesh
  imports Prelude
begin

text \<open>
  \<^verbatim>\<open>rrserver/link.mesh.c\<close>: the mesh topology of verified links and the routes computed on it.
  The built-in policy is a Dijkstra search whose ties are broken by hop count and then by the
  name of the first hop; a loadable policy may replace it, and the host checks what it proposes.

  The fixed arrays of 256 nodes are functions on indexes, with the number of nodes in use the
  length of \<open>mt_id\<close>. \<open>mesh_topo\<close> is the part of \<open>struct rr_mesh\<close> a policy reads and \<open>mesh\<close> adds
  the policy. Distances are \<open>uint64_t\<close> kept as naturals with the code's own overflow guard and its
  sentinel \<open>UINT64_MAX\<close>; hop counts are \<open>unsigned\<close> with their wrap-around written out. As in
  \<^verbatim>\<open>LinkTree\<close>, \<open>uv\<close> stands for \<open>rr_object_uuid_valid\<close>. Mesh and output pointers are not
  \<open>NULL\<close> and allocation succeeds.
\<close>

section \<open>State\<close>

record mesh_topo =
  mt_id :: "string list"
  mt_edge :: "nat \<Rightarrow> nat \<Rightarrow> 32 word"

record mesh_route =
  mr_next_hop :: string
  mr_cost :: nat
  mr_hops :: nat

record 'c mesh_router =
  rt_abi_version :: "32 word"
  rt_name :: cstr
  rt_route :: "(mesh_topo \<Rightarrow> string \<Rightarrow> mesh_route \<Rightarrow> 'c option \<Rightarrow> bool \<times> mesh_route) option"

record 'c mesh =
  ms_topo :: mesh_topo
  ms_router :: "'c mesh_router option"
  ms_context :: "'c option"

definition RR_MESH_MAX_NODES :: nat where
  "RR_MESH_MAX_NODES = 256"

definition RR_MESH_ROUTER_ABI :: "32 word" where
  "RR_MESH_ROUTER_ABI = 1"

definition UINT64_MAX :: nat where
  "UINT64_MAX = 18446744073709551615"

definition UINT_MAX :: nat where
  "UINT_MAX = 4294967295"

definition no_route :: mesh_route where
  "no_route = \<lparr>mr_next_hop = [], mr_cost = 0, mr_hops = 0\<rparr>"

section \<open>Topology\<close>

definition index_of :: "mesh_topo \<Rightarrow> cstr \<Rightarrow> nat option" where
  "index_of m ident = (case ident of
     None \<Rightarrow> None
   | Some s \<Rightarrow> if s = [] then None else find_idx (\<lambda>x. x = s) (mt_id m))"

definition mesh_valid :: "(cstr \<Rightarrow> bool) \<Rightarrow> cstr \<Rightarrow> bool" where
  "mesh_valid uv ident \<longleftrightarrow>
     (if \<not> uv ident then False
      else case ident of
        None \<Rightarrow> True
      | Some s \<Rightarrow> list_all (\<lambda>p. \<not> (65 \<le> chr_ord p \<and> chr_ord p \<le> 70)) s)"

definition index_add :: "(cstr \<Rightarrow> bool) \<Rightarrow> mesh_topo \<Rightarrow> cstr \<Rightarrow> nat option \<times> mesh_topo" where
  "index_add uv m ident = (case index_of m ident of
     Some n \<Rightarrow> (Some n, m)
   | None \<Rightarrow>
       (if \<not> mesh_valid uv ident \<or> length (mt_id m) = RR_MESH_MAX_NODES then (None, m)
        else (Some (length (mt_id m)), m\<lparr>mt_id := mt_id m @ [the ident]\<rparr>)))"

definition rr_mesh_new :: "(cstr \<Rightarrow> bool) \<Rightarrow> cstr \<Rightarrow> 'c mesh option" where
  "rr_mesh_new uv local =
     (if \<not> mesh_valid uv local then None
      else Some \<lparr>ms_topo = snd (index_add uv \<lparr>mt_id = [], mt_edge = (\<lambda>_ _. 0)\<rparr> local),
                 ms_router = None, ms_context = None\<rparr>)"

definition set_edge :: "mesh_topo \<Rightarrow> nat \<Rightarrow> nat \<Rightarrow> 32 word \<Rightarrow> mesh_topo" where
  "set_edge m x y cost =
     (let e = (mt_edge m)(y := (mt_edge m y)(x := cost))
      in m\<lparr>mt_edge := e(x := (e x)(y := cost))\<rparr>)"

definition rr_mesh_edge :: "(cstr \<Rightarrow> bool) \<Rightarrow> mesh_topo \<Rightarrow> cstr \<Rightarrow> cstr \<Rightarrow> 32 word \<Rightarrow> bool \<times> mesh_topo" where
  "rr_mesh_edge uv m a b cost =
     (if cost = 0 \<or> \<not> mesh_valid uv a \<or> \<not> mesh_valid uv b \<or> a = b then (False, m)
      else if index_of m a = None \<and> length (mt_id m) = RR_MESH_MAX_NODES then (False, m)
      else if index_of m b = None \<and>
              length (mt_id m) + (if index_of m a = None then 1 else 0) \<ge> RR_MESH_MAX_NODES then (False, m)
      else let (x, m1) = index_add uv m a; (y, m2) = index_add uv m1 b in
        (case (x, y) of
           (Some i, Some j) \<Rightarrow> (True, set_edge m2 i j cost)
         | _ \<Rightarrow> (False, m2)))"

definition rr_mesh_remove_edge :: "mesh_topo \<Rightarrow> cstr \<Rightarrow> cstr \<Rightarrow> bool \<times> mesh_topo" where
  "rr_mesh_remove_edge m a b = (case (index_of m a, index_of m b) of
     (Some x, Some y) \<Rightarrow> if mt_edge m x y = 0 then (False, m) else (True, set_edge m x y 0)
   | _ \<Rightarrow> (False, m))"

definition rr_mesh_node_count :: "mesh_topo \<Rightarrow> nat" where
  "rr_mesh_node_count m = length (mt_id m)"

definition rr_mesh_node_id :: "mesh_topo \<Rightarrow> nat \<Rightarrow> cstr" where
  "rr_mesh_node_id m index = (if index < length (mt_id m) then Some (mt_id m ! index) else None)"

definition rr_mesh_edge_cost :: "mesh_topo \<Rightarrow> cstr \<Rightarrow> cstr \<Rightarrow> 32 word" where
  "rr_mesh_edge_cost m a b = (case (index_of m a, index_of m b) of
     (Some x, Some y) \<Rightarrow> mt_edge m x y
   | _ \<Rightarrow> 0)"

section \<open>The built-in policy\<close>

record dij =
  dj_dist :: "nat \<Rightarrow> nat"
  dj_hops :: "nat \<Rightarrow> nat"
  dj_first :: "nat \<Rightarrow> nat option"
  dj_visited :: "nat \<Rightarrow> bool"

definition dij_init :: dij where
  "dij_init = \<lparr>dj_dist = (\<lambda>_. UINT64_MAX)(0 := 0), dj_hops = (\<lambda>_. UINT_MAX)(0 := 0),
     dj_first = (\<lambda>_. None), dj_visited = (\<lambda>_. False)\<rparr>"

text \<open>The scan for the next node to visit: the nearest labelled one, the smallest name on a tie.\<close>

definition pick_step :: "mesh_topo \<Rightarrow> dij \<Rightarrow> nat \<Rightarrow> nat option \<Rightarrow> nat option" where
  "pick_step m st i u =
     (if \<not> dj_visited st i \<and> dj_dist st i \<noteq> UINT64_MAX \<and>
         (case u of
            None \<Rightarrow> True
          | Some k \<Rightarrow> dj_dist st i < dj_dist st k \<or>
              dj_dist st i = dj_dist st k \<and> strcmp_lt (mt_id m ! i) (mt_id m ! k))
      then Some i else u)"

definition pick :: "mesh_topo \<Rightarrow> dij \<Rightarrow> nat option" where
  "pick m st = fold (pick_step m st) [0..<length (mt_id m)] None"

definition relax :: "mesh_topo \<Rightarrow> (nat \<Rightarrow> bool) \<Rightarrow> nat \<Rightarrow> nat \<Rightarrow> dij \<Rightarrow> dij" where
  "relax m excluded u v st =
     (let weight = mt_edge m u v in
      if weight = 0 \<or> dj_visited st v \<or> (u = 0 \<and> excluded v) \<or> dj_dist st u > UINT64_MAX - unat weight
      then st
      else let candidate = dj_dist st u + unat weight in
        (case (if u = 0 then Some v else dj_first st u) of
           None \<Rightarrow> st
         | Some hop \<Rightarrow>
             (let nh = (dj_hops st u + 1) mod 4294967296 in
              if candidate < dj_dist st v \<or>
                 candidate = dj_dist st v \<and>
                   (nh < dj_hops st v \<or>
                    nh = dj_hops st v \<and>
                      (case dj_first st v of None \<Rightarrow> True
                       | Some f \<Rightarrow> strcmp_lt (mt_id m ! hop) (mt_id m ! f)))
              then st\<lparr>dj_dist := (dj_dist st)(v := candidate), dj_hops := (dj_hops st)(v := nh),
                      dj_first := (dj_first st)(v := Some hop)\<rparr>
              else st)))"

definition visit :: "mesh_topo \<Rightarrow> (nat \<Rightarrow> bool) \<Rightarrow> nat \<Rightarrow> dij \<Rightarrow> dij" where
  "visit m excluded u st =
     fold (relax m excluded u) [1..<length (mt_id m)] (st\<lparr>dj_visited := (dj_visited st)(u := True)\<rparr>)"

text \<open>The outer loop runs once per node and stops early when nothing labelled is left.\<close>

fun dij_loop :: "mesh_topo \<Rightarrow> (nat \<Rightarrow> bool) \<Rightarrow> nat \<Rightarrow> dij \<Rightarrow> dij" where
  "dij_loop m excluded 0 st = st"
| "dij_loop m excluded (Suc steps) st = (case pick m st of
     None \<Rightarrow> st
   | Some u \<Rightarrow> dij_loop m excluded steps (visit m excluded u st))"

definition dijkstra_excluding :: "mesh_topo \<Rightarrow> cstr \<Rightarrow> (nat \<Rightarrow> bool) \<Rightarrow> mesh_route option" where
  "dijkstra_excluding m destination excluded = (case index_of m destination of
     None \<Rightarrow> None
   | Some target \<Rightarrow>
       (if target = 0 then None
        else let st = dij_loop m excluded (length (mt_id m)) dij_init in
          (case dj_first st target of
             None \<Rightarrow> None
           | Some f \<Rightarrow> Some \<lparr>mr_next_hop = mt_id m ! f, mr_cost = dj_dist st target,
                             mr_hops = dj_hops st target\<rparr>)))"

definition route_dijkstra :: "mesh_topo \<Rightarrow> string \<Rightarrow> mesh_route \<Rightarrow> 'c option \<Rightarrow> bool \<times> mesh_route" where
  "route_dijkstra m destination out context =
     (case dijkstra_excluding m (Some destination) (\<lambda>_. False) of
        None \<Rightarrow> (False, out)
      | Some r \<Rightarrow> (True, r))"

section \<open>Routing\<close>

definition exclude_hop :: "mesh_topo \<Rightarrow> cstr \<Rightarrow> (nat \<Rightarrow> bool) option \<Rightarrow> (nat \<Rightarrow> bool) option" where
  "exclude_hop m hop excluded = (case excluded of
     None \<Rightarrow> None
   | Some ex \<Rightarrow> (case index_of m hop of
       None \<Rightarrow> None
     | Some n \<Rightarrow> if n = 0 \<or> mt_edge m 0 n = 0 then None else Some (ex(n := True))))"

definition rr_mesh_route_avoiding_many ::
    "mesh_topo \<Rightarrow> cstr \<Rightarrow> cstr list \<Rightarrow> mesh_route \<Rightarrow> bool \<times> mesh_route" where
  "rr_mesh_route_avoiding_many m destination excluded_hops out =
     (if destination = None \<or> length excluded_hops > RR_MESH_MAX_NODES then (False, out)
      else case fold (exclude_hop m) excluded_hops (Some (\<lambda>_. False)) of
        None \<Rightarrow> (False, out)
      | Some excluded \<Rightarrow> (case dijkstra_excluding m destination excluded of
          None \<Rightarrow> (False, out)
        | Some r \<Rightarrow>
            (if rr_mesh_edge_cost m (Some (mt_id m ! 0)) (Some (mr_next_hop r)) = 0 then (False, out)
             else (True, r))))"

definition rr_mesh_route_avoiding :: "mesh_topo \<Rightarrow> cstr \<Rightarrow> cstr \<Rightarrow> mesh_route \<Rightarrow> bool \<times> mesh_route" where
  "rr_mesh_route_avoiding m destination excluded_next_hop out =
     (if excluded_next_hop = None then (False, out)
      else rr_mesh_route_avoiding_many m destination [excluded_next_hop] out)"

definition rr_mesh_router_dijkstra :: "'c mesh_router" where
  "rr_mesh_router_dijkstra =
     \<lparr>rt_abi_version = RR_MESH_ROUTER_ABI, rt_name = Some ''dijkstra'', rt_route = Some route_dijkstra\<rparr>"

definition rr_mesh_set_router :: "'c mesh \<Rightarrow> 'c mesh_router option \<Rightarrow> 'c option \<Rightarrow> bool \<times> 'c mesh" where
  "rr_mesh_set_router m router context = (case router of
     None \<Rightarrow> (True, m\<lparr>ms_router := None, ms_context := None\<rparr>)
   | Some r \<Rightarrow>
       (if rt_abi_version r \<noteq> RR_MESH_ROUTER_ABI \<or> rt_name r = None \<or> rt_route r = None then (False, m)
        else (True, m\<lparr>ms_router := Some r, ms_context := context\<rparr>)))"

definition rr_mesh_route :: "'c mesh \<Rightarrow> cstr \<Rightarrow> mesh_route \<Rightarrow> bool \<times> mesh_route" where
  "rr_mesh_route m destination out = (case destination of
     None \<Rightarrow> (False, out)
   | Some d \<Rightarrow>
       (let router = (case ms_router m of Some r \<Rightarrow> r | None \<Rightarrow> rr_mesh_router_dijkstra);
            local = mt_id (ms_topo m) ! 0;
            (ok, proposed) = the (rt_route router) (ms_topo m) d no_route (ms_context m) in
        if \<not> ok then (False, out)
        else if rr_mesh_edge_cost (ms_topo m) (Some local) (Some (mr_next_hop proposed)) = 0 \<or>
                mr_hops proposed = 0 \<or> mr_cost proposed = 0 \<or> d = local
        then (False, out)
        else (True, proposed)))"

section \<open>Reference semantics: the best path\<close>

text \<open>
  \<open>hop_path m ex v c h f\<close>: a path leaves the local node for its neighbour \<open>f\<close>, which is not
  excluded, never comes back to the local node, reaches \<open>v\<close> after \<open>h\<close> hops and costs \<open>c\<close>.
  \<open>better\<close> is the order of the policy: the cost, then the hops, then the first hop's name.
\<close>

inductive hop_path :: "mesh_topo \<Rightarrow> (nat \<Rightarrow> bool) \<Rightarrow> nat \<Rightarrow> nat \<Rightarrow> nat \<Rightarrow> nat \<Rightarrow> bool" for m ex where
  path_first: "mt_edge m 0 v \<noteq> 0 \<Longrightarrow> v \<noteq> 0 \<Longrightarrow> v < length (mt_id m) \<Longrightarrow> \<not> ex v \<Longrightarrow>
     hop_path m ex v (unat (mt_edge m 0 v)) 1 v"
| path_next: "hop_path m ex u c h f \<Longrightarrow> mt_edge m u v \<noteq> 0 \<Longrightarrow> v \<noteq> 0 \<Longrightarrow> v < length (mt_id m) \<Longrightarrow>
     hop_path m ex v (c + unat (mt_edge m u v)) (h + 1) f"

definition better :: "mesh_topo \<Rightarrow> nat \<times> nat \<times> nat \<Rightarrow> nat \<times> nat \<times> nat \<Rightarrow> bool" where
  "better m k l = (case (k, l) of ((c, h, f), (c', h', f')) \<Rightarrow>
     c < c' \<or> c = c' \<and> (h < h' \<or> h = h' \<and> strcmp_lt (mt_id m ! f) (mt_id m ! f')))"

definition topo_ok :: "mesh_topo \<Rightarrow> bool" where
  "topo_ok m \<longleftrightarrow> mt_id m \<noteq> [] \<and> length (mt_id m) \<le> RR_MESH_MAX_NODES \<and> distinct (mt_id m) \<and>
     [] \<notin> set (mt_id m) \<and> (\<forall>i j. mt_edge m i j = mt_edge m j i) \<and> (\<forall>i. mt_edge m i i = 0) \<and>
     (\<forall>i j. mt_edge m i j \<noteq> 0 \<longrightarrow> i < length (mt_id m))"

lemma better_irrefl [simp]: "\<not> better m k k"
  by (cases k) (simp add: better_def)

lemma better_trans: "better m k l \<Longrightarrow> better m l j \<Longrightarrow> better m k j"
  by (auto simp: better_def split: prod.splits intro: strcmp_lt_trans)

lemma not_better_iff:
  "\<not> better m (c, h, f) (c', h', f') \<longleftrightarrow>
     c' < c \<or> c' = c \<and> (h' < h \<or> h' = h \<and> \<not> strcmp_lt (mt_id m ! f) (mt_id m ! f'))"
  unfolding better_def prod.case by arith

lemma strcmp_le_trans: "\<not> strcmp_lt y x \<Longrightarrow> \<not> strcmp_lt z y \<Longrightarrow> \<not> strcmp_lt z x"
  using strcmp_lt_trans [of y z x] strcmp_lt_linear [of y z] by blast

lemma not_better_trans: "\<not> better m l k \<Longrightarrow> \<not> better m j l \<Longrightarrow> \<not> better m j k"
  using strcmp_le_trans
  by (cases k; cases l; cases j) (auto simp: not_better_iff)

lemma not_better_add:
  "\<not> better m (c, h, f) (c', h', f') \<Longrightarrow> \<not> better m (c + w, h + 1, f) (c' + w, h' + 1, f')"
  by (simp add: better_def)

lemma better_cost: "\<not> better m (c, h, f) (c', h', f') \<Longrightarrow> c' \<le> c"
  by (simp add: better_def)

lemma hop_path_bounds: "hop_path m ex v c h f \<Longrightarrow> v \<noteq> 0 \<and> v < length (mt_id m) \<and> 0 < c \<and> 0 < h"
  by (induction rule: hop_path.induct) (auto simp: unat_gt_0)

lemma hop_path_first: "hop_path m ex v c h f \<Longrightarrow> mt_edge m 0 f \<noteq> 0 \<and> f \<noteq> 0 \<and> f < length (mt_id m) \<and> \<not> ex f"
  by (induction rule: hop_path.induct) auto

section \<open>The search finds it\<close>

subsection \<open>Choosing the next node\<close>

definition candidate_node :: "mesh_topo \<Rightarrow> dij \<Rightarrow> nat \<Rightarrow> bool" where
  "candidate_node m st i \<longleftrightarrow> i < length (mt_id m) \<and> \<not> dj_visited st i \<and> dj_dist st i \<noteq> UINT64_MAX"

lemma pick_prefix:
  assumes "k \<le> length (mt_id m)"
  shows "case fold (pick_step m st) [0..<k] None of
      None \<Rightarrow> \<forall>i < k. \<not> candidate_node m st i
    | Some u \<Rightarrow> u < k \<and> candidate_node m st u \<and>
        (\<forall>i < k. candidate_node m st i \<longrightarrow> dj_dist st u \<le> dj_dist st i)"
  using assms
proof (induction k)
  case 0
  then show ?case by simp
next
  case (Suc k)
  then show ?case
    by (cases "fold (pick_step m st) [0..<k] None")
       (auto simp: pick_step_def candidate_node_def less_Suc_eq split: option.splits)
qed

lemma pick_None: "pick m st = None \<Longrightarrow> \<not> candidate_node m st i"
  using pick_prefix [of "length (mt_id m)" m st] by (auto simp: pick_def candidate_node_def)

lemma pick_Some: "pick m st = Some u \<Longrightarrow>
    candidate_node m st u \<and> (\<forall>i. candidate_node m st i \<longrightarrow> dj_dist st u \<le> dj_dist st i)"
  using pick_prefix [of "length (mt_id m)" m st] by (auto simp: pick_def candidate_node_def)

subsection \<open>Relaxing the edges of a node\<close>

definition label :: "dij \<Rightarrow> nat \<Rightarrow> nat \<times> nat \<times> nat option \<times> bool" where
  "label st v = (dj_dist st v, dj_hops st v, dj_first st v, dj_visited st v)"

definition relax_new :: "mesh_topo \<Rightarrow> (nat \<Rightarrow> bool) \<Rightarrow> nat \<Rightarrow> nat \<Rightarrow> dij \<Rightarrow> (nat \<times> nat \<times> nat) option" where
  "relax_new m ex u v st =
     (if mt_edge m u v = 0 \<or> dj_visited st v \<or> (u = 0 \<and> ex v) \<or>
         dj_dist st u > UINT64_MAX - unat (mt_edge m u v) then None
      else case (if u = 0 then Some v else dj_first st u) of
        None \<Rightarrow> None
      | Some hop \<Rightarrow>
          (let c = dj_dist st u + unat (mt_edge m u v); nh = (dj_hops st u + 1) mod 4294967296 in
           if c < dj_dist st v \<or> c = dj_dist st v \<and>
                (nh < dj_hops st v \<or> nh = dj_hops st v \<and>
                  (case dj_first st v of None \<Rightarrow> True
                   | Some f \<Rightarrow> strcmp_lt (mt_id m ! hop) (mt_id m ! f)))
           then Some (c, nh, hop) else None))"

lemma relax_eq: "relax m ex u v st = (case relax_new m ex u v st of
    None \<Rightarrow> st
  | Some (c, h, f) \<Rightarrow> st\<lparr>dj_dist := (dj_dist st)(v := c), dj_hops := (dj_hops st)(v := h),
      dj_first := (dj_first st)(v := Some f)\<rparr>)"
proof -
  have push: "(case (if P then Some x else None) of None \<Rightarrow> a | Some y \<Rightarrow> b y) = (if P then b x else a)"
    for P a and x :: 'q and b :: "'q \<Rightarrow> 'r"
    by simp
  have skip: "(case (if P then None else x) of None \<Rightarrow> a | Some y \<Rightarrow> b y) =
      (if P then a else case x of None \<Rightarrow> a | Some y \<Rightarrow> b y)"
    for P a and x :: "'q option" and b :: "'q \<Rightarrow> 'r"
    by simp
  show ?thesis
    unfolding relax_def relax_new_def Let_def
    by (cases "if u = 0 then Some v else dj_first st u")
       (simp_all only: skip push option.case prod.case if_cancel)
qed

lemma label_eqD: "label st v = label st' v \<Longrightarrow> dj_dist st v = dj_dist st' v \<and>
    dj_hops st v = dj_hops st' v \<and> dj_first st v = dj_first st' v \<and> dj_visited st v = dj_visited st' v"
  by (simp add: label_def)

lemma relax_other: "v \<noteq> w \<Longrightarrow> label (relax m ex u v st) w = label st w"
  by (simp add: relax_eq label_def split: option.split)

lemma relax_visited: "dj_visited (relax m ex u v st) = dj_visited st"
  by (simp add: relax_eq split: option.split)

lemma relax_local:
  assumes "label st v = label st' v" "label st u = label st' u"
  shows "label (relax m ex u v st) v = label (relax m ex u v st') v"
proof -
  have "relax_new m ex u v st = relax_new m ex u v st'"
    unfolding relax_new_def using label_eqD [OF assms(1)] label_eqD [OF assms(2)] by (simp only:)
  with label_eqD [OF assms(1)] show ?thesis
    by (simp add: relax_eq label_def split: option.split)
qed

lemma relax_self: "dj_visited st u \<Longrightarrow> label (relax m ex u v st) u = label st u"
  by (cases "v = u") (simp add: relax_def, simp add: relax_other)

lemma relax_fold:
  assumes "distinct vs" "dj_visited st u"
  shows "label (fold (relax m ex u) vs st) w =
    (if w \<in> set vs then label (relax m ex u w st) w else label st w)"
  using assms
proof (induction vs arbitrary: st)
  case Nil
  then show ?case by simp
next
  case (Cons v vs)
  let ?st = "relax m ex u v st"
  from Cons.prems have "dj_visited ?st u" by (simp add: relax_visited)
  from Cons.IH [OF _ this] Cons.prems
  have IH: "label (fold (relax m ex u) vs ?st) w =
    (if w \<in> set vs then label (relax m ex u w ?st) w else label ?st w)" by simp
  have "label (relax m ex u w ?st) w = label (relax m ex u w st) w" if "w \<noteq> v"
    using that Cons.prems by (intro relax_local) (simp_all add: relax_other relax_self)
  with IH Cons.prems show ?case by (auto simp: relax_other)
qed

subsection \<open>The loop invariant\<close>

definition key :: "dij \<Rightarrow> nat \<Rightarrow> nat \<times> nat \<times> nat" where
  "key st v = (dj_dist st v, dj_hops st v, the (dj_first st v))"

definition cand :: "mesh_topo \<Rightarrow> dij \<Rightarrow> nat \<Rightarrow> nat \<Rightarrow> nat \<times> nat \<times> nat" where
  "cand m st u v = (dj_dist st u + unat (mt_edge m u v), dj_hops st u + 1,
     if u = 0 then v else the (dj_first st u))"

text \<open>A usable edge: there is one, and it does not leave the local node for an excluded hop.\<close>

definition usable :: "mesh_topo \<Rightarrow> (nat \<Rightarrow> bool) \<Rightarrow> nat \<Rightarrow> nat \<Rightarrow> bool" where
  "usable m ex u v \<longleftrightarrow> mt_edge m u v \<noteq> 0 \<and> v \<noteq> 0 \<and> v < length (mt_id m) \<and> (u = 0 \<longrightarrow> \<not> ex v)"

definition labels_ok :: "mesh_topo \<Rightarrow> (nat \<Rightarrow> bool) \<Rightarrow> dij \<Rightarrow> nat \<Rightarrow> bool" where
  "labels_ok m ex st k \<longleftrightarrow>
     dj_dist st 0 = 0 \<and> dj_hops st 0 = 0 \<and> dj_first st 0 = None \<and>
     (\<forall>v. v \<noteq> 0 \<longrightarrow> (dj_first st v = None \<longleftrightarrow> dj_dist st v = UINT64_MAX)) \<and>
     (\<forall>v f. dj_first st v = Some f \<longrightarrow> hop_path m ex v (dj_dist st v) (dj_hops st v) f \<and>
        dj_hops st v \<le> k \<and> dj_dist st v \<le> dj_hops st v * 4294967296)"

definition search_ok :: "mesh_topo \<Rightarrow> (nat \<Rightarrow> bool) \<Rightarrow> dij \<Rightarrow> bool" where
  "search_ok m ex st \<longleftrightarrow>
     (\<forall>u. dj_visited st u \<longrightarrow> u < length (mt_id m) \<and> dj_dist st u \<noteq> UINT64_MAX) \<and>
     (\<forall>u v. dj_visited st u \<and> \<not> dj_visited st v \<longrightarrow> dj_dist st u \<le> dj_dist st v) \<and>
     (\<forall>u v. dj_visited st u \<and> usable m ex u v \<longrightarrow>
        dj_dist st v \<noteq> UINT64_MAX \<and> \<not> better m (cand m st u v) (key st v))"

lemma labels_None: "labels_ok m ex st k \<Longrightarrow> v \<noteq> 0 \<Longrightarrow> dj_first st v = None \<longleftrightarrow> dj_dist st v = UINT64_MAX"
  by (simp add: labels_ok_def)

lemma labels_Some: "labels_ok m ex st k \<Longrightarrow> dj_first st v = Some f \<Longrightarrow>
    hop_path m ex v (dj_dist st v) (dj_hops st v) f \<and> dj_hops st v \<le> k \<and>
    dj_dist st v \<le> dj_hops st v * 4294967296"
  by (simp add: labels_ok_def)

lemma labelled_small:
  assumes "labels_ok m ex st k" "k < 256" "dj_dist st u \<noteq> UINT64_MAX"
  shows "dj_dist st u + unat (w :: 32 word) < UINT64_MAX \<and> dj_hops st u \<le> k \<and>
    (u = 0 \<or> (\<exists>f. dj_first st u = Some f))"
proof -
  have w: "unat w < 4294967296" using unsigned_less [of w] by simp
  have "dj_dist st u \<le> 255 * 4294967296 \<and> dj_hops st u \<le> k \<and> (u = 0 \<or> (\<exists>f. dj_first st u = Some f))"
  proof (cases "u = 0")
    case True
    with assms show ?thesis by (simp add: labels_ok_def)
  next
    case False
    with assms labels_None [OF assms(1), of u] obtain f where f: "dj_first st u = Some f" by auto
    from labels_Some [OF assms(1) f]
    have h: "dj_hops st u \<le> k" "dj_dist st u \<le> dj_hops st u * 4294967296" by auto
    with assms(2) have "dj_hops st u \<le> 255" by simp
    with h(2) have "dj_dist st u \<le> 255 * 4294967296" by simp
    with h f show ?thesis by blast
  qed
  with w show ?thesis by (auto simp: UINT64_MAX_def)
qed

lemma relax_new_iff:
  assumes ok: "labels_ok m ex st k" "k < 256" and u: "dj_dist st u \<noteq> UINT64_MAX"
    and v: "v \<noteq> 0" "v < length (mt_id m)"
  shows "relax_new m ex u v st =
    (if usable m ex u v \<and> \<not> dj_visited st v \<and>
        (dj_dist st v = UINT64_MAX \<or> better m (cand m st u v) (key st v))
     then Some (cand m st u v) else None)"
proof -
  from labelled_small [OF ok u, of "mt_edge m u v"]
  have s: "dj_dist st u + unat (mt_edge m u v) < UINT64_MAX" "dj_hops st u \<le> k"
    "u = 0 \<or> (\<exists>f. dj_first st u = Some f)" by auto
  from s(2) ok(2) have h: "(dj_hops st u + 1) mod 4294967296 = dj_hops st u + 1" by (simp del: One_nat_def)
  from s(1) have fits: "\<not> UINT64_MAX - unat (mt_edge m u v) < dj_dist st u" by linarith
  from s(3) have hop: "(if u = 0 then Some v else dj_first st u) = Some (if u = 0 then v else the (dj_first st u))"
    by auto
  have new: "(dj_dist st u + unat (mt_edge m u v) < dj_dist st v \<or>
      dj_dist st u + unat (mt_edge m u v) = dj_dist st v \<and>
       (dj_hops st u + 1 < dj_hops st v \<or> dj_hops st u + 1 = dj_hops st v \<and>
         (case dj_first st v of None \<Rightarrow> True
          | Some f \<Rightarrow> strcmp_lt (mt_id m ! (if u = 0 then v else the (dj_first st u))) (mt_id m ! f)))) \<longleftrightarrow>
      dj_dist st v = UINT64_MAX \<or> better m (cand m st u v) (key st v)"
  proof (cases "dj_first st v")
    case None
    with labels_None [OF ok(1) v(1)] have "dj_dist st v = UINT64_MAX" by simp
    with s(1) show ?thesis by simp
  next
    case (Some f)
    with labels_None [OF ok(1) v(1)] have "dj_dist st v \<noteq> UINT64_MAX" by simp
    with Some show ?thesis by (simp only: better_def cand_def key_def prod.case option.case option.sel simp_thms)
  qed
  show ?thesis
    unfolding relax_new_def hop option.case Let_def h new
    using v fits by (auto simp: usable_def cand_def)
qed

lemma visit_visited: "dj_visited (visit m ex u st) = (dj_visited st)(u := True)"
proof -
  have "dj_visited (fold (relax m ex u) vs st') = dj_visited st'" for vs st'
    by (induction vs arbitrary: st') (simp_all add: relax_visited)
  then show ?thesis by (simp add: visit_def)
qed

lemma visit_key:
  assumes ok: "labels_ok m ex st k" "k < 256" and u: "dj_dist st u \<noteq> UINT64_MAX"
  shows "(dj_dist (visit m ex u st) v, dj_hops (visit m ex u st) v, dj_first (visit m ex u st) v) =
    (if usable m ex u v \<and> \<not> dj_visited st v \<and> v \<noteq> u \<and>
        (dj_dist st v = UINT64_MAX \<or> better m (cand m st u v) (key st v))
     then (case cand m st u v of (c, h, f) \<Rightarrow> (c, h, Some f))
     else (dj_dist st v, dj_hops st v, dj_first st v))"
proof -
  let ?st = "st\<lparr>dj_visited := (dj_visited st)(u := True)\<rparr>"
  have same: "labels_ok m ex ?st k" "dj_dist ?st u \<noteq> UINT64_MAX" "cand m ?st = cand m st" "key ?st = key st"
    using ok u by (auto simp: labels_ok_def cand_def key_def fun_eq_iff)
  have lab: "label (visit m ex u st) v =
      (if v \<in> {1..<length (mt_id m)} then label (relax m ex u v ?st) v else label ?st v)"
    unfolding visit_def by (subst relax_fold) auto
  show ?thesis
  proof (cases "v \<in> {1..<length (mt_id m)}")
    case True
    then have v: "v \<noteq> 0" "v < length (mt_id m)" by auto
    from lab True relax_new_iff [OF same(1) ok(2) same(2) v] same(3,4) show ?thesis
      by (auto simp: label_def relax_eq split: prod.splits if_splits)
  next
    case False
    with lab show ?thesis by (auto simp: label_def usable_def)
  qed
qed

lemma cand_path:
  assumes ok: "labels_ok m ex st k" "k < 256" and u: "dj_dist st u \<noteq> UINT64_MAX"
    and us: "usable m ex u v" and c: "cand m st u v = (c, h, f)"
  shows "hop_path m ex v c h f \<and> h \<le> Suc k \<and> c \<le> h * 4294967296 \<and> c < UINT64_MAX"
proof -
  have w: "unat (mt_edge m u v) < 4294967296" using unsigned_less [of "mt_edge m u v"] by simp
  from labelled_small [OF ok u, of "mt_edge m u v"] have small: "dj_dist st u + unat (mt_edge m u v) < UINT64_MAX"
    "dj_hops st u \<le> k" "u = 0 \<or> (\<exists>f. dj_first st u = Some f)" by auto
  show ?thesis
  proof (cases "u = 0")
    case True
    with ok(1) have "dj_dist st u = 0" "dj_hops st u = 0" by (auto simp: labels_ok_def)
    with True us c w small path_first [of m v ex] show ?thesis by (auto simp: cand_def usable_def)
  next
    case False
    with small obtain g where g: "dj_first st u = Some g" by auto
    from labels_Some [OF ok(1) g] have p: "hop_path m ex u (dj_dist st u) (dj_hops st u) g"
      "dj_dist st u \<le> dj_hops st u * 4294967296" by auto
    from path_next [OF p(1)] us have "hop_path m ex v (dj_dist st u + unat (mt_edge m u v)) (dj_hops st u + 1) g"
      by (auto simp: usable_def)
    with False g p small w c show ?thesis by (auto simp: cand_def)
  qed
qed

lemma visit_cases:
  assumes ok: "labels_ok m ex st k" "k < 256" and u: "dj_dist st u \<noteq> UINT64_MAX"
  obtains (kept) "dj_dist (visit m ex u st) v = dj_dist st v" "dj_hops (visit m ex u st) v = dj_hops st v"
      "dj_first (visit m ex u st) v = dj_first st v"
      "usable m ex u v \<Longrightarrow> \<not> dj_visited st v \<Longrightarrow> v \<noteq> u \<Longrightarrow>
         dj_dist st v \<noteq> UINT64_MAX \<and> \<not> better m (cand m st u v) (key st v)"
    | (new) c h f where "usable m ex u v" "\<not> dj_visited st v" "v \<noteq> u" "cand m st u v = (c, h, f)"
      "dj_dist st v = UINT64_MAX \<or> better m (c, h, f) (key st v)"
      "dj_dist (visit m ex u st) v = c" "dj_hops (visit m ex u st) v = h" "dj_first (visit m ex u st) v = Some f"
proof (cases "usable m ex u v \<and> \<not> dj_visited st v \<and> v \<noteq> u \<and>
        (dj_dist st v = UINT64_MAX \<or> better m (cand m st u v) (key st v))")
  case True
  obtain c h f where c: "cand m st u v = (c, h, f)" by (metis prod_cases3)
  with True visit_key [OF ok u, of v] show thesis by (intro new [of c h f]) auto
next
  case False
  with visit_key [OF ok u, of v] show thesis by (intro kept) auto
qed

lemma visit_labels:
  assumes ok: "labels_ok m ex st k" "k < 256" and u: "dj_dist st u \<noteq> UINT64_MAX"
  shows "labels_ok m ex (visit m ex u st) (Suc k)"
proof -
  let ?st = "visit m ex u st"
  have zero: "dj_dist ?st 0 = 0" "dj_hops ?st 0 = 0" "dj_first ?st 0 = None"
    using ok(1) visit_key [OF ok u, of 0] by (auto simp: usable_def labels_ok_def)
  have none: "dj_first ?st v = None \<longleftrightarrow> dj_dist ?st v = UINT64_MAX" if "v \<noteq> 0" for v
    using ok u
  proof (cases rule: visit_cases [where v = v])
    case kept
    with labels_None [OF ok(1) that] show ?thesis by simp
  next
    case (new c h f)
    with cand_path [OF ok u new(1,4)] show ?thesis by simp
  qed
  have some: "hop_path m ex v (dj_dist ?st v) (dj_hops ?st v) f \<and> dj_hops ?st v \<le> Suc k \<and>
      dj_dist ?st v \<le> dj_hops ?st v * 4294967296" if "dj_first ?st v = Some f" for v f
    using ok u
  proof (cases rule: visit_cases [where v = v])
    case kept
    with labels_Some [OF ok(1), of v f] that show ?thesis by simp
  next
    case (new c h g)
    with cand_path [OF ok u new(1,4)] that show ?thesis by simp
  qed
  from zero none some show ?thesis by (simp add: labels_ok_def)
qed

lemma visit_search:
  assumes ok: "labels_ok m ex st k" "k < 256" and s: "search_ok m ex st" and irr: "\<forall>i. mt_edge m i i = 0"
    and u: "candidate_node m st u" "\<forall>i. candidate_node m st i \<longrightarrow> dj_dist st u \<le> dj_dist st i"
  shows "search_ok m ex (visit m ex u st)"
proof -
  let ?st = "visit m ex u st"
  from u(1) have ud: "dj_dist st u \<noteq> UINT64_MAX" "u < length (mt_id m)" "\<not> dj_visited st u"
    by (auto simp: candidate_node_def)
  have small: "dj_dist st x < UINT64_MAX" if "dj_dist st x \<noteq> UINT64_MAX" for x
    using labelled_small [OF ok that, of 0] by simp
  have far: "dj_dist st u \<le> dj_dist ?st v" if "v = u \<or> \<not> dj_visited st v" for v
    using ok ud(1)
  proof (cases rule: visit_cases [where v = v])
    case kept
    have "dj_dist st u \<le> dj_dist st v" 
    proof (cases "v < length (mt_id m) \<and> dj_dist st v \<noteq> UINT64_MAX")
      case True
      with that u ud show ?thesis by (auto simp: candidate_node_def)
    next
      case False
      have "dj_dist st v = UINT64_MAX"
      proof (rule ccontr)
        assume lab: "dj_dist st v \<noteq> UINT64_MAX"
        with False ud have "v \<noteq> 0" by auto
        with labels_None [OF ok(1) this] lab obtain f where "dj_first st v = Some f" by auto
        with labels_Some [OF ok(1) this] hop_path_bounds False lab show False by blast
      qed
      with small [OF ud(1)] show ?thesis by simp
    qed
    with kept show ?thesis by simp
  next
    case (new c h f)
    then show ?thesis by (simp add: cand_def)
  qed
  have same: "dj_dist ?st x = dj_dist st x \<and> dj_hops ?st x = dj_hops st x \<and> dj_first ?st x = dj_first st x"
    if "dj_visited st x \<or> x = u" for x
    using visit_key [OF ok ud(1), of x] that by auto
  then have same_cand: "cand m ?st x v = cand m st x v" if "dj_visited st x \<or> x = u" for x v
    using that by (simp add: cand_def)
  have near: "dj_dist st x \<le> dj_dist st y" if "dj_visited st x" "\<not> dj_visited st y" for x y
    using s that by (simp add: search_ok_def)
  have opt: "dj_dist ?st v \<noteq> UINT64_MAX \<and> \<not> better m (cand m st x v) (key ?st v)"
    if x: "dj_visited st x \<or> x = u" and us: "usable m ex x v" for x v
    using ok ud(1)
  proof (cases rule: visit_cases [where v = v])
    case kept
    then have k: "key ?st v = key st v" by (simp add: key_def)
    show ?thesis
    proof (cases "x = u")
      case False
      with x us s kept k show ?thesis by (simp add: search_ok_def)
    next
      case True
      with us irr have vu: "v \<noteq> u" by (auto simp: usable_def)
      show ?thesis
      proof (cases "dj_visited st v")
        case True
        with s ud near [OF True ud(3)] have "dj_dist st v \<noteq> UINT64_MAX" "dj_dist st v \<le> dj_dist st u"
          by (auto simp: search_ok_def)
        moreover from us \<open>x = u\<close> have "0 < unat (mt_edge m u v)" by (simp add: usable_def unat_gt_0)
        ultimately show ?thesis using \<open>x = u\<close> kept(1) k
          by (simp add: better_def cand_def key_def)
      next
        case False
        with kept(4) us \<open>x = u\<close> vu kept(1) k show ?thesis by simp
      qed
    qed
  next
    case (new c h f)
    then have k: "key ?st v = (c, h, f)" by (simp add: key_def)
    from cand_path [OF ok ud(1) new(1,4)] new have fin: "dj_dist ?st v \<noteq> UINT64_MAX" by simp
    show ?thesis
    proof (cases "x = u")
      case True
      with new(4) k fin show ?thesis by simp
    next
      case False
      with x us s have "dj_dist st v \<noteq> UINT64_MAX" "\<not> better m (cand m st x v) (key st v)"
        by (auto simp: search_ok_def)
      with new(5) have "\<not> better m (cand m st x v) (c, h, f)" using better_trans by blast
      with k fin show ?thesis by simp
    qed
  qed
  have fin: "x < length (mt_id m) \<and> dj_dist ?st x \<noteq> UINT64_MAX" if "dj_visited st x \<or> x = u" for x
    using that same [OF that] s ud by (auto simp: search_ok_def)
  have mono: "dj_dist ?st x \<le> dj_dist ?st y" if "dj_visited st x \<or> x = u" "\<not> (dj_visited st y \<or> y = u)" for x y
    using that same [OF that(1)] far [of y] near [of x u] ud(3) by auto
  have opt': "dj_dist ?st v \<noteq> UINT64_MAX \<and> \<not> better m (cand m ?st x v) (key ?st v)"
    if "dj_visited st x \<or> x = u" "usable m ex x v" for x v
    using opt [OF that] same_cand [OF that(1)] by simp
  have vis: "((dj_visited st)(u := True)) x \<longleftrightarrow> dj_visited st x \<or> x = u" for x by simp
  show ?thesis
    unfolding search_ok_def visit_visited vis using fin mono opt' by blast
qed

text \<open>After the loop nothing is left to visit: each iteration visits one more of the \<open>count\<close> nodes.\<close>

definition visited_count :: "mesh_topo \<Rightarrow> dij \<Rightarrow> nat" where
  "visited_count m st = card {i. i < length (mt_id m) \<and> dj_visited st i}"

lemma visit_count:
  assumes "candidate_node m st u"
  shows "visited_count m (visit m ex u st) = Suc (visited_count m st)"
proof -
  have "{i. i < length (mt_id m) \<and> dj_visited (visit m ex u st) i} =
      insert u {i. i < length (mt_id m) \<and> dj_visited st i}"
    using assms by (auto simp: visit_visited candidate_node_def)
  then show ?thesis using assms by (simp add: visited_count_def candidate_node_def)
qed

lemma dij_loop_ok:
  assumes "labels_ok m ex st k" "search_ok m ex st" "\<forall>i. mt_edge m i i = 0"
    "visited_count m st = k" "k + steps = length (mt_id m)" "length (mt_id m) \<le> 256"
  shows "\<exists>k'. labels_ok m ex (dij_loop m ex steps st) k' \<and> search_ok m ex (dij_loop m ex steps st) \<and>
    (\<forall>i. \<not> candidate_node m (dij_loop m ex steps st) i)"
  using assms
proof (induction steps arbitrary: st k)
  case 0
  let ?V = "{i. i < length (mt_id m) \<and> dj_visited st i}"
  have "?V = {..<length (mt_id m)}"
    using 0 by (intro card_subset_eq) (auto simp: visited_count_def)
  then have "\<forall>i. \<not> candidate_node m st i" by (auto simp: candidate_node_def)
  with 0 show ?case by auto
next
  case (Suc steps)
  show ?case
  proof (cases "pick m st")
    case None
    with pick_None Suc.prems show ?thesis by auto
  next
    case (Some u)
    note u = pick_Some [OF Some]
    then have ud: "dj_dist st u \<noteq> UINT64_MAX" by (simp add: candidate_node_def)
    from Suc.prems have k: "k < 256" by simp
    show ?thesis
      unfolding Some option.case dij_loop.simps
    proof (rule Suc.IH)
      show "labels_ok m ex (visit m ex u st) (Suc k)" by (rule visit_labels [OF Suc.prems(1) k ud])
      show "search_ok m ex (visit m ex u st)"
        using u by (intro visit_search [OF Suc.prems(1) k Suc.prems(2,3)]) auto
      show "visited_count m (visit m ex u st) = Suc k" using visit_count u Suc.prems(4) by blast
    qed (use Suc.prems in auto)
  qed
qed

lemma dij_final:
  assumes "topo_ok m"
  obtains k where "labels_ok m ex (dij_loop m ex (length (mt_id m)) dij_init) k"
    "search_ok m ex (dij_loop m ex (length (mt_id m)) dij_init)"
    "\<And>i. \<not> candidate_node m (dij_loop m ex (length (mt_id m)) dij_init) i"
proof -
  have "labels_ok m ex dij_init 0" by (auto simp: labels_ok_def dij_init_def)
  moreover have "search_ok m ex dij_init" by (simp add: search_ok_def dij_init_def)
  moreover have "visited_count m dij_init = 0" by (simp add: visited_count_def dij_init_def)
  ultimately show thesis
    using dij_loop_ok [of m ex dij_init 0 "length (mt_id m)"] assms that
    by (auto simp: topo_ok_def RR_MESH_MAX_NODES_def)
qed

lemma search_relaxed: "search_ok m ex st \<Longrightarrow> dj_visited st u \<Longrightarrow> usable m ex u v \<Longrightarrow>
    dj_dist st v \<noteq> UINT64_MAX \<and> \<not> better m (cand m st u v) (key st v)"
  by (simp add: search_ok_def)

text \<open>Every path is labelled at least as well.\<close>

lemma search_optimal:
  assumes ok: "labels_ok m ex st k" "search_ok m ex st" "\<And>i. \<not> candidate_node m st i"
    and ne: "0 < length (mt_id m)" and path: "hop_path m ex v c h f"
  shows "dj_first st v \<noteq> None \<and> \<not> better m (c, h, f) (key st v)"
  using path
proof (induction rule: hop_path.induct)
  case (path_first v)
  have "dj_visited st 0" using ok(1) ok(3) [of 0] ne by (auto simp: candidate_node_def labels_ok_def UINT64_MAX_def)
  moreover have us: "usable m ex 0 v" using path_first by (simp add: usable_def)
  moreover have "cand m st 0 v = (unat (mt_edge m 0 v), 1, v)" using ok(1) by (simp add: cand_def labels_ok_def)
  ultimately have "dj_dist st v \<noteq> UINT64_MAX \<and> \<not> better m (unat (mt_edge m 0 v), 1, v) (key st v)"
    using search_relaxed [OF ok(2)] by metis
  with labels_None [OF ok(1), of v] path_first show ?case by simp
next
  case (path_next u c h f v)
  from hop_path_bounds [OF path_next(1)] have u: "u \<noteq> 0" "u < length (mt_id m)" by auto
  from path_next.IH obtain g where g: "dj_first st u = Some g" by auto
  with labels_None [OF ok(1) u(1)] have "dj_dist st u \<noteq> UINT64_MAX" by simp
  with ok(3) [of u] u have vis: "dj_visited st u" by (simp add: candidate_node_def)
  have "usable m ex u v" using path_next u by (simp add: usable_def)
  with vis ok(2) have lab: "dj_dist st v \<noteq> UINT64_MAX" "\<not> better m (cand m st u v) (key st v)"
    by (auto simp: search_ok_def)
  have "cand m st u v = (dj_dist st u + unat (mt_edge m u v), dj_hops st u + 1, g)"
    using u g by (simp add: cand_def)
  moreover have "\<not> better m (c + unat (mt_edge m u v), h + 1, f) (dj_dist st u + unat (mt_edge m u v), dj_hops st u + 1, g)"
    using path_next.IH g by (intro not_better_add) (simp add: key_def)
  ultimately have "\<not> better m (c + unat (mt_edge m u v), h + 1, f) (key st v)"
    using lab(2) not_better_trans by metis
  with labels_None [OF ok(1), of v] lab path_next show ?case by simp
qed

text \<open>What the search returns: the best path to a known node, or nothing when there is no path.\<close>

definition best_route :: "mesh_topo \<Rightarrow> (nat \<Rightarrow> bool) \<Rightarrow> string \<Rightarrow> mesh_route \<Rightarrow> bool" where
  "best_route m ex d r \<longleftrightarrow> (\<exists>v f. v < length (mt_id m) \<and> mt_id m ! v = d \<and> mr_next_hop r = mt_id m ! f \<and>
     hop_path m ex v (mr_cost r) (mr_hops r) f \<and>
     (\<forall>c h g. hop_path m ex v c h g \<longrightarrow> \<not> better m (c, h, g) (mr_cost r, mr_hops r, f)))"

lemma index_of_Some:
  assumes "topo_ok m"
  shows "index_of m (Some s) = Some i \<longleftrightarrow> i < length (mt_id m) \<and> mt_id m ! i = s"
proof -
  have "s \<noteq> []" if "i < length (mt_id m)" "mt_id m ! i = s"
    using assms that nth_mem [OF that(1)] by (auto simp: topo_ok_def)
  moreover have "find_idx (\<lambda>x. x = s) (mt_id m) = Some i" if "i < length (mt_id m)" "mt_id m ! i = s"
    using find_idx_distinct [of "\<lambda>x. x" "mt_id m" i s] assms that by (simp add: topo_ok_def)
  ultimately show ?thesis
    by (auto simp: index_of_def dest: find_idx_SomeD)
qed

lemma dijkstra_best:
  assumes ok: "topo_ok m" and d: "dijkstra_excluding m (Some d) ex = Some r"
  shows "best_route m ex d r"
proof -
  let ?st = "dij_loop m ex (length (mt_id m)) dij_init"
  from d obtain v f where v: "index_of m (Some d) = Some v" "v \<noteq> 0" "dj_first ?st v = Some f"
    and r: "r = \<lparr>mr_next_hop = mt_id m ! f, mr_cost = dj_dist ?st v, mr_hops = dj_hops ?st v\<rparr>"
    by (auto simp: dijkstra_excluding_def Let_def split: option.splits if_splits)
  from dij_final [OF ok, of ex] obtain k where
    k: "labels_ok m ex ?st k" "search_ok m ex ?st" "\<And>i. \<not> candidate_node m ?st i" by blast
  have ne: "0 < length (mt_id m)" using ok by (simp add: topo_ok_def)
  from labels_Some [OF k(1) v(3)] have p: "hop_path m ex v (dj_dist ?st v) (dj_hops ?st v) f" by simp
  have "key ?st v = (dj_dist ?st v, dj_hops ?st v, f)" using v(3) by (simp add: key_def)
  then have "\<forall>c h g. hop_path m ex v c h g \<longrightarrow> \<not> better m (c, h, g) (dj_dist ?st v, dj_hops ?st v, f)"
    using search_optimal [OF k ne, of v] by metis
  with p show ?thesis
    unfolding best_route_def using v(1) index_of_Some [OF ok, of d v] r
    by (intro exI [where P = "\<lambda>v. \<exists>f. Q v f" and x = v for Q] exI [where P = "Q v" and x = f for Q]) simp
qed

lemma dijkstra_complete:
  assumes ok: "topo_ok m" and d: "dijkstra_excluding m (Some d) ex = None"
    and v: "v < length (mt_id m)" "mt_id m ! v = d"
  shows "\<not> hop_path m ex v c h f"
proof
  assume p: "hop_path m ex v c h f"
  let ?st = "dij_loop m ex (length (mt_id m)) dij_init"
  from dij_final [OF ok, of ex] obtain k where
    k: "labels_ok m ex ?st k" "search_ok m ex ?st" "\<And>i. \<not> candidate_node m ?st i" by blast
  have "0 < length (mt_id m)" using ok by (simp add: topo_ok_def)
  from search_optimal [OF k this p] have "dj_first ?st v \<noteq> None" by simp
  moreover have "index_of m (Some d) = Some v" using v by (simp add: index_of_Some [OF ok])
  ultimately show False using hop_path_bounds [OF p] d
    by (auto simp: dijkstra_excluding_def Let_def)
qed

section \<open>The topology stays well formed\<close>

lemma index_add_ok:
  assumes uv: "\<forall>s. uv (Some s) \<longrightarrow> s \<noteq> []" "\<not> uv None" and ok: "topo_ok m"
  shows "topo_ok (snd (index_add uv m a))"
  using assms
  by (auto simp: index_add_def topo_ok_def mesh_valid_def index_of_def split: option.splits if_splits)

lemma index_add_Some:
  assumes ok: "topo_ok m" "fst (index_add uv m a) = Some i"
  shows "i < length (mt_id (snd (index_add uv m a))) \<and> (uv None \<or> a = Some (mt_id (snd (index_add uv m a)) ! i))"
proof (cases a)
  case None
  with ok(2) show ?thesis by (auto simp: index_add_def index_of_def mesh_valid_def split: if_splits)
next
  case (Some s)
  with ok(2) index_of_Some [OF ok(1), of s] show ?thesis
    by (auto simp: index_add_def split: option.splits if_splits)
qed

lemma index_add_mono:
  "i < length (mt_id m) \<Longrightarrow> i < length (mt_id (snd (index_add uv m a))) \<and>
     mt_id (snd (index_add uv m a)) ! i = mt_id m ! i"
  by (auto simp: index_add_def nth_append split: option.splits)

lemma set_edge_ok:
  assumes "topo_ok m" "x \<noteq> y" "x < length (mt_id m)" "y < length (mt_id m)"
  shows "topo_ok (set_edge m x y c)"
  using assms by (auto simp: topo_ok_def set_edge_def Let_def)

lemma edge_ok [inv_rules]:
  assumes uv: "\<forall>s. uv (Some s) \<longrightarrow> s \<noteq> []" "\<not> uv None" and ok: "topo_ok m"
  shows "topo_ok (snd (rr_mesh_edge uv m a b c))"
proof -
  let ?m1 = "snd (index_add uv m a)"
  let ?m2 = "snd (index_add uv ?m1 b)"
  have ok1: "topo_ok ?m1" by (rule index_add_ok [OF uv ok])
  have ok2: "topo_ok ?m2" by (rule index_add_ok [OF uv ok1])
  have "topo_ok (set_edge ?m2 i j c)"
    if ij: "fst (index_add uv m a) = Some i" "fst (index_add uv ?m1 b) = Some j" "a \<noteq> b" for i j
    using index_add_Some [OF ok ij(1)] index_add_Some [OF ok1 ij(2)] index_add_mono [of i ?m1 uv b] ij(3) uv(2)
    by (intro set_edge_ok [OF ok2]) auto
  with ok ok2 show ?thesis
    by (auto simp: rr_mesh_edge_def split: prod.splits option.splits)
qed

lemma remove_edge_ok [inv_rules]: "topo_ok m \<Longrightarrow> topo_ok (snd (rr_mesh_remove_edge m a b))"
proof -
  assume ok: "topo_ok m"
  have "topo_ok (set_edge m x y 0)" if "mt_edge m x y \<noteq> 0" for x y
  proof -
    from that ok have "x < length (mt_id m)" "y < length (mt_id m)" unfolding topo_ok_def by metis+
    moreover from that ok have "x \<noteq> y" by (auto simp: topo_ok_def)
    ultimately show ?thesis by (intro set_edge_ok [OF ok]) auto
  qed
  with ok show ?thesis by (auto simp: rr_mesh_remove_edge_def split: option.splits)
qed

lemma new_ok: "\<forall>s. uv (Some s) \<longrightarrow> s \<noteq> [] \<Longrightarrow> \<not> uv None \<Longrightarrow> rr_mesh_new uv local = Some m \<Longrightarrow> topo_ok (ms_topo m)"
  by (cases local)
     (auto simp: rr_mesh_new_def mesh_valid_def topo_ok_def index_add_def index_of_def RR_MESH_MAX_NODES_def split: if_splits)

datatype mesh_op = Edge cstr cstr "32 word" | RemoveEdge cstr cstr

fun mesh_step :: "(cstr \<Rightarrow> bool) \<Rightarrow> mesh_op \<Rightarrow> mesh_topo \<Rightarrow> mesh_topo" where
  "mesh_step uv (Edge a b c) m = snd (rr_mesh_edge uv m a b c)"
| "mesh_step uv (RemoveEdge a b) m = snd (rr_mesh_remove_edge m a b)"

definition ids_nonempty :: "(cstr \<Rightarrow> bool) \<Rightarrow> bool" where
  "ids_nonempty uv \<longleftrightarrow> \<not> uv None \<and> (\<forall>s. uv (Some s) \<longrightarrow> s \<noteq> [])"

interpretation topo: machine "mesh_step uv" "\<lambda>m. ids_nonempty uv \<and> topo_ok m" for uv
proof
  fix m e assume "ids_nonempty uv \<and> topo_ok m"
  then show "ids_nonempty uv \<and> topo_ok (mesh_step uv e m)"
    by (cases e) (auto simp: ids_nonempty_def intro: inv_rules)
qed

definition mesh_run :: "(cstr \<Rightarrow> bool) \<Rightarrow> mesh_op list \<Rightarrow> mesh_topo \<Rightarrow> mesh_topo" where
  "mesh_run uv ops m = fold (mesh_step uv) ops m"

lemma mesh_run_ok:
  "ids_nonempty uv \<Longrightarrow> rr_mesh_new uv local = Some m \<Longrightarrow> topo_ok (mesh_run uv ops (ms_topo m))"
  using topo.run_inv [of uv "ms_topo m" ops] new_ok [of uv local m] by (auto simp: mesh_run_def ids_nonempty_def)

section \<open>Policies the host accepts\<close>

text \<open>
  What the host demands of a proposal: a direct neighbour, a positive cost, at least one hop and
  another destination than the local node. A policy that promises as much is used as it is.
\<close>

definition acceptable :: "mesh_topo \<Rightarrow> string \<Rightarrow> mesh_route \<Rightarrow> bool" where
  "acceptable t d r \<longleftrightarrow> rr_mesh_edge_cost t (Some (mt_id t ! 0)) (Some (mr_next_hop r)) \<noteq> 0 \<and>
     mr_hops r \<noteq> 0 \<and> mr_cost r \<noteq> 0 \<and> d \<noteq> mt_id t ! 0"

locale route_policy =
  fixes policy :: "mesh_topo \<Rightarrow> string \<Rightarrow> mesh_route option"
  assumes proposal_ok: "topo_ok t \<Longrightarrow> policy t d = Some r \<Longrightarrow> acceptable t d r"
begin

definition provider :: "mesh_topo \<Rightarrow> string \<Rightarrow> mesh_route \<Rightarrow> 'c option \<Rightarrow> bool \<times> mesh_route" where
  "provider t d out context = (case policy t d of None \<Rightarrow> (False, out) | Some r \<Rightarrow> (True, r))"

lemma host_uses_policy:
  fixes m :: "'c mesh"
  assumes "topo_ok (ms_topo m)"
    "rt_route (case ms_router m of Some r \<Rightarrow> r | None \<Rightarrow> rr_mesh_router_dijkstra) = Some provider"
  shows "rr_mesh_route m (Some d) out =
    (case policy (ms_topo m) d of None \<Rightarrow> (False, out) | Some r \<Rightarrow> (True, r))"
proof (cases "policy (ms_topo m) d")
  case None
  with assms(2) show ?thesis by (simp add: rr_mesh_route_def Let_def provider_def)
next
  case (Some r)
  with proposal_ok [OF assms(1) this] assms(2) show ?thesis
    by (simp add: rr_mesh_route_def Let_def provider_def acceptable_def)
qed

end

lemma dijkstra_acceptable:
  assumes ok: "topo_ok t" and d: "dijkstra_excluding t (Some d) ex = Some r"
  shows "acceptable t d r"
proof -
  from dijkstra_best [OF ok d] obtain v f where v: "v < length (mt_id t)" "mt_id t ! v = d"
    "mr_next_hop r = mt_id t ! f" "hop_path t ex v (mr_cost r) (mr_hops r) f"
    by (auto simp: best_route_def)
  from hop_path_bounds [OF v(4)] have b: "v \<noteq> 0" "0 < mr_cost r" "0 < mr_hops r" by auto
  from hop_path_first [OF v(4)] have f: "mt_edge t 0 f \<noteq> 0" "f < length (mt_id t)" by auto
  from ok have ne: "0 < length (mt_id t)" "distinct (mt_id t)" by (auto simp: topo_ok_def)
  with v(1,2) b have "d \<noteq> mt_id t ! 0" by (metis nth_eq_iff_index_eq)
  moreover have "index_of t (Some (mt_id t ! 0)) = Some 0" "index_of t (Some (mr_next_hop r)) = Some f"
    using ne f v(3) by (simp_all add: index_of_Some [OF ok])
  ultimately show ?thesis using b f by (simp add: acceptable_def rr_mesh_edge_cost_def)
qed

interpretation dijkstra: route_policy "\<lambda>t d. dijkstra_excluding t (Some d) ex" for ex
  by unfold_locales (rule dijkstra_acceptable)

lemma route_dijkstra_provider: "route_dijkstra = dijkstra.provider (\<lambda>_. False)"
  by (intro ext) (simp add: route_dijkstra_def dijkstra.provider_def)

lemma default_route:
  assumes "topo_ok (ms_topo m)" "ms_router m = None"
  shows "rr_mesh_route m (Some d) out =
    (case dijkstra_excluding (ms_topo m) (Some d) (\<lambda>_. False) of None \<Rightarrow> (False, out) | Some r \<Rightarrow> (True, r))"
  using assms
  by (intro dijkstra.host_uses_policy) (simp_all add: rr_mesh_router_dijkstra_def route_dijkstra_provider)

section \<open>Excluded first hops\<close>

definition direct_hop :: "mesh_topo \<Rightarrow> cstr \<Rightarrow> bool" where
  "direct_hop m h \<longleftrightarrow> (case index_of m h of None \<Rightarrow> False | Some n \<Rightarrow> n \<noteq> 0 \<and> mt_edge m 0 n \<noteq> 0)"

definition excluded_by :: "mesh_topo \<Rightarrow> cstr list \<Rightarrow> nat \<Rightarrow> bool" where
  "excluded_by m hops i \<longleftrightarrow> (\<exists>h \<in> set hops. index_of m h = Some i)"

lemma exclude_fold_None [simp]: "fold (exclude_hop m) hops None = None"
  by (induction hops) (simp_all add: exclude_hop_def)

lemma exclude_fold:
  "fold (exclude_hop m) hops (Some ex) =
    (if \<forall>h \<in> set hops. direct_hop m h then Some (\<lambda>i. ex i \<or> excluded_by m hops i) else None)"
proof (induction hops arbitrary: ex)
  case Nil
  then show ?case by (simp add: excluded_by_def)
next
  case (Cons h hops)
  show ?case
  proof (cases "direct_hop m h")
    case True
    then obtain n where n: "index_of m h = Some n" "n \<noteq> 0" "mt_edge m 0 n \<noteq> 0"
      by (auto simp: direct_hop_def split: option.splits)
    then have "fold (exclude_hop m) (h # hops) (Some ex) = fold (exclude_hop m) hops (Some (ex(n := True)))"
      by (simp add: exclude_hop_def)
    moreover have "(\<lambda>i. (ex(n := True)) i \<or> excluded_by m hops i) = (\<lambda>i. ex i \<or> excluded_by m (h # hops) i)"
      using n by (auto simp: excluded_by_def fun_eq_iff)
    ultimately show ?thesis using True Cons.IH [of "ex(n := True)"] by simp
  next
    case False
    then have "exclude_hop m h (Some ex) = None"
      by (auto simp: direct_hop_def exclude_hop_def split: option.splits)
    with False show ?thesis by simp
  qed
qed

lemma avoiding_route:
  assumes ok: "topo_ok m" and direct: "\<forall>h \<in> set hops. direct_hop m h" and n: "length hops \<le> RR_MESH_MAX_NODES"
  shows "rr_mesh_route_avoiding_many m (Some d) hops out =
    (case dijkstra_excluding m (Some d) (excluded_by m hops) of None \<Rightarrow> (False, out) | Some r \<Rightarrow> (True, r))"
proof -
  have "fold (exclude_hop m) hops (Some (\<lambda>_. False)) = Some (excluded_by m hops)"
    using direct by (simp add: exclude_fold)
  then show ?thesis
    using n dijkstra.proposal_ok [OF ok, where d = d and ex = "excluded_by m hops"]
    by (auto simp: rr_mesh_route_avoiding_many_def acceptable_def split: option.splits)
qed

section \<open>Properties\<close>

definition demo_names :: "cstr \<Rightarrow> bool" where
  "demo_names i = (case i of None \<Rightarrow> False | Some s \<Rightarrow> s \<noteq> [])"

definition demo_links :: "mesh_op list" where
  "demo_links = [Edge (Some ''l'') (Some ''b'') 5, Edge (Some ''b'') (Some ''d'') 1, Edge (Some ''l'') (Some ''a'') 2,
     Edge (Some ''a'') (Some ''d'') 4, Edge (Some ''a'') (Some ''b'') 9, RemoveEdge (Some ''a'') (Some ''b'')]"

definition demo_mesh :: "unit mesh" where
  "demo_mesh = (the (rr_mesh_new demo_names (Some ''l'')))\<lparr>
     ms_topo := mesh_run demo_names demo_links (ms_topo (the (rr_mesh_new demo_names (Some ''l'')) :: unit mesh))\<rparr>"

lemma demo_names_ok: "ids_nonempty demo_names"
  by (simp add: ids_nonempty_def demo_names_def)

lemma demo_mesh_new: "rr_mesh_new demo_names (Some ''l'') = Some (the (rr_mesh_new demo_names (Some ''l'')))"
  by (simp add: rr_mesh_new_def mesh_valid_def demo_names_def chr_ord_def)

lemma demo_mesh_topo: "ms_topo demo_mesh = mesh_run demo_names demo_links (ms_topo (the (rr_mesh_new demo_names (Some ''l'')) :: unit mesh))"
  by (simp add: demo_mesh_def)

lemma demo_mesh_router: "ms_router demo_mesh = None"
  by (simp add: demo_mesh_def rr_mesh_new_def mesh_valid_def demo_names_def chr_ord_def)

lemma demo_mesh_ok: "topo_ok (ms_topo demo_mesh)"
  unfolding demo_mesh_topo by (rule mesh_run_ok [OF demo_names_ok demo_mesh_new])

text \<open>
  C28. After any links were added and removed, the built-in routing finds a route exactly when the
  destination can be reached, and the route it returns is a real path whose cost, then hop count,
  then first hop's name no other path beats; without a route the caller's result is untouched.
\<close>

theorem mesh_route_shortest:
  fixes m :: "'c mesh"
  assumes "ids_nonempty uv" "rr_mesh_new uv local = Some (m0 :: 'c mesh)"
    "ms_topo m = mesh_run uv ops (ms_topo m0)" "ms_router m = None"
  shows "case rr_mesh_route m (Some d) out of (ok, r) \<Rightarrow>
    if ok then best_route (ms_topo m) (\<lambda>_. False) d r
    else r = out \<and> (\<forall>v c h f. v < length (mt_id (ms_topo m)) \<and> mt_id (ms_topo m) ! v = d \<longrightarrow>
           \<not> hop_path (ms_topo m) (\<lambda>_. False) v c h f)"
proof -
  have ok: "topo_ok (ms_topo m)" unfolding assms(3) by (rule mesh_run_ok [OF assms(1,2)])
  show ?thesis
    unfolding default_route [OF ok assms(4)]
    using dijkstra_best [OF ok, of d "\<lambda>_. False"] dijkstra_complete [OF ok, of d "\<lambda>_. False"]
    by (auto split: option.split)
qed

theorem mesh_route_shortest_witness:
  "case rr_mesh_route demo_mesh (Some ''d'') no_route of (ok, r) \<Rightarrow>
    if ok then best_route (ms_topo demo_mesh) (\<lambda>_. False) ''d'' r
    else r = no_route \<and> (\<forall>v c h f. v < length (mt_id (ms_topo demo_mesh)) \<and> mt_id (ms_topo demo_mesh) ! v = ''d'' \<longrightarrow>
           \<not> hop_path (ms_topo demo_mesh) (\<lambda>_. False) v c h f)"
  by (rule mesh_route_shortest [OF demo_names_ok demo_mesh_new demo_mesh_topo demo_mesh_router])

text \<open>The two routes of the example cost the same; the name of the first hop decides.\<close>

lemma demo_mesh_route: "rr_mesh_route demo_mesh (Some ''d'') no_route =
    (True, \<lparr>mr_next_hop = ''a'', mr_cost = 6, mr_hops = 2\<rparr>)"
  by code_simp

text \<open>
  Whatever a loaded policy proposes, a route is handed out only if its next hop is a direct
  neighbour of the local server, its cost and hops are positive and the destination is another
  server; otherwise the caller's result is untouched.
\<close>

theorem mesh_route_validated:
  fixes m :: "'c mesh"
  shows "rr_mesh_route m (Some d) out =
    (case the (rt_route (case ms_router m of Some r \<Rightarrow> r | None \<Rightarrow> rr_mesh_router_dijkstra))
            (ms_topo m) d no_route (ms_context m) of
       (ok, r) \<Rightarrow> if ok \<and> acceptable (ms_topo m) d r then (True, r) else (False, out))"
  by (auto simp: rr_mesh_route_def Let_def acceptable_def split: prod.split)

text \<open>
  An alternate route that avoids failed neighbours leaves by none of them and is the best of
  those that do not; it is refused only when there is no such path.
\<close>

theorem mesh_route_avoids:
  assumes "ids_nonempty uv" "rr_mesh_new uv local = Some m0" "m = mesh_run uv ops (ms_topo m0)"
    "\<forall>h \<in> set hops. direct_hop m h" "length hops \<le> RR_MESH_MAX_NODES"
  shows "case rr_mesh_route_avoiding_many m (Some d) hops out of (ok, r) \<Rightarrow>
    if ok then best_route m (excluded_by m hops) d r \<and> Some (mr_next_hop r) \<notin> set hops
    else r = out \<and> (\<forall>v c h f. v < length (mt_id m) \<and> mt_id m ! v = d \<longrightarrow>
           \<not> hop_path m (excluded_by m hops) v c h f)"
proof -
  have ok: "topo_ok m" unfolding assms(3) by (rule mesh_run_ok [OF assms(1,2)])
  have avoid: "Some (mr_next_hop r) \<notin> set hops" if b: "best_route m (excluded_by m hops) d r" for r
  proof -
    from b obtain v f where f: "mr_next_hop r = mt_id m ! f" "hop_path m (excluded_by m hops) v (mr_cost r) (mr_hops r) f"
      by (auto simp: best_route_def)
    from hop_path_first [OF f(2)] have "f < length (mt_id m)" "\<not> excluded_by m hops f" by auto
    with f(1) index_of_Some [OF ok] show ?thesis by (auto simp: excluded_by_def)
  qed
  show ?thesis
    unfolding avoiding_route [OF ok assms(4,5)]
    using dijkstra_best [OF ok, of d "excluded_by m hops"] dijkstra_complete [OF ok, of d "excluded_by m hops"] avoid
    by (auto split: option.split)
qed

theorem mesh_route_avoids_witness:
  "best_route (ms_topo demo_mesh) (excluded_by (ms_topo demo_mesh) [Some ''b'']) ''d''
     \<lparr>mr_next_hop = ''a'', mr_cost = 6, mr_hops = 2\<rparr>"
proof -
  have r: "rr_mesh_route_avoiding_many (ms_topo demo_mesh) (Some ''d'') [Some ''b''] no_route =
      (True, \<lparr>mr_next_hop = ''a'', mr_cost = 6, mr_hops = 2\<rparr>)"
    by code_simp
  have "\<forall>h \<in> set [Some ''b'']. direct_hop (ms_topo demo_mesh) h" by code_simp
  from mesh_route_avoids [OF demo_names_ok demo_mesh_new demo_mesh_topo this, of "''d''" no_route] r
  show ?thesis
    by (simp add: RR_MESH_MAX_NODES_def)
qed

end
