(* ===== verification/AudioGraph.thy ===== *)
theory AudioGraph
  imports Prelude
begin

text \<open>
  \<^verbatim>\<open>rrclient/audio.graph.c\<close>: the client's logical audio routing graph. Nodes are named
  sources, processors, mixers and sinks; links carry audio normally or as a bypass that is used
  only when the normal source has failed. The graph is kept acyclic, and everything but a mixer
  has at most one normal and one bypass input.

  The two \<open>GArray\<close>s are lists and a link names its ends by their index, as in the code. The
  public operations take the enumerations as C integers (\<open>type > RR_AG_SINK\<close> is refused), so they
  take a \<^typ>\<open>nat\<close> here and decode it. The graph pointer is not \<open>NULL\<close>.
\<close>

unbundle bit_operations_syntax

section \<open>State\<close>

datatype ag_node_type = RR_AG_SOURCE | RR_AG_PROCESSOR | RR_AG_MIXER | RR_AG_SINK

datatype ag_link_type = RR_AG_NORMAL | RR_AG_BYPASS

datatype ag_health = RR_AG_STOPPED | RR_AG_STARTING | RR_AG_HEALTHY | RR_AG_FAILED

definition ag_node_type_of :: "nat \<Rightarrow> ag_node_type option" where
  "ag_node_type_of n =
     (if n = 0 then Some RR_AG_SOURCE else if n = 1 then Some RR_AG_PROCESSOR
      else if n = 2 then Some RR_AG_MIXER else if n = 3 then Some RR_AG_SINK else None)"

definition ag_link_type_of :: "nat \<Rightarrow> ag_link_type option" where
  "ag_link_type_of n = (if n = 0 then Some RR_AG_NORMAL else if n = 1 then Some RR_AG_BYPASS else None)"

definition ag_health_of :: "nat \<Rightarrow> ag_health option" where
  "ag_health_of n =
     (if n = 0 then Some RR_AG_STOPPED else if n = 1 then Some RR_AG_STARTING
      else if n = 2 then Some RR_AG_HEALTHY else if n = 3 then Some RR_AG_FAILED else None)"

record ag_node =
  an_id :: string
  an_type :: ag_node_type
  an_health :: ag_health
  an_route :: char

record ag_edge =
  ae_src :: nat
  ae_dst :: nat
  ae_type :: ag_link_type
  ae_channels :: "8 word"

record audio_graph =
  ag_nodes :: "ag_node list"
  ag_edges :: "ag_edge list"

definition RR_AG_CHANNEL_STEREO :: "32 word" where
  "RR_AG_CHANNEL_STEREO = 3"

definition chr_nul :: char where
  "chr_nul = CHR 0x00"

section \<open>Operations\<close>

definition ag_lookup :: "audio_graph \<Rightarrow> cstr \<Rightarrow> nat option" where
  "ag_lookup g ident = (case ident of
     None \<Rightarrow> None
   | Some s \<Rightarrow> find_idx (\<lambda>n. an_id n = s) (ag_nodes g))"

definition rr_audio_graph_new :: audio_graph where
  "rr_audio_graph_new = \<lparr>ag_nodes = [], ag_edges = []\<rparr>"

definition rr_audio_graph_add_node :: "audio_graph \<Rightarrow> cstr \<Rightarrow> nat \<Rightarrow> bool \<times> audio_graph" where
  "rr_audio_graph_add_node g ident type = (case (ident, ag_node_type_of type) of
     (Some s, Some t) \<Rightarrow>
       (if s = [] \<or> length s \<ge> 64 \<or> ag_lookup g ident \<noteq> None \<or> length (ag_nodes g) \<ge> 256 then (False, g)
        else (True, g\<lparr>ag_nodes := ag_nodes g @
               [\<lparr>an_id = s, an_type = t, an_health = RR_AG_STOPPED, an_route = chr_nul\<rparr>]\<rparr>))
   | _ \<Rightarrow> (False, g))"

text \<open>The search behind the cycle check: \<open>reach_scan\<close> is the body of its \<open>for\<close>, \<open>reach_loop\<close> the \<open>while\<close>.\<close>

definition reach_scan :: "nat \<Rightarrow> ag_edge \<Rightarrow> (nat \<Rightarrow> bool) \<times> nat list \<Rightarrow> (nat \<Rightarrow> bool) \<times> nat list" where
  "reach_scan current e st = (case st of (visited, queue) \<Rightarrow>
     if ae_src e = current \<and> \<not> visited (ae_dst e)
     then (visited(ae_dst e := True), queue @ [ae_dst e]) else (visited, queue))"

definition unvisited :: "ag_edge list \<Rightarrow> (nat \<Rightarrow> bool) \<Rightarrow> nat" where
  "unvisited es visited = card {d \<in> ae_dst ` set es. \<not> visited d}"

lemma reach_scan_measure:
  assumes "e \<in> set es"
  shows "unvisited es (fst (reach_scan c e st)) + length (snd (reach_scan c e st)) \<le>
    unvisited es (fst st) + length (snd st)"
proof (cases "ae_src e = c \<and> \<not> fst st (ae_dst e)")
  case True
  let ?U = "{d \<in> ae_dst ` set es. \<not> fst st d}"
  have "{d \<in> ae_dst ` set es. \<not> ((fst st)(ae_dst e := True)) d} = ?U - {ae_dst e}" by auto
  moreover have "ae_dst e \<in> ?U" using True assms by simp
  ultimately have "unvisited es ((fst st)(ae_dst e := True)) < unvisited es (fst st)"
    unfolding unvisited_def using card_Diff1_less [of ?U "ae_dst e"] by simp
  with True show ?thesis by (cases st) (simp add: reach_scan_def)
next
  case False
  then show ?thesis by (cases st) (auto simp: reach_scan_def)
qed

lemma reach_fold_measure:
  "set es' \<subseteq> set es \<Longrightarrow> unvisited es (fst (fold (reach_scan c) es' st)) + length (snd (fold (reach_scan c) es' st)) \<le>
    unvisited es (fst st) + length (snd st)"
proof (induction es' arbitrary: st)
  case (Cons e es')
  then have sub: "e \<in> set es" "set es' \<subseteq> set es" by auto
  from reach_scan_measure [OF sub(1), of c st] Cons.IH [OF sub(2), of "reach_scan c e st"] show ?case
    by simp
qed simp

function reach_loop :: "ag_edge list \<Rightarrow> nat \<Rightarrow> (nat \<Rightarrow> bool) \<Rightarrow> nat list \<Rightarrow> bool" where
  "reach_loop es target visited [] = False"
| "reach_loop es target visited (current # queue) =
     (if current = target then True
      else let st = fold (reach_scan current) es (visited, queue)
           in reach_loop es target (fst st) (snd st))"
  by pat_completeness auto
termination
proof (relation "measure (\<lambda>(es, target, visited, queue). unvisited es visited + length queue)", goal_cases)
  case (2 es target visited current queue x)
  with reach_fold_measure [of es es current "(visited, queue)"] show ?case by (simp add: case_prod_beta)
qed simp

definition graph_reaches :: "audio_graph \<Rightarrow> nat \<Rightarrow> nat \<Rightarrow> bool" where
  "graph_reaches g start target = reach_loop (ag_edges g) target ((\<lambda>_. False)(start := True)) [start]"

text \<open>A link that would repeat an edge, or feed a second input of one kind into anything but a mixer.\<close>

definition link_conflict :: "ag_node \<Rightarrow> nat \<Rightarrow> nat \<Rightarrow> ag_link_type \<Rightarrow> ag_edge \<Rightarrow> bool" where
  "link_conflict to a b t e \<longleftrightarrow>
     ae_src e = a \<and> ae_dst e = b \<and> ae_type e = t \<or>
     an_type to \<noteq> RR_AG_MIXER \<and> ae_dst e = b \<and> ae_type e = t"

definition rr_audio_graph_add_channel_link ::
    "audio_graph \<Rightarrow> cstr \<Rightarrow> cstr \<Rightarrow> nat \<Rightarrow> 32 word \<Rightarrow> bool \<times> audio_graph" where
  "rr_audio_graph_add_channel_link g src dst type channels =
     (case (ag_lookup g src, ag_lookup g dst, ag_link_type_of type) of
        (Some a, Some b, Some t) \<Rightarrow>
          (if a = b \<or> channels = 0 \<or> channels AND NOT RR_AG_CHANNEL_STEREO \<noteq> 0 \<or>
              length (ag_edges g) \<ge> 512 then (False, g)
           else if an_type (ag_nodes g ! a) = RR_AG_SINK \<or> an_type (ag_nodes g ! b) = RR_AG_SOURCE \<or>
                   graph_reaches g b a then (False, g)
           else if list_ex (link_conflict (ag_nodes g ! b) a b t) (ag_edges g) then (False, g)
           else (True, g\<lparr>ag_edges := ag_edges g @
                  [\<lparr>ae_src = a, ae_dst = b, ae_type = t, ae_channels = ucast channels\<rparr>]\<rparr>))
      | _ \<Rightarrow> (False, g))"

definition rr_audio_graph_add_link :: "audio_graph \<Rightarrow> cstr \<Rightarrow> cstr \<Rightarrow> nat \<Rightarrow> bool \<times> audio_graph" where
  "rr_audio_graph_add_link g src dst type =
     rr_audio_graph_add_channel_link g src dst type RR_AG_CHANNEL_STEREO"

definition rr_audio_graph_set_health :: "audio_graph \<Rightarrow> cstr \<Rightarrow> nat \<Rightarrow> bool \<times> audio_graph" where
  "rr_audio_graph_set_health g ident health = (case (ag_lookup g ident, ag_health_of health) of
     (Some i, Some h) \<Rightarrow> (True, g\<lparr>ag_nodes := (ag_nodes g)[i := (ag_nodes g ! i)\<lparr>an_health := h\<rparr>]\<rparr>)
   | _ \<Rightarrow> (False, g))"

text \<open>\<open>strchr\<close> also finds the terminator of \<open>"LRSM"\<close>, so the zero character is accepted.\<close>

definition rr_audio_graph_set_route :: "audio_graph \<Rightarrow> cstr \<Rightarrow> char \<Rightarrow> bool \<times> audio_graph" where
  "rr_audio_graph_set_route g ident route = (case ag_lookup g ident of
     None \<Rightarrow> (False, g)
   | Some i \<Rightarrow>
       (if route \<notin> set (''LRSM'' @ [chr_nul]) then (False, g)
        else (True, g\<lparr>ag_nodes := (ag_nodes g)[i := (ag_nodes g ! i)\<lparr>an_route := route\<rparr>]\<rparr>)))"

definition input_scan :: "audio_graph \<Rightarrow> nat \<Rightarrow> ag_edge \<Rightarrow> ag_node option \<times> ag_node option
    \<Rightarrow> ag_node option \<times> ag_node option" where
  "input_scan g index e st = (case st of (normal, fallback) \<Rightarrow>
     if ae_dst e \<noteq> index then (normal, fallback)
     else if ae_type e = RR_AG_NORMAL then (Some (ag_nodes g ! ae_src e), fallback)
     else (normal, Some (ag_nodes g ! ae_src e)))"

definition rr_audio_graph_input :: "audio_graph \<Rightarrow> cstr \<Rightarrow> cstr" where
  "rr_audio_graph_input g dst = (case ag_lookup g dst of
     None \<Rightarrow> None
   | Some index \<Rightarrow>
       (if an_type (ag_nodes g ! index) = RR_AG_MIXER then None
        else (case fold (input_scan g index) (ag_edges g) (None, None) of
          (Some normal, fallback) \<Rightarrow>
            (if an_health normal \<noteq> RR_AG_FAILED then Some (an_id normal)
             else (case fallback of
               Some f \<Rightarrow> if an_health f = RR_AG_HEALTHY then Some (an_id f) else None
             | None \<Rightarrow> None))
        | (None, _) \<Rightarrow> None)))"

definition rr_audio_graph_node_count :: "audio_graph \<Rightarrow> nat" where
  "rr_audio_graph_node_count g = length (ag_nodes g)"

definition rr_audio_graph_link_count :: "audio_graph \<Rightarrow> nat" where
  "rr_audio_graph_link_count g = length (ag_edges g)"

text \<open>The snapshot copies nodes and links by value when they fit its fixed arrays.\<close>

definition rr_audio_graph_snapshot :: "audio_graph \<Rightarrow> audio_graph option" where
  "rr_audio_graph_snapshot g =
     (if length (ag_nodes g) > 34 \<or> length (ag_edges g) > 64 then None
      else Some \<lparr>ag_nodes = map (\<lambda>n. n\<lparr>an_id := take 63 (an_id n)\<rparr>) (ag_nodes g), ag_edges = ag_edges g\<rparr>)"

section \<open>The cycle check\<close>

definition edge_rel :: "ag_edge list \<Rightarrow> (nat \<times> nat) set" where
  "edge_rel es = (\<lambda>e. (ae_src e, ae_dst e)) ` set es"

lemma edge_rel_iff: "(x, y) \<in> edge_rel es \<longleftrightarrow> (\<exists>e \<in> set es. ae_src e = x \<and> ae_dst e = y)"
  by (auto simp: edge_rel_def)

lemma reach_fold_visited:
  "fst (fold (reach_scan c) es st) x \<longleftrightarrow> fst st x \<or> (c, x) \<in> edge_rel es"
proof (induction es arbitrary: st)
  case (Cons e es)
  show ?case unfolding fold_simps Cons.IH by (cases st) (auto simp: reach_scan_def edge_rel_iff)
qed (simp add: edge_rel_iff)

lemma reach_fold_queue:
  "x \<in> set (snd (fold (reach_scan c) es st)) \<longleftrightarrow> x \<in> set (snd st) \<or> \<not> fst st x \<and> (c, x) \<in> edge_rel es"
proof (induction es arbitrary: st)
  case (Cons e es)
  show ?case unfolding fold_simps Cons.IH by (cases st) (auto simp: reach_scan_def edge_rel_iff)
qed (simp add: edge_rel_iff)

lemma reach_sound: "reach_loop es t v q \<Longrightarrow> \<exists>s \<in> set q. (s, t) \<in> (edge_rel es)\<^sup>*"
proof (induction es t v q rule: reach_loop.induct)
  case (2 es t v c q)
  show ?case
  proof (cases "c = t")
    case False
    with 2 obtain s where s: "s \<in> set (snd (fold (reach_scan c) es (v, q)))" "(s, t) \<in> (edge_rel es)\<^sup>*"
      by (auto simp: Let_def)
    then have "s \<in> set q \<or> (c, s) \<in> edge_rel es" by (auto simp: reach_fold_queue)
    with s(2) show ?thesis by (auto intro: converse_rtrancl_into_rtrancl)
  qed simp
qed simp

lemma reach_complete:
  assumes "\<not> reach_loop es t v q" "\<forall>x \<in> set q. v x"
    "\<forall>x. v x \<and> x \<notin> set q \<longrightarrow> x \<noteq> t \<and> (\<forall>y. (x, y) \<in> edge_rel es \<longrightarrow> v y)" "v s"
  shows "(s, t) \<notin> (edge_rel es)\<^sup>*"
  using assms
proof (induction es t v q arbitrary: s rule: reach_loop.induct)
  case (1 es t v)
  have "v x" if "(s, x) \<in> (edge_rel es)\<^sup>*" for x
    using that by (induction rule: rtrancl_induct) (use 1 in auto)
  with 1 show ?case by auto
next
  case (2 es t v c q)
  let ?st = "fold (reach_scan c) es (v, q)"
  from 2(2) have c: "c \<noteq> t" "\<not> reach_loop es t (fst ?st) (snd ?st)" by (auto simp: Let_def split: if_splits)
  have "\<forall>x \<in> set (snd ?st). fst ?st x" using 2(3) by (auto simp: reach_fold_queue reach_fold_visited)
  moreover have "\<forall>x. fst ?st x \<and> x \<notin> set (snd ?st) \<longrightarrow> x \<noteq> t \<and> (\<forall>y. (x, y) \<in> edge_rel es \<longrightarrow> fst ?st y)"
    using 2(4) c(1) by (auto simp: reach_fold_queue reach_fold_visited)
  moreover have "fst ?st s" using 2(5) by (simp add: reach_fold_visited)
  ultimately show ?case by (rule 2(1) [OF c(1) refl c(2)])
qed

lemma graph_reaches_iff: "graph_reaches g s t \<longleftrightarrow> (s, t) \<in> (edge_rel (ag_edges g))\<^sup>*"
proof
  assume "graph_reaches g s t"
  then show "(s, t) \<in> (edge_rel (ag_edges g))\<^sup>*" using reach_sound [of "ag_edges g" t _ "[s]"] by (simp only: graph_reaches_def) simp
next
  assume r: "(s, t) \<in> (edge_rel (ag_edges g))\<^sup>*"
  show "graph_reaches g s t"
  proof (rule ccontr)
    assume "\<not> graph_reaches g s t"
    then have "\<not> reach_loop (ag_edges g) t ((\<lambda>_. False)(s := True)) [s]" by (simp add: graph_reaches_def)
    moreover have "\<forall>x. ((\<lambda>_. False)(s := True)) x \<and> x \<notin> set [s] \<longrightarrow>
        x \<noteq> t \<and> (\<forall>y. (x, y) \<in> edge_rel (ag_edges g) \<longrightarrow> ((\<lambda>_. False)(s := True)) y)" by simp
    ultimately show False using reach_complete [of "ag_edges g" t "(\<lambda>_. False)(s := True)" "[s]" s] r by simp
  qed
qed

section \<open>Invariant\<close>

text \<open>Everything but a mixer has at most one input of each kind; equal triples do not repeat.\<close>

definition edge_ok :: "audio_graph \<Rightarrow> ag_edge \<Rightarrow> bool" where
  "edge_ok g e \<longleftrightarrow> ae_src e < length (ag_nodes g) \<and> ae_dst e < length (ag_nodes g) \<and>
     an_type (ag_nodes g ! ae_src e) \<noteq> RR_AG_SINK \<and> an_type (ag_nodes g ! ae_dst e) \<noteq> RR_AG_SOURCE \<and>
     ae_channels e \<in> {1, 2, 3}"

definition ag_inv :: "audio_graph \<Rightarrow> bool" where
  "ag_inv g \<longleftrightarrow> distinct (map an_id (ag_nodes g)) \<and> (\<forall>n \<in> set (ag_nodes g). an_id n \<noteq> [] \<and> length (an_id n) < 64) \<and>
     length (ag_nodes g) \<le> 256 \<and> length (ag_edges g) \<le> 512 \<and>
     (\<forall>e \<in> set (ag_edges g). edge_ok g e) \<and> acyclic (edge_rel (ag_edges g)) \<and>
     (\<forall>d < length (ag_nodes g). \<forall>t. an_type (ag_nodes g ! d) \<noteq> RR_AG_MIXER \<longrightarrow>
        length (filter (\<lambda>e. ae_dst e = d \<and> ae_type e = t) (ag_edges g)) \<le> 1)"

lemma ag_lookup_Some:
  "ag_lookup g i = Some k \<Longrightarrow> k < length (ag_nodes g) \<and> i = Some (an_id (ag_nodes g ! k))"
  by (cases i) (auto simp: ag_lookup_def dest: find_idx_SomeD)

text \<open>Changing a node's health or route keeps its name and type, hence the invariant.\<close>

lemma ag_inv_update:
  assumes inv: "ag_inv g" and i: "i < length (ag_nodes g)" and same: "an_id n = an_id (ag_nodes g ! i)" "an_type n = an_type (ag_nodes g ! i)"
  shows "ag_inv (g\<lparr>ag_nodes := (ag_nodes g)[i := n]\<rparr>)"
proof -
  have ids: "map an_id ((ag_nodes g)[i := n]) = map an_id (ag_nodes g)"
    using i same(1) by (metis list_update_id map_update)
  have types: "an_type ((ag_nodes g)[i := n] ! k) = an_type (ag_nodes g ! k)" for k
    using i same(2) by (cases "k = i") auto
  have named: "\<forall>x \<in> set (ag_nodes g). an_id x \<noteq> [] \<and> length (an_id x) < 64" using inv by (simp add: ag_inv_def)
  with same(1) nth_mem [OF i] have "\<forall>x \<in> insert n (set (ag_nodes g)). an_id x \<noteq> [] \<and> length (an_id x) < 64" by simp
  with set_update_subset_insert [of "ag_nodes g" i n]
  have "\<forall>x \<in> set ((ag_nodes g)[i := n]). an_id x \<noteq> [] \<and> length (an_id x) < 64" by blast
  with inv ids types show ?thesis by (simp add: ag_inv_def edge_ok_def)
qed

lemma add_node_inv [inv_rules]: "ag_inv g \<Longrightarrow> ag_inv (snd (rr_audio_graph_add_node g i t))"
proof -
  assume inv: "ag_inv g"
  have "ag_inv (g\<lparr>ag_nodes := ag_nodes g @ [n]\<rparr>)"
    if n: "an_id n \<noteq> []" "length (an_id n) < 64" "ag_lookup g (Some (an_id n)) = None" "length (ag_nodes g) < 256" for n
  proof -
    have no_in: "filter (\<lambda>e. ae_dst e = length (ag_nodes g) \<and> ae_type e = t) (ag_edges g) = []" for t
      using inv by (auto simp: ag_inv_def edge_ok_def filter_empty_conv)
    from inv n no_in show ?thesis
      by (auto simp: ag_inv_def edge_ok_def nth_append ag_lookup_def less_Suc_eq)
  qed
  with inv show ?thesis
    by (auto simp: rr_audio_graph_add_node_def split: option.splits)
qed

lemma set_health_inv [inv_rules]: "ag_inv g \<Longrightarrow> ag_inv (snd (rr_audio_graph_set_health g i h))"
  by (auto simp: rr_audio_graph_set_health_def split: option.splits
      intro!: ag_inv_update dest: ag_lookup_Some)

lemma set_route_inv [inv_rules]: "ag_inv g \<Longrightarrow> ag_inv (snd (rr_audio_graph_set_route g i r))"
  by (auto simp: rr_audio_graph_set_route_def split: option.splits
      intro!: ag_inv_update dest: ag_lookup_Some)

text \<open>The channel mask admits left, right or both, and the narrowing to a byte loses nothing.\<close>

lemma channels_fit:
  assumes "c \<noteq> 0" "c AND NOT RR_AG_CHANNEL_STEREO = 0"
  shows "(ucast c :: 8 word) \<in> {1, 2, 3}"
proof -
  have "x AND m = x" if "x AND NOT m = 0" for x m :: "32 word"
    using that by (metis and.right_neutral bit.compl_zero bit.conj_disj_distrib bit.disj_cancel_right
        bit.disj_zero_right or.commute)
  with assms(2) have c: "c = c AND 3" by (simp add: RR_AG_CHANNEL_STEREO_def)
  have "unat c < 4"
  proof -
    have "c AND 3 = take_bit 2 c" by (simp add: take_bit_eq_mask mask_eq_exp_minus_1)
    with c have "unat c = take_bit 2 (unat c)" by (metis unsigned_take_bit_eq)
    then show ?thesis by (metis take_bit_nat_less_exp numeral_Bit0 power2_eq_square mult_2 numeral_One num_double)
  qed
  moreover have "unat c \<noteq> 0" using assms(1) by (simp add: unat_eq_zero)
  ultimately have "unat c = 1 \<or> unat c = 2 \<or> unat c = 3" by linarith
  then have "c = 1 \<or> c = 2 \<or> c = 3" by (simp add: word_unat_eq_iff)
  then show ?thesis by auto
qed

text \<open>The accepted links, spelled out.\<close>

definition link_ok :: "audio_graph \<Rightarrow> nat \<Rightarrow> nat \<Rightarrow> ag_link_type \<Rightarrow> 32 word \<Rightarrow> bool" where
  "link_ok g a b t c \<longleftrightarrow> c \<noteq> 0 \<and> c AND NOT RR_AG_CHANNEL_STEREO = 0 \<and> length (ag_edges g) < 512 \<and>
     an_type (ag_nodes g ! a) \<noteq> RR_AG_SINK \<and> an_type (ag_nodes g ! b) \<noteq> RR_AG_SOURCE \<and>
     acyclic (edge_rel (ag_edges g) \<union> {(a, b)}) \<and>
     (\<forall>e \<in> set (ag_edges g). \<not> link_conflict (ag_nodes g ! b) a b t e)"

lemma add_link_iff:
  assumes inv: "ag_inv g" and ab: "ag_lookup g src = Some a" "ag_lookup g dst = Some b" "ag_link_type_of ty = Some t"
  shows "rr_audio_graph_add_channel_link g src dst ty c =
    (if link_ok g a b t c then (True, g\<lparr>ag_edges := ag_edges g @
        [\<lparr>ae_src = a, ae_dst = b, ae_type = t, ae_channels = ucast c\<rparr>]\<rparr>) else (False, g))"
proof -
  have "acyclic (edge_rel (ag_edges g) \<union> {(a, b)}) \<longleftrightarrow> \<not> graph_reaches g b a"
    using inv by (simp add: graph_reaches_iff acyclic_insert ag_inv_def)
  moreover have "a = b \<Longrightarrow> graph_reaches g b a" by (simp add: graph_reaches_iff)
  ultimately show ?thesis
    using ab by (auto simp: rr_audio_graph_add_channel_link_def link_ok_def list_ex_iff)
qed

lemma add_link_inv [inv_rules]: "ag_inv g \<Longrightarrow> ag_inv (snd (rr_audio_graph_add_channel_link g src dst ty c))"
proof -
  assume inv: "ag_inv g"
  have "ag_inv (g\<lparr>ag_edges := ag_edges g @ [\<lparr>ae_src = a, ae_dst = b, ae_type = t, ae_channels = ucast c\<rparr>]\<rparr>)"
    if ok: "link_ok g a b t c" and ab: "a < length (ag_nodes g)" "b < length (ag_nodes g)" for a b t
  proof -
    have "filter (\<lambda>e. ae_dst e = b \<and> ae_type e = t) (ag_edges g) = []"
      if "an_type (ag_nodes g ! b) \<noteq> RR_AG_MIXER"
      using that ok by (auto simp: link_ok_def link_conflict_def filter_empty_conv)
    moreover have "edge_rel (ag_edges g @ [\<lparr>ae_src = a, ae_dst = b, ae_type = t, ae_channels = ucast c\<rparr>]) =
        edge_rel (ag_edges g) \<union> {(a, b)}" by (auto simp: edge_rel_def)
    ultimately show ?thesis
      using inv ok ab channels_fit [of c] by (auto simp: ag_inv_def edge_ok_def link_ok_def)
  qed
  note kept = this
  show ?thesis
  proof (cases "\<exists>a b t. ag_lookup g src = Some a \<and> ag_lookup g dst = Some b \<and> ag_link_type_of ty = Some t")
    case True
    then obtain a b t where abt: "ag_lookup g src = Some a" "ag_lookup g dst = Some b" "ag_link_type_of ty = Some t"
      by blast
    from kept [of a b t] inv ag_lookup_Some [OF abt(1)] ag_lookup_Some [OF abt(2)] show ?thesis
      unfolding add_link_iff [OF inv abt] by simp
  next
    case False
    with inv show ?thesis
      by (auto simp: rr_audio_graph_add_channel_link_def split: option.split)
  qed
qed

section \<open>Runs of the component\<close>

datatype ag_op =
    AddNode cstr nat
  | AddLink cstr cstr nat
  | AddChannelLink cstr cstr nat "32 word"
  | SetHealth cstr nat
  | SetRoute cstr char

fun ag_step :: "ag_op \<Rightarrow> audio_graph \<Rightarrow> audio_graph" where
  "ag_step (AddNode i t) g = snd (rr_audio_graph_add_node g i t)"
| "ag_step (AddLink s d t) g = snd (rr_audio_graph_add_link g s d t)"
| "ag_step (AddChannelLink s d t c) g = snd (rr_audio_graph_add_channel_link g s d t c)"
| "ag_step (SetHealth i h) g = snd (rr_audio_graph_set_health g i h)"
| "ag_step (SetRoute i r) g = snd (rr_audio_graph_set_route g i r)"

interpretation graph: machine ag_step ag_inv
proof
  fix g e assume "ag_inv g"
  then show "ag_inv (ag_step e g)"
    by (cases e) (auto simp: rr_audio_graph_add_link_def intro: inv_rules)
qed

definition ag_run :: "ag_op list \<Rightarrow> audio_graph" where
  "ag_run ops = fold ag_step ops rr_audio_graph_new"

lemma ag_run_inv: "ag_inv (ag_run ops)"
  unfolding ag_run_def by (rule graph.run_inv) (simp add: ag_inv_def rr_audio_graph_new_def edge_rel_def acyclic_def)

text \<open>\<open>add_node\<close> as an insertion into the table of names; a new node is stopped and has no route.\<close>

definition ag_type_code :: "ag_node_type \<Rightarrow> nat" where
  "ag_type_code t = (case t of RR_AG_SOURCE \<Rightarrow> 0 | RR_AG_PROCESSOR \<Rightarrow> 1 | RR_AG_MIXER \<Rightarrow> 2 | RR_AG_SINK \<Rightarrow> 3)"

definition ag_insert :: "ag_node \<Rightarrow> audio_graph \<Rightarrow> audio_graph option" where
  "ag_insert n g =
     (if an_health n \<noteq> RR_AG_STOPPED \<or> an_route n \<noteq> chr_nul then None
      else case rr_audio_graph_add_node g (Some (an_id n)) (ag_type_code (an_type n)) of
        (ok, g') \<Rightarrow> if ok then Some g' else None)"

lemma ag_type_code [simp]: "ag_node_type_of (ag_type_code t) = Some t"
  by (cases t) (simp_all add: ag_type_code_def ag_node_type_of_def)

interpretation nodes: keyed_registry an_id ag_nodes
  "\<lambda>g s. map_option (\<lambda>i. ag_nodes g ! i) (ag_lookup g (Some s))" ag_insert
proof
  fix g s
  have "map_option (\<lambda>i. xs ! i) (find_idx P xs) = List.find P xs" for P and xs :: "ag_node list"
    by (induction xs) (auto simp: option.map_comp comp_def)
  then show "map_option (\<lambda>i. ag_nodes g ! i) (ag_lookup g (Some s)) = List.find (\<lambda>e. an_id e = s) (ag_nodes g)"
    by (simp add: ag_lookup_def)
next
  fix e g g' assume "ag_insert e g = Some g'"
  then show "map_option (\<lambda>i. ag_nodes g ! i) (ag_lookup g (Some (an_id e))) = None"
    "ag_nodes g' = ag_nodes g @ [e] \<or> ag_nodes g' = e # ag_nodes g"
    by (auto simp: ag_insert_def rr_audio_graph_add_node_def simp del: find_idx_None split: if_splits)
qed

section \<open>Arbitration\<close>

text \<open>\<open>feeds g t s d\<close>: node \<open>s\<close> has a link of kind \<open>t\<close> into node \<open>d\<close>.\<close>

definition feeds :: "audio_graph \<Rightarrow> ag_link_type \<Rightarrow> ag_node \<Rightarrow> nat \<Rightarrow> bool" where
  "feeds g t n d \<longleftrightarrow> (\<exists>e \<in> set (ag_edges g). ae_type e = t \<and> ae_dst e = d \<and> ag_nodes g ! ae_src e = n)"

lemma input_fold:
  assumes "\<forall>t. length (filter (\<lambda>e. ae_dst e = d \<and> ae_type e = t) es) \<le> 1"
  shows "fst (fold (input_scan g d) es st) =
      (case filter (\<lambda>e. ae_dst e = d \<and> ae_type e = RR_AG_NORMAL) es of [] \<Rightarrow> fst st | e # _ \<Rightarrow> Some (ag_nodes g ! ae_src e)) \<and>
    snd (fold (input_scan g d) es st) =
      (case filter (\<lambda>e. ae_dst e = d \<and> ae_type e = RR_AG_BYPASS) es of [] \<Rightarrow> snd st | e # _ \<Rightarrow> Some (ag_nodes g ! ae_src e))"
  using assms
proof (induction es arbitrary: st)
  case (Cons e es)
  have "\<forall>t. length (filter (\<lambda>e. ae_dst e = d \<and> ae_type e = t) es) \<le> 1"
  proof
    fix t show "length (filter (\<lambda>e. ae_dst e = d \<and> ae_type e = t) es) \<le> 1"
      using spec [OF Cons.prems, of t] by (simp split: if_splits)
  qed
  note IH = Cons.IH [OF this, of "input_scan g d e st"]
  have step: "fst (input_scan g d e st) = (if ae_dst e = d \<and> ae_type e = RR_AG_NORMAL then Some (ag_nodes g ! ae_src e) else fst st)"
    "snd (input_scan g d e st) = (if ae_dst e = d \<and> ae_type e = RR_AG_BYPASS then Some (ag_nodes g ! ae_src e) else snd st)"
    by (cases "ae_type e"; cases st; simp add: input_scan_def)+
  show ?case
  proof (cases "ae_dst e = d")
    case True
    from spec [OF Cons.prems, of "ae_type e"] True
    have "filter (\<lambda>x. ae_dst x = d \<and> ae_type x = ae_type e) es = []" by simp
    with IH True step show ?thesis
      by (cases "ae_type e") (simp_all split: list.split)
  next
    case False
    with IH step show ?thesis by (simp split: list.split)
  qed
qed simp

lemma feeds_filter:
  assumes "length (filter (\<lambda>e. ae_dst e = d \<and> ae_type e = t) (ag_edges g)) \<le> 1"
  shows "(case filter (\<lambda>e. ae_dst e = d \<and> ae_type e = t) (ag_edges g) of [] \<Rightarrow> None | e # _ \<Rightarrow> Some (ag_nodes g ! ae_src e)) = Some n
    \<longleftrightarrow> feeds g t n d"
proof (cases "filter (\<lambda>e. ae_dst e = d \<and> ae_type e = t) (ag_edges g)")
  case Nil
  then show ?thesis by (auto simp: feeds_def filter_empty_conv)
next
  case (Cons e es)
  with assms have "es = []" by simp
  with Cons have "set (filter (\<lambda>e. ae_dst e = d \<and> ae_type e = t) (ag_edges g)) = {e}" by simp
  then have "\<And>x. x \<in> set (ag_edges g) \<and> ae_dst x = d \<and> ae_type x = t \<longleftrightarrow> x = e" by auto
  then have "feeds g t n d \<longleftrightarrow> ag_nodes g ! ae_src e = n" unfolding feeds_def by metis
  with Cons show ?thesis by simp
qed

definition arbitrated :: "audio_graph \<Rightarrow> nat \<Rightarrow> string \<Rightarrow> bool" where
  "arbitrated g d s \<longleftrightarrow>
     (\<exists>n. feeds g RR_AG_NORMAL n d \<and> an_health n \<noteq> RR_AG_FAILED \<and> an_id n = s) \<or>
     (\<exists>n f. feeds g RR_AG_NORMAL n d \<and> an_health n = RR_AG_FAILED \<and>
        feeds g RR_AG_BYPASS f d \<and> an_health f = RR_AG_HEALTHY \<and> an_id f = s)"

lemma input_arbitrated:
  assumes inv: "ag_inv g" and d: "ag_lookup g dst = Some d" and m: "an_type (ag_nodes g ! d) \<noteq> RR_AG_MIXER"
  shows "rr_audio_graph_input g dst = Some s \<longleftrightarrow> arbitrated g d s"
proof -
  from ag_lookup_Some [OF d] have "d < length (ag_nodes g)" by simp
  with inv m have one: "\<forall>t. length (filter (\<lambda>e. ae_dst e = d \<and> ae_type e = t) (ag_edges g)) \<le> 1"
    by (auto simp: ag_inv_def)
  let ?st = "fold (input_scan g d) (ag_edges g) (None, None)"
  from input_fold [OF one, of g "(None, None)", unfolded fst_conv snd_conv]
    feeds_filter [OF spec [OF one, of RR_AG_NORMAL]] feeds_filter [OF spec [OF one, of RR_AG_BYPASS]]
  have st: "fst ?st = Some n \<longleftrightarrow> feeds g RR_AG_NORMAL n d" "snd ?st = Some n \<longleftrightarrow> feeds g RR_AG_BYPASS n d" for n
    by simp_all
  show ?thesis
    unfolding arbitrated_def st [symmetric]
    using d m by (cases ?st) (auto simp: rr_audio_graph_input_def split: option.split)
qed

section \<open>Properties\<close>

definition demo_graph :: audio_graph where
  "demo_graph = ag_run [AddNode (Some ''mic'') 0, AddNode (Some ''dsp'') 1, AddNode (Some ''spk'') 3,
     AddLink (Some ''mic'') (Some ''dsp'') 0, AddLink (Some ''dsp'') (Some ''spk'') 0,
     AddChannelLink (Some ''mic'') (Some ''spk'') 1 3, AddLink (Some ''dsp'') (Some ''mic'') 0,
     SetHealth (Some ''dsp'') 3, SetHealth (Some ''mic'') 2]"

text \<open>
  C33. Whatever nodes and links a client asks for, the union of normal and bypass links has no
  cycle, node names are unique and fit their field, every link joins two existing nodes, no sink
  is a source, no source a sink, and everything but a mixer has at most one input of each kind.
\<close>

theorem audio_graph_well_formed:
  "acyclic (edge_rel (ag_edges (ag_run ops))) \<and> distinct (map an_id (ag_nodes (ag_run ops))) \<and>
   rr_audio_graph_node_count (ag_run ops) \<le> 256 \<and> rr_audio_graph_link_count (ag_run ops) \<le> 512 \<and>
   list_all (edge_ok (ag_run ops)) (ag_edges (ag_run ops)) \<and>
   list_all (\<lambda>d. an_type (ag_nodes (ag_run ops) ! d) = RR_AG_MIXER \<or>
      list_all (\<lambda>t. length (filter (\<lambda>e. ae_dst e = d \<and> ae_type e = t) (ag_edges (ag_run ops))) \<le> 1)
        [RR_AG_NORMAL, RR_AG_BYPASS])
     [0..<length (ag_nodes (ag_run ops))]"
  using ag_run_inv [of ops]
  by (auto simp: ag_inv_def list_all_iff rr_audio_graph_node_count_def rr_audio_graph_link_count_def)

text \<open>
  A link between two known nodes is accepted exactly when it keeps the graph acyclic, leaves
  no sink, enters no source, fits the limits and channels, and neither repeats a link nor adds a
  second input of its kind to anything but a mixer; a refused link changes nothing.
\<close>

theorem audio_graph_link_exact:
  assumes "g = ag_run ops" "ag_lookup g src = Some a" "ag_lookup g dst = Some b" "ag_link_type_of ty = Some t"
  shows "rr_audio_graph_add_channel_link g src dst ty c =
    (if link_ok g a b t c then (True, g\<lparr>ag_edges := ag_edges g @
        [\<lparr>ae_src = a, ae_dst = b, ae_type = t, ae_channels = ucast c\<rparr>]\<rparr>) else (False, g))"
  unfolding assms(1) by (rule add_link_iff [OF ag_run_inv assms(2-4) [unfolded assms(1)]])

theorem audio_graph_link_exact_witness:
  "\<not> link_ok demo_graph 1 0 RR_AG_BYPASS 3"
proof -
  have l: "ag_lookup demo_graph (Some ''dsp'') = Some 1" "ag_lookup demo_graph (Some ''mic'') = Some 0"
    "ag_link_type_of 1 = Some RR_AG_BYPASS" by code_simp+
  have "rr_audio_graph_add_channel_link demo_graph (Some ''dsp'') (Some ''mic'') 1 3 = (False, demo_graph)"
    by code_simp
  with audio_graph_link_exact [OF demo_graph_def l, of 3] show ?thesis by (auto split: if_splits)
qed

text \<open>
  The input chosen for a node other than a mixer is its normal source unless that has failed,
  then its bypass source if that is healthy, and otherwise nothing: the two are never mixed.
\<close>

theorem audio_graph_input_arbitration:
  assumes "g = ag_run ops" "ag_lookup g dst = Some d" "an_type (ag_nodes g ! d) \<noteq> RR_AG_MIXER"
  shows "rr_audio_graph_input g dst = Some s \<longleftrightarrow>
     (\<exists>n. feeds g RR_AG_NORMAL n d \<and> an_health n \<noteq> RR_AG_FAILED \<and> an_id n = s) \<or>
     (\<exists>n f. feeds g RR_AG_NORMAL n d \<and> an_health n = RR_AG_FAILED \<and>
        feeds g RR_AG_BYPASS f d \<and> an_health f = RR_AG_HEALTHY \<and> an_id f = s)"
  using input_arbitrated [OF ag_run_inv assms(2,3) [unfolded assms(1)]]
  by (simp only: assms(1) arbitrated_def)

theorem audio_graph_input_arbitration_witness: "arbitrated demo_graph 2 ''mic''"
proof -
  have l: "ag_lookup demo_graph (Some ''spk'') = Some 2" "an_type (ag_nodes demo_graph ! 2) \<noteq> RR_AG_MIXER"
    by code_simp+
  have "rr_audio_graph_input demo_graph (Some ''spk'') = Some ''mic''" by code_simp
  with audio_graph_input_arbitration [OF demo_graph_def l, of "''mic''"] show ?thesis
    unfolding arbitrated_def by blast
qed

text \<open>The zero character is accepted as a route although it is none of the four.\<close>

lemma set_route_accepts_nul:
  "ag_lookup g i = Some k \<Longrightarrow> fst (rr_audio_graph_set_route g i chr_nul)"
  by (simp add: rr_audio_graph_set_route_def)

end
