(* ===== verification/Accounting.thy ===== *)
theory Accounting
  imports Prelude
begin

text \<open>
  The accounting of \<^verbatim>\<open>rrserver/database.accounting.c\<close>: the table \<open>user_usage\<close> with what every account has sent, received
  and may still use. A statement is a function on the table, and the \<open>n\<close>-th one fails when \<open>ad_fails n\<close> says so, which
  raises \<open>accounting.write.failed\<close>. Names are compared without regard to case (\<open>COLLATE NOCASE\<close>), so that
  a row is found under its name in lower case. The columns are SQL integers, which the statements keep from overflowing.
\<close>

section \<open>State\<close>

definition INT64_MAX :: nat where
  "INT64_MAX = 9223372036854775807"

record rr_traffic =
  tx_text_bytes :: "64 word"
  tx_text_frames :: "64 word"
  tx_binary_bytes :: "64 word"
  tx_binary_frames :: "64 word"
  rx_text_bytes :: "64 word"
  rx_text_frames :: "64 word"
  rx_binary_bytes :: "64 word"
  rx_binary_frames :: "64 word"

record rr_usage =
  us_traffic :: rr_traffic
  us_session_seconds :: "64 word"
  us_tx_seconds :: "64 word"
  us_bandwidth_remaining :: int
  us_bandwidth_limited :: bool
  us_reset_at :: int

text \<open>A row: the eight traffic columns in their order, the seconds, the allowance (\<open>NULL\<close> is no limit), the times of resets.\<close>

record usage_row =
  ur_counts :: "nat list"
  ur_session_seconds :: nat
  ur_tx_seconds :: nat
  ur_remaining :: "int option"
  ur_reset_at :: int
  ur_tx_reset_at :: int

record accounting_db =
  ad_open :: bool
  ad_rows :: "string \<Rightarrow> usage_row option"
  ad_clock :: "nat \<Rightarrow> int"
  ad_fails :: "nat \<Rightarrow> bool"
  ad_read_fails :: "nat \<Rightarrow> bool"
  ad_count :: nat
  ad_alarms :: nat

definition account :: "string \<Rightarrow> string" where
  "account name = map to_lower name"

definition columns :: "rr_traffic \<Rightarrow> nat list" where
  "columns t = map unat [tx_text_bytes t, tx_text_frames t, tx_binary_bytes t, tx_binary_frames t,
     rx_text_bytes t, rx_text_frames t, rx_binary_bytes t, rx_binary_frames t]"

definition octets :: "rr_traffic \<Rightarrow> nat list" where
  "octets t = map unat [tx_text_bytes t, tx_binary_bytes t, rx_text_bytes t, rx_binary_bytes t]"

definition traffic_of :: "nat list \<Rightarrow> rr_traffic" where
  "traffic_of cs = \<lparr>tx_text_bytes = of_nat (cs ! 0), tx_text_frames = of_nat (cs ! 1), tx_binary_bytes = of_nat (cs ! 2),
     tx_binary_frames = of_nat (cs ! 3), rx_text_bytes = of_nat (cs ! 4), rx_text_frames = of_nat (cs ! 5),
     rx_binary_bytes = of_nat (cs ! 6), rx_binary_frames = of_nat (cs ! 7)\<rparr>"

section \<open>Statements\<close>

text \<open>Preparing and stepping a statement that writes.\<close>

definition accounting_step :: "accounting_db \<Rightarrow> bool \<times> accounting_db" where
  "accounting_step db = (let failed = ad_fails db (ad_count db) in
     (\<not> failed, db\<lparr>ad_count := ad_count db + 1, ad_alarms := ad_alarms db + (if failed then 1 else 0)\<rparr>))"

text \<open>\<open>INSERT \<dots> ON CONFLICT(name) DO UPDATE\<close>: the row that is inserted, and the change of the one there is.\<close>

definition upsert :: "string \<Rightarrow> usage_row \<Rightarrow> (usage_row \<Rightarrow> usage_row) \<Rightarrow> accounting_db \<Rightarrow> bool \<times> accounting_db" where
  "upsert name new update db = (case accounting_step db of (ok, db') \<Rightarrow>
     if ok then (True, db'\<lparr>ad_rows := (ad_rows db')(account name \<mapsto> (case ad_rows db' (account name) of None \<Rightarrow> new | Some r \<Rightarrow> update r))\<rparr>)
     else (False, db'))"

definition empty_row :: "accounting_db \<Rightarrow> usage_row" where
  "empty_row db = \<lparr>ur_counts = replicate 8 0, ur_session_seconds = 0, ur_tx_seconds = 0, ur_remaining = None,
     ur_reset_at = ad_clock db (ad_count db), ur_tx_reset_at = 0\<rparr>"

definition saturating :: "nat \<Rightarrow> nat \<Rightarrow> nat" where
  "saturating a b = (if a > INT64_MAX - b then INT64_MAX else a + b)"

fun sum_octets :: "nat \<Rightarrow> nat list \<Rightarrow> nat option" where
  "sum_octets bytes [] = Some bytes"
| "sum_octets bytes (x # xs) = (if x > INT64_MAX - bytes then None else sum_octets (bytes + x) xs)"

definition charge :: "int \<Rightarrow> int option \<Rightarrow> int option" where
  "charge bytes remaining = (case remaining of None \<Rightarrow> None
     | Some r \<Rightarrow> Some (if r < - int INT64_MAX + bytes then - int INT64_MAX else r - bytes))"

definition db_usage_record :: "string \<Rightarrow> rr_traffic \<Rightarrow> 64 word \<Rightarrow> accounting_db \<Rightarrow> bool \<times> accounting_db" where
  "db_usage_record name delta seconds db =
     (if \<not> ad_open db \<or> name = [] \<or> INT64_MAX < unat seconds then (False, db)
      else if list_ex (\<lambda>v. INT64_MAX < v) (columns delta @ [unat seconds]) then (False, db)
      else case sum_octets 0 (octets delta) of
        None \<Rightarrow> (False, db)
      | Some bytes \<Rightarrow> upsert name ((empty_row db)\<lparr>ur_counts := columns delta, ur_session_seconds := unat seconds\<rparr>)
          (\<lambda>r. r\<lparr>ur_counts := map2 saturating (ur_counts r) (columns delta), ur_session_seconds := saturating (ur_session_seconds r) (unat seconds),
            ur_remaining := charge (int bytes) (ur_remaining r)\<rparr>) db)"

definition db_usage_get :: "string \<Rightarrow> accounting_db \<Rightarrow> rr_usage option" where
  "db_usage_get name db =
     (if \<not> ad_open db \<or> name = [] \<or> ad_read_fails db (ad_count db) then None
      else Some (let r = (case ad_rows db (account name) of None \<Rightarrow> (empty_row db)\<lparr>ur_reset_at := 0\<rparr> | Some r \<Rightarrow> r) in
        \<lparr>us_traffic = traffic_of (ur_counts r), us_session_seconds = of_nat (ur_session_seconds r), us_tx_seconds = of_nat (ur_tx_seconds r),
         us_bandwidth_remaining = (case ur_remaining r of None \<Rightarrow> 0 | Some n \<Rightarrow> n), us_bandwidth_limited = (ur_remaining r \<noteq> None),
         us_reset_at = ur_reset_at r\<rparr>))"

definition db_usage_add_tx :: "string \<Rightarrow> 64 word \<Rightarrow> accounting_db \<Rightarrow> bool \<times> accounting_db" where
  "db_usage_add_tx name seconds db =
     (if \<not> ad_open db \<or> name = [] \<or> INT64_MAX < unat seconds then (False, db)
      else upsert name ((empty_row db)\<lparr>ur_tx_seconds := unat seconds\<rparr>) (\<lambda>r. r\<lparr>ur_tx_seconds := saturating (ur_tx_seconds r) (unat seconds)\<rparr>) db)"

text \<open>An allowance is not extended past the largest integer: then no row changes, and the call fails.\<close>

definition db_usage_bandwidth_set :: "string \<Rightarrow> nat \<Rightarrow> bool \<Rightarrow> accounting_db \<Rightarrow> bool \<times> accounting_db" where
  "db_usage_bandwidth_set name bytes add db =
     (let old = (case ad_rows db (account name) of None \<Rightarrow> None | Some r \<Rightarrow> ur_remaining r);
          had = (case old of None \<Rightarrow> 0 | Some n \<Rightarrow> n);
          set = (\<lambda>r. r\<lparr>ur_remaining := Some (if add then had + int bytes else int bytes)\<rparr>) in
      if \<not> ad_open db \<or> name = [] \<or> INT64_MAX < bytes then (False, db)
      else if add \<and> ad_rows db (account name) \<noteq> None \<and> had > int INT64_MAX - int bytes then (False, snd (accounting_step db))
      else upsert name (set (empty_row db)) set db)"

definition db_usage_reset :: "string \<Rightarrow> nat \<Rightarrow> accounting_db \<Rightarrow> bool \<times> accounting_db" where
  "db_usage_reset name allowance db =
     (if \<not> ad_open db \<or> name = [] \<or> INT64_MAX < allowance then (False, db)
      else let new = (empty_row db)\<lparr>ur_remaining := Some (int allowance)\<rparr>; now = ad_clock db (ad_count db) in
        upsert name new (\<lambda>r. new\<lparr>ur_reset_at := now, ur_tx_reset_at := now\<rparr>) db)"

definition db_usage_reset_tx :: "string \<Rightarrow> accounting_db \<Rightarrow> bool \<times> accounting_db" where
  "db_usage_reset_tx name db =
     (if \<not> ad_open db \<or> name = [] then (False, db)
      else let now = ad_clock db (ad_count db) in
        upsert name ((empty_row db)\<lparr>ur_tx_reset_at := now\<rparr>) (\<lambda>r. r\<lparr>ur_tx_seconds := 0, ur_tx_reset_at := now\<rparr>) db)"

section \<open>What a record does\<close>

definition stored :: "accounting_db \<Rightarrow> string \<Rightarrow> nat \<Rightarrow> nat" where
  "stored db k j = (case ad_rows db k of None \<Rightarrow> 0 | Some r \<Rightarrow> ur_counts r ! j)"

definition remaining :: "accounting_db \<Rightarrow> string \<Rightarrow> int option" where
  "remaining db k = (case ad_rows db k of None \<Rightarrow> None | Some r \<Rightarrow> ur_remaining r)"

text \<open>A table whose rows have eight columns that are SQL integers.\<close>

definition table_ok :: "accounting_db \<Rightarrow> bool" where
  "table_ok db \<longleftrightarrow> (\<forall>k r. ad_rows db k = Some r \<longrightarrow> length (ur_counts r) = 8 \<and> (\<forall>x \<in> set (ur_counts r). x \<le> INT64_MAX) \<and>
     (\<forall>n. ur_remaining r = Some n \<longrightarrow> - int INT64_MAX \<le> n))"

lemma length_columns [simp]: "length (columns t) = 8"
  by (simp add: columns_def)

lemma saturating_min: "b \<le> INT64_MAX \<Longrightarrow> saturating a b = min INT64_MAX (a + b)"
  by (simp add: saturating_def min_def) arith

lemma sum_octets_Some: "sum_octets b xs = Some n \<Longrightarrow> n = b + sum_list xs"
proof (induction xs arbitrary: b)
  case (Cons x xs)
  then have "sum_octets (b + x) xs = Some n" by (simp split: if_splits)
  with Cons.IH [of "b + x"] show ?case by simp
qed simp

lemma charge_max: "charge (int b) (Some r) = Some (max (- int INT64_MAX) (r - int b))"
  by (simp add: charge_def max_def)

definition account_effect :: "accounting_db \<Rightarrow> accounting_db \<Rightarrow> string \<Rightarrow> (nat \<Rightarrow> nat) \<Rightarrow> nat \<Rightarrow> bool" where
  "account_effect db db' k d b \<longleftrightarrow> table_ok db' \<and> (\<forall>j < 8. stored db' k j = min INT64_MAX (stored db k j + d j)) \<and>
     remaining db' k = map_option (\<lambda>r. max (- int INT64_MAX) (r - int b)) (remaining db k)"

lemma stored_le: "table_ok db \<Longrightarrow> j < 8 \<Longrightarrow> stored db k j \<le> INT64_MAX"
  by (auto simp: stored_def table_ok_def split: option.splits)

lemma remaining_ge: "table_ok db \<Longrightarrow> remaining db k = Some r \<Longrightarrow> - int INT64_MAX \<le> r"
  by (auto simp: remaining_def table_ok_def split: option.splits)

lemma no_effect:
  assumes "table_ok db" "ad_rows db' k = ad_rows db k" "table_ok db'"
  shows "account_effect db db' k (\<lambda>j. 0) 0"
proof -
  have "stored db' k j = stored db k j" "remaining db' k = remaining db k" for j by (simp_all add: stored_def remaining_def assms(2))
  moreover have "map_option (\<lambda>r. max (- int INT64_MAX) (r - int 0)) (remaining db k) = remaining db k"
    using remaining_ge [OF assms(1)] by (cases "remaining db k") (auto simp: max_def)
  ultimately show ?thesis using stored_le [OF assms(1)] assms(3) by (auto simp: account_effect_def min_def intro: le_antisym)
qed

lemma step_rows_kept: "accounting_step db = (ok, db') \<Longrightarrow> ad_rows db' = ad_rows db"
  by (auto simp: accounting_step_def Let_def)

lemma record_effect:
  assumes "table_ok db" "db_usage_record name delta seconds db = (ok, db')"
  shows "account_effect db db' k (\<lambda>j. if ok \<and> account name = k then columns delta ! j else 0) (if ok \<and> account name = k then sum_list (octets delta) else 0)"
proof (cases ok)
  case False
  then have "ad_rows db' = ad_rows db" using assms(2)
    by (auto simp: db_usage_record_def upsert_def split: if_splits option.splits prod.splits dest: step_rows_kept)
  with False no_effect [OF assms(1), of db' k] assms(1) show ?thesis by (simp add: table_ok_def)
next
  case True
  obtain ok1 db1 where s: "accounting_step db = (ok1, db1)" by (metis prod.exhaust)
  note rows = step_rows_kept [OF s]
  obtain bytes where b: "sum_octets 0 (octets delta) = Some bytes" "\<forall>v \<in> set (columns delta). v \<le> INT64_MAX"
      "upsert name ((empty_row db)\<lparr>ur_counts := columns delta, ur_session_seconds := unat seconds\<rparr>)
          (\<lambda>r. r\<lparr>ur_counts := map2 saturating (ur_counts r) (columns delta), ur_session_seconds := saturating (ur_session_seconds r) (unat seconds),
            ur_remaining := charge (int bytes) (ur_remaining r)\<rparr>) db = (True, db')"
    using assms(2) True by (auto simp: db_usage_record_def list_ex_iff not_less split: if_splits option.splits)
  have bytes: "bytes = sum_list (octets delta)" using sum_octets_Some [OF b(1)] by simp
  have db': "ad_rows db' = (ad_rows db)(account name \<mapsto> (case ad_rows db (account name) of
      None \<Rightarrow> (empty_row db)\<lparr>ur_counts := columns delta, ur_session_seconds := unat seconds\<rparr>
    | Some r \<Rightarrow> r\<lparr>ur_counts := map2 saturating (ur_counts r) (columns delta), ur_session_seconds := saturating (ur_session_seconds r) (unat seconds),
        ur_remaining := charge (int bytes) (ur_remaining r)\<rparr>))"
    using b(3) s rows by (auto simp: upsert_def split: if_splits)
  have col: "columns delta ! j \<le> INT64_MAX" if "j < 8" for j using b(2) that by simp
  have sat: "saturating a b \<le> INT64_MAX" if "b \<in> set (columns delta)" for a b using b(2) that by (simp add: saturating_min)
  have ok': "table_ok db'"
    using assms(1) b(2) sat by (auto simp: table_ok_def db' empty_row_def charge_def dest: set_zip_rightD split: option.splits if_splits)
  show ?thesis
  proof (cases "account name = k")
    case True
    have "stored db' k j = min INT64_MAX (stored db k j + columns delta ! j)" if "j < 8" for j
      using col [OF that] that assms(1) True saturating_min [OF col [OF that]]
      by (auto simp: stored_def db' table_ok_def split: option.splits)
    moreover have "remaining db' k = map_option (\<lambda>r. max (- int INT64_MAX) (r - int bytes)) (remaining db k)"
      using True by (cases "ad_rows db k") (auto simp: remaining_def db' empty_row_def charge_def max_def split: option.splits)
    ultimately show ?thesis using ok' \<open>ok\<close> True bytes by (simp add: account_effect_def)
  next
    case False
    then have "ad_rows db' k = ad_rows db k" by (simp add: db')
    from no_effect [OF assms(1) this ok'] False show ?thesis by simp
  qed
qed

text \<open>Effects add up.\<close>

lemma account_effect_trans:
  assumes "account_effect a b k d m" "account_effect b c k e n"
  shows "account_effect a c k (\<lambda>j. d j + e j) (m + n)"
proof -
  have "min M (min M (x + y) + z) = min M (x + (y + z))" for M x y z :: nat by (simp add: min_def)
  moreover have "max L (max L (r - int m) - int n) = max L (r - (int m + int n))" for L r :: int by (simp add: max_def)
  ultimately show ?thesis using assms by (auto simp: account_effect_def option.map_comp comp_def)
qed

end
