(* ===== verification/Usage.thy ===== *)
theory Usage
  imports Accounting
begin

text \<open>
  \<^verbatim>\<open>rrserver/usage.c\<close>: bandwidth accounting. Amounts are parsed into bytes, user names are
  matched against simple patterns, each connection's traffic counters are flushed to the database
  as differences from a checkpoint, and the quota command resets, sets and extends allowances.

  Counters are \<open>uint64_t\<close>, hence \<^typ>\<open>64 word\<close>. The database is the one of \<open>Accounting\<close>;
  \<open>HTTP_USER_LEN\<close> is a parameter. Messages to clients and the log are reduced to the outcome the code reports.
\<close>

section \<open>Amounts\<close>

text \<open>The digit loop: the value so far and the rest of the text, or \<^const>\<open>None\<close> on overflow.\<close>

fun parse_digits :: "nat \<Rightarrow> string \<Rightarrow> (nat \<times> string) option" where
  "parse_digits value [] = Some (value, [])"
| "parse_digits value (p # ps) =
     (if is_digit p then
        (if value > (INT64_MAX - digit_val p) div 10 then None
         else parse_digits (value * 10 + digit_val p) ps)
      else Some (value, p # ps))"

definition byte_scale :: "string \<Rightarrow> nat option" where
  "byte_scale p = (case p of
     [] \<Rightarrow> Some 1000000
   | c # _ \<Rightarrow>
       (if c = CHR ''m'' \<or> c = CHR ''M'' then Some 1000000
        else if c = CHR ''g'' \<or> c = CHR ''G'' then Some 1000000000
        else if c = CHR ''t'' \<or> c = CHR ''T'' then Some 1000000000000
        else if c = CHR ''p'' \<or> c = CHR ''P'' then Some 1000000000000000
        else None))"

definition rr_usage_parse_bytes :: "cstr \<Rightarrow> nat option" where
  "rr_usage_parse_bytes text = (case text of
     None \<Rightarrow> None
   | Some t \<Rightarrow>
       (if t = [] \<or> \<not> is_digit (hd t) then None
        else case parse_digits 0 t of
          None \<Rightarrow> None
        | Some (value, p) \<Rightarrow> (case byte_scale p of
            None \<Rightarrow> None
          | Some scale \<Rightarrow>
              (if length p > 1 then None
               else if value > INT64_MAX div scale then None
               else Some (value * scale)))))"

section \<open>Patterns\<close>

text \<open>
  The matching loop. \<open>star\<close> holds the pattern after the last star and the name suffix it is tried
  on. In the code that suffix is never empty when it is advanced, since it ends in \<open>name\<close>.
\<close>

function quota_loop :: "string \<Rightarrow> string \<Rightarrow> (string \<times> string) option \<Rightarrow> bool" where
  "quota_loop pattern [] star = list_all (\<lambda>c. c = CHR ''*'') pattern"
| "quota_loop pattern (n # ns) star =
     (if pattern \<noteq> [] \<and> (hd pattern = CHR ''?'' \<or> to_lower (hd pattern) = to_lower n)
        then quota_loop (tl pattern) ns star
      else if pattern \<noteq> [] \<and> hd pattern = CHR ''*''
        then quota_loop (tl pattern) (n # ns) (Some (tl pattern, n # ns))
      else case star of
        Some (sp, _ # retry) \<Rightarrow> quota_loop sp retry (Some (sp, retry))
      | _ \<Rightarrow> False)"
  by pat_completeness auto
termination
  by (relation "measures [\<lambda>(p, n, star). (case star of None \<Rightarrow> length p | Some (sp, r) \<Rightarrow> max (length sp) (length p)) + (if star = None then 1 else 0),
        \<lambda>(p, n, star). (case star of None \<Rightarrow> 0 | Some (sp, r) \<Rightarrow> length r), \<lambda>(p, n, star). length p]")
     (auto split: option.splits prod.splits simp: neq_Nil_conv)

definition rrserver_quota_matches :: "nat \<Rightarrow> cstr \<Rightarrow> cstr \<Rightarrow> bool" where
  "rrserver_quota_matches HTTP_USER_LEN pattern name = (case (pattern, name) of
     (Some p, Some n) \<Rightarrow>
       (if p = [] \<or> length p > HTTP_USER_LEN then False
        else if \<not> list_all (\<lambda>c. is_alnum c \<or> c \<in> set ''_-*?'') p then False
        else quota_loop p n None)
   | _ \<Rightarrow> False)"

declare quota_loop.simps(2) [simp del]

subsection \<open>The reference matcher\<close>

text \<open>A star stands for any text, a question mark for one character, all else for itself up to case.\<close>

fun glob :: "string \<Rightarrow> string \<Rightarrow> bool" where
  "glob [] n = (n = [])"
| "glob (c # p) [] = (c = CHR ''*'' \<and> glob p [])"
| "glob (c # p) (x # n) =
     (if c = CHR ''*'' then glob p (x # n) \<or> glob (c # p) n
      else (c = CHR ''?'' \<or> to_lower c = to_lower x) \<and> glob p n)"

lemma glob_Nil: "glob p [] \<longleftrightarrow> list_all (\<lambda>c. c = CHR ''*'') p"
  by (induction p) auto

lemma glob_star: "glob (CHR ''*'' # p) n \<longleftrightarrow> (\<exists>k \<le> length n. glob p (drop k n))"
proof (induction n)
  case (Cons x n)
  show ?case
  proof
    assume "glob (CHR ''*'' # p) (x # n)"
    with Cons show "\<exists>k \<le> length (x # n). glob p (drop k (x # n))"
      by (auto intro: exI [of _ 0] exI [of _ "Suc _"])
  next
    assume "\<exists>k \<le> length (x # n). glob p (drop k (x # n))"
    then obtain k where "k \<le> length (x # n)" "glob p (drop k (x # n))" by blast
    with Cons show "glob (CHR ''*'' # p) (x # n)" by (cases k) auto
  qed
qed simp

lemma glob_segment:
  "CHR ''*'' \<notin> set s \<Longrightarrow> glob (s @ p) m \<Longrightarrow> length s \<le> length m \<and> glob p (drop (length s) m)"
proof (induction s arbitrary: m)
  case (Cons c s)
  then show ?case by (cases m) auto
qed simp

lemma to_lower_star: "to_lower x = CHR ''*'' \<longleftrightarrow> x = CHR ''*''"
proof -
  have "chr_ord (char_of (chr_ord x + 32)) = chr_ord x + 32" if "is_upper x"
    using that by (simp add: chr_ord_def is_upper_def)
  moreover have "chr_ord CHR ''*'' = 42" by (simp add: chr_ord_def)
  ultimately have "is_upper x \<Longrightarrow> char_of (chr_ord x + 32) \<noteq> CHR ''*''" by (auto simp: is_upper_def)
  moreover have "\<not> is_upper CHR ''*''" by (simp add: is_upper_def chr_ord_def)
  ultimately show ?thesis by (auto simp: to_lower_def)
qed

text \<open>What a state of the loop stands for: the rest matches, or a later split at the last star does.\<close>

definition star_ok :: "string \<Rightarrow> string \<Rightarrow> (string \<times> string) option \<Rightarrow> bool" where
  "star_ok p n star \<longleftrightarrow> (case star of None \<Rightarrow> True
     | Some (sp, r) \<Rightarrow> \<exists>s1 r1. sp = s1 @ p \<and> r = r1 @ n \<and> length s1 = length r1 \<and> CHR ''*'' \<notin> set s1)"

definition later_split :: "(string \<times> string) option \<Rightarrow> bool" where
  "later_split star \<longleftrightarrow> (case star of None \<Rightarrow> False
     | Some (sp, r) \<Rightarrow> \<exists>k. 1 \<le> k \<and> k \<le> length r \<and> glob sp (drop k r))"

lemma later_split_end:
  assumes "star_ok p [] star"
  shows "\<not> later_split star"
proof
  assume "later_split star"
  then obtain sp r k where k: "star = Some (sp, r)" "1 \<le> k" "k \<le> length r" "glob sp (drop k r)"
    by (auto simp: later_split_def split: option.splits)
  with assms obtain s1 where "sp = s1 @ p" "length s1 = length r" "CHR ''*'' \<notin> set s1"
    by (auto simp: star_ok_def)
  with glob_segment [of s1 p "drop k r"] k show False by auto
qed

lemma later_split_star:
  assumes ok: "star_ok (CHR ''*'' # p) n star" and later: "later_split star"
  shows "glob (CHR ''*'' # p) n"
proof -
  from later obtain sp r k where k: "star = Some (sp, r)" "1 \<le> k" "k \<le> length r" "glob sp (drop k r)"
    by (auto simp: later_split_def split: option.splits)
  with ok obtain s1 r1 where s: "sp = s1 @ CHR ''*'' # p" "r = r1 @ n" "length s1 = length r1" "CHR ''*'' \<notin> set s1"
    by (auto simp: star_ok_def)
  with glob_segment [of s1 "CHR ''*'' # p" "drop k r"] k
  have l: "length s1 \<le> length (drop k r)" and g: "glob (CHR ''*'' # p) (drop (length s1) (drop k r))" by auto
  from l k s have "k \<le> length n" by simp
  moreover have "drop (length s1) (drop k r) = drop k n" unfolding s(2,3) drop_drop by simp
  ultimately have "glob (CHR ''*'' # p) (drop k n)" using g by simp
  then obtain j where "j \<le> length (drop k n)" "glob p (drop j (drop k n))" by (auto simp: glob_star)
  then show ?thesis
    using \<open>k \<le> length n\<close> by (auto simp: glob_star intro!: exI [of _ "j + k"])
qed

lemma quota_loop_miss:
  assumes "\<not> (p \<noteq> [] \<and> (hd p = CHR ''?'' \<or> to_lower (hd p) = to_lower x))" "\<not> (p \<noteq> [] \<and> hd p = CHR ''*'')"
  shows "quota_loop p (x # n) star =
    (case star of Some (sp, _ # retry) \<Rightarrow> quota_loop sp retry (Some (sp, retry)) | _ \<Rightarrow> False)"
  by (subst quota_loop.simps(2), subst if_not_P [OF assms(1)], subst if_not_P [OF assms(2)]) (rule refl)

lemma quota_loop_hit:
  "c = CHR ''?'' \<or> to_lower c = to_lower x \<Longrightarrow> quota_loop (c # q) (x # n) star = quota_loop q n star"
  by (subst quota_loop.simps(2)) simp

lemma quota_loop_star:
  "\<not> (CHR ''*'' = CHR ''?'' \<or> to_lower CHR ''*'' = to_lower x) \<Longrightarrow>
     quota_loop (CHR ''*'' # q) (x # n) star = quota_loop q (x # n) (Some (q, x # n))"
  by (subst quota_loop.simps(2)) simp

lemma split_Suc:
  "(\<exists>k. 1 \<le> k \<and> k \<le> length (y # r) \<and> P (drop k (y # r))) \<longleftrightarrow> (\<exists>k \<le> length r. P (drop k r))"
proof
  assume "\<exists>k. 1 \<le> k \<and> k \<le> length (y # r) \<and> P (drop k (y # r))"
  then obtain k where "1 \<le> k" "k \<le> length (y # r)" "P (drop k (y # r))" by blast
  then show "\<exists>k \<le> length r. P (drop k r)" by (cases k) auto
next
  assume "\<exists>k \<le> length r. P (drop k r)"
  then obtain k where "k \<le> length r" "P (drop k r)" by blast
  then show "\<exists>k. 1 \<le> k \<and> k \<le> length (y # r) \<and> P (drop k (y # r))"
    by (intro exI [of _ "Suc k"]) simp
qed

lemma split_zero:
  "(\<exists>k \<le> length r. P (drop k r)) \<longleftrightarrow> P r \<or> (\<exists>k. 1 \<le> k \<and> k \<le> length r \<and> P (drop k r))"
  by (metis drop0 le0 less_one not_less)

lemma quota_loop_correct:
  assumes "star_ok p n star" "CHR ''*'' \<notin> set n" "\<forall>sp r. star = Some (sp, r) \<longrightarrow> CHR ''*'' \<notin> set r"
  shows "quota_loop p n star \<longleftrightarrow> glob p n \<or> later_split star"
  using assms
proof (induction p n star rule: quota_loop.induct)
  case (1 p star)
  then show ?case using later_split_end [of p star] by (simp add: glob_Nil)
next
  case (2 p x n star)
  let ?lit = "p \<noteq> [] \<and> (hd p = CHR ''?'' \<or> to_lower (hd p) = to_lower x)"
  show ?case
  proof (cases ?lit)
    case True
    then obtain c q where p: "p = c # q" "c = CHR ''?'' \<or> to_lower c = to_lower x" by (cases p) auto
    from 2(5) have "x \<noteq> CHR ''*''" by auto
    with p have c: "c \<noteq> CHR ''*''" using to_lower_star [of x] to_lower_star [of "CHR ''*''"] by auto
    have "star_ok q n star"
      unfolding star_ok_def
    proof (cases star)
      case (Some sr)
      then obtain sp r where sr: "star = Some (sp, r)" by (cases sr) auto
      with 2(4) p obtain s1 r1 where "sp = s1 @ c # q" "r = r1 @ x # n" "length s1 = length r1" "CHR ''*'' \<notin> set s1"
        by (auto simp: star_ok_def)
      with c have "sp = (s1 @ [c]) @ q \<and> r = (r1 @ [x]) @ n \<and> length (s1 @ [c]) = length (r1 @ [x]) \<and> CHR ''*'' \<notin> set (s1 @ [c])"
        by simp
      with sr show "case star of None \<Rightarrow> True | Some (sp, r) \<Rightarrow>
          \<exists>s1 r1. sp = s1 @ q \<and> r = r1 @ n \<and> length s1 = length r1 \<and> CHR ''*'' \<notin> set s1"
        by (simp only: option.case prod.case) blast
    qed simp
    with 2(1) [OF True] 2(5,6) p c show ?thesis by (simp add: quota_loop_hit)
  next
    case False
    note nolit = this
    show ?thesis
    proof (cases "p \<noteq> [] \<and> hd p = CHR ''*''")
      case True
      then obtain q where p: "p = CHR ''*'' # q" by (cases p) auto
      have "star_ok q (x # n) (Some (q, x # n))" by (simp add: star_ok_def)
      moreover have "glob q (x # n) \<or> later_split (Some (q, x # n)) \<longleftrightarrow> glob p (x # n)"
      proof -
        show ?thesis unfolding p glob_star later_split_def option.case prod.case
          by (rule split_zero [where P = "glob q" and r = "x # n", symmetric])
      qed
      ultimately have "quota_loop p (x # n) star \<longleftrightarrow> glob p (x # n)"
        using 2(2) [OF nolit True] 2(5) nolit True p by (simp add: quota_loop_star)
      with later_split_star [of q "x # n" star] 2(4) p show ?thesis by blast
    next
      case False
      have no: "\<not> glob p (x # n)" using nolit False by (cases p) auto
      show ?thesis
      proof (cases star)
        case None
        have "\<not> quota_loop p (x # n) None"
          by (simp add: quota_loop_miss [OF nolit False])
        with no None show ?thesis by (simp add: later_split_def)
      next
        case (Some sr)
        then obtain sp r where sr: "star = Some (sp, r)" by (cases sr) auto
        with 2(4) have "r \<noteq> []" by (auto simp: star_ok_def)
        then obtain y r' where r: "r = y # r'" by (cases r) auto
        have "quota_loop p (x # n) star \<longleftrightarrow> quota_loop sp r' (Some (sp, r'))"
          by (simp add: quota_loop_miss [OF nolit False] sr r)
        also have "\<dots> \<longleftrightarrow> glob sp r' \<or> later_split (Some (sp, r'))"
          using 2(6) sr r by (intro 2(3) [OF nolit False sr refl r]) (auto simp: star_ok_def)
        also have "\<dots> \<longleftrightarrow> later_split star"
          unfolding later_split_def sr option.case prod.case r split_Suc
          by (rule split_zero [where P = "glob sp" and r = r', symmetric])
        finally show ?thesis using no by simp
      qed
    qed
  qed
qed

section \<open>Exact parsing\<close>

abbreviation digits_from :: "nat \<Rightarrow> string \<Rightarrow> nat" where
  "digits_from v ds \<equiv> foldl (\<lambda>v c. 10 * v + digit_val c) v ds"

lemma digits_from_mono: "v \<le> digits_from v ds"
proof (induction ds arbitrary: v)
  case (Cons d ds)
  have "v \<le> 10 * v + digit_val d" by simp
  also have "\<dots> \<le> digits_from (10 * v + digit_val d) ds" by (rule Cons.IH)
  finally show ?case by simp
qed simp

lemma digit_val_le: "is_digit c \<Longrightarrow> digit_val c \<le> 9"
  by (auto simp: is_digit_def digit_val_def)

lemma parse_digits_exact:
  "v \<le> INT64_MAX \<Longrightarrow> parse_digits v t =
    (if digits_from v (takeWhile is_digit t) \<le> INT64_MAX
     then Some (digits_from v (takeWhile is_digit t), dropWhile is_digit t) else None)"
proof (induction t arbitrary: v)
  case (Cons c t)
  show ?case
  proof (cases "is_digit c")
    case True
    with digit_val_le [OF True]
    have over: "v > (INT64_MAX - digit_val c) div 10 \<longleftrightarrow> INT64_MAX < v * 10 + digit_val c"
      by (simp add: INT64_MAX_def) arith
    show ?thesis
    proof (cases "INT64_MAX < v * 10 + digit_val c")
      case True
      with digits_from_mono [of "10 * v + digit_val c" "takeWhile is_digit t"] over \<open>is_digit c\<close>
      show ?thesis by (simp add: mult.commute)
    next
      case False
      with Cons.IH [of "v * 10 + digit_val c"] over \<open>is_digit c\<close> show ?thesis by (simp add: mult.commute)
    qed
  qed (use Cons.prems in simp)
qed simp

declare parse_digits.simps [simp del]

lemma parse_number: "parse_digits 0 t =
    (if dec_val (takeWhile is_digit t) \<le> INT64_MAX
     then Some (dec_val (takeWhile is_digit t), dropWhile is_digit t) else None)"
  using parse_digits_exact [of 0 t] by (simp add: dec_val_def)

lemma byte_scale_pos: "byte_scale p = Some s \<Longrightarrow> 0 < s"
  by (auto simp: byte_scale_def split: list.splits if_splits)

lemma byte_scale_not_digit: "byte_scale p = Some s \<Longrightarrow> p = [] \<or> \<not> is_digit (hd p)"
proof (cases p)
  case (Cons c q)
  have "\<forall>c \<in> set ''mMgGtTpP''. \<not> is_digit c" by code_simp
  moreover assume "byte_scale p = Some s"
  then have "c \<in> set ''mMgGtTpP''" using Cons unfolding byte_scale_def list.case
    by (auto split: if_splits)
  ultimately have "\<not> is_digit c" by (rule bspec)
  with Cons show ?thesis by simp
qed simp

lemma parse_bytes_exact:
  "rr_usage_parse_bytes (Some t) = Some b \<longleftrightarrow>
    (\<exists>ds suffix scale. t = ds @ suffix \<and> ds \<noteq> [] \<and> list_all is_digit ds \<and> length suffix \<le> 1 \<and>
       byte_scale suffix = Some scale \<and> b = dec_val ds * scale \<and> b \<le> INT64_MAX)"
proof
  assume p: "rr_usage_parse_bytes (Some t) = Some b"
  have t: "t = takeWhile is_digit t @ dropWhile is_digit t" by simp
  from p have ne: "t \<noteq> []" "is_digit (hd t)" by (auto simp: rr_usage_parse_bytes_def split: if_splits)
  then have "takeWhile is_digit t \<noteq> []" by (cases t) auto
  moreover from p ne obtain scale where s: "byte_scale (dropWhile is_digit t) = Some scale"
    "length (dropWhile is_digit t) \<le> 1" "b = dec_val (takeWhile is_digit t) * scale"
    "dec_val (takeWhile is_digit t) \<le> INT64_MAX div scale"
    by (simp add: rr_usage_parse_bytes_def parse_number split: if_splits option.splits)
  moreover from s have "b \<le> INT64_MAX" using byte_scale_pos [OF s(1)]
    by (simp add: less_eq_div_iff_mult_less_eq)
  moreover have "list_all is_digit (takeWhile is_digit t)" by (auto simp: list_all_iff dest: set_takeWhileD)
  ultimately show "\<exists>ds suffix scale. t = ds @ suffix \<and> ds \<noteq> [] \<and> list_all is_digit ds \<and> length suffix \<le> 1 \<and>
       byte_scale suffix = Some scale \<and> b = dec_val ds * scale \<and> b \<le> INT64_MAX"
    using t by blast
next
  assume "\<exists>ds suffix scale. t = ds @ suffix \<and> ds \<noteq> [] \<and> list_all is_digit ds \<and> length suffix \<le> 1 \<and>
       byte_scale suffix = Some scale \<and> b = dec_val ds * scale \<and> b \<le> INT64_MAX"
  then obtain ds suffix scale where d: "t = ds @ suffix" "ds \<noteq> []" "list_all is_digit ds" "length suffix \<le> 1"
    "byte_scale suffix = Some scale" "b = dec_val ds * scale" "b \<le> INT64_MAX" by blast
  have tw: "takeWhile is_digit t = ds" "dropWhile is_digit t = suffix"
    using d byte_scale_not_digit [OF d(5)]
    by (auto simp: list_all_iff takeWhile_append dropWhile_append takeWhile_eq_Nil_iff)
       (cases suffix; auto)+
  from d byte_scale_pos [OF d(5)] have le: "dec_val ds \<le> INT64_MAX div scale"
    by (simp add: less_eq_div_iff_mult_less_eq)
  then have "dec_val ds \<le> INT64_MAX" by (meson div_le_dividend le_trans)
  with d tw le show "rr_usage_parse_bytes (Some t) = Some b"
    by (cases ds) (simp_all add: rr_usage_parse_bytes_def parse_number not_less)
qed

section \<open>Flushing the counters\<close>

text \<open>The fields of a connection that accounting uses; the user is \<^const>\<open>None\<close> before a login.\<close>

record usage_peer =
  up_user :: cstr
  up_authenticated :: bool
  up_traffic :: rr_traffic
  up_checkpoint :: rr_traffic
  up_seconds_checkpoint :: "64 word"
  up_started_us :: "64 word"
  up_warned :: bool

definition INT64_MAX_w :: "64 word" where
  "INT64_MAX_w = 9223372036854775807"

definition add_saturated :: "64 word \<Rightarrow> 64 word \<Rightarrow> 64 word" where
  "add_saturated a b = (if a > INT64_MAX_w - b then INT64_MAX_w else a + b)"

definition total_bytes :: "rr_traffic \<Rightarrow> 64 word" where
  "total_bytes t = add_saturated (add_saturated (tx_text_bytes t) (tx_binary_bytes t))
     (add_saturated (rx_text_bytes t) (rx_binary_bytes t))"

definition traffic_delta :: "rr_traffic \<Rightarrow> rr_traffic \<Rightarrow> rr_traffic" where
  "traffic_delta t c =
     \<lparr>tx_text_bytes = tx_text_bytes t - tx_text_bytes c,
      tx_text_frames = tx_text_frames t - tx_text_frames c,
      tx_binary_bytes = tx_binary_bytes t - tx_binary_bytes c,
      tx_binary_frames = tx_binary_frames t - tx_binary_frames c,
      rx_text_bytes = rx_text_bytes t - rx_text_bytes c,
      rx_text_frames = rx_text_frames t - rx_text_frames c,
      rx_binary_bytes = rx_binary_bytes t - rx_binary_bytes c,
      rx_binary_frames = rx_binary_frames t - rx_binary_frames c\<rparr>"

text \<open>\<open>at\<close> is \<open>mono_us()\<close>. The third result is whether the exhausted notice is sent.\<close>

definition usage_flush :: "64 word \<Rightarrow> usage_peer \<Rightarrow> accounting_db \<Rightarrow> bool \<times> usage_peer \<times> accounting_db \<times> bool" where
  "usage_flush at peer db = (case up_user peer of
     None \<Rightarrow> (False, peer, db, False)
   | Some name \<Rightarrow>
       (if \<not> up_authenticated peer \<or> \<not> ad_open db then (False, peer, db, False)
        else let delta = traffic_delta (up_traffic peer) (up_checkpoint peer);
                 seconds = (if up_started_us peer \<noteq> 0 \<and> at \<ge> up_started_us peer
                            then (at - up_started_us peer) div 1000000 else 0);
                 elapsed = (if seconds \<ge> up_seconds_checkpoint peer
                            then seconds - up_seconds_checkpoint peer else 0);
                 (saved, peer', db') =
                   (if total_bytes delta \<noteq> 0 \<or> elapsed \<noteq> 0 then
                      (case db_usage_record name delta elapsed db of
                         (ok, db1) \<Rightarrow> if ok then (True, peer\<lparr>up_checkpoint := up_traffic peer,
                                               up_seconds_checkpoint := seconds\<rparr>, db1)
                                    else (False, peer, db1))
                    else (True, peer, db))
             in if \<not> saved then (False, peer', db', False)
                else (case db_usage_get name db' of
                  None \<Rightarrow> (True, peer', db', False)
                | Some usage \<Rightarrow>
                    (if us_bandwidth_limited usage \<and> us_bandwidth_remaining usage \<le> 0 \<and> \<not> up_warned peer'
                     then (True, peer'\<lparr>up_warned := True\<rparr>, db', True)
                     else (True, peer', db', False)))))"

text \<open>The loops over \<open>http_client_list\<close>, in list order; the database state is threaded through.\<close>

fun rrserver_usage_flush_user :: "64 word \<Rightarrow> cstr \<Rightarrow> usage_peer list \<Rightarrow> accounting_db
    \<Rightarrow> bool \<times> usage_peer list \<times> accounting_db" where
  "rrserver_usage_flush_user at name [] db = (True, [], db)"
| "rrserver_usage_flush_user at name (peer # peers) db =
     (let (ok, peer', db') =
        (case (up_user peer, name) of
           (Some u, Some n) \<Rightarrow>
             (if strcaseeq u n then (case usage_flush at peer db of (ok, p, d, _) \<Rightarrow> (ok, p, d))
              else (True, peer, db))
         | _ \<Rightarrow> (True, peer, db));
         (rest, peers', db'') = rrserver_usage_flush_user at name peers db'
      in (ok \<and> rest, peer' # peers', db''))"

fun usage_flush_all :: "64 word \<Rightarrow> usage_peer list \<Rightarrow> accounting_db \<Rightarrow> usage_peer list \<times> accounting_db" where
  "usage_flush_all at [] db = ([], db)"
| "usage_flush_all at (peer # peers) db =
     (case usage_flush at peer db of (_, peer', db', _) \<Rightarrow>
       (case usage_flush_all at peers db' of (peers', db'') \<Rightarrow> (peer' # peers', db'')))"

definition usage_poll :: "64 word \<Rightarrow> 64 word \<Rightarrow> usage_peer list \<Rightarrow> accounting_db
    \<Rightarrow> 64 word \<times> usage_peer list \<times> accounting_db" where
  "usage_poll checkpoint_at at peers db =
     (if checkpoint_at \<noteq> 0 \<and> at \<ge> checkpoint_at \<and> at - checkpoint_at < 60000000
      then (checkpoint_at, peers, db)
      else (case usage_flush_all at peers db of (peers', db') \<Rightarrow> (at, peers', db')))"

section \<open>The quota command\<close>

text \<open>
  \<open>rrserver_usage_quota\<close> after its privilege check, for every command but \<open>LIST\<close>. \<open>users\<close> are the
  names of the user table in order, \<open>dflt\<close> the configured \<open>quota.bandwidth.default\<close>. Each
  argument yields the outcome the requester is told.
\<close>

datatype quota_reply =
    QuotaUsage
  | QuotaNoUser string
  | QuotaShown string
  | QuotaBadAmount string
  | QuotaNotFlushed string
  | QuotaFailed string
  | QuotaDone string nat

definition usage_user :: "string list \<Rightarrow> string \<Rightarrow> cstr" where
  "usage_user users name = List.find (\<lambda>u. u \<noteq> [] \<and> strcaseeq u name) users"

text \<open>The body of the loop for one user and the amount text of the command.\<close>

definition quota_apply :: "64 word \<Rightarrow> bool \<Rightarrow> bool \<Rightarrow> string \<Rightarrow> string \<Rightarrow> usage_peer list \<Rightarrow> accounting_db
    \<Rightarrow> quota_reply \<times> usage_peer list \<times> accounting_db" where
  "quota_apply at reset add name amount peers db =
     (case rr_usage_parse_bytes (Some amount) of
        None \<Rightarrow> (QuotaBadAmount amount, peers, db)
      | Some bytes \<Rightarrow>
          (case rrserver_usage_flush_user at (Some name) peers db of
             (flushed, peers', db') \<Rightarrow>
               (if \<not> flushed then (QuotaNotFlushed name, peers', db')
                else (case (if reset then db_usage_reset name bytes db'
                            else db_usage_bandwidth_set name bytes add db') of
                  (ok, db'') \<Rightarrow>
                    (if \<not> ok then (QuotaFailed name, peers', db'')
                     else (QuotaDone name bytes,
                           map (\<lambda>p. if \<exists>u \<in> set_option (up_user p). strcaseeq u name
                                      then p\<lparr>up_warned := False\<rparr> else p) peers',
                           db''))))))"

fun quota_loop_args :: "64 word \<Rightarrow> string list \<Rightarrow> cstr \<Rightarrow> bool \<Rightarrow> bool \<Rightarrow> bool \<Rightarrow> string list
    \<Rightarrow> usage_peer list \<Rightarrow> accounting_db \<Rightarrow> quota_reply list \<times> usage_peer list \<times> accounting_db" where
  "quota_loop_args at users dflt reset show add [] peers db = ([], peers, db)"
| "quota_loop_args at users dflt reset show add (arg # args) peers db =
     (if reset \<or> show then
        (let (reply, peers', db') =
           (case usage_user users arg of
              None \<Rightarrow> (QuotaNoUser arg, peers, db)
            | Some name \<Rightarrow>
                (if show then (case rrserver_usage_flush_user at (Some name) peers db of
                   (_, p, d) \<Rightarrow> (QuotaShown name, p, d))
                 else quota_apply at reset add name (case dflt of None \<Rightarrow> ''1G'' | Some a \<Rightarrow> a) peers db));
             (replies, peers'', db'') = quota_loop_args at users dflt reset show add args peers' db'
         in (reply # replies, peers'', db''))
      else (case args of
        [] \<Rightarrow> ([], peers, db)
      | amount # args' \<Rightarrow>
          (let (reply, peers', db') =
             (case usage_user users arg of
                None \<Rightarrow> (QuotaNoUser arg, peers, db)
              | Some name \<Rightarrow> quota_apply at reset add name amount peers db);
               (replies, peers'', db'') = quota_loop_args at users dflt reset show add args' peers' db'
           in (reply # replies, peers'', db''))))"

definition rrserver_usage_quota :: "64 word \<Rightarrow> string list \<Rightarrow> cstr \<Rightarrow> bool \<Rightarrow> string \<Rightarrow> string list
    \<Rightarrow> usage_peer list \<Rightarrow> accounting_db \<Rightarrow> quota_reply list \<times> usage_peer list \<times> accounting_db" where
  "rrserver_usage_quota at users dflt privileged command argv peers db =
     (let reset = strcaseeq command ''RESET''; show = strcaseeq command ''SHOW'';
          set_cmd = strcaseeq command ''SET''; add = strcaseeq command ''ADD'' in
      if \<not> privileged then ([], peers, db)
      else if strcaseeq command ''LIST'' then
        (let names = filter (\<lambda>u. u \<noteq> []) users in
         (map QuotaShown names,
          fold (\<lambda>n (p, d). case rrserver_usage_flush_user at (Some n) p d of (_, p', d') \<Rightarrow> (p', d')) names (peers, db)))
      else if (\<not> reset \<and> \<not> show \<and> \<not> set_cmd \<and> \<not> add) \<or>
              length argv < (if reset \<or> show then 1 else 2) \<or> ((set_cmd \<or> add) \<and> odd (length argv))
      then ([QuotaUsage], peers, db)
      else quota_loop_args at users dflt reset show add argv peers db)"

section \<open>Nothing is lost or counted twice\<close>

text \<open>The life of the connections: their counters move, and flushes are tried at some times, in any order.\<close>

datatype usage_event = Counters nat rr_traffic | Flush nat "64 word"

fun usage_event_step :: "usage_event \<Rightarrow> usage_peer list \<times> accounting_db \<Rightarrow> usage_peer list \<times> accounting_db" where
  "usage_event_step (Counters i t) (peers, db) = (peers[i := (peers ! i)\<lparr>up_traffic := t\<rparr>], db)"
| "usage_event_step (Flush i at) (peers, db) =
     (if i < length peers then (case usage_flush at (peers ! i) db of (_, peer', db', _) \<Rightarrow> (peers[i := peer'], db')) else (peers, db))"

text \<open>Counters only grow, and a checkpoint is an earlier value of them.\<close>

definition counters_below :: "rr_traffic \<Rightarrow> rr_traffic \<Rightarrow> bool" where
  "counters_below a b \<longleftrightarrow> (\<forall>j < 8. columns a ! j \<le> columns b ! j)"

fun growing :: "usage_event list \<Rightarrow> rr_traffic list \<Rightarrow> bool" where
  "growing [] ts = True"
| "growing (Counters i t # evs) ts = ((i < length ts \<longrightarrow> counters_below (ts ! i) t) \<and> growing evs (ts[i := t]))"
| "growing (Flush i at # evs) ts = growing evs ts"

definition counters_ok :: "usage_peer \<Rightarrow> bool" where
  "counters_ok p \<longleftrightarrow> counters_below (up_checkpoint p) (up_traffic p)"

text \<open>What the checkpoints of the connections of an account advanced by, in a column and in bytes.\<close>

definition flushed :: "string \<Rightarrow> nat \<Rightarrow> usage_peer list \<Rightarrow> usage_peer list \<Rightarrow> nat" where
  "flushed k j ps qs = sum_list (map2 (\<lambda>p q. if up_user p = None \<or> account (the (up_user p)) \<noteq> k then 0
     else columns (up_checkpoint q) ! j - columns (up_checkpoint p) ! j) ps qs)"

definition flushed_bytes :: "string \<Rightarrow> usage_peer list \<Rightarrow> usage_peer list \<Rightarrow> nat" where
  "flushed_bytes k ps qs = flushed k 0 ps qs + flushed k 2 ps qs + flushed k 4 ps qs + flushed k 6 ps qs"

lemma less_8: "(\<forall>j < 8. P j) \<longleftrightarrow> P 0 \<and> P 1 \<and> P 2 \<and> P 3 \<and> P 4 \<and> P 5 \<and> P 6 \<and> P (7::nat)"
  by (simp add: numeral_eq_Suc All_less_Suc) blast

lemma below_refl [simp]: "counters_below t t"
  by (simp add: counters_below_def)

lemma below_trans: "counters_below a b \<Longrightarrow> counters_below b c \<Longrightarrow> counters_below a c"
  unfolding counters_below_def by (meson le_trans)

lemma delta_columns: "counters_below c t \<Longrightarrow> j < 8 \<Longrightarrow> columns (traffic_delta t c) ! j = columns t ! j - columns c ! j"
proof -
  have sub: "unat c \<le> unat t \<Longrightarrow> unat (t - c) = unat t - unat c" for c t :: "64 word" by (simp add: unat_sub word_le_nat_alt)
  assume "counters_below c t" "j < 8"
  then have "\<forall>j < 8. columns (traffic_delta t c) ! j = columns t ! j - columns c ! j"
    unfolding less_8 counters_below_def by (simp add: columns_def traffic_delta_def sub)
  with \<open>j < 8\<close> show ?thesis by blast
qed

lemma octets_columns: "sum_list (octets t) = columns t ! 0 + columns t ! 2 + columns t ! 4 + columns t ! 6"
  by (simp add: octets_def columns_def)

text \<open>A flush moves the checkpoint by what it records, and only if the statement succeeds.\<close>

lemma flush_effect:
  assumes ok: "table_ok db" "counters_ok p" and f: "usage_flush at p db = (r, q, db', warn)"
  shows "up_user q = up_user p \<and> up_traffic q = up_traffic p \<and> counters_ok q \<and> counters_below (up_checkpoint p) (up_checkpoint q) \<and>
    account_effect db db' k (\<lambda>j. flushed k j [p] [q]) (flushed_bytes k [p] [q])"
proof -
  have same: ?thesis if "up_checkpoint q = up_checkpoint p" "up_user q = up_user p" "up_traffic q = up_traffic p" "account_effect db db' k (\<lambda>j. 0) 0"
  proof -
    from that(1) have "flushed k j [p] [q] = 0" for j by (simp add: flushed_def)
    with that ok(2) show ?thesis by (simp add: flushed_bytes_def counters_ok_def)
  qed
  have none: "account_effect db db k (\<lambda>j. 0) 0" by (rule no_effect [OF ok(1) refl ok(1)])
  define delta where "delta = traffic_delta (up_traffic p) (up_checkpoint p)"
  define seconds where "seconds = (if up_started_us p \<noteq> 0 \<and> at \<ge> up_started_us p then (at - up_started_us p) div 1000000 else 0)"
  define elapsed where "elapsed = (if seconds \<ge> up_seconds_checkpoint p then seconds - up_seconds_checkpoint p else 0)"
  note f = f [unfolded usage_flush_def Let_def, folded delta_def seconds_def, folded elapsed_def]
  show ?thesis
  proof (cases "up_user p = None \<or> \<not> up_authenticated p \<or> \<not> ad_open db \<or> (total_bytes delta = 0 \<and> elapsed = 0)")
    case True
    with f have "up_checkpoint q = up_checkpoint p" "up_user q = up_user p" "up_traffic q = up_traffic p" "db' = db"
      by (auto split: option.splits if_splits)
    with same none show ?thesis by simp
  next
    case False
    then obtain name where name: "up_user p = Some name" by auto
    obtain saved db1 where rec: "db_usage_record name delta elapsed db = (saved, db1)" by (metis prod.exhaust)
    note eff = record_effect [OF ok(1) rec, of k]
    show ?thesis
    proof (cases saved)
      case nok: False
      with f False rec name have "q = p" "db' = db1" by auto
      with same eff nok show ?thesis by simp
    next
      case True
      with f False rec name have q: "up_checkpoint q = up_traffic p" "up_user q = up_user p" "up_traffic q = up_traffic p" "db' = db1"
        by (auto split: option.splits if_splits)
      have "flushed k j [p] [q] = (if account name = k then columns delta ! j else 0)" if "j < 8" for j
        using delta_columns [of "up_checkpoint p" "up_traffic p" j] ok(2) that by (simp add: flushed_def name q delta_def counters_ok_def)
      moreover from this have "flushed_bytes k [p] [q] = (if account name = k then sum_list (octets delta) else 0)"
        by (simp add: flushed_bytes_def octets_columns)
      ultimately show ?thesis using eff True q ok(2) by (simp add: account_effect_def counters_ok_def)
    qed
  qed
qed

lemma flushed_update:
  assumes "length ps = length qs" "i < length qs" "up_user q' = up_user (qs ! i)"
    "list_all2 (\<lambda>p q. up_user q = up_user p \<and> counters_below (up_checkpoint p) (up_checkpoint q)) ps qs" "counters_below (up_checkpoint (qs ! i)) (up_checkpoint q')" "j < 8"
  shows "flushed k j ps (qs[i := q']) = flushed k j ps qs + flushed k j [qs ! i] [q']"
  using assms
proof (induction ps qs arbitrary: i rule: list_induct2)
  case (Cons p ps q qs)
  show ?case
  proof (cases i)
    case 0
    with Cons.prems show ?thesis by (auto simp: flushed_def counters_below_def)
  next
    case (Suc i')
    with Cons.IH [of i'] Cons.prems show ?thesis by (simp add: flushed_def)
  qed
qed simp

lemma flushed_same_checkpoint:
  assumes "length ps = length qs" "up_checkpoint q' = up_checkpoint (qs ! i)"
  shows "flushed k j ps (qs[i := q']) = flushed k j ps qs"
  using assms
proof (induction ps qs arbitrary: i rule: list_induct2)
  case (Cons p ps q qs)
  then show ?case by (cases i) (simp_all add: flushed_def)
qed simp

definition ledger :: "string \<Rightarrow> usage_peer list \<times> accounting_db \<Rightarrow> usage_peer list \<times> accounting_db \<Rightarrow> bool" where
  "ledger k x y \<longleftrightarrow> length (fst y) = length (fst x) \<and> list_all2 (\<lambda>p q. up_user q = up_user p \<and> counters_below (up_checkpoint p) (up_checkpoint q)) (fst x) (fst y) \<and>
     (\<forall>q \<in> set (fst y). counters_ok q) \<and> table_ok (snd y) \<and>
     account_effect (snd x) (snd y) k (\<lambda>j. flushed k j (fst x) (fst y)) (flushed_bytes k (fst x) (fst y))"

lemma ledger_step:
  assumes l: "ledger k (ps, db0) (qs, db)" and s: "usage_event_step e (qs, db) = (qs', db')"
    and g: "growing (e # evs) (map up_traffic qs)"
  shows "ledger k (ps, db0) (qs', db') \<and> growing evs (map up_traffic qs')"
proof -
  from l have len: "length ps = length qs" and users: "list_all2 (\<lambda>p q. up_user q = up_user p \<and> counters_below (up_checkpoint p) (up_checkpoint q)) ps qs"
    and peers: "\<forall>q \<in> set qs. counters_ok q" and table: "table_ok db" and eff: "account_effect db0 db k (\<lambda>j. flushed k j ps qs) (flushed_bytes k ps qs)"
    by (simp_all add: ledger_def)
  show ?thesis
  proof (cases e)
    case (Counters i t)
    with s have st: "qs' = qs[i := (qs ! i)\<lparr>up_traffic := t\<rparr>]" "db' = db" by simp_all
    have same: "flushed k j ps qs' = flushed k j ps qs" for j unfolding st by (rule flushed_same_checkpoint [OF len]) simp
    have "counters_ok ((qs ! i)\<lparr>up_traffic := t\<rparr>)" if "i < length qs"
      using g peers that by (auto simp: Counters counters_ok_def intro: below_trans)
    then have "\<forall>q \<in> set qs'. counters_ok q" using peers by (cases "i < length qs") (auto simp: st list_update_beyond dest: set_update_subset_insert [THEN subsetD])
    moreover have "list_all2 (\<lambda>p q. up_user q = up_user p \<and> counters_below (up_checkpoint p) (up_checkpoint q)) ps qs'"
      using users by (cases "i < length qs") (auto simp: st list_update_beyond list_all2_conv_all_nth nth_list_update)
    ultimately show ?thesis using len table eff same g by (simp add: ledger_def st flushed_bytes_def Counters map_update)
  next
    case (Flush i at)
    show ?thesis
    proof (cases "i < length qs")
      case False
      with s l g show ?thesis by (auto simp: Flush)
    next
      case i: True
      obtain r q' warn where f: "usage_flush at (qs ! i) db = (r, q', db', warn)" and qs': "qs' = qs[i := q']"
        using s i by (auto simp: Flush split: prod.splits)
      have "counters_ok (qs ! i)" using peers i by simp
      note e = flush_effect [OF table this f, of k]
      have upd: "flushed k j ps qs' = flushed k j ps qs + flushed k j [qs ! i] [q']" if "j < 8" for j
        unfolding qs' by (rule flushed_update [OF len i _ users _ that]) (use e in auto)
      have "account_effect db0 db' k (\<lambda>j. flushed k j ps qs + flushed k j [qs ! i] [q']) (flushed_bytes k ps qs + flushed_bytes k [qs ! i] [q'])"
        using account_effect_trans [OF eff] e by blast
      then have "account_effect db0 db' k (\<lambda>j. flushed k j ps qs') (flushed_bytes k ps qs')"
        using upd by (simp add: account_effect_def flushed_bytes_def add_ac)
      moreover have "\<forall>q \<in> set qs'. counters_ok q" using peers e by (auto simp: qs' dest: set_update_subset_insert [THEN subsetD])
      moreover have "list_all2 (\<lambda>p q. up_user q = up_user p \<and> counters_below (up_checkpoint p) (up_checkpoint q)) ps qs'"
        using users e i by (auto simp: qs' list_all2_conv_all_nth nth_list_update intro: below_trans)
      moreover have "map up_traffic qs' = map up_traffic qs" using e by (simp add: qs' map_update_same)
      ultimately show ?thesis using len g e by (auto simp: ledger_def Flush account_effect_def qs')
    qed
  qed
qed

lemma ledger_run:
  "ledger k x y \<Longrightarrow> growing evs (map up_traffic (fst y)) \<Longrightarrow> ledger k x (fold usage_event_step evs y)"
proof (induction evs arbitrary: y)
  case (Cons e evs)
  from ledger_step [of k "fst x" "snd x" "fst y" "snd y" e "fst (usage_event_step e y)" "snd (usage_event_step e y)" evs] Cons show ?case by simp
qed simp

lemma ledger_start: "table_ok db \<Longrightarrow> \<forall>p \<in> set ps. counters_ok p \<Longrightarrow> ledger k (ps, db) (ps, db)"
proof -
  assume ok: "table_ok db" "\<forall>p \<in> set ps. counters_ok p"
  have "flushed k j ps ps = 0" for j by (induction ps) (auto simp: flushed_def)
  with ok no_effect [OF ok(1) refl ok(1)] show ?thesis by (simp add: ledger_def flushed_bytes_def list_all2_refl)
qed

section \<open>Properties\<close>

text \<open>
  An amount is accepted exactly when it is a decimal number with at most one of the suffixes
  M, G, T, P (none means M) whose value in bytes fits a signed 64-bit integer, and the result is
  that value.
\<close>

theorem usage_parse_bytes_exact:
  "rr_usage_parse_bytes (Some t) = Some b \<longleftrightarrow>
    (\<exists>ds suffix scale. t = ds @ suffix \<and> ds \<noteq> [] \<and> list_all is_digit ds \<and> length suffix \<le> 1 \<and>
       byte_scale suffix = Some scale \<and> b = dec_val ds * scale \<and> b \<le> INT64_MAX)"
  by (rule parse_bytes_exact)

lemma usage_parse_examples:
  "rr_usage_parse_bytes (Some ''10'') = Some 10000000 \<and> rr_usage_parse_bytes (Some ''2G'') = Some 2000000000 \<and>
   rr_usage_parse_bytes (Some ''9224P'') = None \<and> rr_usage_parse_bytes (Some ''1GB'') = None"
  by code_simp

text \<open>
  C36. For a user name without a star, the backtracking loop decides exactly the usual glob
  relation: a star is any text, a question mark any one character, the rest equal up to case.
\<close>

theorem quota_matches_glob:
  assumes "CHR ''*'' \<notin> set n"
  shows "rrserver_quota_matches len (Some p) (Some n) \<longleftrightarrow>
     p \<noteq> [] \<and> length p \<le> len \<and> list_all (\<lambda>c. is_alnum c \<or> c \<in> set ''_-*?'') p \<and> glob p n"
  using quota_loop_correct [of p n None] assms
  by (auto simp: rrserver_quota_matches_def star_ok_def later_split_def)

theorem quota_matches_glob_witness: "glob ''a*b?b'' ''AxbxBab''"
proof -
  have "rrserver_quota_matches 16 (Some ''a*b?b'') (Some ''AxbxBab'')" by code_simp
  moreover have "CHR ''*'' \<notin> set ''AxbxBab''" by simp
  ultimately show ?thesis using quota_matches_glob [of "''AxbxBab''" 16 "''a*b?b''"] by blast
qed

text \<open>A star in the name is taken for the star of the pattern, and the match is lost.\<close>

lemma quota_star_in_name:
  "\<not> rrserver_quota_matches 16 (Some ''*'') (Some ''*a'') \<and> glob ''*'' ''*a''"
  by code_simp

text \<open>
  C37. Traffic is neither lost nor counted twice. However often the counters of however many connections are flushed,
  in whatever order, and whichever statements the database refuses: what an account has
  recorded grows, column by column, by exactly what the checkpoints of its connections advance, or stops at the largest SQL
  integer; and its allowance, if it has one, shrinks by the same number of bytes, down to the smallest.
\<close>

theorem usage_flush_ledger:
  assumes "table_ok db" "\<forall>p \<in> set peers. counters_below (up_checkpoint p) (up_traffic p)" "growing evs (map up_traffic peers)"
    and "fold usage_event_step evs (peers, db) = (peers', db')"
  shows "(\<forall>j < 8. stored db' k j = min INT64_MAX (stored db k j + flushed k j peers peers')) \<and>
    remaining db' k = map_option (\<lambda>r. max (- int INT64_MAX) (r - int (flushed_bytes k peers peers'))) (remaining db k)"
  using ledger_run [OF ledger_start [OF assms(1), of peers k], of evs] assms(2-4) by (simp add: ledger_def account_effect_def counters_ok_def)

definition zero_traffic :: rr_traffic where
  "zero_traffic = \<lparr>tx_text_bytes = 0, tx_text_frames = 0, tx_binary_bytes = 0, tx_binary_frames = 0,
     rx_text_bytes = 0, rx_text_frames = 0, rx_binary_bytes = 0, rx_binary_frames = 0\<rparr>"

text \<open>A database that refuses every second statement, and two connections of one user.\<close>

definition demo_usage_db :: accounting_db where
  "demo_usage_db = \<lparr>ad_open = True, ad_rows = [''n0call'' \<mapsto> \<lparr>ur_counts = replicate 8 1, ur_session_seconds = 0, ur_tx_seconds = 0,
       ur_remaining = Some 300, ur_reset_at = 0, ur_tx_reset_at = 0\<rparr>],
     ad_clock = (\<lambda>n. 0), ad_fails = even, ad_read_fails = (\<lambda>n. False), ad_count = 0, ad_alarms = 0\<rparr>"

definition demo_peer :: "string \<Rightarrow> usage_peer" where
  "demo_peer name = \<lparr>up_user = Some name, up_authenticated = True, up_traffic = zero_traffic,
     up_checkpoint = zero_traffic, up_seconds_checkpoint = 0, up_started_us = 0, up_warned = False\<rparr>"

definition demo_events :: "usage_event list" where
  "demo_events = [Counters 0 (zero_traffic\<lparr>tx_text_bytes := 100\<rparr>), Flush 0 5, Counters 1 (zero_traffic\<lparr>tx_text_bytes := 50\<rparr>), Flush 1 5,
     Counters 0 (zero_traffic\<lparr>tx_text_bytes := 250\<rparr>), Flush 0 6, Flush 0 7]"

definition demo_result :: "usage_peer list \<times> accounting_db" where
  "demo_result = fold usage_event_step demo_events ([demo_peer ''N0CALL'', demo_peer ''n0call''], demo_usage_db)"

lemma demo_flushed: "flushed ''n0call'' 0 [demo_peer ''N0CALL'', demo_peer ''n0call''] (fst demo_result) = 300"
proof -
  have lower: "account ''N0CALL'' = ''n0call''" "account ''n0call'' = ''n0call''" by code_simp+
  show ?thesis
    by (simp add: flushed_def demo_result_def demo_events_def demo_peer_def demo_usage_db_def usage_flush_def traffic_delta_def total_bytes_def add_saturated_def
        INT64_MAX_w_def INT64_MAX_def db_usage_record_def db_usage_get_def upsert_def accounting_step_def columns_def octets_def zero_traffic_def empty_row_def
        charge_def lower Let_def)
qed

theorem usage_flush_ledger_witness: "stored (snd demo_result) ''n0call'' 0 = 301"
proof -
  let ?ps = "[demo_peer ''N0CALL'', demo_peer ''n0call'']"
  have t: "table_ok demo_usage_db" by (auto simp: table_ok_def demo_usage_db_def INT64_MAX_def split: if_splits)
  have p: "\<forall>p \<in> set ?ps. counters_below (up_checkpoint p) (up_traffic p)" by (simp add: demo_peer_def)
  have g: "growing demo_events (map up_traffic ?ps)"
    by (simp add: demo_events_def demo_peer_def counters_below_def less_8) (simp add: columns_def zero_traffic_def)
  have "fold usage_event_step demo_events (?ps, demo_usage_db) = (fst demo_result, snd demo_result)" by (simp add: demo_result_def)
  note ledger = usage_flush_ledger [OF t p g this, of "''n0call''"]
  have "stored demo_usage_db ''n0call'' 0 = 1" by (simp add: stored_def demo_usage_db_def)
  with ledger demo_flushed show ?thesis by (simp add: INT64_MAX_def)
qed

end
