(* ===== verification/RigRegistry.thy ===== *)
theory RigRegistry
  imports Prelude
begin

text \<open>
  \<^verbatim>\<open>rrserver/rig.registry.c\<close>: the collection of rigs a server owns. Every rig has a UUID, a
  configured alias, a media index that tags its audio frames on the wire, and a public alias
  \<open>rig<index>\<close>. One rig may be the default; it holds index 0.

  The linked list is a list with its head first. A rig is identified by its address: \<open>rg_next\<close>
  stands for the allocator and makes every address fresh. Creating the rig and its backend
  (\<open>rr_server_rig_new\<close>, \<open>rr_backend_instance_new\<close>) can fail, which is an argument of \<open>add\<close>. The
  registry pointer is not \<open>NULL\<close> and strings are duplicated successfully.
\<close>

section \<open>State\<close>

record rig_entry =
  re_alias :: string
  re_public_alias :: string
  re_room :: string
  re_media_index :: nat
  re_radio :: nat
  re_uuid :: string

record rig_registry =
  rg_node_uuid :: cstr
  rg_entries :: "rig_entry list"
  rg_default :: "nat option"
  rg_count :: nat
  rg_next :: nat

definition rr_rig_registry_new :: rig_registry where
  "rr_rig_registry_new = \<lparr>rg_node_uuid = None, rg_entries = [], rg_default = None, rg_count = 0, rg_next = 0\<rparr>"

section \<open>Operations\<close>

text \<open>As in the code, \<^const>\<open>True\<close> is failure for \<open>set_node\<close>, \<open>remove\<close>, \<open>set_default\<close> and \<open>set_room\<close>.\<close>

definition rr_rig_registry_set_node :: "rig_registry \<Rightarrow> cstr \<Rightarrow> bool \<times> rig_registry" where
  "rr_rig_registry_set_node r uuid =
     (if uuid = None \<or> rg_node_uuid r \<noteq> None then (True, r) else (False, r\<lparr>rg_node_uuid := uuid\<rparr>))"

definition rr_rig_registry_node :: "rig_registry \<Rightarrow> cstr" where
  "rr_rig_registry_node r = rg_node_uuid r"

definition rr_rig_registry_find_uuid :: "rig_registry \<Rightarrow> cstr \<Rightarrow> nat option" where
  "rr_rig_registry_find_uuid r uuid = (case uuid of
     None \<Rightarrow> None
   | Some u \<Rightarrow> if u = [] then None else map_option re_radio (List.find (\<lambda>e. re_uuid e = u) (rg_entries r)))"

definition rr_rig_registry_find_alias :: "rig_registry \<Rightarrow> cstr \<Rightarrow> nat option" where
  "rr_rig_registry_find_alias r alias = (case alias of
     None \<Rightarrow> None
   | Some a \<Rightarrow> if a = [] then None else map_option re_radio (List.find (\<lambda>e. re_alias e = a) (rg_entries r)))"

text \<open>\<open>vfo_find\<close> is \<open>rr_server_vfo_find_uuid\<close> of the rig at an address.\<close>

fun find_vfo :: "(nat \<Rightarrow> string \<Rightarrow> 'v option) \<Rightarrow> string \<Rightarrow> rig_entry list \<Rightarrow> 'v option" where
  "find_vfo vfo_find u [] = None"
| "find_vfo vfo_find u (e # es) = (case vfo_find (re_radio e) u of Some v \<Rightarrow> Some v | None \<Rightarrow> find_vfo vfo_find u es)"

definition rr_rig_registry_find_vfo_uuid :: "(nat \<Rightarrow> string \<Rightarrow> 'v option) \<Rightarrow> rig_registry \<Rightarrow> cstr \<Rightarrow> 'v option" where
  "rr_rig_registry_find_vfo_uuid vfo_find r uuid = (case uuid of
     None \<Rightarrow> None
   | Some u \<Rightarrow> if u = [] then None else find_vfo vfo_find u (rg_entries r))"

definition rig_alias_of :: "nat \<Rightarrow> string" where
  "rig_alias_of n = ''rig'' @ show_nat n"

text \<open>The first index no entry uses; zero, the cleared field, if there were none.\<close>

definition free_index :: "rig_entry list \<Rightarrow> nat" where
  "free_index es = (case find_idx (\<lambda>i. i \<notin> re_media_index ` set es) [0..<255] of Some i \<Rightarrow> i | None \<Rightarrow> 0)"

definition rr_rig_registry_add :: "rig_registry \<Rightarrow> cstr \<Rightarrow> cstr \<Rightarrow> bool \<Rightarrow> bool \<Rightarrow> bool \<Rightarrow> nat option \<times> rig_registry" where
  "rr_rig_registry_add r uuid alias has_backend_type radio_ok backend_ok = (case (uuid, alias) of
     (Some u, Some a) \<Rightarrow>
       (if rg_count r \<ge> 255 \<or> u = [] \<or> a = [] \<or> \<not> has_backend_type \<or>
           rr_rig_registry_find_uuid r uuid \<noteq> None \<or> rr_rig_registry_find_alias r alias \<noteq> None then (None, r)
        else if \<not> radio_ok \<or> \<not> backend_ok then (None, r)
        else let i = free_index (rg_entries r); radio = rg_next r in
          (Some radio,
           r\<lparr>rg_entries := \<lparr>re_alias = a, re_public_alias = rig_alias_of i, re_room = [], re_media_index = i,
                            re_radio = radio, re_uuid = u\<rparr> # rg_entries r,
             rg_count := rg_count r + 1, rg_next := radio + 1\<rparr>))
   | _ \<Rightarrow> (None, r))"

definition rr_rig_registry_remove :: "rig_registry \<Rightarrow> cstr \<Rightarrow> bool \<times> rig_registry" where
  "rr_rig_registry_remove r uuid = (case uuid of
     None \<Rightarrow> (True, r)
   | Some u \<Rightarrow>
       (if u = [] then (True, r)
        else (case find_idx (\<lambda>e. re_uuid e = u) (rg_entries r) of
          None \<Rightarrow> (True, r)
        | Some i \<Rightarrow>
            (if rg_default r = Some (re_radio (rg_entries r ! i)) then (True, r)
             else (False, r\<lparr>rg_entries := take i (rg_entries r) @ drop (i + 1) (rg_entries r),
                            rg_count := rg_count r - 1\<rparr>)))))"

definition entry_of :: "rig_registry \<Rightarrow> nat option \<Rightarrow> rig_entry option" where
  "entry_of r radio = List.find (\<lambda>e. Some (re_radio e) = radio) (rg_entries r)"

definition rr_rig_registry_public_alias :: "rig_registry \<Rightarrow> nat option \<Rightarrow> cstr" where
  "rr_rig_registry_public_alias r radio = map_option re_public_alias (entry_of r radio)"

definition rr_rig_registry_find_public_alias :: "rig_registry \<Rightarrow> cstr \<Rightarrow> nat option" where
  "rr_rig_registry_find_public_alias r alias = (case alias of
     None \<Rightarrow> None
   | Some a \<Rightarrow> map_option re_radio (List.find (\<lambda>e. re_public_alias e = a) (rg_entries r)))"

definition rr_rig_registry_alias :: "rig_registry \<Rightarrow> nat option \<Rightarrow> cstr" where
  "rr_rig_registry_alias r radio = map_option re_alias (entry_of r radio)"

definition rr_rig_registry_count :: "rig_registry \<Rightarrow> nat" where
  "rr_rig_registry_count r = rg_count r"

definition rr_rig_registry_foreach :: "rig_registry \<Rightarrow> (nat \<Rightarrow> 's \<Rightarrow> bool \<times> 's) \<Rightarrow> 's \<Rightarrow> bool \<times> 's" where
  "rr_rig_registry_foreach r callback user =
     fold (\<lambda>e (failed, s). case callback (re_radio e) s of (bad, s') \<Rightarrow> (failed \<or> bad, s')) (rg_entries r) (False, user)"

text \<open>
  The number of an alias \<open>rig<N>\<close>. \<open>sscanf("rig%u%c")\<close> also reads blanks, signs and leading zeros,
  but the comparison with the canonical text rejects them, so only plain numerals count.
\<close>

definition rig_number :: "string \<Rightarrow> nat option" where
  "rig_number alias =
     (if take 3 alias = ''rig'' \<and> drop 3 alias \<noteq> [] \<and> list_all is_digit (drop 3 alias) then
        (let number = dec_val (drop 3 alias) in
         if number > 0 \<and> number < 255 \<and> rig_alias_of number = alias then Some number else None)
      else None)"

text \<open>The two passes of \<open>set_default\<close>; 255 marks an entry without an index.\<close>

fun assign_named :: "nat option \<Rightarrow> (nat \<Rightarrow> bool) \<Rightarrow> rig_entry list \<Rightarrow> rig_entry list \<times> (nat \<Rightarrow> bool)" where
  "assign_named radio used [] = ([], used)"
| "assign_named radio used (e # es) =
     (let (i, used') =
        (if Some (re_radio e) = radio then (0, used)
         else case rig_number (re_alias e) of
           None \<Rightarrow> (255, used)
         | Some n \<Rightarrow> if used n then (255, used) else (n, used(n := True)));
          (es', used'') = assign_named radio used' es
      in (e\<lparr>re_media_index := i\<rparr> # es', used''))"

function skip_used :: "(nat \<Rightarrow> bool) \<Rightarrow> nat \<Rightarrow> nat" where
  "skip_used used index = (if index < 255 \<and> used index then skip_used used (index + 1) else index)"
  by pat_completeness auto
termination by (relation "measure (\<lambda>(used, index). 255 - index)") auto

declare skip_used.simps [simp del]

fun assign_rest :: "nat \<Rightarrow> (nat \<Rightarrow> bool) \<Rightarrow> rig_entry list \<Rightarrow> rig_entry list" where
  "assign_rest index used [] = []"
| "assign_rest index used (e # es) =
     (if re_media_index e = 255 then
        (let i = (let k = skip_used used index in if k = 255 then 0 else k) in
         e\<lparr>re_media_index := i, re_public_alias := rig_alias_of i\<rparr> # assign_rest i (used(i := True)) es)
      else e\<lparr>re_public_alias := rig_alias_of (re_media_index e)\<rparr> # assign_rest index used es)"

definition rr_rig_registry_set_default :: "rig_registry \<Rightarrow> nat option \<Rightarrow> bool \<times> rig_registry" where
  "rr_rig_registry_set_default r radio =
     (if radio \<noteq> None \<and> rr_rig_registry_alias r radio = None then (True, r)
      else case assign_named radio ((\<lambda>_. False)(0 := True)) (rg_entries r) of
        (es, used) \<Rightarrow> (False, r\<lparr>rg_default := radio, rg_entries := assign_rest 1 used es\<rparr>))"

definition rr_rig_registry_default :: "rig_registry \<Rightarrow> nat option" where
  "rr_rig_registry_default r = rg_default r"

definition rr_rig_registry_set_room :: "rig_registry \<Rightarrow> nat option \<Rightarrow> cstr \<Rightarrow> bool \<times> rig_registry" where
  "rr_rig_registry_set_room r radio room = (case room of
     None \<Rightarrow> (True, r)
   | Some s \<Rightarrow>
       (if length s \<ge> 128 then (True, r)
        else case find_idx (\<lambda>e. Some (re_radio e) = radio) (rg_entries r) of
          None \<Rightarrow> (True, r)
        | Some i \<Rightarrow> (False, r\<lparr>rg_entries := (rg_entries r)[i := (rg_entries r ! i)\<lparr>re_room := s\<rparr>]\<rparr>)))"

definition rr_rig_registry_room :: "rig_registry \<Rightarrow> nat option \<Rightarrow> cstr" where
  "rr_rig_registry_room r radio = (case entry_of r radio of
     None \<Rightarrow> None
   | Some e \<Rightarrow> if re_room e = [] then None else Some (re_room e))"

text \<open>\<open>na\<close> is \<open>RR_BINFRAME_RIG_NA\<close> of librrprotocol.\<close>

definition rr_rig_registry_media_index :: "nat \<Rightarrow> rig_registry \<Rightarrow> nat option \<Rightarrow> nat" where
  "rr_rig_registry_media_index na r radio = (case entry_of r radio of None \<Rightarrow> na | Some e \<Rightarrow> re_media_index e)"

section \<open>Numbered aliases\<close>

lemma rig_number_alias: "rig_number a = Some n \<longleftrightarrow> 0 < n \<and> n < 255 \<and> a = rig_alias_of n"
proof
  assume "0 < n \<and> n < 255 \<and> a = rig_alias_of n"
  then show "rig_number a = Some n"
    using show_nat_digits [of n] by (auto simp: rig_number_def rig_alias_of_def list_all_iff numeral_3_eq_3)
qed (auto simp: rig_number_def Let_def split: if_splits)

lemma rig_alias_inject [simp]: "rig_alias_of m = rig_alias_of n \<longleftrightarrow> m = n"
  by (simp add: rig_alias_of_def)

section \<open>The first pass in closed form\<close>

text \<open>Aliases are unique, so every numbered alias finds its number free.\<close>

definition named_index :: "nat option \<Rightarrow> rig_entry \<Rightarrow> nat" where
  "named_index radio e = (if Some (re_radio e) = radio then 0
     else case rig_number (re_alias e) of None \<Rightarrow> 255 | Some n \<Rightarrow> n)"

lemma assign_named_closed:
  assumes "distinct (map re_alias es)"
    "\<forall>e \<in> set es. \<forall>n. Some (re_radio e) \<noteq> radio \<and> rig_number (re_alias e) = Some n \<longrightarrow> \<not> used n"
  shows "assign_named radio used es =
    (map (\<lambda>e. e\<lparr>re_media_index := named_index radio e\<rparr>) es,
     \<lambda>k. used k \<or> (\<exists>e \<in> set es. Some (re_radio e) \<noteq> radio \<and> rig_number (re_alias e) = Some k))"
  using assms
proof (induction es arbitrary: used)
  case (Cons e es)
  show ?case
  proof (cases "Some (re_radio e) \<noteq> radio \<and> rig_number (re_alias e) \<noteq> None")
    case True
    then obtain n where n: "Some (re_radio e) \<noteq> radio" "rig_number (re_alias e) = Some n" by auto
    with Cons.prems have "\<not> used n" by simp
    have fresh: "rig_number (re_alias x) \<noteq> Some n" if "x \<in> set es" for x
      using that n(2) Cons.prems(1) by (auto simp: rig_number_alias) (metis image_eqI)
    have "\<forall>x \<in> set es. \<forall>m. Some (re_radio x) \<noteq> radio \<and> rig_number (re_alias x) = Some m \<longrightarrow> \<not> (used(n := True)) m"
      using Cons.prems(2) fresh by auto
    note free = this
    have IH: "assign_named radio (used(n := True)) es = (map (\<lambda>e. e\<lparr>re_media_index := named_index radio e\<rparr>) es,
        \<lambda>k. (used(n := True)) k \<or> (\<exists>e \<in> set es. Some (re_radio e) \<noteq> radio \<and> rig_number (re_alias e) = Some k))"
      by (rule Cons.IH [OF _ free]) (use Cons.prems(1) in simp)
    have "(\<lambda>k. (used(n := True)) k \<or> (\<exists>e \<in> set es. Some (re_radio e) \<noteq> radio \<and> rig_number (re_alias e) = Some k)) =
        (\<lambda>k. used k \<or> (\<exists>x \<in> set (e # es). Some (re_radio x) \<noteq> radio \<and> rig_number (re_alias x) = Some k))"
      using n by (auto simp: fun_eq_iff)
    note IH [unfolded this]
    with n \<open>\<not> used n\<close> show ?thesis by (simp add: named_index_def)
  next
    case False
    with Cons show ?thesis by (auto simp: named_index_def fun_eq_iff)
  qed
qed (simp add: fun_eq_iff)

section \<open>The second pass fills the gaps\<close>

lemma skip_used_spec:
  "i \<le> 255 \<Longrightarrow> i \<le> skip_used used i \<and> skip_used used i \<le> 255 \<and>
     (skip_used used i < 255 \<longrightarrow> \<not> used (skip_used used i)) \<and> (\<forall>j. i \<le> j \<and> j < skip_used used i \<longrightarrow> used j)"
proof (induction used i rule: skip_used.induct)
  case (1 used i)
  show ?case
  proof (cases "i < 255 \<and> used i")
    case True
    then have "i + 1 \<le> 255" by simp
    note IH = 1(1) [OF True this]
    have eq: "skip_used used i = skip_used used (i + 1)" using True by (simp add: skip_used.simps [of used i])
    have "used j" if "i \<le> j \<and> j < skip_used used (i + 1)" for j
      using that True IH by (cases "j = i") auto
    with IH show ?thesis unfolding eq by simp
  next
    case False
    with 1(2) show ?thesis unfolding skip_used.simps [of used i] by auto
  qed
qed

definition taken :: "(nat \<Rightarrow> bool) \<Rightarrow> nat set" where
  "taken used = {k \<in> {1..<255}. used k}"

definition open_count :: "rig_entry list \<Rightarrow> nat" where
  "open_count es = length (filter (\<lambda>e. re_media_index e = 255) es)"

lemma taken_finite [simp]: "finite (taken used)"
  by (simp add: taken_def)

lemma taken_update: "1 \<le> i \<Longrightarrow> i < 255 \<Longrightarrow> \<not> used i \<Longrightarrow> card (taken (used(i := True))) = Suc (card (taken used))"
proof -
  assume i: "1 \<le> i" "i < 255" "\<not> used i"
  then have "taken (used(i := True)) = insert i (taken used)" by (auto simp: taken_def)
  with i show ?thesis by (simp add: taken_def)
qed

definition named :: "rig_entry list \<Rightarrow> nat set" where
  "named es = {k \<in> re_media_index ` set es. k \<noteq> 255}"

lemma assign_rest_named: "open_count es = 0 \<Longrightarrow> map re_media_index (assign_rest i used es) = map re_media_index es"
  by (induction es) (auto simp: open_count_def split: if_splits)

lemma assign_rest_distinct:
  assumes "1 \<le> index" "index \<le> 255" "\<forall>j. 1 \<le> j \<and> j < index \<longrightarrow> used j" "used 0"
    "distinct (filter (\<lambda>k. k \<noteq> 255) (map re_media_index es))"
    "\<forall>k \<in> named es. k < 255 \<and> used k" "0 \<in> named es \<longrightarrow> z = 1"
    "card (taken used) + open_count es + z \<le> (255 :: nat)"
  shows "distinct (map re_media_index (assign_rest index used es)) \<and>
    (\<forall>k \<in> re_media_index ` set (assign_rest index used es).
       k < 255 \<and> (k \<in> named es \<or> \<not> used k \<or> k = 0 \<and> z = 0))"
  using assms
proof (induction es arbitrary: index used)
  case (Cons e es)
  show ?case
  proof (cases "re_media_index e = 255")
    case False
    have n: "named (e # es) = insert (re_media_index e) (named es)" using False by (auto simp: named_def)
    from Cons.prems(5) False have "re_media_index e \<notin> named es" by (auto simp: named_def)
    moreover from Cons.prems(6) n have "used (re_media_index e)" "re_media_index e < 255" by auto
    moreover from Cons.prems(7) n have "re_media_index e = 0 \<longrightarrow> z = 1" by auto
    moreover have "distinct (map re_media_index (assign_rest index used es)) \<and>
      (\<forall>k \<in> re_media_index ` set (assign_rest index used es). k < 255 \<and> (k \<in> named es \<or> \<not> used k \<or> k = 0 \<and> z = 0))"
      using Cons.prems False n by (intro Cons.IH) (auto simp: open_count_def)
    ultimately show ?thesis using False n by auto
  next
    case True
    let ?k = "skip_used used index"
    note k = skip_used_spec [OF Cons.prems(2), of used]
    have n: "named (e # es) = named es" using True by (auto simp: named_def)
    have o: "open_count (e # es) = Suc (open_count es)" using True by (simp add: open_count_def)
    show ?thesis
    proof (cases "?k < 255")
      case True
      with k Cons.prems(1) have kk: "1 \<le> ?k" "\<not> used ?k" by auto
      have "(used(?k := True)) j" if "1 \<le> j \<and> j < ?k" for j
        using that k Cons.prems(3) by (cases "j < index") auto
      then have below: "\<forall>j. 1 \<le> j \<and> j < ?k \<longrightarrow> (used(?k := True)) j" by blast
      have "card (taken (used(?k := True))) = Suc (card (taken used))" using kk True by (intro taken_update) auto
      with Cons.prems(8) o have room: "card (taken (used(?k := True))) + open_count es + z \<le> 255" by linarith
      have IH: "distinct (map re_media_index (assign_rest ?k (used(?k := True)) es)) \<and>
        (\<forall>x \<in> re_media_index ` set (assign_rest ?k (used(?k := True)) es).
           x < 255 \<and> (x \<in> named es \<or> \<not> (used(?k := True)) x \<or> x = 0 \<and> z = 0))"
        by (intro Cons.IH below room) (use Cons.prems \<open>re_media_index e = 255\<close> n kk True in auto)
      have "?k \<notin> named es" using Cons.prems(6) kk n by auto
      with IH \<open>re_media_index e = 255\<close> True kk n show ?thesis by (auto simp: Let_def split: if_splits)
    next
      case False
      with k have full: "?k = 255" by simp
      have "used j" if "1 \<le> j" "j < 255" for j
        using that k Cons.prems(3) unfolding full by (cases "j < index") auto
      then have "taken used = {1..<255}" by (auto simp: taken_def)
      then have "card (taken used) = 254" by simp
      with Cons.prems(8) o have none: "open_count es = 0" "z = 0" by auto
      have m: "map re_media_index (assign_rest 0 (used(0 := True)) es) = map re_media_index es"
        by (rule assign_rest_named [OF none(1)])
      have no_open: "\<forall>x \<in> set es. re_media_index x \<noteq> 255" using none(1) by (simp add: open_count_def filter_empty_conv)
      then have "filter (\<lambda>k. k \<noteq> 255) (map re_media_index es) = map re_media_index es"
        by (auto simp: filter_id_conv)
      with Cons.prems(5) \<open>re_media_index e = 255\<close> have "distinct (map re_media_index es)" by simp
      moreover have "re_media_index ` set es = named es" using no_open by (auto simp: named_def)
      moreover have "0 \<notin> named es" using Cons.prems(7) none n by auto
      moreover have "re_media_index ` set (assign_rest 0 (used(0 := True)) es) = re_media_index ` set es"
        using m by (metis list.set_map)
      ultimately show ?thesis using \<open>re_media_index e = 255\<close> full m none n Cons.prems(6) by (simp add: Let_def)
    qed
  qed
qed simp

section \<open>Invariant\<close>

definition reg_inv :: "rig_registry \<Rightarrow> bool" where
  "reg_inv r \<longleftrightarrow> (let es = rg_entries r in
     distinct (map re_uuid es) \<and> distinct (map re_alias es) \<and> distinct (map re_radio es) \<and>
     distinct (map re_media_index es) \<and> (\<forall>k \<in> re_media_index ` set es. k < 255) \<and>
     (\<forall>e \<in> set es. re_public_alias e = rig_alias_of (re_media_index e)) \<and>
     (\<forall>k \<in> re_radio ` set es. k < rg_next r) \<and> (\<forall>s \<in> re_room ` set es. length s < 128) \<and>
     [] \<notin> re_uuid ` set es \<and> [] \<notin> re_alias ` set es \<and>
     rg_count r = length es \<and> length es \<le> 255 \<and>
     (\<forall>d. rg_default r = Some d \<longrightarrow> d \<in> re_radio ` set es))"

lemma reg_invI:
  assumes "distinct (map re_uuid (rg_entries r))" "distinct (map re_alias (rg_entries r))"
    "distinct (map re_radio (rg_entries r))" "distinct (map re_media_index (rg_entries r))"
    "\<And>e. e \<in> set (rg_entries r) \<Longrightarrow> re_media_index e < 255"
    "\<And>e. e \<in> set (rg_entries r) \<Longrightarrow> re_public_alias e = rig_alias_of (re_media_index e)"
    "\<And>e. e \<in> set (rg_entries r) \<Longrightarrow> re_radio e < rg_next r"
    "\<And>e. e \<in> set (rg_entries r) \<Longrightarrow> length (re_room e) < 128"
    "[] \<notin> re_uuid ` set (rg_entries r)" "[] \<notin> re_alias ` set (rg_entries r)"
    "rg_count r = length (rg_entries r)" "length (rg_entries r) \<le> 255"
    "\<And>d. rg_default r = Some d \<Longrightarrow> d \<in> re_radio ` set (rg_entries r)"
  shows "reg_inv r"
  using assms unfolding reg_inv_def Let_def by simp

lemma reg_invD:
  assumes "reg_inv r"
  shows "distinct (map re_uuid (rg_entries r))" "distinct (map re_alias (rg_entries r))"
    "distinct (map re_radio (rg_entries r))" "distinct (map re_media_index (rg_entries r))"
    "\<And>e. e \<in> set (rg_entries r) \<Longrightarrow> re_media_index e < 255"
    "\<And>e. e \<in> set (rg_entries r) \<Longrightarrow> re_public_alias e = rig_alias_of (re_media_index e)"
    "\<And>e. e \<in> set (rg_entries r) \<Longrightarrow> re_radio e < rg_next r"
    "\<And>e. e \<in> set (rg_entries r) \<Longrightarrow> length (re_room e) < 128"
    "[] \<notin> re_uuid ` set (rg_entries r)" "[] \<notin> re_alias ` set (rg_entries r)"
    "rg_count r = length (rg_entries r)" "length (rg_entries r) \<le> 255"
    "\<And>d. rg_default r = Some d \<Longrightarrow> d \<in> re_radio ` set (rg_entries r)"
  using assms unfolding reg_inv_def Let_def by simp_all

lemma assign_rest_frame:
  assumes "\<And>e i p. f (e\<lparr>re_media_index := i, re_public_alias := p\<rparr>) = f e" "\<And>e p. f (e\<lparr>re_public_alias := p\<rparr>) = f e"
  shows "map f (assign_rest index used es) = map f es"
  using assms by (induction index used es rule: assign_rest.induct) (simp_all add: Let_def)

lemma assign_rest_public: "e \<in> set (assign_rest index used es) \<Longrightarrow> re_public_alias e = rig_alias_of (re_media_index e)"
  by (induction index used es rule: assign_rest.induct) (auto simp: Let_def split: if_splits)

lemma three_filters:
  assumes "\<And>x. \<not> (P x \<and> Q x)" "\<And>x. \<not> (P x \<and> R x)" "\<And>x. \<not> (Q x \<and> R x)"
  shows "length (filter P xs) + length (filter Q xs) + length (filter R xs) \<le> length xs"
  using assms by (induction xs) auto

lemma named_index_range: "named_index radio e = 0 \<longleftrightarrow> Some (re_radio e) = radio"
  "named_index radio e \<noteq> 255 \<Longrightarrow> named_index radio e \<noteq> 0 \<Longrightarrow> rig_number (re_alias e) = Some (named_index radio e)"
  by (auto simp: named_index_def rig_number_alias split: option.splits if_splits)

lemma named_index_inj:
  assumes "distinct (map re_radio es)" "distinct (map re_alias es)"
  shows "distinct (filter (\<lambda>k. k \<noteq> 255) (map (named_index radio) es))"
  using assms
proof (induction es)
  case (Cons e es)
  have "named_index radio e \<noteq> named_index radio x" if x: "x \<in> set es" and n: "named_index radio e \<noteq> 255" for x
  proof
    assume eq: "named_index radio e = named_index radio x"
    show False
    proof (cases "named_index radio e = 0")
      case True
      with eq have "Some (re_radio e) = radio" "Some (re_radio x) = radio" by (simp_all add: named_index_range(1))
      then have "re_radio e = re_radio x" by auto
      with x Cons.prems show False by (auto simp: image_iff)
    next
      case False
      with eq n named_index_range(2) [of radio e] named_index_range(2) [of radio x]
      have "re_alias e = re_alias x" by (simp add: rig_number_alias)
      with x Cons.prems show False by (auto simp: image_iff)
    qed
  qed
  with Cons show ?case by auto
qed simp

lemma set_default_room:
  assumes radios: "distinct (map re_radio es)" and aliases: "distinct (map re_alias es)" and len: "length es \<le> 255"
    and radio: "radio = None \<or> radio \<in> Some ` re_radio ` set es"
    and used: "used = (\<lambda>k. k = 0 \<or> (\<exists>e \<in> set es. Some (re_radio e) \<noteq> radio \<and> rig_number (re_alias e) = Some k))"
  shows "card (taken used) + length (filter (\<lambda>e. named_index radio e = 255) es) + (if radio = None then 0 else 1) \<le> 255"
proof -
  let ?num = "\<lambda>e. named_index radio e \<noteq> 0 \<and> named_index radio e \<noteq> 255"
  have "taken used \<subseteq> named_index radio ` set (filter ?num es)"
  proof
    fix k assume "k \<in> taken used"
    then obtain e where e: "e \<in> set es" "Some (re_radio e) \<noteq> radio" "rig_number (re_alias e) = Some k" "k \<noteq> 0" "k \<noteq> 255"
      unfolding taken_def used by auto
    then have "named_index radio e = k" by (simp add: named_index_def)
    with e show "k \<in> named_index radio ` set (filter ?num es)" by auto
  qed
  then have "card (taken used) \<le> card (named_index radio ` set (filter ?num es))" by (simp add: card_mono)
  also have "\<dots> \<le> length (filter ?num es)" by (meson card_image_le card_length finite_set le_trans)
  finally have n: "card (taken used) \<le> length (filter ?num es)" .
  have z: "(if radio = None then 0 else 1) \<le> length (filter (\<lambda>e. named_index radio e = 0) es)"
    using radio by (auto simp: named_index_range(1) Suc_le_eq filter_empty_conv)
  have "length (filter ?num es) + length (filter (\<lambda>e. named_index radio e = 255) es) +
      length (filter (\<lambda>e. named_index radio e = 0) es) \<le> length es"
    by (rule three_filters) auto
  with n z len show ?thesis by linarith
qed

lemma entry_of_Some: "entry_of r radio = Some e \<Longrightarrow> e \<in> set (rg_entries r) \<and> radio = Some (re_radio e)"
  by (auto simp: entry_of_def dest: find_SomeD)

lemma set_default_entries:
  assumes inv: "reg_inv r" and radio: "radio = None \<or> radio \<in> Some ` re_radio ` set (rg_entries r)"
    and a: "assign_named radio ((\<lambda>_. False)(0 := True)) (rg_entries r) = (es, used)"
  shows "es = map (\<lambda>e. e\<lparr>re_media_index := named_index radio e\<rparr>) (rg_entries r) \<and>
    distinct (map re_media_index (assign_rest 1 used es)) \<and>
    (\<forall>k \<in> re_media_index ` set (assign_rest 1 used es). k < 255)"
proof -
  let ?es = "rg_entries r"
  from inv have d: "distinct (map re_alias ?es)" "distinct (map re_radio ?es)" "length ?es \<le> 255"
    by (simp_all add: reg_inv_def Let_def)
  have "\<forall>e \<in> set ?es. \<forall>n. Some (re_radio e) \<noteq> radio \<and> rig_number (re_alias e) = Some n \<longrightarrow> \<not> ((\<lambda>_. False)(0 := True)) n"
    by (auto simp: rig_number_alias)
  from assign_named_closed [OF d(1) this]
  have "(es, used) = (map (\<lambda>e. e\<lparr>re_media_index := named_index radio e\<rparr>) ?es,
      \<lambda>k. ((\<lambda>_. False)(0 := True)) k \<or> (\<exists>e \<in> set ?es. Some (re_radio e) \<noteq> radio \<and> rig_number (re_alias e) = Some k))"
    by (simp only: a)
  then have es: "es = map (\<lambda>e. e\<lparr>re_media_index := named_index radio e\<rparr>) ?es"
    and used: "used = (\<lambda>k. k = 0 \<or> (\<exists>e \<in> set ?es. Some (re_radio e) \<noteq> radio \<and> rig_number (re_alias e) = Some k))"
    by auto
  let ?z = "if radio = None then 0 else 1 :: nat"
  have m: "map re_media_index es = map (named_index radio) ?es" unfolding es by simp
  have o: "open_count es = length (filter (\<lambda>e. named_index radio e = 255) ?es)"
    unfolding open_count_def es by (simp add: filter_map comp_def)
  have nm: "named es = {k \<in> named_index radio ` set ?es. k \<noteq> 255}"
    unfolding named_def using m by (metis list.set_map)
  have "\<forall>k \<in> named es. k < 255 \<and> used k"
    unfolding nm used using named_index_range by (auto simp: named_index_def rig_number_alias split: option.splits)
  moreover have "0 \<in> named es \<longrightarrow> ?z = 1" unfolding nm by (auto simp: named_index_range(1))
  moreover have "distinct (filter (\<lambda>k. k \<noteq> 255) (map re_media_index es))" unfolding m by (rule named_index_inj [OF d(2,1)])
  moreover have "card (taken used) + open_count es + ?z \<le> 255"
    unfolding o by (rule set_default_room [OF d(2,1,3) radio used])
  ultimately have "distinct (map re_media_index (assign_rest 1 used es)) \<and>
    (\<forall>k \<in> re_media_index ` set (assign_rest 1 used es). k < 255 \<and> (k \<in> named es \<or> \<not> used k \<or> k = 0 \<and> ?z = 0))"
    by (intro assign_rest_distinct) (auto simp: used)
  with es show ?thesis by blast
qed

section \<open>Every operation keeps the invariant\<close>

lemma set_default_inv [inv_rules]: "reg_inv r \<Longrightarrow> reg_inv (snd (rr_rig_registry_set_default r radio))"
proof (cases "radio \<noteq> None \<and> rr_rig_registry_alias r radio = None")
  case True
  assume "reg_inv r"
  with True show ?thesis by (simp add: rr_rig_registry_set_default_def)
next
  case False
  assume inv: "reg_inv r"
  obtain es used where a: "assign_named radio ((\<lambda>_. False)(0 := True)) (rg_entries r) = (es, used)" by fastforce
  have radio: "radio = None \<or> radio \<in> Some ` re_radio ` set (rg_entries r)"
  proof (cases "radio = None")
    case False
    with \<open>\<not> (radio \<noteq> None \<and> rr_rig_registry_alias r radio = None)\<close> obtain e where "entry_of r radio = Some e"
      by (auto simp: rr_rig_registry_alias_def)
    from entry_of_Some [OF this] show ?thesis by auto
  qed simp
  let ?out = "assign_rest 1 used es"
  note out = set_default_entries [OF inv radio a]
  have frame: "map f ?out = map f (rg_entries r)"
    if "\<And>e i p. f (e\<lparr>re_media_index := i, re_public_alias := p\<rparr>) = f e" "\<And>e p. f (e\<lparr>re_public_alias := p\<rparr>) = f e"
      "\<And>e i. f (e\<lparr>re_media_index := i\<rparr>) = f e" for f :: "rig_entry \<Rightarrow> 'x"
    using assign_rest_frame [of f, OF that(1,2)] out that(3) by (simp add: comp_def)
  have same: "map re_uuid ?out = map re_uuid (rg_entries r)" "map re_alias ?out = map re_alias (rg_entries r)"
    "map re_radio ?out = map re_radio (rg_entries r)" "map re_room ?out = map re_room (rg_entries r)"
    by (rule frame; simp)+
  then have sets: "re_uuid ` set ?out = re_uuid ` set (rg_entries r)" "re_alias ` set ?out = re_alias ` set (rg_entries r)"
    "re_radio ` set ?out = re_radio ` set (rg_entries r)" "re_room ` set ?out = re_room ` set (rg_entries r)"
    "length ?out = length (rg_entries r)"
    using map_eq_image [OF same(1)] map_eq_image [OF same(2)] map_eq_image [OF same(3)] map_eq_image [OF same(4)]
      map_eq_imp_length_eq [OF same(1)] by blast+
  have "reg_inv (r\<lparr>rg_default := radio, rg_entries := ?out\<rparr>)"
  proof (rule reg_invI, goal_cases)
    case (7 e)
    then have "re_radio e \<in> re_radio ` set ?out" by simp
    with sets(3) reg_invD(7) [OF inv] show ?case by auto
  next
    case (8 e)
    then have "re_room e \<in> re_room ` set ?out" by simp
    with sets(4) reg_invD(8) [OF inv] show ?case by auto
  next
    case (6 e)
    then show ?case using assign_rest_public by simp
  qed (use radio out same sets reg_invD [OF inv] in \<open>simp_all, auto\<close>)
  then show ?thesis unfolding rr_rig_registry_set_default_def if_not_P [OF False] a by simp
qed

lemma free_index_spec:
  assumes "length es < 255"
  shows "free_index es < 255 \<and> free_index es \<notin> re_media_index ` set es"
proof -
  have "\<exists>i < 255. i \<notin> re_media_index ` set es"
  proof (rule ccontr)
    assume "\<not> (\<exists>i < 255. i \<notin> re_media_index ` set es)"
    then have "{..<255} \<subseteq> re_media_index ` set es" by auto
    then have "card {..<255 :: nat} \<le> card (re_media_index ` set es)" by (intro card_mono) auto
    also have "\<dots> \<le> length es" by (meson card_image_le card_length finite_set le_trans)
    finally show False using assms by simp
  qed
  then obtain j where j: "find_idx (\<lambda>i. i \<notin> re_media_index ` set es) [0..<255] = Some j"
    by (cases "find_idx (\<lambda>i. i \<notin> re_media_index ` set es) [0..<255]") (auto simp: find_idx_None)
  from find_idx_SomeD [OF this] have "j < length [0..<255]" "[0..<255] ! j \<notin> re_media_index ` set es" by blast+
  then have "j < 255" "[0..<255] ! j \<notin> re_media_index ` set es" by simp_all
  moreover from this nth_upt [of 0 j 255] have "[0..<255] ! j = j" by simp
  ultimately show ?thesis using j by (simp add: free_index_def)
qed

lemma find_uuid_None: "u \<noteq> [] \<Longrightarrow> rr_rig_registry_find_uuid r (Some u) = None \<longleftrightarrow> u \<notin> re_uuid ` set (rg_entries r)"
  by (auto simp: rr_rig_registry_find_uuid_def find_None_iff)

lemma find_alias_None: "a \<noteq> [] \<Longrightarrow> rr_rig_registry_find_alias r (Some a) = None \<longleftrightarrow> a \<notin> re_alias ` set (rg_entries r)"
  by (auto simp: rr_rig_registry_find_alias_def find_None_iff)

lemma registry_add_inv [inv_rules]: "reg_inv r \<Longrightarrow> reg_inv (snd (rr_rig_registry_add r uuid alias bt ok bk))"
proof -
  assume inv: "reg_inv r"
  show ?thesis
  proof (cases "fst (rr_rig_registry_add r uuid alias bt ok bk)")
    case None
    then have "snd (rr_rig_registry_add r uuid alias bt ok bk) = r"
      by (auto simp: rr_rig_registry_add_def Let_def split: option.splits if_splits)
    with inv show ?thesis by simp
  next
    case (Some radio)
    then obtain u a where ua: "uuid = Some u" "alias = Some a" by (auto simp: rr_rig_registry_add_def split: option.splits)
    with Some have c: "rg_count r < 255" "u \<noteq> []" "a \<noteq> []" "rr_rig_registry_find_uuid r (Some u) = None"
      "rr_rig_registry_find_alias r (Some a) = None"
      by (auto simp: rr_rig_registry_add_def split: if_splits)
    from c inv free_index_spec [of "rg_entries r"]
    have f: "free_index (rg_entries r) < 255" "free_index (rg_entries r) \<notin> re_media_index ` set (rg_entries r)"
      by (auto simp: reg_inv_def Let_def)
    have "rg_next r \<notin> re_radio ` set (rg_entries r)" using inv by (auto simp: reg_inv_def Let_def)
    with Some ua c f inv show ?thesis
      by (auto simp: rr_rig_registry_add_def reg_inv_def Let_def find_uuid_None find_alias_None less_Suc_eq split: if_splits)
  qed
qed

lemma drop_entry_inv:
  assumes inv: "reg_inv r" and es: "rg_entries r = pre @ x # post" and d: "rg_default r \<noteq> Some (re_radio x)"
  shows "reg_inv (r\<lparr>rg_entries := pre @ post, rg_count := rg_count r - 1\<rparr>)"
proof (rule reg_invI, goal_cases)
  case (13 k)
  then have "k \<in> re_radio ` set (rg_entries r)" "rg_default r = Some k" using reg_invD(13) [OF inv, of k] by simp_all
  with d es show ?case by auto
qed (use reg_invD(1-12) [OF inv, unfolded es] in auto)

lemma registry_remove_inv [inv_rules]: "reg_inv r \<Longrightarrow> reg_inv (snd (rr_rig_registry_remove r uuid))"
proof -
  assume inv: "reg_inv r"
  have "reg_inv (r\<lparr>rg_entries := take i (rg_entries r) @ drop (i + 1) (rg_entries r), rg_count := rg_count r - 1\<rparr>)"
    if i: "i < length (rg_entries r)" and d: "rg_default r \<noteq> Some (re_radio (rg_entries r ! i))" for i
    using id_take_nth_drop [OF i] by (intro drop_entry_inv [OF inv _ d]) simp
  with inv show ?thesis
    by (auto simp: rr_rig_registry_remove_def split: option.splits dest!: find_idx_SomeD)
qed

lemma registry_set_room_inv [inv_rules]: "reg_inv r \<Longrightarrow> reg_inv (snd (rr_rig_registry_set_room r radio room))"
proof -
  assume inv: "reg_inv r"
  have "reg_inv (r\<lparr>rg_entries := (rg_entries r)[i := (rg_entries r ! i)\<lparr>re_room := s\<rparr>]\<rparr>)"
    if i: "i < length (rg_entries r)" and s: "length s < 128" for i s
  proof -
    let ?out = "(rg_entries r)[i := (rg_entries r ! i)\<lparr>re_room := s\<rparr>]"
    have same: "map re_uuid ?out = map re_uuid (rg_entries r)" "map re_alias ?out = map re_alias (rg_entries r)"
      "map re_radio ?out = map re_radio (rg_entries r)" "map re_media_index ?out = map re_media_index (rg_entries r)"
      by (simp_all add: map_update_same)
    then have sets: "re_uuid ` set ?out = re_uuid ` set (rg_entries r)" "re_alias ` set ?out = re_alias ` set (rg_entries r)"
      "re_radio ` set ?out = re_radio ` set (rg_entries r)" "re_media_index ` set ?out = re_media_index ` set (rg_entries r)"
      using map_eq_image [OF same(1)] map_eq_image [OF same(2)] map_eq_image [OF same(3)] map_eq_image [OF same(4)] by blast+
    have "set ?out \<subseteq> insert ((rg_entries r ! i)\<lparr>re_room := s\<rparr>) (set (rg_entries r))" by (rule set_update_subset_insert)
    then have upd: "e \<in> set ?out \<Longrightarrow> e = (rg_entries r ! i)\<lparr>re_room := s\<rparr> \<or> e \<in> set (rg_entries r)" for e by blast
    note i' = nth_mem [OF i]
    show ?thesis
    proof (rule reg_invI, goal_cases)
      case (5 e)
      with upd i' reg_invD(5) [OF inv] show ?case by fastforce
    next
      case (6 e)
      with upd i' reg_invD(6) [OF inv] show ?case by fastforce
    next
      case (7 e)
      with upd i' reg_invD(7) [OF inv] show ?case by fastforce
    next
      case (8 e)
      with upd s reg_invD(8) [OF inv] show ?case by fastforce
    qed (use reg_invD [OF inv] same sets in \<open>simp_all\<close>)
  qed
  with inv show ?thesis
    by (auto simp: rr_rig_registry_set_room_def split: option.splits dest!: find_idx_SomeD)
qed

section \<open>Runs of the component\<close>

datatype reg_op =
    SetNode cstr
  | AddRig cstr cstr bool bool bool
  | RemoveRig cstr
  | SetDefault "nat option"
  | SetRoom "nat option" cstr

fun reg_step :: "reg_op \<Rightarrow> rig_registry \<Rightarrow> rig_registry" where
  "reg_step (SetNode u) r = snd (rr_rig_registry_set_node r u)"
| "reg_step (AddRig u a bt ok bk) r = snd (rr_rig_registry_add r u a bt ok bk)"
| "reg_step (RemoveRig u) r = snd (rr_rig_registry_remove r u)"
| "reg_step (SetDefault d) r = snd (rr_rig_registry_set_default r d)"
| "reg_step (SetRoom d s) r = snd (rr_rig_registry_set_room r d s)"

lemma set_node_inv [inv_rules]: "reg_inv r \<Longrightarrow> reg_inv (snd (rr_rig_registry_set_node r u))"
  by (auto simp: rr_rig_registry_set_node_def reg_inv_def Let_def)

interpretation registry: machine reg_step reg_inv
proof
  fix r e assume "reg_inv r"
  then show "reg_inv (reg_step e r)" by (cases e) (auto intro: inv_rules)
qed

definition reg_run :: "reg_op list \<Rightarrow> rig_registry" where
  "reg_run ops = fold reg_step ops rr_rig_registry_new"

lemma reg_run_inv: "reg_inv (reg_run ops)"
  unfolding reg_run_def by (rule registry.run_inv) (simp add: reg_inv_def rr_rig_registry_new_def)

text \<open>\<open>add\<close> as an insertion of the entry it creates into the table of UUIDs.\<close>

definition reg_insert :: "rig_entry \<Rightarrow> rig_registry \<Rightarrow> rig_registry option" where
  "reg_insert e r = (case rr_rig_registry_add r (Some (re_uuid e)) (Some (re_alias e)) True True True of
     (None, _) \<Rightarrow> None
   | (Some _, r') \<Rightarrow> if hd (rg_entries r') = e then Some r' else None)"

interpretation rigs: keyed_registry re_uuid rg_entries "\<lambda>r u. List.find (\<lambda>e. re_uuid e = u) (rg_entries r)" reg_insert
proof
  fix e r r' assume a: "reg_insert e r = Some r'"
  then show "List.find (\<lambda>x. re_uuid x = re_uuid e) (rg_entries r) = None"
    by (auto simp: reg_insert_def rr_rig_registry_add_def rr_rig_registry_find_uuid_def find_None_iff Let_def split: if_splits)
  from a show "rg_entries r' = rg_entries r @ [e] \<or> rg_entries r' = e # rg_entries r"
    by (auto simp: reg_insert_def rr_rig_registry_add_def Let_def split: if_splits)
qed simp

lemma entry_of_unique:
  assumes "reg_inv r" "e \<in> set (rg_entries r)"
  shows "entry_of r (Some (re_radio e)) = Some e"
  using find_Some_iff_distinct [OF reg_invD(3) [OF assms(1)], of "re_radio e" e] assms(2) by (simp add: entry_of_def)

section \<open>Properties\<close>

definition demo_ops_reg :: "reg_op list" where
  "demo_ops_reg = [AddRig (Some ''u1'') (Some ''shack'') True True True, AddRig (Some ''u2'') (Some ''rig7'') True True True,
     AddRig (Some ''u3'') (Some ''remote'') True True True]"

text \<open>
  Whatever rigs are added, removed, named default and given rooms, UUIDs, aliases and media
  indexes are unique, every media index fits the wire format and names its public alias, the
  count is that of the list and never exceeds 255, and the default rig is one of the rigs.
\<close>

theorem rig_registry_unique:
  "distinct (map re_uuid (rg_entries (reg_run ops))) \<and> distinct (map re_alias (rg_entries (reg_run ops))) \<and>
   distinct (map re_media_index (rg_entries (reg_run ops))) \<and>
   list_all (\<lambda>e. re_media_index e < 255 \<and> re_public_alias e = rig_alias_of (re_media_index e)) (rg_entries (reg_run ops)) \<and>
   rr_rig_registry_count (reg_run ops) = length (rg_entries (reg_run ops)) \<and> length (rg_entries (reg_run ops)) \<le> 255 \<and>
   set_option (rr_rig_registry_default (reg_run ops)) \<subseteq> re_radio ` set (rg_entries (reg_run ops))"
  using reg_invD [OF reg_run_inv [of ops]]
  by (auto simp: list_all_iff rr_rig_registry_count_def rr_rig_registry_default_def)

text \<open>
  Naming a rig the default gives it media index 0 and the public alias \<open>rig0\<close>, and every other
  rig whose configured alias is \<open>rigN\<close> with \<open>N\<close> between 1 and 254 gets exactly index \<open>N\<close>.
\<close>

theorem rig_default_indexes:
  assumes "rr_rig_registry_set_default (reg_run ops) (Some d) = (False, r)"
  shows "rr_rig_registry_media_index na r (Some d) = 0 \<and> rr_rig_registry_public_alias r (Some d) = Some ''rig0'' \<and>
    (\<forall>e \<in> set (rg_entries r). \<forall>n. re_radio e \<noteq> d \<and> 0 < n \<and> n < 255 \<and> re_alias e = rig_alias_of n \<longrightarrow>
       re_media_index e = n)"
proof -
  let ?r = "reg_run ops"
  from assms have known: "rr_rig_registry_alias ?r (Some d) \<noteq> None"
    by (auto simp: rr_rig_registry_set_default_def split: if_splits)
  then obtain x where "entry_of ?r (Some d) = Some x" by (auto simp: rr_rig_registry_alias_def)
  from entry_of_Some [OF this] have x: "x \<in> set (rg_entries ?r)" "re_radio x = d" by auto
  obtain es used where a: "assign_named (Some d) ((\<lambda>_. False)(0 := True)) (rg_entries ?r) = (es, used)" by fastforce
  have r: "r = ?r\<lparr>rg_default := Some d, rg_entries := assign_rest 1 used es\<rparr>"
    using assms known a by (simp add: rr_rig_registry_set_default_def)
  have es: "es = map (\<lambda>e. e\<lparr>re_media_index := named_index (Some d) e\<rparr>) (rg_entries ?r)"
    using set_default_entries [OF reg_run_inv _ a] x by auto
  have keep: "\<exists>e0 \<in> set es. re_radio e = re_radio e0 \<and> re_alias e = re_alias e0 \<and>
      (re_media_index e0 \<noteq> 255 \<longrightarrow> re_media_index e = re_media_index e0)"
    if "e \<in> set (assign_rest i u es)" for e i u es
    using that by (induction i u es rule: assign_rest.induct) (auto simp: Let_def split: if_splits)
  have idx: "re_media_index e = named_index (Some d) e"
    if e: "e \<in> set (rg_entries r)" and n: "named_index (Some d) e \<noteq> 255" for e
  proof -
    from e r have "e \<in> set (assign_rest 1 used es)" by simp
    from keep [OF this] obtain e0 where e0: "e0 \<in> set es" "re_radio e = re_radio e0" "re_alias e = re_alias e0"
      "re_media_index e0 \<noteq> 255 \<longrightarrow> re_media_index e = re_media_index e0" by blast
    from e0(1) obtain y where y: "e0 = y\<lparr>re_media_index := named_index (Some d) y\<rparr>" unfolding es by auto
    then have "named_index (Some d) y = named_index (Some d) e" using e0 by (simp add: named_index_def)
    with y e0 n show ?thesis by simp
  qed
  have inv: "reg_inv r" using set_default_inv [OF reg_run_inv, of ops "Some d"] assms by simp
  have "map re_radio (rg_entries r) = map re_radio (rg_entries ?r)"
    using assign_rest_frame [of re_radio 1 used es] by (simp add: r es comp_def)
  with x obtain e where e: "e \<in> set (rg_entries r)" "re_radio e = d" by (metis imageE imageI list.set_map)
  then have e_of: "entry_of r (Some d) = Some e" using entry_of_unique [OF inv] by auto
  from idx [OF e(1)] e(2) have z: "re_media_index e = 0" by (simp add: named_index_def)
  with reg_invD(6) [OF inv e(1)] have "re_public_alias e = rig_alias_of 0" by simp
  moreover have "rig_alias_of 0 = ''rig0''" by code_simp
  ultimately have "rr_rig_registry_media_index na r (Some d) = 0 \<and> rr_rig_registry_public_alias r (Some d) = Some ''rig0''"
    using e_of z by (simp add: rr_rig_registry_media_index_def rr_rig_registry_public_alias_def)
  moreover have "re_media_index e = n"
    if "e \<in> set (rg_entries r)" "re_radio e \<noteq> d" "0 < n" "n < 255" "re_alias e = rig_alias_of n" for e n
    using idx [of e] that by (auto simp: named_index_def rig_number_alias [THEN iffD2])
  ultimately show ?thesis by blast
qed

theorem rig_default_indexes_witness:
  "rr_rig_registry_media_index 255 (snd (rr_rig_registry_set_default (reg_run demo_ops_reg) (Some 2))) (Some 2) = 0"
proof -
  let ?s = "rr_rig_registry_set_default (reg_run demo_ops_reg) (Some 2)"
  have "fst ?s = False" by code_simp
  then have "?s = (False, snd ?s)" by (metis prod.collapse)
  from rig_default_indexes [OF this, of 255] show ?thesis by simp
qed

text \<open>
  Public aliases address rigs uniquely: looking up the public alias of any rig gives that rig
  back.
\<close>

theorem rig_public_alias_roundtrip:
  assumes "rr_rig_registry_public_alias (reg_run ops) (Some d) = Some a"
  shows "rr_rig_registry_find_public_alias (reg_run ops) (Some a) = Some d"
proof -
  let ?r = "reg_run ops"
  from assms obtain e where "entry_of ?r (Some d) = Some e" "a = re_public_alias e"
    by (auto simp: rr_rig_registry_public_alias_def)
  with entry_of_Some have e: "e \<in> set (rg_entries ?r)" "re_radio e = d" by fastforce+
  have pub: "\<And>x. x \<in> set (rg_entries ?r) \<Longrightarrow> re_public_alias x = rig_alias_of (re_media_index x)"
    by (rule reg_invD(6) [OF reg_run_inv])
  have "distinct (map re_public_alias (rg_entries ?r))"
    using reg_invD(4) [OF reg_run_inv, of ops] pub by (auto simp: distinct_map inj_on_def)
  from find_Some_iff_distinct [OF this, of a e] e \<open>a = re_public_alias e\<close> show ?thesis
    by (simp add: rr_rig_registry_find_public_alias_def)
qed

theorem rig_public_alias_roundtrip_witness:
  "rr_rig_registry_find_public_alias (reg_run demo_ops_reg) (Some ''rig1'') = Some 1"
  by (rule rig_public_alias_roundtrip) code_simp

end
