(* ===== verification/Hardware.thy ===== *)
theory Hardware
  imports Prelude
begin

text \<open>
  \<^verbatim>\<open>rrserver/hardware.c\<close>: the registry of attached devices and their exclusive leases. A device is
  claimed by one owner through its driver; while it is owned nobody else can claim or release
  it, and a release the driver fails keeps the lease.

  Driver callbacks are functions on the driver's data, returning success, the \<open>errno\<close> they leave
  and the new data; a missing callback is \<^const>\<open>None\<close>. The stored error text is the error code
  \<open>strerror\<close> is applied to. Devices of a registry are addressed by their index.
\<close>

section \<open>State\<close>

type_synonym errno = nat

definition EPERM :: errno where "EPERM = 1"
definition EIO :: errno where "EIO = 5"
definition EBUSY :: errno where "EBUSY = 16"
definition EINVAL :: errno where "EINVAL = 22"
definition ENOTSUP :: errno where "ENOTSUP = 95"

record 'd hw_driver =
  hd_claim :: "('d \<Rightarrow> string \<Rightarrow> bool \<times> errno \<times> 'd) option"
  hd_release :: "('d \<Rightarrow> bool \<times> errno \<times> 'd) option"
  hd_destroy :: "('d \<Rightarrow> 'd) option"

record 'd hw_device =
  hw_id :: string
  hw_kind :: string
  hw_driver_name :: string
  hw_path :: string
  hw_parent :: string
  hw_owner :: cstr
  hw_error :: "errno option"
  hw_api :: "'d hw_driver option"
  hw_data :: 'd

record 'd hw_spec =
  sp_id :: cstr
  sp_kind :: cstr
  sp_driver :: cstr
  sp_path :: cstr
  sp_parent :: cstr
  sp_api :: "'d hw_driver option"
  sp_data :: 'd

section \<open>The registry\<close>

definition rr_hardware_new :: "'d hw_device list" where
  "rr_hardware_new = []"

definition rr_hardware_find :: "'d hw_device list \<Rightarrow> cstr \<Rightarrow> nat option" where
  "rr_hardware_find r ident = (case ident of
     None \<Rightarrow> None
   | Some s \<Rightarrow> find_idx (\<lambda>d. s = hw_id d) r)"

definition nonempty_str :: "cstr \<Rightarrow> bool" where
  "nonempty_str s \<longleftrightarrow> (case s of None \<Rightarrow> False | Some t \<Rightarrow> t \<noteq> [])"

definition str_or_empty :: "cstr \<Rightarrow> string" where
  "str_or_empty s = (case s of None \<Rightarrow> [] | Some t \<Rightarrow> t)"

definition rr_hardware_add :: "'d hw_device list \<Rightarrow> 'd hw_spec \<Rightarrow> nat option \<times> 'd hw_device list" where
  "rr_hardware_add r s =
     (if \<not> nonempty_str (sp_id s) \<or> \<not> nonempty_str (sp_kind s) \<or> \<not> nonempty_str (sp_driver s) \<or>
         rr_hardware_find r (sp_id s) \<noteq> None \<or>
         (nonempty_str (sp_parent s) \<and> rr_hardware_find r (sp_parent s) = None) then (None, r)
      else (Some (length r),
        r @ [\<lparr>hw_id = str_or_empty (sp_id s), hw_kind = str_or_empty (sp_kind s),
              hw_driver_name = str_or_empty (sp_driver s), hw_path = str_or_empty (sp_path s),
              hw_parent = str_or_empty (sp_parent s), hw_owner = None, hw_error = None,
              hw_api = sp_api s, hw_data = sp_data s\<rparr>]))"

definition rr_hardware_count :: "'d hw_device list \<Rightarrow> nat" where
  "rr_hardware_count r = length r"

definition rr_hardware_at :: "'d hw_device list \<Rightarrow> nat \<Rightarrow> 'd hw_device option" where
  "rr_hardware_at r i = (if i < length r then Some (r ! i) else None)"

section \<open>Leases\<close>

definition hw_failed :: "'d hw_device \<Rightarrow> errno \<Rightarrow> bool \<times> 'd hw_device" where
  "hw_failed d code = (False, d\<lparr>hw_error := Some code\<rparr>)"

definition rr_hardware_claim :: "'d hw_device \<Rightarrow> cstr \<Rightarrow> bool \<times> 'd hw_device" where
  "rr_hardware_claim d owner =
     (if \<not> nonempty_str owner then hw_failed d EINVAL
      else if hw_owner d \<noteq> None then hw_failed d EBUSY
      else case hw_api d of
        None \<Rightarrow> hw_failed d ENOTSUP
      | Some api \<Rightarrow> (case hd_claim api of
          None \<Rightarrow> hw_failed d ENOTSUP
        | Some claim \<Rightarrow> (case claim (hw_data d) (the owner) of
            (ok, e, data) \<Rightarrow>
              (if \<not> ok then hw_failed (d\<lparr>hw_data := data\<rparr>) (if e \<noteq> 0 then e else EIO)
               else (True, d\<lparr>hw_data := data, hw_owner := owner, hw_error := None\<rparr>)))))"

definition rr_hardware_release :: "'d hw_device \<Rightarrow> cstr \<Rightarrow> bool \<times> 'd hw_device" where
  "rr_hardware_release d owner =
     (if owner = None \<or> hw_owner d = None \<or> owner \<noteq> hw_owner d then hw_failed d EPERM
      else case hw_api d of
        None \<Rightarrow> hw_failed d EIO
      | Some api \<Rightarrow> (case hd_release api of
          None \<Rightarrow> hw_failed d EIO
        | Some release \<Rightarrow> (case release (hw_data d) of
            (ok, e, data) \<Rightarrow>
              (if \<not> ok then hw_failed (d\<lparr>hw_data := data\<rparr>) (if e \<noteq> 0 then e else EIO)
               else (True, d\<lparr>hw_data := data, hw_owner := None, hw_error := None\<rparr>)))))"

text \<open>Freeing the registry: what is called on each device, last device first.\<close>

datatype hw_call = Released string | Destroyed string

definition free_device :: "'d hw_device \<Rightarrow> hw_call list" where
  "free_device d =
     (if hw_owner d \<noteq> None \<and> (\<exists>api \<in> set_option (hw_api d). hd_release api \<noteq> None) then [Released (hw_id d)] else []) @
     (if \<exists>api \<in> set_option (hw_api d). hd_destroy api \<noteq> None then [Destroyed (hw_id d)] else [])"

definition rr_hardware_free :: "'d hw_device list \<Rightarrow> hw_call list" where
  "rr_hardware_free r = concat (map free_device (rev r))"

section \<open>Invariant of the registry\<close>

text \<open>Identifiers are unique, and a device's parent was added before it.\<close>

definition hw_inv :: "'d hw_device list \<Rightarrow> bool" where
  "hw_inv r \<longleftrightarrow> distinct (map hw_id r) \<and> [] \<notin> hw_id ` set r \<and>
     (\<forall>i < length r. hw_parent (r ! i) \<noteq> [] \<longrightarrow> (\<exists>j < i. hw_id (r ! j) = hw_parent (r ! i)))"

lemma hw_add_inv [inv_rules]: "hw_inv r \<Longrightarrow> hw_inv (snd (rr_hardware_add r s))"
proof -
  assume inv: "hw_inv r"
  show ?thesis
  proof (cases "fst (rr_hardware_add r s)")
    case None
    then have "snd (rr_hardware_add r s) = r" by (auto simp: rr_hardware_add_def split: if_splits)
    with inv show ?thesis by simp
  next
    case (Some k)
    then have ok: "nonempty_str (sp_id s)" "rr_hardware_find r (sp_id s) = None"
      "nonempty_str (sp_parent s) \<Longrightarrow> rr_hardware_find r (sp_parent s) \<noteq> None"
      by (auto simp: rr_hardware_add_def split: if_splits)
    have parent: "\<exists>j < length r. hw_id (r ! j) = str_or_empty (sp_parent s)" if "str_or_empty (sp_parent s) \<noteq> []"
      using that ok(3) by (cases "sp_parent s")
        (auto simp: str_or_empty_def nonempty_str_def rr_hardware_find_def in_set_conv_nth)
    have fresh: "str_or_empty (sp_id s) \<notin> hw_id ` set r" "str_or_empty (sp_id s) \<noteq> []"
      using ok(1,2) by (auto simp: nonempty_str_def str_or_empty_def rr_hardware_find_def split: option.splits)
    define d where "d = last (snd (rr_hardware_add r s))"
    have d: "snd (rr_hardware_add r s) = r @ [d]" "hw_id d = str_or_empty (sp_id s)" "hw_parent d = str_or_empty (sp_parent s)"
      using Some by (auto simp: d_def rr_hardware_add_def split: if_splits)
    have "\<exists>j < i. hw_id ((r @ [d]) ! j) = hw_parent ((r @ [d]) ! i)"
      if i: "i < length (r @ [d])" and p: "hw_parent ((r @ [d]) ! i) \<noteq> []" for i
    proof (cases "i < length r")
      case True
      with inv p obtain j where "j < i" "hw_id (r ! j) = hw_parent (r ! i)" by (auto simp: hw_inv_def nth_append)
      with True show ?thesis by (intro exI [of _ j]) (simp add: nth_append)
    next
      case False
      with i have "i = length r" by simp
      with p d parent obtain j where "j < length r" "hw_id (r ! j) = hw_parent d" by (auto simp: nth_append)
      with \<open>i = length r\<close> show ?thesis by (intro exI [of _ j]) (simp add: nth_append)
    qed
    with inv fresh d show ?thesis by (auto simp: hw_inv_def)
  qed
qed

text \<open>Claims and releases through the registry change neither names nor parents.\<close>

lemma lease_frame [frame_simps]:
  "hw_id (snd (rr_hardware_claim d o1)) = hw_id d" "hw_parent (snd (rr_hardware_claim d o1)) = hw_parent d"
  "hw_id (snd (rr_hardware_release d o1)) = hw_id d" "hw_parent (snd (rr_hardware_release d o1)) = hw_parent d"
  "hw_api (snd (rr_hardware_claim d o1)) = hw_api d" "hw_api (snd (rr_hardware_release d o1)) = hw_api d"
  by (auto simp: rr_hardware_claim_def rr_hardware_release_def hw_failed_def split: option.splits prod.splits)

lemma hw_update_inv:
  assumes "hw_inv r" "hw_id d = hw_id (r ! i)" "hw_parent d = hw_parent (r ! i)"
  shows "hw_inv (r[i := d])"
proof -
  have ids: "map hw_id (r[i := d]) = map hw_id r" using assms(2) by (rule map_update_same)
  have nth: "hw_id (r[i := d] ! k) = hw_id (r ! k)" "hw_parent (r[i := d] ! k) = hw_parent (r ! k)" for k
    using assms(2,3) by (metis list_update_beyond not_le nth_list_update)+
  show ?thesis
    using assms(1) ids map_eq_image [OF ids] by (simp add: hw_inv_def nth)
qed

datatype 'd hw_op = HwAdd "'d hw_spec" | HwClaim nat cstr | HwRelease nat cstr

fun hw_step :: "'d hw_op \<Rightarrow> 'd hw_device list \<Rightarrow> 'd hw_device list" where
  "hw_step (HwAdd s) r = snd (rr_hardware_add r s)"
| "hw_step (HwClaim i owner) r = (if i < length r then r[i := snd (rr_hardware_claim (r ! i) owner)] else r)"
| "hw_step (HwRelease i owner) r = (if i < length r then r[i := snd (rr_hardware_release (r ! i) owner)] else r)"

interpretation hardware: machine hw_step hw_inv
proof
  fix r :: "'d hw_device list" and e :: "'d hw_op" assume "hw_inv r"
  then show "hw_inv (hw_step e r)"
    by (cases e) (auto simp: frame_simps intro: inv_rules hw_update_inv)
qed

definition hw_run :: "'d hw_op list \<Rightarrow> 'd hw_device list" where
  "hw_run ops = fold hw_step ops rr_hardware_new"

lemma hw_run_inv: "hw_inv (hw_run ops)"
  unfolding hw_run_def by (rule hardware.run_inv) (simp add: hw_inv_def rr_hardware_new_def)

section \<open>Exclusivity\<close>

text \<open>What a sequence of requests answers: the requests with whether each succeeded.\<close>

fun hw_ok :: "'d hw_op \<Rightarrow> 'd hw_device list \<Rightarrow> bool" where
  "hw_ok (HwAdd s) r = (fst (rr_hardware_add r s) \<noteq> None)"
| "hw_ok (HwClaim i owner) r = (i < length r \<and> fst (rr_hardware_claim (r ! i) owner))"
| "hw_ok (HwRelease i owner) r = (i < length r \<and> fst (rr_hardware_release (r ! i) owner))"

fun hw_trace :: "'d hw_op list \<Rightarrow> 'd hw_device list \<Rightarrow> ('d hw_op \<times> bool) list" where
  "hw_trace [] r = []"
| "hw_trace (op # ops) r = (op, hw_ok op r) # hw_trace ops (hw_step op r)"

lemma length_hw_trace [simp]: "length (hw_trace ops r) = length ops"
  by (induction ops arbitrary: r) auto

definition held :: "nat \<Rightarrow> string \<Rightarrow> 'd hw_device list \<Rightarrow> bool" where
  "held k a r \<longleftrightarrow> k < length r \<and> hw_owner (r ! k) = Some a"

lemma claim_holds: "hw_ok (HwClaim k (Some a)) r \<Longrightarrow> held k a (hw_step (HwClaim k (Some a)) r)"
  by (auto simp: held_def rr_hardware_claim_def hw_failed_def split: if_splits option.splits prod.splits)

lemma held_only_owner:
  assumes "held k a r" "hw_ok op r" "op = HwClaim k b \<or> op = HwRelease k b"
  shows "op = HwRelease k (Some a)"
  using assms by (auto simp: held_def rr_hardware_claim_def rr_hardware_release_def hw_failed_def split: if_splits)

lemma refused_keeps_owner:
  "\<not> fst (rr_hardware_claim d b) \<Longrightarrow> hw_owner (snd (rr_hardware_claim d b)) = hw_owner d"
  "\<not> fst (rr_hardware_release d b) \<Longrightarrow> hw_owner (snd (rr_hardware_release d b)) = hw_owner d"
  by (auto simp: rr_hardware_claim_def rr_hardware_release_def hw_failed_def split: option.splits prod.splits if_splits)

lemma held_step:
  assumes "held k a r" "(op, hw_ok op r) \<noteq> (HwRelease k (Some a), True)"
  shows "held k a (hw_step op r)"
proof (cases op)
  case (HwAdd s)
  with assms(1) show ?thesis by (auto simp: held_def rr_hardware_add_def nth_append)
next
  case (HwClaim i b)
  have "i = k \<Longrightarrow> \<not> fst (rr_hardware_claim (r ! k) b)" using assms(1) held_only_owner [OF assms(1), of op b] HwClaim by (auto simp: held_def)
  with HwClaim assms(1) show ?thesis by (auto simp: held_def nth_list_update refused_keeps_owner)
next
  case (HwRelease i b)
  have "i = k \<Longrightarrow> \<not> fst (rr_hardware_release (r ! k) b)"
    using assms held_only_owner [OF assms(1), of op b] HwRelease by (auto simp: held_def)
  with HwRelease assms(1) show ?thesis by (auto simp: held_def nth_list_update refused_keeps_owner)
qed

lemma trace_shift: "m < j \<Longrightarrow> hw_trace ops (hw_step x r) ! m = y \<Longrightarrow> \<exists>n < Suc j. hw_trace (x # ops) r ! n = y"
  by (intro exI [of _ "Suc m"]) simp

lemma trace_shift2: "m < j \<Longrightarrow> hw_trace ops (hw_step x r) ! m = y \<Longrightarrow> i < Suc m \<Longrightarrow> \<exists>n > i. n < Suc j \<and> hw_trace (x # ops) r ! n = y"
  by (intro exI [of _ "Suc m"]) simp

lemma held_until_released:
  assumes "held k a r" "j < length ops" "hw_trace ops r ! j = (op, True)" "op = HwClaim k b \<or> op = HwRelease k b"
  shows "(\<exists>m < j. hw_trace ops r ! m = (HwRelease k (Some a), True)) \<or> op = HwRelease k (Some a)"
  using assms
proof (induction ops arbitrary: r j)
  case (Cons x xs)
  show ?case
  proof (cases j)
    case 0
    with Cons.prems held_only_owner [OF Cons.prems(1)] show ?thesis by auto
  next
    case (Suc j')
    show ?thesis
    proof (cases "(x, hw_ok x r) = (HwRelease k (Some a), True)")
      case True
      then have "hw_trace (x # xs) r ! 0 = (HwRelease k (Some a), True)" by auto
      with Suc show ?thesis by blast
    next
      case False
      from Cons.IH [OF held_step [OF Cons.prems(1) False], of j'] Cons.prems(2-4) Suc
      show ?thesis by (auto intro: trace_shift)
    qed
  qed
qed simp

section \<open>Properties\<close>

definition demo_driver :: "nat hw_driver" where
  "demo_driver = \<lparr>hd_claim = Some (\<lambda>n s. (True, 0, n + 1)), hd_release = Some (\<lambda>n. (n \<noteq> 1, 0, n + 1)),
     hd_destroy = None\<rparr>"

definition demo_spec :: "string \<Rightarrow> string \<Rightarrow> nat hw_spec" where
  "demo_spec i p = \<lparr>sp_id = Some i, sp_kind = Some ''sdr'', sp_driver = Some ''demo'', sp_path = None,
     sp_parent = Some p, sp_api = Some demo_driver, sp_data = 0\<rparr>"

text \<open>
  C39. A lease is exclusive. In any run of additions, claims and releases on any devices, after a successful claim of
  a device the next claim or release of that device that succeeds is a release by the owner that claimed it: between two claims that succeed
  there is a release by the first owner that succeeded, and a release that is refused or that the driver fails frees nothing.
\<close>

theorem hardware_lease_exclusive:
  assumes "i < j" "j < length ops" "hw_trace ops r ! i = (HwClaim k (Some a), True)"
    and "hw_trace ops r ! j = (op, True)" "op = HwClaim k b \<or> op = HwRelease k b"
  shows "(\<exists>m. i < m \<and> m < j \<and> hw_trace ops r ! m = (HwRelease k (Some a), True)) \<or> op = HwRelease k (Some a)"
  using assms
proof (induction ops arbitrary: r i j)
  case (Cons x xs)
  obtain j' where j: "j = Suc j'" using Cons.prems(1) by (cases j) auto
  show ?case
  proof (cases i)
    case 0
    with Cons.prems(3) have "held k a (hw_step x r)" using claim_holds [of k a r] by auto
    from held_until_released [OF this, of j' xs op b] Cons.prems(2,4,5) j 0 show ?thesis by (auto intro: trace_shift2)
  next
    case (Suc i')
    with Cons.IH [of i' j' "hw_step x r"] Cons.prems j show ?thesis by (auto intro: trace_shift2)
  qed
qed simp

definition demo_hw_ops :: "nat hw_op list" where
  "demo_hw_ops = [HwAdd (demo_spec ''si5351'' ''''), HwClaim 0 (Some ''a''), HwClaim 0 (Some ''b''), HwRelease 0 (Some ''b''),
     HwRelease 0 (Some ''a''), HwClaim 0 (Some ''c'')]"

lemma demo_results: "map snd (hw_trace demo_hw_ops rr_hardware_new) = [True, True, False, False, False, False]"
  by code_simp

definition demo_free_driver :: "nat hw_driver" where
  "demo_free_driver = demo_driver\<lparr>hd_release := Some (\<lambda>n. (True, 0, n))\<rparr>"

definition demo_hw_ops_free :: "nat hw_op list" where
  "demo_hw_ops_free = HwAdd ((demo_spec ''si5351'' '''')\<lparr>sp_api := Some demo_free_driver\<rparr>) # tl demo_hw_ops"

lemma demo_results_free: "map snd (hw_trace demo_hw_ops_free rr_hardware_new) = [True, True, False, False, True, True]"
  by code_simp

lemma demo_requests: "hw_trace ops r = zip ops (map snd (hw_trace ops r))"
  by (induction ops arbitrary: r) auto

theorem hardware_lease_exclusive_witness:
  "\<exists>m. 1 < m \<and> m < 5 \<and> hw_trace demo_hw_ops_free rr_hardware_new ! m = (HwRelease 0 (Some ''a''), True)"
proof -
  have demo_len: "length demo_hw_ops_free = 6" by (simp add: demo_hw_ops_free_def demo_hw_ops_def)
  have t: "hw_trace demo_hw_ops_free rr_hardware_new ! n = (demo_hw_ops_free ! n, [True, True, False, False, True, True] ! n)" if "n < 6" for n
    using that demo_results_free by (subst demo_requests) (simp add: demo_len)
  have ops: "demo_hw_ops_free ! 1 = HwClaim 0 (Some ''a'')" "demo_hw_ops_free ! 5 = HwClaim 0 (Some ''c'')" by (simp_all add: demo_hw_ops_free_def demo_hw_ops_def)
  have c: "hw_trace demo_hw_ops_free rr_hardware_new ! 1 = (HwClaim 0 (Some ''a''), True)"
    "hw_trace demo_hw_ops_free rr_hardware_new ! 5 = (HwClaim 0 (Some ''c''), True)"
    using t [of 1] t [of 5] ops by simp_all
  have "5 < length demo_hw_ops_free" by (simp add: demo_hw_ops_free_def demo_hw_ops_def)
  from hardware_lease_exclusive [OF _ this c(1) c(2), of "Some ''c''"] show ?thesis by simp
qed

text \<open>
  A release is accepted exactly when the owner asks and the driver succeeds, and only then is
  the device free again; a refused or failed release keeps the lease and records an error.
\<close>

theorem hardware_release_keeps_lease:
  "(case rr_hardware_release d (Some a) of (ok, d') \<Rightarrow>
     ok = (hw_owner d = Some a \<and>
       (\<exists>api release. hw_api d = Some api \<and> hd_release api = Some release \<and> fst (release (hw_data d)))) \<and>
     (if ok then hw_owner d' = None \<and> hw_error d' = None else hw_owner d' = hw_owner d \<and> hw_error d' \<noteq> None))"
  by (auto simp: rr_hardware_release_def hw_failed_def split: option.splits prod.splits if_splits)

text \<open>
  Whatever devices are added and leased, identifiers stay unique and a device's parent
  always comes before it, so that freeing the registry in reverse order never releases or
  destroys a parent before its children.
\<close>

theorem hardware_parents_first:
  "distinct (map hw_id (hw_run ops)) \<and>
   list_all (\<lambda>i. hw_parent (hw_run ops ! i) = [] \<or>
       list_ex (\<lambda>j. hw_id (hw_run ops ! j) = hw_parent (hw_run ops ! i)) [0..<i])
     [0..<length (hw_run ops)] \<and>
   rr_hardware_free (hw_run ops) = concat (map (\<lambda>i. free_device (hw_run ops ! i)) (rev [0..<length (hw_run ops)]))"
proof -
  let ?r = "hw_run ops"
  have "map (\<lambda>i. free_device (?r ! i)) [0..<length ?r] = map free_device ?r" by (rule nth_equalityI) auto
  then have free: "rr_hardware_free ?r = concat (map (\<lambda>i. free_device (?r ! i)) (rev [0..<length ?r]))"
    by (simp only: rr_hardware_free_def rev_map [symmetric])
  have inv: "hw_inv ?r" by (rule hw_run_inv)
  then have parents: "\<forall>i < length ?r. hw_parent (?r ! i) \<noteq> [] \<longrightarrow> (\<exists>j < i. hw_id (?r ! j) = hw_parent (?r ! i))"
    by (simp add: hw_inv_def)
  show ?thesis
    unfolding free using inv parents by (auto simp: hw_inv_def list_all_iff list_ex_iff)
qed

end
