(* ===== verification/PlatformControls.thy ===== *)
theory PlatformControls
  imports Prelude
begin

text \<open>
  \<^verbatim>\<open>rrserver/platform.controls.c\<close>: the exported, typed controls of a server node. A control has
  a fixed name, a reader and perhaps a writer; a client may set it only to a value the reader's
  current range and step allow.

  Readers and writers act on a hardware state, a type parameter. \<open>backlight\<close> is what the controls use of the LCD
  backlight, and \<open>sysfs_backlight\<close> the code of \<^verbatim>\<open>platform.backlight.c\<close> on Linux over the files of
  \<^verbatim>\<open>/sys/class/backlight\<close>, whose record can be extended by the hardware of other controls. C \<open>int\<close> values are integers, and
  the one difference the code forms wraps as \<open>int_sub\<close> says.
\<close>

section \<open>State\<close>

record 's platform_control =
  pc_name :: cstr
  pc_label :: cstr
  pc_unit :: cstr
  pc_privilege :: cstr
  pc_minimum :: int
  pc_maximum :: int
  pc_step :: int
  pc_read :: "('s \<Rightarrow> bool \<times> int \<times> int \<times> int) option"
  pc_write :: "('s \<Rightarrow> int \<Rightarrow> bool \<times> 's) option"

record platform_control_state =
  cs_name :: string
  cs_label :: string
  cs_unit :: string
  cs_privilege :: string
  cs_current :: int
  cs_minimum :: int
  cs_maximum :: int
  cs_step :: int
  cs_writable :: bool

record 's platform =
  pl_controls :: "'s platform_control list"
  pl_defaults :: bool
  pl_hw :: 's

text \<open>The backlight: the outcome and the current, minimum and maximum level, for a request or \<open>-1\<close>.\<close>

record 's backlight =
  bl_control :: "int \<Rightarrow> 's \<Rightarrow> bool \<times> (int \<times> int \<times> int) \<times> 's"
  bl_writable :: "'s \<Rightarrow> bool"

definition MAX_PLATFORM_CONTROLS :: nat where
  "MAX_PLATFORM_CONTROLS = 64"

section \<open>Operations\<close>

definition valid_name :: "cstr \<Rightarrow> bool" where
  "valid_name name = (case name of
     None \<Rightarrow> False
   | Some s \<Rightarrow> s \<noteq> [] \<and> length s \<le> 63 \<and> list_all (\<lambda>c. is_alnum c \<or> c \<in> set ''._-'') s)"

definition rrserver_platform_control_register :: "'s platform \<Rightarrow> 's platform_control \<Rightarrow> bool \<times> 's platform" where
  "rrserver_platform_control_register p c =
     (if \<not> valid_name (pc_name c) \<or> pc_label c = None \<or> pc_read c = None \<or>
         length (pl_controls p) \<ge> MAX_PLATFORM_CONTROLS \<or> pc_step c < 0 \<or>
         (pc_minimum c > pc_maximum c \<and> pc_maximum c \<noteq> 0) then (False, p)
      else if list_ex (\<lambda>d. pc_name d = pc_name c) (pl_controls p) then (False, p)
      else (True, p\<lparr>pl_controls := pl_controls p @ [c]\<rparr>))"

definition backlight_read :: "'s backlight \<Rightarrow> 's \<Rightarrow> bool \<times> int \<times> int \<times> int" where
  "backlight_read bl s = (case bl_control bl (- 1) s of (ok, (cur, mn, mx), _) \<Rightarrow> (ok, cur, mn, mx))"

definition backlight_write :: "'s backlight \<Rightarrow> 's \<Rightarrow> int \<Rightarrow> bool \<times> 's" where
  "backlight_write bl s value = (case bl_control bl value s of (ok, _, s') \<Rightarrow> (ok, s'))"

definition brightness_control :: "'s backlight \<Rightarrow> 's platform_control" where
  "brightness_control bl =
     \<lparr>pc_name = Some ''display.brightness'', pc_label = Some ''LCD Brightness'', pc_unit = Some ''level'',
      pc_privilege = Some ''platform.display.write'', pc_minimum = 0, pc_maximum = 0, pc_step = 1,
      pc_read = Some (backlight_read bl), pc_write = Some (backlight_write bl)\<rparr>"

definition register_defaults :: "'s backlight \<Rightarrow> 's platform \<Rightarrow> 's platform" where
  "register_defaults bl p =
     (if pl_defaults p then p
      else snd (rrserver_platform_control_register (p\<lparr>pl_defaults := True\<rparr>) (brightness_control bl)))"

definition find_control :: "'s backlight \<Rightarrow> 's platform \<Rightarrow> cstr \<Rightarrow> 's platform_control option \<times> 's platform" where
  "find_control bl p name =
     (if \<not> valid_name name then (None, p)
      else let p' = register_defaults bl p in (List.find (\<lambda>c. pc_name c = name) (pl_controls p'), p'))"

text \<open>The difference of two C \<open>int\<close> values.\<close>

definition int_sub :: "int \<Rightarrow> int \<Rightarrow> int" where
  "int_sub a b = signed_take_bit 31 (a - b)"

text \<open>\<open>snprintf\<close> into the fixed fields truncates.\<close>

definition control_snapshot :: "'s backlight \<Rightarrow> 's \<Rightarrow> 's platform_control \<Rightarrow> platform_control_state option" where
  "control_snapshot bl s c = (case pc_read c of
     None \<Rightarrow> None
   | Some read \<Rightarrow> (case read s of (ok, current, minimum, maximum) \<Rightarrow>
       (if \<not> ok \<or> maximum < minimum \<or> current < 0 then None
        else Some \<lparr>cs_name = take 63 (case pc_name c of Some n \<Rightarrow> n | None \<Rightarrow> []),
                   cs_label = take 127 (case pc_label c of Some l \<Rightarrow> l | None \<Rightarrow> []),
                   cs_unit = take 31 (case pc_unit c of Some u \<Rightarrow> u | None \<Rightarrow> []),
                   cs_privilege = take 63 (case pc_privilege c of Some pr \<Rightarrow> pr | None \<Rightarrow> ''owner|admin''),
                   cs_current = current, cs_minimum = minimum, cs_maximum = maximum,
                   cs_step = (if pc_step c > 0 then pc_step c else 1),
                   cs_writable = (pc_write c \<noteq> None \<and>
                     (pc_name c \<noteq> Some ''display.brightness'' \<or> bl_writable bl s))\<rparr>)))"

definition rrserver_platform_control_get ::
    "'s backlight \<Rightarrow> 's platform \<Rightarrow> cstr \<Rightarrow> platform_control_state option \<times> 's platform" where
  "rrserver_platform_control_get bl p name = (case find_control bl p name of
     (None, p') \<Rightarrow> (None, p')
   | (Some c, p') \<Rightarrow> (control_snapshot bl (pl_hw p') c, p'))"

definition rrserver_platform_control_set ::
    "'s backlight \<Rightarrow> 's platform \<Rightarrow> cstr \<Rightarrow> int \<Rightarrow> platform_control_state option \<times> 's platform" where
  "rrserver_platform_control_set bl p name value = (case find_control bl p name of
     (None, p') \<Rightarrow> (None, p')
   | (Some c, p') \<Rightarrow> (case pc_write c of
       None \<Rightarrow> (None, p')
     | Some write \<Rightarrow> (case control_snapshot bl (pl_hw p') c of
         None \<Rightarrow> (None, p')
       | Some current \<Rightarrow>
           (if value < cs_minimum current \<or> value > cs_maximum current \<or>
               int_sub value (cs_minimum current) mod cs_step current \<noteq> 0 then (None, p')
            else (case write (pl_hw p') value of
              (ok, hw) \<Rightarrow>
                (if \<not> ok then (None, p'\<lparr>pl_hw := hw\<rparr>)
                 else (control_snapshot bl hw c, p'\<lparr>pl_hw := hw\<rparr>)))))))"

text \<open>\<open>visit\<close> returns whether to stop and its own new state.\<close>

fun visit_controls :: "'s backlight \<Rightarrow> 's \<Rightarrow> (platform_control_state \<Rightarrow> 'u \<Rightarrow> bool \<times> 'u) \<Rightarrow> 's platform_control list
    \<Rightarrow> 'u \<Rightarrow> 'u" where
  "visit_controls bl s visit [] u = u"
| "visit_controls bl s visit (c # cs) u = (case control_snapshot bl s c of
     None \<Rightarrow> visit_controls bl s visit cs u
   | Some st \<Rightarrow> (case visit st u of (stop, u') \<Rightarrow> if stop then u' else visit_controls bl s visit cs u'))"

definition rrserver_platform_control_foreach ::
    "'s backlight \<Rightarrow> 's platform \<Rightarrow> (platform_control_state \<Rightarrow> 'u \<Rightarrow> bool \<times> 'u) \<Rightarrow> 'u \<Rightarrow> 'u \<times> 's platform" where
  "rrserver_platform_control_foreach bl p visit u =
     (let p' = register_defaults bl p in (visit_controls bl (pl_hw p') visit (pl_controls p') u, p'))"

section \<open>The backlight\<close>

text \<open>
  The configuration (\<open>sy_device\<close>, \<open>sy_minimum\<close>) and the directory of backlights: the names in it, the number an attribute
  of a device reads as, whether the brightness of a device may be written (\<open>access\<close> and \<open>open\<close> agree, as the server has one
  identity), and which devices fail in spite of that.
\<close>

record sysfs =
  sy_device :: cstr
  sy_minimum :: int
  sy_entries :: "string list option"
  sy_number :: "string \<Rightarrow> string \<Rightarrow> int option"
  sy_may_write :: "string \<Rightarrow> bool"
  sy_fails :: "string \<Rightarrow> bool"

text \<open>Without a configured name, the device is taken only if there is exactly one.\<close>

definition auto_device :: "'e sysfs_scheme \<Rightarrow> string option" where
  "auto_device s = (case sy_entries s of
     None \<Rightarrow> None
   | Some es \<Rightarrow> (case filter (\<lambda>d. take 1 d \<noteq> ''.'') es of [d] \<Rightarrow> if length d < 64 then Some d else None | _ \<Rightarrow> None))"

definition backlight_device :: "'e sysfs_scheme \<Rightarrow> string option" where
  "backlight_device s = (case sy_device s of
     Some d \<Rightarrow> (if d \<noteq> [] then (if length d > 63 \<or> hd d = CHR ''.'' \<or> \<not> list_all (\<lambda>c. is_alnum c \<or> c \<in> set ''_-.'') d then None else Some d)
                else auto_device s)
   | None \<Rightarrow> auto_device s)"

definition read_number :: "'e sysfs_scheme \<Rightarrow> string \<Rightarrow> string \<Rightarrow> int option" where
  "read_number s device attr = (case sy_number s device attr of
     None \<Rightarrow> None
   | Some n \<Rightarrow> if 0 \<le> n \<and> n \<le> 2147483647 then Some n else None)"

definition rrserver_backlight_writable :: "'e sysfs_scheme \<Rightarrow> bool" where
  "rrserver_backlight_writable s = (case backlight_device s of None \<Rightarrow> False | Some d \<Rightarrow> sy_may_write s d)"

definition rrserver_backlight_control :: "int \<Rightarrow> 'e sysfs_scheme \<Rightarrow> bool \<times> (int \<times> int \<times> int) \<times> 'e sysfs_scheme" where
  "rrserver_backlight_control requested s = (case backlight_device s of
     None \<Rightarrow> (False, (0, 0, 0), s)
   | Some d \<Rightarrow> (case read_number s d ''max_brightness'' of
       None \<Rightarrow> (False, (0, 0, 0), s)
     | Some maximum \<Rightarrow>
         if maximum < 1 then (False, (0, 0, maximum), s)
         else let minimum = min (max (sy_minimum s) 1) maximum in
           if 0 \<le> requested \<and> (requested < minimum \<or> requested > maximum \<or> \<not> sy_may_write s d \<or> sy_fails s d)
           then (False, (0, minimum, maximum), s)
           else let s' = (if 0 \<le> requested then s\<lparr>sy_number := (sy_number s)(d := (sy_number s d)(''brightness'' := Some requested))\<rparr> else s) in
             (case read_number s' d ''brightness'' of
                None \<Rightarrow> (False, (0, minimum, maximum), s')
              | Some current \<Rightarrow> (True, (current, minimum, maximum), s'))))"

definition sysfs_backlight :: "'e sysfs_scheme backlight" where
  "sysfs_backlight = \<lparr>bl_control = rrserver_backlight_control, bl_writable = rrserver_backlight_writable\<rparr>"

section \<open>Invariant\<close>

definition platform_inv :: "'s platform \<Rightarrow> bool" where
  "platform_inv p \<longleftrightarrow> distinct (map pc_name (pl_controls p)) \<and> length (pl_controls p) \<le> MAX_PLATFORM_CONTROLS \<and>
     (\<forall>c \<in> set (pl_controls p). valid_name (pc_name c) \<and> pc_read c \<noteq> None \<and> 0 \<le> pc_step c)"

lemma register_inv [inv_rules]: "platform_inv p \<Longrightarrow> platform_inv (snd (rrserver_platform_control_register p c))"
  by (auto simp: rrserver_platform_control_register_def platform_inv_def list_ex_iff)

lemma defaults_inv [inv_rules]: "platform_inv p \<Longrightarrow> platform_inv (register_defaults bl p)"
proof -
  assume "platform_inv p"
  then have "platform_inv (p\<lparr>pl_defaults := True\<rparr>)" by (simp add: platform_inv_def)
  with \<open>platform_inv p\<close> show ?thesis by (simp add: register_defaults_def register_inv)
qed

lemma find_control_inv: "platform_inv p \<Longrightarrow> platform_inv (snd (find_control bl p name))"
  by (simp add: find_control_def Let_def defaults_inv)

lemma hw_irrelevant [simp]: "platform_inv (p\<lparr>pl_hw := s\<rparr>) = platform_inv p"
  by (simp add: platform_inv_def)

lemma set_inv [inv_rules]: "platform_inv p \<Longrightarrow> platform_inv (snd (rrserver_platform_control_set bl p name v))"
  using find_control_inv [of p bl name]
  by (auto simp: rrserver_platform_control_set_def split: prod.splits option.splits)

lemma get_inv [inv_rules]: "platform_inv p \<Longrightarrow> platform_inv (snd (rrserver_platform_control_get bl p name))"
  using find_control_inv [of p bl name]
  by (auto simp: rrserver_platform_control_get_def split: prod.splits option.splits)

datatype 's pc_op = PcRegister "'s platform_control" | PcGet cstr | PcSet cstr int

fun pc_op_step :: "'s backlight \<Rightarrow> 's pc_op \<Rightarrow> 's platform \<Rightarrow> 's platform" where
  "pc_op_step bl (PcRegister c) p = snd (rrserver_platform_control_register p c)"
| "pc_op_step bl (PcGet name) p = snd (rrserver_platform_control_get bl p name)"
| "pc_op_step bl (PcSet name v) p = snd (rrserver_platform_control_set bl p name v)"

interpretation platform: machine "pc_op_step bl" platform_inv for bl :: "'s backlight"
proof
  fix p :: "'s platform" and e :: "'s pc_op" assume "platform_inv p"
  then show "platform_inv (pc_op_step bl e p)" by (cases e) (auto intro: inv_rules)
qed

text \<open>Registration as an insertion into the table of names: a registered control is never replaced.\<close>

definition pc_insert :: "'s platform_control \<Rightarrow> 's platform \<Rightarrow> 's platform option" where
  "pc_insert c p = (case rrserver_platform_control_register p c of (ok, p') \<Rightarrow> if ok then Some p' else None)"

interpretation pc_table: keyed_registry pc_name pl_controls "\<lambda>p n. List.find (\<lambda>c. pc_name c = n) (pl_controls p)" pc_insert
  by unfold_locales
     (auto simp: pc_insert_def rrserver_platform_control_register_def list_ex_iff find_None_iff split: if_splits)

section \<open>Properties\<close>



lemma defaults_hw [simp]: "pl_hw (register_defaults bl p) = pl_hw p"
  by (auto simp: register_defaults_def rrserver_platform_control_register_def)






definition demo_sysfs :: "bool \<Rightarrow> sysfs" where
  "demo_sysfs w = \<lparr>sy_device = None, sy_minimum = 0, sy_entries = Some [''.'', ''acpi''],
     sy_number = (\<lambda>d. [''max_brightness'' \<mapsto> 10, ''brightness'' \<mapsto> 3]), sy_may_write = (\<lambda>d. w), sy_fails = (\<lambda>d. False)\<rparr>"

definition demo_platform :: "bool \<Rightarrow> sysfs platform" where
  "demo_platform w = \<lparr>pl_controls = [], pl_defaults = False, pl_hw = demo_sysfs w\<rparr>"

lemma demo_controls: "pl_controls (register_defaults bl (demo_platform w)) = [brightness_control bl]"
  by (simp add: register_defaults_def rrserver_platform_control_register_def demo_platform_def brightness_control_def
      valid_name_def MAX_PLATFORM_CONTROLS_def is_alnum_def is_digit_def is_lower_def is_upper_def chr_ord_def)


lemma demo_set: "map_option cs_current (fst (rrserver_platform_control_set sysfs_backlight (demo_platform True)
    (Some ''display.brightness'') 7)) = Some 7"
  by code_simp

text \<open>
  Whatever is registered, read and set, control names stay unique and valid, there are at
  most 64 controls, and a control once registered under a name is the one found under it.
\<close>

theorem platform_names_stable:
  assumes "platform_inv p" "List.find (\<lambda>c. pc_name c = n) (pl_controls p) = Some c"
  shows "platform_inv (fold (pc_op_step bl) ops p) \<and>
    List.find (\<lambda>c. pc_name c = n) (pl_controls (fold (pc_op_step bl) ops p)) = Some c"
proof -
  have keep: "List.find (\<lambda>c. pc_name c = n) (pl_controls (pc_op_step bl e q)) = Some c"
    if f: "List.find (\<lambda>c. pc_name c = n) (pl_controls q) = Some c" for e q
  proof -
    have reg: "List.find (\<lambda>c. pc_name c = n) (pl_controls (snd (rrserver_platform_control_register q' d))) = Some c"
      if "List.find (\<lambda>c. pc_name c = n) (pl_controls q') = Some c" for q' d
      using that by (auto simp: rrserver_platform_control_register_def find_append)
    then have def: "List.find (\<lambda>c. pc_name c = n) (pl_controls (register_defaults bl q)) = Some c"
      using f by (simp add: register_defaults_def)
    have ctl: "pl_controls (snd (find_control bl q m)) \<in> {pl_controls q, pl_controls (register_defaults bl q)}" for m
      by (simp add: find_control_def Let_def)
    show ?thesis
    proof (cases e)
      case (PcRegister d)
      with reg f show ?thesis by simp
    next
      case (PcGet m)
      have "pl_controls (pc_op_step bl e q) = pl_controls (snd (find_control bl q m))"
        using PcGet by (auto simp: rrserver_platform_control_get_def split: prod.splits option.splits)
      with ctl [of m] f def show ?thesis by auto
    next
      case (PcSet m v)
      have "pl_controls (pc_op_step bl e q) = pl_controls (snd (find_control bl q m))"
        using PcSet by (auto simp: rrserver_platform_control_set_def split: prod.splits option.splits)
      with ctl [of m] f def show ?thesis by auto
    qed
  qed
  have "List.find (\<lambda>c. pc_name c = n) (pl_controls (fold (pc_op_step bl) ops p)) = Some c"
    using assms(2) by (induction ops arbitrary: p) (auto simp: keep)
  with platform.run_inv [OF assms(1), of bl ops] show ?thesis by blast
qed

theorem platform_names_stable_witness:
  "platform_inv (fold (pc_op_step sysfs_backlight) [PcSet (Some ''display.brightness'') 4]
     (register_defaults sysfs_backlight (demo_platform True)))"
proof -
  have i: "platform_inv (register_defaults sysfs_backlight (demo_platform True))"
    by (intro defaults_inv) (simp add: platform_inv_def demo_platform_def)
  have f: "List.find (\<lambda>c. pc_name c = Some ''display.brightness'') (pl_controls (register_defaults sysfs_backlight (demo_platform True)))
      = Some (brightness_control sysfs_backlight)"
    by (simp add: demo_controls) (simp add: brightness_control_def)
  from platform_names_stable [OF i f] show ?thesis by blast
qed

end
