(* ===== verification/PttControl.thy ===== *)
theory PttControl
  imports Prelude
begin

text \<open>
  \<^verbatim>\<open>rrserver/ptt.c\<close>, with \<open>rr_ptt_apply\<close> of \<^verbatim>\<open>rrserver/backend.c\<close>: who may key the transmitter, the
  interlocks that stop it, the queue of requests a backend worker has not confirmed yet, the
  talk timeout and the forced release.

  Rigs, clients and VFOs are numbers. \<open>ptt_env\<close> is what the code asks of the rest of the server at
  one call: configuration, rig registry, database and backend. \<open>ps_trace\<close> is the list of
  commands given to radios, oldest first; it is what safety is about. \<open>rr_ptt_request\<close> is split into
  \<open>request_on\<close> and \<open>request_off\<close>, the two values of its argument. Recording files, the audit log,
  credit warnings and broadcasts to clients are not modelled; allocation succeeds.
\<close>

section \<open>State\<close>

datatype ptt_cmd =
    Apply nat nat bool  \<comment> \<open>\<open>rr_ptt_apply\<close> on rig, VFO, state\<close>
  | Submit nat nat bool \<comment> \<open>queued to the rig's worker\<close>

fun keys_down :: "ptt_cmd \<Rightarrow> bool" where
  "keys_down (Apply r v on) = on"
| "keys_down (Submit r v on) = on"

record ptt_pending =
  pp_id :: nat
  pp_rig :: nat
  pp_owner :: "nat option"
  pp_vfo :: nat
  pp_state :: bool
  pp_superseded :: bool

record ptt_state =
  ps_tx_blocked :: bool
  ps_accounting_locked :: bool
  ps_stop_pending :: bool
  ps_retry_at :: nat
  ps_tot_time :: nat
  ps_talker :: "nat option"
  ps_rig :: "nat option"
  ps_pending :: "ptt_pending list"
  ps_session :: "nat \<Rightarrow> nat option" \<comment> \<open>the owner of a VFO's open accounting session\<close>
  ps_row :: "nat \<Rightarrow> bool" \<comment> \<open>a client's \<open>ptt_session\<close> names a session\<close>
  ps_next :: nat
  ps_trace :: "ptt_cmd list"

record ptt_env =
  pe_now :: nat
  pe_max_vfos :: nat
  pe_default_rig :: "nat option"
  pe_halted :: "nat option \<Rightarrow> bool"
  pe_strict :: bool
  pe_db_open :: bool
  pe_quota_enforce :: bool
  pe_credits :: "nat \<Rightarrow> int"
  pe_tot :: nat
  pe_worker :: "nat \<Rightarrow> bool"
  pe_vfo_exists :: "nat \<Rightarrow> nat \<Rightarrow> bool"
  pe_vfo_supported :: "nat \<Rightarrow> nat \<Rightarrow> bool"
  pe_set_fails :: "nat \<Rightarrow> nat \<Rightarrow> bool \<Rightarrow> bool"
  pe_submit_fails :: "nat \<Rightarrow> nat \<Rightarrow> bool \<Rightarrow> bool"
  pe_session_fails :: bool
  pe_write_fails :: bool

section \<open>Interlocks\<close>

definition rr_ptt_accounting_locked :: "ptt_state \<Rightarrow> bool" where
  "rr_ptt_accounting_locked s = ps_accounting_locked s"

definition rr_ptt_check_blocked :: "ptt_state \<Rightarrow> bool" where
  "rr_ptt_check_blocked s = (ps_tx_blocked s \<or> ps_accounting_locked s)"

definition rr_ptt_set_blocked :: "bool \<Rightarrow> ptt_state \<Rightarrow> ptt_state" where
  "rr_ptt_set_blocked blocked s = s\<lparr>ps_tx_blocked := blocked\<rparr>"

definition accounting_failed :: "ptt_env \<Rightarrow> ptt_state \<Rightarrow> ptt_state" where
  "accounting_failed env s =
     (if ps_accounting_locked s \<or> \<not> pe_strict env then s
      else s\<lparr>ps_accounting_locked := True, ps_stop_pending := True\<rparr>)"

section \<open>Requests\<close>

definition target_rig :: "ptt_env \<Rightarrow> ptt_state \<Rightarrow> nat option" where
  "target_rig env s = (case ps_rig s of Some r \<Rightarrow> Some r | None \<Rightarrow> pe_default_rig env)"

definition emit :: "ptt_cmd \<Rightarrow> ptt_state \<Rightarrow> ptt_state" where
  "emit c s = s\<lparr>ps_trace := ps_trace s @ [c]\<rparr>"

text \<open>\<open>rr_ptt_apply\<close>: \<^const>\<open>True\<close> is failure. The radio is reached only when it is not halted.\<close>

definition rr_ptt_apply :: "ptt_env \<Rightarrow> nat \<Rightarrow> bool \<Rightarrow> ptt_state \<Rightarrow> bool \<times> ptt_state" where
  "rr_ptt_apply env vfo state s = (case target_rig env s of
     None \<Rightarrow> (True, s)
   | Some r \<Rightarrow>
       (if (state \<and> pe_halted env (Some r)) \<or> \<not> pe_vfo_exists env r vfo then (True, s)
        else (pe_set_fails env r vfo state, emit (Apply r vfo state) s)))"

definition ptt_log_start :: "ptt_env \<Rightarrow> nat option \<Rightarrow> nat \<Rightarrow> ptt_state \<Rightarrow> ptt_state" where
  "ptt_log_start env talker vfo s =
     (if talker = None \<or> \<not> pe_db_open env \<or> ps_session s vfo \<noteq> None then s
      else let s' = (if pe_write_fails env then accounting_failed env s else s) in
        if pe_session_fails env then s' else s'\<lparr>ps_session := (ps_session s')(vfo := talker), ps_row := (ps_row s')(the talker := True)\<rparr>)"

text \<open>
  A session is closed for its VFO; where the VFO has none, the fallback is the session the talker has opened last.
\<close>

definition ptt_log_stop :: "ptt_env \<Rightarrow> nat option \<Rightarrow> nat \<Rightarrow> ptt_state \<Rightarrow> ptt_state" where
  "ptt_log_stop env talker0 vfo s =
     (if \<not> pe_db_open env then s
      else let talker = (if talker0 = None then ps_session s vfo else talker0);
               session = (ps_session s vfo \<noteq> None \<or> (\<exists>c \<in> set_option talker. ps_row s c));
               s1 = s\<lparr>ps_session := (ps_session s)(vfo := None)\<rparr> in
        if \<not> session then s1
        else let s2 = s1\<lparr>ps_row := (\<lambda>c. ps_row s1 c \<and> talker \<noteq> Some c)\<rparr> in
          if pe_write_fails env then accounting_failed env s2 else s2)"

text \<open>\<open>completing\<close> is \<open>completing_ptt\<close> with its \<open>failed\<close> flag, while a worker's answer is applied.\<close>

definition ptt_talker :: "(ptt_pending \<times> bool) option \<Rightarrow> ptt_state \<Rightarrow> nat option" where
  "ptt_talker completing s = (case completing of Some (p, _) \<Rightarrow> pp_owner p | None \<Rightarrow> ps_talker s)"

definition supersede :: "nat \<Rightarrow> nat \<Rightarrow> ptt_pending list \<Rightarrow> ptt_pending list" where
  "supersede r vfo ps =
     map (\<lambda>p. if pp_rig p = r \<and> pp_vfo p = vfo \<and> pp_state p then p\<lparr>pp_superseded := True\<rparr> else p) ps"

definition enqueue :: "nat \<Rightarrow> nat \<Rightarrow> bool \<Rightarrow> ptt_state \<Rightarrow> ptt_state" where
  "enqueue r vfo state s =
     (let p = \<lparr>pp_id = ps_next s, pp_rig = r, pp_owner = ps_talker s, pp_vfo = vfo,
               pp_state = state, pp_superseded = False\<rparr> in
      emit (Submit r vfo state) (s\<lparr>ps_pending := p # ps_pending s, ps_next := ps_next s + 1\<rparr>))"

definition request_off :: "ptt_env \<Rightarrow> nat \<Rightarrow> (ptt_pending \<times> bool) option \<Rightarrow> ptt_state \<Rightarrow> bool \<times> ptt_state" where
  "request_off env vfo completing s =
     (if vfo \<ge> pe_max_vfos env then (True, s)
      else case (target_rig env s, completing) of
        (Some r, None) \<Rightarrow>
          (if pe_worker env r then
             (case List.find (\<lambda>p. pp_rig p = r \<and> pp_vfo p = vfo) (ps_pending s) of
                Some p \<Rightarrow>
                  (if \<not> pp_state p then (False, s)
                   else if \<not> pe_vfo_exists env r vfo \<or> pe_submit_fails env r vfo False then (True, s)
                   else (False, enqueue r vfo False (s\<lparr>ps_pending := supersede r vfo (ps_pending s)\<rparr>)))
              | None \<Rightarrow>
                  (if \<not> pe_vfo_exists env r vfo \<or> pe_submit_fails env r vfo False then (True, s)
                   else (False, enqueue r vfo False (s\<lparr>ps_pending := supersede r vfo (ps_pending s)\<rparr>))))
           else (case rr_ptt_apply env vfo False s of
             (failed, s') \<Rightarrow>
               (if failed then (True, s') else (False, ptt_log_stop env (ps_talker s') vfo (s'\<lparr>ps_tot_time := 0\<rparr>)))))
      | (None, None) \<Rightarrow> (True, s)
      | (_, Some (p, failed)) \<Rightarrow>
          (if failed then (True, s) else (False, ptt_log_stop env (pp_owner p) vfo (s\<lparr>ps_tot_time := 0\<rparr>))))"

fun all_off_loop :: "ptt_env \<Rightarrow> (ptt_pending \<times> bool) option \<Rightarrow> nat option \<Rightarrow> nat list \<Rightarrow> ptt_state \<Rightarrow> bool \<times> ptt_state" where
  "all_off_loop env completing radio [] s = (False, s)"
| "all_off_loop env completing radio (i # is) s =
     (if \<exists>r \<in> set_option radio. \<not> (pe_vfo_exists env r i \<and> pe_vfo_supported env r i) then all_off_loop env completing radio is s
      else (case request_off env i completing s of (bad, s') \<Rightarrow>
        (case all_off_loop env completing radio is s' of (failed, s'') \<Rightarrow> (bad \<or> failed, s''))))"

text \<open>While an answer is being applied the nested releases take that answer's result too, as the code's do.\<close>

definition rr_ptt_set_all_off_reason :: "ptt_env \<Rightarrow> (ptt_pending \<times> bool) option \<Rightarrow> ptt_state \<Rightarrow> bool \<times> ptt_state" where
  "rr_ptt_set_all_off_reason env completing s =
     (case all_off_loop env completing (target_rig env s) [0..<pe_max_vfos env] s of
        (failed, s') \<Rightarrow>
          (failed, if failed then s' else s'\<lparr>ps_tot_time := 0, ps_talker := None\<rparr>))"

text \<open>What \<open>rr_ptt_request\<close> does once the radio has answered a key-down.\<close>

definition key_down_result :: "ptt_env \<Rightarrow> nat \<Rightarrow> (ptt_pending \<times> bool) option \<Rightarrow> bool \<times> ptt_state \<Rightarrow> bool \<times> ptt_state" where
  "key_down_result env vfo completing res =
     (case res of (failed, s1) \<Rightarrow>
       (if failed then (True, ptt_log_stop env (ptt_talker completing s1) vfo s1)
        else let s2 = ptt_log_start env (ptt_talker completing s1) vfo s1 in
          if ps_accounting_locked s2 then (True, snd (rr_ptt_set_all_off_reason env completing s2))
          else (False, s2\<lparr>ps_tot_time := pe_now env + pe_tot env\<rparr>)))"

definition request_on :: "ptt_env \<Rightarrow> nat \<Rightarrow> (ptt_pending \<times> bool) option \<Rightarrow> ptt_state \<Rightarrow> bool \<times> ptt_state" where
  "request_on env vfo completing s0 =
     (if vfo \<ge> pe_max_vfos env then (True, s0)
      else let s = (if pe_strict env \<and> \<not> pe_db_open env then accounting_failed env s0 else s0) in
        if pe_halted env (target_rig env s) then (True, s)
        else if rr_ptt_check_blocked s then (True, s)
        else if pe_quota_enforce env \<and> pe_db_open env \<and> (\<exists>c \<in> set_option (ps_talker s). pe_credits env c \<le> 0)
          then (True, s)
        else if completing = None \<and> (\<exists>r \<in> set_option (target_rig env s). pe_worker env r) then
          (let r = the (target_rig env s) in
           if list_ex (\<lambda>p. \<not> pp_state p \<and> pp_rig p \<noteq> r) (ps_pending s) then (True, s)
           else if \<not> pe_vfo_exists env r vfo \<or> pe_submit_fails env r vfo True then (True, s)
           else (False, enqueue r vfo True s))
        else
          key_down_result env vfo completing
            (case completing of Some (_, failed) \<Rightarrow> (failed, s) | None \<Rightarrow> rr_ptt_apply env vfo True s))"

definition rr_ptt_request :: "ptt_env \<Rightarrow> nat \<Rightarrow> bool \<Rightarrow> (ptt_pending \<times> bool) option \<Rightarrow> ptt_state \<Rightarrow> bool \<times> ptt_state" where
  "rr_ptt_request env vfo ptt completing s =
     (if ptt then request_on env vfo completing s else request_off env vfo completing s)"

definition rr_ptt_set_reason :: "ptt_env \<Rightarrow> nat \<Rightarrow> bool \<Rightarrow> ptt_state \<Rightarrow> bool \<times> ptt_state" where
  "rr_ptt_set_reason env vfo ptt s =
     (case rr_ptt_request env vfo ptt None s of (rejected, s') \<Rightarrow> (if rejected then False else ptt, s'))"

section \<open>Worker answers and events\<close>

definition ptt_worker_closed :: "ptt_env \<Rightarrow> nat \<Rightarrow> ptt_state \<Rightarrow> ptt_state" where
  "ptt_worker_closed env client s =
     fold (\<lambda>i s. if ps_session s i = Some client then ptt_log_stop env (Some client) i s else s) [0..<pe_max_vfos env]
       (s\<lparr>ps_pending := map (\<lambda>p. if pp_owner p = Some client
            then p\<lparr>pp_owner := None, pp_superseded := pp_superseded p \<or> pp_state p\<rparr> else p) (ps_pending s)\<rparr>)"

text \<open>\<open>RR_BACKEND_PTT false\<close> queued without a completion, whether or not the worker takes it.\<close>

definition submit_release :: "ptt_pending \<Rightarrow> ptt_state \<Rightarrow> ptt_state" where
  "submit_release p s = emit (Submit (pp_rig p) (pp_vfo p) False) s"

definition ptt_worker_completed :: "ptt_env \<Rightarrow> bool \<Rightarrow> ptt_pending \<Rightarrow> bool \<Rightarrow> ptt_state \<Rightarrow> ptt_state" where
  "ptt_worker_completed env dying p failed s0 =
     (let s = s0\<lparr>ps_pending := filter (\<lambda>q. pp_id q \<noteq> pp_id p) (ps_pending s0)\<rparr> in
      if dying \<or> pp_superseded p then s
      else if pp_state p \<and> (pp_owner p = None \<or> ps_talker s \<noteq> pp_owner p \<or> ps_rig s \<noteq> Some (pp_rig p))
        then submit_release p s
      else (case rr_ptt_request env (pp_vfo p) (pp_state p) (Some (p, failed)) (s\<lparr>ps_rig := Some (pp_rig p)\<rparr>) of
        (rejected, s1) \<Rightarrow>
          (let s2 = s1\<lparr>ps_rig := ps_rig s\<rparr> in
           if rejected \<and> pp_state p then
             (let s3 = submit_release p s2 in if ps_talker s3 = pp_owner p then s3\<lparr>ps_talker := None\<rparr> else s3)
           else if rejected then rr_ptt_set_blocked True (s2\<lparr>ps_stop_pending := True\<rparr>)
           else s2)))"

definition accounting_poll :: "ptt_env \<Rightarrow> nat \<Rightarrow> ptt_state \<Rightarrow> ptt_state" where
  "accounting_poll env at s =
     (if \<not> ps_stop_pending s \<or> (ps_retry_at s \<noteq> 0 \<and> at < ps_retry_at s) then s
      else (case rr_ptt_set_all_off_reason env None s of
        (failed, s') \<Rightarrow> s'\<lparr>ps_stop_pending := failed, ps_retry_at := if failed then at + 1000000 else 0\<rparr>))"

text \<open>
  The transmit checks of \<open>timer_clock_tick_fn\<close> (\<^verbatim>\<open>rrserver/timer.clocktick.c\<close>); \<open>hot\<close> is \<open>are_we_on_fire()\<close>. The tick of the
  supervision before them, \<open>rrserver_supervision_tick\<close>, is in \<open>Supervision\<close>: a client it stops is a \<open>Request\<close> event before the \<open>Tick\<close>.
\<close>

definition timer_clock_tick :: "ptt_env \<Rightarrow> bool \<Rightarrow> ptt_state \<Rightarrow> ptt_state" where
  "timer_clock_tick env hot s0 =
     (let s = (if hot then rr_ptt_set_blocked True (snd (rr_ptt_set_all_off_reason env None s0)) else s0) in
      if ps_tot_time s > 0 \<and> ps_tot_time s \<le> pe_now env
      then (snd (rr_ptt_set_all_off_reason env None s))\<lparr>ps_tot_time := 0\<rparr> else s)"

section \<open>Runs\<close>

datatype ptt_event =
    Request nat bool
  | Completed nat bool bool \<comment> \<open>the worker's answer to a pending request: its id, failed, server dying\<close>
  | Closed nat
  | AllOff
  | WriteFailed
  | Poll nat
  | Tick bool
  | SetBlocked bool
  | Talk "nat option"
  | SelectRig "nat option"

fun ptt_step :: "ptt_env \<times> ptt_event \<Rightarrow> ptt_state \<Rightarrow> ptt_state" where
  "ptt_step (env, Request vfo ptt) s = snd (rr_ptt_request env vfo ptt None s)"
| "ptt_step (env, Completed i failed dying) s =
     (case List.find (\<lambda>p. pp_id p = i) (ps_pending s) of
        None \<Rightarrow> s
      | Some p \<Rightarrow> ptt_worker_completed env dying p failed s)"
| "ptt_step (env, Closed c) s = ptt_worker_closed env c s"
| "ptt_step (env, AllOff) s = snd (rr_ptt_set_all_off_reason env None s)"
| "ptt_step (env, WriteFailed) s = accounting_failed env s"
| "ptt_step (env, Poll at) s = accounting_poll env at s"
| "ptt_step (env, Tick hot) s = timer_clock_tick env hot s"
| "ptt_step (env, SetBlocked b) s = rr_ptt_set_blocked b s"
| "ptt_step (env, Talk t) s = s\<lparr>ps_talker := t\<rparr>"
| "ptt_step (env, SelectRig r) s = s\<lparr>ps_rig := r\<rparr>"

definition ptt_init :: ptt_state where
  "ptt_init = \<lparr>ps_tx_blocked = False, ps_accounting_locked = False, ps_stop_pending = False, ps_retry_at = 0,
     ps_tot_time = 0, ps_talker = None, ps_rig = None, ps_pending = [], ps_session = (\<lambda>_. None), ps_row = (\<lambda>_. False), ps_next = 0, ps_trace = []\<rparr>"

section \<open>Interlocked means silent\<close>

text \<open>From \<open>s\<close> to \<open>s'\<close> only releases were sent and no interlock was lifted.\<close>

definition silent :: "ptt_state \<Rightarrow> ptt_state \<Rightarrow> bool" where
  "silent s s' \<longleftrightarrow> (\<exists>cs. ps_trace s' = ps_trace s @ cs \<and> list_all (\<lambda>c. \<not> keys_down c) cs) \<and>
     (ps_accounting_locked s \<longrightarrow> ps_accounting_locked s') \<and> (ps_tx_blocked s \<longrightarrow> ps_tx_blocked s')"

lemma silent_refl [simp]: "silent s s"
  by (simp add: silent_def)

lemma silent_trans: "silent s t \<Longrightarrow> silent t u \<Longrightarrow> silent s u"
  by (auto simp: silent_def)

lemma silent_same: "ps_trace s' = ps_trace s \<Longrightarrow> ps_accounting_locked s' = ps_accounting_locked s \<Longrightarrow>
    ps_tx_blocked s' = ps_tx_blocked s \<Longrightarrow> silent s s'"
  by (simp add: silent_def)

lemma silent_emit: "\<not> keys_down c \<Longrightarrow> silent s (emit c s)"
  by (simp add: silent_def emit_def)

lemma silent_accounting_failed: "silent s (accounting_failed env s)"
  by (simp add: silent_def accounting_failed_def)

lemma silent_log_stop: "silent s (ptt_log_stop env t v s)"
  by (auto simp: silent_def ptt_log_stop_def accounting_failed_def Let_def)

lemma silent_log_start: "silent s (ptt_log_start env t v s)"
  by (auto simp: silent_def ptt_log_start_def accounting_failed_def Let_def)

lemma silent_stop_tot: "silent s (ptt_log_stop env w v (s\<lparr>ps_tot_time := t\<rparr>))"
  by (rule silent_trans [OF _ silent_log_stop]) (simp add: silent_def)

lemma silent_apply_off: "silent s (snd (rr_ptt_apply env v False s))"
  by (auto simp: rr_ptt_apply_def silent_emit split: option.split)

lemma silent_enqueue_off: "silent s (enqueue r v False (s\<lparr>ps_pending := ps\<rparr>))"
  by (simp add: enqueue_def emit_def silent_def Let_def)

lemma silent_request_off: "silent s (snd (request_off env v completing s))"
proof -
  have "silent s (ptt_log_stop env w v (s'\<lparr>ps_tot_time := 0\<rparr>))" if "rr_ptt_apply env v False s = (False, s')" for s' w
    using silent_apply_off [of s env v] that by (auto intro: silent_trans [OF _ silent_stop_tot])
  moreover have "silent s s'" if "rr_ptt_apply env v False s = (True, s')" for s'
    using silent_apply_off [of s env v] that by simp
  ultimately show ?thesis
    by (auto simp: request_off_def silent_enqueue_off silent_stop_tot split: option.splits prod.splits)
qed

lemma silent_all_off_loop: "silent s (snd (all_off_loop env completing radio is s))"
proof (induction "is" arbitrary: s)
  case (Cons i "is")
  from silent_request_off [of s env i completing] Cons.IH [of "snd (request_off env i completing s)"]
  show ?case using Cons.IH [of s] by (auto split: prod.splits intro: silent_trans)
qed simp

lemma silent_all_off: "silent s (snd (rr_ptt_set_all_off_reason env completing s))"
  using silent_all_off_loop [of s env completing "target_rig env s" "[0..<pe_max_vfos env]"]
  by (auto simp: rr_ptt_set_all_off_reason_def silent_def split: prod.splits)

lemma silent_request_on_blocked:
  assumes "rr_ptt_check_blocked s"
  shows "silent s (snd (request_on env v completing s)) \<and> (v < pe_max_vfos env \<longrightarrow> fst (request_on env v completing s))"
proof -
  let ?s = "if pe_strict env \<and> \<not> pe_db_open env then accounting_failed env s else s"
  have "rr_ptt_check_blocked ?s"
    using assms by (auto simp: rr_ptt_check_blocked_def accounting_failed_def)
  moreover have "silent s ?s" by (simp add: silent_accounting_failed)
  ultimately show ?thesis by (simp add: request_on_def Let_def)
qed

lemma silent_request_blocked: "rr_ptt_check_blocked s \<Longrightarrow> silent s (snd (rr_ptt_request env v ptt completing s))"
  by (simp add: rr_ptt_request_def silent_request_off silent_request_on_blocked)

lemma silent_completed:
  assumes "rr_ptt_check_blocked s"
  shows "silent s (ptt_worker_completed env dying p failed s)"
proof -
  let ?s = "s\<lparr>ps_pending := filter (\<lambda>q. pp_id q \<noteq> pp_id p) (ps_pending s)\<rparr>"
  let ?t = "?s\<lparr>ps_rig := Some (pp_rig p)\<rparr>"
  have "silent s ?s" "silent s ?t" "rr_ptt_check_blocked ?t" using assms by (simp_all add: silent_def rr_ptt_check_blocked_def)
  then have r: "silent s (snd (rr_ptt_request env (pp_vfo p) (pp_state p) (Some (p, failed)) ?t))"
    by (blast intro: silent_trans silent_request_blocked)
  have off: "silent t (submit_release p t)" for t by (simp add: submit_release_def silent_emit)
  have "silent s u" if "silent s t" "ps_trace u = ps_trace t" "ps_accounting_locked u = ps_accounting_locked t"
    "ps_tx_blocked u = ps_tx_blocked t \<or> ps_tx_blocked u" for t u
    using that by (auto simp: silent_def)
  note keep = this
  from r show ?thesis
    unfolding ptt_worker_completed_def Let_def
    by (auto simp: \<open>silent s ?s\<close> submit_release_def emit_def rr_ptt_set_blocked_def split: prod.splits
        intro: keep, auto simp: silent_def)
qed

lemma silent_tick: "silent s (timer_clock_tick env hot s)"
proof -
  let ?s = "if hot then rr_ptt_set_blocked True (snd (rr_ptt_set_all_off_reason env None s)) else s"
  have "silent s ?s" using silent_all_off [of s env None] by (auto simp: rr_ptt_set_blocked_def silent_def)
  moreover have "silent ?s ((snd (rr_ptt_set_all_off_reason env None ?s))\<lparr>ps_tot_time := 0\<rparr>)"
    using silent_all_off [of ?s env None] by (simp add: silent_def)
  ultimately show ?thesis by (auto simp: timer_clock_tick_def Let_def intro: silent_trans)
qed

lemma silent_closed: "silent s (ptt_worker_closed env c s)"
proof -
  have "silent t (fold (\<lambda>i s. if ps_session s i = Some c then ptt_log_stop env (Some c) i s else s) is t)" for "is" t
  proof (induction "is" arbitrary: t)
    case (Cons i "is")
    then show ?case using silent_log_stop silent_trans by (simp; blast)
  qed simp
  note loop = this
  show ?thesis unfolding ptt_worker_closed_def by (rule silent_trans [OF _ loop]) (simp add: silent_def)
qed

lemma silent_step:
  assumes "rr_ptt_check_blocked s" "snd ev \<noteq> SetBlocked False \<or> ps_accounting_locked s"
  shows "(\<exists>cs. ps_trace (ptt_step ev s) = ps_trace s @ cs \<and> list_all (\<lambda>c. \<not> keys_down c) cs) \<and>
    (ps_accounting_locked s \<longrightarrow> ps_accounting_locked (ptt_step ev s)) \<and> rr_ptt_check_blocked (ptt_step ev s)"
proof (cases "snd ev = SetBlocked False")
  case True
  with assms show ?thesis by (cases ev) (auto simp: rr_ptt_set_blocked_def rr_ptt_check_blocked_def)
next
  case False
  have "silent s (ptt_step ev s)"
  proof (cases ev)
    case (Pair env e)
    show ?thesis
    proof (cases e)
      case (SetBlocked b)
      with False Pair show ?thesis by (simp add: rr_ptt_set_blocked_def silent_def)
    next
      case (Poll at)
      with Pair silent_all_off [of s env None] show ?thesis
        by (auto simp: accounting_poll_def silent_def split: prod.splits)
    qed (use Pair assms(1) in \<open>auto simp: silent_request_blocked silent_closed silent_all_off silent_accounting_failed
          silent_tick silent_completed intro: silent_same split: option.split\<close>)
  qed
  with assms(1) show ?thesis by (auto simp: silent_def rr_ptt_check_blocked_def)
qed

definition interlock_events :: "(ptt_env \<times> ptt_event) list \<Rightarrow> bool" where
  "interlock_events evs \<longleftrightarrow> list_all (\<lambda>ev. snd ev \<noteq> SetBlocked False) evs"

lemma silent_run:
  "rr_ptt_check_blocked s \<Longrightarrow> ps_accounting_locked s \<or> interlock_events evs \<Longrightarrow>
     \<exists>cs. ps_trace (fold ptt_step evs s) = ps_trace s @ cs \<and> list_all (\<lambda>c. \<not> keys_down c) cs"
proof (induction evs arbitrary: s)
  case (Cons ev evs)
  from Cons.prems(2) have "snd ev \<noteq> SetBlocked False \<or> ps_accounting_locked s" by (auto simp: interlock_events_def)
  from silent_step [OF Cons.prems(1) this] Cons.prems(2) obtain cs where
    cs: "ps_trace (ptt_step ev s) = ps_trace s @ cs" "list_all (\<lambda>c. \<not> keys_down c) cs"
    and b: "rr_ptt_check_blocked (ptt_step ev s)" "ps_accounting_locked (ptt_step ev s) \<or> interlock_events evs"
    by (auto simp: interlock_events_def)
  from Cons.IH [OF b] cs show ?case by auto
qed simp

text \<open>
  C1. Interlocked means silent. Once transmission is blocked or the accounting lock is set, no sequence of
  requests, worker answers, disconnects, ticks, polls, talker and rig changes sends a radio a key-down command:
  everything appended to the trace is a release. The hardware block holds until something unblocks it; the
  accounting lock holds even then.
\<close>

theorem ptt_interlock_silent:
  assumes "rr_ptt_check_blocked s" "rr_ptt_accounting_locked s \<or> interlock_events evs"
  shows "\<exists>cs. ps_trace (fold ptt_step evs s) = ps_trace s @ cs \<and> list_all (\<lambda>c. \<not> keys_down c) cs"
  using silent_run assms by (simp add: rr_ptt_accounting_locked_def)

definition demo_env :: ptt_env where
  "demo_env = \<lparr>pe_now = 1000, pe_max_vfos = 2, pe_default_rig = Some 0, pe_halted = (\<lambda>_. False), pe_strict = True,
     pe_db_open = True, pe_quota_enforce = True, pe_credits = (\<lambda>_. 60), pe_tot = 300, pe_worker = (\<lambda>r. r = 1),
     pe_vfo_exists = (\<lambda>_ _. True), pe_vfo_supported = (\<lambda>_ _. True), pe_set_fails = (\<lambda>_ _ _. False),
     pe_submit_fails = (\<lambda>_ _ _. False), pe_session_fails = False, pe_write_fails = False\<rparr>"

definition demo_locked :: ptt_state where
  "demo_locked = fold ptt_step [(demo_env, Talk (Some 7)), (demo_env, Request 0 True), (demo_env, WriteFailed)] ptt_init"

lemma ptt_interlock_silent_witness:
  "ps_trace demo_locked = [Apply 0 0 True] \<and>
     (\<exists>cs. ps_trace (fold ptt_step [(demo_env, SetBlocked False), (demo_env, Poll 5), (demo_env, Request 1 True)] demo_locked) =
        ps_trace demo_locked @ cs \<and> list_all (\<lambda>c. \<not> keys_down c) cs)"
proof -
  have "rr_ptt_check_blocked demo_locked" "rr_ptt_accounting_locked demo_locked" "ps_trace demo_locked = [Apply 0 0 True]"
    by code_simp+
  with ptt_interlock_silent [of demo_locked] show ?thesis by blast
qed

section \<open>A release wins\<close>

text \<open>
  The newest request is first. \<open>queue_inv n r v\<close>: requests are numbered, key-downs behind a release of their
  VFO are superseded, and so is every key-down of VFO \<open>v\<close> of rig \<open>r\<close> numbered below \<open>n\<close>.
\<close>

definition outranks :: "ptt_pending \<Rightarrow> ptt_pending \<Rightarrow> bool" where
  "outranks q p \<longleftrightarrow> (\<not> pp_state q \<and> pp_rig q = pp_rig p \<and> pp_vfo q = pp_vfo p \<and> pp_state p \<longrightarrow> pp_superseded p)"

definition queue_inv :: "nat \<Rightarrow> nat \<Rightarrow> nat \<Rightarrow> ptt_state \<Rightarrow> bool" where
  "queue_inv n r v s \<longleftrightarrow> n \<le> ps_next s \<and> distinct (map pp_id (ps_pending s)) \<and> (\<forall>p \<in> set (ps_pending s). pp_id p < ps_next s) \<and>
     sorted_wrt outranks (ps_pending s) \<and>
     (\<forall>p \<in> set (ps_pending s). pp_id p < n \<and> pp_rig p = r \<and> pp_vfo p = v \<and> pp_state p \<longrightarrow> pp_superseded p)"

lemma queue_frame: "ps_pending s' = ps_pending s \<Longrightarrow> ps_next s' = ps_next s \<Longrightarrow> queue_inv n r v s' = queue_inv n r v s"
  by (simp add: queue_inv_def)

lemma queue_accounting_failed [simp]: "queue_inv n r v (accounting_failed env s) = queue_inv n r v s"
  by (rule queue_frame) (simp_all add: accounting_failed_def)

lemma queue_log_stop [simp]: "queue_inv n r v (ptt_log_stop env t i s) = queue_inv n r v s"
  by (rule queue_frame) (simp_all add: ptt_log_stop_def accounting_failed_def Let_def)

lemma queue_log_start [simp]: "queue_inv n r v (ptt_log_start env t i s) = queue_inv n r v s"
  by (rule queue_frame) (simp_all add: ptt_log_start_def accounting_failed_def Let_def)

lemma queue_tot [simp]: "queue_inv n r v (s\<lparr>ps_tot_time := t\<rparr>) = queue_inv n r v s"
  by (rule queue_frame) simp_all

lemma queue_rig [simp]: "queue_inv n r v (s\<lparr>ps_rig := t\<rparr>) = queue_inv n r v s"
  by (rule queue_frame) simp_all

lemma queue_talker [simp]: "queue_inv n r v (s\<lparr>ps_talker := t\<rparr>) = queue_inv n r v s"
  by (rule queue_frame) simp_all

lemma queue_stop_pending [simp]: "queue_inv n r v (s\<lparr>ps_stop_pending := t\<rparr>) = queue_inv n r v s"
  by (rule queue_frame) simp_all

lemma queue_retry_at [simp]: "queue_inv n r v (s\<lparr>ps_retry_at := t\<rparr>) = queue_inv n r v s"
  by (rule queue_frame) simp_all

lemma queue_blocked [simp]: "queue_inv n r v (rr_ptt_set_blocked b s) = queue_inv n r v s"
  by (rule queue_frame) (simp_all add: rr_ptt_set_blocked_def)

lemma queue_emit [simp]: "queue_inv n r v (emit c s) = queue_inv n r v s"
  by (rule queue_frame) (simp_all add: emit_def)

lemma queue_release [simp]: "queue_inv n r v (submit_release p s) = queue_inv n r v s"
  by (simp add: submit_release_def)

lemma queue_apply [simp]: "queue_inv n r v (snd (rr_ptt_apply env i b s)) = queue_inv n r v s"
  by (simp add: rr_ptt_apply_def split: option.split)

lemma queue_push:
  assumes "queue_inv n r v s" "\<forall>q \<in> set (ps_pending s). outranks p q" "pp_id p = ps_next s"
  shows "queue_inv n r v (s\<lparr>ps_pending := p # ps_pending s, ps_next := ps_next s + 1\<rparr>)"
  using assms by (fastforce simp: queue_inv_def)

lemma queue_enqueue:
  assumes "queue_inv n r v s"
    "state \<or> (\<forall>p \<in> set (ps_pending s). pp_rig p = r' \<and> pp_vfo p = v' \<and> pp_state p \<longrightarrow> pp_superseded p)"
  shows "queue_inv n r v (enqueue r' v' state s)"
  unfolding enqueue_def Let_def queue_emit by (rule queue_push [OF assms(1)]) (use assms(2) in \<open>auto simp: outranks_def\<close>)

lemma queue_enqueue_on: "queue_inv n r v s \<Longrightarrow> queue_inv n r v (enqueue r' v' True s)"
  by (rule queue_enqueue) simp_all

text \<open>Marking requests superseded, and dropping requests, keep the invariant.\<close>

definition marks :: "(ptt_pending \<Rightarrow> ptt_pending) \<Rightarrow> bool" where
  "marks f \<longleftrightarrow> (\<forall>p. pp_id (f p) = pp_id p \<and> pp_rig (f p) = pp_rig p \<and> pp_vfo (f p) = pp_vfo p \<and> pp_state (f p) = pp_state p \<and>
     (pp_superseded p \<longrightarrow> pp_superseded (f p)))"

lemma marks_ids: "marks f \<Longrightarrow> map pp_id (map f ps) = map pp_id ps"
  by (simp add: marks_def)

lemma queue_mark:
  assumes "queue_inv n r v s" "marks f"
  shows "queue_inv n r v (s\<lparr>ps_pending := map f (ps_pending s)\<rparr>)"
proof -
  have f: "pp_id (f p) = pp_id p" "pp_rig (f p) = pp_rig p" "pp_vfo (f p) = pp_vfo p" "pp_state (f p) = pp_state p"
    "pp_superseded p \<Longrightarrow> pp_superseded (f p)" for p using assms(2) by (simp_all add: marks_def)
  have "sorted_wrt outranks (map f (ps_pending s))"
    using assms(1) by (auto simp: queue_inv_def sorted_wrt_map outranks_def f elim!: sorted_wrt_mono_rel [rotated])
  with assms f show ?thesis by (auto simp: queue_inv_def marks_ids simp del: map_map)
qed

lemma marks_supersede: "marks (\<lambda>p. if pp_rig p = r \<and> pp_vfo p = v \<and> pp_state p then p\<lparr>pp_superseded := True\<rparr> else p)"
  by (simp add: marks_def)

lemma queue_enqueue_off:
  assumes "queue_inv n r v s"
  shows "queue_inv n r v (enqueue r' v' False (s\<lparr>ps_pending := supersede r' v' (ps_pending s)\<rparr>))"
proof -
  let ?s = "s\<lparr>ps_pending := supersede r' v' (ps_pending s)\<rparr>"
  have q: "queue_inv n r v ?s" unfolding supersede_def by (rule queue_mark [OF assms marks_supersede])
  have "\<forall>p \<in> set (supersede r' v' ps). pp_rig p = r' \<and> pp_vfo p = v' \<and> pp_state p \<longrightarrow> pp_superseded p" for ps
    unfolding supersede_def set_map by (rule ballI, erule imageE, rename_tac q, case_tac "pp_rig q = r' \<and> pp_vfo q = v' \<and> pp_state q")
      (simp_all, blast)
  then have "False \<or> (\<forall>p \<in> set (ps_pending ?s). pp_rig p = r' \<and> pp_vfo p = v' \<and> pp_state p \<longrightarrow> pp_superseded p)"
    by simp
  then show ?thesis by (rule queue_enqueue [OF q])
qed

lemma queue_filter: "queue_inv n r v s \<Longrightarrow> queue_inv n r v (s\<lparr>ps_pending := filter P (ps_pending s)\<rparr>)"
  by (auto simp: queue_inv_def sorted_wrt_filter distinct_map_filter)

lemma queue_request_off [intro]:
  assumes "queue_inv n r v s"
  shows "queue_inv n r v (snd (request_off env i completing s))"
proof -
  have a: "queue_inv n r v s'" if "rr_ptt_apply env i False s = (b, s')" for b s'
    using queue_apply [of n r v env i False s] assms that by simp
  have e: "queue_inv n r v (enqueue q i False (s\<lparr>ps_pending := supersede q i (ps_pending s)\<rparr>))" for q
    by (rule queue_enqueue_off [OF assms])
  have t: "queue_inv n r v (ptt_log_stop env w i (s\<lparr>ps_tot_time := 0\<rparr>))" for w using assms by simp
  show ?thesis
    unfolding request_off_def
    by (simp add: assms e t split: option.split prod.split) (use a in \<open>blast\<close>)
qed

lemma queue_all_off_loop: "queue_inv n r v s \<Longrightarrow> queue_inv n r v (snd (all_off_loop env completing radio is s))"
proof (induction "is" arbitrary: s)
  case (Cons i "is")
  from Cons.IH [OF queue_request_off [OF Cons.prems, of env i completing]] Cons.IH [OF Cons.prems]
  show ?case by (auto split: prod.splits)
qed simp

lemma queue_all_off [intro]: "queue_inv n r v s \<Longrightarrow> queue_inv n r v (snd (rr_ptt_set_all_off_reason env completing s))"
  using queue_all_off_loop [of n r v s env completing "target_rig env s" "[0..<pe_max_vfos env]"]
  by (auto simp: rr_ptt_set_all_off_reason_def split: prod.splits)

lemma queue_key_down_result:
  assumes "queue_inv n r v (snd res)"
  shows "queue_inv n r v (snd (key_down_result env i completing res))"
proof (cases res)
  case (Pair b s1)
  with assms have s1: "queue_inv n r v s1" by simp
  let ?s2 = "ptt_log_start env (ptt_talker completing s1) i s1"
  from s1 have "queue_inv n r v (snd (rr_ptt_set_all_off_reason env completing ?s2))" by (intro queue_all_off) simp
  with s1 show ?thesis by (simp add: key_down_result_def Pair Let_def)
qed

lemma queue_request_on [intro]:
  assumes "queue_inv n r v s"
  shows "queue_inv n r v (snd (request_on env i completing s))"
proof -
  define t where "t = (if pe_strict env \<and> \<not> pe_db_open env then accounting_failed env s else s)"
  have t: "queue_inv n r v t" using assms by (simp add: t_def)
  have e: "queue_inv n r v (enqueue q i True t)" for q by (rule queue_enqueue_on [OF t])
  have a: "queue_inv n r v (snd (case completing of Some (_, failed) \<Rightarrow> (failed, t) | None \<Rightarrow> rr_ptt_apply env i True t))"
    using t by (cases completing) (auto split: prod.split)
  show ?thesis
    unfolding request_on_def Let_def t_def [symmetric]
    by (simp add: assms t e queue_key_down_result [OF a])
qed

lemma queue_request [intro]: "queue_inv n r v s \<Longrightarrow> queue_inv n r v (snd (rr_ptt_request env i ptt completing s))"
  by (simp add: rr_ptt_request_def queue_request_on queue_request_off)

lemma queue_completed [intro]:
  assumes "queue_inv n r v s"
  shows "queue_inv n r v (ptt_worker_completed env dying p failed s)"
proof -
  let ?s = "s\<lparr>ps_pending := filter (\<lambda>q. pp_id q \<noteq> pp_id p) (ps_pending s)\<rparr>"
  have s: "queue_inv n r v ?s" by (rule queue_filter [OF assms])
  then have "queue_inv n r v (?s\<lparr>ps_rig := Some (pp_rig p)\<rparr>)" unfolding queue_rig .
  then have q: "queue_inv n r v (snd (rr_ptt_request env (pp_vfo p) (pp_state p) (Some (p, failed)) (?s\<lparr>ps_rig := Some (pp_rig p)\<rparr>)))"
    by (rule queue_request)
  show ?thesis
    unfolding ptt_worker_completed_def Let_def using s q
    by (cases "rr_ptt_request env (pp_vfo p) (pp_state p) (Some (p, failed)) (?s\<lparr>ps_rig := Some (pp_rig p)\<rparr>)")
      simp
qed

lemma queue_closed [intro]:
  assumes "queue_inv n r v s"
  shows "queue_inv n r v (ptt_worker_closed env c s)"
proof -
  have "queue_inv n r v t \<Longrightarrow> queue_inv n r v (fold (\<lambda>i s. if ps_session s i = Some c then ptt_log_stop env (Some c) i s else s) is t)" for "is" t
    by (induction "is" arbitrary: t) simp_all
  moreover have "marks (\<lambda>p. if pp_owner p = Some c then p\<lparr>pp_owner := None, pp_superseded := pp_superseded p \<or> pp_state p\<rparr> else p)"
    by (simp add: marks_def)
  ultimately show ?thesis unfolding ptt_worker_closed_def using queue_mark [OF assms] by blast
qed

lemma queue_poll: "queue_inv n r v s \<Longrightarrow> queue_inv n r v (accounting_poll env at s)"
  using queue_all_off [of n r v s env None] by (auto simp: accounting_poll_def split: prod.splits)

lemma queue_tick: "queue_inv n r v s \<Longrightarrow> queue_inv n r v (timer_clock_tick env hot s)"
  by (simp add: timer_clock_tick_def Let_def queue_all_off)

lemma queue_step: "queue_inv n r v s \<Longrightarrow> queue_inv n r v (ptt_step ev s)"
proof (cases ev)
  case (Pair env e)
  then show "queue_inv n r v s \<Longrightarrow> ?thesis"
    by (cases e) (simp_all add: queue_request queue_completed queue_closed queue_all_off queue_poll queue_tick split: option.split)
qed

interpretation queue: machine ptt_step "queue_inv n r v"
  by unfold_locales (rule queue_step)

lemma queue_init: "queue_inv 0 r v ptt_init"
  by (simp add: queue_inv_def ptt_init_def)

lemma queue_start:
  assumes "queue_inv m r v s" "\<forall>p \<in> set (ps_pending s). pp_rig p = r \<and> pp_vfo p = v \<and> pp_state p \<longrightarrow> pp_superseded p"
  shows "queue_inv (ps_next s) r v s"
  using assms by (simp add: queue_inv_def)

lemma sorted_wrt_find:
  assumes "sorted_wrt R ps" "List.find P ps = Some q" "p \<in> set ps" "p \<noteq> q"
  shows "R q p \<or> \<not> P p"
  using assms by (induction ps) (auto split: if_splits)

lemma accepted_release:
  assumes inv: "queue_inv m r v s" and r: "target_rig env s = Some r" "pe_worker env r"
    and ok: "request_off env v None s = (False, s')"
  shows "(\<exists>q \<in> set (ps_pending s'). pp_rig q = r \<and> pp_vfo q = v \<and> \<not> pp_state q) \<and>
    (\<forall>p \<in> set (ps_pending s'). pp_rig p = r \<and> pp_vfo p = v \<and> pp_state p \<longrightarrow> pp_superseded p)"
proof (cases "\<exists>q. List.find (\<lambda>p. pp_rig p = r \<and> pp_vfo p = v) (ps_pending s) = Some q \<and> \<not> pp_state q")
  case True
  then obtain q where q: "List.find (\<lambda>p. pp_rig p = r \<and> pp_vfo p = v) (ps_pending s) = Some q" "\<not> pp_state q" by blast
  with ok r have s': "s' = s" by (simp add: request_off_def split: if_splits)
  have "outranks q p" if "p \<in> set (ps_pending s)" "pp_rig p = r" "pp_vfo p = v" "p \<noteq> q" for p
    using sorted_wrt_find [OF _ q(1) that(1) that(4)] inv that by (auto simp: queue_inv_def)
  with q(2) find_SomeD [OF q(1)] show ?thesis unfolding s' by (auto simp: outranks_def)
next
  case False
  have rng: "\<not> pe_max_vfos env \<le> v" using ok by (auto simp: request_off_def split: if_splits)
  have "s' = enqueue r v False (s\<lparr>ps_pending := supersede r v (ps_pending s)\<rparr>)"
  proof (cases "List.find (\<lambda>p. pp_rig p = r \<and> pp_vfo p = v) (ps_pending s)")
    case None
    with ok r rng show ?thesis by (simp add: request_off_def split: if_splits)
  next
    case (Some q)
    with False have "pp_state q" by blast
    with Some ok r rng show ?thesis by (simp add: request_off_def split: if_splits)
  qed
  moreover have "\<forall>p \<in> set (supersede r v ps). pp_rig p = r \<and> pp_vfo p = v \<and> pp_state p \<longrightarrow> pp_superseded p" for ps
    unfolding supersede_def set_map by (rule ballI, erule imageE, rename_tac q, case_tac "pp_rig q = r \<and> pp_vfo q = v \<and> pp_state q")
      (simp_all, blast)
  ultimately show ?thesis by (simp add: enqueue_def emit_def Let_def)
qed

text \<open>
  C3. A release wins. After any history, once a release of a worker-driven VFO is accepted, a release for that
  VFO is in the worker's queue, and whatever happens next, the worker's answer to any key-down of that VFO
  requested before the release only takes the request off the queue: it opens no session, starts no talk
  timeout and sends the radio nothing.
\<close>

theorem ptt_release_wins:
  assumes "target_rig env (fold ptt_step evs ptt_init) = Some r" "pe_worker env r"
    and "request_off env v None (fold ptt_step evs ptt_init) = (False, s)"
    and "t = fold ptt_step later s"
  shows "(\<exists>q \<in> set (ps_pending s). pp_rig q = r \<and> pp_vfo q = v \<and> \<not> pp_state q) \<and>
    (\<forall>p \<in> set (ps_pending t). pp_id p < ps_next s \<and> pp_rig p = r \<and> pp_vfo p = v \<and> pp_state p \<longrightarrow>
       ptt_step (env', Completed (pp_id p) failed dying) t =
         t\<lparr>ps_pending := filter (\<lambda>q. pp_id q \<noteq> pp_id p) (ps_pending t)\<rparr>)"
proof -
  have s0: "queue_inv 0 r v (fold ptt_step evs ptt_init)" by (rule queue.run_inv [OF queue_init])
  have "queue_inv 0 r v s" using queue_request_off [OF s0, of env v None] assms(3) by simp
  moreover note rel = accepted_release [OF s0 assms(1-3)]
  ultimately have "queue_inv (ps_next s) r v s" by (blast intro: queue_start)
  then have t: "queue_inv (ps_next s) r v t" unfolding assms(4) by (rule queue.run_inv)
  have "ptt_step (env', Completed (pp_id p) failed dying) t = t\<lparr>ps_pending := filter (\<lambda>q. pp_id q \<noteq> pp_id p) (ps_pending t)\<rparr>"
    if "p \<in> set (ps_pending t)" "pp_id p < ps_next s" "pp_rig p = r" "pp_vfo p = v" "pp_state p" for p
  proof -
    have "List.find (\<lambda>q. pp_id q = pp_id p) (ps_pending t) = Some p" "pp_superseded p"
      using t that by (simp_all add: queue_inv_def find_Some_iff_distinct)
    then show ?thesis by (simp add: ptt_worker_completed_def Let_def)
  qed
  with rel show ?thesis by blast
qed

definition demo_keyed :: "(ptt_env \<times> ptt_event) list" where
  "demo_keyed = [(demo_env, SelectRig (Some 1)), (demo_env, Talk (Some 7)), (demo_env, Request 0 True)]"

lemma ptt_release_wins_witness:
  "\<exists>s. request_off demo_env 0 None (fold ptt_step demo_keyed ptt_init) = (False, s) \<and> length (ps_pending s) = 2 \<and>
     (\<forall>p \<in> set (ps_pending s). pp_id p < ps_next s \<and> pp_rig p = 1 \<and> pp_vfo p = 0 \<and> pp_state p \<longrightarrow>
       ptt_step (demo_env, Completed (pp_id p) False False) s = s\<lparr>ps_pending := filter (\<lambda>q. pp_id q \<noteq> pp_id p) (ps_pending s)\<rparr>)"
proof -
  have "target_rig demo_env (fold ptt_step demo_keyed ptt_init) = Some 1" "pe_worker demo_env 1"
    "\<not> fst (request_off demo_env 0 None (fold ptt_step demo_keyed ptt_init))"
    "length (ps_pending (snd (request_off demo_env 0 None (fold ptt_step demo_keyed ptt_init)))) = 2"
    by code_simp+
  with ptt_release_wins [of demo_env demo_keyed 1 0 "snd (request_off demo_env 0 None (fold ptt_step demo_keyed ptt_init))"
      "snd (request_off demo_env 0 None (fold ptt_step demo_keyed ptt_init))" "[]" demo_env False False]
  show ?thesis by (intro exI [of _ "snd (request_off demo_env 0 None (fold ptt_step demo_keyed ptt_init))"]) (simp add: prod_eq_iff)
qed

section \<open>The talk timeout\<close>

text \<open>What a forced release achieves for one VFO: the command is sent, or a worker has it queued.\<close>

definition off_pending :: "nat \<Rightarrow> nat \<Rightarrow> ptt_state \<Rightarrow> bool" where
  "off_pending r v s \<longleftrightarrow> (\<exists>q \<in> set (ps_pending s). pp_rig q = r \<and> pp_vfo q = v \<and> \<not> pp_state q)"

definition released :: "ptt_env \<Rightarrow> nat \<Rightarrow> nat \<Rightarrow> ptt_state \<Rightarrow> ptt_state \<Rightarrow> bool" where
  "released env r v s s' \<longleftrightarrow>
     (if pe_worker env r then pe_submit_fails env r v False \<or> off_pending r v s'
      else \<exists>cs. ps_trace s' = ps_trace s @ cs \<and> Apply r v False \<in> set cs)"

lemma request_off_rig: "ps_rig (snd (request_off env i None s)) = ps_rig s"
  by (simp add: request_off_def rr_ptt_apply_def emit_def enqueue_def ptt_log_stop_def accounting_failed_def Let_def
      split: option.split)

lemma off_pending_supersede: "off_pending r v s \<Longrightarrow> off_pending r v (s\<lparr>ps_pending := supersede r' v' (ps_pending s)\<rparr>)"
  unfolding off_pending_def supersede_def by (erule bexE, rename_tac q, rule_tac x = q in bexI) (auto simp: image_iff)

lemma off_pending_enqueue: "off_pending r v s \<Longrightarrow> off_pending r v (enqueue r' v' b s)"
  by (simp add: off_pending_def enqueue_def emit_def Let_def)

lemma log_stop_pending: "ps_pending (ptt_log_stop env t i s) = ps_pending s"
  by (simp add: ptt_log_stop_def accounting_failed_def Let_def)

lemma apply_pending: "ps_pending (snd (rr_ptt_apply env i b s)) = ps_pending s"
  by (simp add: rr_ptt_apply_def emit_def split: option.split)

lemma off_pending_request_off:
  assumes "off_pending r v s"
  shows "off_pending r v (snd (request_off env i None s))"
proof -
  have "off_pending r v (ptt_log_stop env (ps_talker s') i (s'\<lparr>ps_tot_time := 0\<rparr>)) \<and> off_pending r v s'"
    if "rr_ptt_apply env i False s = (b, s')" for b s'
    using assms apply_pending [of env i False s] that by (simp add: off_pending_def log_stop_pending)
  moreover have "off_pending r v (enqueue r' i False (s\<lparr>ps_pending := supersede r' i (ps_pending s)\<rparr>))" for r'
    by (intro off_pending_enqueue off_pending_supersede assms)
  ultimately show ?thesis unfolding request_off_def using assms by (simp split: option.split prod.split; blast)
qed

lemma released_later:
  "released env r v s t \<Longrightarrow> silent t u \<Longrightarrow> (off_pending r v t \<Longrightarrow> off_pending r v u) \<Longrightarrow> released env r v s u"
  by (auto simp: released_def silent_def split: if_splits)

lemma released_earlier: "released env r v t u \<Longrightarrow> silent s t \<Longrightarrow> released env r v s u"
  by (auto simp: released_def silent_def split: if_splits)

lemma off_pending_loop: "off_pending r v s \<Longrightarrow> off_pending r v (snd (all_off_loop env None radio is s))"
proof (induction "is" arbitrary: s)
  case (Cons i "is")
  from Cons.IH [OF off_pending_request_off [OF Cons.prems, of env i]] Cons.IH [OF Cons.prems] show ?case
    by (auto split: prod.splits)
qed simp

lemma request_off_released:
  assumes "target_rig env s = Some r" "v < pe_max_vfos env" "pe_vfo_exists env r v"
  shows "released env r v s (snd (request_off env v None s))"
proof (cases "pe_worker env r")
  case True
  have enq: "off_pending r v (enqueue r v False u)" for u by (simp add: off_pending_def enqueue_def emit_def Let_def)
  have "off_pending r v s" if "List.find (\<lambda>p. pp_rig p = r \<and> pp_vfo p = v) (ps_pending s) = Some q" "\<not> pp_state q" for q
    using find_SomeD [OF that(1)] that(2) by (auto simp: off_pending_def)
  with True assms enq show ?thesis by (auto simp: released_def request_off_def split: option.split)
next
  case False
  have "ps_trace (ptt_log_stop env w v u) = ps_trace u" for w u
    by (simp add: ptt_log_stop_def accounting_failed_def Let_def)
  with False assms show ?thesis by (simp add: released_def request_off_def rr_ptt_apply_def emit_def)
qed

lemma all_off_loop_released:
  "target_rig env s = Some r \<Longrightarrow> v \<in> set is \<Longrightarrow> v < pe_max_vfos env \<Longrightarrow> pe_vfo_exists env r v \<Longrightarrow> pe_vfo_supported env r v \<Longrightarrow>
     released env r v s (snd (all_off_loop env None (Some r) is s))"
proof (induction "is" arbitrary: s)
  case (Cons i "is")
  let ?t = "snd (request_off env i None s)"
  have t: "target_rig env ?t = Some r" using Cons.prems(1) by (simp add: target_rig_def request_off_rig split: option.split)
  have step: "snd (all_off_loop env None (Some r) (i # is) s) =
      snd (all_off_loop env None (Some r) is (if pe_vfo_exists env r i \<and> pe_vfo_supported env r i then ?t else s))"
    by (simp split: prod.split)
  show ?case
  proof (cases "v = i")
    case True
    with request_off_released [OF Cons.prems(1,3,4)] silent_all_off_loop [of ?t env None "Some r" "is"] off_pending_loop
    have "released env r v s (snd (all_off_loop env None (Some r) is ?t))" by (blast intro: released_later)
    with True Cons.prems(4,5) show ?thesis unfolding step by simp
  next
    case False
    with Cons.prems(2) have v: "v \<in> set is" by simp
    from released_earlier [OF Cons.IH [OF t v Cons.prems(3-5)] silent_request_off] Cons.IH [OF Cons.prems(1) v Cons.prems(3-5)]
    show ?thesis unfolding step by simp
  qed
qed simp

lemma all_off_released:
  assumes "target_rig env s = Some r" "v < pe_max_vfos env" "pe_vfo_exists env r v" "pe_vfo_supported env r v"
  shows "released env r v s (snd (rr_ptt_set_all_off_reason env None s))"
proof -
  let ?t = "snd (all_off_loop env None (target_rig env s) [0..<pe_max_vfos env] s)"
  have "released env r v s ?t" using all_off_loop_released [of env s r v "[0..<pe_max_vfos env]"] assms by simp
  moreover have "ps_trace (snd (rr_ptt_set_all_off_reason env None s)) = ps_trace ?t"
    "ps_pending (snd (rr_ptt_set_all_off_reason env None s)) = ps_pending ?t"
    by (simp_all add: rr_ptt_set_all_off_reason_def split: prod.split)
  ultimately show ?thesis by (simp only: released_def off_pending_def)
qed

text \<open>
  C7. The talk timeout forces a release. When the talk time has run out, the next tick sends \<open>Apply r v False\<close> for
  every usable VFO of the active rig; on a rig with a worker it leaves a release in the queue unless the worker
  refuses it. The deadline is then cleared even if a release failed, so a later tick sends nothing more.
\<close>

theorem ptt_timeout_releases:
  assumes "0 < ps_tot_time s" "ps_tot_time s \<le> pe_now env" "target_rig env s = Some r"
    and "v < pe_max_vfos env" "pe_vfo_exists env r v" "pe_vfo_supported env r v"
  shows "(if pe_worker env r
      then pe_submit_fails env r v False \<or>
        (\<exists>q \<in> set (ps_pending (timer_clock_tick env False s)). pp_rig q = r \<and> pp_vfo q = v \<and> \<not> pp_state q)
      else \<exists>cs. ps_trace (timer_clock_tick env False s) = ps_trace s @ cs \<and> Apply r v False \<in> set cs) \<and>
    timer_clock_tick env' False (timer_clock_tick env False s) = timer_clock_tick env False s"
proof -
  have "timer_clock_tick env False s = (snd (rr_ptt_set_all_off_reason env None s))\<lparr>ps_tot_time := 0\<rparr>"
    using assms(1,2) by (simp add: timer_clock_tick_def)
  with all_off_released [OF assms(3-6)] show ?thesis
    by (auto simp: released_def off_pending_def timer_clock_tick_def)
qed

definition demo_late :: ptt_env where
  "demo_late = demo_env\<lparr>pe_now := 1300, pe_set_fails := \<lambda>_ _ on. \<not> on\<rparr>"

definition demo_talking :: ptt_state where
  "demo_talking = fold ptt_step [(demo_env, Talk (Some 7)), (demo_env, Request 0 True)] ptt_init"

text \<open>The radio of the example refuses the release; the deadline is gone all the same.\<close>

lemma ptt_timeout_releases_witness:
  "ps_tot_time demo_talking = 1300 \<and>
     (\<exists>cs. ps_trace (timer_clock_tick demo_late False demo_talking) = ps_trace demo_talking @ cs \<and> Apply 0 0 False \<in> set cs) \<and>
     timer_clock_tick demo_late False (timer_clock_tick demo_late False demo_talking) = timer_clock_tick demo_late False demo_talking"
proof -
  have "ps_tot_time demo_talking = 1300" "pe_now demo_late = 1300" "target_rig demo_late demo_talking = Some 0"
    "0 < pe_max_vfos demo_late" "pe_vfo_exists demo_late 0 0" "pe_vfo_supported demo_late 0 0" "\<not> pe_worker demo_late 0"
    by code_simp+
  with ptt_timeout_releases [of demo_talking demo_late 0 0 demo_late] show ?thesis by simp
qed

section \<open>A key-down confirmed too late\<close>

lemma request_on_refused:
  assumes "rr_ptt_check_blocked s \<or> pe_halted env (target_rig env s)"
  shows "fst (request_on env v completing s) \<and> ps_trace (snd (request_on env v completing s)) = ps_trace s \<and>
    ps_tot_time (snd (request_on env v completing s)) = ps_tot_time s \<and> ps_session (snd (request_on env v completing s)) = ps_session s"
  using assms
  by (auto simp: request_on_def Let_def rr_ptt_check_blocked_def accounting_failed_def target_rig_def)

text \<open>
  C11. A key-down confirmed too late is undone. If, when a worker confirms a key-down, transmission has been blocked
  or locked, the rig halted, the owner gone or the talker or rig changed, the answer sends that VFO exactly one
  command, a release, and neither opens an accounting session nor starts the talk timeout.
\<close>

theorem ptt_late_confirmation_released:
  assumes "pp_state p" "\<not> pp_superseded p"
    and "rr_ptt_check_blocked s \<or> pe_halted env (Some (pp_rig p)) \<or> pp_owner p = None \<or> ps_talker s \<noteq> pp_owner p \<or>
      ps_rig s \<noteq> Some (pp_rig p)"
  shows "ps_trace (ptt_worker_completed env False p failed s) = ps_trace s @ [Submit (pp_rig p) (pp_vfo p) False] \<and>
    ps_session (ptt_worker_completed env False p failed s) = ps_session s \<and>
    ps_tot_time (ptt_worker_completed env False p failed s) = ps_tot_time s"
proof -
  let ?s = "s\<lparr>ps_pending := filter (\<lambda>q. pp_id q \<noteq> pp_id p) (ps_pending s), ps_rig := Some (pp_rig p)\<rparr>"
  show ?thesis
  proof (cases "pp_owner p = None \<or> ps_talker s \<noteq> pp_owner p \<or> ps_rig s \<noteq> Some (pp_rig p)")
    case True
    with assms(1,2) show ?thesis by (simp add: ptt_worker_completed_def submit_release_def emit_def Let_def)
  next
    case False
    with assms(3) have "rr_ptt_check_blocked ?s \<or> pe_halted env (target_rig env ?s)"
      by (auto simp: rr_ptt_check_blocked_def target_rig_def)
    from request_on_refused [OF this, of "pp_vfo p" "Some (p, failed)"] obtain t where
      "request_on env (pp_vfo p) (Some (p, failed)) ?s = (True, t)" "ps_trace t = ps_trace s" "ps_tot_time t = ps_tot_time s"
      "ps_session t = ps_session s" by (cases "request_on env (pp_vfo p) (Some (p, failed)) ?s") simp
    with False assms(1,2) show ?thesis
      by (simp add: ptt_worker_completed_def submit_release_def emit_def rr_ptt_request_def Let_def)
  qed
qed

definition demo_confirm :: ptt_state where
  "demo_confirm = fold ptt_step (demo_keyed @ [(demo_env, SetBlocked True)]) ptt_init"

lemma ptt_late_confirmation_released_witness:
  "ps_trace demo_confirm = [Submit 1 0 True] \<and>
     ps_trace (ptt_worker_completed demo_env False (hd (ps_pending demo_confirm)) False demo_confirm) =
       [Submit 1 0 True, Submit 1 0 False]"
proof -
  have "pp_state (hd (ps_pending demo_confirm))" "\<not> pp_superseded (hd (ps_pending demo_confirm))" "rr_ptt_check_blocked demo_confirm"
    "ps_trace demo_confirm = [Submit 1 0 True]" "pp_rig (hd (ps_pending demo_confirm)) = 1" "pp_vfo (hd (ps_pending demo_confirm)) = 0"
    by code_simp+
  with ptt_late_confirmation_released [of "hd (ps_pending demo_confirm)" demo_confirm demo_env False] show ?thesis by simp
qed

end
