(* ===== verification/BackendWorker.thy ===== *)
theory BackendWorker
  imports Prelude "HOL-Library.Multiset"
begin

text \<open>
  \<^verbatim>\<open>rrserver/backend.worker.c\<close>: the queue between the server thread and the thread that talks to a radio.

  A job pointer is a job number; \<open>bw_head\<close> is the queue, \<open>bw_running\<close> the job taken off it, \<open>bw_done\<close> the
  list of finished jobs and \<open>bw_draining\<close> what a drain has taken from that list. Jobs waiting for another
  release of their VFO are its \<open>followers\<close>; a follower never has followers of its own. The operations that
  hold the mutex are single steps, so every interleaving of the two threads is a list of steps; a driver call
  and the bookkeeping after it are one step, \<open>worker_run\<close>, since only the worker's thread sees its effects
  before the lock is taken again. Drivers are \<open>backend_api\<close>, with a state of their own. Latency logs, driver
  logs and properties observed by drivers are not modelled; allocation and thread creation succeed.
\<close>

section \<open>Jobs\<close>

definition BACKEND_QUEUE_LIMIT :: nat where
  "BACKEND_QUEUE_LIMIT = 64"

text \<open>An operation with the member of \<open>value\<close>, or the text, it uses; a float is its bit pattern.\<close>

datatype operation =
    Poll
  | Select
  | Freq int
  | Mode int
  | Width string
  | Power "32 word"
  | Ptt bool
  | Split int
  | Swap
  | Brightness int
  | SpeakerVolume int
  | RigControl string
  | MenuRead string
  | MenuWrite string

record observed =
  ob_freq :: int
  ob_mode :: int
  ob_width :: int
  ob_power :: "32 word"
  ob_power_max :: "32 word"
  ob_widths :: "int list"

record job =
  jb_id :: nat
  jb_index :: nat
  jb_active :: nat
  jb_op :: operation
  jb_complete :: "nat option" \<comment> \<open>the completion callback's argument, when there is a callback\<close>
  jb_failed :: bool
  jb_cancelled :: bool
  jb_observed :: "observed option"
  jb_ptt :: bool
  jb_properties :: "(string \<times> string option) list" \<comment> \<open>name and value, \<^const>\<open>None\<close> when unavailable\<close>

record queue_entry =
  qe_job :: job
  qe_followers :: "job list"

record backend_cache =
  bc_supported :: bool
  bc_ptt :: bool
  bc_state :: "observed option" \<comment> \<open>\<open>known\<close> and the values it guards\<close>

record 'b worker =
  bw_vfos :: nat \<comment> \<open>\<open>MAX_VFOS\<close>\<close>
  bw_stopping :: bool
  bw_exited :: bool
  bw_head :: "queue_entry list"
  bw_running :: "queue_entry option"
  bw_done :: "job list"
  bw_draining :: "job list"
  bw_queued :: nat
  bw_outstanding :: nat
  bw_polls :: "nat \<Rightarrow> bool"
  bw_off_jobs :: "nat \<Rightarrow> nat option"
  bw_keyed :: "nat \<Rightarrow> bool"
  bw_cache :: "nat \<Rightarrow> backend_cache"
  bw_next :: nat
  bw_io :: 'b
  bw_completed :: "job list" \<comment> \<open>jobs drained, oldest first\<close>

text \<open>The driver's functions. As in the code, setters return \<^const>\<open>True\<close> for failure, menu functions for success.\<close>

record 'b backend_api =
  ba_poll :: "(nat \<Rightarrow> nat \<Rightarrow> 'b \<Rightarrow> observed option \<times> 'b) option" \<comment> \<open>active VFO, VFO; \<open>poll_state\<close> and the getters after it\<close>
  ba_freq_set :: "(nat \<Rightarrow> int \<Rightarrow> 'b \<Rightarrow> bool \<times> 'b) option"
  ba_mode_set :: "(nat \<Rightarrow> int \<Rightarrow> 'b \<Rightarrow> bool \<times> 'b) option"
  ba_width_set :: "(nat \<Rightarrow> string \<Rightarrow> 'b \<Rightarrow> bool \<times> 'b) option"
  ba_power_set :: "(nat \<Rightarrow> 32 word \<Rightarrow> 'b \<Rightarrow> bool \<times> 'b) option"
  ba_vfo_swap :: "(nat \<Rightarrow> 'b \<Rightarrow> bool \<times> 'b) option"
  ba_split_mode :: "(nat \<Rightarrow> bool \<Rightarrow> 'b \<Rightarrow> bool \<times> 'b) option"
  ba_ptt_set :: "(nat \<Rightarrow> bool \<Rightarrow> 'b \<Rightarrow> bool \<times> 'b) option"
  ba_ptt_get :: "(nat \<Rightarrow> 'b \<Rightarrow> bool \<times> 'b) option"
  ba_rig_control_set :: "(string \<Rightarrow> int \<Rightarrow> 'b \<Rightarrow> bool \<times> 'b) option"
  ba_menu_read :: "(string \<Rightarrow> 'b \<Rightarrow> string option \<times> 'b) option"
  ba_menu_write :: "(string \<Rightarrow> string \<Rightarrow> 'b \<Rightarrow> bool \<times> 'b) option"

abbreviation entry_op :: "queue_entry \<Rightarrow> operation" where
  "entry_op q \<equiv> jb_op (qe_job q)"

abbreviation entry_index :: "queue_entry \<Rightarrow> nat" where
  "entry_index q \<equiv> jb_index (qe_job q)"

section \<open>Running a job\<close>

text \<open>\<open>!f || f(...)\<close>.\<close>

definition call_set :: "('b \<Rightarrow> bool \<times> 'b) option \<Rightarrow> 'b \<Rightarrow> bool \<times> 'b" where
  "call_set f io = (case f of None \<Rightarrow> (True, io) | Some f \<Rightarrow> f io)"

definition menu_property :: "string \<Rightarrow> string" where
  "menu_property key = take 31 (''menu.'' @ key)"

definition menu_result :: "string \<Rightarrow> string option \<times> 'b \<Rightarrow> bool \<times> (string \<times> string option) list \<times> 'b" where
  "menu_result key r = (case r of
     (None, io) \<Rightarrow> (True, [(menu_property key, None)], io)
   | (Some v, io) \<Rightarrow> (False, [(menu_property key, Some (take 127 v))], io))"

text \<open>\<open>!api->menu_read || !api->menu_read(...)\<close>, a failed read being \<^const>\<open>None\<close>.\<close>

definition call_menu_read :: "'b backend_api \<Rightarrow> string \<Rightarrow> 'b \<Rightarrow> string option \<times> 'b" where
  "call_menu_read api key io = (case ba_menu_read api of None \<Rightarrow> (None, io) | Some f \<Rightarrow> f key io)"

definition before_last :: "char \<Rightarrow> string \<Rightarrow> (string \<times> string) option" where
  "before_last c s =
     (if c \<in> set s then Some (rev (tl (dropWhile (\<lambda>x. x \<noteq> c) (rev s))), rev (takeWhile (\<lambda>x. x \<noteq> c) (rev s))) else None)"

text \<open>The \<open>switch\<close> of \<open>execute\<close>: failure, observed properties and the driver's new state. \<open>atoi\<close> is C's.\<close>

fun perform :: "(string \<Rightarrow> int) \<Rightarrow> 'b backend_api \<Rightarrow> nat \<Rightarrow> operation \<Rightarrow> 'b \<Rightarrow> bool \<times> (string \<times> string option) list \<times> 'b" where
  "perform atoi api v (Brightness n) io =
     (case call_set (map_option (\<lambda>f. f ''display.brightness'' n) (ba_rig_control_set api)) io of (e, io) \<Rightarrow> (e, [], io))"
| "perform atoi api v (SpeakerVolume n) io =
     (case call_set (map_option (\<lambda>f. f ''audio.speaker.volume'' n) (ba_rig_control_set api)) io of (e, io) \<Rightarrow> (e, [], io))"
| "perform atoi api v (MenuWrite s) io =
     (if CHR '':'' \<notin> set s then (True, [], io)
      else let key = takeWhile (\<lambda>c. c \<noteq> CHR '':'') s; text = tl (dropWhile (\<lambda>c. c \<noteq> CHR '':'') s) in
        case ba_menu_write api of
          None \<Rightarrow> (True, [(menu_property key, None)], io)
        | Some f \<Rightarrow> (case f key text io of (ok, io) \<Rightarrow>
            if ok then menu_result key (call_menu_read api key io) else (True, [(menu_property key, None)], io)))"
| "perform atoi api v (MenuRead key) io = menu_result key (call_menu_read api key io)"
| "perform atoi api v (RigControl s) io =
     (case before_last CHR '':'' s of
        None \<Rightarrow> (True, [], io)
      | Some (name, text) \<Rightarrow>
          (case call_set (map_option (\<lambda>f. f name (atoi text)) (ba_rig_control_set api)) io of (e, io) \<Rightarrow> (e, [], io)))"
| "perform atoi api v (Freq n) io = (case call_set (map_option (\<lambda>f. f v n) (ba_freq_set api)) io of (e, io) \<Rightarrow> (e, [], io))"
| "perform atoi api v (Mode n) io = (case call_set (map_option (\<lambda>f. f v n) (ba_mode_set api)) io of (e, io) \<Rightarrow> (e, [], io))"
| "perform atoi api v (Width s) io = (case call_set (map_option (\<lambda>f. f v s) (ba_width_set api)) io of (e, io) \<Rightarrow> (e, [], io))"
| "perform atoi api v (Power p) io = (case call_set (map_option (\<lambda>f. f v p) (ba_power_set api)) io of (e, io) \<Rightarrow> (e, [], io))"
| "perform atoi api v Swap io = (case call_set (map_option (\<lambda>f. f v) (ba_vfo_swap api)) io of (e, io) \<Rightarrow> (e, [], io))"
| "perform atoi api v (Split n) io = (case call_set (map_option (\<lambda>f. f v (n \<noteq> 0)) (ba_split_mode api)) io of (e, io) \<Rightarrow> (e, [], io))"
| "perform atoi api v (Ptt on) io = (case call_set (map_option (\<lambda>f. f v on) (ba_ptt_set api)) io of (e, io) \<Rightarrow> (e, [], io))"
| "perform atoi api v Poll io = (False, [], io)"
| "perform atoi api v Select io = (False, [], io)"

text \<open>What an emergency halt lets through.\<close>

definition allowed_when_halted :: "operation \<Rightarrow> bool" where
  "allowed_when_halted op = (case op of Poll \<Rightarrow> True | MenuRead _ \<Rightarrow> True | Ptt on \<Rightarrow> \<not> on | _ \<Rightarrow> False)"

definition is_ptt :: "operation \<Rightarrow> bool" where
  "is_ptt op = (case op of Ptt _ \<Rightarrow> True | _ \<Rightarrow> False)"

definition execute :: "(string \<Rightarrow> int) \<Rightarrow> 'b backend_api \<Rightarrow> bool \<Rightarrow> job \<Rightarrow> 'b \<Rightarrow> job \<times> 'b" where
  "execute atoi api halted j io =
     (let v = jb_index j;
          (failed, props, io1) =
            (if halted \<and> \<not> allowed_when_halted (jb_op j) then (True, [], io) else perform atoi api v (jb_op j) io);
          (obs, io2) =
            (case ba_poll api of
               Some f \<Rightarrow> if \<not> is_ptt (jb_op j) \<and> \<not> failed then f (jb_active j) v io1 else (None, io1)
             | None \<Rightarrow> (None, io1));
          (ptt, io3) = (case ba_ptt_get api of None \<Rightarrow> (False, io2) | Some f \<Rightarrow> f v io2)
      in (j\<lparr>jb_failed := failed, jb_properties := jb_properties j @ props, jb_observed := obs, jb_ptt := ptt\<rparr>, io3))"

section \<open>The queue\<close>

definition job_release :: "operation \<Rightarrow> bool" where
  "job_release op \<longleftrightarrow> op = Ptt False"

text \<open>\<open>finish_job_locked\<close>: the job, then its followers with its outcome, join the finished ones.\<close>

definition finish_job :: "queue_entry \<Rightarrow> 'b worker \<Rightarrow> 'b worker" where
  "finish_job q w =
     (let j = qe_job q in
      w\<lparr>bw_off_jobs := (if bw_off_jobs w (jb_index j) = Some (jb_id j) then (bw_off_jobs w)(jb_index j := None) else bw_off_jobs w),
        bw_done := bw_done w @ j #
          map (\<lambda>f. f\<lparr>jb_failed := jb_failed j, jb_cancelled := jb_cancelled j, jb_ptt := jb_ptt j\<rparr>) (qe_followers q)\<rparr>)"

definition cancel_job :: "queue_entry \<Rightarrow> 'b worker \<Rightarrow> 'b worker" where
  "cancel_job q w =
     finish_job (q\<lparr>qe_job := (qe_job q)\<lparr>jb_failed := True, jb_cancelled := True\<rparr>\<rparr>) (w\<lparr>bw_queued := bw_queued w - 1\<rparr>)"

text \<open>The two loops that take matching jobs out of the queue, front to back.\<close>

definition cancel_where :: "(queue_entry \<Rightarrow> bool) \<Rightarrow> 'b worker \<Rightarrow> 'b worker" where
  "cancel_where P w = fold cancel_job (filter P (bw_head w)) (w\<lparr>bw_head := filter (\<lambda>q. \<not> P q) (bw_head w)\<rparr>)"

definition add_follower :: "nat \<Rightarrow> job \<Rightarrow> queue_entry \<Rightarrow> queue_entry" where
  "add_follower k j q = (if jb_id (qe_job q) = k then q\<lparr>qe_followers := j # qe_followers q\<rparr> else q)"

definition insert_job :: "queue_entry \<Rightarrow> queue_entry list \<Rightarrow> queue_entry list" where
  "insert_job q qs =
     (if job_release (entry_op q) then q # qs
      else if entry_op q \<noteq> Poll then
        takeWhile (\<lambda>p. entry_op p \<noteq> Poll) qs @ q # dropWhile (\<lambda>p. entry_op p \<noteq> Poll) qs
      else qs @ [q])"

text \<open>
  \<open>index\<close> is the VFO's index, \<^const>\<open>None\<close> when \<open>vfo_index\<close> fails or the VFO belongs to another rig; \<open>halted\<close> is
  \<open>rr_rig_halted\<close>, \<open>active\<close> the backend's active VFO. \<^const>\<open>True\<close> is refusal.
\<close>

definition rr_backend_worker_submit ::
    "bool \<Rightarrow> nat option \<Rightarrow> nat \<Rightarrow> operation \<Rightarrow> nat option \<Rightarrow> 'b worker \<Rightarrow> bool \<times> 'b worker" where
  "rr_backend_worker_submit halted index active op complete w = (case index of
     None \<Rightarrow> (True, w)
   | Some v \<Rightarrow>
       (if v \<ge> bw_vfos w \<or> halted \<and> \<not> allowed_when_halted op then (True, w)
        else if bw_stopping w \<or> bw_outstanding w \<ge> BACKEND_QUEUE_LIMIT + bw_vfos w \<or>
          \<not> job_release op \<and> bw_outstanding w \<ge> BACKEND_QUEUE_LIMIT then (True, w)
        else if op = Poll \<and> bw_polls w v then (False, w)
        else let w1 = (if job_release op then cancel_where (\<lambda>q. entry_op q = Ptt True \<and> entry_index q = v) w else w);
                 j = \<lparr>jb_id = bw_next w1, jb_index = v, jb_active = active, jb_op = op, jb_complete = complete, jb_failed = False,
                      jb_cancelled = False, jb_observed = None, jb_ptt = False, jb_properties = []\<rparr>;
                 w2 = w1\<lparr>bw_next := bw_next w1 + 1, bw_outstanding := bw_outstanding w1 + 1\<rparr> in
          case (job_release op, bw_off_jobs w1 v) of
            (True, Some k) \<Rightarrow>
              (False, w2\<lparr>bw_head := map (add_follower k j) (bw_head w1), bw_running := map_option (add_follower k j) (bw_running w1)\<rparr>)
          | _ \<Rightarrow>
              (False, w2\<lparr>bw_head := insert_job \<lparr>qe_job = j, qe_followers = []\<rparr> (bw_head w1), bw_queued := bw_queued w1 + 1,
                 bw_polls := (if op = Poll then (bw_polls w1)(v := True) else bw_polls w1),
                 bw_off_jobs := (if job_release op then (bw_off_jobs w1)(v := Some (jb_id j)) else bw_off_jobs w1)\<rparr>)))"

section \<open>The worker's thread\<close>

text \<open>\<open>worker_main\<close> in three steps: taking a job, running and finishing it, and leaving.\<close>

definition worker_take :: "'b worker \<Rightarrow> 'b worker" where
  "worker_take w = (case bw_head w of
     [] \<Rightarrow> w
   | q # qs \<Rightarrow>
       (if bw_running w \<noteq> None \<or> bw_exited w then w
        else w\<lparr>bw_running := Some q, bw_head := qs, bw_queued := bw_queued w - 1\<rparr>))"

definition worker_run :: "(string \<Rightarrow> int) \<Rightarrow> 'b backend_api \<Rightarrow> bool \<Rightarrow> 'b worker \<Rightarrow> 'b worker" where
  "worker_run atoi api halted w = (case bw_running w of
     None \<Rightarrow> w
   | Some q \<Rightarrow> (case execute atoi api halted (qe_job q) (bw_io w) of
       (j, io) \<Rightarrow>
         finish_job (q\<lparr>qe_job := j\<rparr>)
           (w\<lparr>bw_running := None, bw_io := io, bw_keyed := (bw_keyed w)(jb_index j := jb_ptt j)\<rparr>)))"

text \<open>One turn of the loop at the end: a keyed VFO is released and an empty job reports it. \<open>exists\<close> is the VFO lookup.\<close>

definition shutdown_release :: "'b backend_api \<Rightarrow> (nat \<Rightarrow> bool) \<Rightarrow> nat \<Rightarrow> 'b worker \<Rightarrow> 'b worker" where
  "shutdown_release api exists i w =
     (case (bw_keyed w i, ba_ptt_set api) of
        (True, Some f) \<Rightarrow>
          (let io = (if exists i then snd (f i False (bw_io w)) else bw_io w);
               j = \<lparr>jb_id = bw_next w, jb_index = i, jb_active = 0, jb_op = Poll, jb_complete = None, jb_failed = False,
                    jb_cancelled = False, jb_observed = None, jb_ptt = False, jb_properties = []\<rparr> in
           finish_job \<lparr>qe_job = j, qe_followers = []\<rparr>
             (w\<lparr>bw_io := io, bw_outstanding := bw_outstanding w + 1, bw_next := bw_next w + 1\<rparr>))
      | _ \<Rightarrow> w)"

definition worker_exit :: "'b backend_api \<Rightarrow> (nat \<Rightarrow> bool) \<Rightarrow> 'b worker \<Rightarrow> 'b worker" where
  "worker_exit api exists w =
     (if \<not> bw_stopping w \<or> bw_head w \<noteq> [] \<or> bw_running w \<noteq> None \<or> bw_exited w then w
      else (fold (shutdown_release api exists) [0..<bw_vfos w] w)\<lparr>bw_exited := True\<rparr>)"

section \<open>The server's thread\<close>

definition drain_take :: "'b worker \<Rightarrow> 'b worker" where
  "drain_take w = (if bw_draining w \<noteq> [] then w else w\<lparr>bw_draining := bw_done w, bw_done := []\<rparr>)"

text \<open>The body of the loop of \<open>rr_backend_worker_drain\<close>; the callback runs with no lock held, so the body is a step.\<close>

definition drain_one :: "'b worker \<Rightarrow> 'b worker" where
  "drain_one w = (case bw_draining w of
     [] \<Rightarrow> w
   | job # jobs \<Rightarrow>
       (let j = (if bw_stopping w \<and> jb_op job \<noteq> Ptt False then job\<lparr>jb_failed := True, jb_cancelled := True\<rparr> else job);
            i = jb_index j;
            cache = bw_cache w i;
            cache' = (if jb_cancelled j then cache
                      else cache\<lparr>bc_ptt := jb_ptt j, bc_state := (case jb_observed j of None \<Rightarrow> bc_state cache | Some s \<Rightarrow> Some s)\<rparr>)
        in w\<lparr>bw_draining := jobs, bw_cache := (bw_cache w)(i := cache'), bw_outstanding := bw_outstanding w - 1,
             bw_polls := (if jb_op j = Poll then (bw_polls w)(i := False) else bw_polls w), bw_completed := bw_completed w @ [j]\<rparr>))"

text \<open>A whole drain whose callbacks submit nothing.\<close>

definition rr_backend_worker_drain :: "'b worker \<Rightarrow> 'b worker" where
  "rr_backend_worker_drain w = (let w = drain_take w in (drain_one ^^ length (bw_draining w)) w)"

text \<open>The first half of \<open>rr_backend_worker_stop\<close>, up to the join.\<close>

definition worker_stop :: "'b worker \<Rightarrow> 'b worker" where
  "worker_stop w = cancel_where (\<lambda>q. entry_op q \<noteq> Ptt False) (w\<lparr>bw_stopping := True\<rparr>)"

definition rr_backend_worker_busy :: "'b worker \<Rightarrow> bool" where
  "rr_backend_worker_busy w \<longleftrightarrow> bw_outstanding w \<noteq> 0"

definition rr_backend_worker_yield :: "'b worker \<Rightarrow> bool" where
  "rr_backend_worker_yield w = (case (bw_running w, bw_head w) of
     (Some running, pending # _) \<Rightarrow>
       entry_op pending \<noteq> Poll \<and> (entry_op running = Poll \<or> entry_op pending = Ptt False)
   | _ \<Rightarrow> False)"

text \<open>The getters of \<open>worker_api\<close>: the cache of a VFO, with the code's defaults. \<open>none\<close> is \<open>MODE_NONE\<close>.\<close>

definition cached :: "'b worker \<Rightarrow> nat option \<Rightarrow> backend_cache option" where
  "cached w index = (case index of None \<Rightarrow> None | Some v \<Rightarrow> if v < bw_vfos w then Some (bw_cache w v) else None)"

definition cached_state :: "'b worker \<Rightarrow> nat option \<Rightarrow> observed option" where
  "cached_state w index = Option.bind (cached w index) bc_state"

definition cached_supported :: "'b worker \<Rightarrow> nat option \<Rightarrow> bool" where
  "cached_supported w index = (case cached w index of None \<Rightarrow> False | Some c \<Rightarrow> bc_supported c)"

definition cached_ptt :: "'b worker \<Rightarrow> nat option \<Rightarrow> bool" where
  "cached_ptt w index = (case cached w index of None \<Rightarrow> False | Some c \<Rightarrow> bc_ptt c)"

definition cached_freq :: "'b worker \<Rightarrow> nat option \<Rightarrow> int" where
  "cached_freq w index = (case cached_state w index of None \<Rightarrow> 0 | Some s \<Rightarrow> ob_freq s)"

definition cached_power :: "'b worker \<Rightarrow> nat option \<Rightarrow> 32 word" where
  "cached_power w index = (case cached_state w index of None \<Rightarrow> 0 | Some s \<Rightarrow> ob_power s)"

definition cached_power_max :: "'b worker \<Rightarrow> nat option \<Rightarrow> 32 word" where
  "cached_power_max w index = (case cached_state w index of None \<Rightarrow> 0 | Some s \<Rightarrow> ob_power_max s)"

definition cached_width :: "'b worker \<Rightarrow> nat option \<Rightarrow> int" where
  "cached_width w index = (case cached_state w index of None \<Rightarrow> 0 | Some s \<Rightarrow> ob_width s)"

definition cached_mode :: "int \<Rightarrow> 'b worker \<Rightarrow> nat option \<Rightarrow> int" where
  "cached_mode none w index = (case cached_state w index of None \<Rightarrow> none | Some s \<Rightarrow> ob_mode s)"

definition cached_widths :: "'b worker \<Rightarrow> nat option \<Rightarrow> nat \<Rightarrow> int list" where
  "cached_widths w index cap = (case cached_state w index of
     None \<Rightarrow> []
   | Some s \<Rightarrow> if cap < length (ob_widths s) then [] else ob_widths s)"

text \<open>\<open>rr_backend_worker_start\<close>; \<open>supported\<close> is what \<open>initialize_vfo\<close> finds for each VFO of the rig.\<close>

definition rr_backend_worker_start :: "nat \<Rightarrow> (nat \<Rightarrow> bool) \<Rightarrow> 'b \<Rightarrow> 'b worker" where
  "rr_backend_worker_start vfos supported io = \<lparr>bw_vfos = vfos, bw_stopping = False, bw_exited = False, bw_head = [], bw_running = None,
     bw_done = [], bw_draining = [], bw_queued = 0, bw_outstanding = 0, bw_polls = (\<lambda>_. False), bw_off_jobs = (\<lambda>_. None),
     bw_keyed = (\<lambda>_. False), bw_cache = (\<lambda>i. \<lparr>bc_supported = supported i, bc_ptt = False, bc_state = None\<rparr>), bw_next = 0,
     bw_io = io, bw_completed = []\<rparr>"

section \<open>Runs\<close>

datatype worker_event =
    Submit bool "nat option" nat operation "nat option"
  | Take
  | Run bool
  | Exit
  | DrainTake
  | DrainOne
  | Stop

text \<open>What surrounds a worker: C's \<open>atoi\<close>, the driver and the rig's VFOs.\<close>

record 'b worker_env =
  we_atoi :: "string \<Rightarrow> int"
  we_api :: "'b backend_api"
  we_exists :: "nat \<Rightarrow> bool"

fun worker_step :: "'b worker_env \<Rightarrow> worker_event \<Rightarrow> 'b worker \<Rightarrow> 'b worker" where
  "worker_step env (Submit halted index active op complete) w = snd (rr_backend_worker_submit halted index active op complete w)"
| "worker_step env Take w = worker_take w"
| "worker_step env (Run halted) w = worker_run (we_atoi env) (we_api env) halted w"
| "worker_step env Exit w = worker_exit (we_api env) (we_exists env) w"
| "worker_step env DrainTake w = drain_take w"
| "worker_step env DrainOne w = drain_one w"
| "worker_step env Stop w = worker_stop w"

section \<open>What is pending\<close>

definition live :: "'b worker \<Rightarrow> queue_entry list" where
  "live w = bw_head w @ (case bw_running w of None \<Rightarrow> [] | Some q \<Rightarrow> [q])"

definition entry_jobs :: "queue_entry \<Rightarrow> job list" where
  "entry_jobs q = qe_job q # qe_followers q"

definition pending :: "'b worker \<Rightarrow> job list" where
  "pending w = concat (map entry_jobs (live w)) @ bw_done w @ bw_draining w"

text \<open>What finishing, cancelling and draining leave of a job: its number, VFO and operation.\<close>

definition job_key :: "job \<Rightarrow> nat \<times> nat \<times> operation" where
  "job_key j = (jb_id j, jb_index j, jb_op j)"

definition entry_keys :: "queue_entry \<Rightarrow> (nat \<times> nat \<times> operation) multiset" where
  "entry_keys q = image_mset job_key (mset (entry_jobs q))"

definition live_keys :: "queue_entry list \<Rightarrow> (nat \<times> nat \<times> operation) multiset" where
  "live_keys qs = image_mset job_key (mset (concat (map entry_jobs qs)))"

definition keys :: "'b worker \<Rightarrow> (nat \<times> nat \<times> operation) multiset" where
  "keys w = image_mset job_key (mset (pending w))"

lemma live_keys_simps [simp]:
  "live_keys [] = {#}" "live_keys (q # qs) = entry_keys q + live_keys qs" "live_keys (ps @ qs) = live_keys ps + live_keys qs"
  by (simp_all add: live_keys_def entry_keys_def)

lemma keys_split: "keys w = live_keys (live w) + image_mset job_key (mset (bw_done w)) + image_mset job_key (mset (bw_draining w))"
  by (simp add: keys_def pending_def live_keys_def)

lemma live_keys_filter: "live_keys (filter P qs) + live_keys (filter (\<lambda>q. \<not> P q) qs) = live_keys qs"
  by (induction qs) auto

lemma live_keys_insert: "live_keys (insert_job q qs) = entry_keys q + live_keys qs"
proof -
  have "live_keys (takeWhile P qs) + live_keys (dropWhile P qs) = live_keys qs" for P
    using live_keys_simps(3) [of "takeWhile P qs" "dropWhile P qs"] by simp
  then have "live_keys (takeWhile P qs) + (entry_keys q + live_keys (dropWhile P qs)) = entry_keys q + live_keys qs" for P
    by (metis (no_types, lifting) add.assoc add.commute)
  then show ?thesis by (simp add: insert_job_def add.commute)
qed

section \<open>Finishing and cancelling\<close>

lemma finish_job_frame [simp]:
  "bw_head (finish_job q w) = bw_head w" "bw_running (finish_job q w) = bw_running w" "bw_next (finish_job q w) = bw_next w"
  "bw_outstanding (finish_job q w) = bw_outstanding w" "bw_polls (finish_job q w) = bw_polls w" "bw_queued (finish_job q w) = bw_queued w"
  "bw_completed (finish_job q w) = bw_completed w" "bw_vfos (finish_job q w) = bw_vfos w" "bw_draining (finish_job q w) = bw_draining w"
  "bw_stopping (finish_job q w) = bw_stopping w" "bw_exited (finish_job q w) = bw_exited w" "bw_keyed (finish_job q w) = bw_keyed w"
  by (simp_all add: finish_job_def Let_def)

lemma live_finish [simp]: "live (finish_job q w) = live w"
  by (simp add: live_def)

lemma keys_finish: "keys (finish_job q w) = keys w + entry_keys q"
  by (simp add: keys_split) (simp add: finish_job_def Let_def entry_keys_def entry_jobs_def job_key_def [abs_def] image_mset.compositionality comp_def)

lemma cancel_job_frame [simp]:
  "bw_head (cancel_job q w) = bw_head w" "bw_running (cancel_job q w) = bw_running w" "bw_next (cancel_job q w) = bw_next w"
  "bw_outstanding (cancel_job q w) = bw_outstanding w" "bw_polls (cancel_job q w) = bw_polls w"
  "bw_queued (cancel_job q w) = bw_queued w - 1"
  "bw_completed (cancel_job q w) = bw_completed w" "bw_vfos (cancel_job q w) = bw_vfos w" "bw_draining (cancel_job q w) = bw_draining w"
  "bw_stopping (cancel_job q w) = bw_stopping w" "bw_exited (cancel_job q w) = bw_exited w" "bw_keyed (cancel_job q w) = bw_keyed w"
  by (simp_all add: cancel_job_def)

lemma keys_queued [simp]: "keys (w\<lparr>bw_queued := n\<rparr>) = keys w" "live (w\<lparr>bw_queued := n\<rparr>) = live w"
  "keys (w\<lparr>bw_stopping := b\<rparr>) = keys w" "live (w\<lparr>bw_stopping := b\<rparr>) = live w"
  by (simp_all add: keys_def pending_def live_def)

lemma keys_cancel_job: "keys (cancel_job q w) = keys w + entry_keys q"
  unfolding cancel_job_def keys_finish by (simp add: entry_keys_def entry_jobs_def job_key_def)

lemma cancel_fold:
  "bw_head (fold cancel_job qs w) = bw_head w \<and> bw_running (fold cancel_job qs w) = bw_running w \<and> bw_next (fold cancel_job qs w) = bw_next w \<and>
   bw_outstanding (fold cancel_job qs w) = bw_outstanding w \<and> bw_polls (fold cancel_job qs w) = bw_polls w \<and>
   bw_queued (fold cancel_job qs w) = bw_queued w - length qs \<and> bw_completed (fold cancel_job qs w) = bw_completed w \<and>
   bw_vfos (fold cancel_job qs w) = bw_vfos w \<and> bw_draining (fold cancel_job qs w) = bw_draining w \<and>
   bw_stopping (fold cancel_job qs w) = bw_stopping w \<and> bw_exited (fold cancel_job qs w) = bw_exited w \<and>
   bw_keyed (fold cancel_job qs w) = bw_keyed w \<and> keys (fold cancel_job qs w) = keys w + live_keys qs"
  by (induction qs arbitrary: w) (simp_all add: keys_cancel_job)

lemma keys_cancel_where [simp]: "keys (cancel_where P w) = keys w"
proof -
  let ?w = "w\<lparr>bw_head := filter (\<lambda>q. \<not> P q) (bw_head w)\<rparr>"
  have "keys (cancel_where P w) = keys ?w + live_keys (filter P (bw_head w))" by (simp add: cancel_where_def cancel_fold)
  also have "\<dots> = keys w"
    using live_keys_filter [of P "bw_head w"] by (simp add: keys_split live_def ac_simps)
  finally show ?thesis .
qed

lemma cancel_where_frame [simp]:
  "bw_head (cancel_where P w) = filter (\<lambda>q. \<not> P q) (bw_head w)" "bw_running (cancel_where P w) = bw_running w"
  "bw_next (cancel_where P w) = bw_next w" "bw_outstanding (cancel_where P w) = bw_outstanding w"
  "bw_polls (cancel_where P w) = bw_polls w" "bw_completed (cancel_where P w) = bw_completed w" "bw_vfos (cancel_where P w) = bw_vfos w"
  "bw_draining (cancel_where P w) = bw_draining w" "bw_stopping (cancel_where P w) = bw_stopping w"
  "bw_exited (cancel_where P w) = bw_exited w" "bw_keyed (cancel_where P w) = bw_keyed w"
  "bw_queued (cancel_where P w) = bw_queued w - length (filter P (bw_head w))"
  by (simp_all add: cancel_where_def cancel_fold)

text \<open>The release recorded for a VFO survives the cancelling of other jobs.\<close>

lemma finish_job_off:
  "bw_off_jobs (finish_job q w) v = (if bw_off_jobs w v = Some (jb_id (qe_job q)) \<and> v = entry_index q then None else bw_off_jobs w v)"
  by (auto simp: finish_job_def Let_def)

lemma cancel_fold_off:
  "\<forall>q \<in> set qs. \<forall>v. bw_off_jobs w v \<noteq> Some (jb_id (qe_job q)) \<Longrightarrow> bw_off_jobs (fold cancel_job qs w) = bw_off_jobs w"
proof (induction qs arbitrary: w)
  case (Cons q qs)
  have "bw_off_jobs (cancel_job q w) = bw_off_jobs w"
    using Cons.prems by (auto simp: cancel_job_def finish_job_def Let_def)
  with Cons show ?case by simp
qed simp

section \<open>The invariant\<close>

definition ids_of :: "'b worker \<Rightarrow> nat multiset" where
  "ids_of w = image_mset fst (keys w) + image_mset jb_id (mset (bw_completed w))"

definition op_rank :: "operation \<Rightarrow> nat" where
  "op_rank op = (if job_release op then 0 else if op \<noteq> Poll then 1 else 2)"

text \<open>\<open>release_at w v k\<close>: job \<open>k\<close> is the release of VFO \<open>v\<close> that is queued or running.\<close>

definition release_at :: "queue_entry list \<Rightarrow> nat \<Rightarrow> nat \<Rightarrow> bool" where
  "release_at qs v k \<longleftrightarrow> (\<exists>q \<in> set qs. entry_op q = Ptt False \<and> entry_index q = v \<and> jb_id (qe_job q) = k)"

definition poll_keys :: "nat \<Rightarrow> (nat \<times> nat \<times> operation) multiset \<Rightarrow> nat" where
  "poll_keys v ks = size (filter_mset (\<lambda>(k, i, op). i = v \<and> op = Poll) ks)"

text \<open>Nothing of VFO \<open>v\<close> that was submitted before job \<open>n\<close> can still be taken to key down.\<close>

definition no_old_keydown :: "nat \<Rightarrow> nat \<Rightarrow> queue_entry list \<Rightarrow> bool" where
  "no_old_keydown n v qs \<longleftrightarrow> (\<forall>q \<in> set qs. entry_op q = Ptt True \<and> entry_index q = v \<longrightarrow> n \<le> jb_id (qe_job q))"

definition worker_inv :: "nat \<Rightarrow> nat \<Rightarrow> 'b worker \<Rightarrow> bool" where
  "worker_inv n v w \<longleftrightarrow>
     bw_queued w = length (bw_head w) \<and> bw_outstanding w = size (keys w) \<and> ids_of w = mset [0..<bw_next w] \<and>
     sorted_wrt (\<lambda>p q. op_rank (entry_op p) \<le> op_rank (entry_op q)) (bw_head w) \<and>
     (\<forall>v k. bw_off_jobs w v = Some k \<longleftrightarrow> release_at (live w) v k) \<and>
     (\<not> bw_exited w \<longrightarrow> (\<forall>v. poll_keys v (keys w) = (if bw_polls w v then 1 else 0)) \<and>
        bw_outstanding w \<le> BACKEND_QUEUE_LIMIT + bw_vfos w) \<and>
     (bw_exited w \<longrightarrow> bw_stopping w \<and> live w = []) \<and>
     n \<le> bw_next w \<and> no_old_keydown n v (bw_head w)"

lemma worker_invI:
  assumes "bw_queued w = length (bw_head w)" "bw_outstanding w = size (keys w)" "ids_of w = mset [0..<bw_next w]"
    "sorted_wrt (\<lambda>p q. op_rank (entry_op p) \<le> op_rank (entry_op q)) (bw_head w)"
    "\<And>v k. bw_off_jobs w v = Some k \<longleftrightarrow> release_at (live w) v k"
    "\<And>v. \<not> bw_exited w \<Longrightarrow> poll_keys v (keys w) = (if bw_polls w v then 1 else 0)"
    "\<not> bw_exited w \<Longrightarrow> bw_outstanding w \<le> BACKEND_QUEUE_LIMIT + bw_vfos w"
    "bw_exited w \<Longrightarrow> bw_stopping w \<and> live w = []"
    "n \<le> bw_next w" "no_old_keydown n v (bw_head w)"
  shows "worker_inv n v w"
  using assms unfolding worker_inv_def by blast

lemma worker_invD:
  assumes "worker_inv n v w"
  shows "bw_queued w = length (bw_head w)" "bw_outstanding w = size (keys w)" "ids_of w = mset [0..<bw_next w]"
    "sorted_wrt (\<lambda>p q. op_rank (entry_op p) \<le> op_rank (entry_op q)) (bw_head w)"
    "\<And>v k. bw_off_jobs w v = Some k \<longleftrightarrow> release_at (live w) v k"
    "\<And>v. \<not> bw_exited w \<Longrightarrow> poll_keys v (keys w) = (if bw_polls w v then 1 else 0)"
    "\<not> bw_exited w \<Longrightarrow> bw_outstanding w \<le> BACKEND_QUEUE_LIMIT + bw_vfos w"
    "bw_exited w \<Longrightarrow> bw_stopping w \<and> live w = []"
    "n \<le> bw_next w" "no_old_keydown n v (bw_head w)"
  using assms unfolding worker_inv_def by blast+

lemma worker_inv_param: "worker_inv m u w \<Longrightarrow> n \<le> bw_next w \<Longrightarrow> no_old_keydown n v (bw_head w) \<Longrightarrow> worker_inv n v w"
  unfolding worker_inv_def by blast

subsection \<open>Job numbers are unique\<close>

lemma distinct_ids:
  assumes "ids_of w = mset [0..<bw_next w]"
  shows "distinct (map jb_id (pending w) @ map jb_id (bw_completed w))"
proof -
  have "mset (map jb_id (pending w) @ map jb_id (bw_completed w)) = mset [0..<bw_next w]"
    using assms by (simp add: ids_of_def keys_def image_mset.compositionality comp_def job_key_def)
  then show ?thesis by (metis distinct_upt mset_eq_imp_distinct_iff)
qed

lemma distinct_entries:
  "distinct (map jb_id (concat (map entry_jobs qs))) \<Longrightarrow> distinct (map (\<lambda>q. jb_id (qe_job q)) qs)"
  by (induction qs) (auto simp: entry_jobs_def)

lemma live_distinct:
  assumes "ids_of w = mset [0..<bw_next w]"
  shows "distinct (map (\<lambda>q. jb_id (qe_job q)) (live w))"
  using distinct_ids [OF assms] by (intro distinct_entries) (simp add: pending_def)

lemma entries_same:
  "distinct (map (\<lambda>q. jb_id (qe_job q)) qs) \<Longrightarrow> p \<in> set qs \<Longrightarrow> q \<in> set qs \<Longrightarrow> jb_id (qe_job p) = jb_id (qe_job q) \<Longrightarrow> p = q"
  by (auto simp: distinct_map inj_on_def)

lemma live_id_less:
  assumes "ids_of w = mset [0..<bw_next w]" "q \<in> set (live w)"
  shows "jb_id (qe_job q) < bw_next w"
proof -
  have "qe_job q \<in> set (pending w)" using assms(2) by (auto simp: pending_def entry_jobs_def)
  then have "jb_id (qe_job q) \<in># ids_of w" by (auto simp: ids_of_def keys_def job_key_def image_iff)
  with assms(1) show ?thesis by simp
qed

subsection \<open>Cancelling keeps it\<close>

lemma release_at_filter: "(\<And>q. P q \<Longrightarrow> entry_op q \<noteq> Ptt False) \<Longrightarrow> release_at (filter (\<lambda>q. \<not> P q) qs @ rs) v k = release_at (qs @ rs) v k"
  by (auto simp: release_at_def)

lemma off_not_other:
  assumes "worker_inv n v w" "q \<in> set (live w)" "entry_op q \<noteq> Ptt False"
  shows "bw_off_jobs w i \<noteq> Some (jb_id (qe_job q))"
proof
  assume "bw_off_jobs w i = Some (jb_id (qe_job q))"
  then obtain p where "p \<in> set (live w)" "entry_op p = Ptt False" "jb_id (qe_job p) = jb_id (qe_job q)"
    using worker_invD(5) [OF assms(1)] by (auto simp: release_at_def)
  with entries_same [OF live_distinct [OF worker_invD(3) [OF assms(1)]]] assms(2,3) show False by metis
qed

lemma cancel_where_inv:
  assumes inv: "worker_inv n v w" and P: "\<And>q. P q \<Longrightarrow> entry_op q \<noteq> Ptt False"
  shows "worker_inv n v (cancel_where P w)" "bw_off_jobs (cancel_where P w) = bw_off_jobs w"
proof -
  note D = worker_invD [OF inv]
  let ?w = "w\<lparr>bw_head := filter (\<lambda>q. \<not> P q) (bw_head w)\<rparr>"
  have "bw_off_jobs w i \<noteq> Some (jb_id (qe_job q))" if "q \<in> set (filter P (bw_head w))" for q i
    using off_not_other [OF inv, of q i] that P by (auto simp: live_def)
  then show off: "bw_off_jobs (cancel_where P w) = bw_off_jobs w"
    unfolding cancel_where_def by (subst cancel_fold_off) auto
  have live: "live (cancel_where P w) = filter (\<lambda>q. \<not> P q) (bw_head w) @ (case bw_running w of None \<Rightarrow> [] | Some q \<Rightarrow> [q])"
    by (simp add: live_def)
  show "worker_inv n v (cancel_where P w)"
  proof (rule worker_invI)
    show "bw_queued (cancel_where P w) = length (bw_head (cancel_where P w))"
      using D(1) sum_length_filter_compl [of P "bw_head w"] by simp
    show "bw_off_jobs (cancel_where P w) i = Some k \<longleftrightarrow> release_at (live (cancel_where P w)) i k" for i k
      using D(5) release_at_filter [of P, OF P] by (simp add: off live) (simp add: live_def)
    show "sorted_wrt (\<lambda>p q. op_rank (entry_op p) \<le> op_rank (entry_op q)) (bw_head (cancel_where P w))"
      using D(4) by (simp add: sorted_wrt_filter)
    show "bw_exited (cancel_where P w) \<Longrightarrow> bw_stopping (cancel_where P w) \<and> live (cancel_where P w) = []"
      using D(8) by (simp add: live live_def)
    show "no_old_keydown n v (bw_head (cancel_where P w))" using D(10) by (simp add: no_old_keydown_def)
  qed (use D in \<open>simp_all add: ids_of_def\<close>)
qed

lemma worker_stop_inv: "worker_inv n v w \<Longrightarrow> worker_inv n v (worker_stop w)"
proof -
  assume "worker_inv n v w"
  then have "worker_inv n v (w\<lparr>bw_stopping := True\<rparr>)"
    unfolding worker_inv_def ids_of_def by (clarsimp simp del: mset_upt)
  then show ?thesis unfolding worker_stop_def by (rule cancel_where_inv) simp
qed

subsection \<open>Submitting keeps it\<close>

lemma set_insert_job [simp]: "set (insert_job q qs) = insert q (set qs)"
proof -
  have "set (takeWhile P qs) \<union> set (dropWhile P qs) = set qs" for P
    by (metis set_append takeWhile_dropWhile_id)
  then show ?thesis unfolding insert_job_def by auto
qed

lemma length_insert_job [simp]: "length (insert_job q qs) = Suc (length qs)"
proof -
  have "length (takeWhile P qs) + length (dropWhile P qs) = length qs" for P
    by (metis length_append takeWhile_dropWhile_id)
  then show ?thesis by (simp add: insert_job_def)
qed

lemma insert_job_sorted:
  assumes "sorted_wrt (\<lambda>p q. op_rank (entry_op p) \<le> op_rank (entry_op q)) qs"
  shows "sorted_wrt (\<lambda>p q. op_rank (entry_op p) \<le> op_rank (entry_op q)) (insert_job q qs)"
proof -
  let ?R = "\<lambda>p q. op_rank (entry_op p) \<le> op_rank (entry_op q)" and ?P = "\<lambda>p. entry_op p \<noteq> Poll"
  have poll: "\<forall>p \<in> set (dropWhile ?P qs). op_rank (entry_op p) = 2"
  proof (cases "dropWhile ?P qs")
    case (Cons p ps)
    have "entry_op p = Poll" using hd_dropWhile [of ?P qs] Cons by simp
    moreover have "sorted_wrt ?R (p # ps)" unfolding Cons [symmetric] using assms
      by (metis sorted_wrt_append takeWhile_dropWhile_id)
    ultimately have "\<forall>x \<in> set ps. 2 \<le> op_rank (entry_op x)" by (auto simp: op_rank_def job_release_def)
    with \<open>entry_op p = Poll\<close> Cons show ?thesis by (auto simp: op_rank_def job_release_def split: if_splits)
  next
    case Nil
    then show ?thesis by (simp only: list.set ball_empty)
  qed
  have split: "sorted_wrt ?R (takeWhile ?P qs)" "sorted_wrt ?R (dropWhile ?P qs)"
    "\<forall>x \<in> set (takeWhile ?P qs). \<forall>y \<in> set (dropWhile ?P qs). ?R x y"
    using assms by (metis sorted_wrt_append takeWhile_dropWhile_id)+
  have le2: "op_rank op \<le> 2" for op by (simp add: op_rank_def)
  have early: "\<forall>x \<in> set (takeWhile ?P qs). op_rank (entry_op x) \<le> 1" by (auto simp: op_rank_def dest!: set_takeWhileD)
  consider "job_release (entry_op q)" | "\<not> job_release (entry_op q)" "entry_op q = Poll" | "\<not> job_release (entry_op q)" "entry_op q \<noteq> Poll" by blast
  then show ?thesis
  proof cases
    case 1
    with assms show ?thesis by (simp add: insert_job_def op_rank_def)
  next
    case 2
    have "op_rank (entry_op x) \<le> op_rank Poll" for x using le2 by (simp add: op_rank_def job_release_def)
    with 2 assms show ?thesis by (simp add: insert_job_def sorted_wrt_append)
  next
    case 3
    then have "op_rank (entry_op q) = 1" by (simp add: op_rank_def)
    with 3 split poll early show ?thesis by (simp add: insert_job_def sorted_wrt_append)
  qed
qed

lemma live_keys_follower:
  assumes "distinct (map (\<lambda>q. jb_id (qe_job q)) qs)" "\<exists>q \<in> set qs. jb_id (qe_job q) = k"
  shows "live_keys (map (add_follower k j) qs) = live_keys qs + {#job_key j#}"
proof -
  have other: "k \<notin> (\<lambda>q. jb_id (qe_job q)) ` set ps \<Longrightarrow> map (add_follower k j) ps = ps" for ps
    by (induction ps) (auto simp: add_follower_def)
  show ?thesis using assms
  proof (induction qs)
    case (Cons q qs)
    show ?case
    proof (cases "jb_id (qe_job q) = k")
      case True
      with Cons.prems(1) have "map (add_follower k j) qs = qs" by (intro other) auto
      moreover have "entry_keys (add_follower k j q) = entry_keys q + {#job_key j#}"
        using True by (simp add: add_follower_def entry_keys_def entry_jobs_def)
      ultimately show ?thesis by simp
    next
      case False
      with Cons show ?thesis by (simp add: add_follower_def)
    qed
  qed simp
qed

lemma follower_frame [simp]: "qe_job (add_follower k j q) = qe_job q"
  by (simp add: add_follower_def)

lemma poll_keys_simps [simp]: "poll_keys v (K + L) = poll_keys v K + poll_keys v L"
  "poll_keys v (add_mset (k, i, op) K) = (if i = v \<and> op = Poll then Suc (poll_keys v K) else poll_keys v K)" "poll_keys v {#} = 0"
  by (simp_all add: poll_keys_def)

text \<open>What \<open>submit\<close> does under the lock once the queue is ready, as an operation of its own.\<close>

definition enqueue_job :: "job \<Rightarrow> 'b worker \<Rightarrow> 'b worker" where
  "enqueue_job j w = (case (job_release (jb_op j), bw_off_jobs w (jb_index j)) of
     (True, Some k) \<Rightarrow> w\<lparr>bw_next := bw_next w + 1, bw_outstanding := bw_outstanding w + 1,
        bw_head := map (add_follower k j) (bw_head w), bw_running := map_option (add_follower k j) (bw_running w)\<rparr>
   | _ \<Rightarrow> w\<lparr>bw_next := bw_next w + 1, bw_outstanding := bw_outstanding w + 1,
        bw_head := insert_job \<lparr>qe_job = j, qe_followers = []\<rparr> (bw_head w), bw_queued := bw_queued w + 1,
        bw_polls := (if jb_op j = Poll then (bw_polls w)(jb_index j := True) else bw_polls w),
        bw_off_jobs := (if job_release (jb_op j) then (bw_off_jobs w)(jb_index j := Some (jb_id j)) else bw_off_jobs w)\<rparr>)"

definition new_job :: "nat \<Rightarrow> nat \<Rightarrow> nat \<Rightarrow> operation \<Rightarrow> nat option \<Rightarrow> job" where
  "new_job k v active op complete = \<lparr>jb_id = k, jb_index = v, jb_active = active, jb_op = op, jb_complete = complete, jb_failed = False,
     jb_cancelled = False, jb_observed = None, jb_ptt = False, jb_properties = []\<rparr>"

definition ready :: "operation \<Rightarrow> nat \<Rightarrow> 'b worker \<Rightarrow> 'b worker" where
  "ready op v w = (if job_release op then cancel_where (\<lambda>q. entry_op q = Ptt True \<and> entry_index q = v) w else w)"

text \<open>When a submission is accepted, and not merged with a poll already waiting.\<close>

definition admitted :: "bool \<Rightarrow> nat \<Rightarrow> operation \<Rightarrow> 'b worker \<Rightarrow> bool" where
  "admitted halted v op w \<longleftrightarrow> v < bw_vfos w \<and> (halted \<longrightarrow> allowed_when_halted op) \<and> \<not> bw_stopping w \<and>
     bw_outstanding w < BACKEND_QUEUE_LIMIT + bw_vfos w \<and> (job_release op \<or> bw_outstanding w < BACKEND_QUEUE_LIMIT)"

lemma submit_cases:
  "rr_backend_worker_submit halted (Some v) active op complete w =
     (if \<not> admitted halted v op w then (True, w)
      else if op = Poll \<and> bw_polls w v then (False, w)
      else (False, enqueue_job (new_job (bw_next w) v active op complete) (ready op v w)))"
proof -
  have n: "bw_next (ready op v w) = bw_next w" by (simp add: ready_def)
  show ?thesis
    by (simp add: rr_backend_worker_submit_def Let_def admitted_def not_less not_le enqueue_job_def new_job_def n flip: ready_def
        split: option.split bool.split) (auto simp: ready_def not_less)
qed

lemma enqueue_inv:
  assumes inv: "worker_inv n v w" and j: "jb_id j = bw_next w" "jb_op j = Poll \<Longrightarrow> \<not> bw_polls w (jb_index j)"
    and open_: "\<not> bw_exited w" and room: "bw_outstanding w < BACKEND_QUEUE_LIMIT + bw_vfos w"
  shows "worker_inv n v (enqueue_job j w)"
proof -
  note D = worker_invD [OF inv]
  have ids: "ids_of u = mset [0..<bw_next u]" if "keys u = keys w + {#job_key j#}" "bw_completed u = bw_completed w" "bw_next u = bw_next w + 1" for u
    using that D(3) j(1) by (simp add: ids_of_def job_key_def)
  show ?thesis
  proof (cases "job_release (jb_op j) \<and> bw_off_jobs w (jb_index j) \<noteq> None")
    case True
    then obtain k where k: "bw_off_jobs w (jb_index j) = Some k" "jb_op j = Ptt False" by (auto simp: job_release_def)
    let ?u = "w\<lparr>bw_next := bw_next w + 1, bw_outstanding := bw_outstanding w + 1,
        bw_head := map (add_follower k j) (bw_head w), bw_running := map_option (add_follower k j) (bw_running w)\<rparr>"
    have u: "enqueue_job j w = ?u" using True k by (simp add: enqueue_job_def)
    have live: "live ?u = map (add_follower k j) (live w)" by (simp add: live_def split: option.split)
    have "\<exists>q \<in> set (live w). jb_id (qe_job q) = k" using D(5) [of "jb_index j" k] k(1) by (auto simp: release_at_def)
    from live_keys_follower [OF live_distinct [OF D(3)] this]
    have keys: "keys ?u = keys w + {#job_key j#}" by (simp only: keys_split live) simp
    have "release_at (live ?u) i m = release_at (live w) i m" for i m by (simp only: release_at_def live) simp
    then show ?thesis unfolding u
      by (intro worker_invI) (use D keys ids [of ?u] room open_ k in \<open>simp_all add: sorted_wrt_map no_old_keydown_def job_key_def\<close>)
  next
    case False
    let ?q = "\<lparr>qe_job = j, qe_followers = []\<rparr>"
    let ?u = "w\<lparr>bw_next := bw_next w + 1, bw_outstanding := bw_outstanding w + 1, bw_head := insert_job ?q (bw_head w), bw_queued := bw_queued w + 1,
        bw_polls := (if jb_op j = Poll then (bw_polls w)(jb_index j := True) else bw_polls w),
        bw_off_jobs := (if job_release (jb_op j) then (bw_off_jobs w)(jb_index j := Some (jb_id j)) else bw_off_jobs w)\<rparr>"
    have u: "enqueue_job j w = ?u" using False by (auto simp: enqueue_job_def split: bool.split)
    have set: "set (live ?u) = insert ?q (set (live w))" by (auto simp: live_def)
    have keys: "keys ?u = keys w + {#job_key j#}"
      by (simp add: keys_split live_def live_keys_insert) (simp add: entry_keys_def entry_jobs_def ac_simps)
    have rel: "release_at (live ?u) i m \<longleftrightarrow> release_at (live w) i m \<or> (jb_op j = Ptt False \<and> i = jb_index j \<and> m = jb_id j)" for i m
      unfolding release_at_def set by auto
    have off: "bw_off_jobs ?u i = Some m \<longleftrightarrow> release_at (live ?u) i m" for i m
      using False D(5) [of i m] D(5) [of "jb_index j" m] unfolding rel by (auto simp: job_release_def)
    have "no_old_keydown n v (bw_head ?u)" using D(9,10) j(1) by (simp add: no_old_keydown_def)
    then show ?thesis unfolding u
      by (intro worker_invI) (use D keys ids [of ?u] room open_ off j in \<open>auto simp: insert_job_sorted job_key_def\<close>)
  qed
qed

lemma submit_inv:
  assumes "worker_inv n v w"
  shows "worker_inv n v (snd (rr_backend_worker_submit halted index active op complete w))"
proof (cases index)
  case None
  with assms show ?thesis by (simp add: rr_backend_worker_submit_def)
next
  case (Some i)
  have r: "worker_inv n v (ready op i w)"
    using cancel_where_inv(1) [OF assms, of "\<lambda>q. entry_op q = Ptt True \<and> entry_index q = i"] assms by (simp add: ready_def)
  have "worker_inv n v (enqueue_job (new_job (bw_next w) i active op complete) (ready op i w))"
    if "admitted halted i op w" "\<not> (op = Poll \<and> bw_polls w i)"
    using that worker_invD(8) [OF assms]
    by (intro enqueue_inv [OF r]) (auto simp: new_job_def ready_def admitted_def)
  with assms show ?thesis unfolding Some submit_cases by simp
qed

subsection \<open>The worker's thread keeps it\<close>

lemma ids_cong: "keys u = keys w \<Longrightarrow> bw_completed u = bw_completed w \<Longrightarrow> ids_of u = ids_of w"
  by (simp add: ids_of_def)

lemma worker_take_inv:
  assumes inv: "worker_inv n v w"
  shows "worker_inv n v (worker_take w)"
proof (cases "bw_head w = [] \<or> bw_running w \<noteq> None \<or> bw_exited w")
  case True
  with inv show ?thesis by (auto simp: worker_take_def split: list.split)
next
  case False
  then obtain q qs where q: "bw_head w = q # qs" by (cases "bw_head w") auto
  let ?u = "w\<lparr>bw_running := Some q, bw_head := qs, bw_queued := bw_queued w - 1\<rparr>"
  have u: "worker_take w = ?u" using False q by (simp add: worker_take_def)
  note D = worker_invD [OF inv]
  have live: "live ?u = qs @ [q]" "live w = q # qs" using False q by (simp_all add: live_def)
  then have keys: "keys ?u = keys w" by (simp add: keys_split)
  have rel: "release_at (live ?u) i k = release_at (live w) i k" for i k by (simp only: release_at_def live) auto
  have ids: "ids_of ?u = ids_of w" by (rule ids_cong [OF keys]) simp
  have "bw_queued ?u = length qs" using D(1) q by simp
  moreover have "sorted_wrt (\<lambda>p q. op_rank (entry_op p) \<le> op_rank (entry_op q)) qs" "no_old_keydown n v qs"
    using D(4,10) q by (simp_all add: no_old_keydown_def)
  ultimately show ?thesis unfolding u
    by (intro worker_invI) (use D(2,3,5,6,7,9) False keys ids rel in simp_all)
qed

lemma execute_key: "job_key (fst (execute atoi api halted j io)) = job_key j"
  by (simp add: execute_def job_key_def Let_def split: prod.split)

lemma worker_run_inv:
  assumes inv: "worker_inv n v w"
  shows "worker_inv n v (worker_run atoi api halted w)"
proof (cases "bw_running w")
  case None
  with inv show ?thesis by (simp add: worker_run_def)
next
  case (Some q)
  obtain j io where e: "execute atoi api halted (qe_job q) (bw_io w) = (j, io)" by fastforce
  have key: "jb_id j = jb_id (qe_job q)" "jb_index j = entry_index q" "jb_op j = entry_op q"
    using execute_key [of atoi api halted "qe_job q" "bw_io w"] e by (simp_all add: job_key_def)
  let ?q = "q\<lparr>qe_job := j\<rparr>"
  let ?t = "w\<lparr>bw_running := None, bw_io := io, bw_keyed := (bw_keyed w)(jb_index j := jb_ptt j)\<rparr>"
  have u: "worker_run atoi api halted w = finish_job ?q ?t" using Some e by (simp add: worker_run_def)
  note D = worker_invD [OF inv]
  have live: "live w = bw_head w @ [q]" "live ?t = bw_head w" using Some by (simp_all add: live_def)
  have "entry_keys ?q = entry_keys q" using key by (simp add: entry_keys_def entry_jobs_def job_key_def)
  then have keys: "keys (finish_job ?q ?t) = keys w"
    unfolding keys_finish keys_split [of ?t] keys_split [of w] live by simp
  have dist: "distinct (map (\<lambda>q. jb_id (qe_job q)) (bw_head w @ [q]))" using live_distinct [OF D(3)] live by simp
  have off: "bw_off_jobs (finish_job ?q ?t) i = Some k \<longleftrightarrow> release_at (bw_head w) i k" for i k
  proof (cases "bw_off_jobs w i = Some (jb_id (qe_job q)) \<and> i = entry_index q")
    case True
    have "\<not> release_at (bw_head w) i k"
    proof
      assume r: "release_at (bw_head w) i k"
      then have "bw_off_jobs w i = Some k" using D(5) [of i k] by (auto simp: live release_at_def)
      with True have "k = jb_id (qe_job q)" by simp
      moreover from r have "k \<in> (\<lambda>q. jb_id (qe_job q)) ` set (bw_head w)" by (auto simp: release_at_def)
      ultimately show False using dist by simp
    qed
    with True show ?thesis by (auto simp: finish_job_off key)
  next
    case False
    have "release_at (bw_head w @ [q]) i k \<longleftrightarrow> release_at (bw_head w) i k \<or> entry_op q = Ptt False \<and> entry_index q = i \<and> jb_id (qe_job q) = k"
      by (auto simp: release_at_def)
    with False D(5) [of i k] show ?thesis by (auto simp: finish_job_off key live)
  qed
  have ids: "ids_of (finish_job ?q ?t) = ids_of w" by (rule ids_cong [OF keys]) simp
  show ?thesis unfolding u
    by (intro worker_invI) (use D Some keys ids off live in simp_all)
qed

lemma shutdown_release_inv:
  assumes "worker_inv n v w" "bw_exited w"
  shows "worker_inv n v (shutdown_release api exists i w) \<and> bw_exited (shutdown_release api exists i w)"
proof -
  note D = worker_invD [OF assms(1)]
  have l: "live w = []" "bw_head w = []" "bw_running w = None" using D(8) assms(2) by (auto simp: live_def split: option.splits)
  have off: "bw_off_jobs w k = None" for k using D(5) [of k] by (cases "bw_off_jobs w k") (auto simp: l release_at_def)
  have "worker_inv n v (finish_job \<lparr>qe_job = j, qe_followers = []\<rparr> (w\<lparr>bw_io := io, bw_outstanding := bw_outstanding w + 1, bw_next := bw_next w + 1\<rparr>))"
    if "jb_id j = bw_next w" for j io
  proof -
    let ?t = "w\<lparr>bw_io := io, bw_outstanding := bw_outstanding w + 1, bw_next := bw_next w + 1\<rparr>"
    let ?u = "finish_job \<lparr>qe_job = j, qe_followers = []\<rparr> ?t"
    have t: "live ?t = []" using l by (simp add: live_def)
    have keys: "keys ?u = keys w + {#job_key j#}"
      unfolding keys_finish keys_split [of ?t] keys_split [of w] t l(1) by (simp add: entry_keys_def entry_jobs_def)
    have ids: "ids_of ?u = mset [0..<bw_next w + 1]" using D(3) that unfolding ids_of_def keys by (simp add: job_key_def)
    show ?thesis
      by (intro worker_invI) (use D keys ids l t off assms(2) in \<open>simp_all add: finish_job_off release_at_def\<close>)
  qed
  note reported = this [simplified] this [where io = "bw_io w", simplified]
  from assms show ?thesis by (simp add: shutdown_release_def Let_def reported split: option.split bool.split)
qed

lemma shutdown_exited: "(shutdown_release api exists i w)\<lparr>bw_exited := True\<rparr> = shutdown_release api exists i (w\<lparr>bw_exited := True\<rparr>)"
  by (simp add: shutdown_release_def finish_job_def Let_def split: option.split bool.split)

lemma shutdown_fold_exited: "(fold (shutdown_release api exists) is w)\<lparr>bw_exited := True\<rparr> = fold (shutdown_release api exists) is (w\<lparr>bw_exited := True\<rparr>)"
  by (induction "is" arbitrary: w) (simp_all add: shutdown_exited)

lemma worker_exit_inv:
  assumes "worker_inv n v w"
  shows "worker_inv n v (worker_exit api exists w)"
proof (cases "\<not> bw_stopping w \<or> bw_head w \<noteq> [] \<or> bw_running w \<noteq> None \<or> bw_exited w")
  case True
  with assms show ?thesis by (simp add: worker_exit_def)
next
  case False
  then have "live w = []" by (simp add: live_def)
  then have s: "worker_inv n v (w\<lparr>bw_exited := True\<rparr>)" "bw_exited (w\<lparr>bw_exited := True\<rparr>)"
    using assms False by (simp_all add: worker_inv_def ids_of_def keys_def pending_def live_def)
  have "worker_inv n v u \<Longrightarrow> bw_exited u \<Longrightarrow> worker_inv n v (fold (shutdown_release api exists) is u)" for u "is"
    by (induction "is" arbitrary: u) (simp_all add: shutdown_release_inv)
  from this [OF s] show ?thesis using False by (simp add: worker_exit_def shutdown_fold_exited)
qed

subsection \<open>Draining keeps it\<close>

lemma drain_take_inv:
  assumes inv: "worker_inv n v w"
  shows "worker_inv n v (drain_take w)"
proof (cases "bw_draining w")
  case Nil
  let ?u = "w\<lparr>bw_draining := bw_done w, bw_done := []\<rparr>"
  note D = worker_invD [OF inv]
  have live: "live ?u = live w" by (simp add: live_def)
  then have keys: "keys ?u = keys w" by (simp add: keys_split Nil)
  have ids: "ids_of ?u = ids_of w" by (rule ids_cong [OF keys]) simp
  have u: "drain_take w = ?u" by (simp add: drain_take_def Nil)
  show ?thesis unfolding u by (rule worker_invI) (use D keys ids live in simp_all)
qed (use inv in \<open>simp add: drain_take_def\<close>)

lemma drain_one_inv:
  assumes inv: "worker_inv n v w"
  shows "worker_inv n v (drain_one w)"
proof (cases "bw_draining w")
  case Nil
  with inv show ?thesis by (simp add: drain_one_def)
next
  case (Cons job jobs)
  note D = worker_invD [OF inv]
  define j where "j = (if bw_stopping w \<and> jb_op job \<noteq> Ptt False then job\<lparr>jb_failed := True, jb_cancelled := True\<rparr> else job)"
  have j: "job_key j = job_key job" by (simp add: j_def job_key_def)
  let ?u = "drain_one w"
  have f: "bw_draining ?u = jobs" "bw_done ?u = bw_done w" "bw_head ?u = bw_head w" "bw_running ?u = bw_running w"
    "bw_outstanding ?u = bw_outstanding w - 1" "bw_polls ?u = (if jb_op j = Poll then (bw_polls w)(jb_index j := False) else bw_polls w)"
    "bw_completed ?u = bw_completed w @ [j]" "bw_queued ?u = bw_queued w" "bw_off_jobs ?u = bw_off_jobs w" "bw_next ?u = bw_next w"
    "bw_exited ?u = bw_exited w" "bw_stopping ?u = bw_stopping w" "bw_vfos ?u = bw_vfos w"
    unfolding drain_one_def Cons by (simp_all add: Let_def j_def)
  have live: "live ?u = live w" by (simp add: live_def f)
  have keys: "keys w = add_mset (job_key job) (keys ?u)" by (simp add: keys_split live f Cons)
  have ids: "ids_of ?u = ids_of w" using j by (simp add: ids_of_def keys job_key_def f)
  have polls: "poll_keys i (keys ?u) = (if bw_polls ?u i then 1 else 0)" if "\<not> bw_exited w" for i
    using D(6) [OF that, of i] j by (auto simp: keys job_key_def f split: if_splits)
  have size: "bw_outstanding ?u = size (keys ?u)" using D(2) by (simp add: keys f)
  have limit: "bw_outstanding ?u \<le> BACKEND_QUEUE_LIMIT + bw_vfos w" if "\<not> bw_exited w" using D(7) [OF that] by (simp add: f)
  show ?thesis
    by (rule worker_invI) (use D(1,3,4,5,8,9,10) ids polls size limit live in \<open>simp_all add: f del: One_nat_def\<close>)
qed

lemma worker_step_inv: "worker_inv n v w \<Longrightarrow> worker_inv n v (worker_step env e w)"
  by (cases e) (simp_all add: submit_inv worker_take_inv worker_run_inv worker_exit_inv drain_take_inv drain_one_inv worker_stop_inv)

interpretation worker_queue: machine "worker_step env" "worker_inv n v"
  by unfold_locales (rule worker_step_inv)

lemma worker_start_inv: "worker_inv 0 v (rr_backend_worker_start vfos supported io)"
  by (simp add: worker_inv_def rr_backend_worker_start_def ids_of_def keys_def pending_def live_def release_at_def no_old_keydown_def)

section \<open>Stopping\<close>

text \<open>One turn of the loop of \<open>worker_main\<close> while nothing is submitted: the job at hand is run, the next one taken.\<close>

definition worker_turn :: "'b worker_env \<Rightarrow> bool \<Rightarrow> 'b worker \<Rightarrow> 'b worker" where
  "worker_turn env halted w = worker_take (worker_run (we_atoi env) (we_api env) halted w)"

text \<open>
  \<open>rr_backend_worker_stop\<close>: the queue is cut down to releases, the join waits for the thread to work through
  them and leave, and what it finished is drained. One turn more than the queue is long is enough.
\<close>

definition rr_backend_worker_stop :: "'b worker_env \<Rightarrow> bool \<Rightarrow> 'b worker \<Rightarrow> 'b worker" where
  "rr_backend_worker_stop env halted w =
     (let w1 = worker_stop w in
      rr_backend_worker_drain
        (worker_exit (we_api env) (we_exists env) ((worker_turn env halted ^^ Suc (length (bw_head w1))) w1)))"

lemma worker_turn_inv: "worker_inv n v w \<Longrightarrow> worker_inv n v (worker_turn env halted w)"
  by (simp add: worker_turn_def worker_take_inv worker_run_inv)

lemma worker_run_frame:
  "bw_head (worker_run atoi api h w) = bw_head w" "bw_running (worker_run atoi api h w) = None" "bw_exited (worker_run atoi api h w) = bw_exited w"
  "bw_stopping (worker_run atoi api h w) = bw_stopping w" "bw_draining (worker_run atoi api h w) = bw_draining w"
  "bw_completed (worker_run atoi api h w) = bw_completed w"
  by (simp_all add: worker_run_def split: option.split prod.split)

lemma worker_turn_frame:
  assumes "\<not> bw_exited w"
  shows "bw_head (worker_turn env h w) = tl (bw_head w)"
    "bw_running (worker_turn env h w) = (case bw_head w of [] \<Rightarrow> None | q # _ \<Rightarrow> Some q)"
    "bw_exited (worker_turn env h w) = bw_exited w" "bw_stopping (worker_turn env h w) = bw_stopping w"
    "bw_draining (worker_turn env h w) = bw_draining w" "bw_completed (worker_turn env h w) = bw_completed w"
  using assms by (simp_all add: worker_turn_def worker_take_def worker_run_frame split: list.split)

lemma worker_turns:
  assumes "\<not> bw_exited w" "worker_inv n v w"
  shows "let u = (worker_turn env h ^^ Suc (length (bw_head w))) w in
    bw_head u = [] \<and> bw_running u = None \<and> \<not> bw_exited u \<and> bw_stopping u = bw_stopping w \<and> bw_draining u = bw_draining w \<and>
    bw_completed u = bw_completed w \<and> worker_inv n v u"
  using assms
proof (induction "length (bw_head w)" arbitrary: w)
  case 0
  then have "bw_head w = []" by simp
  with 0 show ?case by (simp add: Let_def worker_turn_frame worker_turn_inv)
next
  case (Suc m)
  let ?t = "worker_turn env h w"
  have m: "m = length (bw_head ?t)" "length (bw_head w) = Suc (length (bw_head ?t))"
    using Suc.hyps(2) by (simp_all add: worker_turn_frame [OF Suc.prems(1)])
  have "\<not> bw_exited ?t" "worker_inv n v ?t"
    using Suc.prems by (simp_all add: worker_turn_frame worker_turn_inv)
  from Suc.hyps(1) [OF m(1) this] show ?case
    unfolding m(2) funpow_Suc_right comp_def by (simp add: Let_def worker_turn_frame [OF Suc.prems(1)])
qed

definition drained :: "bool \<Rightarrow> job \<Rightarrow> job" where
  "drained stopping job = (if stopping \<and> jb_op job \<noteq> Ptt False then job\<lparr>jb_failed := True, jb_cancelled := True\<rparr> else job)"

lemma drain_all:
  "bw_draining ((drain_one ^^ length (bw_draining w)) w) = [] \<and> bw_done ((drain_one ^^ length (bw_draining w)) w) = bw_done w \<and>
   live ((drain_one ^^ length (bw_draining w)) w) = live w \<and> bw_next ((drain_one ^^ length (bw_draining w)) w) = bw_next w \<and>
   bw_completed ((drain_one ^^ length (bw_draining w)) w) = bw_completed w @ map (drained (bw_stopping w)) (bw_draining w)"
proof (induction "bw_draining w" arbitrary: w)
  case (Cons job jobs)
  let ?u = "drain_one w"
  have f: "bw_draining ?u = jobs" "bw_done ?u = bw_done w" "live ?u = live w" "bw_stopping ?u = bw_stopping w" "bw_next ?u = bw_next w"
    "bw_completed ?u = bw_completed w @ [drained (bw_stopping w) job]"
    unfolding drain_one_def Cons.hyps(2) [symmetric] by (simp_all add: Let_def live_def drained_def)
  have l: "length (bw_draining w) = Suc (length (bw_draining ?u))" using Cons.hyps(2) f(1) by (metis length_Cons)
  show ?case unfolding l funpow_Suc_right comp_def using Cons.hyps(1) [OF f(1) [symmetric]] Cons.hyps(2) f by (simp flip: Cons.hyps(2))
qed simp

lemma drain_one_invs: "worker_inv n v w \<Longrightarrow> worker_inv n v ((drain_one ^^ k) w)"
  by (induction k) (simp_all add: drain_one_inv)

text \<open>Leaving, the thread releases every VFO it left keyed.\<close>

lemma worker_exit_releases:
  assumes "bw_stopping w" "bw_head w = []" "bw_running w = None" "\<not> bw_exited w" "ba_ptt_set api = Some f"
  shows "bw_io (worker_exit api exists w) =
    fold (\<lambda>i io. if bw_keyed w i \<and> exists i then snd (f i False io) else io) [0..<bw_vfos w] (bw_io w)"
proof -
  have "bw_io (fold (shutdown_release api exists) is u) = fold (\<lambda>i io. if bw_keyed u i \<and> exists i then snd (f i False io) else io) is (bw_io u)"
    for "is" u
  proof (induction "is" arbitrary: u)
    case (Cons i "is")
    have "bw_io (shutdown_release api exists i u) = (if bw_keyed u i \<and> exists i then snd (f i False (bw_io u)) else bw_io u)"
      "bw_keyed (shutdown_release api exists i u) = bw_keyed u"
      by (simp_all add: shutdown_release_def assms(5) finish_job_def Let_def split: bool.split)
    with Cons show ?case by simp
  qed simp
  with assms show ?thesis by (simp add: worker_exit_def)
qed

lemma worker_exit_frame:
  assumes "bw_stopping w" "bw_head w = []" "bw_running w = None" "\<not> bw_exited w"
  shows "live (worker_exit api exists w) = []" "bw_stopping (worker_exit api exists w)"
    "bw_draining (worker_exit api exists w) = bw_draining w" "bw_completed (worker_exit api exists w) = bw_completed w"
proof -
  have "bw_head (fold (shutdown_release api exists) is u) = bw_head u \<and> bw_running (fold (shutdown_release api exists) is u) = bw_running u \<and>
      bw_stopping (fold (shutdown_release api exists) is u) = bw_stopping u \<and> bw_draining (fold (shutdown_release api exists) is u) = bw_draining u \<and>
      bw_completed (fold (shutdown_release api exists) is u) = bw_completed u" for "is" u
  proof (induction "is" arbitrary: u)
    case (Cons i "is")
    have "bw_head (shutdown_release api exists i u) = bw_head u \<and> bw_running (shutdown_release api exists i u) = bw_running u \<and>
        bw_stopping (shutdown_release api exists i u) = bw_stopping u \<and> bw_draining (shutdown_release api exists i u) = bw_draining u \<and>
        bw_completed (shutdown_release api exists i u) = bw_completed u"
      by (simp add: shutdown_release_def Let_def split: bool.split option.split)
    with Cons show ?case by simp
  qed simp
  with assms show "live (worker_exit api exists w) = []" "bw_stopping (worker_exit api exists w)"
    "bw_draining (worker_exit api exists w) = bw_draining w" "bw_completed (worker_exit api exists w) = bw_completed w"
    by (simp_all add: worker_exit_def live_def)
qed

section \<open>Properties\<close>

definition worker_after :: "'b worker_env \<Rightarrow> nat \<Rightarrow> (nat \<Rightarrow> bool) \<Rightarrow> 'b \<Rightarrow> worker_event list \<Rightarrow> 'b worker" where
  "worker_after env vfos supported io es = fold (worker_step env) es (rr_backend_worker_start vfos supported io)"

lemma worker_after_inv: "worker_inv 0 v (worker_after env vfos supported io es)"
  unfolding worker_after_def by (rule worker_queue.run_inv [OF worker_start_inv])

lemma poll_keys_length: "poll_keys v (image_mset job_key (mset js)) = length (filter (\<lambda>j. jb_index j = v \<and> jb_op j = Poll) js)"
  by (induction js) (simp_all add: job_key_def)

lemma ids_of_jobs: "ids_of w = mset (map jb_id (pending w @ bw_completed w))"
  by (simp add: ids_of_def keys_def image_mset.compositionality comp_def job_key_def)

text \<open>
  C4. No job is lost, repeated or stuck in the count. In every state the two threads reach, the jobs accepted so far
  are numbered \<open>0, 1, \<dots>\<close> and each is exactly once either pending (queued, waiting behind another release, running,
  finished or being drained) or completed; the two counters are the lengths they stand for; the queue has
  releases first and polls last. Until the thread has left, at most \<open>BACKEND_QUEUE_LIMIT + MAX_VFOS\<close> jobs are pending
  and at most one poll of each VFO.
\<close>

theorem worker_every_job_once:
  fixes env :: "'b worker_env" and vfos supported io es
  defines "w \<equiv> worker_after env vfos supported io es"
  shows "mset (map jb_id (pending w @ bw_completed w)) = mset [0..<bw_next w] \<and>
    bw_outstanding w = length (pending w) \<and> bw_queued w = length (bw_head w) \<and>
    sorted_wrt (\<lambda>p q. op_rank (entry_op p) \<le> op_rank (entry_op q)) (bw_head w) \<and>
    (\<not> bw_exited w \<longrightarrow> bw_outstanding w \<le> BACKEND_QUEUE_LIMIT + bw_vfos w \<and>
      (\<forall>v. length (filter (\<lambda>j. jb_index j = v \<and> jb_op j = Poll) (pending w)) \<le> 1))"
proof -
  note D = worker_invD [OF worker_after_inv [of _ env vfos supported io es, folded w_def]]
  have "length (filter (\<lambda>j. jb_index j = v \<and> jb_op j = Poll) (pending w)) \<le> 1" if "\<not> bw_exited w" for v
    using D(6) [OF that, of v] by (simp add: keys_def poll_keys_length split: if_splits)
  moreover have "mset (map jb_id (pending w @ bw_completed w)) = mset [0..<bw_next w]" using D(3) unfolding ids_of_jobs .
  moreover have "bw_outstanding w = length (pending w)" using D(2) by (simp add: keys_def)
  ultimately show ?thesis using D(1,4,7) by blast
qed

text \<open>
  C6. A release overtakes. Once a release of a VFO is accepted it is queued or running, or waits for one that is, and no
  key-down of that VFO accepted before it is ever in the queue again, so none can still be started.
\<close>

theorem worker_release_first:
  fixes env :: "'b worker_env"
  assumes "rr_backend_worker_submit halted (Some v) active (Ptt False) complete (worker_after env vfos supported io es) = (False, s)"
    and "t = fold (worker_step env) later s"
  shows "(\<exists>k. release_at (live s) v k) \<and>
    (\<forall>q \<in> set (bw_head t). entry_op q = Ptt True \<and> entry_index q = v \<longrightarrow> bw_next (worker_after env vfos supported io es) \<le> jb_id (qe_job q))"
proof -
  let ?w = "worker_after env vfos supported io es"
  have adm: "admitted halted v (Ptt False) ?w" and s: "s = enqueue_job (new_job (bw_next ?w) v active (Ptt False) complete) (ready (Ptt False) v ?w)"
    using assms(1) unfolding submit_cases by (simp_all split: if_splits)
  have inv: "worker_inv 0 v s" using submit_inv [OF worker_after_inv, of v halted "Some v" active "Ptt False" complete] assms(1) by (metis snd_conv)
  have "no_old_keydown (bw_next ?w) v (bw_head s)"
    by (auto simp: s enqueue_job_def new_job_def ready_def job_release_def no_old_keydown_def insert_job_def split: option.split)
  moreover have "bw_next s = bw_next ?w + 1"
    by (simp add: s enqueue_job_def ready_def split: option.split bool.split)
  ultimately have "worker_inv (bw_next ?w) v s" using worker_inv_param [OF inv] by simp
  then have "worker_inv (bw_next ?w) v t" unfolding assms(2) by (rule worker_queue.run_inv)
  then have "no_old_keydown (bw_next ?w) v (bw_head t)" by (rule worker_invD(10))
  moreover have "bw_off_jobs s v \<noteq> None"
    by (simp add: s enqueue_job_def new_job_def ready_def job_release_def split: option.split)
  then have "\<exists>k. release_at (live s) v k" using worker_invD(5) [OF inv] by blast
  ultimately show ?thesis by (simp add: no_old_keydown_def)
qed

text \<open>
  C8. Stopping finishes everything. Stopping a worker between drains, whatever was queued or running, ends with no job
  pending and every job ever accepted completed exactly once; of those only releases count as carried out.
\<close>

theorem worker_stop_completes:
  fixes env :: "'b worker_env" and vfos supported io es halted
  defines "w \<equiv> worker_after env vfos supported io es"
  defines "s \<equiv> rr_backend_worker_stop env halted w"
  assumes "bw_draining w = []" "\<not> bw_exited w"
  shows "pending s = [] \<and> bw_outstanding s = 0 \<and> mset (map jb_id (bw_completed s)) = mset [0..<bw_next s] \<and>
    (\<exists>js. bw_completed s = bw_completed w @ js \<and> list_all (\<lambda>j. jb_op j = Ptt False \<or> jb_failed j \<and> jb_cancelled j) js)"
proof -
  let ?w1 = "worker_stop w"
  let ?w2 = "(worker_turn env halted ^^ Suc (length (bw_head ?w1))) ?w1"
  let ?w3 = "worker_exit (we_api env) (we_exists env) ?w2"
  have w1: "\<not> bw_exited ?w1" "bw_stopping ?w1" "bw_draining ?w1 = []" "bw_completed ?w1 = bw_completed w" "worker_inv 0 0 ?w1"
    using assms(3,4) worker_stop_inv [OF worker_after_inv] by (simp_all add: worker_stop_def w_def)
  note w2 = worker_turns [OF w1(1,5), of env halted, unfolded Let_def]
  have w3: "live ?w3 = []" "bw_stopping ?w3" "bw_draining ?w3 = []" "bw_completed ?w3 = bw_completed w" "worker_inv 0 0 ?w3"
    using w2 w1 worker_exit_frame [of ?w2] by (auto intro: worker_exit_inv)
  let ?t = "drain_take ?w3"
  have t: "live ?t = []" "bw_stopping ?t" "bw_done ?t = []" "bw_completed ?t = bw_completed w"
    using w3 by (simp_all add: drain_take_def live_def)
  have "worker_inv 0 0 ?t" by (rule drain_take_inv [OF w3(5)])
  note t = t this
  have s: "s = (drain_one ^^ length (bw_draining ?t)) ?t"
    by (simp add: s_def rr_backend_worker_stop_def rr_backend_worker_drain_def Let_def)
  note d = drain_all [of ?t, folded s]
  have p: "pending s = []" using d t by (simp add: pending_def)
  have inv: "worker_inv 0 0 s" unfolding s by (rule drain_one_invs [OF t(5)])
  have "bw_outstanding s = 0" using worker_invD(2) [OF inv] by (simp add: keys_def p)
  moreover have "mset (map jb_id (bw_completed s)) = mset [0..<bw_next s]" using worker_invD(3) [OF inv] by (simp add: ids_of_jobs p)
  moreover have "list_all (\<lambda>j. jb_op j = Ptt False \<or> jb_failed j \<and> jb_cancelled j) (map (drained True) js)" for js
    by (induction js) (simp_all add: drained_def)
  ultimately show ?thesis using p d t by simp
qed

text \<open>A driver that only has PTT and remembers what it was told.\<close>

definition demo_driver_api :: "(nat \<times> bool) list backend_api" where
  "demo_driver_api = \<lparr>ba_poll = None, ba_freq_set = None, ba_mode_set = None, ba_width_set = None, ba_power_set = None,
     ba_vfo_swap = None, ba_split_mode = None, ba_ptt_set = Some (\<lambda>v on io. (False, io @ [(v, on)])),
     ba_ptt_get = Some (\<lambda>v io. (fold (\<lambda>(u, on) k. if u = v then on else k) io False, io)),
     ba_rig_control_set = None, ba_menu_read = None, ba_menu_write = None\<rparr>"

definition demo_worker_env :: "(nat \<times> bool) list worker_env" where
  "demo_worker_env = \<lparr>we_atoi = (\<lambda>_. 0), we_api = demo_driver_api, we_exists = (\<lambda>_. True)\<rparr>"

text \<open>VFO 0 is keyed; a poll, a second key-down and a frequency are queued behind it.\<close>

definition demo_worker_events :: "worker_event list" where
  "demo_worker_events = [Submit False (Some 0) 0 (Ptt True) (Some 7), Take, Run False, DrainTake, DrainOne,
     Submit False (Some 1) 0 Poll None, Submit False (Some 0) 0 (Ptt True) (Some 8), Submit False (Some 1) 0 (Freq 7074000) None]"

definition demo_worker :: "(nat \<times> bool) list worker" where
  "demo_worker = worker_after demo_worker_env 2 (\<lambda>_. True) [] demo_worker_events"

lemma worker_every_job_once_witness:
  "map (\<lambda>q. jb_id (qe_job q)) (bw_head demo_worker) = [2, 3, 1] \<and> bw_outstanding demo_worker = 3 \<and> bw_outstanding demo_worker \<le> 66 \<and>
     length (filter (\<lambda>j. jb_index j = 1 \<and> jb_op j = Poll) (pending demo_worker)) \<le> 1"
proof -
  have "map (\<lambda>q. jb_id (qe_job q)) (bw_head demo_worker) = [2, 3, 1]" "bw_outstanding demo_worker = 3" "\<not> bw_exited demo_worker"
    "BACKEND_QUEUE_LIMIT + bw_vfos demo_worker = 66" by code_simp+
  with worker_every_job_once [of demo_worker_env 2 "\<lambda>_. True" "[]" demo_worker_events, folded demo_worker_def] show ?thesis by simp
qed

lemma worker_release_first_witness:
  "\<exists>s. rr_backend_worker_submit True (Some 0) 0 (Ptt False) (Some 9) demo_worker = (False, s) \<and>
     map (\<lambda>q. jb_id (qe_job q)) (bw_head s) = [4, 3, 1] \<and>
     (\<forall>q \<in> set (bw_head (fold (worker_step demo_worker_env) [Take, Run False] s)).
        entry_op q = Ptt True \<and> entry_index q = 0 \<longrightarrow> 4 \<le> jb_id (qe_job q))"
proof -
  let ?r = "rr_backend_worker_submit True (Some 0) 0 (Ptt False) (Some 9) demo_worker"
  have "\<not> fst ?r" "map (\<lambda>q. jb_id (qe_job q)) (bw_head (snd ?r)) = [4, 3, 1]" "bw_next demo_worker = 4" by code_simp+
  with worker_release_first [of True 0 0 "Some 9" demo_worker_env 2 "\<lambda>_. True" "[]" demo_worker_events "snd ?r"
      "fold (worker_step demo_worker_env) [Take, Run False] (snd ?r)" "[Take, Run False]", folded demo_worker_def]
  show ?thesis by (intro exI [of _ "snd ?r"]) (simp add: prod_eq_iff)
qed

lemma worker_stop_completes_witness:
  "bw_keyed demo_worker 0 \<and> bw_io demo_worker = [(0, True)] \<and>
     pending (rr_backend_worker_stop demo_worker_env False demo_worker) = [] \<and>
     bw_io (rr_backend_worker_stop demo_worker_env False demo_worker) = [(0, True), (0, False)]"
proof -
  have "bw_keyed demo_worker 0" "bw_io demo_worker = [(0, True)]" "bw_draining demo_worker = []" "\<not> bw_exited demo_worker"
    "bw_io (rr_backend_worker_stop demo_worker_env False demo_worker) = [(0, True), (0, False)]" by code_simp+
  with worker_stop_completes [of demo_worker_env 2 "\<lambda>_. True" "[]" demo_worker_events, folded demo_worker_def, of False] show ?thesis by simp
qed

end
