(* ===== verification/Protection.thy ===== *)
theory Protection
  imports PttControl Complex_Main
begin

text \<open>
  \<^verbatim>\<open>rrserver/faults.c\<close>, \<^verbatim>\<open>thermal.c\<close>, \<^verbatim>\<open>protection.c\<close> and the fault timer of \<^verbatim>\<open>main.c\<close>: what stops the
  transmitter when something goes wrong. The interlock \<open>rig.tx_blocked\<close> and the forced release are those of
  \<open>PttControl\<close>. A \<open>float\<close> is NaN, an infinity or a rational; \<open>to_u32\<close> is C's conversion of a float to an
  unsigned integer, which C defines only inside the range. The warm-up clock is in seconds. Log messages and
  the event \<open>protection\<close> are not modelled.
\<close>

section \<open>Faults\<close>

text \<open>Code, whether it is fatal, and its text, as in \<open>fault_table\<close>.\<close>

definition FAULT_NONE :: "32 word" where "FAULT_NONE = 0x00"
definition FAULT_HIGH_SWR :: "32 word" where "FAULT_HIGH_SWR = 0x04"
definition FAULT_TOT_TIMEOUT :: "32 word" where "FAULT_TOT_TIMEOUT = 0x0a"
definition FAULT_CAT_ERROR :: "32 word" where "FAULT_CAT_ERROR = 0xc2"
definition FAULT_UNKNOWN :: "32 word" where "FAULT_UNKNOWN = 0x64"

definition fault_table :: "(32 word \<times> bool \<times> string) list" where
  "fault_table = [
     (FAULT_NONE, False, ''None''),
     (0x01, True, ''RELAY''),
     (0x02, True, ''THERM_IN''),
     (0x03, True, ''THERM_BOX''),
     (FAULT_HIGH_SWR, True, ''SWR''),
     (0x05, True, ''THERM_FIN''),
     (0x06, True, ''F Lo Curr''),
     (0x07, True, ''F Hi Curr''),
     (0x08, True, ''F Lo Volt''),
     (0x09, True, ''F Hi Volt''),
     (FAULT_TOT_TIMEOUT, True, ''TIMEOUT''),
     (0x0b, False, ''WARM UP''),
     (0xc0, False, ''IO INIT''),
     (0xc1, False, ''BACKEND''),
     (FAULT_CAT_ERROR, False, ''CAT INIT''),
     (FAULT_UNKNOWN, True, ''UNK. ERR'')]"

definition fault_entry :: "32 word \<Rightarrow> (32 word \<times> bool \<times> string) option" where
  "fault_entry fault = List.find (\<lambda>(code, _). code = fault) fault_table"

text \<open>The priority is the code itself, converted to \<open>int\<close>.\<close>

definition fault_priority :: "32 word \<Rightarrow> int" where
  "fault_priority fault = (case fault_entry fault of Some (code, _) \<Rightarrow> sint code | None \<Rightarrow> sint fault)"

definition fault_get_type_str :: "32 word \<Rightarrow> cstr" where
  "fault_get_type_str fault = map_option (\<lambda>(_, _, msg). msg) (fault_entry fault)"

definition fault_is_fatal :: "32 word \<Rightarrow> bool" where
  "fault_is_fatal fault = (case fault_entry fault of Some (_, fatal, _) \<Rightarrow> fatal | None \<Rightarrow> False)"

text \<open>The part of \<open>GlobalState\<close> the protections use.\<close>

datatype float_value = NaN | NInf | Finite rat | PInf

record guard =
  gd_fault_code :: "32 word"
  gd_faults :: "32 word"
  gd_therm_inlet :: float_value
  gd_therm_enclosure :: float_value
  gd_amps :: "float_value list"
  gd_atus :: "float_value list"
  gd_filters :: "float_value list"
  gd_ptt :: ptt_state

definition set_fault :: "32 word \<Rightarrow> guard \<Rightarrow> guard" where
  "set_fault fault g =
     (let g = g\<lparr>gd_faults := gd_faults g + 1\<rparr> in
      if fault_priority fault > fault_priority (gd_fault_code g) then g\<lparr>gd_fault_code := fault\<rparr> else g)"

section \<open>Protection\<close>

definition protection_lockout :: "guard \<Rightarrow> guard" where
  "protection_lockout g = g\<lparr>gd_ptt := (gd_ptt g)\<lparr>ps_tx_blocked := True\<rparr>\<rparr>"

definition check_faults :: "guard \<Rightarrow> bool \<times> guard" where
  "check_faults g =
     (if gd_fault_code g \<noteq> 0 \<and> fault_is_fatal (gd_fault_code g) then (True, protection_lockout g) else (False, g))"

text \<open>\<open>timer_check_faults_fn\<close> of \<^verbatim>\<open>main.c\<close>.\<close>

definition timer_check_faults :: "ptt_env \<Rightarrow> guard \<Rightarrow> guard" where
  "timer_check_faults env g = (case check_faults g of
     (True, g') \<Rightarrow> g'\<lparr>gd_ptt := rr_ptt_set_blocked True (snd (rr_ptt_set_all_off_reason env None (gd_ptt g')))\<rparr>
   | (False, g') \<Rightarrow> g')"

definition protection_warmup_pending :: "bool \<Rightarrow> bool \<Rightarrow> int \<Rightarrow> int \<Rightarrow> int \<Rightarrow> int \<Rightarrow> bool" where
  "protection_warmup_pending warming_up required warmup_time now started amp_idx =
     (if amp_idx < 0 \<or> \<not> warming_up \<or> \<not> required then False else now - started < warmup_time)"

section \<open>Temperatures\<close>

text \<open>C's \<open>float >= int\<close> for the small integers of the limits.\<close>

fun float_ge :: "float_value \<Rightarrow> int \<Rightarrow> bool" where
  "float_ge NaN n = False"
| "float_ge NInf n = False"
| "float_ge (Finite t) n = (of_int n \<le> t)"
| "float_ge PInf n = True"

record thermal_limits =
  tl_encl_max :: int
  tl_encl_warn :: int
  tl_final_max :: int
  tl_final_warn :: int
  tl_inlet_max :: int
  tl_inlet_warn :: int
  tl_lpf_max :: int
  tl_lpf_warn :: int

definition default_limits :: thermal_limits where
  "default_limits = \<lparr>tl_encl_max = 140, tl_encl_warn = 130, tl_final_max = 190, tl_final_warn = 170,
     tl_inlet_max = 120, tl_inlet_warn = 100, tl_lpf_max = 120, tl_lpf_warn = 100\<rparr>"

definition unit_temperature :: "(float_value \<Rightarrow> 32 word) \<Rightarrow> float_value list \<Rightarrow> nat \<Rightarrow> 32 word" where
  "unit_temperature to_u32 units i = (if i > length units - 1 \<or> units = [] then of_int (- 1000) else to_u32 (units ! i))"

definition get_thermal :: "(float_value \<Rightarrow> 32 word) \<Rightarrow> guard \<Rightarrow> nat \<Rightarrow> 32 word" where
  "get_thermal to_u32 g sensor =
     (if sensor = 0 then to_u32 (gd_therm_enclosure g)
      else if sensor = 1 then to_u32 (gd_therm_inlet g)
      else if 1000 \<le> sensor \<and> sensor \<le> 1099 then unit_temperature to_u32 (gd_amps g) (sensor - 1000)
      else if 2000 \<le> sensor \<and> sensor \<le> 2099 then unit_temperature to_u32 (gd_atus g) (sensor - 2000)
      else if 3000 \<le> sensor \<and> sensor \<le> 3099 then unit_temperature to_u32 (gd_filters g) (sensor - 3000)
      else of_int (- 1))"

definition are_we_on_fire :: "thermal_limits \<Rightarrow> guard \<Rightarrow> bool" where
  "are_we_on_fire limits g =
     (if list_ex (\<lambda>t. float_ge t (tl_final_max limits)) (gd_amps g) then True
      else if float_ge (gd_therm_enclosure g) (tl_encl_max limits) then True
      else if float_ge (gd_therm_inlet g) (tl_inlet_max limits) then True
      else False)"

text \<open>The transmit checks of the clock tick, with the thermometer it reads.\<close>

definition guard_tick :: "ptt_env \<Rightarrow> thermal_limits \<Rightarrow> guard \<Rightarrow> guard" where
  "guard_tick env limits g = g\<lparr>gd_ptt := timer_clock_tick env (are_we_on_fire limits g) (gd_ptt g)\<rparr>"

section \<open>The fault latch\<close>

lemma fault_entry_code: "fault_entry fault = Some (code, r) \<Longrightarrow> code = fault"
  using find_SomeD [of "\<lambda>(code, _). code = fault" fault_table "(code, r)"] by (simp add: fault_entry_def)

lemma fault_priority_code [simp]: "fault_priority fault = sint fault"
  using fault_entry_code by (auto simp: fault_priority_def split: option.split)

lemma set_faults_code:
  "sint (gd_fault_code (fold set_fault fs g)) = fold max (map sint fs) (sint (gd_fault_code g)) \<and>
   gd_fault_code (fold set_fault fs g) \<in> insert (gd_fault_code g) (set fs) \<and>
   gd_faults (fold set_fault fs g) = gd_faults g + of_nat (length fs) \<and> gd_ptt (fold set_fault fs g) = gd_ptt g"
proof (induction fs arbitrary: g)
  case (Cons f fs)
  from Cons.IH [of "set_fault f g"] show ?case by (auto simp: set_fault_def Let_def max_def algebra_simps)
qed simp

lemma fold_max: "fold max xs (a :: int) = Max (insert a (set xs))"
proof (induction xs arbitrary: a)
  case (Cons x xs)
  then show ?case by (cases "set xs = {}") (simp_all add: insert_commute max.assoc max.left_commute)
qed simp

text \<open>
  The fault register holds the worst fault. After any faults \<open>fs\<close>, the register is the numerically largest code
  among the old register and \<open>fs\<close>, compared as signed integers, the counter has grown by their number, and the
  periodic check halts transmission exactly when that code is one the table calls fatal.
\<close>

theorem fault_register_exact:
  fixes fs g
  defines "h \<equiv> fold set_fault fs g"
  shows "sint (gd_fault_code h) = Max (insert (sint (gd_fault_code g)) (sint ` set fs)) \<and>
    gd_faults h = gd_faults g + of_nat (length fs) \<and>
    (fst (check_faults h) \<longleftrightarrow> gd_fault_code h \<noteq> 0 \<and> fault_is_fatal (gd_fault_code h))"
  using set_faults_code [of fs g] by (simp add: h_def fold_max check_faults_def)

text \<open>A minor fault with a higher code hides a fatal one: nothing is halted.\<close>

lemma minor_fault_masks_fatal:
  assumes "gd_fault_code g = 0"
  shows "fault_is_fatal FAULT_HIGH_SWR \<and> \<not> fst (check_faults (fold set_fault [FAULT_CAT_ERROR, FAULT_HIGH_SWR] g))"
proof -
  have "gd_fault_code (fold set_fault [FAULT_CAT_ERROR, FAULT_HIGH_SWR] g) = FAULT_CAT_ERROR"
    using assms by (simp add: set_fault_def FAULT_CAT_ERROR_def FAULT_HIGH_SWR_def)
  then show ?thesis
    by (simp add: check_faults_def fault_is_fatal_def fault_entry_def fault_table_def FAULT_CAT_ERROR_def FAULT_HIGH_SWR_def
        FAULT_NONE_def FAULT_TOT_TIMEOUT_def FAULT_UNKNOWN_def)
qed

section \<open>Trouble silences the transmitter\<close>

lemma blocked_after_all_off: "rr_ptt_check_blocked (rr_ptt_set_blocked True s)"
  by (simp add: rr_ptt_check_blocked_def rr_ptt_set_blocked_def)

lemma tick_hot_blocks: "rr_ptt_check_blocked (timer_clock_tick env True s)"
proof -
  let ?s = "rr_ptt_set_blocked True (snd (rr_ptt_set_all_off_reason env None s))"
  have "rr_ptt_check_blocked ((snd (rr_ptt_set_all_off_reason env None ?s))\<lparr>ps_tot_time := 0\<rparr>)"
    using silent_all_off [of ?s env None] by (auto simp: silent_def rr_ptt_check_blocked_def rr_ptt_set_blocked_def)
  then show ?thesis by (simp add: timer_clock_tick_def blocked_after_all_off Let_def)
qed

lemma tick_hot_released:
  assumes "target_rig env s = Some r" "v < pe_max_vfos env" "pe_vfo_exists env r v" "pe_vfo_supported env r v"
  shows "released env r v s (timer_clock_tick env True s)"
proof -
  let ?s = "rr_ptt_set_blocked True (snd (rr_ptt_set_all_off_reason env None s))"
  have r: "released env r v s ?s"
    using all_off_released [OF assms] unfolding released_def off_pending_def by (simp add: rr_ptt_set_blocked_def)
  let ?t = "(snd (rr_ptt_set_all_off_reason env None ?s))\<lparr>ps_tot_time := 0\<rparr>"
  have "silent ?s ?t" using silent_all_off [of ?s env None] by (simp add: silent_def)
  moreover have "off_pending r v ?s \<Longrightarrow> off_pending r v ?t"
    using off_pending_loop [of r v ?s env "target_rig env ?s" "[0..<pe_max_vfos env]"]
    by (auto simp: off_pending_def rr_ptt_set_all_off_reason_def split: prod.splits)
  ultimately have "released env r v s ?t" using released_later [OF r] by blast
  with r show ?thesis by (simp add: timer_clock_tick_def Let_def)
qed

text \<open>
  C10. Fire and fatal faults silence the transmitter. When the clock tick finds a final, the case or the inlet at its
  limit, or the fault timer finds a fatal code in the register, every usable VFO of the active rig is released (on a
  rig with a worker the release is queued unless the worker refuses it), and afterwards no sequence of events that
  does not lift the block sends a key-down to any radio.
\<close>

theorem trouble_silences_transmitter:
  assumes "h = guard_tick env limits g \<and> are_we_on_fire limits g \<or>
      h = timer_check_faults env g \<and> gd_fault_code g \<noteq> 0 \<and> fault_is_fatal (gd_fault_code g)"
    and "target_rig env (gd_ptt g) = Some r" "v < pe_max_vfos env" "pe_vfo_exists env r v" "pe_vfo_supported env r v"
    and "interlock_events evs"
  shows "released env r v (gd_ptt g) (gd_ptt h) \<and>
    (\<exists>cs. ps_trace (fold ptt_step evs (gd_ptt h)) = ps_trace (gd_ptt h) @ cs \<and> list_all (\<lambda>c. \<not> keys_down c) cs)"
proof -
  have "released env r v (gd_ptt g) (gd_ptt h) \<and> rr_ptt_check_blocked (gd_ptt h)"
  proof (cases "h = guard_tick env limits g \<and> are_we_on_fire limits g")
    case True
    with tick_hot_released [OF assms(2-5)] tick_hot_blocks show ?thesis by (simp add: guard_tick_def)
  next
    case False
    with assms(1) have h: "h = timer_check_faults env g" "gd_fault_code g \<noteq> 0" "fault_is_fatal (gd_fault_code g)" by auto
    let ?p = "(gd_ptt g)\<lparr>ps_tx_blocked := True\<rparr>"
    have "target_rig env ?p = Some r" using assms(2) by (simp add: target_rig_def)
    from all_off_released [OF this assms(3-5)] have "released env r v (gd_ptt g) (rr_ptt_set_blocked True (snd (rr_ptt_set_all_off_reason env None ?p)))"
      unfolding released_def off_pending_def by (cases "pe_worker env r") (simp_all add: rr_ptt_set_blocked_def)
    with h show ?thesis by (simp add: timer_check_faults_def check_faults_def protection_lockout_def blocked_after_all_off)
  qed
  with silent_run [of "gd_ptt h" evs] assms(6) show ?thesis by blast
qed

definition demo_guard :: guard where
  "demo_guard = \<lparr>gd_fault_code = FAULT_HIGH_SWR, gd_faults = 1, gd_therm_inlet = Finite 80, gd_therm_enclosure = Finite 90,
     gd_amps = [Finite 150], gd_atus = [], gd_filters = [], gd_ptt = demo_talking\<rparr>"

lemma trouble_silences_transmitter_witness:
  "released demo_env 0 0 demo_talking (gd_ptt (timer_check_faults demo_env demo_guard)) \<and>
     (\<exists>cs. ps_trace (fold ptt_step [(demo_env, Talk (Some 7)), (demo_env, Request 0 True)] (gd_ptt (timer_check_faults demo_env demo_guard))) =
        ps_trace (gd_ptt (timer_check_faults demo_env demo_guard)) @ cs \<and> list_all (\<lambda>c. \<not> keys_down c) cs)"
proof -
  have "gd_fault_code demo_guard \<noteq> 0" "fault_is_fatal (gd_fault_code demo_guard)" "gd_ptt demo_guard = demo_talking"
    by (simp_all add: demo_guard_def fault_is_fatal_def fault_entry_def fault_table_def FAULT_CAT_ERROR_def FAULT_HIGH_SWR_def
        FAULT_NONE_def FAULT_TOT_TIMEOUT_def FAULT_UNKNOWN_def)
  moreover have "target_rig demo_env demo_talking = Some 0" "0 < pe_max_vfos demo_env" "pe_vfo_exists demo_env 0 0"
    "pe_vfo_supported demo_env 0 0" "interlock_events [(demo_env, Talk (Some 7)), (demo_env, Request 0 True)]" by code_simp+
  ultimately show ?thesis
    using trouble_silences_transmitter [of "timer_check_faults demo_env demo_guard" demo_env default_limits demo_guard 0 0
        "[(demo_env, Talk (Some 7)), (demo_env, Request 0 True)]"] by simp
qed

end
