(* ===== verification/Wsjtx.thy ===== *)
theory Wsjtx
  imports Prelude "HOL-Library.Monad_Syntax"
begin

unbundle bit_operations_syntax

text \<open>
  \<^verbatim>\<open>rrclient/wsjtx.c\<close>: the local WSJT-X UDP server. Datagrams arrive in Qt's big-endian serialisation;
  sixteen instances are remembered by id and port; a heartbeat is answered and the grid square of the
  selected transmitter is sent back to the instance it was asked from.

  A reader (\<open>wsjtx_reader\<close>) is the list of bytes that remain. \<open>utf8\<close> stands for GLib's \<open>g_utf8_validate\<close>.
  \<open>ws_sent\<close> records the datagrams handed to \<open>sendto\<close>. Opening the socket, the NMEA parsing of \<open>on_gps\<close> and
  the display functions are not modelled.
\<close>

section \<open>Bytes\<close>

type_synonym byte = "8 word"

definition WSJTX_MAGIC :: "32 word" where
  "WSJTX_MAGIC = 0xadbccbda"

definition WSJTX_MAX_CLIENTS :: nat where
  "WSJTX_MAX_CLIENTS = 16"

definition INADDR_LOOPBACK :: "32 word" where
  "INADDR_LOOPBACK = 0x7f000001"

definition read32 :: "byte list \<Rightarrow> 32 word" where
  "read32 p = push_bit 24 (ucast (p ! 0)) OR push_bit 16 (ucast (p ! 1)) OR push_bit 8 (ucast (p ! 2)) OR ucast (p ! 3)"

definition put32 :: "32 word \<Rightarrow> byte list" where
  "put32 v = [ucast (drop_bit 24 v), ucast (drop_bit 16 v), ucast (drop_bit 8 v), ucast v]"

text \<open>The bytes \<open>put_string\<close> writes into \<open>cap\<close> bytes; \<^const>\<open>None\<close> is the return value 0. \<open>size - 4\<close> wraps.\<close>

definition put_string :: "nat \<Rightarrow> byte list \<Rightarrow> byte list option" where
  "put_string cap s =
     (if length s > (cap + 2 ^ 64 - 4) mod 2 ^ 64 then None else Some (put32 (of_nat (length s)) @ s))"

definition bytes_of :: "string \<Rightarrow> byte list" where
  "bytes_of s = map of_char s"

text \<open>What a C string function sees of an array of bytes.\<close>

definition c_string :: "byte list \<Rightarrow> byte list" where
  "c_string bs = takeWhile (\<lambda>b. b \<noteq> 0) bs"

definition wsjtx_u32 :: "byte list \<Rightarrow> (32 word \<times> byte list) option" where
  "wsjtx_u32 r = (if length r < 4 then None else Some (read32 r, drop 4 r))"

definition wsjtx_u64 :: "byte list \<Rightarrow> (64 word \<times> byte list) option" where
  "wsjtx_u64 r = do {
     (hi, r) \<leftarrow> wsjtx_u32 r;
     (lo, r) \<leftarrow> wsjtx_u32 r;
     Some (push_bit 32 (ucast hi) OR ucast lo, r) }"

definition wsjtx_u8 :: "byte list \<Rightarrow> (byte \<times> byte list) option" where
  "wsjtx_u8 r = (case r of [] \<Rightarrow> None | b # r \<Rightarrow> Some (b, r))"

definition wsjtx_string :: "(byte list \<Rightarrow> bool) \<Rightarrow> nat \<Rightarrow> byte list \<Rightarrow> (byte list \<times> byte list) option" where
  "wsjtx_string utf8 cap r = do {
     (len, r) \<leftarrow> wsjtx_u32 r;
     if len = 0xffffffff then Some ([], r)
     else let n = unat len in
       if n > length r \<or> n \<ge> cap \<or> \<not> utf8 (take n r) then None
       else Some (c_string (take n r), drop n r) }"

section \<open>Instances\<close>

record wsjtx_status =
  st_dial_hz :: "64 word"
  st_mode :: "byte list"
  st_dx_call :: "byte list"
  st_report :: "byte list"
  st_tx_mode :: "byte list"
  st_tx_enabled :: byte
  st_transmitting :: byte
  st_decoding :: byte
  st_rx_df :: "32 word"
  st_tx_df :: "32 word"
  st_de_call :: "byte list"
  st_de_grid :: "byte list"
  st_dx_grid :: "byte list"
  st_watchdog :: byte
  st_sub_mode :: "byte list"
  st_fast_mode :: byte
  st_special_mode :: byte
  st_tolerance :: "32 word"
  st_tr_period :: "32 word"
  st_configuration :: "byte list"
  st_tx_message :: "byte list"

record wsjtx_peer =
  wp_ip :: "32 word"
  wp_port :: "16 word"
  wp_id :: "byte list"
  wp_schema :: "32 word"
  wp_last_grid :: "byte list"
  wp_seen :: int
  wp_last_type :: "32 word"
  wp_packets :: "64 word"
  wp_decoded :: "64 word"
  wp_wspr_decoded :: "64 word"
  wp_qso_logged :: "64 word"
  wp_adif_logged :: "64 word"
  wp_last_decode_at :: int
  wp_last_qso_at :: int
  wp_status :: wsjtx_status
  wp_has_status :: bool

record wsjtx =
  ws_clients :: "wsjtx_peer list"
  ws_open :: bool
  ws_grid :: "byte list"
  ws_sent :: "(32 word \<times> 16 word \<times> byte list) list"

definition zero_status :: wsjtx_status where
  "zero_status = \<lparr>st_dial_hz = 0, st_mode = [], st_dx_call = [], st_report = [], st_tx_mode = [], st_tx_enabled = 0,
     st_transmitting = 0, st_decoding = 0, st_rx_df = 0, st_tx_df = 0, st_de_call = [], st_de_grid = [], st_dx_grid = [],
     st_watchdog = 0, st_sub_mode = [], st_fast_mode = 0, st_special_mode = 0, st_tolerance = 0, st_tr_period = 0,
     st_configuration = [], st_tx_message = []\<rparr>"

text \<open>\<open>memset(peer, 0, sizeof(*peer))\<close>.\<close>

definition zero_peer :: wsjtx_peer where
  "zero_peer = \<lparr>wp_ip = 0, wp_port = 0, wp_id = [], wp_schema = 0, wp_last_grid = [], wp_seen = 0, wp_last_type = 0,
     wp_packets = 0, wp_decoded = 0, wp_wspr_decoded = 0, wp_qso_logged = 0, wp_adif_logged = 0, wp_last_decode_at = 0,
     wp_last_qso_at = 0, wp_status = zero_status, wp_has_status = False\<rparr>"

section \<open>Status\<close>

text \<open>A later field is read only while bytes remain: \<open>r.remaining && !read(...)\<close>.\<close>

definition optional :: "(byte list \<Rightarrow> ('a \<times> byte list) option) \<Rightarrow> 'a \<Rightarrow> byte list \<Rightarrow> ('a \<times> byte list) option" where
  "optional rd old r = (if r = [] then Some (old, r) else rd r)"

definition status_required ::
    "(byte list \<Rightarrow> bool) \<Rightarrow> wsjtx_status \<Rightarrow> byte list \<Rightarrow> (wsjtx_status \<times> byte list) option" where
  "status_required utf8 s r = do {
     (dial, r) \<leftarrow> wsjtx_u64 r;
     (mode, r) \<leftarrow> wsjtx_string utf8 48 r;
     (dx_call, r) \<leftarrow> wsjtx_string utf8 64 r;
     (report, r) \<leftarrow> wsjtx_string utf8 32 r;
     (tx_mode, r) \<leftarrow> wsjtx_string utf8 48 r;
     (tx_enabled, r) \<leftarrow> wsjtx_u8 r;
     (transmitting, r) \<leftarrow> wsjtx_u8 r;
     (decoding, r) \<leftarrow> wsjtx_u8 r;
     (rx_df, r) \<leftarrow> wsjtx_u32 r;
     (tx_df, r) \<leftarrow> wsjtx_u32 r;
     (de_call, r) \<leftarrow> wsjtx_string utf8 64 r;
     (de_grid, r) \<leftarrow> wsjtx_string utf8 32 r;
     (dx_grid, r) \<leftarrow> wsjtx_string utf8 32 r;
     (watchdog, r) \<leftarrow> wsjtx_u8 r;
     Some (s\<lparr>st_dial_hz := dial, st_mode := mode, st_dx_call := dx_call, st_report := report, st_tx_mode := tx_mode,
       st_tx_enabled := tx_enabled, st_transmitting := transmitting, st_decoding := decoding, st_rx_df := rx_df,
       st_tx_df := tx_df, st_de_call := de_call, st_de_grid := de_grid, st_dx_grid := dx_grid, st_watchdog := watchdog\<rparr>, r) }"

definition status_optional ::
    "(byte list \<Rightarrow> bool) \<Rightarrow> wsjtx_status \<Rightarrow> byte list \<Rightarrow> (wsjtx_status \<times> byte list) option" where
  "status_optional utf8 s r = do {
     (sub_mode, r) \<leftarrow> optional (wsjtx_string utf8 48) (st_sub_mode s) r;
     (fast_mode, r) \<leftarrow> optional wsjtx_u8 (st_fast_mode s) r;
     (special_mode, r) \<leftarrow> optional wsjtx_u8 (st_special_mode s) r;
     (tolerance, r) \<leftarrow> optional wsjtx_u32 (st_tolerance s) r;
     (tr_period, r) \<leftarrow> optional wsjtx_u32 (st_tr_period s) r;
     (configuration, r) \<leftarrow> optional (wsjtx_string utf8 128) (st_configuration s) r;
     (tx_message, r) \<leftarrow> optional (wsjtx_string utf8 160) (st_tx_message s) r;
     Some (s\<lparr>st_sub_mode := sub_mode, st_fast_mode := fast_mode, st_special_mode := special_mode, st_tolerance := tolerance,
       st_tr_period := tr_period, st_configuration := configuration, st_tx_message := tx_message\<rparr>, r) }"

definition wsjtx_parse_status :: "(byte list \<Rightarrow> bool) \<Rightarrow> wsjtx_peer \<Rightarrow> byte list \<Rightarrow> wsjtx_peer" where
  "wsjtx_parse_status utf8 peer buf =
     (case do { (s, r) \<leftarrow> status_required utf8 (wp_status peer) buf; status_optional utf8 s r } of
        None \<Rightarrow> peer
      | Some (s, _) \<Rightarrow> peer\<lparr>wp_status := s, wp_has_status := True\<rparr>)"

section \<open>Answers\<close>

text \<open>The packet \<open>send_packet\<close> builds in its 512-byte buffer.\<close>

definition packet :: "wsjtx_peer \<Rightarrow> 32 word \<Rightarrow> byte list \<Rightarrow> byte list option" where
  "packet peer type extra = do {
     let head = put32 WSJTX_MAGIC @ put32 (wp_schema peer) @ put32 type;
     ident \<leftarrow> put_string (512 - 12) (wp_id peer);
     let buf = head @ ident;
     if type = 0 then
       if length buf + 4 > 512 then None
       else do {
         let buf = buf @ put32 3;
         version \<leftarrow> put_string (512 - length buf) (bytes_of ''RustyRig'');
         let buf = buf @ version;
         revision \<leftarrow> put_string (512 - length buf) [];
         Some (buf @ revision) }
     else if type = 11 then do {
       body \<leftarrow> put_string (512 - length buf) extra;
       Some (buf @ body) }
     else Some buf }"

definition send_packet :: "wsjtx_peer \<Rightarrow> 32 word \<Rightarrow> byte list \<Rightarrow> wsjtx \<Rightarrow> wsjtx" where
  "send_packet peer type extra w =
     (if \<not> ws_open w \<or> wp_id peer = [] then w
      else case packet peer type extra of
        None \<Rightarrow> w
      | Some buf \<Rightarrow> w\<lparr>ws_sent := ws_sent w @ [(wp_ip peer, wp_port peer, buf)]\<rparr>)"

text \<open>The instance is the one at index \<open>i\<close> of the table.\<close>

definition send_location :: "nat \<Rightarrow> wsjtx \<Rightarrow> wsjtx" where
  "send_location i w =
     (let peer = ws_clients w ! i in
      if ws_grid w = [] \<or> wp_id peer = [] \<or> wp_last_grid peer = ws_grid w then w
      else (send_packet peer 11 (ws_grid w) w)\<lparr>ws_clients := (ws_clients w)[i := peer\<lparr>wp_last_grid := ws_grid w\<rparr>]\<rparr>)"

section \<open>Datagrams\<close>

record datagram =
  dg_inet :: bool
  dg_ip :: "32 word"
  dg_port :: "16 word"
  dg_data :: "byte list"

text \<open>The scan of the table: the match, and the slot to reuse when there is none.\<close>

function find_peer :: "wsjtx_peer list \<Rightarrow> byte list \<Rightarrow> 16 word \<Rightarrow> nat \<Rightarrow> nat \<Rightarrow> nat option \<times> nat" where
  "find_peer ps ident port i oldest =
     (if i \<ge> length ps then (None, oldest)
      else let item = ps ! i; oldest = (if wp_seen item < wp_seen (ps ! oldest) then i else oldest) in
        if wp_id item \<noteq> [] \<and> wp_id item = ident \<and> wp_port item = port then (Some i, oldest)
        else find_peer ps ident port (i + 1) (if wp_id item = [] then i else oldest))"
  by pat_completeness auto
termination by (relation "measure (\<lambda>(ps, ident, port, i, oldest). length ps - i)") auto

declare find_peer.simps [simp del]

definition count_packet :: "32 word \<Rightarrow> wsjtx_peer \<Rightarrow> wsjtx_peer" where
  "count_packet type p =
     (if type = 2 then p\<lparr>wp_decoded := wp_decoded p + 1, wp_last_decode_at := wp_seen p\<rparr>
      else if type = 10 then p\<lparr>wp_wspr_decoded := wp_wspr_decoded p + 1, wp_last_decode_at := wp_seen p\<rparr>
      else if type = 5 then p\<lparr>wp_qso_logged := wp_qso_logged p + 1, wp_last_qso_at := wp_seen p\<rparr>
      else if type = 12 then p\<lparr>wp_adif_logged := wp_adif_logged p + 1, wp_last_qso_at := wp_seen p\<rparr>
      else p)"

definition accepted :: "datagram \<Rightarrow> bool" where
  "accepted d \<longleftrightarrow> dg_inet d \<and> dg_ip d = INADDR_LOOPBACK \<and> length (dg_data d) \<ge> 16 \<and> read32 (dg_data d) = WSJTX_MAGIC \<and>
     read32 (drop 4 (dg_data d)) \<ge> 2 \<and> read32 (drop 8 (dg_data d)) \<le> 15 \<and>
     (let idlen = unat (read32 (drop 12 (dg_data d))) in idlen \<noteq> 0 \<and> idlen < 128 \<and> length (dg_data d) \<ge> 16 + idlen)"

text \<open>One turn of the receive loop of \<open>udp_ready\<close>.\<close>

definition udp_datagram :: "(byte list \<Rightarrow> bool) \<Rightarrow> int \<Rightarrow> datagram \<Rightarrow> wsjtx \<Rightarrow> wsjtx" where
  "udp_datagram utf8 at d w =
     (if \<not> accepted d then w
      else let buf = dg_data d;
               schema = read32 (drop 4 buf);
               type = read32 (drop 8 buf);
               idlen = unat (read32 (drop 12 buf));
               ident = c_string (take idlen (drop 16 buf));
               (match, oldest) = find_peer (ws_clients w) ident (dg_port d) 0 0;
               i = (case match of Some j \<Rightarrow> j | None \<Rightarrow> oldest);
               old = (case match of Some j \<Rightarrow> ws_clients w ! j | None \<Rightarrow> zero_peer);
               p1 = old\<lparr>wp_ip := dg_ip d, wp_port := dg_port d, wp_schema := min schema 3, wp_id := ident, wp_seen := at,
                        wp_last_type := type, wp_packets := wp_packets old + 1\<rparr>;
               p2 = count_packet type p1;
               p3 = (if type = 1 then wsjtx_parse_status utf8 p2 (drop (16 + idlen) buf) else p2);
               p4 = (if type = 6 then p3\<lparr>wp_seen := 0\<rparr> else p3);
               w1 = w\<lparr>ws_clients := (ws_clients w)[i := p4]\<rparr>;
               w2 = (if type = 0 then send_packet p4 0 [] w1 else w1)
           in if type = 0 \<or> type = 1 then send_location i w2 else w2)"

text \<open>The end of \<open>on_gps\<close>, once the fix has a grid square, and \<open>on_selection\<close>.\<close>

definition grid_changed :: "byte list \<Rightarrow> wsjtx \<Rightarrow> wsjtx" where
  "grid_changed grid w =
     (if grid = ws_grid w then w else fold send_location [0..<WSJTX_MAX_CLIENTS] (w\<lparr>ws_grid := take 6 grid\<rparr>))"

definition on_selection :: "wsjtx \<Rightarrow> wsjtx" where
  "on_selection w = w\<lparr>ws_grid := [], ws_clients := map (\<lambda>p. p\<lparr>wp_last_grid := []\<rparr>) (ws_clients w)\<rparr>"

definition wsjtx_init :: wsjtx where
  "wsjtx_init = \<lparr>ws_clients = replicate WSJTX_MAX_CLIENTS zero_peer, ws_open = True, ws_grid = [], ws_sent = []\<rparr>"

datatype wsjtx_event = Datagram int datagram | Grid "byte list" | Selection

fun wsjtx_step :: "(byte list \<Rightarrow> bool) \<Rightarrow> wsjtx_event \<Rightarrow> wsjtx \<Rightarrow> wsjtx" where
  "wsjtx_step utf8 (Datagram at d) w = udp_datagram utf8 at d w"
| "wsjtx_step utf8 (Grid grid) w = grid_changed grid w"
| "wsjtx_step utf8 Selection w = on_selection w"

section \<open>Reading back what was written\<close>

lemma length_put32 [simp]: "length (put32 v) = 4"
  by (simp add: put32_def)

lemma read32_put32 [simp]: "read32 (put32 v @ r) = v"
proof (rule bit_word_eqI)
  fix n assume "n < LENGTH(32)"
  then show "bit (read32 (put32 v @ r)) n = bit v n"
    by (cases "n < 8"; cases "n < 16"; cases "n < 24") (auto simp: read32_def put32_def bit_simps)
qed

lemma read64_put64: "push_bit 32 (ucast (ucast (drop_bit 32 v) :: 32 word)) OR ucast (ucast v :: 32 word) = (v :: 64 word)"
proof (rule bit_word_eqI)
  fix n assume "n < LENGTH(64)"
  then show "bit (push_bit 32 (ucast (ucast (drop_bit 32 v) :: 32 word)) OR ucast (ucast v :: 32 word) :: 64 word) n = bit v n"
    by (cases "n < 32") (auto simp: bit_simps)
qed

text \<open>\<open>reads rd v xs\<close>: \<open>rd\<close> takes exactly \<open>xs\<close> for the value \<open>v\<close>, and no proper prefix of \<open>xs\<close> is enough.\<close>

definition reads :: "(byte list \<Rightarrow> ('a \<times> byte list) option) \<Rightarrow> 'a \<Rightarrow> byte list \<Rightarrow> bool" where
  "reads rd v xs \<longleftrightarrow> (\<forall>ys. rd (xs @ ys) = Some (v, ys)) \<and> (\<forall>n < length xs. rd (take n xs) = None)"

lemma readsD: "reads rd v xs \<Longrightarrow> rd (xs @ ys) = Some (v, ys)"
  by (simp add: reads_def)

lemma reads_return: "reads (\<lambda>r. Some (v, r)) v []"
  by (simp add: reads_def)

lemma reads_bind:
  assumes "reads rd v xs" "reads (rd' v) w ys"
  shows "reads (\<lambda>r. do { (v, r) \<leftarrow> rd r; rd' v r }) w (xs @ ys)"
proof -
  have "(do { (v, r) \<leftarrow> rd (take n (xs @ ys)); rd' v r }) = None" if "n < length (xs @ ys)" for n
  proof (cases "n < length xs")
    case True
    with assms(1) show ?thesis by (simp add: reads_def)
  next
    case False
    with that assms show ?thesis by (simp add: reads_def)
  qed
  with assms show ?thesis by (simp add: reads_def)
qed

lemma reads_u32: "reads wsjtx_u32 v (put32 v)"
  by (simp add: reads_def wsjtx_u32_def)

lemma reads_u8: "reads wsjtx_u8 v [v]"
  by (simp add: reads_def wsjtx_u8_def)

definition put64 :: "64 word \<Rightarrow> byte list" where
  "put64 v = put32 (ucast (drop_bit 32 v)) @ put32 (ucast v)"

lemma reads_u64: "reads wsjtx_u64 v (put64 v)"
proof -
  let ?hi = "ucast (drop_bit 32 v) :: 32 word" and ?lo = "ucast v :: 32 word"
  have ret: "reads (\<lambda>r. Some (push_bit 32 (ucast ?hi) OR ucast ?lo :: 64 word, r)) v []"
    unfolding read64_put64 by (rule reads_return)
  have "reads wsjtx_u64 v (put32 ?hi @ put32 ?lo @ [])"
    unfolding wsjtx_u64_def [abs_def] by (rule reads_bind [OF reads_u32], rule reads_bind [OF reads_u32], rule ret)
  then show ?thesis by (simp add: put64_def)
qed

text \<open>Qt's string: a length and that many bytes.\<close>

definition qt_string :: "byte list \<Rightarrow> byte list" where
  "qt_string s = put32 (of_nat (length s)) @ s"

definition text_ok :: "(byte list \<Rightarrow> bool) \<Rightarrow> nat \<Rightarrow> byte list \<Rightarrow> bool" where
  "text_ok utf8 cap s \<longleftrightarrow> length s < cap \<and> utf8 s \<and> 0 \<notin> set s"

lemma c_string_id: "0 \<notin> set s \<Longrightarrow> c_string s = s"
  unfolding c_string_def by (rule takeWhile_eq_all_conv [THEN iffD2]) auto

lemma length_c_string: "length (c_string s) \<le> length s"
  by (simp add: c_string_def length_takeWhile_le)

lemma reads_string:
  assumes "text_ok utf8 cap s" "cap \<le> 2 ^ 31"
  shows "reads (wsjtx_string utf8 cap) s (qt_string s)"
proof -
  let ?len = "of_nat (length s) :: 32 word"
  have len: "length s < 2 ^ 31" using assms by (simp add: text_ok_def)
  then have u: "unat ?len = length s" by (simp add: unat_of_nat take_bit_nat_eq_self)
  have ne: "?len \<noteq> 0xffffffff"
  proof
    assume "?len = 0xffffffff"
    then have "unat ?len = unat (0xffffffff :: 32 word)" by simp
    with u len show False by simp
  qed
  let ?rest = "\<lambda>r. if length s > length r \<or> length s \<ge> cap \<or> \<not> utf8 (take (length s) r) then None
     else Some (c_string (take (length s) r), drop (length s) r)"
  have "reads ?rest s s" using assms by (simp add: reads_def text_ok_def c_string_id)
  then have "reads (\<lambda>r. if ?len = 0xffffffff then Some ([], r) else
      if unat ?len > length r \<or> unat ?len \<ge> cap \<or> \<not> utf8 (take (unat ?len) r) then None
      else Some (c_string (take (unat ?len) r), drop (unat ?len) r)) s s" unfolding u using ne by simp
  then show ?thesis
    unfolding wsjtx_string_def [abs_def] qt_string_def Let_def by (rule reads_bind [OF reads_u32])
qed

section \<open>Status round trip\<close>

definition required_bytes :: "wsjtx_status \<Rightarrow> byte list" where
  "required_bytes s = put64 (st_dial_hz s) @ qt_string (st_mode s) @ qt_string (st_dx_call s) @ qt_string (st_report s) @
     qt_string (st_tx_mode s) @ [st_tx_enabled s] @ [st_transmitting s] @ [st_decoding s] @ put32 (st_rx_df s) @
     put32 (st_tx_df s) @ qt_string (st_de_call s) @ qt_string (st_de_grid s) @ qt_string (st_dx_grid s) @ [st_watchdog s] @ []"

definition optional_fields :: "wsjtx_status \<Rightarrow> byte list list" where
  "optional_fields s = [qt_string (st_sub_mode s), [st_fast_mode s], [st_special_mode s], put32 (st_tolerance s),
     put32 (st_tr_period s), qt_string (st_configuration s), qt_string (st_tx_message s)]"

definition status_ok :: "(byte list \<Rightarrow> bool) \<Rightarrow> wsjtx_status \<Rightarrow> bool" where
  "status_ok utf8 s \<longleftrightarrow> text_ok utf8 48 (st_mode s) \<and> text_ok utf8 64 (st_dx_call s) \<and> text_ok utf8 32 (st_report s) \<and>
     text_ok utf8 48 (st_tx_mode s) \<and> text_ok utf8 64 (st_de_call s) \<and> text_ok utf8 32 (st_de_grid s) \<and>
     text_ok utf8 32 (st_dx_grid s) \<and> text_ok utf8 48 (st_sub_mode s) \<and> text_ok utf8 128 (st_configuration s) \<and>
     text_ok utf8 160 (st_tx_message s)"

text \<open>The status with the required fields of \<open>s\<close> and its first \<open>k\<close> later fields, the others as before.\<close>

definition overlay :: "nat \<Rightarrow> wsjtx_status \<Rightarrow> wsjtx_status \<Rightarrow> wsjtx_status" where
  "overlay k s old = s\<lparr>
     st_sub_mode := if k > 0 then st_sub_mode s else st_sub_mode old,
     st_fast_mode := if k > 1 then st_fast_mode s else st_fast_mode old,
     st_special_mode := if k > 2 then st_special_mode s else st_special_mode old,
     st_tolerance := if k > 3 then st_tolerance s else st_tolerance old,
     st_tr_period := if k > 4 then st_tr_period s else st_tr_period old,
     st_configuration := if k > 5 then st_configuration s else st_configuration old,
     st_tx_message := if k > 6 then st_tx_message s else st_tx_message old\<rparr>"

lemma reads_required:
  assumes "status_ok utf8 s"
  shows "reads (status_required utf8 old) (overlay 0 s old) (required_bytes s)"
proof -
  have o: "overlay 0 s old = old\<lparr>st_dial_hz := st_dial_hz s, st_mode := st_mode s, st_dx_call := st_dx_call s,
      st_report := st_report s, st_tx_mode := st_tx_mode s, st_tx_enabled := st_tx_enabled s,
      st_transmitting := st_transmitting s, st_decoding := st_decoding s, st_rx_df := st_rx_df s, st_tx_df := st_tx_df s,
      st_de_call := st_de_call s, st_de_grid := st_de_grid s, st_dx_grid := st_dx_grid s, st_watchdog := st_watchdog s\<rparr>"
    by (simp add: overlay_def)
  have "reads (wsjtx_string utf8 48) (st_mode s) (qt_string (st_mode s))" "reads (wsjtx_string utf8 64) (st_dx_call s) (qt_string (st_dx_call s))"
    "reads (wsjtx_string utf8 32) (st_report s) (qt_string (st_report s))" "reads (wsjtx_string utf8 48) (st_tx_mode s) (qt_string (st_tx_mode s))"
    "reads (wsjtx_string utf8 64) (st_de_call s) (qt_string (st_de_call s))" "reads (wsjtx_string utf8 32) (st_de_grid s) (qt_string (st_de_grid s))"
    "reads (wsjtx_string utf8 32) (st_dx_grid s) (qt_string (st_dx_grid s))"
    using assms by (auto simp: status_ok_def intro: reads_string)
  then show ?thesis
    unfolding status_required_def [abs_def] required_bytes_def o
    by - ((rule reads_bind, (assumption | rule reads_u64 reads_u32 reads_u8))+, rule reads_return)
qed

lemma optional_done [simp]: "optional rd old [] = Some (old, [])"
  by (simp add: optional_def)

lemma optional_u8 [simp]: "optional wsjtx_u8 old (b # ys) = Some (b, ys)"
  by (simp add: optional_def wsjtx_u8_def)

lemma optional_u32 [simp]: "optional wsjtx_u32 old (put32 v @ ys) = Some (v, ys)"
  using readsD [OF reads_u32, of v ys] by (auto simp: optional_def put32_def)

lemma optional_u32_end [simp]: "optional wsjtx_u32 old (put32 v) = Some (v, [])"
  using optional_u32 [of old v "[]"] by simp

lemma optional_string [simp]:
  "text_ok utf8 cap s \<Longrightarrow> cap \<le> 2 ^ 31 \<Longrightarrow> optional (wsjtx_string utf8 cap) old (qt_string s @ ys) = Some (s, ys)"
  using readsD [OF reads_string, of utf8 cap s ys] by (auto simp: optional_def qt_string_def put32_def)

lemma optional_string_end [simp]:
  "text_ok utf8 cap s \<Longrightarrow> cap \<le> 2 ^ 31 \<Longrightarrow> optional (wsjtx_string utf8 cap) old (qt_string s) = Some (s, [])"
  using optional_string [of utf8 cap s old "[]"] by simp

lemma optional_some:
  assumes "status_ok utf8 s" "k < 7"
  shows "status_optional utf8 (overlay 0 s old) (concat (take k (optional_fields s))) = Some (overlay k s old, [])"
proof -
  have ok: "text_ok utf8 48 (st_sub_mode s)" "text_ok utf8 128 (st_configuration s)" using assms(1) by (simp_all add: status_ok_def)
  have "k = 0 \<or> k = 1 \<or> k = 2 \<or> k = 3 \<or> k = 4 \<or> k = 5 \<or> k = 6" using assms(2) by arith
  then show ?thesis
    by (elim disjE) (simp_all add: status_optional_def optional_fields_def overlay_def ok)
qed

lemma optional_all:
  assumes "status_ok utf8 s"
  shows "status_optional utf8 (overlay 0 s old) (concat (optional_fields s) @ ys) = Some (overlay 7 s old, ys)"
proof -
  have ok: "text_ok utf8 48 (st_sub_mode s)" "text_ok utf8 128 (st_configuration s)" "text_ok utf8 160 (st_tx_message s)"
    using assms by (simp_all add: status_ok_def)
  then show ?thesis by (simp add: status_optional_def optional_fields_def overlay_def)
qed

text \<open>
  C32. A status is read back as it was written. For a status whose texts fit their buffers, the required fields
  followed by the first \<open>k\<close> later ones are taken over exactly, the remaining ones kept; bytes after the last known
  field are ignored; a datagram cut anywhere inside the required fields changes nothing.
\<close>

theorem wsjtx_status_roundtrip:
  assumes "status_ok utf8 s" "k \<le> 7" "k = 7 \<or> ys = []"
  shows "wsjtx_parse_status utf8 peer (required_bytes s @ concat (take k (optional_fields s)) @ ys) =
      peer\<lparr>wp_status := overlay k s (wp_status peer), wp_has_status := True\<rparr> \<and>
    (\<forall>n < length (required_bytes s). wsjtx_parse_status utf8 peer (take n (required_bytes s)) = peer)"
proof -
  let ?old = "wp_status peer"
  note rd = reads_required [OF assms(1), of ?old]
  have "status_optional utf8 (overlay 0 s ?old) (concat (take k (optional_fields s)) @ ys) = Some (overlay k s ?old, ys)"
  proof (cases "k = 7")
    case True
    with optional_all [OF assms(1)] show ?thesis by (simp add: optional_fields_def)
  next
    case False
    with assms(2,3) have "k < 7" "ys = []" by simp_all
    with optional_some [OF assms(1)] show ?thesis by simp
  qed
  with readsD [OF rd] have "wsjtx_parse_status utf8 peer (required_bytes s @ concat (take k (optional_fields s)) @ ys) =
      peer\<lparr>wp_status := overlay k s ?old, wp_has_status := True\<rparr>" by (simp add: wsjtx_parse_status_def)
  with rd show ?thesis by (simp add: wsjtx_parse_status_def reads_def)
qed

definition ascii :: "byte list \<Rightarrow> bool" where
  "ascii bs = list_all (\<lambda>b. b \<noteq> 0 \<and> b < 128) bs"

definition demo_status :: wsjtx_status where
  "demo_status = zero_status\<lparr>st_dial_hz := 14074000, st_mode := bytes_of ''FT8'', st_dx_call := bytes_of ''K1JT'',
     st_transmitting := 1, st_sub_mode := bytes_of ''A'', st_fast_mode := 1\<rparr>"

lemma wsjtx_status_roundtrip_witness:
  "wp_status (wsjtx_parse_status ascii zero_peer (required_bytes demo_status @ concat (take 2 (optional_fields demo_status)) @ [])) =
     demo_status"
proof -
  have "status_ok ascii demo_status" "overlay 2 demo_status zero_status = demo_status" by code_simp+
  with wsjtx_status_roundtrip [of ascii demo_status 2 "[]" zero_peer] show ?thesis by (simp add: zero_peer_def)
qed

section \<open>Every run is safe\<close>

definition status_fits :: "wsjtx_status \<Rightarrow> bool" where
  "status_fits s \<longleftrightarrow> length (st_mode s) < 48 \<and> length (st_dx_call s) < 64 \<and> length (st_report s) < 32 \<and>
     length (st_tx_mode s) < 48 \<and> length (st_de_call s) < 64 \<and> length (st_de_grid s) < 32 \<and> length (st_dx_grid s) < 32 \<and>
     length (st_sub_mode s) < 48 \<and> length (st_configuration s) < 128 \<and> length (st_tx_message s) < 160"

definition peer_ok :: "16 word set \<Rightarrow> wsjtx_peer \<Rightarrow> bool" where
  "peer_ok S p \<longleftrightarrow> length (wp_id p) < 128 \<and> 0 \<notin> set (wp_id p) \<and> length (wp_last_grid p) \<le> 6 \<and> status_fits (wp_status p) \<and>
     (wp_id p \<noteq> [] \<longrightarrow> wp_ip p = INADDR_LOOPBACK \<and> wp_port p \<in> S)"

definition instances_unique :: "wsjtx_peer list \<Rightarrow> bool" where
  "instances_unique ps \<longleftrightarrow> (\<forall>i < length ps. \<forall>j < length ps. i \<noteq> j \<and> wp_id (ps ! i) \<noteq> [] \<longrightarrow>
     (wp_id (ps ! i), wp_port (ps ! i)) \<noteq> (wp_id (ps ! j), wp_port (ps ! j)))"

definition sent_ok :: "16 word set \<Rightarrow> 32 word \<times> 16 word \<times> byte list \<Rightarrow> bool" where
  "sent_ok S m \<longleftrightarrow> fst m = INADDR_LOOPBACK \<and> fst (snd m) \<in> S \<and> length (snd (snd m)) \<le> 512"

definition wsjtx_inv :: "16 word set \<Rightarrow> wsjtx \<Rightarrow> bool" where
  "wsjtx_inv S w \<longleftrightarrow> length (ws_clients w) = WSJTX_MAX_CLIENTS \<and> (\<forall>p \<in> set (ws_clients w). peer_ok S p) \<and>
     instances_unique (ws_clients w) \<and> length (ws_grid w) \<le> 6 \<and> (\<forall>m \<in> set (ws_sent w). sent_ok S m)"

lemma wsjtx_invD:
  assumes "wsjtx_inv S w"
  shows "length (ws_clients w) = WSJTX_MAX_CLIENTS" "p \<in> set (ws_clients w) \<Longrightarrow> peer_ok S p"
    "instances_unique (ws_clients w)" "length (ws_grid w) \<le> 6" "m \<in> set (ws_sent w) \<Longrightarrow> sent_ok S m"
  using assms by (simp_all add: wsjtx_inv_def)

subsection \<open>Packets fit the buffer\<close>

lemma put_string_fits: "4 \<le> cap \<Longrightarrow> cap \<le> 512 \<Longrightarrow> length s \<le> cap - 4 \<Longrightarrow> put_string cap s = Some (qt_string s)"
proof -
  assume c: "4 \<le> cap" "cap \<le> 512" and l: "length s \<le> cap - 4"
  have "cap + 2 ^ 64 - 4 = (cap - 4) + 2 ^ 64" using c by simp
  then have "(cap + 2 ^ 64 - 4) mod 2 ^ 64 = cap - 4" using c by (simp only: mod_add_self2) simp
  with l show ?thesis by (simp add: put_string_def qt_string_def)
qed

lemma length_qt_string [simp]: "length (qt_string s) = 4 + length s"
  by (simp add: qt_string_def)

lemma packet_exact:
  assumes "length (wp_id p) < 128" "length extra \<le> 6"
  shows "packet p type extra = Some (put32 WSJTX_MAGIC @ put32 (wp_schema p) @ put32 type @ qt_string (wp_id p) @
    (if type = 0 then put32 3 @ qt_string (bytes_of ''RustyRig'') @ qt_string []
     else if type = 11 then qt_string extra else []))"
proof -
  have "length (bytes_of ''RustyRig'') = 8" by (simp add: bytes_of_def)
  with assms show ?thesis by (simp add: packet_def put_string_fits Let_def)
qed

lemma packet_length: "peer_ok S p \<Longrightarrow> length extra \<le> 6 \<Longrightarrow> packet p type extra = Some buf \<Longrightarrow> length buf \<le> 512"
  using packet_exact [of p extra type] by (cases "type = 0"; cases "type = 11") (auto simp: peer_ok_def bytes_of_def)

subsection \<open>Sending keeps the invariant\<close>

lemma send_packet_sent:
  assumes "peer_ok S p" "length extra \<le> 6" "\<forall>m \<in> set (ws_sent w). sent_ok S m"
  shows "\<forall>m \<in> set (ws_sent (send_packet p type extra w)). sent_ok S m"
proof -
  have "sent_ok S (wp_ip p, wp_port p, buf)" if "wp_id p \<noteq> []" "packet p type extra = Some buf" for buf
    using packet_length [OF assms(1,2) that(2)] assms(1) that(1) by (simp add: sent_ok_def peer_ok_def)
  with assms(3) show ?thesis by (auto simp: send_packet_def split: option.splits)
qed

lemma send_packet_frame [simp]: "ws_clients (send_packet p type extra w) = ws_clients w"
  "ws_grid (send_packet p type extra w) = ws_grid w"
  by (auto simp: send_packet_def split: option.splits)

lemma send_packet_inv: "wsjtx_inv S w \<Longrightarrow> peer_ok S p \<Longrightarrow> length extra \<le> 6 \<Longrightarrow> wsjtx_inv S (send_packet p type extra w)"
  using send_packet_sent [of S p extra w type] by (simp add: wsjtx_inv_def)

lemma instances_unique_update:
  assumes "instances_unique ps" "i < length ps"
    "\<And>j. j < length ps \<Longrightarrow> j \<noteq> i \<Longrightarrow> wp_id p \<noteq> [] \<Longrightarrow> (wp_id (ps ! j), wp_port (ps ! j)) \<noteq> (wp_id p, wp_port p)"
  shows "instances_unique (ps[i := p])"
  using assms unfolding instances_unique_def by (auto simp: nth_list_update) fastforce+

lemma instances_unique_same:
  assumes "instances_unique ps" "i < length ps" "wp_id p = wp_id (ps ! i)" "wp_port p = wp_port (ps ! i)"
  shows "instances_unique (ps[i := p])"
  using assms by (intro instances_unique_update) (auto simp: instances_unique_def)

lemma clients_update:
  "\<forall>p \<in> set ps. P p \<Longrightarrow> P p \<Longrightarrow> \<forall>p \<in> set (ps[i := p]). P p"
  using set_update_subset_insert [of ps i p] by blast

lemma send_location_inv:
  assumes "wsjtx_inv S w" "i < WSJTX_MAX_CLIENTS"
  shows "wsjtx_inv S (send_location i w)"
proof -
  let ?p = "ws_clients w ! i"
  have i: "i < length (ws_clients w)" using assms by (simp add: wsjtx_inv_def)
  then have p: "peer_ok S ?p" using wsjtx_invD(2) [OF assms(1)] by simp
  have g: "length (ws_grid w) \<le> 6" by (rule wsjtx_invD(4) [OF assms(1)])
  have w: "wsjtx_inv S (send_packet ?p 11 (ws_grid w) w)" by (rule send_packet_inv [OF assms(1) p g])
  have p': "peer_ok S (?p\<lparr>wp_last_grid := ws_grid w\<rparr>)" using p g by (simp add: peer_ok_def)
  have u: "instances_unique ((ws_clients w)[i := ?p\<lparr>wp_last_grid := ws_grid w\<rparr>])"
    using wsjtx_invD(3) [OF assms(1)] i by (rule instances_unique_same) simp_all
  have "\<forall>p \<in> set ((ws_clients w)[i := ?p\<lparr>wp_last_grid := ws_grid w\<rparr>]). peer_ok S p"
    by (rule clients_update [where P = "peer_ok S", OF _ p']) (use assms(1) in \<open>simp add: wsjtx_inv_def\<close>)
  with w u show ?thesis using assms(1) by (simp add: send_location_def Let_def wsjtx_inv_def)
qed

lemma send_locations_inv: "wsjtx_inv S w \<Longrightarrow> \<forall>i \<in> set is. i < WSJTX_MAX_CLIENTS \<Longrightarrow> wsjtx_inv S (fold send_location is w)"
  by (induction "is" arbitrary: w) (simp_all add: send_location_inv)

subsection \<open>A datagram keeps the invariant\<close>

lemma c_string_no_nul: "0 \<notin> set (c_string s)"
  unfolding c_string_def using set_takeWhileD [of 0 "\<lambda>b. b \<noteq> 0" s] by blast

lemma wsjtx_string_fits: "wsjtx_string utf8 cap r = Some (s, r') \<Longrightarrow> 0 < cap \<Longrightarrow> length s < cap"
  using length_c_string [of "take n r" for n r]
  by (auto simp: wsjtx_string_def Let_def split: Option.bind_splits if_splits)
    (metis (no_types, opaque_lifting) length_c_string length_take min.cobounded2 not_le order_le_less_trans)

lemma optional_fits:
  "optional (wsjtx_string utf8 cap) old r = Some (s, r') \<Longrightarrow> length old < cap \<Longrightarrow> length s < cap"
  using wsjtx_string_fits [of utf8 cap r s r'] by (auto simp: optional_def split: if_splits)

lemma status_required_fits: "status_required utf8 s r = Some (t, r') \<Longrightarrow> status_fits s \<Longrightarrow> status_fits t"
  unfolding status_required_def
  by (clarsimp simp: Option.bind_eq_Some_conv) (simp add: status_fits_def, intro conjI, (erule wsjtx_string_fits, simp)+)

lemma status_optional_fits: "status_optional utf8 s r = Some (t, r') \<Longrightarrow> status_fits s \<Longrightarrow> status_fits t"
  unfolding status_optional_def
  by (clarsimp simp: Option.bind_eq_Some_conv) (simp add: status_fits_def optional_fits)

lemma parse_status_ok: "peer_ok S p \<Longrightarrow> peer_ok S (wsjtx_parse_status utf8 p buf)"
  unfolding wsjtx_parse_status_def peer_ok_def
  by (auto split: option.splits Option.bind_splits dest: status_required_fits status_optional_fits)

lemma parse_status_key [simp]: "wp_id (wsjtx_parse_status utf8 p buf) = wp_id p" "wp_port (wsjtx_parse_status utf8 p buf) = wp_port p"
  by (simp_all add: wsjtx_parse_status_def split: option.split Option.bind_split)

lemma count_packet_frame [simp]: "wp_id (count_packet t p) = wp_id p" "wp_port (count_packet t p) = wp_port p"
  "wp_ip (count_packet t p) = wp_ip p" "wp_last_grid (count_packet t p) = wp_last_grid p" "wp_status (count_packet t p) = wp_status p"
  by (simp_all add: count_packet_def)

lemma find_peer_spec:
  assumes "\<forall>j < i. \<not> (wp_id (ps ! j) \<noteq> [] \<and> wp_id (ps ! j) = ident \<and> wp_port (ps ! j) = port)" "k < length ps"
  shows "case find_peer ps ident port i k of
      (Some j, _) \<Rightarrow> j < length ps \<and> wp_id (ps ! j) \<noteq> [] \<and> wp_id (ps ! j) = ident \<and> wp_port (ps ! j) = port
    | (None, k') \<Rightarrow> k' < length ps \<and> (\<forall>j < length ps. wp_id (ps ! j) \<noteq> [] \<longrightarrow> (wp_id (ps ! j), wp_port (ps ! j)) \<noteq> (ident, port))"
  using assms
proof (induction ps ident port i k rule: find_peer.induct)
  case (1 ps ident port i k)
  show ?case
  proof (cases "i \<ge> length ps")
    case True
    have "\<not> (wp_id (ps ! j) \<noteq> [] \<and> wp_id (ps ! j) = ident \<and> wp_port (ps ! j) = port)" if "j < length ps" for j
      using 1(2) True that by simp
    with True 1(3) show ?thesis by (subst find_peer.simps) auto
  next
    case False
    let ?k = "if wp_seen (ps ! i) < wp_seen (ps ! k) then i else k"
    show ?thesis
    proof (cases "wp_id (ps ! i) \<noteq> [] \<and> wp_id (ps ! i) = ident \<and> wp_port (ps ! i) = port")
      case True
      with False show ?thesis by (subst find_peer.simps) (auto simp: Let_def)
    next
      case miss: False
      with 1(2) have before: "\<forall>j < i + 1. \<not> (wp_id (ps ! j) \<noteq> [] \<and> wp_id (ps ! j) = ident \<and> wp_port (ps ! j) = port)"
        by (auto simp: less_Suc_eq)
      have "(if wp_id (ps ! i) = [] then i else ?k) < length ps" using False 1(3) by simp
      from 1(1) [OF False refl refl miss before this] show ?thesis
        using False miss by (subst find_peer.simps) (auto simp: Let_def)
    qed
  qed
qed

text \<open>What \<open>udp_datagram\<close> writes into the slot it chose.\<close>

lemma slot_inv:
  assumes w: "wsjtx_inv S w" and i: "i < length (ws_clients w)" and p: "peer_ok S p"
    and fresh: "\<And>j. j < length (ws_clients w) \<Longrightarrow> j \<noteq> i \<Longrightarrow> wp_id p \<noteq> [] \<Longrightarrow>
      (wp_id (ws_clients w ! j), wp_port (ws_clients w ! j)) \<noteq> (wp_id p, wp_port p)"
  shows "wsjtx_inv S (w\<lparr>ws_clients := (ws_clients w)[i := p]\<rparr>)"
proof -
  have "instances_unique ((ws_clients w)[i := p])"
    using wsjtx_invD(3) [OF w] i fresh by (rule instances_unique_update)
  moreover have "\<forall>p \<in> set ((ws_clients w)[i := p]). peer_ok S p"
    by (rule clients_update [where P = "peer_ok S", OF _ p]) (use w in \<open>simp add: wsjtx_inv_def\<close>)
  ultimately show ?thesis using w by (simp add: wsjtx_inv_def)
qed

lemma udp_datagram_inv:
  assumes w: "wsjtx_inv S w" and port: "accepted d \<Longrightarrow> dg_port d \<in> S"
  shows "wsjtx_inv S (udp_datagram utf8 at d w)"
proof (cases "accepted d")
  case False
  with w show ?thesis by (simp add: udp_datagram_def)
next
  case True
  define idlen where "idlen = unat (read32 (drop 12 (dg_data d)))"
  define type where "type = read32 (drop 8 (dg_data d))"
  define ident where "ident = c_string (take idlen (drop 16 (dg_data d)))"
  obtain m k where f: "find_peer (ws_clients w) ident (dg_port d) 0 0 = (m, k)" by fastforce
  define i where "i = (case m of Some j \<Rightarrow> j | None \<Rightarrow> k)"
  define old where "old = (case m of Some j \<Rightarrow> ws_clients w ! j | None \<Rightarrow> zero_peer)"
  have len: "0 < length (ws_clients w)" using w by (simp add: wsjtx_inv_def WSJTX_MAX_CLIENTS_def)
  note spec = find_peer_spec [of 0 "ws_clients w" ident "dg_port d" 0, simplified f]
  have i: "i < length (ws_clients w)" using spec len by (auto simp: i_def split: option.splits)
  have fresh: "(wp_id (ws_clients w ! j), wp_port (ws_clients w ! j)) \<noteq> (ident, dg_port d)"
    if "j < length (ws_clients w)" "j \<noteq> i" "ident \<noteq> []" for j
  proof (cases m)
    case None
    with spec len that show ?thesis by simp
  next
    case (Some x)
    with spec len that i have "x < length (ws_clients w)" "x \<noteq> j" "wp_id (ws_clients w ! x) = ident" "wp_port (ws_clients w ! x) = dg_port d"
      by (auto simp: i_def)
    with wsjtx_invD(3) [OF w] that show ?thesis unfolding instances_unique_def by metis
  qed
  have "peer_ok S zero_peer" by (simp add: peer_ok_def zero_peer_def status_fits_def zero_status_def)
  then have old: "peer_ok S old" using i wsjtx_invD(2) [OF w] by (auto simp: old_def i_def split: option.splits)
  have "length ident < 128" "0 \<notin> set ident"
    using True length_c_string [of "take idlen (drop 16 (dg_data d))"] by (auto simp: accepted_def ident_def idlen_def c_string_no_nul Let_def)
  define p1 where "p1 = old\<lparr>wp_ip := dg_ip d, wp_port := dg_port d, wp_schema := min (read32 (drop 4 (dg_data d))) 3, wp_id := ident,
      wp_seen := at, wp_last_type := type, wp_packets := wp_packets old + 1\<rparr>"
  have p1: "peer_ok S (count_packet type p1)" using old port [OF True] True \<open>length ident < 128\<close> \<open>0 \<notin> set ident\<close>
    by (simp add: peer_ok_def p1_def accepted_def)
  define p3 where "p3 = (if type = 1 then wsjtx_parse_status utf8 (count_packet type p1) (drop (16 + idlen) (dg_data d)) else count_packet type p1)"
  define p4 where "p4 = (if type = 6 then p3\<lparr>wp_seen := 0\<rparr> else p3)"
  have "peer_ok S p3" unfolding p3_def using p1 parse_status_ok [OF p1] by (simp only: if_split simp_thms)
  then have p4: "peer_ok S p4" by (simp add: p4_def peer_ok_def)
  have key: "wp_id p4 = ident" "wp_port p4 = dg_port d" by (simp_all add: p4_def p3_def p1_def)
  let ?w1 = "w\<lparr>ws_clients := (ws_clients w)[i := p4]\<rparr>"
  have w1: "wsjtx_inv S ?w1" by (rule slot_inv [OF w i p4]) (use fresh key in auto)
  let ?w2 = "if type = 0 then send_packet p4 0 [] ?w1 else ?w1"
  have w2: "wsjtx_inv S ?w2" using w1 send_packet_inv [OF w1 p4, of "[]"] by simp
  have i16: "i < WSJTX_MAX_CLIENTS" using i w by (simp add: wsjtx_inv_def)
  have "udp_datagram utf8 at d w = (if type = 0 \<or> type = 1 then send_location i ?w2 else ?w2)"
    using True f by (simp only: udp_datagram_def Let_def prod.case if_False not_True_eq_False idlen_def type_def ident_def
        i_def old_def p1_def p3_def p4_def)
  with send_location_inv [OF w2 i16] w2 show ?thesis
    by (cases "type = 0 \<or> type = 1") (simp_all only: if_True if_False)
qed

lemma on_selection_inv:
  assumes "wsjtx_inv S w"
  shows "wsjtx_inv S (on_selection w)"
proof -
  have "peer_ok S (p\<lparr>wp_last_grid := []\<rparr>)" if "p \<in> set (ws_clients w)" for p
    using wsjtx_invD(2) [OF assms that] by (simp add: peer_ok_def)
  with assms show ?thesis by (auto simp: wsjtx_inv_def on_selection_def instances_unique_def)
qed

lemma grid_changed_inv: "wsjtx_inv S w \<Longrightarrow> wsjtx_inv S (grid_changed grid w)"
  unfolding grid_changed_def by (simp, intro impI send_locations_inv) (simp_all add: wsjtx_inv_def)

lemma wsjtx_init_inv: "wsjtx_inv S wsjtx_init"
  by (auto simp: wsjtx_inv_def wsjtx_init_def peer_ok_def zero_peer_def zero_status_def status_fits_def instances_unique_def)

text \<open>The ports a datagram was accepted from are remembered beside the state.\<close>

definition event_port :: "wsjtx_event \<Rightarrow> 16 word set" where
  "event_port e = (case e of Datagram at d \<Rightarrow> if accepted d then {dg_port d} else {} | _ \<Rightarrow> {})"

definition wsjtx_track :: "(byte list \<Rightarrow> bool) \<Rightarrow> wsjtx_event \<Rightarrow> 16 word set \<times> wsjtx \<Rightarrow> 16 word set \<times> wsjtx" where
  "wsjtx_track utf8 e sw = (fst sw \<union> event_port e, wsjtx_step utf8 e (snd sw))"

lemma peer_ok_mono: "peer_ok S p \<Longrightarrow> S \<subseteq> T \<Longrightarrow> peer_ok T p"
  by (auto simp: peer_ok_def)

lemma wsjtx_inv_mono: "wsjtx_inv S w \<Longrightarrow> S \<subseteq> T \<Longrightarrow> wsjtx_inv T w"
  by (auto simp: wsjtx_inv_def sent_ok_def peer_ok_mono)

lemma wsjtx_step_inv:
  assumes "wsjtx_inv S w" "event_port e \<subseteq> S"
  shows "wsjtx_inv S (wsjtx_step utf8 e w)"
proof (cases e)
  case (Datagram at d)
  with assms show ?thesis by (auto simp: event_port_def intro!: udp_datagram_inv)
qed (use assms(1) in \<open>simp_all add: grid_changed_inv on_selection_inv\<close>)

interpretation wsjtx_machine: machine "wsjtx_track utf8" "\<lambda>sw. wsjtx_inv (fst sw) (snd sw)"
proof
  fix sw e assume "wsjtx_inv (fst sw) (snd sw)"
  then have "wsjtx_inv (fst sw \<union> event_port e) (snd sw)" by (rule wsjtx_inv_mono) simp
  then show "wsjtx_inv (fst (wsjtx_track utf8 e sw)) (snd (wsjtx_track utf8 e sw))"
    by (simp add: wsjtx_track_def wsjtx_step_inv)
qed

lemma track_run: "fold (wsjtx_track utf8) es (S, w) = (S \<union> \<Union> (event_port ` set es), fold (wsjtx_step utf8) es w)"
  by (induction es arbitrary: S w) (auto simp: wsjtx_track_def)

lemma wsjtx_run_inv: "wsjtx_inv (\<Union> (event_port ` set es)) (fold (wsjtx_step utf8) es wsjtx_init)"
  using wsjtx_machine.run_inv [of "({}, wsjtx_init)" utf8 es] by (simp add: wsjtx_init_inv track_run)

text \<open>
  C12. Hostile datagrams do no harm. Whatever arrives, in every state reached: the table has its 16 slots and no two
  instances share id and port; every text fits the array it is stored in, terminator included; every packet
  fits the 512-byte send buffer and goes to the loopback address, to a port an accepted datagram came from.
\<close>

theorem wsjtx_runs_safe:
  fixes es :: "wsjtx_event list" and utf8 :: "byte list \<Rightarrow> bool"
  defines "w \<equiv> fold (wsjtx_step utf8) es wsjtx_init"
  shows "length (ws_clients w) = 16 \<and> instances_unique (ws_clients w) \<and>
    list_all (\<lambda>p. length (wp_id p) < 128 \<and> length (wp_last_grid p) < 7 \<and> status_fits (wp_status p)) (ws_clients w) \<and>
    list_all (\<lambda>(ip, port, buf). ip = INADDR_LOOPBACK \<and> length buf \<le> 512 \<and>
      list_ex (\<lambda>e. port \<in> event_port e) es) (ws_sent w)"
proof -
  note inv = wsjtx_run_inv [of es utf8, folded w_def]
  show ?thesis
    using wsjtx_invD(1,3) [OF inv] wsjtx_invD(2) [OF inv] wsjtx_invD(5) [OF inv]
    by (fastforce simp: WSJTX_MAX_CLIENTS_def peer_ok_def sent_ok_def list_all_iff list_ex_iff)
qed

section \<open>Locations\<close>

text \<open>What an instance reads in a location packet: magic, schema, type, id and grid square.\<close>

definition read_location ::
    "(byte list \<Rightarrow> bool) \<Rightarrow> byte list \<Rightarrow> (32 word \<times> 32 word \<times> 32 word \<times> byte list \<times> byte list) option" where
  "read_location utf8 buf = do {
     (magic, r) \<leftarrow> wsjtx_u32 buf;
     (schema, r) \<leftarrow> wsjtx_u32 r;
     (type, r) \<leftarrow> wsjtx_u32 r;
     (ident, r) \<leftarrow> wsjtx_string utf8 128 r;
     (grid, r) \<leftarrow> wsjtx_string utf8 7 r;
     if r = [] then Some (magic, schema, type, ident, grid) else None }"

text \<open>
  A location is sent once and can be read. In every state reached, when the transmitter's grid square is
  known, an instance that has not been sent it gets exactly one packet, which decodes to its own id and schema
  and the grid square; sending again sends nothing.
\<close>

theorem wsjtx_location_sent_once:
  fixes es :: "wsjtx_event list" and utf8 :: "byte list \<Rightarrow> bool"
  defines "w \<equiv> fold (wsjtx_step utf8) es wsjtx_init"
  assumes "i < 16" "ws_open w" "wp_id (ws_clients w ! i) \<noteq> []" "ws_grid w \<noteq> []" "wp_last_grid (ws_clients w ! i) \<noteq> ws_grid w"
    and "valid (wp_id (ws_clients w ! i))" "valid (ws_grid w)" "0 \<notin> set (ws_grid w)"
  shows "\<exists>buf. ws_sent (send_location i w) = ws_sent w @ [(INADDR_LOOPBACK, wp_port (ws_clients w ! i), buf)] \<and>
    read_location valid buf = Some (WSJTX_MAGIC, wp_schema (ws_clients w ! i), 11, wp_id (ws_clients w ! i), ws_grid w) \<and>
    send_location i (send_location i w) = send_location i w"
proof -
  let ?p = "ws_clients w ! i"
  note inv = wsjtx_run_inv [of es utf8, folded w_def]
  have i: "i < length (ws_clients w)" using wsjtx_invD(1) [OF inv] assms(2) by (simp add: WSJTX_MAX_CLIENTS_def)
  then have p: "peer_ok (\<Union> (event_port ` set es)) ?p" using wsjtx_invD(2) [OF inv] by simp
  have g: "length (ws_grid w) \<le> 6" by (rule wsjtx_invD(4) [OF inv])
  have ok: "text_ok valid 128 (wp_id ?p)" "text_ok valid 7 (ws_grid w)"
    using p g assms(7-9) by (simp_all add: text_ok_def peer_ok_def)
  define buf where "buf = put32 WSJTX_MAGIC @ put32 (wp_schema ?p) @ put32 11 @ qt_string (wp_id ?p) @ qt_string (ws_grid w)"
  have "packet ?p 11 (ws_grid w) = Some buf"
    using packet_exact [of ?p "ws_grid w" 11] p g by (simp add: peer_ok_def buf_def)
  then have sent: "ws_sent (send_location i w) = ws_sent w @ [(INADDR_LOOPBACK, wp_port ?p, buf)]"
    using assms(3-6) p by (simp add: send_location_def send_packet_def peer_ok_def Let_def)
  have "wsjtx_string valid 128 (qt_string (wp_id ?p) @ r) = Some (wp_id ?p, r)"
    "wsjtx_string valid 7 (qt_string (ws_grid w) @ []) = Some (ws_grid w, [])" for r
    by (rule readsD [OF reads_string [OF ok(1)]], simp, rule readsD [OF reads_string [OF ok(2)]], simp)
  then have "read_location valid buf = Some (WSJTX_MAGIC, wp_schema ?p, 11, wp_id ?p, ws_grid w)"
    by (simp add: read_location_def buf_def readsD [OF reads_u32])
  moreover have "send_location i (send_location i w) = send_location i w"
    using i by (simp add: send_location_def Let_def)
  ultimately show ?thesis using sent by blast
qed

definition demo_decode :: datagram where
  "demo_decode = \<lparr>dg_inet = True, dg_ip = INADDR_LOOPBACK, dg_port = 40001,
     dg_data = put32 WSJTX_MAGIC @ put32 2 @ put32 2 @ qt_string (bytes_of ''WSJT-X'')\<rparr>"

definition demo_wsjtx :: "wsjtx_event list" where
  "demo_wsjtx = [Grid (bytes_of ''FN31pr''), Datagram 5 demo_decode]"

definition demo_instance :: wsjtx_peer where
  "demo_instance = zero_peer\<lparr>wp_ip := INADDR_LOOPBACK, wp_port := 40001, wp_schema := 2, wp_id := bytes_of ''WSJT-X'', wp_seen := 5,
     wp_last_type := 2, wp_packets := 1, wp_decoded := 1, wp_last_decode_at := 5\<rparr>"

text \<open>The decode made the instance known without asking for the location; it takes the last free slot.\<close>

lemma demo_free_slot: "find_peer (replicate WSJTX_MAX_CLIENTS zero_peer) ident port 0 0 = (None, 15)"
  by (simp add: WSJTX_MAX_CLIENTS_def numeral_eq_Suc) (simp add: find_peer.simps zero_peer_def Let_def)

lemma demo_decoded:
  "fold (wsjtx_step ascii) demo_wsjtx wsjtx_init =
     wsjtx_init\<lparr>ws_grid := bytes_of ''FN31pr'', ws_clients := (replicate WSJTX_MAX_CLIENTS zero_peer)[15 := demo_instance]\<rparr>"
proof -
  let ?w = "wsjtx_init\<lparr>ws_grid := bytes_of ''FN31pr''\<rparr>"
  have "take 6 (bytes_of ''FN31pr'') = bytes_of ''FN31pr''" "bytes_of ''FN31pr'' \<noteq> []" by (simp_all add: bytes_of_def)
  moreover have "send_location i ?w = ?w" if "i < 16" for i
    using that by (simp add: send_location_def wsjtx_init_def WSJTX_MAX_CLIENTS_def zero_peer_def)
  then have "\<forall>i \<in> set is. i < 16 \<Longrightarrow> fold send_location is ?w = ?w" for "is" by (induction "is") simp_all
  ultimately have g: "grid_changed (bytes_of ''FN31pr'') wsjtx_init = ?w"
    by (simp add: grid_changed_def WSJTX_MAX_CLIENTS_def wsjtx_init_def)
  let ?buf = "dg_data demo_decode"
  have "length (bytes_of ''WSJT-X'') = 6" by (simp add: bytes_of_def)
  then have d: "read32 ?buf = WSJTX_MAGIC" "read32 (drop 4 ?buf) = 2" "read32 (drop 8 ?buf) = 2" "read32 (drop 12 ?buf) = 6"
    "length ?buf = 22" "drop 16 ?buf = bytes_of ''WSJT-X''" "dg_port demo_decode = 40001" "dg_ip demo_decode = INADDR_LOOPBACK"
    "dg_inet demo_decode"
    by (simp_all add: demo_decode_def qt_string_def drop_append)
  moreover have "accepted demo_decode" using d by (simp add: accepted_def)
  moreover have "c_string (take 6 (drop 16 ?buf)) = bytes_of ''WSJT-X''" using d(6) by (simp add: bytes_of_def c_string_def)
  moreover have "ws_clients ?w = replicate WSJTX_MAX_CLIENTS zero_peer" by (simp add: wsjtx_init_def)
  moreover have "unat (6 :: 32 word) = 6" "min 2 3 = (2 :: 32 word)" by simp_all
  moreover have "count_packet 2 (zero_peer\<lparr>wp_ip := INADDR_LOOPBACK, wp_port := 40001, wp_schema := 2, wp_id := bytes_of ''WSJT-X'',
      wp_seen := 5, wp_last_type := 2, wp_packets := wp_packets zero_peer + 1\<rparr>) = demo_instance"
    by (simp add: count_packet_def demo_instance_def zero_peer_def)
  ultimately have "udp_datagram ascii 5 demo_decode ?w = ?w\<lparr>ws_clients := (replicate WSJTX_MAX_CLIENTS zero_peer)[15 := demo_instance]\<rparr>"
    by (simp add: udp_datagram_def demo_free_slot Let_def)
  with g show ?thesis by (simp add: demo_wsjtx_def)
qed

lemma wsjtx_location_sent_once_witness:
  "\<exists>buf. ws_sent (send_location 15 (fold (wsjtx_step ascii) demo_wsjtx wsjtx_init)) = [(INADDR_LOOPBACK, 40001, buf)] \<and>
     read_location ascii buf = Some (WSJTX_MAGIC, 2, 11, bytes_of ''WSJT-X'', bytes_of ''FN31pr'')"
proof -
  have "ascii (bytes_of ''FN31pr'')" "ascii (bytes_of ''WSJT-X'')" "0 \<notin> set (bytes_of ''FN31pr'')"
    "bytes_of ''FN31pr'' \<noteq> []" "bytes_of ''WSJT-X'' \<noteq> []" by code_simp+
  moreover have "ws_sent (wsjtx_init\<lparr>ws_grid := g, ws_clients := ps\<rparr>) = []" "ws_open (wsjtx_init\<lparr>ws_grid := g, ws_clients := ps\<rparr>)"
    for g ps by (simp_all add: wsjtx_init_def)
  moreover have "(replicate WSJTX_MAX_CLIENTS zero_peer)[15 := demo_instance] ! 15 = demo_instance" by (simp add: WSJTX_MAX_CLIENTS_def)
  moreover have "wp_id demo_instance = bytes_of ''WSJT-X''" "wp_last_grid demo_instance = []" "wp_port demo_instance = 40001" "wp_schema demo_instance = 2"
    by (simp_all add: demo_instance_def zero_peer_def)
  ultimately show ?thesis using wsjtx_location_sent_once [of 15 ascii demo_wsjtx ascii] unfolding demo_decoded by auto
qed

end
