(* ===== verification/Dict.thy ===== *)
theory Dict
  imports Prelude "HOL-Library.AList"
begin

text \<open>
  What the relay and identity code uses of the two libraries it is written on.

  \<^item> \<open>dict\<close> is the string dictionary of the messages. It is given by its entries in the order
    \<open>dict_enumerate\<close> yields them; \<open>dict_add\<close>, \<open>dict_del\<close> and \<open>dict_get\<close> are
    \<^const>\<open>AList.update\<close>, \<^const>\<open>AList.delete\<close> and \<^const>\<open>map_of\<close>, and \<open>dict_ok\<close> says that a
    key occurs once, as it does in every dictionary the code builds.
  \<^item> \<open>c_strtoll\<close> is \<open>strtoll(s, &end, 10)\<close>, also GLib's \<open>g_ascii_strtoll\<close>: white space, one
    sign, digits; out of range clamps to the ends of \<open>int64_t\<close>; the second component is \<open>end\<close>.
  \<^item> \<open>snprintf_s n s\<close> is what \<open>snprintf(buf, n, "%s", s)\<close> leaves in \<open>buf\<close>.
\<close>

section \<open>Dictionaries\<close>

type_synonym dict = "(string \<times> string) list"

abbreviation dict_ok :: "dict \<Rightarrow> bool" where
  "dict_ok d \<equiv> distinct (map fst d)"

definition dict_get :: "dict \<Rightarrow> string \<Rightarrow> string \<Rightarrow> string" where
  "dict_get d k v = (case map_of d k of None \<Rightarrow> v | Some x \<Rightarrow> x)"

definition dict_dels :: "string list \<Rightarrow> dict \<Rightarrow> dict" where
  "dict_dels ks d = filter (\<lambda>e. fst e \<notin> set ks) d"

lemma dict_get_update [simp]:
  "dict_get (AList.update k v d) k' w = (if k' = k then v else dict_get d k' w)"
  by (auto simp: dict_get_def update_conv')

lemma dict_get_delete [simp]:
  "dict_get (AList.delete k d) k' w = (if k' = k then w else dict_get d k' w)"
  by (auto simp: dict_get_def delete_conv')

lemma dict_ok_delete [simp]: "dict_ok d \<Longrightarrow> dict_ok (AList.delete k d)"
  by (rule distinct_delete)

lemma dict_ok_update [simp]: "dict_ok d \<Longrightarrow> dict_ok (AList.update k v d)"
  by (rule distinct_update)

lemma dict_ok_filter: "dict_ok d \<Longrightarrow> dict_ok (filter P d)"
  by (induction d) auto

lemma dict_ok_dels [simp]: "dict_ok d \<Longrightarrow> dict_ok (dict_dels ks d)"
  by (simp add: dict_dels_def dict_ok_filter)

lemma map_of_dels: "map_of (dict_dels ks d) k = (if k \<in> set ks then None else map_of d k)"
  by (induction d) (auto simp: dict_dels_def)

lemma dict_get_key [simp]: "map_of d k = Some v \<Longrightarrow> dict_get d k w = v"
  by (simp add: dict_get_def)

section \<open>Numbers in messages\<close>

definition is_space :: "char \<Rightarrow> bool" where
  "is_space c \<longleftrightarrow> chr_ord c = 32 \<or> (9 \<le> chr_ord c \<and> chr_ord c \<le> 13)"

definition INT64_MAX_i :: int where "INT64_MAX_i = 2 ^ 63 - 1"
definition INT64_MIN_i :: int where "INT64_MIN_i = - (2 ^ 63)"

definition c_strtoll :: "string \<Rightarrow> int \<times> string" where
  "c_strtoll s =
     (let t = dropWhile is_space s;
          (neg, u) = (case t of c # cs \<Rightarrow> if c = CHR ''-'' then (True, cs) else if c = CHR ''+'' then (False, cs) else (False, t)
                              | [] \<Rightarrow> (False, []));
          ds = takeWhile is_digit u
      in if ds = [] then (0, s)
         else let v = int (dec_val ds) in
              (if neg then max INT64_MIN_i (- v) else min INT64_MAX_i v, dropWhile is_digit u))"

lemma c_strtoll_range: "INT64_MIN_i \<le> fst (c_strtoll s) \<and> fst (c_strtoll s) \<le> INT64_MAX_i"
  by (auto simp: c_strtoll_def Let_def INT64_MAX_i_def INT64_MIN_i_def split: prod.splits list.splits if_splits)

lemma c_strtoll_show_nat:
  assumes "int n \<le> INT64_MAX_i"
  shows "c_strtoll (show_nat n) = (int n, [])"
proof -
  obtain c cs where s: "show_nat n = c # cs" by (cases "show_nat n") auto
  then have d: "is_digit c" using show_nat_digits [of n] by simp
  then have "\<not> is_space c" "c \<noteq> CHR ''-''" "c \<noteq> CHR ''+''"
    by (auto simp: is_digit_def is_space_def chr_ord_def)
  moreover have "takeWhile is_digit (show_nat n) = show_nat n" "dropWhile is_digit (show_nat n) = []"
    using show_nat_digits [of n] by simp_all
  ultimately show ?thesis using assms s
    by (simp add: c_strtoll_def) (metis dec_val_show_nat min.absorb2)
qed

text \<open>
  \<open>strtoul(s, &end, 10)\<close> on 64 bits: whether \<open>errno\<close> is set, the value and \<open>end\<close>. A minus sign
  negates modulo \<open>2 ^ 64\<close>; only a magnitude beyond 64 bits sets \<open>errno\<close>.
\<close>

definition c_strtoul :: "string \<Rightarrow> bool \<times> nat \<times> string" where
  "c_strtoul s =
     (let t = dropWhile is_space s;
          (neg, u) = (case t of c # cs \<Rightarrow> if c = CHR ''-'' then (True, cs) else if c = CHR ''+'' then (False, cs) else (False, t)
                              | [] \<Rightarrow> (False, []));
          ds = takeWhile is_digit u; v = dec_val ds
      in if ds = [] then (False, 0, s)
         else if 2 ^ 64 \<le> v then (True, 2 ^ 64 - 1, dropWhile is_digit u)
         else (False, if neg then (2 ^ 64 - v) mod 2 ^ 64 else v, dropWhile is_digit u))"

text \<open>\<open>printf("%lld")\<close>.\<close>

definition show_int :: "int \<Rightarrow> string" where
  "show_int i = (if i < 0 then CHR ''-'' # show_nat (nat (- i)) else show_nat (nat i))"

section \<open>Bounded copies\<close>

definition snprintf_s :: "nat \<Rightarrow> string \<Rightarrow> string" where
  "snprintf_s n s = take (n - 1) s"

lemma snprintf_s_fits [simp]: "length s < n \<Longrightarrow> snprintf_s n s = s"
  by (simp add: snprintf_s_def)

lemma snprintf_s_bound: "0 < n \<Longrightarrow> length (snprintf_s n s) < n"
  by (auto simp: snprintf_s_def)

end
