(* ===== verification/Identity.thy ===== *)
theory Identity
  imports Dict
begin

text \<open>
  Signed catalog descriptors (\<^verbatim>\<open>rrserver/identity.c\<close>): the canonical byte string a
  signature covers, signing and verifying, the persistent pin of each server's key and the
  persistent journal of descriptor revisions.

  The cryptographic library is a parameter, \<open>crypto\<close>: base64, Ed25519 and SHA-256. The journal's
  two SQL tables are maps from their primary keys; each SQL statement either fails, changing
  nothing, or does what its text says, and \<open>sql_io\<close> says which of a call's statements fail.
  Byte strings are strings.
\<close>

section \<open>The canonical form\<close>

fun string_insort :: "string \<Rightarrow> string list \<Rightarrow> string list" where
  "string_insort k [] = [k]"
| "string_insort k (x # xs) = (if strcmp_lt x k then x # string_insort k xs else k # x # xs)"

definition sort_strings :: "string list \<Rightarrow> string list" where
  "sort_strings ks = foldr string_insort ks []"

definition frame :: "string \<Rightarrow> string \<Rightarrow> string" where
  "frame k v = show_nat (length k) @ '':'' @ k @ '':'' @ show_nat (length v) @ '':'' @ v"

definition canonical_prefix :: string where
  "canonical_prefix = ''rustyrig.catalog.ed25519.v2'' @ [char_of (0 :: nat)]"

definition canonical_keys :: "dict \<Rightarrow> string list" where
  "canonical_keys d = sort_strings (filter (\<lambda>k. k \<noteq> ''identity.signature'') (map fst d))"

definition canonical :: "dict \<Rightarrow> string" where
  "canonical d = canonical_prefix @ concat (map (\<lambda>k. frame k (dict_get d k '''')) (canonical_keys d))"

subsection \<open>Sorting the keys\<close>

lemma set_string_insort [simp]: "set (string_insort k xs) = insert k (set xs)"
  by (induction xs) auto

lemma set_sort_strings [simp]: "set (sort_strings xs) = set xs"
  by (induction xs) (auto simp: sort_strings_def)

lemma sorted_string_insort:
  "sorted_wrt strcmp_lt xs \<Longrightarrow> k \<notin> set xs \<Longrightarrow> sorted_wrt strcmp_lt (string_insort k xs)"
proof (induction xs)
  case (Cons x xs)
  then show ?case using strcmp_lt_linear [of x k] by (auto intro: strcmp_lt_trans)
qed simp

lemma sorted_sort_strings: "distinct xs \<Longrightarrow> sorted_wrt strcmp_lt (sort_strings xs)"
proof (induction xs)
  case (Cons x xs)
  have "sort_strings (x # xs) = string_insort x (sort_strings xs)" by (simp add: sort_strings_def)
  with Cons show ?case by (simp add: sorted_string_insort)
qed (simp add: sort_strings_def)

lemma strcmp_sorted_unique:
  assumes "sorted_wrt strcmp_lt xs" "sorted_wrt strcmp_lt ys" "set xs = set ys"
  shows "xs = ys"
  using assms
proof (induction xs arbitrary: ys)
  case (Cons x xs)
  then obtain y ys' where ys: "ys = y # ys'" by (cases ys) auto
  have "x = y"
  proof (rule ccontr)
    assume "x \<noteq> y"
    then have "x \<in> set ys'" "y \<in> set xs" using Cons.prems(3) ys by auto
    then have "strcmp_lt y x" "strcmp_lt x y" using Cons.prems(1,2) ys by auto
    then show False using strcmp_lt_trans strcmp_lt_irrefl by blast
  qed
  have "x \<notin> set xs" "y \<notin> set ys'" using Cons.prems(1,2) ys strcmp_lt_irrefl by auto
  with Cons.prems(3) ys \<open>x = y\<close> have "set xs = set ys'" by (simp add: insert_eq_iff)
  with Cons.IH [of ys'] Cons.prems(1,2) ys \<open>x = y\<close> show ?case by simp
qed simp

subsection \<open>Reading the frames back\<close>

lemma colon_not_digit [simp]: "\<not> is_digit CHR '':''"
  by (simp add: is_digit_def chr_ord_def)

lemma counted_inject:
  assumes "show_nat m @ CHR '':'' # r = show_nat n @ CHR '':'' # r'"
  shows "m = n \<and> r = r'"
proof -
  have "takeWhile is_digit (show_nat i @ CHR '':'' # s) = show_nat i" for i s
    using show_nat_digits [of i] by (simp add: takeWhile_append2)
  with assms have "show_nat m = show_nat n" by metis
  with assms show ?thesis by simp
qed

lemma frame_inject:
  assumes "frame k v @ r = frame k' v' @ r'"
  shows "k = k' \<and> v = v' \<and> r = r'"
proof -
  have k: "length k = length k' \<and> k @ CHR '':'' # show_nat (length v) @ CHR '':'' # v @ r =
      k' @ CHR '':'' # show_nat (length v') @ CHR '':'' # v' @ r'"
    by (rule counted_inject) (use assms in \<open>simp add: frame_def\<close>)
  then have kk: "k = k'" by (metis append_eq_append_conv)
  with k have "length v = length v' \<and> v @ r = v' @ r'" by (intro counted_inject) simp
  with kk show ?thesis by (metis append_eq_append_conv)
qed

lemma frame_nonempty [simp]: "frame k v \<noteq> []"
  by (simp add: frame_def)

lemma frames_inject:
  "concat (map (\<lambda>k. frame k (f k)) ks) = concat (map (\<lambda>k. frame k (g k)) ks') \<Longrightarrow>
     ks = ks' \<and> (\<forall>k \<in> set ks. f k = g k)"
proof (induction ks arbitrary: ks')
  case Nil
  then show ?case by (cases ks') auto
next
  case (Cons k ks)
  show ?case
  proof (cases ks')
    case Nil
    with Cons.prems show ?thesis by simp
  next
    case (Cons k' rest)
    have "k = k' \<and> f k = g k' \<and> concat (map (\<lambda>k. frame k (f k)) ks) = concat (map (\<lambda>k. frame k (g k)) rest)"
      by (rule frame_inject) (use Cons Cons.prems in simp)
    with Cons.IH [of rest] Cons show ?thesis by auto
  qed
qed

definition signed_part :: "dict \<Rightarrow> string \<Rightarrow> cstr" where
  "signed_part d k = (if k = ''identity.signature'' then None else map_of d k)"

definition signed_keys :: "dict \<Rightarrow> string set" where
  "signed_keys d = fst ` set d - {''identity.signature''}"

lemma signed_keys_iff: "k \<in> signed_keys d \<longleftrightarrow> signed_part d k \<noteq> None"
  by (auto simp: signed_keys_def signed_part_def simp flip: dom_map_of_conv_image_fst)

lemma set_canonical_keys: "set (canonical_keys d) = signed_keys d"
  by (auto simp: canonical_keys_def signed_keys_def)

lemma canonical_eqI:
  assumes "dict_ok d" "dict_ok e" "signed_part d = signed_part e"
  shows "canonical d = canonical e"
proof -
  have "signed_keys d = signed_keys e" using assms(3) signed_keys_iff by auto
  then have "canonical_keys d = canonical_keys e"
    by (intro strcmp_sorted_unique)
       (simp_all add: set_canonical_keys, simp_all add: canonical_keys_def sorted_sort_strings assms(1,2))
  moreover have "dict_get d k '''' = dict_get e k ''''" if "k \<in> set (canonical_keys d)" for k
    using that fun_cong [OF assms(3), of k] signed_keys_def
    by (simp add: set_canonical_keys signed_part_def dict_get_def)
  ultimately show ?thesis unfolding canonical_def by (metis (no_types, lifting) map_cong)
qed

lemma canonical_eqD:
  assumes "canonical d = canonical e"
  shows "signed_part d = signed_part e"
proof
  fix k
  have f: "canonical_keys d = canonical_keys e \<and>
      (\<forall>k \<in> set (canonical_keys d). dict_get d k '''' = dict_get e k '''')"
    by (rule frames_inject) (use assms in \<open>simp add: canonical_def\<close>)
  then have s: "signed_keys d = signed_keys e" by (metis set_canonical_keys)
  have g: "dict_get d k '''' = dict_get e k ''''" if "k \<in> signed_keys d"
    using f that by (simp add: set_canonical_keys)
  show "signed_part d k = signed_part e k"
  proof (cases "k \<in> signed_keys d")
    case True
    moreover have "k \<in> signed_keys e" using True s by simp
    ultimately show ?thesis using g signed_keys_iff [of k d] signed_keys_iff [of k e]
      by (auto simp: signed_part_def dict_get_def split: if_splits)
  next
    case False
    then have "k \<notin> signed_keys e" using s by simp
    with False show ?thesis by (simp add: signed_keys_iff)
  qed
qed

section \<open>Signing and verifying\<close>

record 'k crypto =
  base64_encode :: "string \<Rightarrow> string"
  base64_decode :: "string \<Rightarrow> string"
  ed25519_public :: "string \<Rightarrow> 'k option"
  ed25519_verify :: "'k \<Rightarrow> string \<Rightarrow> string \<Rightarrow> bool"
  sha256 :: "string \<Rightarrow> string"

text \<open>The server's own identity: the private key, as the signing function it gives, and the public key in base64.\<close>

record server_identity =
  id_key :: "(string \<Rightarrow> string option) option"
  id_public :: cstr

definition rr_identity_public_base64 :: "server_identity \<Rightarrow> cstr" where
  "rr_identity_public_base64 i = id_public i"

definition rr_identity_sign_catalog :: "'k crypto \<Rightarrow> server_identity \<Rightarrow> dict \<Rightarrow> bool \<times> dict" where
  "rr_identity_sign_catalog c i d = (case (id_key i, id_public i) of
     (Some key, Some _) \<Rightarrow>
       (case key (canonical d) of
          Some signature \<Rightarrow> (True, AList.update ''identity.signature'' (base64_encode c signature) d)
        | None \<Rightarrow> (False, d))
   | _ \<Rightarrow> (False, d))"

definition rr_identity_verify_catalog :: "'k crypto \<Rightarrow> dict \<Rightarrow> bool" where
  "rr_identity_verify_catalog c d = (case (map_of d ''identity.public-key'', map_of d ''identity.signature'') of
     (Some encoded_key, Some encoded_sig) \<Rightarrow>
       if length encoded_key \<noteq> 44 \<or> length encoded_sig \<noteq> 88 then False
       else (let key_bytes = base64_decode c encoded_key; sig_bytes = base64_decode c encoded_sig in
         if length key_bytes = 32 \<and> length sig_bytes = 64
         then (case ed25519_public c key_bytes of
                 None \<Rightarrow> False
               | Some key \<Rightarrow> ed25519_verify c key (canonical d) sig_bytes)
         else False)
   | _ \<Rightarrow> False)"

text \<open>What the server's key relies on: base64 decodes what it encoded, at its lengths, and the
  public key accepts every signature the private key makes.\<close>

definition crypto_sound :: "'k crypto \<Rightarrow> server_identity \<Rightarrow> bool" where
  "crypto_sound c i \<longleftrightarrow> (\<exists>sign raw pub.
     id_key i = Some sign \<and> id_public i = Some (base64_encode c raw) \<and> length raw = 32 \<and>
     ed25519_public c raw = Some pub \<and>
     (\<forall>m. \<exists>s. sign m = Some s \<and> length s = 64 \<and> ed25519_verify c pub m s) \<and>
     (\<forall>b. base64_decode c (base64_encode c b) = b) \<and>
     (\<forall>b. length (base64_encode c b) = (length b + 2) div 3 * 4))"

lemma canonical_signature_free:
  "dict_ok d \<Longrightarrow> canonical (AList.update ''identity.signature'' s d) = canonical d"
  by (rule canonical_eqI) (auto simp: signed_part_def update_conv')

lemma verify_map_cong:
  "dict_ok d \<Longrightarrow> dict_ok e \<Longrightarrow> map_of d = map_of e \<Longrightarrow>
     rr_identity_verify_catalog c d = rr_identity_verify_catalog c e"
proof -
  assume a: "dict_ok d" "dict_ok e" "map_of d = map_of e"
  then have "canonical d = canonical e" by (intro canonical_eqI) (simp_all add: signed_part_def fun_eq_iff)
  then show ?thesis by (simp only: rr_identity_verify_catalog_def a(3))
qed

lemma sign_verifies:
  assumes "crypto_sound c i" "dict_ok d" "map_of d ''identity.public-key'' = id_public i"
  shows "\<exists>s. rr_identity_sign_catalog c i d = (True, AList.update ''identity.signature'' s d) \<and>
     rr_identity_verify_catalog c (AList.update ''identity.signature'' s d)"
proof -
  from assms(1) obtain sign raw pub s where k: "id_key i = Some sign" "id_public i = Some (base64_encode c raw)"
      "length raw = 32" "ed25519_public c raw = Some pub"
      "sign (canonical d) = Some s" "length s = 64" "ed25519_verify c pub (canonical d) s"
      "\<forall>b. base64_decode c (base64_encode c b) = b" "\<forall>b. length (base64_encode c b) = (length b + 2) div 3 * 4"
    unfolding crypto_sound_def by metis
  let ?d = "AList.update ''identity.signature'' (base64_encode c s) d"
  have "map_of ?d ''identity.public-key'' = Some (base64_encode c raw)" using assms(3) k(2) by (simp add: update_conv')
  moreover have "map_of ?d ''identity.signature'' = Some (base64_encode c s)" by (simp add: update_conv')
  moreover have "canonical ?d = canonical d" by (rule canonical_signature_free [OF assms(2)])
  ultimately have "rr_identity_verify_catalog c ?d" using k(3-9) by (simp add: rr_identity_verify_catalog_def)
  moreover have "rr_identity_sign_catalog c i d = (True, ?d)" using k(1,2,5) by (simp add: rr_identity_sign_catalog_def)
  ultimately show ?thesis by blast
qed

section \<open>Pinned keys\<close>

record identity_db =
  db_pins :: "string \<times> string \<Rightarrow> cstr"
  db_revs :: "string \<times> string \<times> string \<Rightarrow> (int \<times> string) option"

record sql_io =
  io_schema :: bool
  io_write :: bool
  io_read :: bool

definition rr_identity_check_pin ::
  "sql_io \<Rightarrow> string \<Rightarrow> string \<Rightarrow> string \<Rightarrow> identity_db \<Rightarrow> bool \<times> identity_db" where
  "rr_identity_check_pin io domain owner pubkey db =
     (if domain = [] \<or> owner = [] \<or> pubkey = [] then (False, db)
      else if \<not> io_schema io then (False, db)
      else let scope = map to_lower domain in
        if \<not> io_write io then (False, db)
        else let db' = (if db_pins db (scope, owner) = None
                        then db\<lparr>db_pins := (db_pins db)((scope, owner) \<mapsto> pubkey)\<rparr> else db)
             in (io_read io \<and> db_pins db' (scope, owner) = Some pubkey, db'))"

section \<open>The revision journal\<close>

definition catalog_content_digest :: "'k crypto \<Rightarrow> dict \<Rightarrow> string" where
  "catalog_content_digest c d = sha256 c (canonical (dict_dels
     [''identity.signature'', ''identity.revision'', ''identity.owner'', ''identity.domain'', ''identity.public-key'',
      ''identity.scheme'', ''identity.operation'', ''identity.timestamp'', ''identity.nonce''] d))"

text \<open>The row's revision, 0 when there is none, and its digest, \<open>NULL\<close> when there is none.\<close>

definition revision_query :: "string \<times> string \<times> string \<Rightarrow> identity_db \<Rightarrow> int \<times> cstr" where
  "revision_query k db = (case db_revs db k of None \<Rightarrow> (0, None) | Some (r, h) \<Rightarrow> (r, Some h))"

definition revision_store :: "string \<times> string \<times> string \<Rightarrow> int \<Rightarrow> string \<Rightarrow> identity_db \<Rightarrow> identity_db" where
  "revision_store k r h db = db\<lparr>db_revs := (db_revs db)(k \<mapsto> (r, h))\<rparr>"

definition rr_identity_local_revision ::
  "'k crypto \<Rightarrow> sql_io \<Rightarrow> string \<Rightarrow> string \<Rightarrow> string \<Rightarrow> dict \<Rightarrow> identity_db \<Rightarrow> bool \<times> dict \<times> identity_db" where
  "rr_identity_local_revision c io domain owner key d db =
     (if \<not> io_schema io \<or> \<not> io_read io then (False, d, db)
      else let digest = catalog_content_digest c d;
               (revision, previous) = revision_query (domain, owner, key) db in
        if previous \<noteq> Some digest
        then (if revision = INT64_MAX_i \<or> \<not> io_write io then (False, d, db)
              else (0 < revision + 1, AList.update ''identity.revision'' (show_int (revision + 1)) d,
                    revision_store (domain, owner, key) (revision + 1) digest db))
        else (0 < revision, AList.update ''identity.revision'' (show_int revision) d, db))"

definition rr_identity_accept_revision ::
  "'k crypto \<Rightarrow> sql_io \<Rightarrow> string \<Rightarrow> string \<Rightarrow> string \<Rightarrow> dict \<Rightarrow> identity_db \<Rightarrow> bool \<times> identity_db" where
  "rr_identity_accept_revision c io domain owner key d db =
     (let value = dict_get d ''identity.revision'' '''' in
      if \<not> io_schema io then (False, db)
      else if value = [] \<or> hd value = CHR ''0'' then (False, db)
      else let (proposed, rest) = c_strtoll value in
        if rest \<noteq> [] \<or> proposed \<le> 0 then (False, db)
        else if \<not> io_read io then (False, db)
        else let digest = catalog_content_digest c d;
                 (current, previous) = revision_query (domain, owner, key) db in
          if proposed < current \<or> (proposed = current \<and> previous \<noteq> Some digest) then (False, db)
          else if current < proposed
          then (if io_write io then (True, revision_store (domain, owner, key) proposed digest db) else (False, db))
          else (True, db))"

subsection \<open>History is kept\<close>

text \<open>A later state of the tables: every pin stands, every revision stands or has been superseded by a larger one.\<close>

definition later_db :: "identity_db \<Rightarrow> identity_db \<Rightarrow> bool" where
  "later_db db db' \<longleftrightarrow> (\<forall>k p. db_pins db k = Some p \<longrightarrow> db_pins db' k = Some p) \<and>
     (\<forall>k r h. db_revs db k = Some (r, h) \<longrightarrow>
        (\<exists>r' h'. db_revs db' k = Some (r', h') \<and> (r < r' \<or> (r = r' \<and> h = h'))))"

lemma later_refl [simp]: "later_db db db"
  by (simp add: later_db_def)

lemma later_trans:
  assumes ab: "later_db a b" and bc: "later_db b c"
  shows "later_db a c"
  unfolding later_db_def
proof (intro conjI allI impI)
  show "db_pins c k = Some p" if "db_pins a k = Some p" for k p
    using that ab bc unfolding later_db_def by blast
  show "\<exists>r' h'. db_revs c k = Some (r', h') \<and> (r < r' \<or> (r = r' \<and> h = h'))" if "db_revs a k = Some (r, h)" for k r h
  proof -
    from that ab obtain r1 h1 where 1: "db_revs b k = Some (r1, h1)" "r < r1 \<or> (r = r1 \<and> h = h1)"
      unfolding later_db_def by blast
    from 1(1) bc obtain r2 h2 where 2: "db_revs c k = Some (r2, h2)" "r1 < r2 \<or> (r1 = r2 \<and> h1 = h2)"
      unfolding later_db_def by blast
    from 1(2) 2 show ?thesis by auto
  qed
qed

lemma later_pin: "later_db db (snd (rr_identity_check_pin io domain owner pub db))"
  by (simp add: rr_identity_check_pin_def later_db_def Let_def)

lemma later_store:
  "fst (revision_query k db) < r \<Longrightarrow> later_db db (revision_store k r h db)"
  by (auto simp: later_db_def revision_store_def revision_query_def)

lemma later_local: "later_db db (snd (snd (rr_identity_local_revision c io domain owner key d db)))"
  using later_store [of "(domain, owner, key)" db]
  by (simp add: rr_identity_local_revision_def Let_def split: prod.splits)

lemma later_accept: "later_db db (snd (rr_identity_accept_revision c io domain owner key d db))"
  using later_store [of "(domain, owner, key)" db]
  by (simp add: rr_identity_accept_revision_def Let_def split: prod.splits)

datatype identity_op =
    Check_pin sql_io string string string
  | Local_revision sql_io string string string dict
  | Accept_revision sql_io string string string dict

fun identity_step :: "'k crypto \<Rightarrow> identity_op \<Rightarrow> identity_db \<Rightarrow> identity_db" where
  "identity_step c (Check_pin io domain owner pub) db = snd (rr_identity_check_pin io domain owner pub db)"
| "identity_step c (Local_revision io domain owner key d) db = snd (snd (rr_identity_local_revision c io domain owner key d db))"
| "identity_step c (Accept_revision io domain owner key d) db = snd (rr_identity_accept_revision c io domain owner key d db)"

lemma later_step: "later_db db (identity_step c op db)"
  by (cases op) (simp_all add: later_pin later_local later_accept)

interpretation tables: machine "identity_step c" "later_db db"
  by unfold_locales (blast intro: later_step later_trans)

lemma later_run: "later_db db (fold (identity_step c) ops db)"
  by (rule tables.run_inv) simp

text \<open>An accepted descriptor's revision is the number in the descriptor and the journal holds it with the content's digest.\<close>

definition proposed_revision :: "dict \<Rightarrow> int" where
  "proposed_revision d = fst (c_strtoll (dict_get d ''identity.revision'' ''''))"

lemma accepted_stored:
  assumes "rr_identity_accept_revision c io domain owner key d db = (True, db')"
  shows "db_revs db' (domain, owner, key) = Some (proposed_revision d, catalog_content_digest c d)"
    and "\<And>r h. db_revs db (domain, owner, key) = Some (r, h) \<Longrightarrow>
      r < proposed_revision d \<or> (r = proposed_revision d \<and> h = catalog_content_digest c d)"
  using assms
  by (auto simp: rr_identity_accept_revision_def revision_query_def revision_store_def proposed_revision_def Let_def
      split: prod.splits option.splits if_splits)

lemma pinned_stored:
  assumes "rr_identity_check_pin io domain owner pub db = (True, db')"
  shows "db_pins db' (map to_lower domain, owner) = Some pub"
    and "\<And>p. db_pins db (map to_lower domain, owner) = Some p \<Longrightarrow> p = pub"
  using assms by (auto simp: rr_identity_check_pin_def Let_def split: if_splits)

section \<open>Properties\<close>

text \<open>
  C38. A signature covers a descriptor exactly: two dictionaries have the same canonical bytes
  if and only if they hold the same values under the same keys, the signature itself excepted.
  The order of enumeration does not matter, and no boundary between keys and values can be moved.
\<close>

theorem canonical_unambiguous:
  assumes "dict_ok d" "dict_ok e"
  shows "canonical d = canonical e \<longleftrightarrow> signed_part d = signed_part e"
  using assms canonical_eqI canonical_eqD by blast

definition demo_descriptor :: dict where
  "demo_descriptor = [(''object.type'', ''rig''), (''identity.signature'', ''x''), (''a'', ''1:b'')]"

lemma canonical_unambiguous_witness:
  "canonical demo_descriptor = canonical [(''a'', ''1:b''), (''object.type'', ''rig'')] \<and>
   canonical demo_descriptor \<noteq> canonical [(''a'', ''1''), (''b'', ''''), (''object.type'', ''rig'')]"
proof -
  have "signed_part demo_descriptor = signed_part [(''a'', ''1:b''), (''object.type'', ''rig'')]"
    by (simp add: signed_part_def demo_descriptor_def fun_eq_iff)
  moreover have "signed_part demo_descriptor ''a'' \<noteq> signed_part [(''a'', ''1''), (''b'', ''''), (''object.type'', ''rig'')] ''a''"
    by (simp add: signed_part_def demo_descriptor_def)
  ultimately show ?thesis
    using canonical_unambiguous [of demo_descriptor "[(''a'', ''1:b''), (''object.type'', ''rig'')]"]
      canonical_unambiguous [of demo_descriptor "[(''a'', ''1''), (''b'', ''''), (''object.type'', ''rig'')]"]
    by (auto simp: demo_descriptor_def)
qed

text \<open>
  C17. Nothing signed can be rolled back or forked. After a key has been pinned for a server, no
  sequence of checks and catalog updates, whatever statements fail, lets another key pass; after
  a descriptor has been accepted, another is accepted under the same catalog key only with a
  larger revision or, at the same revision, with the same content digest.
\<close>

theorem identity_no_rollback:
  assumes "rr_identity_check_pin io domain owner pub db = (True, db1)"
    and "rr_identity_accept_revision c io1 domain owner key d db1 = (True, db2)"
  shows "(strcaseeq domain' domain \<longrightarrow>
            rr_identity_check_pin io2 domain' owner pub' (fold (identity_step c) ops db2) = (True, db3) \<longrightarrow> pub' = pub) \<and>
         (rr_identity_accept_revision c io3 domain owner key e (fold (identity_step c) ops db2) = (True, db4) \<longrightarrow>
            proposed_revision d < proposed_revision e \<or>
            (proposed_revision d = proposed_revision e \<and> catalog_content_digest c d = catalog_content_digest c e))"
proof -
  let ?db = "fold (identity_step c) ops db2"
  have run: "later_db db2 ?db" by (rule later_run)
  have "later_db db1 db2" using later_accept [of db1 c io1 domain owner key d] assms(2) by simp
  then have "db_pins ?db (map to_lower domain, owner) = Some pub"
    using pinned_stored(1) [OF assms(1)] run unfolding later_db_def by blast
  moreover have "\<exists>r h. db_revs ?db (domain, owner, key) = Some (r, h) \<and> (proposed_revision d < r \<or>
      (proposed_revision d = r \<and> catalog_content_digest c d = h))"
    using accepted_stored(1) [OF assms(2)] run unfolding later_db_def by blast
  ultimately show ?thesis
    using pinned_stored(2) [of io2 domain' owner pub' ?db db3] accepted_stored(2) [of c io3 domain owner key e ?db db4]
    by (fastforce simp: strcaseeq_def)
qed

definition demo_crypto :: "string crypto" where
  "demo_crypto = \<lparr>base64_encode = (\<lambda>b. b), base64_decode = (\<lambda>b. b), ed25519_public = Some,
     ed25519_verify = (\<lambda>k m s. s = k @ m), sha256 = (\<lambda>b. b)\<rparr>"

definition empty_db :: identity_db where
  "empty_db = \<lparr>db_pins = (\<lambda>_. None), db_revs = (\<lambda>_. None)\<rparr>"

definition demo_io :: sql_io where
  "demo_io = \<lparr>io_schema = True, io_write = True, io_read = True\<rparr>"

definition demo_pinned :: identity_db where
  "demo_pinned = empty_db\<lparr>db_pins := [(''net'', ''node'') \<mapsto> ''key'']\<rparr>"

lemma demo_pins: "rr_identity_check_pin demo_io ''Net'' ''node'' ''key'' empty_db = (True, demo_pinned)"
proof -
  have "map to_lower ''Net'' = ''net''" by code_simp
  then show ?thesis by (simp add: rr_identity_check_pin_def demo_io_def empty_db_def demo_pinned_def Let_def)
qed

lemma demo_revision: "c_strtoll ''7'' = (7, [])" "proposed_revision [(''identity.revision'', ''7'')] = 7"
  "c_strtoll ''6'' = (6, [])"
  by code_simp+

lemma identity_no_rollback_witness:
  "\<not> fst (rr_identity_check_pin demo_io ''net'' ''node'' ''other'' (fold (identity_step demo_crypto)
       [Check_pin demo_io ''net'' ''node'' ''other'']
       (revision_store (''Net'', ''node'', ''k'') 7 (catalog_content_digest demo_crypto [(''identity.revision'', ''7'')]) demo_pinned)))"
proof -
  let ?d = "[(''identity.revision'', ''7'')]"
  let ?db = "revision_store (''Net'', ''node'', ''k'') 7 (catalog_content_digest demo_crypto ?d) demo_pinned"
  have "rr_identity_accept_revision demo_crypto demo_io ''Net'' ''node'' ''k'' ?d demo_pinned = (True, ?db)"
    by (simp add: rr_identity_accept_revision_def dict_get_def demo_revision demo_io_def revision_query_def demo_pinned_def empty_db_def)
  moreover have "strcaseeq ''net'' ''Net''" by code_simp
  ultimately show ?thesis
    using identity_no_rollback [OF demo_pins, of demo_crypto demo_io "''k''" ?d ?db "''net''" demo_io "''other''"
        "[Check_pin demo_io ''net'' ''node'' ''other'']"]
    by (cases "rr_identity_check_pin demo_io ''net'' ''node'' ''other'' (fold (identity_step demo_crypto)
       [Check_pin demo_io ''net'' ''node'' ''other''] ?db)") auto
qed

end
