(* ===== verification/Enrollment.thy ===== *)
theory Enrollment
  imports Identity
begin

text \<open>
  Admission of a new server (\<^verbatim>\<open>rrserver/identity.c\<close>, second half): the store of explicitly
  trusted keys and the life of a join invitation, from its issue over the challenge to the one
  redemption it allows.

  The four SQL tables are maps from their primary keys. Each statement of a call may fail, as
  \<open>sql_io\<close> says; a statement that succeeds does what its text says, with \<open>unixepoch()\<close> the
  argument \<open>now\<close>. \<open>BEGIN IMMEDIATE \<dots> COMMIT\<close> is one step from the old tables to the new ones and
  \<open>ROLLBACK\<close> returns to the old. \<open>uuid_valid\<close> is GLib's \<open>g_uuid_string_is_valid\<close>.
\<close>

section \<open>State\<close>

datatype ticket_status = Pending | Used | Revoked

record ticket =
  tk_domain :: string
  tk_public_key :: string
  tk_expires :: int
  tk_status :: ticket_status
  tk_joined :: "(string \<times> string \<times> string) option"

record enroll_db =
  mesh_explicit_trust :: "string \<times> string \<Rightarrow> (string \<times> string) option"
  mesh_join_invitations :: "string \<Rightarrow> ticket option"
  mesh_join_invitation_targets :: "string \<Rightarrow> cstr"
  mesh_join_challenges :: "string \<Rightarrow> (string \<times> int) option"

section \<open>Trusted keys\<close>

definition key_char :: "char \<Rightarrow> bool" where
  "key_char ch \<longleftrightarrow> is_alnum ch \<or> ch = CHR ''+'' \<or> ch = CHR ''/'' \<or> ch = CHR ''=''"

definition trust_key_valid :: "'k crypto \<Rightarrow> string \<Rightarrow> nat \<Rightarrow> bool" where
  "trust_key_valid c key n \<longleftrightarrow> length key = (n + 2) div 3 * 4 \<and> list_all key_char key \<and>
     length (base64_decode c key) = n \<and> base64_encode c (base64_decode c key) = key"

definition rr_identity_trust_verify ::
  "sql_io \<Rightarrow> string \<Rightarrow> string \<Rightarrow> string \<Rightarrow> string \<Rightarrow> enroll_db \<Rightarrow> bool" where
  "rr_identity_trust_verify io domain owner catalog spki db =
     (io_schema io \<and> io_read io \<and> mesh_explicit_trust db (domain, owner) = Some (catalog, spki))"

definition rr_identity_trust_enroll ::
  "'k crypto \<Rightarrow> (string \<Rightarrow> bool) \<Rightarrow> sql_io \<Rightarrow> string \<Rightarrow> string \<Rightarrow> string \<Rightarrow> string \<Rightarrow> enroll_db \<Rightarrow> bool \<times> enroll_db" where
  "rr_identity_trust_enroll c uuid_valid io domain owner catalog spki db =
     (if domain = [] \<or> \<not> uuid_valid owner \<or> \<not> trust_key_valid c catalog 32 \<or> \<not> trust_key_valid c spki 32 \<or> \<not> io_schema io
      then (False, db)
      else if \<not> io_write io then (False, db)
      else let db' = (if mesh_explicit_trust db (domain, owner) = None
                      then db\<lparr>mesh_explicit_trust := (mesh_explicit_trust db)((domain, owner) \<mapsto> (catalog, spki))\<rparr> else db)
           in (rr_identity_trust_verify io domain owner catalog spki db', db'))"

section \<open>Invitations\<close>

definition rr_identity_invite_create ::
  "'k crypto \<Rightarrow> (string \<Rightarrow> bool) \<Rightarrow> sql_io \<Rightarrow> cstr \<Rightarrow> int \<Rightarrow> string \<Rightarrow> string \<Rightarrow> string \<Rightarrow> int \<Rightarrow> enroll_db \<Rightarrow> bool \<times> enroll_db" where
  "rr_identity_invite_create c uuid_valid io configured now ident domain pub expires db =
     (let configured = (case configured of None \<Rightarrow> ''72'' | Some [] \<Rightarrow> ''72'' | Some s \<Rightarrow> s);
          (errno, hours, rest) = c_strtoul configured
      in if expires = 0 \<and> (errno \<or> rest = configured \<or> rest \<noteq> [] \<or> hours < 1 \<or> 8760 < hours) then (False, db)
         else let expires = (if expires = 0 then now + int hours * 3600 else expires) in
           if \<not> uuid_valid ident \<or> domain = [] \<or> \<not> trust_key_valid c pub 32 \<or> expires \<le> now \<or> \<not> io_schema io then (False, db)
           else if \<not> io_write io \<or> mesh_join_invitations db ident \<noteq> None then (False, db)
           else (True, db\<lparr>mesh_join_invitations := (mesh_join_invitations db)(ident \<mapsto>
                  \<lparr>tk_domain = domain, tk_public_key = pub, tk_expires = expires, tk_status = Pending, tk_joined = None\<rparr>)\<rparr>))"

definition rr_identity_invite_revoke :: "sql_io \<Rightarrow> string \<Rightarrow> enroll_db \<Rightarrow> bool \<times> enroll_db" where
  "rr_identity_invite_revoke io ident db =
     (if \<not> io_schema io \<or> \<not> io_write io then (False, db)
      else case mesh_join_invitations db ident of
        Some t \<Rightarrow> if tk_status t = Pending
          then (True, db\<lparr>mesh_join_invitations := (mesh_join_invitations db)(ident \<mapsto> t\<lparr>tk_status := Revoked\<rparr>)\<rparr>) else (False, db)
      | None \<Rightarrow> (False, db))"

text \<open>The key pair and the id of a new invitation, and the statements of its call.\<close>

record invite_material =
  im_id :: string
  im_public :: string
  im_pem :: string

record issue_io =
  ii_target_schema :: bool
  ii_create :: sql_io
  ii_target :: bool
  ii_revoke :: sql_io

definition rr_identity_invite_issue ::
  "'k crypto \<Rightarrow> (string \<Rightarrow> bool) \<Rightarrow> server_identity \<Rightarrow> issue_io \<Rightarrow> cstr \<Rightarrow> int \<Rightarrow> invite_material option \<Rightarrow>
   string \<Rightarrow> string \<Rightarrow> string \<Rightarrow> string \<Rightarrow> int \<Rightarrow> enroll_db \<Rightarrow> cstr \<times> enroll_db" where
  "rr_identity_invite_issue c uuid_valid own io configured now material domain url spki joining expires db =
     (if domain = [] \<or> \<not> uuid_valid joining \<or> \<not> ii_target_schema io \<or> take 6 url \<noteq> ''wss://'' \<or>
         CHR ''\<newline>'' \<in> set url \<or> char_of (13 :: nat) \<in> set url \<or> \<not> trust_key_valid c spki 32
      then (None, db)
      else case (material, rr_identity_public_base64 own) of
        (Some m, Some issuer) \<Rightarrow>
          (let pub64 = base64_encode c (im_public m); pem64 = base64_encode c (im_pem m);
               (created, db') = rr_identity_invite_create c uuid_valid (ii_create io) configured now (im_id m) domain pub64 expires db
           in if length (im_public m) \<noteq> 32 \<or> im_pem m = [] then (None, db)
              else if \<not> created then (None, db')
              else if ii_target io \<and> mesh_join_invitation_targets db' (im_id m) = None
              then (Some (concat (map (\<lambda>l. l @ ''\<newline>'')
                      [''RUSTYRIG-JOIN-2'', im_id m, domain, joining, url, spki, issuer, pem64])),
                    db'\<lparr>mesh_join_invitation_targets := (mesh_join_invitation_targets db')(im_id m \<mapsto> joining)\<rparr>)
              else (None, snd (rr_identity_invite_revoke (ii_revoke io) (im_id m) db')))
      | _ \<Rightarrow> (None, db))"

text \<open>The condition on the ticket shared by the statements below: pending and not expired.\<close>

definition pending_ticket :: "string \<Rightarrow> string \<Rightarrow> int \<Rightarrow> enroll_db \<Rightarrow> ticket option" where
  "pending_ticket ident domain now db = (case mesh_join_invitations db ident of
     Some t \<Rightarrow> if tk_domain t = domain \<and> tk_status t = Pending \<and> now < tk_expires t then Some t else None
   | None \<Rightarrow> None)"

definition rr_identity_invite_verify_proof ::
  "'k crypto \<Rightarrow> sql_io \<Rightarrow> int \<Rightarrow> string \<Rightarrow> string \<Rightarrow> string \<Rightarrow> string \<Rightarrow> enroll_db \<Rightarrow> bool" where
  "rr_identity_invite_verify_proof c io now ident domain transcript signature db =
     (if transcript = [] \<or> 4096 < length transcript \<or> \<not> io_schema io \<or> \<not> io_read io then False
      else case pending_ticket ident domain now db of
        None \<Rightarrow> False
      | Some t \<Rightarrow> trust_key_valid c (tk_public_key t) 32 \<and>
          (case ed25519_public c (base64_decode c (tk_public_key t)) of
             None \<Rightarrow> False
           | Some key \<Rightarrow> ed25519_verify c key transcript signature))"

definition rr_identity_invite_challenge ::
  "'k crypto \<Rightarrow> (string \<Rightarrow> bool) \<Rightarrow> sql_io \<Rightarrow> int \<Rightarrow> cstr \<Rightarrow> string \<Rightarrow> string \<Rightarrow> string \<Rightarrow> enroll_db \<Rightarrow> cstr \<times> enroll_db" where
  "rr_identity_invite_challenge c uuid_valid io now random ident domain node db =
     (if \<not> uuid_valid ident \<or> domain = [] \<or> \<not> uuid_valid node \<or> \<not> io_schema io then (None, db)
      else case random of
        None \<Rightarrow> (None, db)
      | Some nonce \<Rightarrow>
          (let encoded = base64_encode c nonce in
           if io_write io \<and> pending_ticket ident domain now db \<noteq> None \<and> mesh_join_invitation_targets db ident = Some node
           then (Some encoded, db\<lparr>mesh_join_challenges := (mesh_join_challenges db)(ident \<mapsto> (encoded, now + 120))\<rparr>)
           else (None, db)))"

definition rr_identity_invite_challenge_claim ::
  "'k crypto \<Rightarrow> (string \<Rightarrow> bool) \<Rightarrow> sql_io \<Rightarrow> int \<Rightarrow> string \<Rightarrow> string \<Rightarrow> string \<Rightarrow> string \<Rightarrow> enroll_db \<Rightarrow> bool \<times> enroll_db" where
  "rr_identity_invite_challenge_claim c uuid_valid io now ident domain node challenge db =
     (if \<not> uuid_valid ident \<or> \<not> uuid_valid node \<or> \<not> trust_key_valid c challenge 32 \<or> \<not> io_schema io \<or> \<not> io_write io
      then (False, db)
      else case mesh_join_challenges db ident of
        Some (stored, expires) \<Rightarrow>
          if stored = challenge \<and> now < expires \<and> pending_ticket ident domain now db \<noteq> None \<and>
             mesh_join_invitation_targets db ident = Some node
          then (True, db\<lparr>mesh_join_challenges := (mesh_join_challenges db)(ident := None)\<rparr>) else (False, db)
      | None \<Rightarrow> (False, db))"

definition rr_identity_invite_redeemed ::
  "'k crypto \<Rightarrow> (string \<Rightarrow> bool) \<Rightarrow> sql_io \<Rightarrow> string \<Rightarrow> string \<Rightarrow> string \<Rightarrow> string \<Rightarrow> string \<Rightarrow> enroll_db \<Rightarrow> bool" where
  "rr_identity_invite_redeemed c uuid_valid io ident domain node catalog spki db =
     (if \<not> io_schema io \<or> \<not> uuid_valid ident \<or> \<not> uuid_valid node \<or> \<not> trust_key_valid c catalog 32 \<or>
         \<not> trust_key_valid c spki 32 \<or> \<not> io_read io then False
      else (case mesh_join_invitations db ident of
              Some t \<Rightarrow> tk_domain t = domain \<and> tk_status t = Used \<and> tk_joined t = Some (node, catalog, spki)
            | None \<Rightarrow> False) \<and> rr_identity_trust_verify io domain node catalog spki db)"

record redeem_io =
  ri_schema :: bool
  ri_begin :: bool
  ri_update :: bool
  ri_enroll :: sql_io
  ri_commit :: bool

definition rr_identity_invite_redeem ::
  "'k crypto \<Rightarrow> (string \<Rightarrow> bool) \<Rightarrow> redeem_io \<Rightarrow> int \<Rightarrow> string \<Rightarrow> string \<Rightarrow> string \<Rightarrow> string \<Rightarrow> string \<Rightarrow>
   enroll_db \<Rightarrow> bool \<times> enroll_db" where
  "rr_identity_invite_redeem c uuid_valid io now ident domain node catalog spki db =
     (if domain = [] \<or> \<not> uuid_valid node \<or> \<not> trust_key_valid c catalog 32 \<or> \<not> trust_key_valid c spki 32 \<or> \<not> ri_schema io
      then (False, db)
      else if \<not> ri_begin io then (False, db)
      else case pending_ticket ident domain now db of
        None \<Rightarrow> (False, db)
      | Some t \<Rightarrow>
          if \<not> ri_update io \<or> mesh_join_invitation_targets db ident \<noteq> Some node then (False, db)
          else let db1 = db\<lparr>mesh_join_invitations := (mesh_join_invitations db)(ident \<mapsto>
                             t\<lparr>tk_status := Used, tk_joined := Some (node, catalog, spki)\<rparr>)\<rparr>;
                   (ok, db2) = rr_identity_trust_enroll c uuid_valid (ri_enroll io) domain node catalog spki db1
               in if ok \<and> ri_commit io then (True, db2) else (False, db))"

section \<open>What never changes back\<close>

text \<open>Trusted keys stand for ever, and so does a ticket that is no longer pending.\<close>

definition later_enroll :: "enroll_db \<Rightarrow> enroll_db \<Rightarrow> bool" where
  "later_enroll db db' \<longleftrightarrow>
     (\<forall>k v. mesh_explicit_trust db k = Some v \<longrightarrow> mesh_explicit_trust db' k = Some v) \<and>
     (\<forall>i t. mesh_join_invitations db i = Some t \<longrightarrow> tk_status t \<noteq> Pending \<longrightarrow> mesh_join_invitations db' i = Some t)"

lemma later_enroll_refl [simp]: "later_enroll db db"
  by (simp add: later_enroll_def)

lemma later_enroll_trans: "later_enroll a b \<Longrightarrow> later_enroll b c \<Longrightarrow> later_enroll a c"
  unfolding later_enroll_def by blast

lemma pending_ticket_Some:
  "pending_ticket i dn now db = Some t \<longleftrightarrow>
     mesh_join_invitations db i = Some t \<and> tk_domain t = dn \<and> tk_status t = Pending \<and> now < tk_expires t"
  by (auto simp: pending_ticket_def split: option.splits)

lemma later_trust_enroll: "later_enroll db (snd (rr_identity_trust_enroll c u io dn owner cat spki db))"
  by (simp add: rr_identity_trust_enroll_def later_enroll_def Let_def)

lemma later_create: "later_enroll db (snd (rr_identity_invite_create c u io conf now i dn pub ex db))"
  by (simp add: rr_identity_invite_create_def later_enroll_def Let_def split: prod.splits)

lemma later_revoke: "later_enroll db (snd (rr_identity_invite_revoke io i db))"
  by (simp add: rr_identity_invite_revoke_def later_enroll_def split: option.splits)

lemma later_targets [simp]: "later_enroll db (db'\<lparr>mesh_join_invitation_targets := f\<rparr>) = later_enroll db db'"
  "later_enroll db (db'\<lparr>mesh_join_challenges := g\<rparr>) = later_enroll db db'"
  by (simp_all add: later_enroll_def)

lemma later_issue: "later_enroll db (snd (rr_identity_invite_issue c u own io conf now m dn url spki j ex db))"
proof -
  obtain ok db' where cr: "rr_identity_invite_create c u (ii_create io) conf now (im_id (the m)) dn
      (base64_encode c (im_public (the m))) ex db = (ok, db')" by fastforce
  then have "later_enroll db db'" using later_create [of db c u "ii_create io"] by (metis snd_conv)
  moreover from this have "later_enroll db (snd (rr_identity_invite_revoke (ii_revoke io) (im_id (the m)) db'))"
    using later_revoke later_enroll_trans by blast
  ultimately show ?thesis using cr
    by (cases m) (simp_all add: rr_identity_invite_issue_def Let_def split: option.splits)
qed

lemma later_challenge: "later_enroll db (snd (rr_identity_invite_challenge c u io now r i dn node db))"
  by (simp add: rr_identity_invite_challenge_def Let_def split: option.splits)

lemma later_claim: "later_enroll db (snd (rr_identity_invite_challenge_claim c u io now i dn node ch db))"
  by (simp add: rr_identity_invite_challenge_claim_def split: option.splits prod.splits)

lemma later_redeem: "later_enroll db (snd (rr_identity_invite_redeem c u io now i dn node cat spki db))"
proof -
  have "later_enroll db db2" if "pending_ticket i dn now db = Some t"
    "rr_identity_trust_enroll c u (ri_enroll io) dn node cat spki
       (db\<lparr>mesh_join_invitations := (mesh_join_invitations db)(i \<mapsto> t')\<rparr>) = (ok, db2)" for t t' ok db2
  proof -
    have "later_enroll db (db\<lparr>mesh_join_invitations := (mesh_join_invitations db)(i \<mapsto> t')\<rparr>)"
      using that(1) by (auto simp: later_enroll_def pending_ticket_Some)
    with that(2) show ?thesis using later_trust_enroll later_enroll_trans by (metis snd_conv)
  qed
  then show ?thesis by (simp add: rr_identity_invite_redeem_def Let_def split: option.splits prod.splits)
qed

datatype enroll_op =
    Trust_enroll sql_io string string string string
  | Invite_issue issue_io cstr int "invite_material option" string string string string int
  | Invite_revoke sql_io string
  | Invite_challenge sql_io int cstr string string string
  | Challenge_claim sql_io int string string string string
  | Invite_redeem redeem_io int string string string string string

fun enroll_step :: "'k crypto \<Rightarrow> (string \<Rightarrow> bool) \<Rightarrow> server_identity \<Rightarrow> enroll_op \<Rightarrow> enroll_db \<Rightarrow> enroll_db" where
  "enroll_step c u own (Trust_enroll io dn owner cat spki) db = snd (rr_identity_trust_enroll c u io dn owner cat spki db)"
| "enroll_step c u own (Invite_issue io conf now m dn url spki j ex) db =
     snd (rr_identity_invite_issue c u own io conf now m dn url spki j ex db)"
| "enroll_step c u own (Invite_revoke io i) db = snd (rr_identity_invite_revoke io i db)"
| "enroll_step c u own (Invite_challenge io now r i dn node) db = snd (rr_identity_invite_challenge c u io now r i dn node db)"
| "enroll_step c u own (Challenge_claim io now i dn node ch) db =
     snd (rr_identity_invite_challenge_claim c u io now i dn node ch db)"
| "enroll_step c u own (Invite_redeem io now i dn node cat spki) db =
     snd (rr_identity_invite_redeem c u io now i dn node cat spki db)"

lemma later_enroll_step: "later_enroll db (enroll_step c u own op db)"
  by (cases op) (simp_all add: later_trust_enroll later_issue later_revoke later_challenge later_claim later_redeem)

interpretation admission: machine "enroll_step c u own" "later_enroll db"
  by unfold_locales (blast intro: later_enroll_step later_enroll_trans)

lemma later_enroll_run: "later_enroll db (fold (enroll_step c u own) ops db)"
  by (rule admission.run_inv) simp

lemma redeem_admits:
  assumes "rr_identity_invite_redeem c u io now i dn node cat spki db = (True, db')"
  shows "\<exists>t. pending_ticket i dn now db = Some t \<and> mesh_join_invitation_targets db i = Some node \<and>
      mesh_join_invitations db' i = Some (t\<lparr>tk_status := Used, tk_joined := Some (node, cat, spki)\<rparr>) \<and>
      mesh_explicit_trust db' (dn, node) = Some (cat, spki)"
proof -
  from assms obtain t where t: "pending_ticket i dn now db = Some t" "mesh_join_invitation_targets db i = Some node"
      "rr_identity_trust_enroll c u (ri_enroll io) dn node cat spki (db\<lparr>mesh_join_invitations := (mesh_join_invitations db)(i \<mapsto>
         t\<lparr>tk_status := Used, tk_joined := Some (node, cat, spki)\<rparr>)\<rparr>) = (True, db')"
    by (auto simp: rr_identity_invite_redeem_def Let_def split: option.splits prod.splits if_splits)
  from t(3) have "mesh_join_invitations db' i = Some (t\<lparr>tk_status := Used, tk_joined := Some (node, cat, spki)\<rparr>) \<and>
      mesh_explicit_trust db' (dn, node) = Some (cat, spki)"
    by (auto simp: rr_identity_trust_enroll_def rr_identity_trust_verify_def split: if_splits)
  with t(1,2) show ?thesis by blast
qed

lemma redeem_fails_unchanged:
  "\<not> fst (rr_identity_invite_redeem c u io now i dn node cat spki db) \<Longrightarrow>
     snd (rr_identity_invite_redeem c u io now i dn node cat spki db) = db"
  unfolding rr_identity_invite_redeem_def Let_def by (auto split: option.splits prod.splits if_splits)

text \<open>A ticket that is not pending serves nothing.\<close>

lemma spent_ticket:
  assumes "mesh_join_invitations db i = Some t" "tk_status t \<noteq> Pending"
  shows "\<not> fst (rr_identity_invite_redeem c u rio now i dn node cat spki db)"
    and "fst (rr_identity_invite_challenge c u io now r i dn node db) = None"
    and "\<not> fst (rr_identity_invite_challenge_claim c u io now i dn node ch db)"
    and "\<not> rr_identity_invite_verify_proof c io now i dn tr sig db"
    and "\<not> fst (rr_identity_invite_revoke io i db)"
proof -
  have n: "pending_ticket i dn now db = None" for dn now
    using assms by (simp add: pending_ticket_def)
  show "\<not> fst (rr_identity_invite_redeem c u rio now i dn node cat spki db)"
    by (simp add: rr_identity_invite_redeem_def n)
  show "fst (rr_identity_invite_challenge c u io now r i dn node db) = None"
    by (simp add: rr_identity_invite_challenge_def n split: option.splits)
  show "\<not> fst (rr_identity_invite_challenge_claim c u io now i dn node ch db)"
    by (simp add: rr_identity_invite_challenge_claim_def n split: option.splits prod.splits)
  show "\<not> rr_identity_invite_verify_proof c io now i dn tr sig db"
    by (simp add: rr_identity_invite_verify_proof_def n)
  show "\<not> fst (rr_identity_invite_revoke io i db)"
    using assms by (simp add: rr_identity_invite_revoke_def)
qed

section \<open>Properties\<close>

text \<open>
  C16. An invitation admits exactly the server it was issued for, once. A successful redemption
  found the ticket pending, unexpired and bound to that server; after it, and after any further
  sequence of operations with any failures, the server's two keys are trusted, the ticket can
  neither be redeemed again, nor challenged, nor proved, nor revoked, and only the admitted server
  is reported as its redeemer. A redemption that fails, at whatever statement, the enrolment and the
  commit included, leaves every table as it was.
\<close>

theorem invitation_admits_once:
  assumes "rr_identity_invite_redeem c u io now i dn node cat spki db = (ok, db1)"
  shows "if \<not> ok then db1 = db else (\<exists>t. pending_ticket i dn now db = Some t) \<and> mesh_join_invitation_targets db i = Some node \<and>
    (let db2 = fold (enroll_step c u own) ops db1 in
       mesh_explicit_trust db2 (dn, node) = Some (cat, spki) \<and>
       (let r = rr_identity_invite_redeem c u io2 now2 i dom2 node2 cat2 spki2 db2 in \<not> fst r \<and> snd r = db2) \<and>
       fst (rr_identity_invite_challenge c u io3 now2 rnd i dom2 node2 db2) = None \<and>
       \<not> rr_identity_invite_verify_proof c io3 now2 i dom2 tr sig db2 \<and>
       \<not> fst (rr_identity_invite_revoke io3 i db2) \<and>
       (rr_identity_invite_redeemed c u io3 i dom2 node2 cat2 spki2 db2 \<longrightarrow> (dom2, node2, cat2, spki2) = (dn, node, cat, spki)))"
proof (cases ok)
  case False
  with assms redeem_fails_unchanged [of c u io now i dn node cat spki db] show ?thesis by simp
next
  case True
  with assms have admitted: "rr_identity_invite_redeem c u io now i dn node cat spki db = (True, db1)" by simp
  from redeem_admits [OF admitted] obtain t where t: "pending_ticket i dn now db = Some t"
      "mesh_join_invitation_targets db i = Some node"
      "mesh_join_invitations db1 i = Some (t\<lparr>tk_status := Used, tk_joined := Some (node, cat, spki)\<rparr>)"
      "mesh_explicit_trust db1 (dn, node) = Some (cat, spki)" by blast
  let ?db = "fold (enroll_step c u own) ops db1"
  have l: "later_enroll db1 ?db" by (rule later_enroll_run)
  have tr: "mesh_explicit_trust ?db (dn, node) = Some (cat, spki)" using l t(4) unfolding later_enroll_def by blast
  have used: "mesh_join_invitations ?db i = Some (t\<lparr>tk_status := Used, tk_joined := Some (node, cat, spki)\<rparr>)"
    using l t(3) unfolding later_enroll_def by simp
  note spent = spent_ticket [OF used, simplified]
  have no: "\<not> fst (rr_identity_invite_redeem c u io2 now2 i dom2 node2 cat2 spki2 ?db)" by (rule spent)
  have "tk_domain t = dn" using t(1) by (simp add: pending_ticket_Some)
  then show ?thesis
    using t(1,2) tr no redeem_fails_unchanged [OF no] used True
    by (simp add: Let_def rr_identity_invite_redeemed_def spent)
qed

text \<open>Base64 stood in for by a code of the same lengths: 32 bytes to the same bytes and twelve equal signs.\<close>

definition demo_codec :: "string crypto" where
  "demo_codec = demo_crypto\<lparr>base64_encode := (\<lambda>b. b @ replicate 12 CHR ''=''), base64_decode := take 32\<rparr>"

definition demo_enroll_db :: enroll_db where
  "demo_enroll_db = \<lparr>mesh_explicit_trust = (\<lambda>_. None),
     mesh_join_invitations = [''ticket'' \<mapsto> \<lparr>tk_domain = ''net'', tk_public_key = ''k'', tk_expires = 100, tk_status = Pending,
       tk_joined = None\<rparr>],
     mesh_join_invitation_targets = [''ticket'' \<mapsto> ''node''], mesh_join_challenges = (\<lambda>_. None)\<rparr>"

definition demo_key_a :: string where "demo_key_a = replicate 32 CHR ''A'' @ replicate 12 CHR ''=''"

definition demo_redeem_io :: redeem_io where
  "demo_redeem_io = \<lparr>ri_schema = True, ri_begin = True, ri_update = True, ri_enroll = demo_io, ri_commit = True\<rparr>"

lemma demo_key_valid: "trust_key_valid demo_codec demo_key_a 32"
  by code_simp

lemma invitation_admits_once_witness:
  "(\<exists>db1. rr_identity_invite_redeem demo_codec (\<lambda>_. True) demo_redeem_io 50 ''ticket'' ''net'' ''node'' demo_key_a demo_key_a demo_enroll_db
      = (True, db1) \<and>
    \<not> fst (rr_identity_invite_redeem demo_codec (\<lambda>_. True) demo_redeem_io 51 ''ticket'' ''net'' ''node'' demo_key_a demo_key_a db1)) \<and>
   rr_identity_invite_redeem demo_codec (\<lambda>_. True) (demo_redeem_io\<lparr>ri_commit := False\<rparr>) 50 ''ticket'' ''net'' ''node'' demo_key_a demo_key_a demo_enroll_db
      = (False, demo_enroll_db)"
proof -
  note defs = rr_identity_invite_redeem_def demo_key_valid demo_redeem_io_def demo_enroll_db_def pending_ticket_def
    rr_identity_trust_enroll_def rr_identity_trust_verify_def demo_io_def
  obtain db1 where r: "rr_identity_invite_redeem demo_codec (\<lambda>_. True) demo_redeem_io 50 ''ticket'' ''net'' ''node''
      demo_key_a demo_key_a demo_enroll_db = (True, db1)" by (simp add: defs)
  obtain db2 where f: "rr_identity_invite_redeem demo_codec (\<lambda>_. True) (demo_redeem_io\<lparr>ri_commit := False\<rparr>) 50 ''ticket'' ''net'' ''node''
      demo_key_a demo_key_a demo_enroll_db = (False, db2)" by (simp add: defs)
  from invitation_admits_once [OF r, where ops = "[]"] invitation_admits_once [OF f] r f show ?thesis by (simp add: Let_def)
qed

end
