(* ===== verification/MeshAuth.thy ===== *)
theory MeshAuth
  imports Enrollment
begin

text \<open>
  The live identity proof two servers exchange over their pinned TLS channel
  (\<^verbatim>\<open>rrserver/mesh.auth.c\<close>) and the trust decision it asks for
  (\<open>native_identity_trusted\<close>, \<^verbatim>\<open>rrserver/link.native.c\<close>).

  Each end sends a fresh nonce and answers the other's nonce with a signed dictionary that names
  both nonces, the channel, the domain and its own role. The channel is given by \<open>channel\<close>: the TLS
  binding and the hash of the peer's certificate key, or \<open>None\<close> once it is closed. \<open>wire\<close> is the
  JSON library. A call returns the code's result, the session and the messages it sent.
\<close>

record mesh_auth =
  ma_nonce :: string
  ma_challenge :: string
  ma_node :: string
  ma_site :: string
  ma_public_key :: string
  ma_challenged :: bool
  ma_verified :: bool

definition no_auth :: mesh_auth where
  "no_auth = \<lparr>ma_nonce = [], ma_challenge = [], ma_node = [], ma_site = [], ma_public_key = [],
     ma_challenged = False, ma_verified = False\<rparr>"

record channel =
  ch_binding :: cstr
  ch_peer_spki :: cstr
  ch_send_ok :: bool

record wire =
  json_print :: "dict \<Rightarrow> string"
  json_parse :: "string \<Rightarrow> dict option"

record link_end =
  le_outbound :: bool
  le_domain :: string
  le_node :: string
  le_site :: string
  le_identity :: server_identity

section \<open>Starting\<close>

definition send_dict :: "wire \<Rightarrow> channel \<Rightarrow> dict \<Rightarrow> string option" where
  "send_dict w t d = (if ch_send_ok t then Some (json_print w d) else None)"

definition nonce_valid :: "'k crypto \<Rightarrow> string \<Rightarrow> bool" where
  "nonce_valid c value \<longleftrightarrow> length value = 44 \<and> length (base64_decode c value) = 32 \<and>
     base64_encode c (base64_decode c value) = value"

definition rr_mesh_auth_start ::
  "'k crypto \<Rightarrow> wire \<Rightarrow> channel \<Rightarrow> cstr \<Rightarrow> mesh_auth \<Rightarrow> bool \<times> mesh_auth \<times> string list" where
  "rr_mesh_auth_start c w t random auth = (case random of
     None \<Rightarrow> (False, auth, [])
   | Some bytes \<Rightarrow>
       (let auth' = no_auth\<lparr>ma_nonce := snprintf_s 45 (base64_encode c bytes)\<rparr> in
        case send_dict w t [(''mesh.auth'', ''challenge-v1''), (''nonce'', ma_nonce auth')] of
          Some m \<Rightarrow> (True, auth', [m])
        | None \<Rightarrow> (False, auth', [])))"

section \<open>The proof\<close>

definition role_name :: "bool \<Rightarrow> string" where
  "role_name outbound = (if outbound then ''initiator'' else ''acceptor'')"

definition proof_dict :: "'k crypto \<Rightarrow> link_end \<Rightarrow> mesh_auth \<Rightarrow> string \<Rightarrow> string \<Rightarrow> dict" where
  "proof_dict c e auth binding pub =
     [(''mesh.auth'', ''proof-v1''), (''identity.domain'', le_domain e), (''identity.owner'', le_node e),
      (''identity.public-key'', pub), (''site'', le_site e), (''nonce'', ma_nonce auth),
      (''challenge'', ma_challenge auth), (''channel'', base64_encode c binding), (''role'', role_name (le_outbound e))]"

definition send_proof :: "'k crypto \<Rightarrow> wire \<Rightarrow> channel \<Rightarrow> mesh_auth \<Rightarrow> link_end \<Rightarrow> string option" where
  "send_proof c w t auth e = (case (ch_binding t, rr_identity_public_base64 (le_identity e)) of
     (Some binding, Some pub) \<Rightarrow>
       (case rr_identity_sign_catalog c (le_identity e) (proof_dict c e auth binding pub) of
          (True, d) \<Rightarrow> send_dict w t d
        | (False, _) \<Rightarrow> None)
   | _ \<Rightarrow> None)"

definition site_char :: "char \<Rightarrow> bool" where
  "site_char ch \<longleftrightarrow> 32 \<le> chr_ord ch \<and> chr_ord ch \<noteq> 127"

definition proof_accepted ::
  "'k crypto \<Rightarrow> (string \<Rightarrow> bool) \<Rightarrow> channel \<Rightarrow> mesh_auth \<Rightarrow> dict \<Rightarrow> link_end \<Rightarrow> (string \<Rightarrow> string \<Rightarrow> string \<Rightarrow> bool) \<Rightarrow> bool" where
  "proof_accepted c uuid_valid t auth d e trust =
     (let owner = dict_get d ''identity.owner'' ''''; pub = dict_get d ''identity.public-key'' '''';
          remote_site = dict_get d ''site'' '''' in
      case (ch_binding t, ch_peer_spki t) of
        (Some binding, Some pin) \<Rightarrow>
          uuid_valid owner \<and> owner \<noteq> le_node e \<and> remote_site \<noteq> [] \<and> length remote_site < 128 \<and> length pub = 44 \<and>
          dict_get d ''identity.domain'' '''' = le_domain e \<and> dict_get d ''nonce'' '''' = ma_challenge auth \<and>
          dict_get d ''challenge'' '''' = ma_nonce auth \<and> dict_get d ''role'' '''' = role_name (\<not> le_outbound e) \<and>
          list_all site_char remote_site \<and>
          dict_get d ''channel'' '''' = base64_encode c binding \<and> trust owner pub (base64_encode c pin) \<and>
          rr_identity_verify_catalog c d
      | _ \<Rightarrow> False)"

text \<open>The result is -1 (rejects), 0 (awaits the proof) or 1 (authenticated).\<close>

definition rr_mesh_auth_receive ::
  "'k crypto \<Rightarrow> wire \<Rightarrow> (string \<Rightarrow> bool) \<Rightarrow> channel \<Rightarrow> mesh_auth \<Rightarrow> string \<Rightarrow> link_end \<Rightarrow>
   (string \<Rightarrow> string \<Rightarrow> string \<Rightarrow> bool) \<Rightarrow> int \<times> mesh_auth \<times> string list" where
  "rr_mesh_auth_receive c w uuid_valid t auth data e trust =
     (if data = [] \<or> 4096 < length data \<or> char_of (0 :: nat) \<in> set data \<or> ma_verified auth then (-1, auth, [])
      else case json_parse w data of
        None \<Rightarrow> (-1, auth, [])
      | Some d \<Rightarrow>
          (let operation = dict_get d ''mesh.auth'' ''''; nonce = dict_get d ''nonce'' '''' in
           if operation = ''challenge-v1'' \<and> \<not> ma_challenged auth \<and> nonce_valid c nonce
           then (let auth' = auth\<lparr>ma_challenge := snprintf_s 45 nonce, ma_challenged := True\<rparr> in
                 case send_proof c w t auth' e of
                   Some m \<Rightarrow> (0, auth', [m])
                 | None \<Rightarrow> (-1, auth', []))
           else if operation = ''proof-v1'' \<and> ma_challenged auth \<and> proof_accepted c uuid_valid t auth d e trust
           then (1, auth\<lparr>ma_node := snprintf_s 37 (dict_get d ''identity.owner'' ''''),
                         ma_site := snprintf_s 128 (dict_get d ''site'' ''''),
                         ma_public_key := snprintf_s 45 (dict_get d ''identity.public-key'' ''''), ma_verified := True\<rparr>, [])
           else (-1, auth, [])))"

section \<open>Whom a server trusts\<close>

record configured_peer =
  cp_enrolled :: bool
  cp_catalog_key :: cstr
  cp_spki :: string
  cp_node :: string

text \<open>\<open>database\<close> is the master database with the answer of its statements, when it is open and mesh linking is on.\<close>

definition native_identity_trusted ::
  "(sql_io \<times> enroll_db) option \<Rightarrow> string \<Rightarrow> configured_peer list \<Rightarrow> string \<Rightarrow> string \<Rightarrow> string \<Rightarrow> bool" where
  "native_identity_trusted database domain peers node key pin \<longleftrightarrow>
     (case database of Some (io, db) \<Rightarrow> rr_identity_trust_verify io domain node key pin db | None \<Rightarrow> False) \<or>
     list_ex (\<lambda>p. \<not> cp_enrolled p \<and> cp_catalog_key p = Some key \<and> cp_spki p = pin \<and> (cp_node p = [] \<or> cp_node p = node)) peers"

section \<open>Agreement\<close>

lemma proof_dict_get:
  "map_of (proof_dict c e auth b p) ''mesh.auth'' = Some ''proof-v1''"
  "map_of (proof_dict c e auth b p) ''identity.domain'' = Some (le_domain e)"
  "map_of (proof_dict c e auth b p) ''identity.owner'' = Some (le_node e)"
  "map_of (proof_dict c e auth b p) ''identity.public-key'' = Some p"
  "map_of (proof_dict c e auth b p) ''site'' = Some (le_site e)"
  "map_of (proof_dict c e auth b p) ''nonce'' = Some (ma_nonce auth)"
  "map_of (proof_dict c e auth b p) ''challenge'' = Some (ma_challenge auth)"
  "map_of (proof_dict c e auth b p) ''channel'' = Some (base64_encode c b)"
  "map_of (proof_dict c e auth b p) ''role'' = Some (role_name (le_outbound e))"
  by (simp_all add: proof_dict_def)

lemma proof_dict_ok [simp]: "dict_ok (proof_dict c e auth b p)"
  by (simp add: proof_dict_def)

lemma role_name_inject [simp]: "role_name a = role_name b \<longleftrightarrow> a = b"
  by (simp add: role_name_def)

text \<open>A signed part read back from a dictionary with the same canonical bytes.\<close>

lemma canonical_get:
  assumes "canonical d = canonical x" "map_of x k = Some v" "k \<noteq> ''identity.signature''"
  shows "dict_get d k '''' = v"
  using fun_cong [OF canonical_eqD [OF assms(1)], of k] assms(2,3) by (simp add: signed_part_def)

section \<open>Completion\<close>

text \<open>The JSON library: a printed dictionary is not empty, holds no terminator and parses to the same dictionary.\<close>

definition wire_ok :: "wire \<Rightarrow> bool" where
  "wire_ok w \<longleftrightarrow> (\<forall>d. dict_ok d \<longrightarrow> json_print w d \<noteq> [] \<and> char_of (0 :: nat) \<notin> set (json_print w d) \<and>
     (\<exists>d'. json_parse w (json_print w d) = Some d' \<and> dict_ok d' \<and> map_of d' = map_of d))"

definition honest :: "'k crypto \<Rightarrow> (string \<Rightarrow> bool) \<Rightarrow> link_end \<Rightarrow> bool" where
  "honest c uuid_valid e \<longleftrightarrow> crypto_sound c (le_identity e) \<and> uuid_valid (le_node e) \<and>
     le_site e \<noteq> [] \<and> length (le_site e) < 128 \<and> list_all site_char (le_site e)"

definition challenge_dict :: "string \<Rightarrow> dict" where
  "challenge_dict n = [(''mesh.auth'', ''challenge-v1''), (''nonce'', n)]"

definition signed_proof :: "'k crypto \<Rightarrow> link_end \<Rightarrow> mesh_auth \<Rightarrow> string \<Rightarrow> dict" where
  "signed_proof c e auth binding = snd (rr_identity_sign_catalog c (le_identity e)
     (proof_dict c e auth binding (the (id_public (le_identity e)))))"

lemma crypto_codec:
  assumes "crypto_sound c i"
  shows "base64_decode c (base64_encode c b) = b" "length (base64_encode c b) = (length b + 2) div 3 * 4"
  using assms by (auto simp: crypto_sound_def)

lemma honest_public:
  assumes "honest c u e"
  obtains pub where "id_public (le_identity e) = Some pub" "length pub = 44"
  using assms by (force simp: honest_def crypto_sound_def)

lemma signed_proof_verifies:
  assumes "honest c u e"
  shows "\<exists>s. rr_identity_sign_catalog c (le_identity e) (proof_dict c e auth b (the (id_public (le_identity e)))) =
      (True, signed_proof c e auth b) \<and>
    signed_proof c e auth b = AList.update ''identity.signature'' s (proof_dict c e auth b (the (id_public (le_identity e)))) \<and>
    rr_identity_verify_catalog c (signed_proof c e auth b)"
proof -
  obtain pub where p: "id_public (le_identity e) = Some pub" by (rule honest_public [OF assms])
  have "\<exists>s. rr_identity_sign_catalog c (le_identity e) (proof_dict c e auth b pub) =
      (True, AList.update ''identity.signature'' s (proof_dict c e auth b pub)) \<and>
    rr_identity_verify_catalog c (AList.update ''identity.signature'' s (proof_dict c e auth b pub))"
    using assms p by (intro sign_verifies) (simp_all add: honest_def proof_dict_get)
  then show ?thesis by (auto simp: signed_proof_def p)
qed

lemma signed_proof_get:
  assumes "honest c u e" "k \<noteq> ''identity.signature''"
  shows "map_of (signed_proof c e auth b) k = map_of (proof_dict c e auth b (the (id_public (le_identity e)))) k"
  using signed_proof_verifies [OF assms(1), of auth b] assms(2) by (auto simp: update_conv')

lemma start_sends:
  "ch_send_ok t \<Longrightarrow> rr_mesh_auth_start c w t (Some r) auth =
     (True, no_auth\<lparr>ma_nonce := snprintf_s 45 (base64_encode c r)\<rparr>,
      [json_print w (challenge_dict (snprintf_s 45 (base64_encode c r)))])"
  by (simp add: rr_mesh_auth_start_def send_dict_def challenge_dict_def)

lemma receive_challenge:
  assumes "wire_ok w" "honest c u e" "\<not> ma_verified auth" "\<not> ma_challenged auth" "nonce_valid c n"
    and "ch_send_ok t" "ch_binding t = Some b" "length (json_print w (challenge_dict n)) \<le> 4096"
  shows "rr_mesh_auth_receive c w u t auth (json_print w (challenge_dict n)) e trust =
     (0, auth\<lparr>ma_challenge := n, ma_challenged := True\<rparr>,
      [json_print w (signed_proof c e (auth\<lparr>ma_challenge := n, ma_challenged := True\<rparr>) b)])"
proof -
  let ?auth = "auth\<lparr>ma_challenge := n, ma_challenged := True\<rparr>"
  have "dict_ok (challenge_dict n)" by (simp add: challenge_dict_def)
  with assms(1) obtain d where d: "json_parse w (json_print w (challenge_dict n)) = Some d"
      "map_of d = map_of (challenge_dict n)" "json_print w (challenge_dict n) \<noteq> []"
      "char_of (0 :: nat) \<notin> set (json_print w (challenge_dict n))"
    unfolding wire_ok_def by blast
  then have g: "dict_get d ''mesh.auth'' '''' = ''challenge-v1''" "dict_get d ''nonce'' '''' = n"
    by (simp_all add: dict_get_def challenge_dict_def)
  have n: "snprintf_s 45 n = n" using assms(5) by (simp add: nonce_valid_def)
  obtain pub where p: "id_public (le_identity e) = Some pub" by (rule honest_public [OF assms(2)])
  have "send_proof c w t ?auth e = Some (json_print w (signed_proof c e ?auth b))"
    using signed_proof_verifies [OF assms(2), of ?auth b] p assms(6,7)
    by (auto simp: send_proof_def rr_identity_public_base64_def send_dict_def)
  with d g n assms(3-5,8) show ?thesis by (simp add: rr_mesh_auth_receive_def Let_def)
qed

lemma receive_proof:
  assumes "wire_ok w" "honest c u p" "\<not> ma_verified auth" "ma_challenged auth"
    and "ma_nonce sent = ma_challenge auth" "ma_challenge sent = ma_nonce auth" "le_domain p = le_domain e"
    and "le_outbound p = (\<not> le_outbound e)" "le_node p \<noteq> le_node e"
    and "ch_binding t = Some b" "ch_peer_spki t = Some pin"
    and "trust (le_node p) (the (id_public (le_identity p))) (base64_encode c pin)"
    and "length (json_print w (signed_proof c p sent b)) \<le> 4096" "length (le_node p) = 36"
  shows "rr_mesh_auth_receive c w u t auth (json_print w (signed_proof c p sent b)) e trust =
     (1, auth\<lparr>ma_node := le_node p, ma_site := le_site p, ma_public_key := the (id_public (le_identity p)), ma_verified := True\<rparr>, [])"
proof -
  let ?m = "signed_proof c p sent b"
  obtain s where s: "?m = AList.update ''identity.signature'' s (proof_dict c p sent b (the (id_public (le_identity p))))"
      "rr_identity_verify_catalog c ?m"
    using signed_proof_verifies [OF assms(2), of sent b] by blast
  then have ok: "dict_ok ?m" by simp
  with assms(1) obtain d where d: "json_parse w (json_print w ?m) = Some d"
      "map_of d = map_of ?m" "dict_ok d" "json_print w ?m \<noteq> []" "char_of (0 :: nat) \<notin> set (json_print w ?m)"
    unfolding wire_ok_def by blast
  have v: "rr_identity_verify_catalog c d" using verify_map_cong [OF d(3) ok d(2), of c] s(2) by simp
  have get: "dict_get d k '''' = x" if "map_of (proof_dict c p sent b (the (id_public (le_identity p)))) k = Some x"
      "k \<noteq> ''identity.signature''" for k x
    using that d(2) signed_proof_get [OF assms(2) that(2)] by (simp add: dict_get_def)
  obtain pub where p: "id_public (le_identity p) = Some pub" "length pub = 44" by (rule honest_public [OF assms(2)])
  note gets = get [OF proof_dict_get(1)] get [OF proof_dict_get(2)] get [OF proof_dict_get(3)] get [OF proof_dict_get(4)]
    get [OF proof_dict_get(5)] get [OF proof_dict_get(6)] get [OF proof_dict_get(7)] get [OF proof_dict_get(8)]
    get [OF proof_dict_get(9)]
  have "proof_accepted c u t auth d e trust"
    using assms(2,5-12) v p by (simp add: proof_accepted_def gets honest_def)
  with d(1,4,5) assms(2-4,13,14) p show ?thesis by (simp add: rr_mesh_auth_receive_def gets honest_def)
qed

text \<open>Both ends start, each receives the other's challenge and then the other's proof.\<close>

definition handshake ::
  "'k crypto \<Rightarrow> wire \<Rightarrow> (string \<Rightarrow> bool) \<Rightarrow> link_end \<Rightarrow> channel \<Rightarrow> (string \<Rightarrow> string \<Rightarrow> string \<Rightarrow> bool) \<Rightarrow> string \<Rightarrow>
   link_end \<Rightarrow> channel \<Rightarrow> (string \<Rightarrow> string \<Rightarrow> string \<Rightarrow> bool) \<Rightarrow> string \<Rightarrow>
   (int \<times> mesh_auth) \<times> (int \<times> mesh_auth) \<times> string list" where
  "handshake c w u a ta trust_a ra b tb trust_b rb =
     (let (_, a0, ca) = rr_mesh_auth_start c w ta (Some ra) no_auth;
          (_, b0, cb) = rr_mesh_auth_start c w tb (Some rb) no_auth;
          (_, a1, pa) = rr_mesh_auth_receive c w u ta a0 (concat cb) a trust_a;
          (_, b1, pb) = rr_mesh_auth_receive c w u tb b0 (concat ca) b trust_b;
          (xa, a2, _) = rr_mesh_auth_receive c w u ta a1 (concat pb) a trust_a;
          (xb, b2, _) = rr_mesh_auth_receive c w u tb b1 (concat pa) b trust_b
      in ((xa, a2), (xb, b2), ca @ cb @ pa @ pb))"

lemma nonce_valid_random:
  "crypto_sound c i \<Longrightarrow> length r = 32 \<Longrightarrow> nonce_valid c (base64_encode c r) \<and> snprintf_s 45 (base64_encode c r) = base64_encode c r"
  by (simp add: nonce_valid_def crypto_codec)

text \<open>The two sessions after the challenges, and the four messages.\<close>

definition challenged :: "'k crypto \<Rightarrow> string \<Rightarrow> string \<Rightarrow> mesh_auth" where
  "challenged c mine theirs = no_auth\<lparr>ma_nonce := base64_encode c mine, ma_challenge := base64_encode c theirs, ma_challenged := True\<rparr>"

definition handshake_messages :: "'k crypto \<Rightarrow> wire \<Rightarrow> link_end \<Rightarrow> string \<Rightarrow> link_end \<Rightarrow> string \<Rightarrow> string \<Rightarrow> string list" where
  "handshake_messages c w a ra b rb k =
     [json_print w (challenge_dict (base64_encode c ra)), json_print w (challenge_dict (base64_encode c rb)),
      json_print w (signed_proof c a (challenged c ra rb) k), json_print w (signed_proof c b (challenged c rb ra) k)]"

lemma handshake_run:
  assumes "wire_ok w" "honest c u a" "honest c u b" "length ra = 32" "length rb = 32"
    and "le_domain a = le_domain b" "le_outbound a = (\<not> le_outbound b)" "le_node a \<noteq> le_node b"
    and "\<forall>i. u i \<longrightarrow> length i = 36"
    and "ch_send_ok ta" "ch_binding ta = Some k" "ch_peer_spki ta = Some pin_b"
    and "ch_send_ok tb" "ch_binding tb = Some k" "ch_peer_spki tb = Some pin_a"
    and "trust_a (le_node b) (the (id_public (le_identity b))) (base64_encode c pin_b)"
    and "trust_b (le_node a) (the (id_public (le_identity a))) (base64_encode c pin_a)"
  defines "ms \<equiv> handshake_messages c w a ra b rb k"
  shows "length (ms ! 0) \<le> 4096 \<Longrightarrow> length (ms ! 1) \<le> 4096 \<Longrightarrow>
      rr_mesh_auth_receive c w u ta (no_auth\<lparr>ma_nonce := base64_encode c ra\<rparr>) (ms ! 1) a trust_a = (0, challenged c ra rb, [ms ! 2]) \<and>
      rr_mesh_auth_receive c w u tb (no_auth\<lparr>ma_nonce := base64_encode c rb\<rparr>) (ms ! 0) b trust_b = (0, challenged c rb ra, [ms ! 3])"
    and "length (ms ! 2) \<le> 4096 \<Longrightarrow> length (ms ! 3) \<le> 4096 \<Longrightarrow>
      rr_mesh_auth_receive c w u ta (challenged c ra rb) (ms ! 3) a trust_a = (1, (challenged c ra rb)\<lparr>ma_node := le_node b,
        ma_site := le_site b, ma_public_key := the (id_public (le_identity b)), ma_verified := True\<rparr>, []) \<and>
      rr_mesh_auth_receive c w u tb (challenged c rb ra) (ms ! 2) b trust_b = (1, (challenged c rb ra)\<lparr>ma_node := le_node a,
        ma_site := le_site a, ma_public_key := the (id_public (le_identity a)), ma_verified := True\<rparr>, [])"
proof -
  have sa: "crypto_sound c (le_identity a)" using assms(2) by (simp add: honest_def)
  note na = nonce_valid_random [OF sa assms(4)] and nb = nonce_valid_random [OF sa assms(5)]
  have no: "\<not> ma_verified (no_auth\<lparr>ma_nonce := n\<rparr>)" "\<not> ma_challenged (no_auth\<lparr>ma_nonce := n\<rparr>)" for n
    by (simp_all add: no_auth_def)
  have len: "length (le_node a) = 36" "length (le_node b) = 36" using assms(2,3,9) by (simp_all add: honest_def)
  have ch: "challenged c x y = (no_auth\<lparr>ma_nonce := base64_encode c x\<rparr>)\<lparr>ma_challenge := base64_encode c y, ma_challenged := True\<rparr>"
    for x y by (simp add: challenged_def)
  show "rr_mesh_auth_receive c w u ta (no_auth\<lparr>ma_nonce := base64_encode c ra\<rparr>) (ms ! 1) a trust_a = (0, challenged c ra rb, [ms ! 2]) \<and>
      rr_mesh_auth_receive c w u tb (no_auth\<lparr>ma_nonce := base64_encode c rb\<rparr>) (ms ! 0) b trust_b = (0, challenged c rb ra, [ms ! 3])"
    if "length (ms ! 0) \<le> 4096" "length (ms ! 1) \<le> 4096"
    using receive_challenge [OF assms(1,2) no, where t = ta and b = k] receive_challenge [OF assms(1,3) no, where t = tb and b = k]
      na nb assms(10,11,13,14) that unfolding ms_def ch by (simp add: handshake_messages_def ch)
  show "rr_mesh_auth_receive c w u ta (challenged c ra rb) (ms ! 3) a trust_a = (1, (challenged c ra rb)\<lparr>ma_node := le_node b,
        ma_site := le_site b, ma_public_key := the (id_public (le_identity b)), ma_verified := True\<rparr>, []) \<and>
      rr_mesh_auth_receive c w u tb (challenged c rb ra) (ms ! 2) b trust_b = (1, (challenged c rb ra)\<lparr>ma_node := le_node a,
        ma_site := le_site a, ma_public_key := the (id_public (le_identity a)), ma_verified := True\<rparr>, [])"
    if "length (ms ! 2) \<le> 4096" "length (ms ! 3) \<le> 4096"
    using receive_proof [OF assms(1,3), of "challenged c ra rb" "challenged c rb ra" a ta k pin_b trust_a]
      receive_proof [OF assms(1,2), of "challenged c rb ra" "challenged c ra rb" b tb k pin_a trust_b] assms(6-17) len that
    by (simp add: ms_def handshake_messages_def challenged_def no_auth_def)
qed

lemma start_random:
  assumes "ch_send_ok t" "crypto_sound c i" "length r = 32"
  shows "rr_mesh_auth_start c w t (Some r) no_auth =
     (True, no_auth\<lparr>ma_nonce := base64_encode c r\<rparr>, [json_print w (challenge_dict (base64_encode c r))])"
  using start_sends [OF assms(1), of c w r no_auth] nonce_valid_random [OF assms(2,3)] by simp

section \<open>A wire and a code to run on\<close>

definition put_char :: "char \<Rightarrow> string" where
  "put_char ch = [char_of (65 + chr_ord ch div 16), char_of (65 + chr_ord ch mod 16)]"

definition wire_string :: "string \<Rightarrow> string" where
  "wire_string s = concat (map put_char s) @ '';''"

fun get_string :: "string \<Rightarrow> (string \<times> string) option" where
  "get_string [] = None"
| "get_string [a] = (if a = CHR '';'' then Some ([], []) else None)"
| "get_string (a # b # r) = (if a = CHR '';'' then Some ([], b # r)
     else map_option (apfst ((#) (char_of (16 * (chr_ord a - 65) + (chr_ord b - 65))))) (get_string r))"

fun get_dict :: "nat \<Rightarrow> string \<Rightarrow> dict option" where
  "get_dict 0 s = None"
| "get_dict (Suc n) s = (if s = [] then Some [] else
     (case get_string s of None \<Rightarrow> None | Some (k, r) \<Rightarrow>
       (case get_string r of None \<Rightarrow> None | Some (v, t) \<Rightarrow> map_option ((#) (k, v)) (get_dict n t))))"

definition demo_wire :: wire where
  "demo_wire = \<lparr>json_print = (\<lambda>d. CHR ''{'' # concat (map (\<lambda>(k, v). wire_string k @ wire_string v) d)),
     json_parse = (\<lambda>s. get_dict (length s) (tl s))\<rparr>"

lemma chr_ord_less: "chr_ord ch < 256"
  by (simp add: chr_ord_def)

lemma get_char: "get_string (put_char ch @ r) = map_option (apfst ((#) ch)) (get_string r)"
proof -
  have d: "chr_ord ch div 16 < 16" "chr_ord ch mod 16 < 16" using chr_ord_less [of ch] by auto
  have o: "chr_ord (char_of (65 + n)) = 65 + n" if "n < 16" for n using that by (simp add: chr_ord_def)
  have "chr_ord CHR '';'' = 59" by (simp add: chr_ord_def)
  then have "char_of (65 + chr_ord ch div 16) \<noteq> CHR '';''" using o [OF d(1)] by auto
  moreover have "char_of (16 * (chr_ord ch div 16) + chr_ord ch mod 16) = ch" by (simp add: chr_ord_def)
  ultimately show ?thesis by (simp add: put_char_def o [OF d(1)] o [OF d(2)])
qed

lemma get_wire_string: "get_string (wire_string s @ r) = Some (s, r)"
proof (induction s)
  case Nil
  then show ?case by (cases r) (simp_all add: wire_string_def)
next
  case (Cons ch s)
  have "wire_string (ch # s) = put_char ch @ wire_string s" by (simp add: wire_string_def)
  with Cons show ?case by (simp add: get_char)
qed

lemma wire_string_nonempty [simp]: "wire_string s \<noteq> []"
  by (simp add: wire_string_def)

lemma get_put_dict: "length d < n \<Longrightarrow> get_dict n (concat (map (\<lambda>(k, v). wire_string k @ wire_string v) d)) = Some d"
proof (induction d arbitrary: n)
  case Nil
  then show ?case by (cases n) simp_all
next
  case (Cons e d)
  then show ?case by (cases n; cases e) (simp_all add: get_wire_string)
qed

lemma put_no_nul: "char_of (0 :: nat) \<notin> set (wire_string s)"
proof -
  have o: "chr_ord (char_of (65 + n)) = 65 + n" if "n < 16" for n :: nat using that by (simp add: chr_ord_def)
  have "chr_ord ch div 16 < 16" "chr_ord ch mod 16 < 16" for ch using chr_ord_less [of ch] by auto
  then have "\<forall>x \<in> set (put_char ch). 0 < chr_ord x" for ch
    unfolding put_char_def using o by (metis add_gr_0 empty_iff empty_set set_ConsD zero_less_numeral)
  moreover have "chr_ord CHR '';'' = 59" "chr_ord (char_of (0 :: nat)) = 0" by (simp_all add: chr_ord_def)
  ultimately have "\<forall>x \<in> set (wire_string s). 0 < chr_ord x" by (auto simp: wire_string_def)
  with \<open>chr_ord (char_of (0 :: nat)) = 0\<close> show ?thesis by fastforce
qed

lemma length_wire_string: "length (wire_string s) = 2 * length s + 1"
  by (induction s) (simp_all add: wire_string_def put_char_def)

lemma demo_wire_ok: "wire_ok demo_wire"
proof -
  have n: "length d \<le> length (concat (map (\<lambda>(k, v). wire_string k @ wire_string v) d))" for d
    by (induction d) (auto simp: length_wire_string)
  have "char_of (0 :: nat) \<noteq> CHR ''{''" by code_simp
  then have "char_of (0 :: nat) \<notin> set (json_print demo_wire d)" for d
    using put_no_nul by (auto simp: demo_wire_def)
  moreover have "json_parse demo_wire (json_print demo_wire d) = Some d" for d
    using n [of d] by (simp add: demo_wire_def get_put_dict less_Suc_eq_le del: get_dict.simps)
  ultimately show ?thesis by (auto simp: wire_ok_def demo_wire_def)
qed

text \<open>A code with the lengths of base64: padding, and a last character that tells how much.\<close>

definition demo_pad :: "string \<Rightarrow> string" where
  "demo_pad b = (if b = [] then [] else
     b @ replicate ((length b + 2) div 3 * 4 - length b - 1) CHR ''='' @ [char_of (length b mod 3)])"

definition demo_unpad :: "string \<Rightarrow> string" where
  "demo_unpad s = (if s = [] then [] else let m = length s div 4; r = chr_ord (last s) in
     take (if r = 0 then 3 * m else if r = 1 then 3 * m - 2 else 3 * m - 1) s)"

lemma demo_pad_length: "length (demo_pad b) = (length b + 2) div 3 * 4"
proof (cases b)
  case (Cons x xs)
  have "length b + 1 \<le> (length b + 2) div 3 * 4" using Cons by (simp add: le_div_geq)
  with Cons show ?thesis by (simp add: demo_pad_def)
qed (simp add: demo_pad_def)

lemma demo_unpad_pad: "demo_unpad (demo_pad b) = b"
proof (cases "b = []")
  case False
  have l: "length (demo_pad b) div 4 = (length b + 2) div 3" by (simp add: demo_pad_length)
  have "last (demo_pad b) = char_of (length b mod 3)" using False by (simp add: demo_pad_def)
  then have r: "chr_ord (last (demo_pad b)) = length b mod 3" by (simp add: chr_ord_def)
  have "(if length b mod 3 = 0 then 3 * ((length b + 2) div 3) else if length b mod 3 = 1 then 3 * ((length b + 2) div 3) - 2
      else 3 * ((length b + 2) div 3) - 1) = length b" by presburger
  then have "demo_unpad (demo_pad b) = take (length b) (demo_pad b)"
    using False demo_pad_length [of b] by (auto simp: demo_unpad_def l r Let_def)
  with False show ?thesis by (simp add: demo_pad_def)
qed (simp add: demo_pad_def demo_unpad_def)

definition demo_sound :: "string crypto" where
  "demo_sound = \<lparr>base64_encode = demo_pad, base64_decode = demo_unpad, ed25519_public = Some,
     ed25519_verify = (\<lambda>k m s. s = k @ k), sha256 = (\<lambda>b. b)\<rparr>"

definition demo_identity :: "char \<Rightarrow> server_identity" where
  "demo_identity ch = \<lparr>id_key = Some (\<lambda>m. Some (replicate 64 ch)), id_public = Some (demo_pad (replicate 32 ch))\<rparr>"

definition demo_end :: "bool \<Rightarrow> char \<Rightarrow> link_end" where
  "demo_end out ch = \<lparr>le_outbound = out, le_domain = ''net'', le_node = replicate 36 ch, le_site = ''site'',
     le_identity = demo_identity ch\<rparr>"

definition demo_channel :: "char \<Rightarrow> channel" where
  "demo_channel ch = \<lparr>ch_binding = Some (replicate 32 CHR ''t''), ch_peer_spki = Some (replicate 32 ch), ch_send_ok = True\<rparr>"

definition demo_peer_of :: "char \<Rightarrow> configured_peer list" where
  "demo_peer_of ch = [\<lparr>cp_enrolled = False, cp_catalog_key = Some (demo_pad (replicate 32 ch)),
     cp_spki = demo_pad (replicate 32 ch), cp_node = []\<rparr>]"

lemma demo_crypto_sound: "crypto_sound demo_sound (demo_identity ch)"
  unfolding crypto_sound_def demo_identity_def demo_sound_def
  by (intro exI [of _ "\<lambda>m. Some (replicate 64 ch)"] exI [of _ "replicate 32 ch"])
     (simp add: demo_unpad_pad demo_pad_length flip: replicate_add)

lemma demo_honest: "honest demo_sound (\<lambda>i. length i = 36) (demo_end out ch)"
proof -
  have "list_all site_char ''site''" by code_simp
  then show ?thesis by (simp add: honest_def demo_end_def demo_crypto_sound)
qed

lemma demo_print_length:
  "length (json_print demo_wire d) = Suc (sum_list (map (\<lambda>(k, v). 2 * length k + 2 * length v + 2) d))"
  by (induction d) (auto simp: demo_wire_def length_wire_string)

lemma demo_messages_short:
  "\<forall>m \<in> set (handshake_messages demo_sound demo_wire (demo_end True x) ra (demo_end False y) rb k).
     length ra = 32 \<longrightarrow> length rb = 32 \<longrightarrow> length k = 32 \<longrightarrow> length m \<le> 4096"
  by (auto simp: handshake_messages_def demo_print_length challenge_dict_def signed_proof_def rr_identity_sign_catalog_def
      demo_end_def demo_identity_def proof_dict_def challenged_def demo_sound_def demo_pad_length role_name_def)

section \<open>Properties\<close>

text \<open>
  C15. Agreement. When an end authenticates its peer, the holder of the peer's key has made a proof
  in a session of its own with the same two nonces, on the same TLS channel, in the same domain and
  in the opposite role, so no proof can be replayed, reflected or moved to another channel; the
  session records that holder's identity and site, and the identity with its key and certificate is
  enrolled or configured. The hypothesis on signatures is that one that verifies was made by the
  key's holder over the canonical bytes of one of its proofs, \<open>made\<close>.
\<close>

theorem mesh_auth_agreement:
  assumes "rr_mesh_auth_receive c w uuid_valid t auth data e (native_identity_trusted database (le_domain e) peers) = (1, auth', out)"
    and "\<And>d. json_parse w data = Some d \<Longrightarrow> rr_identity_verify_catalog c d \<Longrightarrow>
        \<exists>(p, sent, binding) \<in> made. canonical d = canonical (proof_dict c p sent binding (dict_get d ''identity.public-key'' ''''))"
    and "\<And>b. base64_decode c (base64_encode c b) = b" and "\<And>i. uuid_valid i \<Longrightarrow> length i = 36"
  shows "\<not> ma_verified auth \<and> ma_verified auth' \<and> (\<exists>(p, sent, binding) \<in> made.
      ch_binding t = Some binding \<and> ma_nonce sent = ma_challenge auth \<and> ma_challenge sent = ma_nonce auth \<and>
      le_domain p = le_domain e \<and> le_outbound p = (\<not> le_outbound e) \<and> le_node p \<noteq> le_node e \<and>
      ma_node auth' = le_node p \<and> ma_site auth' = le_site p \<and>
      (\<exists>pin. ch_peer_spki t = Some pin \<and>
        native_identity_trusted database (le_domain e) peers (le_node p) (ma_public_key auth') (base64_encode c pin)))"
proof -
  let ?trust = "native_identity_trusted database (le_domain e) peers"
  obtain d where d: "json_parse w data = Some d" "proof_accepted c uuid_valid t auth d e ?trust" "\<not> ma_verified auth"
      "auth' = auth\<lparr>ma_node := snprintf_s 37 (dict_get d ''identity.owner'' ''''),
         ma_site := snprintf_s 128 (dict_get d ''site'' ''''),
         ma_public_key := snprintf_s 45 (dict_get d ''identity.public-key'' ''''), ma_verified := True\<rparr>"
    using assms(1) by (auto simp: rr_mesh_auth_receive_def Let_def split: if_splits option.splits)
  from d(2) obtain binding pin where t: "ch_binding t = Some binding" "ch_peer_spki t = Some pin"
    by (auto simp: proof_accepted_def Let_def split: option.splits)
  with d(2) have "rr_identity_verify_catalog c d" by (simp add: proof_accepted_def Let_def)
  with assms(2) d(1) obtain p sent b where m: "(p, sent, b) \<in> made"
      "canonical d = canonical (proof_dict c p sent b (dict_get d ''identity.public-key'' ''''))" by blast
  note get = canonical_get [OF m(2)]
  have g: "dict_get d ''identity.domain'' '''' = le_domain p" "dict_get d ''identity.owner'' '''' = le_node p"
      "dict_get d ''site'' '''' = le_site p" "dict_get d ''nonce'' '''' = ma_nonce sent"
      "dict_get d ''challenge'' '''' = ma_challenge sent" "dict_get d ''channel'' '''' = base64_encode c b"
      "dict_get d ''role'' '''' = role_name (le_outbound p)"
    by (rule get, rule proof_dict_get, simp)+
  have "base64_encode c b = base64_encode c binding" using d(2) t g(6) by (simp add: proof_accepted_def Let_def)
  then have "b = binding" using assms(3) by metis
  moreover have "length (le_node p) = 36" using d(2) t g assms(4) by (simp add: proof_accepted_def Let_def)
  ultimately show ?thesis using d(2-4) t m(1) g
    by (intro conjI bexI [of _ "(p, sent, b)"]) (simp_all add: proof_accepted_def Let_def)
qed

text \<open>
  C18. Completion. Two honest servers of the same domain, one of them the initiator, that trust each
  other's key and certificate and share a TLS channel authenticate each other in one exchange:
  after a challenge and a proof in each direction both sessions are verified and each records the
  other's identity and site, provided the four messages fit the 4096 bytes a message may have.
\<close>

theorem mesh_auth_completes:
  assumes "wire_ok w" "honest c u a" "honest c u b" "length ra = 32" "length rb = 32"
    and "le_domain a = le_domain b" "le_outbound a = (\<not> le_outbound b)" "le_node a \<noteq> le_node b"
    and "\<forall>i. u i \<longrightarrow> length i = 36"
    and "ch_send_ok ta" "ch_binding ta = Some k" "ch_peer_spki ta = Some pin_b"
    and "ch_send_ok tb" "ch_binding tb = Some k" "ch_peer_spki tb = Some pin_a"
    and "trust_a (le_node b) (the (id_public (le_identity b))) (base64_encode c pin_b)"
    and "trust_b (le_node a) (the (id_public (le_identity a))) (base64_encode c pin_a)"
    and "\<forall>m \<in> set (snd (snd (handshake c w u a ta trust_a ra b tb trust_b rb))). length m \<le> 4096"
  shows "\<exists>a2 b2 ms. handshake c w u a ta trust_a ra b tb trust_b rb = ((1, a2), (1, b2), ms) \<and>
     ma_verified a2 \<and> ma_node a2 = le_node b \<and> ma_site a2 = le_site b \<and>
     ma_verified b2 \<and> ma_node b2 = le_node a \<and> ma_site b2 = le_site a"
proof -
  let ?ms = "handshake_messages c w a ra b rb k"
  have sa: "crypto_sound c (le_identity a)" using assms(2) by (simp add: honest_def)
  note st = start_random [OF assms(10) sa assms(4), of w] start_random [OF assms(13) sa assms(5), of w]
  have ms: "?ms ! 0 = json_print w (challenge_dict (base64_encode c ra))"
      "?ms ! 1 = json_print w (challenge_dict (base64_encode c rb))" by (simp_all add: handshake_messages_def)
  have "length (?ms ! 0) \<le> 4096" "length (?ms ! 1) \<le> 4096"
    using assms(18) unfolding handshake_def st ms by (simp_all add: Let_def split: prod.splits)
  note r = handshake_run(1) [where trust_a = trust_a and trust_b = trust_b, OF assms(1-17) this]
  have "length (?ms ! 2) \<le> 4096" "length (?ms ! 3) \<le> 4096"
    using assms(18) r by (simp_all add: handshake_def st ms [symmetric] Let_def split: prod.splits)
  note f = handshake_run(2) [where trust_a = trust_a and trust_b = trust_b, OF assms(1-17) this]
  show ?thesis using r f by (simp add: handshake_def st ms [symmetric])
qed

lemma handshake_value:
  assumes "wire_ok w" "honest c u a" "honest c u b" "length ra = 32" "length rb = 32"
    and "le_domain a = le_domain b" "le_outbound a = (\<not> le_outbound b)" "le_node a \<noteq> le_node b"
    and "\<forall>i. u i \<longrightarrow> length i = 36"
    and "ch_send_ok ta" "ch_binding ta = Some k" "ch_peer_spki ta = Some pin_b"
    and "ch_send_ok tb" "ch_binding tb = Some k" "ch_peer_spki tb = Some pin_a"
    and "trust_a (le_node b) (the (id_public (le_identity b))) (base64_encode c pin_b)"
    and "trust_b (le_node a) (the (id_public (le_identity a))) (base64_encode c pin_a)"
    and "\<forall>m \<in> set (handshake_messages c w a ra b rb k). length m \<le> 4096"
  shows "snd (snd (handshake c w u a ta trust_a ra b tb trust_b rb)) = handshake_messages c w a ra b rb k"
proof -
  let ?ms = "handshake_messages c w a ra b rb k"
  have sa: "crypto_sound c (le_identity a)" using assms(2) by (simp add: honest_def)
  note st = start_random [OF assms(10) sa assms(4), of w] start_random [OF assms(13) sa assms(5), of w]
  have l: "length (?ms ! 0) \<le> 4096" "length (?ms ! 1) \<le> 4096" "length (?ms ! 2) \<le> 4096" "length (?ms ! 3) \<le> 4096"
    using assms(18) by (simp_all add: handshake_messages_def)
  note r = handshake_run(1) [where trust_a = trust_a and trust_b = trust_b, OF assms(1-17) l(1,2)]
    and f = handshake_run(2) [where trust_a = trust_a and trust_b = trust_b, OF assms(1-17) l(3,4)]
  have ms: "json_print w (challenge_dict (base64_encode c ra)) = ?ms ! 0"
      "json_print w (challenge_dict (base64_encode c rb)) = ?ms ! 1" by (simp_all add: handshake_messages_def)
  have "?ms = [?ms ! 0, ?ms ! 1, ?ms ! 2, ?ms ! 3]" by (simp add: handshake_messages_def)
  then show ?thesis using r f by (simp add: handshake_def st ms)
qed

lemma demo_trusts: "native_identity_trusted None ''net'' (demo_peer_of ch) (le_node (demo_end out ch))
    (the (id_public (le_identity (demo_end out ch)))) (base64_encode demo_sound (replicate 32 ch))"
  by (simp add: native_identity_trusted_def demo_peer_of_def demo_end_def demo_identity_def demo_sound_def)

lemma mesh_auth_completes_witness:
  "\<exists>a2 b2 ms. handshake demo_sound demo_wire (\<lambda>i. length i = 36)
     (demo_end True CHR ''a'') (demo_channel CHR ''b'') (native_identity_trusted None ''net'' (demo_peer_of CHR ''b'')) (replicate 32 CHR ''x'')
     (demo_end False CHR ''b'') (demo_channel CHR ''a'') (native_identity_trusted None ''net'' (demo_peer_of CHR ''a'')) (replicate 32 CHR ''y'')
     = ((1, a2), (1, b2), ms) \<and> ma_node a2 = replicate 36 CHR ''b'' \<and> ma_node b2 = replicate 36 CHR ''a''"
proof -
  let ?r = "\<lambda>ch. replicate 32 ch :: string" and ?a = "demo_end True CHR ''a''" and ?b = "demo_end False CHR ''b''"
  let ?ta = "demo_channel CHR ''b''" and ?tb = "demo_channel CHR ''a''"
  have side: "length (?r CHR ''x'') = 32" "length (?r CHR ''y'') = 32" "le_domain ?a = le_domain ?b"
      "le_outbound ?a = (\<not> le_outbound ?b)" "le_node ?a \<noteq> le_node ?b" "\<forall>i :: string. length i = 36 \<longrightarrow> length i = 36"
      "ch_send_ok ?ta" "ch_binding ?ta = Some (?r CHR ''t'')" "ch_peer_spki ?ta = Some (?r CHR ''b'')"
      "ch_send_ok ?tb" "ch_binding ?tb = Some (?r CHR ''t'')" "ch_peer_spki ?tb = Some (?r CHR ''a'')"
    by (simp_all add: demo_end_def demo_channel_def)
  note hs = demo_wire_ok demo_honest [of True "CHR ''a''"] demo_honest [of False "CHR ''b''"] side
    demo_trusts [of "CHR ''b''" False] demo_trusts [of "CHR ''a''" True]
  have "\<forall>m \<in> set (handshake_messages demo_sound demo_wire ?a (?r CHR ''x'') ?b (?r CHR ''y'') (?r CHR ''t'')). length m \<le> 4096"
    using demo_messages_short [of "CHR ''a''" "?r CHR ''x''" "CHR ''b''" "?r CHR ''y''" "?r CHR ''t''"] by simp
  note m = handshake_value [where trust_a = "native_identity_trusted None ''net'' (demo_peer_of CHR ''b'')" and
      trust_b = "native_identity_trusted None ''net'' (demo_peer_of CHR ''a'')", OF hs this]
  show ?thesis
    using mesh_auth_completes [where trust_a = "native_identity_trusted None ''net'' (demo_peer_of CHR ''b'')" and
      trust_b = "native_identity_trusted None ''net'' (demo_peer_of CHR ''a'')", OF hs] m
      demo_messages_short [of "CHR ''a''" "?r CHR ''x''" "CHR ''b''" "?r CHR ''y''" "?r CHR ''t''"]
    by (auto simp: demo_end_def)
qed

definition demo_auth :: mesh_auth where
  "demo_auth = no_auth\<lparr>ma_nonce := ''n1'', ma_challenge := ''n2'', ma_challenged := True\<rparr>"

definition demo_sent :: mesh_auth where
  "demo_sent = no_auth\<lparr>ma_nonce := ''n2'', ma_challenge := ''n1'', ma_challenged := True\<rparr>"

lemma demo_accepted:
  "rr_mesh_auth_receive demo_sound demo_wire (\<lambda>i. length i = 36) (demo_channel CHR ''b'') demo_auth
     (json_print demo_wire (signed_proof demo_sound (demo_end False CHR ''b'') demo_sent (replicate 32 CHR ''t'')))
     (demo_end True CHR ''a'') (native_identity_trusted None (le_domain (demo_end True CHR ''a'')) (demo_peer_of CHR ''b'')) =
   (1, demo_auth\<lparr>ma_node := replicate 36 CHR ''b'', ma_site := ''site'',
      ma_public_key := demo_pad (replicate 32 CHR ''b''), ma_verified := True\<rparr>, [])"
proof -
  let ?b = "demo_end False CHR ''b''" and ?k = "replicate 32 CHR ''t''"
  have l: "length (json_print demo_wire (signed_proof demo_sound ?b demo_sent ?k)) \<le> 4096"
    by (simp add: demo_print_length signed_proof_def rr_identity_sign_catalog_def demo_sent_def no_auth_def
      demo_end_def demo_identity_def proof_dict_def demo_sound_def demo_pad_length role_name_def)
  have a: "\<not> ma_verified demo_auth" "ma_challenged demo_auth" "ma_nonce demo_sent = ma_challenge demo_auth"
      "ma_challenge demo_sent = ma_nonce demo_auth" by (simp_all add: demo_auth_def demo_sent_def no_auth_def)
  have e: "le_domain ?b = le_domain (demo_end True CHR ''a'')" "le_outbound ?b = (\<not> le_outbound (demo_end True CHR ''a''))"
      "le_node ?b \<noteq> le_node (demo_end True CHR ''a'')" "length (le_node ?b) = 36" "le_domain (demo_end True CHR ''a'') = ''net''"
    by (simp_all add: demo_end_def)
  have t: "ch_binding (demo_channel CHR ''b'') = Some ?k" "ch_peer_spki (demo_channel CHR ''b'') = Some (replicate 32 CHR ''b'')"
    by (simp_all add: demo_channel_def)
  have r: "le_node ?b = replicate 36 CHR ''b''" "le_site ?b = ''site''"
      "the (id_public (le_identity ?b)) = demo_pad (replicate 32 CHR ''b'')"
    by (simp_all add: demo_end_def demo_identity_def)
  from receive_proof [where trust = "native_identity_trusted None ''net'' (demo_peer_of CHR ''b'')",
      OF demo_wire_ok demo_honest [of False "CHR ''b''"] a e(1-3) t demo_trusts [of "CHR ''b''" False] l e(4)]
  show ?thesis unfolding r e(5) .
qed

lemma mesh_auth_agreement_witness:
  "(\<exists>(p, sent, binding) \<in> {(demo_end False CHR ''b'', demo_sent, replicate 32 CHR ''t'')}.
     ma_nonce sent = ma_challenge demo_auth \<and> le_outbound p = (\<not> le_outbound (demo_end True CHR ''a'')))"
proof -
  let ?b = "demo_end False CHR ''b''" and ?k = "replicate 32 CHR ''t''"
  let ?m = "signed_proof demo_sound ?b demo_sent ?k" and ?made = "{(?b, demo_sent, ?k)}"
  obtain s where s: "?m = AList.update ''identity.signature'' s (proof_dict demo_sound ?b demo_sent ?k (the (id_public (le_identity ?b))))"
    using signed_proof_verifies [OF demo_honest [of False "CHR ''b''"], of demo_sent ?k] by blast
  then have ok: "dict_ok ?m" by simp
  have signed: "\<exists>(p, sent, binding) \<in> ?made. canonical d = canonical (proof_dict demo_sound p sent binding (dict_get d ''identity.public-key'' ''''))"
    if d: "json_parse demo_wire (json_print demo_wire ?m) = Some d" for d
  proof -
    from demo_wire_ok ok d have d: "dict_ok d" "map_of d = map_of ?m" unfolding wire_ok_def by fastforce+
    then have "canonical d = canonical ?m" using ok by (intro canonical_eqI) (simp_all add: signed_part_def fun_eq_iff)
    moreover have "canonical ?m = canonical (proof_dict demo_sound ?b demo_sent ?k (the (id_public (le_identity ?b))))"
      unfolding s by (rule canonical_signature_free) simp
    moreover have "dict_get d ''identity.public-key'' '''' = the (id_public (le_identity ?b))"
      using d(2) signed_proof_get [OF demo_honest [of False "CHR ''b''"], of "''identity.public-key''" demo_sent ?k]
      by (simp add: dict_get_def proof_dict_get)
    ultimately show ?thesis by simp
  qed
  have code: "base64_decode demo_sound (base64_encode demo_sound b) = b" for b
    by (simp add: demo_sound_def demo_unpad_pad)
  show ?thesis
    using mesh_auth_agreement [OF demo_accepted, of ?made] signed code by auto
qed

end
