(* ===== verification/RelayCatalog.thy ===== *)
theory RelayCatalog
  imports Identity LinkTree
begin

text \<open>
  The discovery catalog of the relay (\<^verbatim>\<open>rrserver/relay.catalog.c\<close>) and the part of the message
  handler that changes it (\<open>receive\<close> and \<open>lost\<close>, \<^verbatim>\<open>rrserver/relay.c\<close>): which descriptors are
  admitted under which key, who may replace or remove them, and what is purged with a lost branch.

  \<open>relay\<close> is the module's state: the linked list of catalog entries, first entry first, its separate
  counter, the user directories, and the identity tables. \<open>relay_env\<close> is what the code asks of other
  modules: its own node and keys, the configuration, the validity tests of names, the route to a
  node. \<open>put_io\<close> says which allocations and SQL statements of a call succeed. What a call does to
  other modules is its list of \<open>relay_effect\<close>s.
\<close>

section \<open>State\<close>

definition MAX_CATALOG :: nat where "MAX_CATALOG = 2048"

record catalog =
  ct_owner :: string
  ct_key :: string
  ct_descriptor :: dict
  ct_seen :: bool

datatype rr_catalog_reject =
    RR_CAT_OK | RR_CAT_OWNER | RR_CAT_PARENT | RR_CAT_SERVICE | RR_CAT_IDENTITY
  | RR_CAT_ROOM_AUTH | RR_CAT_MEMORY | RR_CAT_CAPACITY

text \<open>The replay journal: the time each accepted removal was issued, by domain, owner and nonce.\<close>

record mutation_journal =
  mj_issued :: "string \<times> string \<times> string \<Rightarrow> int option"
  mj_last_prune :: int

record relay =
  rl_catalogs :: "catalog list"
  rl_count :: nat
  rl_directories :: "(string \<times> dict) list"
  rl_identity :: identity_db
  rl_mutations :: mutation_journal

record relay_env =
  re_node :: string
  re_identity :: server_identity
  re_domain :: string
  re_uuid_valid :: "string \<Rightarrow> bool"
  re_room_valid :: "string \<Rightarrow> bool"
  re_site_room :: string
  re_room_configured :: "string \<Rightarrow> bool"
  re_route :: "string \<Rightarrow> cstr"
  re_collecting :: bool
  re_glib_uuid :: "string \<Rightarrow> bool"
  re_max_users :: nat
  re_user_len :: nat
  re_json :: "dict \<Rightarrow> string"

record put_io =
  pi_clone :: bool
  pi_alloc :: bool
  pi_local :: sql_io
  pi_pin :: sql_io
  pi_accept :: sql_io
  pi_room_gone :: bool

datatype relay_effect =
    Send_owned string string string dict
  | Clear_vfo_mask string
  | Rejoin_room string string
  | Objects_remote dict

section \<open>Lookups\<close>

definition rr_relay_local_owner :: "relay_env \<Rightarrow> string \<Rightarrow> bool" where
  "rr_relay_local_owner env node \<longleftrightarrow> node = re_node env"

definition key_matches :: "string \<Rightarrow> string \<Rightarrow> bool" where
  "key_matches key k \<longleftrightarrow> k = key \<or> (take 5 key = ''room:'' \<and> strcaseeq k key)"

definition rr_relay_find_catalog :: "catalog list \<Rightarrow> string \<Rightarrow> catalog option" where
  "rr_relay_find_catalog cs key = List.find (\<lambda>c. key_matches key (ct_key c)) cs"

definition room_key :: "string \<Rightarrow> string" where
  "room_key room = snprintf_s 160 (''room:'' @ room)"

definition rr_relay_room_catalog :: "catalog list \<Rightarrow> cstr \<Rightarrow> catalog option" where
  "rr_relay_room_catalog cs room = (case room of None \<Rightarrow> None | Some r \<Rightarrow> rr_relay_find_catalog cs (room_key r))"

definition rr_relay_message_room :: "catalog list \<Rightarrow> dict \<Rightarrow> cstr" where
  "rr_relay_message_room cs d =
     (let first = (\<lambda>k rest. case map_of d k of Some r \<Rightarrow> Some r | None \<Rightarrow> rest);
          room = first ''cat.room'' (first ''talk.room'' (first ''request.room'' (map_of d ''media.room'')));
          room = (if room = None then (case map_of d ''talk.target'' of
                      Some (ch # t) \<Rightarrow> if ch = CHR ''#'' \<or> ch = CHR ''&'' then Some (ch # t) else None
                    | _ \<Rightarrow> None) else room)
      in if room = None then (case rr_relay_find_catalog cs (dict_get d ''target'' '''') of
             Some c \<Rightarrow> map_of (ct_descriptor c) ''object.room''
           | None \<Rightarrow> None) else room)"

definition object_type :: "catalog \<Rightarrow> string" where
  "object_type c = dict_get (ct_descriptor c) ''object.type'' ''''"

definition owns_station_room :: "catalog list \<Rightarrow> string \<Rightarrow> string \<Rightarrow> bool" where
  "owns_station_room cs owner room \<longleftrightarrow> list_ex (\<lambda>c. ct_owner c = owner \<and>
     (object_type c = ''node'' \<or> object_type c = ''rig'') \<and>
     strcaseeq (dict_get (ct_descriptor c) ''object.room'' '''') room) cs"

section \<open>Admission\<close>

text \<open>The ownership rules of a remote object: the reason of the refusal, or \<^const>\<open>RR_CAT_OK\<close>.\<close>

definition object_authority :: "catalog list \<Rightarrow> string \<Rightarrow> string \<Rightarrow> dict \<Rightarrow> rr_catalog_reject" where
  "object_authority cs owner uuid d =
     (let type = dict_get d ''object.type'' ''''; parent = dict_get d ''object.owner'' '''' in
      if type = ''node'' then (if uuid \<noteq> owner then RR_CAT_OWNER else RR_CAT_OK)
      else if type = ''rig'' then (if parent \<noteq> owner then RR_CAT_OWNER else RR_CAT_OK)
      else if type = ''vfo'' then
        (case rr_relay_find_catalog cs parent of
           None \<Rightarrow> RR_CAT_PARENT
         | Some rig \<Rightarrow> if ct_owner rig \<noteq> owner \<or> object_type rig \<noteq> ''rig'' then RR_CAT_PARENT else RR_CAT_OK)
      else RR_CAT_IDENTITY)"

definition service_kinds :: "string list" where
  "service_kinds = [''gps'', ''serial'', ''media'', ''cat'', ''share'', ''control'', ''rig-control'', ''rig-menu'',
     ''rig-menu-item'', ''performance-stat'']"

definition service_authority :: "catalog list \<Rightarrow> string \<Rightarrow> cstr \<Rightarrow> string \<Rightarrow> dict \<Rightarrow> rr_catalog_reject" where
  "service_authority cs owner uuid service d =
     (let kind = dict_get d ''inventory.kind'' '''' in
      case rr_relay_find_catalog cs (dict_get d ''catalog.parent'' '''') of
        None \<Rightarrow> RR_CAT_PARENT
      | Some authority \<Rightarrow>
          (let menu_child = (kind = ''rig-menu-item'' \<and> dict_get (ct_descriptor authority) ''inventory.kind'' '''' = ''rig-menu'') in
           if ct_owner authority \<noteq> owner then RR_CAT_PARENT
           else if uuid \<noteq> None \<or> dict_get d ''object.type'' '''' \<noteq> ''service'' \<or>
               (object_type authority \<noteq> ''node'' \<and> object_type authority \<noteq> ''rig'' \<and> object_type authority \<noteq> ''vfo'' \<and>
                \<not> menu_child) \<or>
               kind \<notin> set service_kinds \<or> length service < 9 + length owner \<or> 160 \<le> length service \<or>
               take 8 service \<noteq> ''service:'' \<or> take (length owner) (drop 8 service) \<noteq> owner \<or>
               service ! (8 + length owner) \<noteq> CHR '':''
           then RR_CAT_SERVICE else RR_CAT_OK))"

text \<open>The checks before the lookup, and the key the descriptor is stored under.\<close>

definition admission_key :: "relay_env \<Rightarrow> catalog list \<Rightarrow> string \<Rightarrow> dict \<Rightarrow> rr_catalog_reject + string" where
  "admission_key env cs owner d =
     (let visibility = dict_get d ''catalog.visibility'' ''clients'';
          uuid = map_of d ''object.uuid''; room = map_of d ''catalog.room'';
          is_local = rr_relay_local_owner env owner;
          authority = (if uuid \<noteq> None \<and> \<not> is_local then object_authority cs owner (the uuid) d else RR_CAT_OK) in
      if \<not> is_local \<and> map_of d ''identity.signature'' = None then Inl RR_CAT_IDENTITY
      else if is_local \<and> rr_identity_public_base64 (re_identity env) = None then Inl RR_CAT_IDENTITY
      else if visibility \<noteq> ''clients'' \<and> visibility \<noteq> ''server-only'' then Inl RR_CAT_IDENTITY
      else if authority \<noteq> RR_CAT_OK then Inl authority
      else (case map_of d ''catalog.service'' of
          Some service \<Rightarrow>
            (case service_authority cs owner uuid service d of
               RR_CAT_OK \<Rightarrow> Inr (snprintf_s 160 service)
             | reason \<Rightarrow> Inl reason)
        | None \<Rightarrow>
            (if uuid \<noteq> None \<and> re_uuid_valid env (the uuid) then Inr (snprintf_s 160 (the uuid))
             else if room \<noteq> None \<and> re_room_valid env (the room) then Inr (room_key (the room))
             else Inl RR_CAT_IDENTITY)))"

text \<open>A claim of another owner is displaced only by proven station authority over an unclaimed room.\<close>

definition may_displace :: "relay_env \<Rightarrow> catalog list \<Rightarrow> string \<Rightarrow> dict \<Rightarrow> catalog \<Rightarrow> bool" where
  "may_displace env cs owner d c \<longleftrightarrow> map_of d ''object.uuid'' = None \<and>
     (case map_of d ''catalog.room'' of
        None \<Rightarrow> False
      | Some room \<Rightarrow> \<not> rr_relay_local_owner env owner \<and> owns_station_room cs owner room \<and>
          \<not> owns_station_room cs (ct_owner c) room \<and> \<not> strcaseeq room (re_site_room env) \<and> \<not> re_room_configured env room)"

definition seal :: "relay_env \<Rightarrow> string \<Rightarrow> dict \<Rightarrow> dict" where
  "seal env owner d = AList.update ''identity.operation'' ''catalog-upsert''
     (AList.update ''identity.scheme'' ''ed25519-catalog-v1''
     (AList.update ''identity.public-key'' (the (rr_identity_public_base64 (re_identity env)))
     (AList.update ''identity.domain'' (re_domain env) (AList.update ''identity.owner'' owner d))))"

definition origin_bound :: "'k crypto \<Rightarrow> relay_env \<Rightarrow> string \<Rightarrow> dict \<Rightarrow> bool" where
  "origin_bound c env owner d \<longleftrightarrow> dict_get d ''identity.owner'' '''' = owner \<and>
     strcaseeq (dict_get d ''identity.domain'' '''') (re_domain env) \<and>
     dict_get d ''identity.scheme'' '''' = ''ed25519-catalog-v1'' \<and>
     dict_get d ''identity.operation'' '''' = ''catalog-upsert'' \<and> rr_identity_verify_catalog c d"

text \<open>The copy that will be stored, signed or verified, with the identity tables after it.\<close>

definition sign_or_verify ::
  "'k crypto \<Rightarrow> relay_env \<Rightarrow> put_io \<Rightarrow> string \<Rightarrow> string \<Rightarrow> dict \<Rightarrow> identity_db \<Rightarrow> (rr_catalog_reject + dict) \<times> identity_db" where
  "sign_or_verify c env io owner key d db =
     (if \<not> pi_clone io then (Inl RR_CAT_MEMORY, db)
      else if rr_relay_local_owner env owner \<and> rr_identity_public_base64 (re_identity env) \<noteq> None \<and> \<not> re_collecting env
      then (case rr_identity_local_revision c (pi_local io) (re_domain env) owner key (seal env owner d) db of
              (False, _, db') \<Rightarrow> (Inl RR_CAT_IDENTITY, db')
            | (True, copy, db') \<Rightarrow>
                (case rr_identity_sign_catalog c (re_identity env) copy of
                   (True, sealed) \<Rightarrow> (Inr sealed, db')
                 | (False, _) \<Rightarrow> (Inl RR_CAT_IDENTITY, db')))
      else if map_of d ''identity.signature'' \<noteq> None \<and> \<not> origin_bound c env owner d then (Inl RR_CAT_IDENTITY, db)
      else (Inr d, db))"

text \<open>The pin and the revision of a signed copy.\<close>

definition check_history ::
  "'k crypto \<Rightarrow> relay_env \<Rightarrow> put_io \<Rightarrow> string \<Rightarrow> string \<Rightarrow> dict \<Rightarrow> identity_db \<Rightarrow> bool \<times> identity_db" where
  "check_history c env io owner key copy db =
     (if map_of copy ''identity.signature'' = None then (True, db)
      else case rr_identity_check_pin (pi_pin io) (dict_get copy ''identity.domain'' '''') (dict_get copy ''identity.owner'' '''')
                  (dict_get copy ''identity.public-key'' '''') db of
        (False, db') \<Rightarrow> (False, db')
      | (True, db') \<Rightarrow>
          (if rr_relay_local_owner env owner then (True, db')
           else if map_of copy ''identity.revision'' = None then (False, db')
           else rr_identity_accept_revision c (pi_accept io) (re_domain env) owner key copy db'))"

text \<open>Direct neighbours, which are told of every removal.\<close>

definition announce_remove :: "relay_env \<Rightarrow> catalog list \<Rightarrow> catalog \<Rightarrow> relay_effect list" where
  "announce_remove env cs c = map (\<lambda>p. Send_owned (ct_owner p) (ct_owner c) ''catalog-remove'' (ct_descriptor c))
     (filter (\<lambda>p. re_route env (ct_owner p) = Some (ct_owner p) \<and> object_type p = ''node'') cs)"

definition store_entry :: "bool \<Rightarrow> string \<Rightarrow> string \<Rightarrow> dict \<Rightarrow> nat \<Rightarrow> catalog list \<Rightarrow> catalog list" where
  "store_entry replace owner key copy i cs = cs[i :=
     (if replace then (cs ! i)\<lparr>ct_key := snprintf_s 160 key, ct_owner := snprintf_s 37 owner\<rparr> else cs ! i)
       \<lparr>ct_descriptor := copy, ct_seen := True\<rparr>]"

definition rr_relay_catalog_put_reason ::
  "'k crypto \<Rightarrow> relay_env \<Rightarrow> put_io \<Rightarrow> string \<Rightarrow> dict \<Rightarrow> relay \<Rightarrow> rr_catalog_reject \<times> relay \<times> relay_effect list" where
  "rr_relay_catalog_put_reason c env io owner d rl =
     (let cs = rl_catalogs rl in
      case admission_key env cs owner d of
        Inl reason \<Rightarrow> (reason, rl, [])
      | Inr key \<Rightarrow>
        (let found = find_idx (\<lambda>e. key_matches key (ct_key e)) cs;
             replace = (case found of None \<Rightarrow> False | Some i \<Rightarrow> ct_owner (cs ! i) \<noteq> owner);
             old = cs ! the found;
             room = map_of d ''catalog.room'';
             rejoin = (if map_of d ''object.uuid'' = None \<and> room \<noteq> None \<and> \<not> rr_relay_local_owner env owner
                       then [Rejoin_room owner (the room)] else []) in
         if replace \<and> \<not> may_displace env cs owner d old then (RR_CAT_ROOM_AUTH, rl, [])
         else case sign_or_verify c env io owner key d (rl_identity rl) of
           (Inl reason, db) \<Rightarrow> (reason, rl\<lparr>rl_identity := db\<rparr>, [])
         | (Inr copy, db) \<Rightarrow>
           (case check_history c env io owner key copy db of
              (False, db') \<Rightarrow> (RR_CAT_IDENTITY, rl\<lparr>rl_identity := db'\<rparr>, [])
            | (True, db') \<Rightarrow>
              (let withdraw = (replace \<and> rr_relay_local_owner env (ct_owner old)); rl = rl\<lparr>rl_identity := db'\<rparr> in
               if withdraw \<and> \<not> pi_room_gone io then (RR_CAT_ROOM_AUTH, rl, [])
               else let told = (if withdraw then announce_remove env cs old @ [Clear_vfo_mask (the room)] else []) in
                 (case found of
                    Some i \<Rightarrow> (RR_CAT_OK, rl\<lparr>rl_catalogs := store_entry replace owner key copy i cs\<rparr>, told @ rejoin)
                  | None \<Rightarrow>
                      if rl_count rl = MAX_CATALOG then (RR_CAT_CAPACITY, rl, told)
                      else if \<not> pi_alloc io then (RR_CAT_MEMORY, rl, told)
                      else (RR_CAT_OK, rl\<lparr>rl_catalogs := \<lparr>ct_owner = snprintf_s 37 owner, ct_key = snprintf_s 160 key,
                               ct_descriptor = copy, ct_seen = True\<rparr> # cs, rl_count := rl_count rl + 1\<rparr>, told @ rejoin))))))"

section \<open>Removal\<close>

definition rr_relay_strip_catalog_identity :: "dict \<Rightarrow> dict" where
  "rr_relay_strip_catalog_identity d = dict_dels
     [''identity.owner'', ''identity.domain'', ''identity.public-key'', ''identity.scheme'', ''identity.operation'',
      ''identity.signature'', ''identity.revision'', ''identity.timestamp'', ''identity.nonce'', ''identity.session''] d"

definition catalog_client_visible :: "dict \<Rightarrow> bool" where
  "catalog_client_visible d \<longleftrightarrow> dict_get d ''catalog.visibility'' ''clients'' = ''clients''"

text \<open>A removal is good once, within five minutes of its time stamp. \<open>io_read\<close> is the pruning statement.\<close>

definition catalog_mutation_fresh ::
  "relay_env \<Rightarrow> sql_io \<Rightarrow> int \<Rightarrow> dict \<Rightarrow> string \<Rightarrow> mutation_journal \<Rightarrow> bool \<times> mutation_journal" where
  "catalog_mutation_fresh env io now d owner j =
     (let nonce = dict_get d ''identity.nonce'' ''''; stamp = dict_get d ''identity.timestamp'' '''';
          (timestamp, rest) = c_strtoll stamp; k = (re_domain env, owner, nonce) in
      if dict_get d ''identity.operation'' '''' \<noteq> ''catalog-remove'' then (False, j)
      else if length nonce \<noteq> 36 \<or> \<not> re_glib_uuid env nonce \<or> stamp = [] then (False, j)
      else if rest \<noteq> [] \<or> timestamp < now - 300 \<or> now + 300 < timestamp then (False, j)
      else if \<not> io_schema io then (False, j)
      else if \<not> io_write io \<or> mj_issued j k \<noteq> None then (False, j)
      else let j = j\<lparr>mj_issued := (mj_issued j)(k \<mapsto> timestamp)\<rparr> in
        (True, if now - mj_last_prune j \<ge> 600
               then j\<lparr>mj_issued := (if io_read io then (\<lambda>k. case mj_issued j k of Some t \<Rightarrow> if t < now - 900 then None else Some t | None \<Rightarrow> None)
                                    else mj_issued j), mj_last_prune := now\<rparr>
               else j))"

definition removal_key :: "dict \<Rightarrow> string" where
  "removal_key d = snprintf_s 160
     (case map_of d ''catalog.service'' of
        Some service \<Rightarrow> service
      | None \<Rightarrow> (case map_of d ''object.uuid'' of
          Some uuid \<Rightarrow> uuid
        | None \<Rightarrow> ''room:'' @ dict_get d ''catalog.room'' ''''))"

definition removal_matches :: "string \<Rightarrow> dict \<Rightarrow> catalog \<Rightarrow> bool" where
  "removal_matches origin d e \<longleftrightarrow>
     (ct_key e = removal_key d \<or> (map_of d ''object.uuid'' = None \<and> map_of d ''catalog.room'' \<noteq> None \<and>
        strcaseeq (ct_key e) (removal_key d))) \<and> ct_owner e = origin"

definition remove_at :: "nat \<Rightarrow> 'a list \<Rightarrow> 'a list" where
  "remove_at i xs = take i xs @ drop (Suc i) xs"

definition receive_catalog_remove ::
  "'k crypto \<Rightarrow> relay_env \<Rightarrow> sql_io \<Rightarrow> sql_io \<Rightarrow> int \<Rightarrow> string \<Rightarrow> dict \<Rightarrow> relay \<Rightarrow> bool \<times> relay \<times> relay_effect list" where
  "receive_catalog_remove c env pin_io fresh_io now origin d rl =
     (if dict_get d ''identity.signature'' '''' = [] then (False, rl, [])
      else if dict_get d ''identity.owner'' '''' \<noteq> origin \<or> \<not> strcaseeq (dict_get d ''identity.domain'' '''') (re_domain env) \<or>
              \<not> rr_identity_verify_catalog c d \<or> dict_get d ''identity.operation'' '''' \<noteq> ''catalog-remove'' then (False, rl, [])
      else case rr_identity_check_pin pin_io (dict_get d ''identity.domain'' '''') origin (dict_get d ''identity.public-key'' '''')
                  (rl_identity rl) of
        (False, db) \<Rightarrow> (False, rl\<lparr>rl_identity := db\<rparr>, [])
      | (True, db) \<Rightarrow>
        (case catalog_mutation_fresh env fresh_io now d origin (rl_mutations rl) of
           (False, j) \<Rightarrow> (False, rl\<lparr>rl_identity := db, rl_mutations := j\<rparr>, [])
         | (True, j) \<Rightarrow>
           (let rl = rl\<lparr>rl_identity := db, rl_mutations := j\<rparr> in
            case find_idx (removal_matches origin d) (rl_catalogs rl) of
              None \<Rightarrow> (True, rl, [])
            | Some i \<Rightarrow>
                (True, rl\<lparr>rl_catalogs := remove_at i (rl_catalogs rl), rl_count := rl_count rl - 1\<rparr>,
                 if map_of d ''object.uuid'' \<noteq> None \<and>
                    dict_get (ct_descriptor (rl_catalogs rl ! i)) ''catalog.visibility'' ''clients'' \<noteq> ''server-only''
                 then [Objects_remote (AList.update ''object.cmd'' ''removed'' (AList.update ''msg.type'' ''object''
                         (rr_relay_strip_catalog_identity d)))]
                 else []))))"

section \<open>Receiving a descriptor\<close>

text \<open>An accepted object clients may see is announced to them without its identity fields.\<close>

definition receive_catalog ::
  "'k crypto \<Rightarrow> relay_env \<Rightarrow> put_io \<Rightarrow> string \<Rightarrow> dict \<Rightarrow> relay \<Rightarrow> rr_catalog_reject \<times> relay \<times> relay_effect list" where
  "receive_catalog c env io origin d rl =
     (case rr_relay_catalog_put_reason c env io origin d rl of
        (RR_CAT_OK, rl', out) \<Rightarrow>
          (RR_CAT_OK, rl', out @
             (if dict_get d ''catalog.visibility'' ''clients'' \<noteq> ''server-only'' \<and> map_of d ''object.uuid'' \<noteq> None
              then [Objects_remote (AList.update ''object.cmd'' ''added'' (rr_relay_strip_catalog_identity d))] else []))
      | (reason, rl', out) \<Rightarrow> (reason, rl', out))"

text \<open>The other direct branches a received message is forwarded to.\<close>

definition forward_to :: "relay_env \<Rightarrow> catalog list \<Rightarrow> string \<Rightarrow> string list" where
  "forward_to env cs origin = (case re_route env origin of
     None \<Rightarrow> []
   | Some back \<Rightarrow> map ct_owner (filter (\<lambda>p. object_type p = ''node'' \<and> re_route env (ct_owner p) = Some (ct_owner p) \<and>
       ct_owner p \<noteq> back) cs))"

section \<open>User directories\<close>

definition user_key :: "nat \<Rightarrow> string" where
  "user_key i = ''user.'' @ show_nat i @ ''.name''"

definition rr_relay_directory_put :: "relay_env \<Rightarrow> bool \<Rightarrow> nat \<Rightarrow> string \<Rightarrow> dict \<Rightarrow> relay \<Rightarrow> relay" where
  "rr_relay_directory_put env alloc count node d rl =
     (if re_max_users env < count then rl
      else if list_ex (\<lambda>i. let name = dict_get d (user_key i) '''' in name = [] \<or> re_user_len env < length name) [0..<count] then rl
      else case find_idx (\<lambda>e. fst e = node) (rl_directories rl) of
        Some i \<Rightarrow> rl\<lparr>rl_directories := (rl_directories rl)[i := (node, d)]\<rparr>
      | None \<Rightarrow> (if 256 \<le> length (rl_directories rl) \<or> \<not> alloc then rl
                 else rl\<lparr>rl_directories := (node, d) # rl_directories rl\<rparr>))"

section \<open>Losing a branch\<close>

definition reachable :: "relay_env \<Rightarrow> string \<Rightarrow> bool" where
  "reachable env node \<longleftrightarrow> rr_relay_local_owner env node \<or> re_route env node \<noteq> None"

definition lost_catalogs :: "relay_env \<Rightarrow> relay \<Rightarrow> relay \<times> relay_effect list" where
  "lost_catalogs env rl =
     (let gone = filter (\<lambda>c. \<not> reachable env (ct_owner c)) (rl_catalogs rl) in
      (rl\<lparr>rl_directories := filter (\<lambda>e. reachable env (fst e)) (rl_directories rl),
          rl_catalogs := filter (\<lambda>c. reachable env (ct_owner c)) (rl_catalogs rl),
          rl_count := rl_count rl - length gone\<rparr>,
       concat (map (\<lambda>c. case map_of (ct_descriptor c) ''object.uuid'' of
           Some uuid \<Rightarrow> [Objects_remote [(''msg.type'', ''object''), (''object.cmd'', ''removed''), (''object.uuid'', uuid)]]
         | None \<Rightarrow> []) gone)))"

section \<open>Refreshing the local entries\<close>

text \<open>
  \<open>rr_relay_refresh_catalog\<close> clears the marks of the local entries, collects what the server
  now has, each through \<open>rr_relay_catalog_put\<close>, seals what was collected and drops the rest.
\<close>

definition unsee_local :: "relay_env \<Rightarrow> relay \<Rightarrow> relay" where
  "unsee_local env rl = rl\<lparr>rl_catalogs :=
     map (\<lambda>c. if rr_relay_local_owner env (ct_owner c) then c\<lparr>ct_seen := False\<rparr> else c) (rl_catalogs rl)\<rparr>"

definition rr_relay_catalog_put :: "'k crypto \<Rightarrow> relay_env \<Rightarrow> put_io \<Rightarrow> string \<Rightarrow> dict \<Rightarrow> relay \<Rightarrow> relay" where
  "rr_relay_catalog_put c env io owner d rl = fst (snd (rr_relay_catalog_put_reason c env io owner d rl))"

text \<open>The finalization barrier: the collected entries are sealed again and signed; one whose revision
  cannot be stored or whose signature fails stays unsigned.\<close>

definition seal_entry ::
  "'k crypto \<Rightarrow> relay_env \<Rightarrow> sql_io \<Rightarrow> catalog \<Rightarrow> identity_db \<Rightarrow> catalog \<times> identity_db" where
  "seal_entry c env io e db =
     (if \<not> rr_relay_local_owner env (ct_owner e) \<or> \<not> ct_seen e then (e, db)
      else let d = seal env (ct_owner e) (AList.delete ''identity.signature'' (ct_descriptor e)) in
        case rr_identity_local_revision c io (re_domain env) (ct_owner e) (ct_key e) d db of
          (False, d', db') \<Rightarrow> (e\<lparr>ct_descriptor := d'\<rparr>, db')
        | (True, d', db') \<Rightarrow> (e\<lparr>ct_descriptor := snd (rr_identity_sign_catalog c (re_identity env) d')\<rparr>, db'))"

fun seal_entries ::
  "'k crypto \<Rightarrow> relay_env \<Rightarrow> sql_io \<Rightarrow> catalog list \<Rightarrow> identity_db \<Rightarrow> catalog list \<times> identity_db" where
  "seal_entries c env io [] db = ([], db)"
| "seal_entries c env io (e # es) db =
     (let (e', db1) = seal_entry c env io e db; (es', db2) = seal_entries c env io es db1 in (e' # es', db2))"

text \<open>What \<open>collect_rig\<close> adds to the stored entry of a rig after the put: nothing for a model that is not known and a location nobody configured.\<close>

record rig_fields =
  rf_backend :: string
  rf_name :: string
  rf_location :: cstr
  rf_model :: cstr

definition dict_opt :: "string \<Rightarrow> cstr \<Rightarrow> dict \<Rightarrow> dict" where
  "dict_opt k v d = (case v of None \<Rightarrow> d | Some v \<Rightarrow> AList.update k v d)"

definition describe_rig :: "rig_fields \<Rightarrow> dict \<Rightarrow> dict" where
  "describe_rig f d = dict_opt ''object.model'' (rf_model f) (dict_opt ''object.location'' (rf_location f)
     (AList.update ''object.name'' (rf_name f) (AList.update ''object.backend'' (rf_backend f) d)))"

definition collect_one ::
  "'k crypto \<Rightarrow> relay_env \<Rightarrow> put_io \<times> dict \<times> rig_fields option \<Rightarrow> relay \<Rightarrow> relay" where
  "collect_one c env item rl = (case item of (io, d, facts) \<Rightarrow>
     (let rl = rr_relay_catalog_put c (env\<lparr>re_collecting := True\<rparr>) io (re_node env) d rl in
      case (facts, find_idx (\<lambda>e. key_matches (dict_get d ''object.uuid'' '''') (ct_key e)) (rl_catalogs rl)) of
        (Some f, Some i) \<Rightarrow> rl\<lparr>rl_catalogs := (rl_catalogs rl)[i := (rl_catalogs rl ! i)\<lparr>ct_descriptor := describe_rig f (ct_descriptor (rl_catalogs rl ! i))\<rparr>]\<rparr>
      | _ \<Rightarrow> rl))"

text \<open>What the collectors found: the descriptors in order, that of a rig with the fields added to the stored entry afterwards.\<close>

definition rr_relay_collect_local ::
  "'k crypto \<Rightarrow> relay_env \<Rightarrow> sql_io \<Rightarrow> (put_io \<times> dict \<times> rig_fields option) list \<Rightarrow> relay \<Rightarrow> relay" where
  "rr_relay_collect_local c env io items rl =
     (if re_node env = [] then rl
      else let rl1 = fold (collect_one c env) items rl;
               (cs, db) = seal_entries c env io (rl_catalogs rl1) (rl_identity rl1)
           in rl1\<lparr>rl_catalogs := cs, rl_identity := db\<rparr>)"

definition unseen_local :: "relay_env \<Rightarrow> catalog \<Rightarrow> bool" where
  "unseen_local env e \<longleftrightarrow> rr_relay_local_owner env (ct_owner e) \<and> \<not> ct_seen e"

fun drop_unseen :: "relay_env \<Rightarrow> catalog list \<Rightarrow> catalog list \<Rightarrow> catalog list \<times> relay_effect list" where
  "drop_unseen env kept [] = (kept, [])"
| "drop_unseen env kept (e # es) =
     (if unseen_local env e
      then let (cs, out) = drop_unseen env kept es in (cs, announce_remove env (kept @ e # es) e @ out)
      else drop_unseen env (kept @ [e]) es)"

definition type_stage :: "catalog \<Rightarrow> nat" where
  "type_stage e = (let type = dict_get (ct_descriptor e) ''object.type'' ''room'' in
     if type = ''node'' then 0 else if type = ''rig'' then 1 else if type = ''vfo'' then 2
     else if type = ''room'' then 3 else 4)"

text \<open>The local entries whose text differs from the one before, parents first, to every neighbour.\<close>

definition announce_changes :: "relay_env \<Rightarrow> catalog list \<Rightarrow> catalog list \<Rightarrow> relay_effect list" where
  "announce_changes env before cs =
     (let previous = map (\<lambda>e. (ct_key e, re_json env (ct_descriptor e))) (filter (\<lambda>e. rr_relay_local_owner env (ct_owner e)) before);
          peers = filter (\<lambda>p. re_route env (ct_owner p) = Some (ct_owner p) \<and> object_type p = ''node'') cs in
      concat (map (\<lambda>pass. concat (map (\<lambda>e.
          if rr_relay_local_owner env (ct_owner e) \<and> type_stage e = pass \<and>
             map_of previous (ct_key e) \<noteq> Some (re_json env (ct_descriptor e))
          then map (\<lambda>p. Send_owned (ct_owner p) (ct_owner e) ''catalog'' (ct_descriptor e)) peers else []) cs)) [0..<5]))"

definition rr_relay_refresh_catalog ::
  "'k crypto \<Rightarrow> relay_env \<Rightarrow> sql_io \<Rightarrow> (put_io \<times> dict \<times> rig_fields option) list \<Rightarrow> relay \<Rightarrow> relay \<times> relay_effect list" where
  "rr_relay_refresh_catalog c env io items rl =
     (let rl1 = rr_relay_collect_local c env io items (unsee_local env rl);
          (cs, out) = drop_unseen env [] (rl_catalogs rl1)
      in (rl1\<lparr>rl_catalogs := cs, rl_count := rl_count rl1 - length (filter (unseen_local env) (rl_catalogs rl1))\<rparr>,
          out @ announce_changes env (rl_catalogs rl) cs))"

section \<open>Reading\<close>

text \<open>The remote objects a client may see, parents first, without their identity fields.\<close>

definition rrserver_relay_objects_collect :: "relay_env \<Rightarrow> string \<Rightarrow> catalog list \<Rightarrow> dict list" where
  "rrserver_relay_objects_collect env request cs =
     concat (map (\<lambda>type. map (\<lambda>e. AList.update ''request.id'' request (rr_relay_strip_catalog_identity (ct_descriptor e)))
       (filter (\<lambda>e. catalog_client_visible (ct_descriptor e) \<and> \<not> rr_relay_local_owner env (ct_owner e) \<and> object_type e = type) cs))
       [''node'', ''rig'', ''vfo''])"

section \<open>The outcomes of a put\<close>

definition put_found :: "relay_env \<Rightarrow> catalog list \<Rightarrow> string \<Rightarrow> string \<Rightarrow> dict \<Rightarrow> nat \<Rightarrow> bool" where
  "put_found env cs owner key d i \<longleftrightarrow> find_idx (\<lambda>e. key_matches key (ct_key e)) cs = Some i \<and>
     (ct_owner (cs ! i) = owner \<or> may_displace env cs owner d (cs ! i))"

lemma put_found_length: "put_found env cs owner key d i \<Longrightarrow> i < length cs \<and> key_matches key (ct_key (cs ! i))"
  using find_idx_SomeD by (auto simp: put_found_def)

inductive put_outcome ::
  "'k crypto \<Rightarrow> relay_env \<Rightarrow> put_io \<Rightarrow> string \<Rightarrow> dict \<Rightarrow> relay \<Rightarrow> rr_catalog_reject \<Rightarrow> relay \<Rightarrow> bool"
  for c env io owner d rl where
  put_refused: "reason \<noteq> RR_CAT_OK \<Longrightarrow> later_db (rl_identity rl) db \<Longrightarrow>
     put_outcome c env io owner d rl reason (rl\<lparr>rl_identity := db\<rparr>)"
| put_updated: "admission_key env (rl_catalogs rl) owner d = Inr key \<Longrightarrow>
     sign_or_verify c env io owner key d (rl_identity rl) = (Inr copy, db1) \<Longrightarrow>
     check_history c env io owner key copy db1 = (True, db) \<Longrightarrow>
     put_found env (rl_catalogs rl) owner key d i \<Longrightarrow>
     put_outcome c env io owner d rl RR_CAT_OK (rl\<lparr>rl_identity := db,
       rl_catalogs := store_entry (ct_owner (rl_catalogs rl ! i) \<noteq> owner) owner key copy i (rl_catalogs rl)\<rparr>)"
| put_added: "admission_key env (rl_catalogs rl) owner d = Inr key \<Longrightarrow>
     sign_or_verify c env io owner key d (rl_identity rl) = (Inr copy, db1) \<Longrightarrow>
     check_history c env io owner key copy db1 = (True, db) \<Longrightarrow>
     find_idx (\<lambda>e. key_matches key (ct_key e)) (rl_catalogs rl) = None \<Longrightarrow> rl_count rl \<noteq> MAX_CATALOG \<Longrightarrow>
     put_outcome c env io owner d rl RR_CAT_OK (rl\<lparr>rl_identity := db, rl_catalogs :=
       \<lparr>ct_owner = snprintf_s 37 owner, ct_key = snprintf_s 160 key, ct_descriptor = copy, ct_seen = True\<rparr> # rl_catalogs rl,
       rl_count := rl_count rl + 1\<rparr>)"

lemma admission_refusal: "admission_key env cs owner d = Inl reason \<Longrightarrow> reason \<noteq> RR_CAT_OK"
  by (auto simp: admission_key_def Let_def split: if_splits option.splits rr_catalog_reject.splits)

lemma sign_or_verify_result:
  assumes "sign_or_verify c env io owner key d db = (r, db')"
  shows "later_db db db' \<and> r \<noteq> Inl RR_CAT_OK"
  using assms later_local [of db c "pi_local io" "re_domain env" owner key "seal env owner d"]
  by (auto simp: sign_or_verify_def split: if_splits prod.splits bool.splits)

lemma check_history_later:
  assumes "check_history c env io owner key copy db = (ok, db')"
  shows "later_db db db'"
proof -
  let ?pin = "rr_identity_check_pin (pi_pin io) (dict_get copy ''identity.domain'' '''') (dict_get copy ''identity.owner'' '''')
    (dict_get copy ''identity.public-key'' '''') db"
  have "later_db db (snd ?pin)" by (rule later_pin)
  moreover have "later_db (snd ?pin) (snd (rr_identity_accept_revision c (pi_accept io) (re_domain env) owner key copy (snd ?pin)))"
    by (rule later_accept)
  ultimately show ?thesis using assms
    by (auto simp: check_history_def split: if_splits prod.splits bool.splits intro: later_trans)
qed

lemma put_same: "reason \<noteq> RR_CAT_OK \<Longrightarrow> put_outcome c env io owner d rl reason rl"
  using put_refused [of reason rl "rl_identity rl"] by simp

lemma put_outcomeI:
  assumes "rr_relay_catalog_put_reason c env io owner d rl = (r, rl', out)"
  shows "put_outcome c env io owner d rl r rl'"
proof (cases "admission_key env (rl_catalogs rl) owner d")
  case (Inl reason)
  then show ?thesis
    using assms admission_refusal [OF Inl] put_same by (auto simp: rr_relay_catalog_put_reason_def)
next
  case (Inr key)
  let ?cs = "rl_catalogs rl" and ?f = "find_idx (\<lambda>e. key_matches key (ct_key e)) (rl_catalogs rl)"
  let ?replace = "case ?f of None \<Rightarrow> False | Some i \<Rightarrow> ct_owner (?cs ! i) \<noteq> owner"
  obtain s db1 where s: "sign_or_verify c env io owner key d (rl_identity rl) = (s, db1)" by fastforce
  have l1: "later_db (rl_identity rl) db1" "s \<noteq> Inl RR_CAT_OK" using sign_or_verify_result [OF s] by auto
  show ?thesis
  proof (cases "?replace \<and> \<not> may_displace env ?cs owner d (?cs ! the ?f)")
    case True
    then have "r = RR_CAT_ROOM_AUTH \<and> rl' = rl" using assms Inr by (simp add: rr_relay_catalog_put_reason_def)
    then show ?thesis by (simp add: put_same)
  next
    case ok: False
    show ?thesis
    proof (cases s)
      case (Inl reason)
      then show ?thesis using assms Inr s ok put_refused l1 by (auto simp: rr_relay_catalog_put_reason_def Let_def)
    next
      case copy: (Inr copy)
      obtain good db2 where h: "check_history c env io owner key copy db1 = (good, db2)" by fastforce
      have l2: "later_db (rl_identity rl) db2" using check_history_later [OF h] l1 later_trans by blast
      have refused: "put_outcome c env io owner d rl reason (rl\<lparr>rl_identity := db2\<rparr>)" if "reason \<noteq> RR_CAT_OK" for reason
        using put_refused that l2 by blast
      show ?thesis
      proof (cases good)
        case False
        then show ?thesis using assms Inr s ok copy h refused by (auto simp: rr_relay_catalog_put_reason_def Let_def)
      next
        case True
        with h s copy have hs: "sign_or_verify c env io owner key d (rl_identity rl) = (Inr copy, db1)"
          "check_history c env io owner key copy db1 = (True, db2)" by simp_all
        show ?thesis
        proof (cases ?f)
          case None
          note eq = assms [unfolded rr_relay_catalog_put_reason_def, simplified Let_def Inr s copy h True None sum.case prod.case
            bool.case option.case, simplified]
          show ?thesis
          proof (cases "rl_count rl = MAX_CATALOG \<or> \<not> pi_alloc io")
            case True
            with eq have "r \<noteq> RR_CAT_OK \<and> rl' = rl\<lparr>rl_identity := db2\<rparr>" by (auto split: if_splits)
            then show ?thesis by (simp add: refused)
          next
            case False
            with eq put_added [OF Inr hs None] show ?thesis by (simp split: if_splits)
          qed
        next
          case (Some i)
          then have f: "put_found env ?cs owner key d i" using ok by (auto simp: put_found_def)
          note eq = assms [unfolded rr_relay_catalog_put_reason_def, simplified Let_def Inr s copy h True Some sum.case prod.case
            bool.case option.case, simplified]
          consider "r = RR_CAT_ROOM_AUTH" "rl' = rl\<lparr>rl_identity := db2\<rparr>" | "r = RR_CAT_OK" "rl' = rl\<lparr>rl_identity := db2,
              rl_catalogs := store_entry (ct_owner (?cs ! i) \<noteq> owner) owner key copy i ?cs\<rparr>"
            using eq ok Some by (auto split: if_splits)
          then show ?thesis by cases (simp_all add: refused put_updated [OF Inr hs f])
        qed
      qed
    qed
  qed
qed

section \<open>The invariant\<close>

subsection \<open>Keys\<close>

definition is_hex :: "char \<Rightarrow> bool" where
  "is_hex ch \<longleftrightarrow> is_digit ch \<or> (65 \<le> chr_ord ch \<and> chr_ord ch \<le> 70) \<or> (97 \<le> chr_ord ch \<and> chr_ord ch \<le> 102)"

definition uuid_shape :: "string \<Rightarrow> bool" where
  "uuid_shape u \<longleftrightarrow> length u = 36 \<and> (\<forall>ch \<in> set u. is_hex ch \<or> ch = CHR ''-'')"

definition is_room :: "string \<Rightarrow> bool" where
  "is_room key \<longleftrightarrow> take 5 key = ''room:''"

definition service_of :: "string \<Rightarrow> string \<Rightarrow> bool" where
  "service_of owner key \<longleftrightarrow> take 45 key = ''service:'' @ owner @ '':''"

definition key_shape :: "string \<Rightarrow> string \<Rightarrow> bool" where
  "key_shape owner key \<longleftrightarrow> is_room key \<or> uuid_shape key \<or> service_of owner key"

definition fold_key :: "string \<Rightarrow> string" where
  "fold_key key = (if is_room key then map to_lower key else key)"

lemma is_room_case: "strcaseeq k key \<Longrightarrow> is_room key \<Longrightarrow> map to_lower (take 5 k) = ''room:''"
proof -
  assume a: "strcaseeq k key" "is_room key"
  have "map to_lower (take 5 k) = take 5 (map to_lower key)" using a(1) by (simp add: strcaseeq_def take_map [symmetric])
  also have "\<dots> = map to_lower ''room:''" using a(2) by (simp add: is_room_def take_map)
  also have "\<dots> = ''room:''" by code_simp
  finally show ?thesis .
qed

lemma shape_caseeq:
  assumes "key_shape owner k" "strcaseeq k key" "is_room key"
  shows "is_room k"
proof -
  have r: "map to_lower (take 5 k) = ''room:''" by (rule is_room_case [OF assms(2,3)])
  then obtain x t where k: "k = x # t" by (cases k) auto
  with r have x: "to_lower x = CHR ''r''" by simp
  have "\<not> is_hex x \<and> x \<noteq> CHR ''-'' \<and> x \<noteq> CHR ''s''"
  proof -
    have "x = CHR ''r'' \<or> (is_upper x \<and> chr_ord x = 82)"
    proof (cases "is_upper x")
      case True
      with x have "chr_ord (char_of (chr_ord x + 32)) = chr_ord CHR ''r''" by (simp add: to_lower_def)
      with True show ?thesis by (simp add: is_upper_def chr_ord_def)
    next
      case False
      with x show ?thesis by (simp add: to_lower_def)
    qed
    then show ?thesis by (auto simp: is_hex_def is_digit_def is_upper_def chr_ord_def)
  qed
  with assms(1) k show ?thesis by (auto simp: key_shape_def uuid_shape_def service_of_def)
qed

lemma key_matches_room: "key_matches key k \<longleftrightarrow> k = key \<or> (is_room key \<and> strcaseeq k key)"
  by (simp add: key_matches_def is_room_def)

lemma matches_fold:
  assumes "key_shape owner k"
  shows "key_matches key k \<longleftrightarrow> fold_key k = fold_key key"
proof
  assume "key_matches key k"
  then show "fold_key k = fold_key key"
    using shape_caseeq [OF assms] by (auto simp: key_matches_room fold_key_def strcaseeq_def)
next
  assume f: "fold_key k = fold_key key"
  have low: "is_room (map to_lower s)" if "is_room s" for s
  proof -
    have "take 5 (map to_lower s) = map to_lower ''room:''" using that by (simp add: is_room_def take_map)
    also have "\<dots> = ''room:''" by code_simp
    finally show ?thesis by (simp add: is_room_def)
  qed
  then have "is_room k \<longleftrightarrow> is_room key" using f by (metis fold_key_def)
  with f show "key_matches key k" by (auto simp: key_matches_room fold_key_def strcaseeq_def split: if_splits)
qed

lemma uuid_not_room: "uuid_shape u \<Longrightarrow> \<not> is_room u"
proof
  assume u: "uuid_shape u" "is_room u"
  then obtain t where "u = CHR ''r'' # t" by (cases u) (auto simp: is_room_def)
  with u(1) show False by (auto simp: uuid_shape_def is_hex_def is_digit_def chr_ord_def)
qed

lemma room_key_room [simp]: "is_room (room_key r)"
  by (simp add: is_room_def room_key_def snprintf_s_def)

lemma room_key_fits: "snprintf_s 160 (room_key r) = room_key r"
  by (simp add: room_key_def snprintf_s_def)

subsection \<open>Environments and entries\<close>

text \<open>
  What the relay relies on: object identifiers have the shape of a UUID, and a route leads to
  another server, named by 36 characters (\<open>LinkTree\<close>, lemmas below).
\<close>

definition env_ok :: "string \<Rightarrow> string \<Rightarrow> relay_env \<Rightarrow> bool" where
  "env_ok node domain env \<longleftrightarrow> re_node env = node \<and> re_domain env = domain \<and> length node = 36 \<and>
     (\<forall>u. re_uuid_valid env u \<longrightarrow> uuid_shape u) \<and> (\<forall>n. re_route env n \<noteq> None \<longrightarrow> n \<noteq> node \<and> length n = 36)"

text \<open>
  A remote entry is signed by its owner with the pinned key, names objects of its own, and is stored in its owner's name space.
  Its signature verifies, unless it occupies the identifier of one of the server's own rigs, \<open>locals\<close>: then
  \<open>collect_rig\<close> has found it in the place of the rig's own entry and added fields to it.
\<close>

definition remote_entry :: "'k crypto \<Rightarrow> string \<Rightarrow> string set \<Rightarrow> identity_db \<Rightarrow> catalog \<Rightarrow> bool" where
  "remote_entry c domain locals db e \<longleftrightarrow>
     (let d = ct_descriptor e; owner = ct_owner e in
      map_of d ''identity.signature'' \<noteq> None \<and> dict_get d ''identity.owner'' '''' = owner \<and>
      strcaseeq (dict_get d ''identity.domain'' '''') domain \<and> dict_get d ''identity.operation'' '''' = ''catalog-upsert'' \<and>
      (ct_key e \<notin> locals \<longrightarrow> rr_identity_verify_catalog c d) \<and>
      db_pins db (map to_lower domain, owner) = Some (dict_get d ''identity.public-key'' '''') \<and>
      (\<forall>u. map_of d ''object.uuid'' = Some u \<longrightarrow> dict_get d ''object.type'' '''' = ''node'' \<longrightarrow> u = owner) \<and>
      (map_of d ''object.uuid'' \<noteq> None \<longrightarrow> dict_get d ''object.type'' '''' = ''rig'' \<longrightarrow> dict_get d ''object.owner'' '''' = owner) \<and>
      (map_of d ''catalog.service'' \<noteq> None \<longrightarrow> service_of owner (ct_key e)))"

definition entry_ok :: "'k crypto \<Rightarrow> string \<Rightarrow> string \<Rightarrow> string set \<Rightarrow> identity_db \<Rightarrow> catalog \<Rightarrow> bool" where
  "entry_ok c node domain locals db e \<longleftrightarrow> length (ct_owner e) = 36 \<and> key_shape (ct_owner e) (ct_key e) \<and>
     (ct_owner e \<noteq> node \<longrightarrow> remote_entry c domain locals db e)"

definition relay_inv :: "'k crypto \<Rightarrow> string \<Rightarrow> string \<Rightarrow> string set \<Rightarrow> relay \<Rightarrow> bool" where
  "relay_inv c node domain locals rl \<longleftrightarrow> rl_count rl = length (rl_catalogs rl) \<and> length (rl_catalogs rl) \<le> MAX_CATALOG \<and>
     distinct (map (fold_key \<circ> ct_key) (rl_catalogs rl)) \<and>
     (\<forall>e \<in> set (rl_catalogs rl). entry_ok c node domain locals (rl_identity rl) e)"

lemma entry_ok_later: "entry_ok c node dn L db e \<Longrightarrow> later_db db db' \<Longrightarrow> entry_ok c node dn L db' e"
  by (auto simp: entry_ok_def remote_entry_def later_db_def Let_def)

subsection \<open>Admitted keys\<close>

lemma service_OK:
  assumes "service_authority cs owner uuid service d = RR_CAT_OK" "length owner = 36"
  shows "uuid = None \<and> length service < 160 \<and> service_of owner service"
proof -
  have a: "uuid = None" "length service < 160" "45 \<le> length service" "take 8 service = ''service:''"
      "take 36 (drop 8 service) = owner" "service ! 44 = CHR '':''"
    using assms by (auto simp: service_authority_def Let_def split: option.splits if_splits)
  have "take 45 service = take 8 service @ take 37 (drop 8 service)" by (simp flip: take_add)
  also have "take 37 (drop 8 service) = take 36 (drop 8 service) @ [drop 8 service ! 36]"
    using a(3) by (simp add: take_Suc_conv_app_nth [of 36, simplified])
  finally show ?thesis using a by (simp add: service_of_def)
qed

lemma admission_shape:
  assumes "admission_key env cs owner d = Inr key" "length owner = 36" "env_ok node dn env"
  shows "snprintf_s 160 key = key \<and>
     ((map_of d ''catalog.service'' \<noteq> None \<and> map_of d ''object.uuid'' = None \<and> service_of owner key) \<or>
      (map_of d ''catalog.service'' = None \<and> map_of d ''object.uuid'' = Some key \<and> uuid_shape key) \<or>
      (map_of d ''catalog.service'' = None \<and> (\<exists>r. map_of d ''catalog.room'' = Some r \<and> key = room_key r)))"
proof (cases "map_of d ''catalog.service''")
  case (Some service)
  then have "service_authority cs owner (map_of d ''object.uuid'') service d = RR_CAT_OK \<and> key = snprintf_s 160 service"
    using assms(1) by (auto simp: admission_key_def Let_def split: if_splits rr_catalog_reject.splits)
  with service_OK [OF _ assms(2)] Some show ?thesis by fastforce
next
  case None
  then consider u where "map_of d ''object.uuid'' = Some u" "re_uuid_valid env u" "key = snprintf_s 160 u"
    | r where "map_of d ''catalog.room'' = Some r" "key = room_key r"
    using assms(1) by (auto simp: admission_key_def Let_def split: if_splits)
  then show ?thesis
  proof cases
    case 1
    then have "uuid_shape u" using assms(3) by (simp add: env_ok_def)
    then have "snprintf_s 160 u = u" by (simp add: uuid_shape_def)
    with 1 None \<open>uuid_shape u\<close> show ?thesis by simp
  next
    case 2
    with None show ?thesis by (simp add: room_key_fits)
  qed
qed

lemma admission_authority:
  assumes "admission_key env cs owner d = Inr key" "owner \<noteq> re_node env"
  shows "map_of d ''identity.signature'' \<noteq> None"
    and "map_of d ''object.uuid'' = Some u \<Longrightarrow> dict_get d ''object.type'' '''' = ''node'' \<Longrightarrow> u = owner"
    and "map_of d ''object.uuid'' = Some u \<Longrightarrow> dict_get d ''object.type'' '''' = ''rig'' \<Longrightarrow> dict_get d ''object.owner'' '''' = owner"
  using assms by (auto simp: admission_key_def object_authority_def rr_relay_local_owner_def Let_def split: if_splits)

subsection \<open>Every operation keeps it\<close>

lemma signed_copy:
  assumes "sign_or_verify c env io owner key d db = (Inr copy, db1)" "check_history c env io owner key copy db1 = (True, db2)"
    and "owner \<noteq> re_node env" "map_of d ''identity.signature'' \<noteq> None"
  shows "copy = d \<and> origin_bound c env owner d \<and>
    db_pins db2 (map to_lower (re_domain env), owner) = Some (dict_get d ''identity.public-key'' '''')"
proof -
  from assms(1,3,4) have d: "copy = d" "origin_bound c env owner d"
    by (auto simp: sign_or_verify_def rr_relay_local_owner_def split: if_splits)
  then have o: "dict_get d ''identity.owner'' '''' = owner" "map to_lower (dict_get d ''identity.domain'' '''') = map to_lower (re_domain env)"
    by (simp_all add: origin_bound_def strcaseeq_def)
  obtain ok db' where pin: "rr_identity_check_pin (pi_pin io) (dict_get d ''identity.domain'' '''') owner
      (dict_get d ''identity.public-key'' '''') db1 = (ok, db')" by fastforce
  with assms(2-4) d(1) o(1) have ok: "ok" by (auto simp: check_history_def split: bool.splits)
  have "later_db db' db2" using assms(2-4) d(1) o(1) pin ok later_accept [of db' c "pi_accept io" "re_domain env" owner key d]
    by (auto simp: check_history_def rr_relay_local_owner_def split: if_splits)
  with pinned_stored(1) [OF pin [unfolded eqTrueI [OF ok]]] o(2) have
    "db_pins db2 (map to_lower (re_domain env), owner) = Some (dict_get d ''identity.public-key'' '''')"
    by (simp add: later_db_def)
  with d show ?thesis by simp
qed

lemma new_entry_ok:
  assumes "admission_key env cs owner d = Inr key" "length owner = 36" "env_ok node dn env"
    and "sign_or_verify c env io owner key d db = (Inr copy, db1)" "check_history c env io owner key copy db1 = (True, db2)"
    and "ct_owner e = owner" "key_shape owner (ct_key e)" "key_matches key (ct_key e)" "ct_descriptor e = copy"
  shows "entry_ok c node dn locals db2 e"
proof -
  have "remote_entry c dn locals db2 e" if r: "owner \<noteq> node"
  proof -
    from r assms(3) have ne: "owner \<noteq> re_node env" by (simp add: env_ok_def)
    note auth = admission_authority [OF assms(1) ne]
    note copy = signed_copy [OF assms(4,5) ne auth(1)]
    note shape = admission_shape [OF assms(1-3)]
    have key: "ct_key e = key" if "\<not> is_room key" using assms(8) that by (simp add: key_matches_room)
    have service: "service_of owner (ct_key e)" if "map_of d ''catalog.service'' \<noteq> None"
    proof -
      have "service_of owner key" using shape that by auto
      moreover from this have "\<not> is_room key"
        by (cases key) (auto simp: is_room_def service_of_def)
      ultimately show ?thesis using key by simp
    qed
    show ?thesis using copy auth service assms(3,6,9) unfolding remote_entry_def Let_def
      by (auto simp: origin_bound_def env_ok_def)
  qed
  then show ?thesis using assms(2,6,7) by (simp add: entry_ok_def)
qed

lemma store_entry_keys:
  assumes "i < length cs" "snprintf_s 160 key = key" "replace \<Longrightarrow> fold_key (ct_key (cs ! i)) = fold_key key"
  shows "map (fold_key \<circ> ct_key) (store_entry replace owner key copy i cs) = map (fold_key \<circ> ct_key) cs"
  unfolding store_entry_def using assms by (intro map_update_same) simp

lemma relay_invI:
  assumes "relay_inv c node dn L rl" "later_db (rl_identity rl) db" "length cs = length (rl_catalogs rl)"
    and "map (fold_key \<circ> ct_key) cs = map (fold_key \<circ> ct_key) (rl_catalogs rl)"
    and "\<And>e. e \<in> set cs \<Longrightarrow> e \<in> set (rl_catalogs rl) \<or> entry_ok c node dn L db e"
  shows "relay_inv c node dn L (rl\<lparr>rl_identity := db, rl_catalogs := cs\<rparr>)"
  using assms unfolding relay_inv_def by (auto intro: entry_ok_later)

lemma put_inv:
  assumes "relay_inv c node dn L rl" "env_ok node dn env" "length owner = 36"
    and "put_outcome c env io owner d rl r rl'"
  shows "relay_inv c node dn L rl'"
  using assms(4)
proof cases
  case (put_refused db)
  with assms(1) show ?thesis unfolding relay_inv_def by (auto intro: entry_ok_later)
next
  case (put_updated key copy db1 db i)
  note shape = admission_shape [OF put_updated(3) assms(3,2)]
  have i: "i < length (rl_catalogs rl)" "key_matches key (ct_key (rl_catalogs rl ! i))"
    using put_found_length [OF put_updated(6)] by auto
  have old: "key_shape (ct_owner (rl_catalogs rl ! i)) (ct_key (rl_catalogs rl ! i))"
    using assms(1) i(1) by (simp add: relay_inv_def entry_ok_def)
  let ?e = "(if ct_owner (rl_catalogs rl ! i) \<noteq> owner then (rl_catalogs rl ! i)\<lparr>ct_key := snprintf_s 160 key, ct_owner := snprintf_s 37 owner\<rparr>
      else rl_catalogs rl ! i)\<lparr>ct_descriptor := copy, ct_seen := True\<rparr>"
  have ks: "key_shape owner key" using shape by (auto simp: key_shape_def)
  have "entry_ok c node dn L db ?e"
    by (rule new_entry_ok [OF put_updated(3) assms(3,2) put_updated(4,5)])
       (use ks old i(2) shape assms(3) in \<open>auto simp: key_matches_room\<close>)
  moreover have "later_db (rl_identity rl) db"
    using sign_or_verify_result [OF put_updated(4)] check_history_later [OF put_updated(5)] later_trans by blast
  ultimately show ?thesis unfolding put_updated(2)
    using assms(1) i(1) shape matches_fold [OF old] i(2)
    by (intro relay_invI store_entry_keys)
       (auto simp: store_entry_def dest!: set_update_subset_insert [THEN subsetD])
next
  case (put_added key copy db1 db)
  note shape = admission_shape [OF put_added(3) assms(3,2)]
  let ?e = "\<lparr>ct_owner = snprintf_s 37 owner, ct_key = snprintf_s 160 key, ct_descriptor = copy, ct_seen = True\<rparr>"
  have ks: "key_shape owner key" using shape by (auto simp: key_shape_def)
  have e: "entry_ok c node dn L db ?e"
    by (rule new_entry_ok [OF put_added(3) assms(3,2) put_added(4,5)])
       (use ks shape assms(3) in \<open>auto simp: key_matches_room\<close>)
  have l: "later_db (rl_identity rl) db"
    using sign_or_verify_result [OF put_added(4)] check_history_later [OF put_added(5)] later_trans by blast
  have "fold_key (ct_key x) \<noteq> fold_key key" if "x \<in> set (rl_catalogs rl)" for x
    using put_added(6) assms(1) that matches_fold [of "ct_owner x" "ct_key x" key] by (auto simp: relay_inv_def entry_ok_def)
  then have "fold_key key \<notin> set (map (fold_key \<circ> ct_key) (rl_catalogs rl))" by fastforce
  then show ?thesis using assms(1) e l shape put_added(7)
    unfolding put_added(2) relay_inv_def by (auto intro: entry_ok_later)
qed

lemma relay_inv_subset:
  assumes "relay_inv c node dn L rl" "later_db (rl_identity rl) db" "distinct (map (fold_key \<circ> ct_key) cs)"
    and "set cs \<subseteq> set (rl_catalogs rl)" "n = length cs" "length cs \<le> length (rl_catalogs rl)"
    and "rl_catalogs rl' = cs" "rl_count rl' = n" "rl_identity rl' = db"
  shows "relay_inv c node dn L rl'"
  using assms unfolding relay_inv_def by (auto intro: entry_ok_later)

lemma remove_at_facts:
  assumes "i < length xs"
  shows "length (remove_at i xs) = length xs - 1" "set (remove_at i xs) \<subseteq> set xs"
    and "distinct (map f xs) \<Longrightarrow> distinct (map f (remove_at i xs))"
proof -
  show "length (remove_at i xs) = length xs - 1" using assms by (simp add: remove_at_def)
  show "set (remove_at i xs) \<subseteq> set xs" by (auto simp: remove_at_def dest: in_set_takeD in_set_dropD)
  have split: "xs = take i xs @ xs ! i # drop (Suc i) xs" using assms by (simp add: id_take_nth_drop)
  show "distinct (map f (remove_at i xs))" if "distinct (map f xs)"
    using that by (subst (asm) split) (simp add: remove_at_def)
qed

lemma catalog_remove_inv:
  assumes "relay_inv c node dn L rl"
  shows "relay_inv c node dn L (fst (snd (receive_catalog_remove c env pio fio now origin d rl)))"
proof -
  obtain ok db where pin: "rr_identity_check_pin pio (dict_get d ''identity.domain'' '''') origin
      (dict_get d ''identity.public-key'' '''') (rl_identity rl) = (ok, db)" by fastforce
  then have l: "later_db (rl_identity rl) db" using later_pin by (metis snd_conv)
  obtain fresh j where fr: "catalog_mutation_fresh env fio now d origin (rl_mutations rl) = (fresh, j)" by fastforce
  have keep: "relay_inv c node dn L (rl\<lparr>rl_identity := db\<rparr>)" "relay_inv c node dn L (rl\<lparr>rl_identity := db, rl_mutations := j\<rparr>)"
    using assms l unfolding relay_inv_def by (auto intro: entry_ok_later)
  have del: "relay_inv c node dn L (rl\<lparr>rl_identity := db, rl_mutations := j, rl_catalogs := remove_at i (rl_catalogs rl),
      rl_count := rl_count rl - Suc 0\<rparr>)" if "find_idx (removal_matches origin d) (rl_catalogs rl) = Some i" for i
  proof -
    have i: "i < length (rl_catalogs rl)" using find_idx_SomeD [OF that] by simp
    have "distinct (map (fold_key \<circ> ct_key) (rl_catalogs rl))" "rl_count rl = length (rl_catalogs rl)"
      using assms by (simp_all add: relay_inv_def)
    then show ?thesis
      using remove_at_facts [OF i] by (intro relay_inv_subset [OF assms l]) simp_all
  qed
  show ?thesis using assms keep del
    by (simp add: receive_catalog_remove_def pin fr Let_def split: bool.splits option.splits)
qed

lemma filter_inv:
  assumes "relay_inv c node dn L rl"
  shows "relay_inv c node dn L (rl\<lparr>rl_catalogs := filter P (rl_catalogs rl),
      rl_count := rl_count rl - length (filter (\<lambda>e. \<not> P e) (rl_catalogs rl))\<rparr>)"
proof -
  have "rl_count rl - length (filter (\<lambda>e. \<not> P e) (rl_catalogs rl)) = length (filter P (rl_catalogs rl))"
    using assms sum_length_filter_compl [of P "rl_catalogs rl"] by (simp add: relay_inv_def)
  then show ?thesis using assms
    by (intro relay_inv_subset [OF assms later_refl]) (auto simp: relay_inv_def distinct_map_filter)
qed

lemma lost_inv:
  assumes "relay_inv c node dn L rl"
  shows "relay_inv c node dn L (fst (lost_catalogs env rl))"
  using filter_inv [OF assms, of "\<lambda>e. reachable env (ct_owner e)"] by (simp add: lost_catalogs_def relay_inv_def Let_def)

lemma directory_inv:
  "relay_inv c node dn L rl \<Longrightarrow> relay_inv c node dn L (rr_relay_directory_put env alloc n owner d rl)"
  by (auto simp: rr_relay_directory_put_def relay_inv_def split: option.splits)

lemma put_reason_inv:
  assumes "relay_inv c node dn L rl" "env_ok node dn env" "length owner = 36"
  shows "relay_inv c node dn L (rr_relay_catalog_put c env io owner d rl)"
proof -
  obtain r rl' out where p: "rr_relay_catalog_put_reason c env io owner d rl = (r, rl', out)" by (metis prod_cases3)
  from put_inv [OF assms put_outcomeI [OF p]] p show ?thesis by (simp add: rr_relay_catalog_put_def)
qed

lemma receive_catalog_state: "fst (snd (receive_catalog c env io origin d rl)) = rr_relay_catalog_put c env io origin d rl"
  by (simp add: receive_catalog_def rr_relay_catalog_put_def split: prod.splits rr_catalog_reject.splits)

lemma entry_ok_seen [simp]: "entry_ok c node dn L db (e\<lparr>ct_seen := x\<rparr>) = entry_ok c node dn L db e"
  by (simp add: entry_ok_def remote_entry_def)

lemma unsee_inv: "relay_inv c node dn L rl \<Longrightarrow> relay_inv c node dn L (unsee_local env rl)"
proof -
  assume a: "relay_inv c node dn L rl"
  let ?f = "\<lambda>e. if rr_relay_local_owner env (ct_owner e) then e\<lparr>ct_seen := False\<rparr> else e"
  have f: "fold_key \<circ> ct_key \<circ> ?f = fold_key \<circ> ct_key" by (auto simp: fun_eq_iff)
  show ?thesis using a unfolding unsee_local_def relay_inv_def by (auto simp: f)
qed

lemma describe_rig_other:
  "k \<notin> {''object.backend'', ''object.name'', ''object.location'', ''object.model''} \<Longrightarrow> map_of (describe_rig f d) k = map_of d k"
  by (auto simp: describe_rig_def dict_opt_def update_conv' split: option.splits)

lemma dict_get_same: "map_of d k = map_of d' k \<Longrightarrow> dict_get d k v = dict_get d' k v"
  by (simp add: dict_get_def)

text \<open>What \<open>collect_rig\<close> adds to an entry that another server has put under the rig's identifier leaves everything but its signature intact.\<close>

lemma described_ok:
  assumes "entry_ok c node dn L db e" "ct_key e \<in> L"
  shows "entry_ok c node dn L db (e\<lparr>ct_descriptor := describe_rig f (ct_descriptor e)\<rparr>)"
proof -
  have other: "map_of (describe_rig f d) k = map_of d k" "dict_get (describe_rig f d) k v = dict_get d k v"
    if "k \<in> {''identity.signature'', ''identity.owner'', ''identity.domain'', ''identity.operation'', ''identity.public-key'', ''object.uuid'',
      ''object.type'', ''object.owner'', ''catalog.service''}" for d k v
    using that by (auto intro!: describe_rig_other dict_get_same)
  show ?thesis using assms unfolding entry_ok_def remote_entry_def Let_def by (simp add: other)
qed

lemma described_inv:
  assumes "relay_inv c node dn L rl" "i < length (rl_catalogs rl)" "ct_key (rl_catalogs rl ! i) \<in> L"
  shows "relay_inv c node dn L (rl\<lparr>rl_catalogs := (rl_catalogs rl)[i := (rl_catalogs rl ! i)\<lparr>ct_descriptor := describe_rig f (ct_descriptor (rl_catalogs rl ! i))\<rparr>]\<rparr>)"
proof -
  let ?e = "(rl_catalogs rl ! i)\<lparr>ct_descriptor := describe_rig f (ct_descriptor (rl_catalogs rl ! i))\<rparr>"
  have e: "entry_ok c node dn L (rl_identity rl) ?e"
    using assms(1) nth_mem [OF assms(2)] by (intro described_ok [OF _ assms(3)]) (simp add: relay_inv_def)
  have "relay_inv c node dn L (rl\<lparr>rl_identity := rl_identity rl, rl_catalogs := (rl_catalogs rl)[i := ?e]\<rparr>)"
    using assms e by (intro relay_invI map_update_same) (auto dest!: set_update_subset_insert [THEN subsetD])
  then show ?thesis by simp
qed

lemma collect_one_inv:
  assumes "relay_inv c node dn L rl" "env_ok node dn env" "\<And>u. u \<in> L \<Longrightarrow> uuid_shape u"
    and "facts \<noteq> None \<Longrightarrow> dict_get d ''object.uuid'' '''' \<in> L"
  shows "relay_inv c node dn L (collect_one c env (io, d, facts) rl)"
proof -
  let ?rl = "rr_relay_catalog_put c (env\<lparr>re_collecting := True\<rparr>) io (re_node env) d rl"
  have env: "env_ok node dn (env\<lparr>re_collecting := True\<rparr>)" "length (re_node env) = 36"
    using assms(2) by (simp_all add: env_ok_def)
  have rl: "relay_inv c node dn L ?rl" by (rule put_reason_inv [OF assms(1) env])
  let ?u = "dict_get d ''object.uuid'' ''''"
  have "ct_key (rl_catalogs ?rl ! i) \<in> L \<and> i < length (rl_catalogs ?rl)"
    if "facts \<noteq> None" "find_idx (\<lambda>e. key_matches ?u (ct_key e)) (rl_catalogs ?rl) = Some i" for i
    using find_idx_SomeD [OF that(2)] assms(3,4) that(1) uuid_not_room by (auto simp: key_matches_room)
  then show ?thesis using rl described_inv [OF rl]
    by (cases facts) (simp_all add: collect_one_def Let_def split: option.splits)
qed

lemma seal_entries_inv:
  assumes "\<forall>e \<in> set cs. entry_ok c node dn L db e" "re_node env = node" "seal_entries c env io cs db = (cs', db')"
  shows "later_db db db' \<and> map ct_key cs' = map ct_key cs \<and> (\<forall>e \<in> set cs'. entry_ok c node dn L db' e)"
  using assms
proof (induction cs arbitrary: db cs' db')
  case Nil
  then show ?case by simp
next
  case (Cons e es)
  obtain e1 db1 where 1: "seal_entry c env io e db = (e1, db1)" by fastforce
  obtain es2 db2 where 2: "seal_entries c env io es db1 = (es2, db2)" by fastforce
  let ?d = "seal env (ct_owner e) (AList.delete ''identity.signature'' (ct_descriptor e))"
  have l1: "later_db db db1 \<and> ct_key e1 = ct_key e \<and> ct_owner e1 = ct_owner e \<and> (e1 = e \<or> ct_owner e = node)"
    using 1 later_local [of db c io "re_domain env" "ct_owner e" "ct_key e" ?d] Cons.prems(2)
    by (auto simp: seal_entry_def rr_relay_local_owner_def Let_def split: if_splits prod.splits bool.splits)
  then have e1: "entry_ok c node dn L db1 e1" using Cons.prems(1)
    by (auto simp: entry_ok_def intro: entry_ok_later [unfolded entry_ok_def, THEN conjunct2, THEN conjunct2, rule_format])
  have "\<forall>x \<in> set es. entry_ok c node dn L db1 x" using Cons.prems(1) l1 by (auto intro: entry_ok_later)
  from Cons.IH [OF this Cons.prems(2) 2] have s: "later_db db1 db2" "map ct_key es2 = map ct_key es"
      "\<forall>x \<in> set es2. entry_ok c node dn L db2 x" by auto
  have "cs' = e1 # es2" "db' = db2" using Cons.prems(3) 1 2 by simp_all
  then show ?case using l1 e1 s by (auto intro: later_trans entry_ok_later)
qed

lemma collect_inv:
  assumes "relay_inv c node dn L rl" "env_ok node dn env" "\<And>u. u \<in> L \<Longrightarrow> uuid_shape u"
    and "\<forall>(io, d, facts) \<in> set items. facts = None \<or> dict_get d ''object.uuid'' '''' \<in> L"
  shows "relay_inv c node dn L (rr_relay_collect_local c env io items rl)"
proof -
  let ?rl = "fold (collect_one c env) items rl"
  have rl: "relay_inv c node dn L ?rl"
    using assms(1,4)
  proof (induction items arbitrary: rl)
    case (Cons item items)
    obtain x d facts where i: "item = (x, d, facts)" by (metis prod_cases3)
    from Cons.prems i have "relay_inv c node dn L (collect_one c env item rl)"
      unfolding i by (intro collect_one_inv [OF _ assms(2,3)]) auto
    with Cons show ?case by simp
  qed simp
  obtain cs db where s: "seal_entries c env io (rl_catalogs ?rl) (rl_identity ?rl) = (cs, db)" by fastforce
  have "re_node env = node" using assms(2) by (simp add: env_ok_def)
  from seal_entries_inv [OF _ this s] rl have t: "later_db (rl_identity ?rl) db" "map ct_key cs = map ct_key (rl_catalogs ?rl)"
      "\<forall>e \<in> set cs. entry_ok c node dn L db e" by (auto simp: relay_inv_def)
  have "map (fold_key \<circ> ct_key) cs = map (fold_key \<circ> ct_key) (rl_catalogs ?rl)" using t(2) by (metis map_map)
  moreover have "length cs = length (rl_catalogs ?rl)" using t(2) map_eq_imp_length_eq by blast
  ultimately have "relay_inv c node dn L (?rl\<lparr>rl_identity := db, rl_catalogs := cs\<rparr>)"
    using t(1,3) by (intro relay_invI [OF rl]) auto
  then show ?thesis using assms(1) by (simp add: rr_relay_collect_local_def s Let_def relay_inv_def)
qed

lemma drop_unseen_filter: "fst (drop_unseen env kept es) = kept @ filter (\<lambda>e. \<not> unseen_local env e) es"
  by (induction env kept es rule: drop_unseen.induct) (auto split: prod.splits)

lemma refresh_inv:
  assumes "relay_inv c node dn L rl" "env_ok node dn env" "\<And>u. u \<in> L \<Longrightarrow> uuid_shape u"
    and "\<forall>(io, d, facts) \<in> set items. facts = None \<or> dict_get d ''object.uuid'' '''' \<in> L"
  shows "relay_inv c node dn L (fst (rr_relay_refresh_catalog c env io items rl))"
proof -
  let ?rl = "rr_relay_collect_local c env io items (unsee_local env rl)"
  have rl: "relay_inv c node dn L ?rl" by (rule collect_inv [OF unsee_inv [OF assms(1)] assms(2-4)])
  obtain cs out where d: "drop_unseen env [] (rl_catalogs ?rl) = (cs, out)" by fastforce
  then have "cs = filter (\<lambda>e. \<not> unseen_local env e) (rl_catalogs ?rl)"
    using drop_unseen_filter [of env "[]" "rl_catalogs ?rl"] by simp
  with filter_inv [OF rl, of "\<lambda>e. \<not> unseen_local env e"] d show ?thesis
    by (simp add: rr_relay_refresh_catalog_def Let_def)
qed

section \<open>Runs\<close>

text \<open>
  Messages reach the relay only from a server with a route (\<open>handle_frame\<close> checks that the peer a
  message came from is the next hop toward its origin, \<^verbatim>\<open>rrserver/link.c\<close>).
\<close>

datatype relay_event =
    Catalog_message put_io string dict
  | Remove_message sql_io sql_io int string dict
  | Users_message bool nat string dict
  | Link_ready sql_io "(put_io \<times> dict \<times> rig_fields option) list"
  | Refresh sql_io "(put_io \<times> dict \<times> rig_fields option) list"
  | Branch_lost

fun relay_step :: "'k crypto \<Rightarrow> relay_env \<Rightarrow> relay_event \<Rightarrow> relay \<Rightarrow> relay" where
  "relay_step c env (Catalog_message io origin d) rl =
     (if re_route env origin = None then rl else fst (snd (receive_catalog c env io origin d rl)))"
| "relay_step c env (Remove_message pio fio now origin d) rl =
     (if re_route env origin = None then rl else fst (snd (receive_catalog_remove c env pio fio now origin d rl)))"
| "relay_step c env (Users_message alloc n origin d) rl =
     (if re_route env origin = None then rl else rr_relay_directory_put env alloc n origin d rl)"
| "relay_step c env (Link_ready io items) rl = rr_relay_collect_local c env io items rl"
| "relay_step c env (Refresh io items) rl = fst (rr_relay_refresh_catalog c env io items rl)"
| "relay_step c env Branch_lost rl = fst (lost_catalogs env rl)"

text \<open>\<open>locals\<close> contains the identifiers of the server's own rigs, the entries \<open>collect_rig\<close> adds fields to. The messages are arbitrary.\<close>

fun event_ok :: "string set \<Rightarrow> relay_event \<Rightarrow> bool" where
  "event_ok locals (Link_ready io items) \<longleftrightarrow> (\<forall>(io, d, facts) \<in> set items. facts = None \<or> dict_get d ''object.uuid'' '''' \<in> locals)"
| "event_ok locals (Refresh io items) \<longleftrightarrow> (\<forall>(io, d, facts) \<in> set items. facts = None \<or> dict_get d ''object.uuid'' '''' \<in> locals)"
| "event_ok locals _ \<longleftrightarrow> True"

lemma relay_step_inv:
  assumes "relay_inv c node dn L rl" "env_ok node dn env" "event_ok L ev" "\<And>u. u \<in> L \<Longrightarrow> uuid_shape u"
  shows "relay_inv c node dn L (relay_step c env ev rl)"
proof (cases ev)
  case (Catalog_message io origin d)
  have "length origin = 36" if "re_route env origin \<noteq> None" using that assms(2) by (auto simp: env_ok_def)
  with Catalog_message assms show ?thesis
    by (auto simp: receive_catalog_state intro!: put_reason_inv)
qed (use assms in \<open>simp_all add: catalog_remove_inv directory_inv collect_inv refresh_inv lost_inv\<close>)

definition relay_run :: "'k crypto \<Rightarrow> (relay_env \<times> relay_event) list \<Rightarrow> relay \<Rightarrow> relay" where
  "relay_run c run rl = fold (\<lambda>(env, ev). relay_step c env ev) run rl"

definition empty_relay :: "identity_db \<Rightarrow> mutation_journal \<Rightarrow> relay" where
  "empty_relay db j = \<lparr>rl_catalogs = [], rl_count = 0, rl_directories = [], rl_identity = db, rl_mutations = j\<rparr>"

lemma relay_run_inv:
  assumes "relay_inv c node dn L rl" "\<forall>(env, ev) \<in> set run. env_ok node dn env \<and> event_ok L ev"
    and "\<And>u. u \<in> L \<Longrightarrow> uuid_shape u"
  shows "relay_inv c node dn L (relay_run c run rl)"
  using assms(1,2)
proof (induction run arbitrary: rl)
  case (Cons x run)
  obtain env ev where x: "x = (env, ev)" by fastforce
  with Cons.prems have "relay_inv c node dn L (relay_step c env ev rl)"
    by (intro relay_step_inv [OF _ _ _ assms(3)]) auto
  with Cons x show ?case by (simp add: relay_run_def)
qed (simp add: relay_run_def)

lemma empty_relay_inv: "relay_inv c node dn L (empty_relay db j)"
  by (simp add: empty_relay_def relay_inv_def)

subsection \<open>Routes from the link tree\<close>

definition names_36 :: "link_tree \<Rightarrow> bool" where
  "names_36 t \<longleftrightarrow> (\<forall>n \<in> set (lt_nodes t). length (ln_server n) = 36)"

lemma names_attach:
  assumes "uuid_checker uv" "names_36 t"
  shows "names_36 (snd (rr_link_tree_attach uv t peer os))"
proof (cases "snd (rr_link_tree_attach uv t peer os) = t")
  case False
  then have "attach_scan uv t (the peer) [] os 0 = Inr 1 \<and> lt_nodes (snd (rr_link_tree_attach uv t peer os)) =
      lt_nodes t @ map (attach_node (ln_server (lt_nodes t ! 0)) (the peer)) os"
    by (auto simp: rr_link_tree_attach_def split: if_splits sum.splits)
  moreover from this have "\<exists>s. of_server n = Some s \<and> length s = 36" if "n \<in> set os" for n
    using that attach_scan_Inr [of uv t "the peer" "[]" os 0 1] valid_id_Some [OF assms(1)] by (auto simp: offer_ok_def)
  ultimately show ?thesis using assms(2) by (fastforce simp: names_36_def attach_node_def)
qed (use assms in simp)

lemma names_step:
  assumes "uuid_checker uv" "tree_inv t" "names_36 t"
  shows "names_36 (link_step uv op t)"
proof (cases op)
  case (SetLocalSite site)
  have "names_36 (snd (rr_link_tree_set_local_site t site))"
    using assms(2,3) by (cases "lt_nodes t") (auto simp: rr_link_tree_set_local_site_def names_36_def tree_inv_def)
  with SetLocalSite show ?thesis by simp
next
  case (Attach peer os)
  with names_attach [OF assms(1,3)] show ?thesis by simp
next
  case (Add peer server parent site)
  show ?thesis
  proof (cases "fst (rr_link_tree_add uv t peer server parent site) = RR_LINK_OK")
    case True
    then obtain t' where t': "rr_link_tree_add uv t peer server parent site = (RR_LINK_OK, t')" by (metis prod.collapse)
    then have "names_36 t'" using assms(3) valid_id_Some [OF assms(1)]
      by (cases rule: add_OK_cases) (fastforce simp: names_36_def)
    with Add t' show ?thesis by simp
  next
    case False
    with Add add_refused assms(3) show ?thesis by simp
  qed
next
  case (Remove peer server)
  with assms(2,3) show ?thesis by (auto simp: remove_exact names_36_def)
qed

lemma head_step:
  assumes "uuid_checker uv" "tree_inv t"
  shows "ln_server (hd (lt_nodes (link_step uv op t))) = ln_server (hd (lt_nodes t))"
proof (cases op)
  case (SetLocalSite site)
  with assms(2) show ?thesis by (cases "lt_nodes t") (auto simp: rr_link_tree_set_local_site_def tree_inv_def)
next
  case (Attach peer os)
  with assms(2) show ?thesis by (auto simp: rr_link_tree_attach_def tree_inv_def split: sum.splits)
next
  case (Add peer server parent site)
  with assms(2) show ?thesis by (auto simp: rr_link_tree_add_def tree_inv_def split: option.splits)
next
  case (Remove peer server)
  obtain l ms where ns: "lt_nodes t = l # ms" using assms(2) by (cases "lt_nodes t") (auto simp: tree_inv_def)
  let ?t = "snd (rr_link_tree_remove t peer server)"
  have t: "tree_inv ?t" by (rule remove_inv [OF assms(2)])
  have "hd (lt_nodes ?t) = l"
  proof (cases "removable t peer server")
    case True
    let ?P = "\<lambda>n. \<not> below (lt_nodes t) (the server) (ln_server n)"
    have e: "lt_nodes ?t = filter ?P (l # ms)" using True remove_exact [OF assms(2)] ns by simp
    show ?thesis
    proof (cases "?P l")
      case False
      then have "set (lt_nodes ?t) \<subseteq> set (tl (lt_nodes t))" using e ns by auto
      then have "ln_peer (hd (lt_nodes ?t)) \<noteq> []" using t assms(2) unfolding tree_inv_def by (meson hd_in_set subsetD)
      with t show ?thesis by (simp add: tree_inv_def)
    qed (use e in simp)
  next
    case False
    with remove_exact [OF assms(2)] ns show ?thesis by simp
  qed
  with Remove ns show ?thesis by simp
qed

lemma names_run:
  assumes "uuid_checker uv" "tree_inv t" "names_36 t"
  shows "tree_inv (link_run uv ops t) \<and> names_36 (link_run uv ops t) \<and>
    ln_server (hd (lt_nodes (link_run uv ops t))) = ln_server (hd (lt_nodes t))"
  using assms
proof (induction ops arbitrary: t)
  case (Cons op ops)
  have "tree_inv (link_step uv op t)" using link.step_inv [of uv t op] Cons.prems by simp
  with Cons.IH [of "link_step uv op t"] Cons.prems names_step [of uv t op] head_step [of uv t op]
  show ?case by (simp add: link_run_def)
qed (simp add: link_run_def)

text \<open>The environment whose routes come from the server's own link tree, after any operations on it.\<close>

definition linked_env :: "uuid_check \<Rightarrow> string \<Rightarrow> string \<Rightarrow> relay_env \<Rightarrow> bool" where
  "linked_env uv node domain env \<longleftrightarrow> re_node env = node \<and> re_domain env = domain \<and>
     re_uuid_valid env = (\<lambda>u. uv (Some u)) \<and>
     (\<exists>limit t ops. rr_link_tree_new uv (Some node) limit = Some t \<and>
        re_route env = (\<lambda>n. rr_link_tree_route (link_run uv ops t) (Some n)))"

definition uuid_syntax :: "uuid_check \<Rightarrow> bool" where
  "uuid_syntax uv \<longleftrightarrow> \<not> uv None \<and> (\<forall>u. uv (Some u) \<longrightarrow> uuid_shape u)"

lemma linked_env_ok:
  assumes "uuid_syntax uv" "linked_env uv node dn env"
  shows "env_ok node dn env"
proof -
  obtain limit t ops where t: "rr_link_tree_new uv (Some node) limit = Some t"
      "re_route env = (\<lambda>n. rr_link_tree_route (link_run uv ops t) (Some n))"
    using assms(2) by (auto simp: linked_env_def)
  have uv: "uuid_checker uv" using assms(1) by (auto simp: uuid_syntax_def uuid_checker_def uuid_shape_def)
  have t0: "t = \<lparr>lt_nodes = [\<lparr>ln_server = node, ln_parent = [], ln_peer = [], ln_site = []\<rparr>], lt_limit = limit\<rparr>"
      and v: "valid_id uv (Some node)"
    using t(1) by (auto simp: rr_link_tree_new_def split: if_splits)
  have n: "length node = 36" using valid_id_Some [OF uv v] by simp
  then have "names_36 t" using t0 by (simp add: names_36_def)
  with names_run [OF uv new_inv [OF t(1)]] t0 have r: "tree_inv (link_run uv ops t)" "names_36 (link_run uv ops t)"
      "ln_server (hd (lt_nodes (link_run uv ops t))) = node" by auto
  obtain l ms where ns: "lt_nodes (link_run uv ops t) = l # ms" using r(1)
    by (cases "lt_nodes (link_run uv ops t)") (auto simp: tree_inv_def)
  have "m \<noteq> node \<and> length m = 36" if "re_route env m \<noteq> None" for m
  proof -
    from that t(2) obtain x where x: "lt_find (link_run uv ops t) (Some m) = Some x" "ln_peer x \<noteq> []"
      by (auto simp: rr_link_tree_route_def split: option.splits if_splits)
    then have "x \<in> set (lt_nodes (link_run uv ops t)) \<and> ln_server x = m"
      unfolding lt_find_def using find_SomeD by fastforce
    moreover have "m \<noteq> node"
      using x r(1,3) ns by (auto simp: lt_find_def tree_inv_def)
    ultimately show ?thesis using r(2) by (auto simp: names_36_def)
  qed
  with assms n show ?thesis by (auto simp: env_ok_def linked_env_def uuid_syntax_def)
qed

section \<open>Who may change an entry\<close>

text \<open>The one way an entry of another owner gives way: a room claim displaced by a station with authority over the room.\<close>

definition displaced :: "relay_env \<Rightarrow> catalog list \<Rightarrow> string \<Rightarrow> dict \<Rightarrow> catalog \<Rightarrow> bool" where
  "displaced env cs owner d e \<longleftrightarrow> map_of d ''object.uuid'' = None \<and>
     (\<exists>room. map_of d ''catalog.room'' = Some room \<and> key_matches (room_key room) (ct_key e) \<and>
        owns_station_room cs owner room \<and> \<not> owns_station_room cs (ct_owner e) room \<and>
        \<not> strcaseeq room (re_site_room env) \<and> \<not> re_room_configured env room)"

lemma service_of_owner:
  assumes "service_of a key" "service_of b key" "length a = 36" "length b = 36"
  shows "a = b"
  using assms by (auto simp: service_of_def)

lemma service_not_room: "service_of owner key \<Longrightarrow> \<not> is_room key"
  by (cases key) (auto simp: service_of_def is_room_def)

lemma service_not_uuid:
  assumes "service_of owner key"
  shows "\<not> uuid_shape key"
proof
  assume u: "uuid_shape key"
  obtain t where "key = CHR ''s'' # t" using assms by (cases key) (auto simp: service_of_def)
  with u show False by (auto simp: uuid_shape_def is_hex_def is_digit_def chr_ord_def)
qed

lemma put_keeps_foreign:
  assumes "relay_inv c node dn L rl" "env_ok node dn env" "length owner = 36"
    and "put_outcome c env io owner d rl r rl'" "e \<in> set (rl_catalogs rl)" "ct_owner e \<noteq> owner"
  shows "e \<in> set (rl_catalogs rl') \<or> displaced env (rl_catalogs rl) owner d e"
  using assms(4)
proof cases
  case (put_updated key copy db1 db i)
  let ?cs = "rl_catalogs rl"
  have i: "i < length ?cs" "key_matches key (ct_key (?cs ! i))" using put_found_length [OF put_updated(6)] by auto
  show ?thesis
  proof (cases "e = ?cs ! i")
    case False
    with assms(5) obtain j where "j < length ?cs" "?cs ! j = e" "j \<noteq> i" by (metis in_set_conv_nth)
    then have "e \<in> set (store_entry (ct_owner (?cs ! i) \<noteq> owner) owner key copy i ?cs)"
      by (metis length_list_update nth_list_update_neq nth_mem store_entry_def)
    then show ?thesis using put_updated(2) by simp
  next
    case True
    then have may: "may_displace env ?cs owner d e" using put_updated(6) assms(6) by (simp add: put_found_def)
    have e: "key_shape (ct_owner e) (ct_key e)" "length (ct_owner e) = 36"
      using assms(1,5) by (auto simp: relay_inv_def entry_ok_def)
    note shape = admission_shape [OF put_updated(3) assms(3,2)]
    have "\<not> service_of owner key"
    proof
      assume s: "service_of owner key"
      then have "ct_key e = key" using i(2) True service_not_room by (auto simp: key_matches_room)
      with e(1) s have "service_of (ct_owner e) key"
        using service_not_room service_not_uuid by (auto simp: key_shape_def)
      with s e(2) assms(3,6) show False using service_of_owner by blast
    qed
    moreover have "map_of d ''object.uuid'' = None" using may by (simp add: may_displace_def)
    ultimately obtain room where "map_of d ''catalog.room'' = Some room" "key = room_key room" using shape by auto
    with may i(2) True show ?thesis by (auto simp: displaced_def may_displace_def)
  qed
qed (use assms(5) in simp_all)

lemma remove_keeps_foreign:
  assumes "e \<in> set (rl_catalogs rl)" "ct_owner e \<noteq> origin"
  shows "e \<in> set (rl_catalogs (fst (snd (receive_catalog_remove c env pio fio now origin d rl))))"
proof -
  have "e \<in> set (remove_at i (rl_catalogs rl))" if f: "find_idx (removal_matches origin d) (rl_catalogs rl) = Some i" for i
  proof -
    have i: "i < length (rl_catalogs rl)" "ct_owner (rl_catalogs rl ! i) = origin"
      using find_idx_SomeD [OF f] by (auto simp: removal_matches_def)
    then have "set (rl_catalogs rl) = insert (rl_catalogs rl ! i) (set (remove_at i (rl_catalogs rl)))"
      by (subst id_take_nth_drop [OF i(1)]) (auto simp: remove_at_def)
    with assms i(2) show ?thesis by auto
  qed
  with assms show ?thesis by (auto simp: receive_catalog_remove_def Let_def split: prod.splits bool.splits option.splits)
qed

section \<open>Properties\<close>

text \<open>
  C13. Whatever messages arrive over whatever links, the catalog stays sound: its counter is exact and
  at most 2048, no two entries have the same key (room names compared without case), and every entry
  of another server names its owner as signer with the key pinned for that owner and lies in the owner's name space: a node entry
  is the owner itself, a rig belongs to it, a service key starts with its identifier. Its signature verifies, unless its key is the
  identifier of one of the server's own rigs, \<open>locals\<close>: nothing keeps another server from publishing an object under such an identifier, and then
  \<open>collect_rig\<close> adds the fields of the rig to the entry of that server (\<open>own_rig_claimed\<close> below). Routes are those of the server's link tree.
\<close>

theorem relay_catalog_authority:
  fixes c :: "'k crypto"
  assumes "uuid_syntax uv" "\<forall>(env, ev) \<in> set run. linked_env uv node domain env \<and> event_ok locals ev"
    and "\<forall>u \<in> locals. uuid_shape u"
  shows "let rl = relay_run c run (empty_relay db j); cs = rl_catalogs rl in
    rl_count rl = length cs \<and> length cs \<le> 2048 \<and> distinct (map (fold_key \<circ> ct_key) cs) \<and>
    (\<forall>e \<in> set cs. ct_owner e \<noteq> node \<longrightarrow>
      (let d = ct_descriptor e; owner = ct_owner e in
        (ct_key e \<notin> locals \<longrightarrow> rr_identity_verify_catalog c d) \<and> dict_get d ''identity.owner'' '''' = owner \<and>
        strcaseeq (dict_get d ''identity.domain'' '''') domain \<and>
        db_pins (rl_identity rl) (map to_lower domain, owner) = Some (dict_get d ''identity.public-key'' '''') \<and>
        (map_of d ''object.uuid'' \<noteq> None \<longrightarrow> dict_get d ''object.type'' '''' = ''node'' \<longrightarrow> map_of d ''object.uuid'' = Some owner) \<and>
        (map_of d ''object.uuid'' \<noteq> None \<longrightarrow> dict_get d ''object.type'' '''' = ''rig'' \<longrightarrow> dict_get d ''object.owner'' '''' = owner) \<and>
        (map_of d ''catalog.service'' \<noteq> None \<longrightarrow> take 45 (ct_key e) = ''service:'' @ owner @ '':'')))"
proof -
  have "\<forall>(env, ev) \<in> set run. env_ok node domain env \<and> event_ok locals ev"
    using assms(1,2) linked_env_ok by fast
  from relay_run_inv [OF empty_relay_inv this] assms(3)
  have "relay_inv c node domain locals (relay_run c run (empty_relay db j))" by blast
  then show ?thesis
    by (auto simp: relay_inv_def entry_ok_def remote_entry_def service_of_def MAX_CATALOG_def Let_def)
qed

definition demo_uv :: uuid_check where
  "demo_uv u = (case u of None \<Rightarrow> False | Some s \<Rightarrow> uuid_shape s)"

definition demo_relay_links :: "link_op list" where
  "demo_relay_links = map (\<lambda>s. Attach (Some s) [\<lparr>of_server = Some s, of_parent = None, of_site = Some ''site''\<rparr>]) [replicate 36 CHR ''1'', replicate 36 CHR ''2'']"

definition demo_relay_env :: relay_env where
  "demo_relay_env = \<lparr>re_node = replicate 36 CHR ''0'', re_identity = \<lparr>id_key = None, id_public = None\<rparr>, re_domain = ''net'',
     re_uuid_valid = (\<lambda>u. demo_uv (Some u)), re_room_valid = (\<lambda>_. True), re_site_room = ''#site'', re_room_configured = (\<lambda>_. False),
     re_route = (\<lambda>n. rr_link_tree_route (link_run demo_uv demo_relay_links (the (rr_link_tree_new demo_uv (Some (replicate 36 CHR ''0'')) 5))) (Some n)),
     re_collecting = False, re_glib_uuid = (\<lambda>_. True), re_max_users = 10, re_user_len = 16, re_json = (\<lambda>_. [])\<rparr>"

definition demo_node_descriptor :: dict where
  "demo_node_descriptor = [(''object.uuid'', replicate 36 CHR ''1''), (''object.type'', ''node''),
     (''identity.signature'', replicate 88 CHR ''s''), (''identity.public-key'', replicate 44 CHR ''k''),
     (''identity.owner'', replicate 36 CHR ''1''), (''identity.domain'', ''net''), (''identity.scheme'', ''ed25519-catalog-v1''),
     (''identity.operation'', ''catalog-upsert''), (''identity.revision'', ''1'')]"

definition demo_lengths :: "string crypto" where
  "demo_lengths = demo_crypto\<lparr>base64_decode := (\<lambda>s. take (if length s = 44 then 32 else 64) s), ed25519_verify := (\<lambda>k m s. k \<noteq> [])\<rparr>"

definition demo_put_io :: put_io where
  "demo_put_io = \<lparr>pi_clone = True, pi_alloc = True, pi_local = demo_io, pi_pin = demo_io, pi_accept = demo_io, pi_room_gone = True\<rparr>"

definition demo_relay_run :: "(relay_env \<times> relay_event) list" where
  "demo_relay_run = [(demo_relay_env, Catalog_message demo_put_io (replicate 36 CHR ''1'') demo_node_descriptor)]"

definition demo_entry :: catalog where
  "demo_entry = \<lparr>ct_owner = replicate 36 CHR ''1'', ct_key = replicate 36 CHR ''1'', ct_descriptor = demo_node_descriptor, ct_seen = True\<rparr>"

definition demo_relay_start :: relay where
  "demo_relay_start = empty_relay empty_db \<lparr>mj_issued = (\<lambda>_. None), mj_last_prune = 0\<rparr>"

lemma demo_relay_routes: "re_route demo_relay_env (replicate 36 CHR ''1'') = Some (replicate 36 CHR ''1'')"
  by code_simp

lemma demo_relay:
  "rl_catalogs (relay_run demo_lengths demo_relay_run demo_relay_start) = [demo_entry]"
  by code_simp

lemma demo_uuid_syntax: "uuid_syntax demo_uv"
  by (simp add: uuid_syntax_def demo_uv_def)

lemma demo_linked: "linked_env demo_uv (replicate 36 CHR ''0'') ''net'' demo_relay_env"
proof -
  have "rr_link_tree_new demo_uv (Some (replicate 36 CHR ''0'')) 5 =
      Some (the (rr_link_tree_new demo_uv (Some (replicate 36 CHR ''0'')) 5))" by code_simp
  then show ?thesis unfolding linked_env_def demo_relay_env_def by auto
qed

lemma demo_relay_ok:
  "\<forall>(env, ev) \<in> set demo_relay_run. linked_env demo_uv (replicate 36 CHR ''0'') ''net'' env \<and> event_ok {} ev"
  by (simp add: demo_relay_run_def demo_linked)

lemma relay_catalog_authority_witness:
  "let rl = relay_run demo_lengths demo_relay_run demo_relay_start in
     length (rl_catalogs rl) = 1 \<and> rl_count rl = 1 \<and> rr_identity_verify_catalog demo_lengths (ct_descriptor demo_entry)"
proof -
  have "ct_owner demo_entry \<noteq> replicate 36 CHR ''0''" by (simp add: demo_entry_def)
  then show ?thesis
    using relay_catalog_authority [OF demo_uuid_syntax demo_relay_ok, of demo_lengths empty_db "\<lparr>mj_issued = (\<lambda>_. None), mj_last_prune = 0\<rparr>"]
      demo_relay by (simp add: Let_def demo_relay_start_def)
qed

text \<open>
  The exception is real. Another server publishes a rig of its own under the identifier of a rig of this server, before that
  rig is collected: the put of the rig itself is refused, \<open>collect_rig\<close> finds the foreign entry and adds its fields to it, and
  the signature of that entry does not hold any more.
\<close>

definition strict_crypto :: "string crypto" where
  "strict_crypto = demo_lengths\<lparr>ed25519_verify := (\<lambda>k m s. CHR ''!'' \<notin> set m)\<rparr>"

definition claimed_rig :: string where
  "claimed_rig = replicate 36 CHR ''a''"

definition claiming_descriptor :: dict where
  "claiming_descriptor = AList.update ''object.uuid'' claimed_rig (AList.update ''object.type'' ''rig''
     (AList.update ''object.owner'' (replicate 36 CHR ''1'') demo_node_descriptor))"

definition demo_own_rig :: "put_io \<times> dict \<times> rig_fields option" where
  "demo_own_rig = (demo_put_io, [(''object.uuid'', claimed_rig), (''object.type'', ''rig''), (''object.owner'', replicate 36 CHR ''0'')],
     Some \<lparr>rf_backend = ''dummy'', rf_name = ''!'', rf_location = None, rf_model = None\<rparr>)"

lemma own_rig_claimed:
  "let before = relay_run strict_crypto [(demo_relay_env, Catalog_message demo_put_io (replicate 36 CHR ''1'') claiming_descriptor)] demo_relay_start;
       after = relay_run strict_crypto [(demo_relay_env, Refresh demo_io [demo_own_rig])] before in
     map (\<lambda>e. (ct_owner e, ct_key e, rr_identity_verify_catalog strict_crypto (ct_descriptor e))) (rl_catalogs before) = [(replicate 36 CHR ''1'', claimed_rig, True)] \<and>
     map (\<lambda>e. (ct_owner e, ct_key e, rr_identity_verify_catalog strict_crypto (ct_descriptor e))) (rl_catalogs after) = [(replicate 36 CHR ''1'', claimed_rig, False)]"
  by code_simp

text \<open>
  C14. Only its owner changes an entry. In every reachable state, a descriptor or a removal from one
  server leaves every entry of every other server as it was, with one exception: a room claim gives
  way to a server whose own node or rig has the room while the claimant's have not, and never the
  site's own room or a configured one.
\<close>

theorem relay_foreign_entries_kept:
  fixes c :: "'k crypto"
  assumes "uuid_syntax uv" "\<forall>(env, ev) \<in> set run. linked_env uv node domain env \<and> event_ok locals ev"
    and "\<forall>u \<in> locals. uuid_shape u" "linked_env uv node domain env"
    and "e \<in> set (rl_catalogs (relay_run c run (empty_relay db j)))" "ct_owner e \<noteq> origin"
  shows "let rl = relay_run c run (empty_relay db j) in
    (e \<in> set (rl_catalogs (relay_step c env (Catalog_message io origin d) rl)) \<or> displaced env (rl_catalogs rl) origin d e) \<and>
    e \<in> set (rl_catalogs (relay_step c env (Remove_message pio fio now origin d) rl))"
proof -
  have "\<forall>(env, ev) \<in> set run. env_ok node domain env \<and> event_ok locals ev"
    using assms(1,2) linked_env_ok by fast
  from relay_run_inv [OF empty_relay_inv this] assms(3)
  have inv: "relay_inv c node domain locals (relay_run c run (empty_relay db j))" by blast
  let ?rl = "relay_run c run (empty_relay db j)"
  have env: "env_ok node domain env" by (rule linked_env_ok [OF assms(1,4)])
  have put: "e \<in> set (rl_catalogs (rr_relay_catalog_put c env io origin d ?rl)) \<or> displaced env (rl_catalogs ?rl) origin d e"
    if "re_route env origin \<noteq> None"
  proof -
    obtain r rl' out where p: "rr_relay_catalog_put_reason c env io origin d ?rl = (r, rl', out)" by (metis prod_cases3)
    have "length origin = 36" using env that by (auto simp: env_ok_def)
    from put_keeps_foreign [OF inv env this put_outcomeI [OF p] assms(5,6)] p
    show ?thesis by (simp add: rr_relay_catalog_put_def)
  qed
  show ?thesis using assms(5) remove_keeps_foreign [OF assms(5,6), of c] put
    by (cases "re_route env origin = None") (simp_all add: Let_def receive_catalog_state)
qed

lemma relay_foreign_entries_kept_witness:
  "demo_entry \<in> set (rl_catalogs (relay_step demo_lengths demo_relay_env
     (Catalog_message demo_put_io (replicate 36 CHR ''2'') demo_node_descriptor) (relay_run demo_lengths demo_relay_run demo_relay_start)))"
proof -
  have "ct_owner demo_entry \<noteq> replicate 36 CHR ''2''" by (simp add: demo_entry_def)
  moreover have "\<not> displaced env cs owner demo_node_descriptor e" for env cs owner e
    by (simp add: displaced_def demo_node_descriptor_def)
  ultimately show ?thesis
    using relay_foreign_entries_kept [OF demo_uuid_syntax demo_relay_ok _ demo_linked, of demo_entry demo_lengths empty_db
        "\<lparr>mj_issued = (\<lambda>_. None), mj_last_prune = 0\<rparr>" "replicate 36 CHR ''2''" demo_put_io demo_node_descriptor]
      demo_relay by (simp add: Let_def demo_relay_start_def)
qed

end
