(* ===== verification/Base64.thy ===== *)
theory Base64
  imports Prelude
begin

text \<open>
  Base64 as \<open>g_base64_encode\<close> and \<open>g_base64_decode\<close> have it on strings of bytes: the standard
  alphabet, three bytes to four characters, the last group padded. The components take the
  library as a parameter and rely only on \<open>base64_code\<close>; here it is shown to hold of the real code.
\<close>

definition base64_alphabet :: string where
  "base64_alphabet = ''ABCDEFGHIJKLMNOPQRSTUVWXYZabcdefghijklmnopqrstuvwxyz0123456789+/''"

definition to64 :: "nat \<Rightarrow> char" where
  "to64 n = base64_alphabet ! n"

definition from64 :: "char \<Rightarrow> nat" where
  "from64 ch = (case find_idx (\<lambda>x. x = ch) base64_alphabet of None \<Rightarrow> 0 | Some i \<Rightarrow> i)"

definition base64_char :: "char \<Rightarrow> bool" where
  "base64_char ch \<longleftrightarrow> is_alnum ch \<or> ch \<in> set ''+/=''"

text \<open>The four sextets of three bytes, and back.\<close>

definition q1 :: "nat \<Rightarrow> nat" where "q1 a = a div 4"
definition q2 :: "nat \<Rightarrow> nat \<Rightarrow> nat" where "q2 a b = a mod 4 * 16 + b div 16"
definition q3 :: "nat \<Rightarrow> nat \<Rightarrow> nat" where "q3 b c = b mod 16 * 4 + c div 64"
definition q4 :: "nat \<Rightarrow> nat" where "q4 c = c mod 64"
definition o1 :: "nat \<Rightarrow> nat \<Rightarrow> nat" where "o1 w x = w * 4 + x div 16"
definition o2 :: "nat \<Rightarrow> nat \<Rightarrow> nat" where "o2 x y = x mod 16 * 16 + y div 4"
definition o3 :: "nat \<Rightarrow> nat \<Rightarrow> nat" where "o3 y z = y mod 4 * 64 + z"

fun b64_encode :: "string \<Rightarrow> string" where
  "b64_encode [] = []"
| "b64_encode [a] = [to64 (q1 (chr_ord a)), to64 (q2 (chr_ord a) 0), CHR ''='', CHR ''='']"
| "b64_encode [a, b] = [to64 (q1 (chr_ord a)), to64 (q2 (chr_ord a) (chr_ord b)), to64 (q3 (chr_ord b) 0), CHR ''='']"
| "b64_encode (a # b # c # r) =
     [to64 (q1 (chr_ord a)), to64 (q2 (chr_ord a) (chr_ord b)), to64 (q3 (chr_ord b) (chr_ord c)), to64 (q4 (chr_ord c))] @
     b64_encode r"

fun b64_decode :: "string \<Rightarrow> string" where
  "b64_decode (w # x # y # z # r) =
     (let a = char_of (o1 (from64 w) (from64 x)); b = char_of (o2 (from64 x) (from64 y)); c = char_of (o3 (from64 y) (from64 z)) in
      (if y = CHR ''='' then [a] else if z = CHR ''='' then [a, b] else [a, b, c]) @ b64_decode r)"
| "b64_decode _ = []"

definition base64_code :: "(string \<Rightarrow> string) \<Rightarrow> (string \<Rightarrow> string) \<Rightarrow> bool" where
  "base64_code enc dec \<longleftrightarrow> (\<forall>b. dec (enc b) = b \<and> length (enc b) = (length b + 2) div 3 * 4 \<and> list_all base64_char (enc b))"

lemma alphabet_distinct: "distinct base64_alphabet" and alphabet_length [simp]: "length base64_alphabet = 64"
  and alphabet_chars: "list_all (\<lambda>ch. base64_char ch \<and> ch \<noteq> CHR ''='') base64_alphabet"
  by code_simp+

lemma from_to64 [simp]: "n < 64 \<Longrightarrow> from64 (to64 n) = n"
  using find_idx_distinct [of "\<lambda>x. x" base64_alphabet n] alphabet_distinct by (simp add: from64_def to64_def)

lemma to64_char [simp]: "n < 64 \<Longrightarrow> base64_char (to64 n)" "n < 64 \<Longrightarrow> to64 n \<noteq> CHR ''=''"
  using alphabet_chars by (auto simp: to64_def list_all_length)

lemma ord_byte: "chr_ord a < 256"
  by (simp add: chr_ord_def)

lemma sextets:
  assumes "a < 256" "b < 256"
  shows "q1 a < 64" "q2 a b < 64" "q3 a b < 64" "q4 a < 64"
proof -
  have "a div 4 < 64" "b div 16 < 16" "b div 64 < 4" using assms by (simp_all add: div_less_iff_less_mult)
  moreover have "a mod 4 < 4" "a mod 16 < 16" "a mod 64 < 64" by simp_all
  ultimately show "q1 a < 64" "q2 a b < 64" "q3 a b < 64" "q4 a < 64"
    unfolding q1_def q2_def q3_def q4_def by linarith+
qed

lemmas sextets_chr [simp] = sextets(1) [OF ord_byte ord_byte] sextets(2) [OF ord_byte ord_byte] sextets(3) [OF ord_byte ord_byte]
  sextets(4) [OF ord_byte ord_byte] sextets(2) [OF ord_byte, of 0, simplified] sextets(3) [OF ord_byte, of 0, simplified]

lemma char_of_ord [simp]: "char_of (chr_ord a) = a"
  by (simp add: chr_ord_def)

lemma octets:
  assumes "a < 256" "b < 256" "c < 256"
  shows "o1 (q1 a) (q2 a b) = a" "o2 (q2 a b) (q3 b c) = b" "o3 (q3 b c) (q4 c) = c"
proof -
  have high: "(x * m + y) div m = x" and low: "(x * m + y) mod m = y" if "y < m" for x y m :: nat
    using that by simp_all
  have s: "b div 16 < 16" "c div 64 < 4" using assms by (simp_all add: div_less_iff_less_mult)
  then show "o1 (q1 a) (q2 a b) = a" "o2 (q2 a b) (q3 b c) = b" "o3 (q3 b c) (q4 c) = c"
    unfolding q1_def q2_def q3_def q4_def o1_def o2_def o3_def
    by (simp_all only: high [OF s(1)] low [OF s(1)] high [OF s(2)] low [OF s(2)] div_mult_mod_eq)
qed

lemmas octets_chr [simp] = octets(1) [OF ord_byte ord_byte ord_byte] octets(2) [OF ord_byte ord_byte ord_byte]
  octets(3) [OF ord_byte ord_byte ord_byte] octets(1) [OF ord_byte, of 0 0, simplified] octets(2) [OF ord_byte ord_byte, of 0, simplified]

lemma b64_decode_encode [simp]: "b64_decode (b64_encode s) = s"
  by (induction s rule: b64_encode.induct) (simp_all add: Let_def)

lemma b64_length: "length (b64_encode s) = (length s + 2) div 3 * 4"
proof (induction s rule: b64_encode.induct)
  case (4 a b c r)
  have "(length (a # b # c # r) + 2) div 3 = Suc ((length r + 2) div 3)" by simp
  with 4 show ?case by simp
qed simp_all

lemma b64_chars: "list_all base64_char (b64_encode s)"
  by (induction s rule: b64_encode.induct) (simp_all add: base64_char_def [of "CHR ''=''"])

lemma base64_code_real: "base64_code b64_encode b64_decode"
  by (simp add: base64_code_def b64_length b64_chars del: b64_encode.simps)

end
