(* ===== verification/RelayMedia.thy ===== *)
theory RelayMedia
  imports Identity Base64 "HOL-Library.Sublist"
begin

text \<open>
  Media over the relay (\<^verbatim>\<open>rrserver/relay.media.c\<close>): the table that gives every remote channel of a
  client a stream number of its own, and the frames cut into fragments for a link and put together
  again behind it.

  \<open>media_state\<close> is the module's list of maps with its counter and the frame counter. A connection
  is its number, a frame a string of bytes. \<open>media_env\<close> is what the code asks of the protocol
  library: room membership, the frame header, the dictionary's numbers and flags, and its constants
  for audio and for the transmit direction. Times are \<open>mono_us()\<close>, 64 bits wide.
\<close>

section \<open>State\<close>

definition MAX_RELAY_MEDIA :: nat where "MAX_RELAY_MEDIA = 512"
definition RELAY_MEDIA_CHUNK :: nat where "RELAY_MEDIA_CHUNK = 4000"

record relay_media =
  rm_client :: nat
  rm_owner :: string
  rm_uuid :: string
  rm_room :: string
  rm_stream :: nat
  rm_owner_stream :: nat
  rm_direction :: nat
  rm_subsystem :: nat
  rm_subscribed :: bool
  rm_setup :: bool
  rm_home :: bool
  rm_frame :: "string option"
  rm_size :: nat
  rm_received :: nat
  rm_sequence :: "32 word"
  rm_started :: "64 word"

record media_state =
  ms_maps :: "relay_media list"
  ms_count :: nat
  ms_sequence :: "32 word"

record binframe =
  bf_subsystem :: nat
  bf_direction :: nat
  bf_stream :: nat
  bf_len :: nat

record media_env =
  me_in_room :: "nat \<Rightarrow> string \<Rightarrow> bool"
  me_parse :: "string \<Rightarrow> binframe option"
  me_get_ulong :: "dict \<Rightarrow> string \<Rightarrow> nat \<Rightarrow> nat"
  me_show_ulong :: "nat \<Rightarrow> string"
  me_get_bool :: "dict \<Rightarrow> string \<Rightarrow> bool \<Rightarrow> bool"
  me_show_bool :: "bool \<Rightarrow> string"
  me_audio :: nat
  me_dir_tx :: nat
  me_dir_na :: nat

section \<open>The table of streams\<close>

definition map_for :: "nat \<Rightarrow> string \<Rightarrow> relay_media \<Rightarrow> bool" where
  "map_for client uuid m \<longleftrightarrow> rm_client m = client \<and> rm_uuid m = uuid"

definition stream_used :: "nat \<Rightarrow> relay_media list \<Rightarrow> nat \<Rightarrow> bool" where
  "stream_used client ms stream \<longleftrightarrow> list_ex (\<lambda>p. rm_client p = client \<and> rm_stream p = stream) ms"

definition relay_streams :: "nat list" where "relay_streams = [128..<256]"

definition new_media :: "nat \<Rightarrow> string \<Rightarrow> nat \<Rightarrow> relay_media" where
  "new_media client uuid stream = \<lparr>rm_client = client, rm_owner = [], rm_uuid = snprintf_s 64 uuid, rm_room = [],
     rm_stream = stream, rm_owner_stream = 0, rm_direction = 0, rm_subsystem = 0, rm_subscribed = False, rm_setup = False,
     rm_home = False, rm_frame = None, rm_size = 0, rm_received = 0, rm_sequence = 0, rm_started = 0\<rparr>"

text \<open>The index of the map, if there is one now. \<open>alloc\<close> says whether the allocation succeeds.\<close>

definition rr_relay_media_map :: "bool \<Rightarrow> nat \<Rightarrow> string \<Rightarrow> bool \<Rightarrow> media_state \<Rightarrow> nat option \<times> media_state" where
  "rr_relay_media_map alloc client uuid create st =
     (case find_idx (map_for client uuid) (ms_maps st) of
        Some i \<Rightarrow> (Some i, st)
      | None \<Rightarrow>
          (if \<not> create \<or> ms_count st = MAX_RELAY_MEDIA \<or> uuid = [] \<or> 64 \<le> length uuid then (None, st)
           else if \<not> alloc then (None, st)
           else case List.find (\<lambda>stream. \<not> stream_used client (ms_maps st) stream) relay_streams of
             None \<Rightarrow> (None, st)
           | Some stream \<Rightarrow> (Some 0, st\<lparr>ms_maps := new_media client uuid stream # ms_maps st, ms_count := ms_count st + 1\<rparr>)))"

definition rrserver_relay_media_valid :: "media_env \<Rightarrow> nat \<Rightarrow> string \<Rightarrow> nat \<Rightarrow> media_state \<Rightarrow> bool" where
  "rrserver_relay_media_valid env client uuid stream st =
     (case fst (rr_relay_media_map True client uuid False st) of
        None \<Rightarrow> False
      | Some i \<Rightarrow> let m = ms_maps st ! i in
          rm_subsystem m = me_audio env \<and> rm_home m \<and> rm_subscribed m \<and> rm_stream m = stream \<and> me_in_room env client (rm_room m))"

definition forgotten :: "nat option \<Rightarrow> cstr \<Rightarrow> cstr \<Rightarrow> relay_media \<Rightarrow> bool" where
  "forgotten client owner room m \<longleftrightarrow>
     (client = None \<or> client = Some (rm_client m)) \<and> (owner = None \<or> owner = Some (rm_owner m)) \<and>
     (room = None \<or> room = Some (rm_room m))"

text \<open>The maps left, and the channel removals sent: the client and the channel's identifier.\<close>

definition rr_relay_media_forget :: "nat option \<Rightarrow> cstr \<Rightarrow> cstr \<Rightarrow> media_state \<Rightarrow> media_state \<times> (nat \<times> string) list" where
  "rr_relay_media_forget client owner room st =
     (let gone = filter (forgotten client owner room) (ms_maps st) in
      (st\<lparr>ms_maps := filter (\<lambda>m. \<not> forgotten client owner room m) (ms_maps st), ms_count := ms_count st - length gone\<rparr>,
       map (\<lambda>m. (rm_client m, rm_uuid m)) (filter rm_subscribed gone)))"

section \<open>Cutting a frame\<close>

definition media_message :: "'k crypto \<Rightarrow> media_env \<Rightarrow> nat \<Rightarrow> string \<Rightarrow> string \<Rightarrow> bool \<Rightarrow> nat \<Rightarrow> 32 word \<Rightarrow> nat \<Rightarrow> string \<Rightarrow> dict" where
  "media_message c env now uuid room setup len sequence offset bytes =
     fold (\<lambda>(k, v). AList.update k v)
       [(''msg.type'', ''media''), (''media.cmd'', ''frame''), (''media.chan-uuid'', uuid), (''media.room'', room),
        (''media.setup'', me_show_bool env setup), (''media.data'', base64_encode c bytes),
        (''media.fragment'', me_show_ulong env offset), (''media.total'', me_show_ulong env len),
        (''media.frame-seq'', me_show_ulong env (unat sequence)), (''relay.deadline'', me_show_ulong env (now + 2))] []"

text \<open>The loop over the offsets; \<open>send\<close> is \<open>rr_relay_packet\<close> on this message. The messages sent, and whether all were.\<close>

function media_loop :: "(nat \<Rightarrow> string \<Rightarrow> dict) \<Rightarrow> (dict \<Rightarrow> bool) \<Rightarrow> string \<Rightarrow> nat \<Rightarrow> bool \<times> dict list" where
  "media_loop message send data offset =
     (if length data \<le> offset then (True, [])
      else let size = min (length data - offset) RELAY_MEDIA_CHUNK;
               d = message offset (take size (drop offset data)) in
        if \<not> send d then (False, [])
        else case media_loop message send data (offset + RELAY_MEDIA_CHUNK) of (ok, ds) \<Rightarrow> (ok, d # ds))"
  by pat_completeness auto
termination
  by (relation "measure (\<lambda>(message, send, data, offset). length data - offset)") (auto simp: RELAY_MEDIA_CHUNK_def)

declare media_loop.simps [simp del]

definition media_packet ::
  "'k crypto \<Rightarrow> media_env \<Rightarrow> nat \<Rightarrow> (dict \<Rightarrow> bool) \<Rightarrow> string \<Rightarrow> string \<Rightarrow> string \<Rightarrow> bool \<Rightarrow> media_state \<Rightarrow> bool \<times> media_state \<times> dict list" where
  "media_packet c env now send uuid room data setup st =
     (if data = [] \<or> 65535 < length data then (False, st, [])
      else let sequence = ms_sequence st + 1;
               (ok, ds) = media_loop (media_message c env now uuid room setup (length data) sequence) send data 0
           in (ok, st\<lparr>ms_sequence := sequence\<rparr>, ds))"

section \<open>Putting it together\<close>

definition media_window :: "bool \<Rightarrow> 64 word" where
  "media_window setup = (if setup then 1000000 else 100000)"

text \<open>
  \<open>t1\<close> and \<open>t2\<close> are the two readings of the clock, \<open>block\<close> what \<open>malloc\<close> returned: its bytes
  are unspecified.
\<close>

definition start_frame :: "media_env \<Rightarrow> 64 word \<Rightarrow> (nat \<Rightarrow> char) option \<Rightarrow> dict \<Rightarrow> nat \<Rightarrow> 32 word \<Rightarrow> relay_media \<Rightarrow> relay_media" where
  "start_frame env t1 block d whole sequence m =
     m\<lparr>rm_frame := map_option (\<lambda>f. map f [0..<whole]) block, rm_size := whole, rm_received := 0, rm_sequence := sequence,
       rm_started := t1, rm_setup := me_get_bool env d ''media.setup'' False\<rparr>"

definition rr_relay_media_reassemble ::
  "'k crypto \<Rightarrow> media_env \<Rightarrow> 64 word \<Rightarrow> 64 word \<Rightarrow> (nat \<Rightarrow> char) option \<Rightarrow> dict \<Rightarrow> relay_media \<Rightarrow> bool \<times> relay_media" where
  "rr_relay_media_reassemble c env t1 t2 block d m =
     (let whole = me_get_ulong env d ''media.total'' 0; offset = me_get_ulong env d ''media.fragment'' 65536;
          sequence = word_of_nat (me_get_ulong env d ''media.frame-seq'' 0);
          encoded = dict_get d ''media.data'' '''' in
      if whole = 0 \<or> 65535 < whole \<or> whole \<le> offset \<or> offset mod RELAY_MEDIA_CHUNK \<noteq> 0 \<or>
         (RELAY_MEDIA_CHUNK + 2) div 3 * 4 < length encoded \<or> length encoded mod 4 \<noteq> 0 \<or> \<not> list_all base64_char encoded
      then (False, m)
      else let bytes = base64_decode c encoded in
        if length bytes \<noteq> min (whole - offset) RELAY_MEDIA_CHUNK then (False, m)
        else let m = (if offset = 0 then start_frame env t1 block d whole sequence m else m) in
          case rm_frame m of
            None \<Rightarrow> (False, m)
          | Some data \<Rightarrow>
              if rm_size m \<noteq> whole \<or> rm_sequence m \<noteq> sequence \<or> offset \<noteq> rm_received m \<or>
                 rm_setup m \<noteq> me_get_bool env d ''media.setup'' False \<or> media_window (rm_setup m) < t2 - rm_started m
              then (False, m)
              else let m = m\<lparr>rm_frame := Some (take offset data @ bytes @ drop (offset + length bytes) data),
                             rm_received := rm_received m + length bytes\<rparr>
                   in (rm_received m = whole, m))"

text \<open>Expiry of an unfinished frame (\<open>rrserver_relay_poll\<close>).\<close>

definition expire_media :: "64 word \<Rightarrow> relay_media \<Rightarrow> relay_media" where
  "expire_media t m = (if rm_frame m \<noteq> None \<and> media_window (rm_setup m) < t - rm_started m then m\<lparr>rm_frame := None\<rparr> else m)"

section \<open>A client's own frames\<close>

text \<open>
  A frame a local client sends on a mapped stream (\<open>rr_relay_media_incoming\<close>): whether it is
  handled here, the call's result, and the messages sent to the owner. \<open>has_user\<close> and \<open>known\<close> say
  whether the client is logged in and has relay state.
\<close>

definition rr_relay_media_incoming ::
  "'k crypto \<Rightarrow> media_env \<Rightarrow> nat \<Rightarrow> (dict \<Rightarrow> bool) \<Rightarrow> bool \<Rightarrow> bool \<Rightarrow> bool \<Rightarrow> nat \<Rightarrow> string \<Rightarrow> bool \<Rightarrow> media_state \<Rightarrow>
     bool \<times> bool \<times> media_state \<times> dict list" where
  "rr_relay_media_incoming c env now send applying has_user known client data setup st =
     (if applying then (False, False, st, [])
      else case me_parse env data of
        None \<Rightarrow> (False, False, st, [])
      | Some header \<Rightarrow>
          (case find_idx (\<lambda>m. rm_client m = client \<and> rm_stream m = bf_stream header) (ms_maps st) of
             None \<Rightarrow> (False, False, st, [])
           | Some i \<Rightarrow>
               (let m = ms_maps st ! i in
                if \<not> rm_subscribed m \<or> rm_direction m \<noteq> me_dir_tx env \<or> \<not> me_in_room env client (rm_room m) \<or> \<not> has_user
                then (True, False, st, [])
                else if \<not> known then (True, False, st, [])
                else case media_packet c env now send (rm_uuid m) (rm_room m) (data[11 := char_of (rm_owner_stream m)]) setup st of
                  (ok, st', ds) \<Rightarrow> (True, ok, st', ds))))"

section \<open>Replies and requests about media\<close>

datatype media_out = Deliver dict | Binary string

text \<open>
  A media reply from \<open>origin\<close> for a local client (\<open>receive\<close>, \<^verbatim>\<open>rrserver/relay.c\<close>). \<open>authority\<close>
  gives the owner of a room in the catalog, \<open>grant\<close> what the RTP referral adds to a reply, \<open>queue\<close>
  the bytes waiting for the client if it can take binary messages.
\<close>

definition available_media :: "media_env \<Rightarrow> string \<Rightarrow> dict \<Rightarrow> relay_media \<Rightarrow> relay_media" where
  "available_media env origin d m = m\<lparr>rm_owner := snprintf_s 37 origin, rm_room := snprintf_s 128 (dict_get d ''media.room'' ''''),
     rm_direction := me_get_ulong env d ''media.dir'' (me_dir_na env) mod 256, rm_subsystem := me_get_ulong env d ''media.subsys'' 0 mod 256\<rparr>"

definition subscribed_reply :: "media_env \<Rightarrow> (dict \<Rightarrow> dict) \<Rightarrow> relay_media \<Rightarrow> dict \<Rightarrow> dict" where
  "subscribed_reply env grant m d =
     (let d = AList.update ''media.stream'' (me_show_ulong env (rm_stream m))
                (AList.update ''media.owner-stream'' (me_show_ulong env (rm_owner_stream m)) d)
      in if rm_home m then grant (AList.update ''media.transport'' ''ws'' (dict_dels [''media.direct'', ''media.direct-candidates'',
           ''media.direct-key'', ''media.direct-ssrc'', ''media.direct-security''] d)) else d)"

definition frame_reply ::
  "'k crypto \<Rightarrow> media_env \<Rightarrow> 64 word \<Rightarrow> 64 word \<Rightarrow> (nat \<Rightarrow> char) option \<Rightarrow> nat option \<Rightarrow> dict \<Rightarrow> relay_media \<Rightarrow> relay_media \<times> media_out list" where
  "frame_reply c env t1 t2 block queue d m =
     (if \<not> rm_subscribed m then (m, [])
      else case rr_relay_media_reassemble c env t1 t2 block d m of
        (False, m') \<Rightarrow> (m', [])
      | (True, m') \<Rightarrow>
          (let data = the (rm_frame m'); limit = (if rm_setup m' then 262144 else 8192) in
           (m'\<lparr>rm_frame := None\<rparr>,
            case (me_parse env data, queue) of
              (Some header, Some queued) \<Rightarrow>
                if bf_stream header = rm_owner_stream m' \<and> rm_size m' \<le> limit \<and> queued \<le> limit - rm_size m'
                then [Binary (data[11 := char_of (rm_stream m')])] else []
            | _ \<Rightarrow> [])))"

definition receive_media ::
  "'k crypto \<Rightarrow> media_env \<Rightarrow> (string \<Rightarrow> cstr) \<Rightarrow> (dict \<Rightarrow> dict) \<Rightarrow> nat option \<Rightarrow> bool \<Rightarrow> 64 word \<Rightarrow> 64 word \<Rightarrow> (nat \<Rightarrow> char) option \<Rightarrow>
     string \<Rightarrow> nat \<Rightarrow> dict \<Rightarrow> media_state \<Rightarrow> media_state \<times> media_out list" where
  "receive_media c env authority grant queue alloc t1 t2 block origin client d st =
     (let cmd = dict_get d ''media.cmd'' '''' in
      case rr_relay_media_map alloc client (dict_get d ''media.chan-uuid'' '''') (cmd = ''available'') st of
        (None, st) \<Rightarrow> (st, [])
      | (Some i, st) \<Rightarrow>
          (let m = ms_maps st ! i; put = (\<lambda>m. st\<lparr>ms_maps := (ms_maps st)[i := m]\<rparr>); room = dict_get d ''media.room'' '''' in
           if cmd = ''available''
           then (if authority room \<noteq> Some origin \<or> \<not> me_in_room env client room then (st, [])
                 else (put (available_media env origin d m), [Deliver d]))
           else if rm_owner m \<noteq> origin \<or> \<not> me_in_room env client (rm_room m) then (st, [])
           else if cmd = ''subscribed''
           then (let m = m\<lparr>rm_owner_stream := me_get_ulong env d ''media.stream'' 0 mod 256, rm_subscribed := True\<rparr>
                 in (put m, [Deliver (subscribed_reply env grant m d)]))
           else if cmd = ''unsubscribed'' \<or> cmd = ''chan-remove'' then (put (m\<lparr>rm_subscribed := False\<rparr>), [Deliver d])
           else if cmd = ''frame'' then (case frame_reply c env t1 t2 block queue d m of (m, out) \<Rightarrow> (put m, out))
           else (st, [Deliver d])))"

text \<open>
  A fragment from a remote user for the channel \<open>uuid\<close> with stream number \<open>stream\<close>, after its
  admission (\<open>rr_relay_execute\<close>, \<^verbatim>\<open>rrserver/relay.sessions.c\<close>): the frame handed to the channel.
\<close>

definition execute_fragment ::
  "'k crypto \<Rightarrow> media_env \<Rightarrow> bool \<Rightarrow> 64 word \<Rightarrow> 64 word \<Rightarrow> (nat \<Rightarrow> char) option \<Rightarrow> nat \<Rightarrow> string \<Rightarrow> nat \<Rightarrow> dict \<Rightarrow> media_state \<Rightarrow>
     media_state \<times> string option" where
  "execute_fragment c env alloc t1 t2 block session uuid stream d st =
     (case rr_relay_media_map alloc session uuid True st of
        (None, st) \<Rightarrow> (st, None)
      | (Some i, st) \<Rightarrow>
          (case rr_relay_media_reassemble c env t1 t2 block d (ms_maps st ! i) of
             (False, m) \<Rightarrow> (st\<lparr>ms_maps := (ms_maps st)[i := m]\<rparr>, None)
           | (True, m) \<Rightarrow>
               (st\<lparr>ms_maps := (ms_maps st)[i := m\<lparr>rm_frame := None\<rparr>]\<rparr>,
                case me_parse env (the (rm_frame m)) of
                  Some header \<Rightarrow> if bf_stream header = stream then rm_frame m else None
                | None \<Rightarrow> None)))"

section \<open>One fragment after the other\<close>

text \<open>What the library's numbers and flags promise: what was added is read back.\<close>

definition numbers_ok :: "media_env \<Rightarrow> bool" where
  "numbers_ok env \<longleftrightarrow>
     (\<forall>d k n v. map_of d k = Some (me_show_ulong env n) \<longrightarrow> n < 2 ^ 64 \<longrightarrow> me_get_ulong env d k v = n) \<and>
     (\<forall>d k b v. map_of d k = Some (me_show_bool env b) \<longrightarrow> me_get_bool env d k v = b)"

text \<open>A delivery: the two readings of the clock, the block \<open>malloc\<close> would return, the message.\<close>

type_synonym delivery = "64 word \<times> 64 word \<times> (nat \<Rightarrow> char) option \<times> dict"

definition deliver_one :: "'k crypto \<Rightarrow> media_env \<Rightarrow> delivery \<Rightarrow> relay_media \<Rightarrow> bool \<times> relay_media" where
  "deliver_one c env x m = (case x of (t1, t2, block, d) \<Rightarrow> rr_relay_media_reassemble c env t1 t2 block d m)"

definition message_of :: "delivery \<Rightarrow> dict" where
  "message_of x = snd (snd (snd x))"

fun deliver_all :: "'k crypto \<Rightarrow> media_env \<Rightarrow> delivery list \<Rightarrow> relay_media \<Rightarrow> bool list \<times> relay_media" where
  "deliver_all c env [] m = ([], m)"
| "deliver_all c env (x # xs) m =
     (case deliver_one c env x m of (r, m') \<Rightarrow> apfst ((#) r) (deliver_all c env xs m'))"

lemma media_message_reads:
  fixes c :: "'k crypto" and bytes uuid room :: string and sequence :: "32 word" and flag :: bool and now :: nat
  assumes "numbers_ok env" "len < 2 ^ 64" "offset < 2 ^ 64"
  defines "d \<equiv> media_message c env now uuid room flag len sequence offset bytes"
  shows "me_get_ulong env d ''media.total'' v = len" "me_get_ulong env d ''media.fragment'' v = offset"
    "me_get_ulong env d ''media.frame-seq'' v = unat sequence" "me_get_bool env d ''media.setup'' b = flag"
    "dict_get d ''media.data'' s = base64_encode c bytes" "map_of d ''media.chan-uuid'' = Some uuid" "map_of d ''media.room'' = Some room"
proof -
  have m: "map_of d ''media.total'' = Some (me_show_ulong env len)" "map_of d ''media.fragment'' = Some (me_show_ulong env offset)"
    "map_of d ''media.frame-seq'' = Some (me_show_ulong env (unat sequence))" "map_of d ''media.setup'' = Some (me_show_bool env flag)"
    "map_of d ''media.data'' = Some (base64_encode c bytes)" "map_of d ''media.chan-uuid'' = Some uuid" "map_of d ''media.room'' = Some room"
    unfolding d_def media_message_def by (simp_all add: update_conv')
  have "unat sequence < 2 ^ 32" using unsigned_less [of sequence] by simp
  then have "unat sequence < 2 ^ 64" by simp
  then show "me_get_ulong env d ''media.total'' v = len" "me_get_ulong env d ''media.fragment'' v = offset"
    "me_get_ulong env d ''media.frame-seq'' v = unat sequence" "me_get_bool env d ''media.setup'' b = flag"
    "dict_get d ''media.data'' s = base64_encode c bytes" "map_of d ''media.chan-uuid'' = Some uuid" "map_of d ''media.room'' = Some room"
    using assms(1-3) m unfolding numbers_ok_def by (auto simp: dict_get_def)
qed

text \<open>The state between two fragments: the first \<open>offset\<close> bytes of \<open>data\<close> are in place.\<close>

definition partly :: "string \<Rightarrow> nat \<Rightarrow> bool \<Rightarrow> 32 word \<Rightarrow> 64 word \<Rightarrow> relay_media \<Rightarrow> bool" where
  "partly data offset setup sequence t m \<longleftrightarrow>
     (\<exists>b. rm_frame m = Some b \<and> length b = length data \<and> take offset b = take offset data) \<and> rm_size m = length data \<and>
     rm_received m = offset \<and> rm_sequence m = sequence \<and> rm_setup m = setup \<and> rm_started m = t"

lemma reassemble_next:
  fixes c :: "'k crypto"
  assumes env: "numbers_ok env" and code: "base64_code (base64_encode c) (base64_decode c)"
    and len: "length data \<le> 65535" and off: "offset < length data" "offset mod RELAY_MEDIA_CHUNK = 0"
    and m: "if offset = 0 then block \<noteq> None \<and> t = t1 else partly data offset setup sequence t m"
    and time: "t2 - t \<le> media_window setup"
  defines "part \<equiv> min (length data - offset) RELAY_MEDIA_CHUNK"
  shows "\<exists>m'. rr_relay_media_reassemble c env t1 t2 block
      (media_message c env now uuid room setup (length data) sequence offset (take part (drop offset data))) m =
      (offset + part = length data, m') \<and> partly data (offset + part) setup sequence t m' \<and>
      rm_client m' = rm_client m \<and> rm_uuid m' = rm_uuid m"
proof -
  let ?bytes = "take part (drop offset data)"
  let ?d = "media_message c env now uuid room setup (length data) sequence offset ?bytes"
  have b: "length ?bytes = part" "part \<le> 4000" "0 < part" "offset + part \<le> length data"
    using off(1) by (auto simp: part_def RELAY_MEDIA_CHUNK_def)
  have r: "me_get_ulong env ?d ''media.total'' v = length data" "me_get_ulong env ?d ''media.fragment'' v = offset"
    "me_get_ulong env ?d ''media.frame-seq'' v = unat sequence" "me_get_bool env ?d ''media.setup'' f = setup"
    "dict_get ?d ''media.data'' s = base64_encode c ?bytes" for v f s
    using media_message_reads [OF env, of "length data" offset] len off(1) by simp_all
  have "length (base64_encode c ?bytes) = (part + 2) div 3 * 4" using code b(1) by (simp add: base64_code_def)
  moreover have "(part + 2) div 3 * 4 \<le> (RELAY_MEDIA_CHUNK + 2) div 3 * 4" using b(2) by (simp add: RELAY_MEDIA_CHUNK_def div_le_mono)
  ultimately have e: "length (base64_encode c ?bytes) \<le> (RELAY_MEDIA_CHUNK + 2) div 3 * 4" "length (base64_encode c ?bytes) mod 4 = 0"
    "list_all base64_char (base64_encode c ?bytes)" "base64_decode c (base64_encode c ?bytes) = ?bytes"
    using code by (simp_all add: base64_code_def)
  define mm where "mm = (if offset = 0 then start_frame env t1 block ?d (length data) sequence m else m)"
  have "rm_setup (start_frame env t1 block ?d (length data) sequence m) = setup" by (simp add: start_frame_def r)
  then have p: "partly data offset setup sequence t mm" "rm_client mm = rm_client m" "rm_uuid mm = rm_uuid m"
    using m unfolding mm_def by (auto simp: partly_def) (auto simp: start_frame_def)
  then obtain b where f: "rm_frame mm = Some b" "length b = length data" "take offset b = take offset data"
    "rm_size mm = length data" "rm_received mm = offset" "rm_sequence mm = sequence" "rm_setup mm = setup" "rm_started mm = t"
    unfolding partly_def by blast
  let ?m' = "mm\<lparr>rm_frame := Some (take offset b @ ?bytes @ drop (offset + length ?bytes) b), rm_received := offset + length ?bytes\<rparr>"
  have ok: "\<not> (length data = 0 \<or> 65535 < length data \<or> length data \<le> offset \<or> offset mod RELAY_MEDIA_CHUNK \<noteq> 0 \<or>
      (RELAY_MEDIA_CHUNK + 2) div 3 * 4 < length (base64_encode c ?bytes) \<or> length (base64_encode c ?bytes) mod 4 \<noteq> 0 \<or>
      \<not> list_all base64_char (base64_encode c ?bytes))" using len off e by auto
  have w: "word_of_nat (unat sequence) = sequence" by simp
  have "rr_relay_media_reassemble c env t1 t2 block ?d m = (offset + length ?bytes = length data, ?m')"
    unfolding rr_relay_media_reassemble_def Let_def r e(4) w if_not_P [OF ok] mm_def [symmetric]
    using b(1) f leD [OF time] by (simp add: part_def)
  moreover have "take (offset + part) (take offset b @ ?bytes @ drop (offset + length ?bytes) b) = take (offset + part) data"
    using b f(2,3) off(1) by (simp add: take_add)
  ultimately show ?thesis using b f p by (auto simp: partly_def)
qed

text \<open>The deliveries that follow the first, all within the time of the frame that started at \<open>t\<close>.\<close>

definition in_time :: "bool \<Rightarrow> 64 word \<Rightarrow> delivery \<Rightarrow> bool" where
  "in_time setup t x \<longleftrightarrow> fst (snd x) - t \<le> media_window setup"

lemma loop_reassembles:
  fixes c :: "'k crypto"
  assumes env: "numbers_ok env" and code: "base64_code (base64_encode c) (base64_decode c)" and len: "length data \<le> 65535"
  shows "media_loop (media_message c env now uuid room setup (length data) sequence) send data offset = (True, map message_of xs) \<Longrightarrow>
     offset mod RELAY_MEDIA_CHUNK = 0 \<Longrightarrow> offset < length data \<Longrightarrow> \<forall>x \<in> set xs. in_time setup t x \<Longrightarrow>
     (if offset = 0 then fst (snd (snd (hd xs))) \<noteq> None \<and> t = fst (hd xs) else partly data offset setup sequence t m) \<Longrightarrow>
     \<exists>m'. deliver_all c env xs m = (replicate (length xs - 1) False @ [True], m') \<and> rm_frame m' = Some data"
proof (induction "length data - offset" arbitrary: offset xs m rule: less_induct)
  case (less offset xs m)
  let ?part = "min (length data - offset) RELAY_MEDIA_CHUNK"
  let ?d = "media_message c env now uuid room setup (length data) sequence offset (take ?part (drop offset data))"
  obtain ds where send: "send ?d" and rest: "media_loop (media_message c env now uuid room setup (length data) sequence) send data
      (offset + RELAY_MEDIA_CHUNK) = (True, ds)" and xs: "map message_of xs = ?d # ds"
    using less.prems(1,3) by (subst (asm) media_loop.simps) (auto simp: Let_def split: if_splits prod.splits)
  then obtain t1 t2 block xs' where x: "xs = (t1, t2, block, ?d) # xs'" "ds = map message_of xs'"
    by (cases xs) (auto simp: message_of_def)
  have first: "if offset = 0 then block \<noteq> None \<and> t = t1 else partly data offset setup sequence t m" and time: "t2 - t \<le> media_window setup"
    using less.prems(4,5) unfolding x(1) by (auto simp: in_time_def split: if_splits)
  obtain m' where m': "deliver_one c env (t1, t2, block, ?d) m = (offset + ?part = length data, m')"
      "partly data (offset + ?part) setup sequence t m'"
    using reassemble_next [OF env code len less.prems(3,2) first time, where now = now and uuid = uuid and room = room]
    by (auto simp: deliver_one_def)
  show ?case
  proof (cases "length data \<le> offset + RELAY_MEDIA_CHUNK")
    case True
    then have "ds = []" using rest by (subst (asm) media_loop.simps) simp
    moreover have "offset + ?part = length data" using True less.prems(3) by simp
    ultimately show ?thesis using m' x by (auto simp: partly_def)
  next
    case False
    then have part: "?part = RELAY_MEDIA_CHUNK" and next_offset: "(offset + RELAY_MEDIA_CHUNK) mod RELAY_MEDIA_CHUNK = 0"
      "offset + RELAY_MEDIA_CHUNK \<noteq> 0" using less.prems(2) by (simp_all add: RELAY_MEDIA_CHUNK_def)
    have "xs' \<noteq> []" using False rest x(2) by (subst (asm) media_loop.simps) (auto simp: Let_def split: if_splits prod.splits)
    moreover have "\<exists>m''. deliver_all c env xs' m' = (replicate (length xs' - 1) False @ [True], m'') \<and> rm_frame m'' = Some data"
    proof (rule less.hyps)
      show "length data - (offset + RELAY_MEDIA_CHUNK) < length data - offset" using False by (simp add: RELAY_MEDIA_CHUNK_def)
      show "media_loop (media_message c env now uuid room setup (length data) sequence) send data (offset + RELAY_MEDIA_CHUNK) =
        (True, map message_of xs')" using rest x(2) by simp
      show "\<forall>x \<in> set xs'. in_time setup t x" using less.prems(4) x(1) by simp
      show "if offset + RELAY_MEDIA_CHUNK = 0 then fst (snd (snd (hd xs'))) \<noteq> None \<and> t = fst (hd xs')
        else partly data (offset + RELAY_MEDIA_CHUNK) setup sequence t m'" using m'(2) part by (simp add: RELAY_MEDIA_CHUNK_def)
    qed (use False next_offset in simp_all)
    ultimately show ?thesis using m'(1) x(1) False part by (cases xs') auto
  qed
qed

section \<open>No torn frames\<close>

text \<open>
  \<open>pieces env d m fs\<close>: the fragments \<open>fs\<close> agree on length, counter and kind with the frame being
  received and follow each other without a gap from its start.
\<close>

definition fragment_bytes :: "'k crypto \<Rightarrow> dict \<Rightarrow> string" where
  "fragment_bytes c d = base64_decode c (dict_get d ''media.data'' '''')"

fun contiguous :: "'k crypto \<Rightarrow> media_env \<Rightarrow> nat \<Rightarrow> 32 word \<Rightarrow> bool \<Rightarrow> nat \<Rightarrow> dict list \<Rightarrow> bool" where
  "contiguous c env len sequence flag offset [] = True"
| "contiguous c env len sequence flag offset (d # ds) \<longleftrightarrow>
     me_get_ulong env d ''media.total'' 0 = len \<and> me_get_ulong env d ''media.fragment'' 65536 = offset \<and>
     word_of_nat (me_get_ulong env d ''media.frame-seq'' 0) = sequence \<and> me_get_bool env d ''media.setup'' False = flag \<and>
     contiguous c env len sequence flag (offset + length (fragment_bytes c d)) ds"

lemma contiguous_snoc:
  "contiguous c env len sequence flag offset (ds @ [d]) \<longleftrightarrow> contiguous c env len sequence flag offset ds \<and>
     contiguous c env len sequence flag (offset + length (concat (map (fragment_bytes c) ds))) [d]"
  by (induction ds arbitrary: offset) (auto simp: add.assoc)

text \<open>What is in a map after the fragments \<open>hist\<close>.\<close>

definition holds :: "'k crypto \<Rightarrow> media_env \<Rightarrow> dict list \<Rightarrow> relay_media \<Rightarrow> bool" where
  "holds c env hist m \<longleftrightarrow> (case rm_frame m of None \<Rightarrow> True | Some b \<Rightarrow>
     length b = rm_size m \<and> rm_size m \<le> 65535 \<and> rm_received m \<le> rm_size m \<and>
     (\<exists>fs. subseq fs hist \<and> contiguous c env (rm_size m) (rm_sequence m) (rm_setup m) 0 fs \<and>
       take (rm_received m) b = concat (map (fragment_bytes c) fs)))"

text \<open>The frame a call completes.\<close>

definition complete_frame :: "'k crypto \<Rightarrow> media_env \<Rightarrow> dict list \<Rightarrow> relay_media \<Rightarrow> bool" where
  "complete_frame c env hist m \<longleftrightarrow> (\<exists>fs b. rm_frame m = Some b \<and> subseq fs hist \<and> length b = rm_size m \<and> length b \<le> 65535 \<and>
     contiguous c env (length b) (rm_sequence m) (rm_setup m) 0 fs \<and> b = concat (map (fragment_bytes c) fs))"

lemma holds_more: "holds c env hist m \<Longrightarrow> holds c env (hist @ [d]) m"
  by (auto simp: holds_def split: option.splits)

lemma reassemble_holds:
  fixes c :: "'k crypto"
  assumes "holds c env hist m" "rr_relay_media_reassemble c env t1 t2 block d m = (r, m')"
  shows "holds c env (hist @ [d]) m' \<and> (r \<longrightarrow> complete_frame c env (hist @ [d]) m')"
proof -
  let ?len = "me_get_ulong env d ''media.total'' 0" and ?offset = "me_get_ulong env d ''media.fragment'' 65536"
  let ?sequence = "word_of_nat (me_get_ulong env d ''media.frame-seq'' 0) :: 32 word" and ?bytes = "fragment_bytes c d"
  define mm where "mm = (if ?offset = 0 then start_frame env t1 block d ?len ?sequence m else m)"
  show ?thesis
  proof (cases "m' = m \<and> \<not> r")
    case True
    with holds_more [OF assms(1)] show ?thesis by simp
  next
    case False
    then have start: "0 < ?len" "?len \<le> 65535" "?offset < ?len" "length ?bytes \<le> ?len - ?offset" and
      step: "(case rm_frame mm of None \<Rightarrow> (False, mm) | Some data \<Rightarrow>
         if rm_size mm \<noteq> ?len \<or> rm_sequence mm \<noteq> ?sequence \<or> ?offset \<noteq> rm_received mm \<or>
            rm_setup mm \<noteq> me_get_bool env d ''media.setup'' False \<or> media_window (rm_setup mm) < t2 - rm_started mm
         then (False, mm)
         else let m = mm\<lparr>rm_frame := Some (take ?offset data @ ?bytes @ drop (?offset + length ?bytes) data),
                         rm_received := rm_received mm + length ?bytes\<rparr> in (rm_received m = ?len, m)) = (r, m')"
      using assms(2) unfolding rr_relay_media_reassemble_def Let_def mm_def [symmetric] fragment_bytes_def
      by (auto split: if_splits)
    have mm: "holds c env (if ?offset = 0 then [] else hist) mm"
      using assms(1) start by (auto simp: mm_def holds_def start_frame_def split: option.splits)
    have more: "holds c env (hist @ [d]) mm" using mm holds_more [of c env hist] by (auto simp: holds_def split: if_splits option.splits)
    show ?thesis
    proof (cases "rm_frame mm")
      case None
      with step more show ?thesis by auto
    next
      case (Some data)
      show ?thesis
      proof (cases "rm_size mm \<noteq> ?len \<or> rm_sequence mm \<noteq> ?sequence \<or> ?offset \<noteq> rm_received mm \<or>
            rm_setup mm \<noteq> me_get_bool env d ''media.setup'' False \<or> media_window (rm_setup mm) < t2 - rm_started mm")
        case True
        with step Some more show ?thesis by auto
      next
        case False
        let ?data = "take ?offset data @ ?bytes @ drop (?offset + length ?bytes) data"
        have m': "m' = mm\<lparr>rm_frame := Some ?data, rm_received := ?offset + length ?bytes\<rparr>" "r = (?offset + length ?bytes = ?len)"
          using step Some False by (auto simp: Let_def)
        have eq: "rm_size mm = ?len" "rm_sequence mm = ?sequence" "rm_received mm = ?offset"
          "me_get_bool env d ''media.setup'' False = rm_setup mm" using False by simp_all
        from mm Some obtain fs where "subseq fs (if ?offset = 0 then [] else hist)" and
          fs: "contiguous c env ?len ?sequence (rm_setup mm) 0 fs" "take ?offset data = concat (map (fragment_bytes c) fs)"
          "length data = ?len" by (auto simp: holds_def eq)
        then have sub: "subseq (fs @ [d]) (hist @ [d])" by (cases "?offset = 0") (auto dest: list_emb_Nil2)
        have l: "length (concat (map (fragment_bytes c) fs)) = ?offset" "length ?data = ?len"
          using fs(3) start by (auto simp flip: fs(2))
        have "contiguous c env ?len ?sequence (rm_setup mm) 0 (fs @ [d])" using fs(1) l(1) by (simp add: contiguous_snoc eq)
        moreover have "take (?offset + length ?bytes) ?data = concat (map (fragment_bytes c) (fs @ [d]))"
          using l(1) fs(2,3) start by simp
        ultimately have gs: "\<exists>gs. subseq gs (hist @ [d]) \<and> contiguous c env ?len ?sequence (rm_setup mm) 0 gs \<and>
            take (?offset + length ?bytes) ?data = concat (map (fragment_bytes c) gs)" using sub by blast
        define b where "b = ?data"
        have "rm_frame m' = Some b" "rm_size m' = ?len" "rm_received m' = ?offset + length ?bytes" "rm_sequence m' = ?sequence"
          "rm_setup m' = rm_setup mm" by (simp_all add: m'(1) b_def eq)
        moreover have "?offset + length ?bytes \<le> ?len" using start by simp
        ultimately show ?thesis using gs l(2) m'(2) start(2) unfolding holds_def complete_frame_def b_def [symmetric] by auto
      qed
    qed
  qed
qed

section \<open>Runs\<close>

text \<open>
  Everything that touches the table, in any order. \<open>mr_hist\<close> collects the messages received per
  client and channel, \<open>mr_out\<close> the frames handed on: to a client's socket with the stream number
  replaced, or to the channel of a remote user. \<open>Media_home\<close> is the note \<open>route_request\<close> takes of
  the transport a client asks for.
\<close>

datatype media_event =
    Media_reply "string \<Rightarrow> cstr" "dict \<Rightarrow> dict" "nat option" bool "64 word" "64 word" "(nat \<Rightarrow> char) option" string nat dict
  | Media_request bool "64 word" "64 word" "(nat \<Rightarrow> char) option" nat string nat dict
  | Media_own nat "dict \<Rightarrow> bool" bool bool bool nat string bool
  | Media_forget "nat option" cstr cstr
  | Media_home nat string bool
  | Media_poll "64 word"

datatype handed = To_client string | To_channel string

record media_run =
  mr_state :: media_state
  mr_hist :: "((nat \<times> string) \<times> dict) list"
  mr_out :: "((nat \<times> string) \<times> handed) list"

definition route_home :: "nat \<Rightarrow> string \<Rightarrow> bool \<Rightarrow> media_state \<Rightarrow> media_state" where
  "route_home client uuid home st = (case fst (rr_relay_media_map True client uuid False st) of
     None \<Rightarrow> st
   | Some i \<Rightarrow> st\<lparr>ms_maps := (ms_maps st)[i := (ms_maps st ! i)\<lparr>rm_home := home\<rparr>]\<rparr>)"

definition expire_all :: "64 word \<Rightarrow> media_state \<Rightarrow> media_state" where
  "expire_all t st = st\<lparr>ms_maps := map (expire_media t) (ms_maps st)\<rparr>"

fun binaries :: "media_out list \<Rightarrow> string list" where
  "binaries [] = []"
| "binaries (Binary b # os) = b # binaries os"
| "binaries (Deliver d # os) = binaries os"

fun media_step :: "'k crypto \<Rightarrow> media_env \<Rightarrow> media_event \<Rightarrow> media_run \<Rightarrow> media_run" where
  "media_step c env (Media_reply authority grant queue alloc t1 t2 block origin client d) r =
     (let k = (client, dict_get d ''media.chan-uuid'' '''');
          (st, out) = receive_media c env authority grant queue alloc t1 t2 block origin client d (mr_state r)
      in r\<lparr>mr_state := st, mr_hist := mr_hist r @ [(k, d)], mr_out := mr_out r @ map (\<lambda>b. (k, To_client b)) (binaries out)\<rparr>)"
| "media_step c env (Media_request alloc t1 t2 block session uuid stream d) r =
     (let (st, out) = execute_fragment c env alloc t1 t2 block session uuid stream d (mr_state r)
      in r\<lparr>mr_state := st, mr_hist := mr_hist r @ [((session, uuid), d)],
           mr_out := mr_out r @ (case out of None \<Rightarrow> [] | Some b \<Rightarrow> [((session, uuid), To_channel b)])\<rparr>)"
| "media_step c env (Media_own now send applying has_user known client data flag) r =
     r\<lparr>mr_state := fst (snd (snd (rr_relay_media_incoming c env now send applying has_user known client data flag (mr_state r))))\<rparr>"
| "media_step c env (Media_forget client owner room) r = r\<lparr>mr_state := fst (rr_relay_media_forget client owner room (mr_state r))\<rparr>"
| "media_step c env (Media_home client uuid home) r = r\<lparr>mr_state := route_home client uuid home (mr_state r)\<rparr>"
| "media_step c env (Media_poll t) r = r\<lparr>mr_state := expire_all t (mr_state r)\<rparr>"

section \<open>The invariant\<close>

definition dicts_for :: "nat \<times> string \<Rightarrow> ((nat \<times> string) \<times> dict) list \<Rightarrow> dict list" where
  "dicts_for k hist = map snd (filter (\<lambda>x. fst x = k) hist)"

definition media_key :: "relay_media \<Rightarrow> nat \<times> string" where
  "media_key m = (rm_client m, rm_uuid m)"

definition whole_frame :: "'k crypto \<Rightarrow> media_env \<Rightarrow> dict list \<Rightarrow> string \<Rightarrow> bool" where
  "whole_frame c env ds data \<longleftrightarrow> length data \<le> 65535 \<and> (\<exists>fs sequence flag. subseq fs ds \<and>
     contiguous c env (length data) sequence flag 0 fs \<and> data = concat (map (fragment_bytes c) fs))"

fun handed_whole :: "'k crypto \<Rightarrow> media_env \<Rightarrow> dict list \<Rightarrow> handed \<Rightarrow> bool" where
  "handed_whole c env ds (To_channel b) \<longleftrightarrow> whole_frame c env ds b"
| "handed_whole c env ds (To_client b) \<longleftrightarrow> (\<exists>data stream. whole_frame c env ds data \<and> b = data[11 := stream])"

definition slot_ok :: "'k crypto \<Rightarrow> media_env \<Rightarrow> ((nat \<times> string) \<times> dict) list \<Rightarrow> relay_media \<Rightarrow> bool" where
  "slot_ok c env hist m \<longleftrightarrow> 128 \<le> rm_stream m \<and> rm_stream m < 256 \<and> rm_uuid m \<noteq> [] \<and> length (rm_uuid m) < 64 \<and>
     rm_owner_stream m < 256 \<and> holds c env (dicts_for (media_key m) hist) m"

definition media_ok :: "'k crypto \<Rightarrow> media_env \<Rightarrow> ((nat \<times> string) \<times> dict) list \<Rightarrow> media_state \<Rightarrow> bool" where
  "media_ok c env hist st \<longleftrightarrow> ms_count st = length (ms_maps st) \<and> ms_count st \<le> MAX_RELAY_MEDIA \<and>
     distinct (map (\<lambda>m. (rm_client m, rm_stream m)) (ms_maps st)) \<and> distinct (map media_key (ms_maps st)) \<and>
     (\<forall>m \<in> set (ms_maps st). slot_ok c env hist m)"

definition media_inv :: "'k crypto \<Rightarrow> media_env \<Rightarrow> media_run \<Rightarrow> bool" where
  "media_inv c env r \<longleftrightarrow> media_ok c env (mr_hist r) (mr_state r) \<and>
     (\<forall>(k, out) \<in> set (mr_out r). handed_whole c env (dicts_for k (mr_hist r)) out)"

lemma dicts_for_snoc: "dicts_for k (hist @ [(k', d)]) = dicts_for k hist @ (if k' = k then [d] else [])"
  by (simp add: dicts_for_def)

lemma whole_frame_more: "whole_frame c env ds data \<Longrightarrow> whole_frame c env (ds @ es) data"
proof -
  have "subseq fs ds \<Longrightarrow> subseq fs (ds @ es)" for fs by (metis append_Nil2 list_emb_Nil list_emb_append_mono)
  then show "whole_frame c env ds data \<Longrightarrow> whole_frame c env (ds @ es) data" unfolding whole_frame_def by blast
qed

lemma handed_whole_more: "handed_whole c env (dicts_for k hist) out \<Longrightarrow> handed_whole c env (dicts_for k (hist @ [x])) out"
  by (cases out; cases x) (auto simp: dicts_for_snoc intro: whole_frame_more)

lemma media_ok_more: "media_ok c env hist st \<Longrightarrow> media_ok c env (hist @ [x]) st"
  by (cases x) (auto simp: media_ok_def slot_ok_def dicts_for_snoc intro: holds_more)

lemma media_map_ok:
  assumes "media_ok c env hist st" "rr_relay_media_map alloc client uuid create st = (r, st')"
  shows "media_ok c env hist st'" "\<forall>i. r = Some i \<longrightarrow> i < length (ms_maps st') \<and> media_key (ms_maps st' ! i) = (client, uuid)"
proof -
  show "media_ok c env hist st'"
  proof (cases "st' = st")
    case False
    then obtain stream where new: "find_idx (map_for client uuid) (ms_maps st) = None" "ms_count st \<noteq> MAX_RELAY_MEDIA" "uuid \<noteq> []" "length uuid < 64"
      "List.find (\<lambda>stream. \<not> stream_used client (ms_maps st) stream) relay_streams = Some stream"
      "st' = st\<lparr>ms_maps := new_media client uuid stream # ms_maps st, ms_count := ms_count st + 1\<rparr>"
      using assms(2) by (auto simp: rr_relay_media_map_def split: option.splits if_splits)
    from find_SomeD [OF new(5)] have s: "128 \<le> stream" "stream < 256" "\<not> stream_used client (ms_maps st) stream" by (simp_all add: relay_streams_def del: upt_rec_numeral)
    from new(1) have "(client, uuid) \<notin> media_key ` set (ms_maps st)" by (auto simp: map_for_def media_key_def)
    moreover from s(3) have "(client, stream) \<notin> (\<lambda>m. (rm_client m, rm_stream m)) ` set (ms_maps st)"
      by (auto simp: stream_used_def list_ex_iff)
    moreover have "slot_ok c env hist (new_media client uuid stream)" using new(3,4) s by (simp add: slot_ok_def new_media_def holds_def)
    ultimately show ?thesis using assms(1) new(2,4,6) by (simp add: media_ok_def media_key_def new_media_def)
  qed (use assms in simp)
  show "\<forall>i. r = Some i \<longrightarrow> i < length (ms_maps st') \<and> media_key (ms_maps st' ! i) = (client, uuid)"
  proof (cases "find_idx (map_for client uuid) (ms_maps st)")
    case (Some j)
    then have "r = Some j" "st' = st" using assms(2) by (simp_all add: rr_relay_media_map_def)
    with find_idx_SomeD [OF Some] show ?thesis by (simp add: map_for_def media_key_def)
  next
    case None
    show ?thesis
    proof (cases r)
      case (Some i)
      then obtain stream where "i = 0" "st' = st\<lparr>ms_maps := new_media client uuid stream # ms_maps st, ms_count := ms_count st + 1\<rparr>" "length uuid < 64"
        using assms(2) None by (auto simp: rr_relay_media_map_def split: if_splits option.splits)
      with Some show ?thesis by (simp add: media_key_def new_media_def)
    qed simp
  qed
qed

lemma media_update_ok:
  assumes "media_ok c env hist st" "i < length (ms_maps st)" "media_key m = media_key (ms_maps st ! i)"
    and "rm_stream m = rm_stream (ms_maps st ! i)" "holds c env (dicts_for (media_key m) hist) m" "rm_owner_stream m < 256"
  shows "media_ok c env hist (st\<lparr>ms_maps := (ms_maps st)[i := m]\<rparr>)"
proof -
  have k: "rm_client m = rm_client (ms_maps st ! i)" "rm_uuid m = rm_uuid (ms_maps st ! i)" using assms(3) by (simp_all add: media_key_def)
  have "slot_ok c env hist (ms_maps st ! i)" using assms(1,2) by (simp add: media_ok_def)
  then have "slot_ok c env hist m" using k assms(4-6) by (simp add: slot_ok_def)
  then have "\<forall>x \<in> set ((ms_maps st)[i := m]). slot_ok c env hist x"
    using assms(1) set_update_subset_insert [of "ms_maps st" i m] by (auto simp: media_ok_def)
  moreover have "map media_key ((ms_maps st)[i := m]) = map media_key (ms_maps st)"
    "map (\<lambda>m. (rm_client m, rm_stream m)) ((ms_maps st)[i := m]) = map (\<lambda>m. (rm_client m, rm_stream m)) (ms_maps st)"
    using assms(3,4) k by (simp_all add: map_update_same)
  ultimately show ?thesis using assms(1) unfolding media_ok_def by simp
qed

lemma reassemble_frame:
  assumes "rr_relay_media_reassemble c env t1 t2 block d m = (r, m')"
  shows "media_key m' = media_key m \<and> rm_stream m' = rm_stream m \<and> rm_owner_stream m' = rm_owner_stream m"
proof -
  define mm where "mm = (if me_get_ulong env d ''media.fragment'' 65536 = 0 then start_frame env t1 block d (me_get_ulong env d ''media.total'' 0)
    (word_of_nat (me_get_ulong env d ''media.frame-seq'' 0)) m else m)"
  have k: "media_key mm = media_key m" "rm_stream mm = rm_stream m" "rm_owner_stream mm = rm_owner_stream m" by (simp_all add: mm_def media_key_def start_frame_def)
  have "m' = m \<or> m' = mm \<or> (\<exists>f n. m' = mm\<lparr>rm_frame := f, rm_received := n\<rparr>)"
    using assms unfolding rr_relay_media_reassemble_def Let_def mm_def [symmetric] by (auto split: if_split_asm option.split_asm)
  then show ?thesis using k by (auto simp: media_key_def)
qed

lemma complete_whole:
  "complete_frame c env ds m \<Longrightarrow> \<exists>b. rm_frame m = Some b \<and> whole_frame c env ds b"
  unfolding complete_frame_def whole_frame_def by blast

lemma holds_empty: "rm_frame m = None \<Longrightarrow> holds c env ds m"
  by (simp add: holds_def)

lemma holds_update:
  "holds c env ds m \<Longrightarrow> rm_frame m' = rm_frame m \<Longrightarrow> rm_size m' = rm_size m \<Longrightarrow> rm_received m' = rm_received m \<Longrightarrow>
     rm_sequence m' = rm_sequence m \<Longrightarrow> rm_setup m' = rm_setup m \<Longrightarrow> holds c env ds m'"
  by (cases "rm_frame m") (simp_all add: holds_def)

lemma reassemble_slot:
  assumes "media_ok c env hist st" "i < length (ms_maps st)" "media_key (ms_maps st ! i) = k"
    and "rr_relay_media_reassemble c env t1 t2 block d (ms_maps st ! i) = (r, m')"
  shows "media_key m' = k" "rm_stream m' = rm_stream (ms_maps st ! i)" "holds c env (dicts_for k (hist @ [(k, d)])) m'"
    and "rm_owner_stream m' < 256" and "r \<Longrightarrow> complete_frame c env (dicts_for k (hist @ [(k, d)])) m'"
proof -
  have "slot_ok c env hist (ms_maps st ! i)" using assms(1,2) by (simp add: media_ok_def)
  then have h: "holds c env (dicts_for k hist) (ms_maps st ! i)" "rm_owner_stream (ms_maps st ! i) < 256"
    using assms(3) by (simp_all add: slot_ok_def)
  from reassemble_holds [OF h(1) assms(4)] h(2) reassemble_frame [OF assms(4)] assms(3)
  show "media_key m' = k" "rm_stream m' = rm_stream (ms_maps st ! i)" "holds c env (dicts_for k (hist @ [(k, d)])) m'" "rm_owner_stream m' < 256"
    "r \<Longrightarrow> complete_frame c env (dicts_for k (hist @ [(k, d)])) m'"
    by (simp_all add: dicts_for_snoc)
qed

lemma request_ok:
  assumes "media_ok c env hist st" "execute_fragment c env alloc t1 t2 block session uuid stream d st = (st', out)"
  shows "media_ok c env (hist @ [((session, uuid), d)]) st' \<and>
     (\<forall>b. out = Some b \<longrightarrow> whole_frame c env (dicts_for (session, uuid) (hist @ [((session, uuid), d)])) b)"
proof -
  obtain r st1 where m: "rr_relay_media_map alloc session uuid True st = (r, st1)" by force
  note st1 = media_map_ok(1) [OF assms(1) m]
  note more = media_ok_more [OF st1, of "((session, uuid), d)"]
  show ?thesis
  proof (cases r)
    case None
    with assms(2) m more show ?thesis by (auto simp: execute_fragment_def)
  next
    case (Some i)
    with media_map_ok(2) [OF assms(1) m] have i: "i < length (ms_maps st1)" "media_key (ms_maps st1 ! i) = (session, uuid)" by auto
    obtain ok m' where a: "rr_relay_media_reassemble c env t1 t2 block d (ms_maps st1 ! i) = (ok, m')" by force
    note slot = reassemble_slot [OF st1 i a]
    let ?m = "if ok then m'\<lparr>rm_frame := None\<rparr> else m'"
    have "media_ok c env (hist @ [((session, uuid), d)]) (st1\<lparr>ms_maps := (ms_maps st1)[i := ?m]\<rparr>)"
      by (rule media_update_ok [OF more i(1)]) (use slot i in \<open>auto simp: media_key_def holds_empty\<close>)
    moreover have "st' = st1\<lparr>ms_maps := (ms_maps st1)[i := ?m]\<rparr>"
      using assms(2) m Some a by (auto simp: execute_fragment_def split: bool.splits)
    moreover have "ok \<and> out = rm_frame m'" if "out = Some b" for b
      using assms(2) m Some a that by (auto simp: execute_fragment_def split: bool.splits option.splits if_splits)
    ultimately show ?thesis using slot(5) complete_whole by (metis option.inject)
  qed
qed

lemma frame_reply_ok:
  assumes "media_ok c env hist st" "i < length (ms_maps st)" "media_key (ms_maps st ! i) = k"
    and "frame_reply c env t1 t2 block queue d (ms_maps st ! i) = (m', out)"
  shows "media_ok c env (hist @ [(k, d)]) (st\<lparr>ms_maps := (ms_maps st)[i := m']\<rparr>) \<and>
     (\<forall>b \<in> set (binaries out). handed_whole c env (dicts_for k (hist @ [(k, d)])) (To_client b))"
proof -
  note more = media_ok_more [OF assms(1), of "(k, d)"]
  have ms: "ms_maps st ! i \<in> set (ms_maps st)" using assms(2) by simp
  show ?thesis
  proof (cases "rm_subscribed (ms_maps st ! i)")
    case False
    with assms(4) more show ?thesis by (auto simp: frame_reply_def)
  next
    case True
    obtain ok m1 where a: "rr_relay_media_reassemble c env t1 t2 block d (ms_maps st ! i) = (ok, m1)" by force
    note slot = reassemble_slot [OF assms(1-3) a]
    let ?m = "if ok then m1\<lparr>rm_frame := None\<rparr> else m1"
    have "media_ok c env (hist @ [(k, d)]) (st\<lparr>ms_maps := (ms_maps st)[i := ?m]\<rparr>)"
      by (rule media_update_ok [OF more assms(2)]) (use slot assms(3) in \<open>auto simp: media_key_def holds_empty\<close>)
    moreover have "m' = ?m" using assms(4) True a by (auto simp: frame_reply_def Let_def split: bool.splits)
    moreover have "ok \<and> (\<exists>stream. b = (the (rm_frame m1))[11 := stream])" if "b \<in> set (binaries out)" for b
      using assms(4) True a that by (auto simp: frame_reply_def Let_def split: bool.splits option.splits if_splits)
    ultimately show ?thesis using slot(5) complete_whole by (fastforce simp: Let_def)
  qed
qed

lemma reply_ok:
  assumes "media_ok c env hist st"
    and "receive_media c env authority grant queue alloc t1 t2 block origin client d st = (st', out)"
  defines "k \<equiv> (client, dict_get d ''media.chan-uuid'' '''')"
  shows "media_ok c env (hist @ [(k, d)]) st' \<and>
     (\<forall>b \<in> set (binaries out). handed_whole c env (dicts_for k (hist @ [(k, d)])) (To_client b))"
proof -
  let ?create = "dict_get d ''media.cmd'' '''' = ''available''"
  obtain r st1 where m: "rr_relay_media_map alloc client (dict_get d ''media.chan-uuid'' '''') ?create st = (r, st1)" by force
  note st1 = media_map_ok(1) [OF assms(1) m]
  note more = media_ok_more [OF st1, of "(k, d)"]
  show ?thesis
  proof (cases r)
    case None
    with assms(2) m more show ?thesis by (auto simp: receive_media_def Let_def)
  next
    case (Some i)
    with media_map_ok(2) [OF assms(1) m] have i: "i < length (ms_maps st1)" "media_key (ms_maps st1 ! i) = k" by (auto simp: k_def)
    let ?m = "ms_maps st1 ! i"
    have h: "holds c env (dicts_for k (hist @ [(k, d)])) ?m" "rm_owner_stream ?m < 256" using more i by (auto simp: media_ok_def slot_ok_def)
    have up: "media_ok c env (hist @ [(k, d)]) (st1\<lparr>ms_maps := (ms_maps st1)[i := m']\<rparr>)"
      if "media_key m' = media_key ?m" "rm_stream m' = rm_stream ?m" "rm_frame m' = rm_frame ?m" "rm_size m' = rm_size ?m"
        "rm_received m' = rm_received ?m" "rm_sequence m' = rm_sequence ?m" "rm_setup m' = rm_setup ?m" "rm_owner_stream m' < 256" for m'
      by (rule media_update_ok [OF more i(1) that(1,2)]) (use holds_update [OF h(1) that(3-7)] that(1,8) i(2) in simp_all)
    obtain m1 o1 where a: "frame_reply c env t1 t2 block queue d ?m = (m1, o1)" by force
    consider "st' = st1" "binaries out = []"
      | m' where "st' = st1\<lparr>ms_maps := (ms_maps st1)[i := m']\<rparr>" "binaries out = []"
          "m' \<in> {available_media env origin d ?m, ?m\<lparr>rm_owner_stream := me_get_ulong env d ''media.stream'' 0 mod 256, rm_subscribed := True\<rparr>,
            ?m\<lparr>rm_subscribed := False\<rparr>}"
      | "st' = st1\<lparr>ms_maps := (ms_maps st1)[i := m1]\<rparr>" "out = o1"
      using assms(2) m Some a unfolding receive_media_def Let_def by (auto split: if_splits)
    then show ?thesis
    proof cases
      case 1
      with more show ?thesis by simp
    next
      case 2
      then show ?thesis using up h(2) by (auto simp: available_media_def media_key_def)
    next
      case 3
      with frame_reply_ok [OF st1 i a] show ?thesis by simp
    qed
  qed
qed

lemma forget_ok: "media_ok c env hist st \<Longrightarrow> media_ok c env hist (fst (rr_relay_media_forget client owner room st))"
  using sum_length_filter_compl [of "forgotten client owner room" "ms_maps st"]
  by (auto simp: media_ok_def rr_relay_media_forget_def Let_def distinct_map_filter)

lemma expire_ok: "media_ok c env hist st \<Longrightarrow> media_ok c env hist (expire_all t st)"
proof -
  assume a: "media_ok c env hist st"
  have k: "media_key \<circ> expire_media t = media_key" "(\<lambda>m. (rm_client m, rm_stream m)) \<circ> expire_media t = (\<lambda>m. (rm_client m, rm_stream m))"
    by (auto simp: fun_eq_iff expire_media_def media_key_def)
  have "slot_ok c env hist (expire_media t m)" if "slot_ok c env hist m" for m
    using that by (auto simp: slot_ok_def expire_media_def media_key_def holds_empty)
  with a k show ?thesis by (auto simp: media_ok_def expire_all_def)
qed

lemma home_ok: "media_ok c env hist st \<Longrightarrow> media_ok c env hist (route_home client uuid home st)"
proof -
  assume a: "media_ok c env hist st"
  obtain r st1 where m: "rr_relay_media_map True client uuid False st = (r, st1)" by force
  then have "st1 = st" by (auto simp: rr_relay_media_map_def split: option.splits)
  show ?thesis
  proof (cases r)
    case (Some i)
    have i: "i < length (ms_maps st)" using media_map_ok(2) [OF a m] Some \<open>st1 = st\<close> by simp
    let ?m = "(ms_maps st ! i)\<lparr>rm_home := home\<rparr>"
    have h: "holds c env (dicts_for (media_key ?m) hist) (ms_maps st ! i)" "rm_owner_stream ?m < 256"
      using a i by (auto simp: media_ok_def slot_ok_def media_key_def)
    from h(1) have "holds c env (dicts_for (media_key ?m) hist) ?m" by (rule holds_update) simp_all
    then have "media_ok c env hist (st\<lparr>ms_maps := (ms_maps st)[i := ?m]\<rparr>)"
      using media_update_ok [OF a i] h(2) by (simp add: media_key_def)
    with m Some show ?thesis by (simp add: route_home_def)
  qed (use a m in \<open>simp add: route_home_def\<close>)
qed

lemma incoming_maps: "ms_maps (fst (snd (snd (rr_relay_media_incoming c env now send applying has_user known client data flag st)))) = ms_maps st \<and>
    ms_count (fst (snd (snd (rr_relay_media_incoming c env now send applying has_user known client data flag st)))) = ms_count st"
  by (auto simp: rr_relay_media_incoming_def media_packet_def Let_def split: option.splits prod.splits)

lemma media_ok_cong: "ms_maps st' = ms_maps st \<Longrightarrow> ms_count st' = ms_count st \<Longrightarrow> media_ok c env hist st' \<longleftrightarrow> media_ok c env hist st"
  by (simp add: media_ok_def)

lemma incoming_ok: "media_ok c env hist st \<Longrightarrow>
    media_ok c env hist (fst (snd (snd (rr_relay_media_incoming c env now send applying has_user known client data flag st))))"
  using incoming_maps [of c env now send applying has_user known client data flag st] by (simp add: media_ok_def)

lemma media_step_inv: "media_inv c env r \<Longrightarrow> media_inv c env (media_step c env ev r)"
proof -
  assume inv: "media_inv c env r"
  then have ok: "media_ok c env (mr_hist r) (mr_state r)" and out: "\<forall>(k, h) \<in> set (mr_out r). handed_whole c env (dicts_for k (mr_hist r)) h"
    by (simp_all add: media_inv_def)
  have out': "handed_whole c env (dicts_for k (mr_hist r @ [x])) h" if "(k, h) \<in> set (mr_out r)" for k h x
    using out that handed_whole_more by fast
  show ?thesis
  proof (cases ev)
    case (Media_reply authority grant queue alloc t1 t2 block origin client d)
    obtain st o1 where s: "receive_media c env authority grant queue alloc t1 t2 block origin client d (mr_state r) = (st, o1)" by force
    from reply_ok [OF ok s] Media_reply s show ?thesis
      by (auto simp: media_inv_def Let_def simp del: handed_whole.simps intro: out')
  next
    case (Media_request alloc t1 t2 block session uuid stream d)
    obtain st o1 where s: "execute_fragment c env alloc t1 t2 block session uuid stream d (mr_state r) = (st, o1)" by force
    from request_ok [OF ok s] Media_request s show ?thesis by (auto simp: media_inv_def intro: out' split: option.splits)
  next
    case (Media_own now send applying has_user known client data flag)
    then show ?thesis using incoming_ok [OF ok] out by (simp add: media_inv_def)
  qed (use ok out in \<open>auto simp: media_inv_def forget_ok home_ok expire_ok\<close>)
qed

interpretation media_table: machine "media_step c env" "media_inv c env" for c :: "'k crypto" and env
  by unfold_locales (rule media_step_inv)

definition no_media :: media_run where
  "no_media = \<lparr>mr_state = \<lparr>ms_maps = [], ms_count = 0, ms_sequence = 0\<rparr>, mr_hist = [], mr_out = []\<rparr>"

lemma no_media_inv: "media_inv c env no_media"
  by (simp add: media_inv_def media_ok_def no_media_def)

section \<open>From a client to the channel of its remote rig\<close>

text \<open>The fragments as the owner of the channel takes them: what each hands to the channel.\<close>

fun request_all :: "'k crypto \<Rightarrow> media_env \<Rightarrow> nat \<Rightarrow> string \<Rightarrow> nat \<Rightarrow> delivery list \<Rightarrow> media_state \<Rightarrow> string option list" where
  "request_all c env session uuid stream [] st = []"
| "request_all c env session uuid stream ((t1, t2, block, d) # xs) st =
     (case execute_fragment c env True t1 t2 block session uuid stream d st of
        (st', out) \<Rightarrow> out # request_all c env session uuid stream xs st')"

lemma find_idx_update: "find_idx P xs = Some i \<Longrightarrow> P y \<Longrightarrow> find_idx P (xs[i := y]) = Some i"
  by (induction xs arbitrary: i) (auto split: if_splits)

lemma media_map_again:
  assumes "rr_relay_media_map alloc client uuid create st = (Some i, st1)"
  shows "find_idx (map_for client uuid) (ms_maps st1) = Some i"
  using assms by (auto simp: rr_relay_media_map_def map_for_def new_media_def split: option.splits if_splits)

lemma media_map_found:
  "find_idx (map_for client uuid) (ms_maps st) = Some i \<Longrightarrow> rr_relay_media_map alloc client uuid create st = (Some i, st)"
  by (simp add: rr_relay_media_map_def)

lemma request_all_deliver:
  assumes "find_idx (map_for session uuid) (ms_maps st) = Some i" "deliver_all c env xs (ms_maps st ! i) = (replicate n False @ [True], m')"
    and "rm_frame m' = Some b" "me_parse env b = Some header" "bf_stream header = stream"
  shows "request_all c env session uuid stream xs st = replicate n None @ [Some b]"
  using assms(1,2)
proof (induction xs arbitrary: st n)
  case (Cons x xs)
  obtain t1 t2 block d where x: "x = (t1, t2, block, d)" by (cases x)
  obtain r m1 where a: "rr_relay_media_reassemble c env t1 t2 block d (ms_maps st ! i) = (r, m1)" by force
  have i: "i < length (ms_maps st)" using find_idx_SomeD [OF Cons.prems(1)] by simp
  have "map_for session uuid m1"
    using reassemble_frame [OF a] find_idx_SomeD [OF Cons.prems(1)] by (simp add: media_key_def map_for_def)
  from find_idx_update [OF Cons.prems(1) this]
  have found: "find_idx (map_for session uuid) ((ms_maps st)[i := m1]) = Some i" .
  obtain rs where d: "deliver_all c env xs m1 = (rs, m')" "r # rs = replicate n False @ [True]"
    using Cons.prems(2) by (cases "deliver_all c env xs m1") (auto simp: x deliver_one_def a)
  show ?case
  proof (cases n)
    case 0
    then have "r" "rs = []" using d(2) by auto
    moreover have "length (fst (deliver_all c env ys m)) = length ys" for ys m
      by (induction ys arbitrary: m) (auto split: prod.splits)
    ultimately have "xs = []" using d(1) by (metis fst_conv length_0_conv list.size(3))
    then have "r" "xs = []" "m1 = m'" using \<open>r\<close> d(1) by simp_all
    then show ?thesis using 0 assms(3-5) a media_map_found [OF Cons.prems(1)] by (simp add: x execute_fragment_def)
  next
    case (Suc k)
    then have "\<not> r" "rs = replicate k False @ [True]" using d(2) by auto
    with Cons.IH [of "st\<lparr>ms_maps := (ms_maps st)[i := m1]\<rparr>" k] found d(1) i a media_map_found [OF Cons.prems(1)] Suc
    show ?thesis by (simp add: x execute_fragment_def)
  qed
qed simp

text \<open>A call that finds or makes the map leaves it where the next call finds it.\<close>

lemma request_all_map:
  assumes "rr_relay_media_map True session uuid True st = (Some i, st1)" "xs \<noteq> []"
  shows "request_all c env session uuid stream xs st = request_all c env session uuid stream xs st1"
proof -
  have again: "rr_relay_media_map True session uuid True st1 = (Some i, st1)"
    by (rule media_map_found [OF media_map_again [OF assms(1)]])
  obtain t1 t2 block d ys where "xs = (t1, t2, block, d) # ys" using assms(2) by (cases xs) auto
  then show ?thesis by (simp add: execute_fragment_def assms(1) again)
qed

lemma packet_delivered:
  fixes c :: "'k crypto"
  assumes "numbers_ok env" "base64_code (base64_encode c) (base64_decode c)"
    and "media_packet c env now send uuid room data flag st = (True, st', map message_of xs)"
    and "\<forall>x \<in> set xs. in_time flag (fst (hd xs)) x" "fst (snd (snd (hd xs))) \<noteq> None"
  shows "xs \<noteq> [] \<and> (\<exists>m'. deliver_all c env xs m = (replicate (length xs - 1) False @ [True], m') \<and> rm_frame m' = Some data)"
proof -
  have len: "data \<noteq> []" "length data \<le> 65535" and l: "media_loop (media_message c env now uuid room flag (length data) (ms_sequence st + 1))
      send data 0 = (True, map message_of xs)"
    using assms(3) by (auto simp: media_packet_def Let_def split: if_splits prod.splits)
  have "xs \<noteq> []" using l len(1) by (subst (asm) media_loop.simps) (auto simp: Let_def split: if_splits prod.splits)
  moreover have "\<exists>m'. deliver_all c env xs m = (replicate (length xs - 1) False @ [True], m') \<and> rm_frame m' = Some data"
    by (rule loop_reassembles [OF assms(1,2) len(2) l, where t = "fst (hd xs)"]) (use assms(4,5) len(1) in auto)
  ultimately show ?thesis by blast
qed

section \<open>Properties\<close>

text \<open>
  C19. Audio reaches the remote transmitter unchanged. A frame a logged-in client sends on its stream
  for a remote channel is cut, sent and put together by the owner into exactly the same bytes, but
  for the stream number, which becomes the owner's; only the last fragment completes it. It is sent
  only on a subscribed transmit channel of a room the client is in. This is for a frame whose fragments arrive in order, all of
  them, within the time the owner keeps an unfinished frame, with memory for its buffer at the first, and an
  owner with a slot for the channel; the frame parser is assumed to read the stream number from the byte it is in.
\<close>

theorem relay_media_carried:
  fixes c :: "'k crypto"
  assumes "numbers_ok env" "base64_code (base64_encode c) (base64_decode c)"
    and "st = mr_state (fold (media_step c env) run no_media)"
    and "rr_relay_media_incoming c env now send False True True client data flag st = (True, True, st', map message_of xs)"
    and "\<forall>x \<in> set xs. in_time flag (fst (hd xs)) x" "fst (snd (snd (hd xs))) \<noteq> None"
    and "\<forall>m \<in> set (ms_maps st). fst (rr_relay_media_map True session (rm_uuid m) True owner) \<noteq> None"
    and "\<forall>ch. \<exists>header. me_parse env (data[11 := ch]) = Some header \<and> bf_stream header = chr_ord ch"
  shows "\<exists>m \<in> set (ms_maps st). rm_client m = client \<and> rm_subscribed m \<and> rm_direction m = me_dir_tx env \<and> me_in_room env client (rm_room m) \<and>
    map_option bf_stream (me_parse env data) = Some (rm_stream m) \<and>
    request_all c env session (rm_uuid m) (rm_owner_stream m) xs owner =
      replicate (length xs - 1) None @ [Some (data[11 := char_of (rm_owner_stream m)])]"
proof -
  obtain header i where h: "me_parse env data = Some header" and i: "find_idx (\<lambda>m. rm_client m = client \<and> rm_stream m = bf_stream header) (ms_maps st) = Some i"
    using assms(4) by (auto simp: rr_relay_media_incoming_def split: option.splits)
  define m where "m = ms_maps st ! i"
  from find_idx_SomeD [OF i] have m: "m \<in> set (ms_maps st)" "rm_client m = client" "rm_stream m = bf_stream header" by (auto simp: m_def)
  have "media_inv c env (fold (media_step c env) run no_media)" by (rule media_table.run_inv [OF no_media_inv])
  with m(1) assms(3) have o256: "rm_owner_stream m < 256" by (auto simp: media_inv_def media_ok_def slot_ok_def)
  let ?data = "data[11 := char_of (rm_owner_stream m)]"
  have g: "rm_subscribed m" "rm_direction m = me_dir_tx env" "me_in_room env client (rm_room m)"
    and p: "media_packet c env now send (rm_uuid m) (rm_room m) ?data flag st = (True, st', map message_of xs)"
    using assms(4) h i by (auto simp: rr_relay_media_incoming_def Let_def m_def split: if_splits prod.splits)
  obtain j ow where map: "rr_relay_media_map True session (rm_uuid m) True owner = (Some j, ow)"
    using assms(7) m(1) by (metis option.exhaust prod.collapse)
  from packet_delivered [OF assms(1,2) p assms(5,6), of "ms_maps ow ! j"] obtain m' where d: "xs \<noteq> []"
    "deliver_all c env xs (ms_maps ow ! j) = (replicate (length xs - 1) False @ [True], m')" "rm_frame m' = Some ?data" by blast
  obtain header' where h': "me_parse env ?data = Some header'" "bf_stream header' = rm_owner_stream m"
    using assms(8) o256 by (metis chr_ord_def of_char_of mod_less)
  have "request_all c env session (rm_uuid m) (rm_owner_stream m) xs owner = replicate (length xs - 1) None @ [Some ?data]"
    using request_all_deliver [OF media_map_again [OF map] d(2,3) h'] request_all_map [OF map d(1), of c env "rm_owner_stream m"] by simp
  with m g h show ?thesis by force
qed

lemma holds_buffer: "holds c env ds m \<Longrightarrow> rm_frame m = Some y \<Longrightarrow> length y = rm_size m \<and> rm_size m \<le> 65535 \<and> rm_received m \<le> rm_size m"
  by (simp add: holds_def)

definition demo_media_env :: media_env where
  "demo_media_env = \<lparr>me_in_room = (\<lambda>client room. room = ''#rig''),
     me_parse = (\<lambda>data. if length data < 12 then None
        else Some \<lparr>bf_subsystem = 1, bf_direction = 1, bf_stream = chr_ord (data ! 11), bf_len = length data - 12\<rparr>),
     me_get_ulong = (\<lambda>d k v. case map_of d k of None \<Rightarrow> v | Some s \<Rightarrow> dec_val s), me_show_ulong = show_nat,
     me_get_bool = (\<lambda>d k v. case map_of d k of None \<Rightarrow> v | Some s \<Rightarrow> s = ''true''), me_show_bool = (\<lambda>b. if b then ''true'' else ''false''),
     me_audio = 1, me_dir_tx = 1, me_dir_na = 0\<rparr>"

definition demo_base64 :: "string crypto" where
  "demo_base64 = \<lparr>base64_encode = b64_encode, base64_decode = b64_decode, ed25519_public = Some, ed25519_verify = (\<lambda>k m s. True), sha256 = (\<lambda>b. b)\<rparr>"

definition demo_media_run :: "media_event list" where
  "demo_media_run = map (\<lambda>d. Media_reply (\<lambda>room. Some ''owner'') (\<lambda>d. d) (Some 0) True 0 0 None ''owner'' 1 d)
     [[(''media.cmd'', ''available''), (''media.chan-uuid'', ''mic''), (''media.room'', ''#rig''), (''media.dir'', ''1''), (''media.subsys'', ''1'')],
      [(''media.cmd'', ''subscribed''), (''media.chan-uuid'', ''mic''), (''media.stream'', ''7'')]]"

definition demo_media_state :: media_state where
  "demo_media_state = mr_state (fold (media_step demo_base64 demo_media_env) demo_media_run no_media)"

definition demo_frame_in :: string where
  "demo_frame_in = replicate 11 CHR ''h'' @ [char_of (128 :: nat)] @ ''voice''"

definition demo_media_out :: "bool \<times> bool \<times> media_state \<times> dict list" where
  "demo_media_out = rr_relay_media_incoming demo_base64 demo_media_env 0 (\<lambda>d. True) False True True 1 demo_frame_in False demo_media_state"

definition demo_arrivals :: "delivery list" where
  "demo_arrivals = map (\<lambda>d. (0, 5, Some (\<lambda>_. CHR ''x''), d)) (snd (snd (snd demo_media_out)))"

lemma demo_numbers_ok: "numbers_ok demo_media_env"
  by (auto simp: numbers_ok_def demo_media_env_def)

lemma demo_media_out_ok: "case demo_media_out of (handled, result, st, ds) \<Rightarrow> handled \<and> result \<and> length ds = 1"
  by code_simp

lemma demo_media_sent: "rr_relay_media_incoming demo_base64 demo_media_env 0 (\<lambda>d. True) False True True 1 demo_frame_in False demo_media_state =
    (True, True, fst (snd (snd demo_media_out)), map message_of demo_arrivals)"
proof -
  have "fst demo_media_out" "fst (snd demo_media_out)" using demo_media_out_ok by (simp_all add: case_prod_beta)
  moreover have "map message_of demo_arrivals = snd (snd (snd demo_media_out))" by (simp add: demo_arrivals_def message_of_def o_def)
  ultimately show ?thesis unfolding demo_media_out_def by (metis prod.collapse)
qed

lemma demo_media_map: "ms_maps demo_media_state = [(new_media 1 ''mic'' 128)\<lparr>rm_owner := ''owner'', rm_room := ''#rig'', rm_direction := 1,
    rm_subsystem := 1, rm_owner_stream := 7, rm_subscribed := True\<rparr>]"
  by code_simp

lemma demo_arrivals_one: "length demo_arrivals = 1"
  using demo_media_out_ok by (simp add: case_prod_beta demo_arrivals_def)

lemma demo_parse: "\<forall>ch. \<exists>header. me_parse demo_media_env (demo_frame_in[11 := ch]) = Some header \<and> bf_stream header = chr_ord ch"
  by (simp add: demo_media_env_def demo_frame_in_def)

lemma relay_media_carried_witness:
  "request_all demo_base64 demo_media_env 2 ''mic'' 7 demo_arrivals (mr_state no_media) =
     [Some (replicate 11 CHR ''h'' @ [char_of (7 :: nat)] @ ''voice'')]"
proof -
  have code: "base64_code (base64_encode demo_base64) (base64_decode demo_base64)" by (simp add: demo_base64_def base64_code_real)
  have slot: "\<forall>m \<in> set (ms_maps demo_media_state). fst (rr_relay_media_map True 2 (rm_uuid m) True (mr_state no_media)) \<noteq> None"
    unfolding demo_media_map by (simp add: new_media_def rr_relay_media_map_def no_media_def MAX_RELAY_MEDIA_def stream_used_def relay_streams_def)
  have window: "(5 :: 64 word) \<le> 100000" by code_simp
  have time: "\<forall>x \<in> set demo_arrivals. in_time False (fst (hd demo_arrivals)) x" "fst (snd (snd (hd demo_arrivals))) \<noteq> None"
    using demo_arrivals_one window by (cases "snd (snd (snd demo_media_out))"; simp add: demo_arrivals_def in_time_def media_window_def)+
  have data: "demo_frame_in[11 := char_of (7 :: nat)] = replicate 11 CHR ''h'' @ [char_of (7 :: nat)] @ ''voice''" by code_simp
  from relay_media_carried [OF demo_numbers_ok code demo_media_state_def demo_media_sent time slot demo_parse]
  show ?thesis unfolding demo_media_map by (simp add: demo_arrivals_one new_media_def data)
qed

text \<open>
  C20. No frame is torn or mixed. Whatever fragments arrive, in whatever order, from however many
  senders, interleaved with whatever else happens to the table, every frame handed to a client or
  to a transmitter is put together from fragments received for that client and that channel, which
  agree on length, counter and kind and follow each other without gap or overlap from the first byte
  to the last. To a client only the stream number is changed.
\<close>

theorem relay_media_not_torn:
  fixes c :: "'k crypto"
  shows "let r = fold (media_step c env) run no_media in
    \<forall>(k, out) \<in> set (mr_out r). \<exists>data fs sequence flag.
      out \<in> {To_channel data} \<union> range (\<lambda>stream. To_client (data[11 := stream])) \<and> length data \<le> 65535 \<and>
      subseq fs (dicts_for k (mr_hist r)) \<and> contiguous c env (length data) sequence flag 0 fs \<and>
      data = concat (map (fragment_bytes c) fs)"
proof -
  define r where "r = fold (media_step c env) run no_media"
  have "media_inv c env r" unfolding r_def by (rule media_table.run_inv [OF no_media_inv])
  then have h: "handed_whole c env (dicts_for k (mr_hist r)) out" if "(k, out) \<in> set (mr_out r)" for k out
    using that by (auto simp: media_inv_def)
  have "\<exists>data fs sequence flag. out \<in> {To_channel data} \<union> range (\<lambda>stream. To_client (data[11 := stream])) \<and> length data \<le> 65535 \<and>
    subseq fs (dicts_for k (mr_hist r)) \<and> contiguous c env (length data) sequence flag 0 fs \<and> data = concat (map (fragment_bytes c) fs)"
    if "(k, out) \<in> set (mr_out r)" for k out
    using h [OF that] by (cases out) (auto simp: whole_frame_def)
  then show ?thesis unfolding Let_def r_def [symmetric] by blast
qed

definition demo_request_run :: "media_event list" where
  "demo_request_run = map (\<lambda>d. Media_request True 0 5 (Some (\<lambda>_. CHR ''x'')) 2 ''mic'' 7 d) (snd (snd (snd demo_media_out)))"

lemma demo_handed: "mr_out (fold (media_step demo_base64 demo_media_env) demo_request_run no_media) =
     [((2, ''mic''), To_channel (replicate 11 CHR ''h'' @ [char_of (7 :: nat)] @ ''voice''))]"
  by code_simp

lemma relay_media_not_torn_witness:
  "\<exists>fs. subseq fs (dicts_for (2, ''mic'') (mr_hist (fold (media_step demo_base64 demo_media_env) demo_request_run no_media))) \<and>
     replicate 11 CHR ''h'' @ [char_of (7 :: nat)] @ ''voice'' = concat (map (fragment_bytes demo_base64) fs)"
proof -
  have "((2, ''mic''), To_channel (replicate 11 CHR ''h'' @ [char_of (7 :: nat)] @ ''voice'')) \<in>
      set (mr_out (fold (media_step demo_base64 demo_media_env) demo_request_run no_media))" by (simp only: demo_handed) simp
  from relay_media_not_torn [of demo_base64 demo_media_env demo_request_run, unfolded Let_def, rule_format, OF this]
  show ?thesis by auto
qed

text \<open>
  The table stays in bounds. After every sequence of replies, requests, own frames, expiries and
  removals it holds at most 512 maps, counted exactly; a client has one map per channel and a stream
  number from 128 to 255 of its own for each; no buffer is longer than 65535 bytes or written beyond
  its length.
\<close>

theorem relay_media_bounded:
  fixes c :: "'k crypto"
  shows "let st = mr_state (fold (media_step c env) run no_media); ms = ms_maps st in
    ms_count st = length ms \<and> length ms \<le> 512 \<and> distinct (map (\<lambda>m. (rm_client m, rm_uuid m)) ms) \<and>
    distinct (map (\<lambda>m. (rm_client m, rm_stream m)) ms) \<and>
    list_all (\<lambda>m. 128 \<le> rm_stream m \<and> rm_stream m < 256 \<and> rm_owner_stream m < 256 \<and> length (rm_uuid m) < 64 \<and>
      (rm_frame m = None \<or> length (the (rm_frame m)) = rm_size m \<and> rm_size m \<le> 65535 \<and> rm_received m \<le> rm_size m)) ms"
proof -
  have "media_inv c env (fold (media_step c env) run no_media)" by (rule media_table.run_inv [OF no_media_inv])
  moreover have "media_key = (\<lambda>m. (rm_client m, rm_uuid m))" by (auto simp: media_key_def)
  ultimately show ?thesis
    by (auto simp: media_inv_def media_ok_def slot_ok_def MAX_RELAY_MEDIA_def Let_def list_all_iff dest!: bspec dest: holds_buffer)
qed

text \<open>A refused offer of a channel leaves its map behind.\<close>

lemma refused_reply_keeps_map:
  assumes "dict_get d ''media.cmd'' '''' = ''available''" "rr_relay_media_map alloc client (dict_get d ''media.chan-uuid'' '''') True st = (Some i, st')"
    and "authority (dict_get d ''media.room'' '''') \<noteq> Some origin"
  shows "receive_media c env authority grant queue alloc t1 t2 block origin client d st = (st', [])"
  using assms by (simp add: receive_media_def Let_def)

end
