(* ===== verification/Supervision.thy ===== *)
theory Supervision
  imports Dict
begin

text \<open>
  Control-operator consent (\<^verbatim>\<open>rrserver/supervision.c\<close>): a user with the role \<open>noob\<close> may transmit only
  while an experienced operator, an elmer, has accepted responsibility and stays active.

  The state is the array of requests, each with an array of accepted and one of invited operators,
  all of the protocol's \<open>HTTP_MAX_SESSIONS\<close> entries. \<open>sup_env\<close> is what an event finds: the clock, the
  attributes of each connection, the list of live ones, the configuration. Stopping all transmitters
  (\<open>rr_ptt_set_all_off_reason\<close>) changes connections, so the environment is handed through.
\<close>

section \<open>State\<close>

record conn =
  cn_token :: string
  cn_authenticated :: bool
  cn_user :: bool
  cn_enabled :: bool
  cn_muted :: bool
  cn_password_change :: bool
  cn_password_expires :: int
  cn_uid :: int
  cn_noob :: bool
  cn_admin :: bool
  cn_elmer :: bool
  cn_ptt :: bool
  cn_ptt_room :: string

record supervisor =
  sv_client :: "nat option"
  sv_token :: string
  sv_active :: int

record supervision =
  su_client :: "nat option"
  su_token :: string
  su_id :: string
  su_room :: string
  su_elmers :: "supervisor list"
  su_invited :: "supervisor list"
  su_granted :: bool

record sup_env =
  se_now :: int
  se_conn :: "nat \<Rightarrow> conn"
  se_live :: "nat list"
  se_idle :: int
  se_home_room :: string
  se_all_off :: "(nat \<Rightarrow> conn) \<Rightarrow> nat \<Rightarrow> conn"

datatype sup_effect =
    Status nat string string string
  | All_off
  | Sup_error nat

definition no_supervisor :: supervisor where
  "no_supervisor = \<lparr>sv_client = None, sv_token = [], sv_active = 0\<rparr>"

definition no_supervision :: "nat \<Rightarrow> supervision" where
  "no_supervision n = \<lparr>su_client = None, su_token = [], su_id = [], su_room = [], su_elmers = replicate n no_supervisor,
     su_invited = replicate n no_supervisor, su_granted = False\<rparr>"

section \<open>Who may what\<close>

definition eligible :: "sup_env \<Rightarrow> nat option \<Rightarrow> bool" where
  "eligible env client = (case client of None \<Rightarrow> False | Some c \<Rightarrow> let cn = se_conn env c in
     cn_authenticated cn \<and> cn_user cn \<and> cn_enabled cn \<and> \<not> cn_muted cn \<and> \<not> cn_password_change cn \<and>
     (cn_password_expires cn = 0 \<or> se_now env < cn_password_expires cn))"

definition needs_supervision :: "sup_env \<Rightarrow> nat option \<Rightarrow> bool" where
  "needs_supervision env client = (case client of None \<Rightarrow> False | Some c \<Rightarrow> let cn = se_conn env c in
     cn_user cn \<and> 0 \<le> cn_uid cn \<and> cn_noob cn \<and> \<not> cn_admin cn)"

definition is_elmer :: "sup_env \<Rightarrow> nat option \<Rightarrow> bool" where
  "is_elmer env client \<longleftrightarrow> eligible env client \<and> cn_elmer (se_conn env (the client)) \<and> \<not> needs_supervision env client"

definition sup_find :: "sup_env \<Rightarrow> nat \<Rightarrow> cstr \<Rightarrow> supervision list \<Rightarrow> nat option" where
  "sup_find env c room rs = find_idx (\<lambda>r. su_client r = Some c \<and> su_token r = cn_token (se_conn env c) \<and>
     (room = None \<or> room = Some (su_room r))) rs"

definition sup_active :: "sup_env \<Rightarrow> supervisor \<Rightarrow> bool" where
  "sup_active env s \<longleftrightarrow> is_elmer env (sv_client s) \<and> sv_token s = cn_token (se_conn env (the (sv_client s))) \<and>
     sv_active s \<le> se_now env \<and> se_now env - sv_active s < (if se_idle env \<le> 0 then 300 else se_idle env)"

definition sup_allowed :: "sup_env \<Rightarrow> supervision \<Rightarrow> bool" where
  "sup_allowed env r \<longleftrightarrow> su_granted r \<and> eligible env (su_client r) \<and> su_token r = cn_token (se_conn env (the (su_client r))) \<and>
     list_ex (sup_active env) (su_elmers r)"

definition found_allowed :: "sup_env \<Rightarrow> supervision list \<Rightarrow> nat option \<Rightarrow> bool" where
  "found_allowed env rs i = (case i of None \<Rightarrow> False | Some i \<Rightarrow> sup_allowed env (rs ! i))"

definition rrserver_supervision_allowed :: "sup_env \<Rightarrow> supervision list \<Rightarrow> nat \<Rightarrow> bool" where
  "rrserver_supervision_allowed env rs c =
     (if \<not> eligible env (Some c) then False
      else if \<not> needs_supervision env (Some c) then True
      else found_allowed env rs (sup_find env c (Some (cn_ptt_room (se_conn env c))) rs))"

text \<open>The ticket and the names of the active operators, for the log of a transmission.\<close>

definition rrserver_supervision_snapshot :: "sup_env \<Rightarrow> supervision list \<Rightarrow> nat option \<Rightarrow> cstr \<Rightarrow> string \<times> nat list" where
  "rrserver_supervision_snapshot env rs client room =
     (let i = (case client of None \<Rightarrow> None | Some c \<Rightarrow> sup_find env c room rs) in
      if \<not> needs_supervision env client \<or> \<not> found_allowed env rs i then ([], [])
      else (su_id (rs ! the i), map (the \<circ> sv_client) (filter (sup_active env) (su_elmers (rs ! the i)))))"

section \<open>Offers\<close>

text \<open>The last free entry of the invitations, unless the client already has one.\<close>

definition last_idx :: "('a \<Rightarrow> bool) \<Rightarrow> 'a list \<Rightarrow> nat option" where
  "last_idx P xs = (case filter (\<lambda>i. P (xs ! i)) [0..<length xs] of [] \<Rightarrow> None | is \<Rightarrow> Some (last is))"

definition offer :: "sup_env \<Rightarrow> nat option \<Rightarrow> nat \<Rightarrow> supervision \<Rightarrow> supervision \<times> sup_effect list" where
  "offer env closing c r =
     (if closing = Some c \<or> \<not> is_elmer env (Some c) \<or> su_client r = Some c then (r, [])
      else if list_ex (\<lambda>s. sv_client s = Some c \<and> sv_token s = cn_token (se_conn env c)) (su_invited r) then (r, [])
      else case last_idx (\<lambda>s. sv_client s = None) (su_invited r) of
        None \<Rightarrow> (r, [])
      | Some i \<Rightarrow> (r\<lparr>su_invited := (su_invited r)[i := (su_invited r ! i)\<lparr>sv_client := Some c, sv_token := cn_token (se_conn env c)\<rparr>]\<rparr>,
                   [Status c ''request'' (su_id r) (su_room r)]))"

fun offer_all :: "sup_env \<Rightarrow> nat option \<Rightarrow> nat list \<Rightarrow> supervision \<Rightarrow> supervision \<times> sup_effect list" where
  "offer_all env closing [] r = (r, [])"
| "offer_all env closing (c # cs) r =
     (let (r, out) = offer env closing c r; (r, out') = offer_all env closing cs r in (r, out @ out'))"

definition close_offer :: "sup_env \<Rightarrow> supervision \<Rightarrow> sup_effect list" where
  "close_offer env r = map (\<lambda>c. Status c ''closed'' (su_id r) (su_room r)) (filter (\<lambda>c. is_elmer env (Some c)) (se_live env))"

section \<open>The tick\<close>

definition revoke :: "supervision \<Rightarrow> supervision" where
  "revoke r = r\<lparr>su_granted := False, su_elmers := map (\<lambda>_. no_supervisor) (su_elmers r), su_id := [],
     su_invited := map (\<lambda>_. no_supervisor) (su_invited r)\<rparr>"

definition tick_one :: "nat option \<Rightarrow> supervision \<Rightarrow> sup_env \<Rightarrow> supervision \<times> sup_env \<times> sup_effect list" where
  "tick_one closing r env = (case su_client r of
     None \<Rightarrow> (r, env, [])
   | Some c \<Rightarrow>
       (let revoked = su_granted r \<and> \<not> sup_allowed env r;
            told = (if revoked then close_offer env r @ [Status c ''revoked'' (su_id r) (su_room r)] else []);
            r = (if revoked then revoke r else r);
            (r, offers) = (if su_id r \<noteq> [] then offer_all env closing (se_live env) r else (r, [])) in
        if \<not> sup_allowed env r \<and> cn_ptt (se_conn env c) \<and> su_room r = cn_ptt_room (se_conn env c)
        then (r, env\<lparr>se_conn := se_all_off env (se_conn env)\<rparr>, told @ offers @ [All_off])
        else (r, env, told @ offers)))"

fun tick_all :: "nat option \<Rightarrow> supervision list \<Rightarrow> sup_env \<Rightarrow> supervision list \<times> sup_env \<times> sup_effect list" where
  "tick_all closing [] env = ([], env, [])"
| "tick_all closing (r # rs) env =
     (let (r, env, out) = tick_one closing r env; (rs, env, out') = tick_all closing rs env in (r # rs, env, out @ out'))"

definition rrserver_supervision_tick :: "sup_env \<Rightarrow> supervision list \<Rightarrow> supervision list \<times> sup_env \<times> sup_effect list" where
  "rrserver_supervision_tick env rs = tick_all None rs env"

section \<open>Requests\<close>

text \<open>Whether the client may transmit in the room; \<open>ask\<close> requests supervision if not, under the ticket \<open>random\<close>.\<close>

definition open_request :: "sup_env \<Rightarrow> nat \<Rightarrow> cstr \<Rightarrow> string \<Rightarrow> supervision \<Rightarrow> supervision \<times> sup_effect list" where
  "open_request env c room random r =
     (let r = r\<lparr>su_client := Some c, su_token := cn_token (se_conn env c),
                su_room := snprintf_s 128 (case room of None \<Rightarrow> se_home_room env | Some s \<Rightarrow> s), su_id := random\<rparr>;
          (r, offers) = offer_all env None (se_live env) r
      in (r, offers @ [Status c ''pending'' (su_id r) (su_room r)]))"

definition sup_check :: "sup_env \<Rightarrow> nat \<Rightarrow> cstr \<Rightarrow> bool \<Rightarrow> string \<Rightarrow> supervision list \<Rightarrow> bool \<times> supervision list \<times> sup_env \<times> sup_effect list" where
  "sup_check env c room ask random rs =
     (let (rs, env, out) = rrserver_supervision_tick env rs;
          i = sup_find env c room rs;
          ok = eligible env (Some c) \<and> (\<not> needs_supervision env (Some c) \<or> found_allowed env rs i) in
      if ok \<or> \<not> ask \<or> \<not> eligible env (Some c) then (ok, rs, env, out)
      else if i \<noteq> None \<and> su_id (rs ! the i) \<noteq> [] then (ok, rs, env, out)
      else case (case i of Some i \<Rightarrow> Some i | None \<Rightarrow> find_idx (\<lambda>r. su_client r = None) rs) of
        None \<Rightarrow> (ok, rs, env, out)
      | Some i \<Rightarrow> (case open_request env c room random (rs ! i) of (r, out') \<Rightarrow> (ok, rs[i := r], env, out @ out')))"

section \<open>Commands of an operator\<close>

text \<open>\<open>sscanf(text, "%15s %32s %1s")\<close>: the words read.\<close>

definition scan_word :: "nat \<Rightarrow> string \<Rightarrow> string \<times> string" where
  "scan_word n s = (let t = dropWhile is_space s; w = take n (takeWhile (\<lambda>c. \<not> is_space c) t) in (w, drop (length w) t))"

fun scan_words :: "nat list \<Rightarrow> string \<Rightarrow> string list" where
  "scan_words [] s = []"
| "scan_words (n # ns) s = (case scan_word n s of (w, rest) \<Rightarrow> if w = [] then [] else w # scan_words ns rest)"

definition named_request :: "string \<Rightarrow> string \<Rightarrow> supervision \<Rightarrow> bool" where
  "named_request ticket room r \<longleftrightarrow> su_client r \<noteq> None \<and> su_id r = ticket \<and> su_room r = room"

definition withdraw :: "nat \<Rightarrow> supervision \<Rightarrow> supervision" where
  "withdraw c r = r\<lparr>su_elmers := map (\<lambda>s. if sv_client s = Some c then no_supervisor else s) (su_elmers r)\<rparr>"

definition accept_slot :: "sup_env \<Rightarrow> nat \<Rightarrow> supervision \<Rightarrow> nat option" where
  "accept_slot env c r = (case find_idx (\<lambda>s. sv_client s = Some c) (su_elmers r) of
     Some i \<Rightarrow> Some i
   | None \<Rightarrow> last_idx (\<lambda>s. \<not> sup_active env s) (su_elmers r))"

definition accept :: "sup_env \<Rightarrow> nat \<Rightarrow> nat \<Rightarrow> supervision \<Rightarrow> supervision" where
  "accept env c i r = r\<lparr>su_elmers := (su_elmers r)[i := \<lparr>sv_client = Some c, sv_token = cn_token (se_conn env c), sv_active = se_now env\<rparr>],
     su_granted := True\<rparr>"

definition sup_command :: "sup_env \<Rightarrow> nat \<Rightarrow> string \<Rightarrow> string \<Rightarrow> supervision list \<Rightarrow> supervision list \<times> sup_env \<times> sup_effect list" where
  "sup_command env c text room rs =
     (if \<not> is_elmer env (Some c) then (rs, env, [Sup_error c])
      else let words = scan_words [15, 32, 1] text;
               i = (case words of [action, ticket] \<Rightarrow> last_idx (named_request ticket room) rs | _ \<Rightarrow> None) in
        case i of
          None \<Rightarrow> (rs, env, [Sup_error c])
        | Some i \<Rightarrow>
            (let r = rs ! i; action = hd words in
             if \<not> eligible env (su_client r) \<or> su_client r = Some c then (rs, env, [Sup_error c])
             else if strcaseeq action ''decline''
             then (let (rs, env, out) = rrserver_supervision_tick env (rs[i := withdraw c r])
                   in (rs, env, Status c ''closed'' (su_id r) (su_room r) # out))
             else if strcaseeq action ''accept''
             then (case accept_slot env c r of
                     Some j \<Rightarrow> (rs[i := accept env c j r], env,
                       [Status c ''accepted'' (su_id r) (su_room r), Status (the (su_client r)) ''granted'' (su_id r) (su_room r)])
                   | None \<Rightarrow> (rs, env, [Sup_error c]))
             else (rs, env, [Sup_error c])))"

section \<open>Closing and activity\<close>

definition close_one :: "sup_env \<Rightarrow> nat \<Rightarrow> supervision \<Rightarrow> supervision \<times> sup_effect list" where
  "close_one env c r =
     (let out = (if su_client r = Some c then close_offer env r else []);
          r = (if su_client r = Some c then no_supervision (length (su_elmers r)) else r);
          clear = map (\<lambda>s. if sv_client s = Some c then no_supervisor else s)
      in (r\<lparr>su_elmers := clear (su_elmers r), su_invited := clear (su_invited r)\<rparr>, out))"

definition sup_closed :: "sup_env \<Rightarrow> nat \<Rightarrow> supervision list \<Rightarrow> supervision list \<times> sup_env \<times> sup_effect list" where
  "sup_closed env c rs =
     (let (rs', env', out) = tick_all (Some c) (map (fst \<circ> close_one env c) rs) env
      in (rs', env', concat (map (snd \<circ> close_one env c) rs) @ out))"

text \<open>What counts as a sign of life: chat, consent, tuning, keying and property changes.\<close>

definition human :: "dict \<Rightarrow> bool" where
  "human d = (let type = dict_get d ''msg.type'' ''''; cmd = dict_get d ''talk.cmd'' '''' in
     (type = ''talk'' \<and> (cmd = ''msg'' \<or> cmd = ''supervise'')) \<or>
     (type = ''cat'' \<and> (map_of d ''cat.ptt'' \<noteq> None \<or> map_of d ''cat.freq'' \<noteq> None \<or> map_of d ''cat.mode'' \<noteq> None \<or>
        map_of d ''cat.power'' \<noteq> None \<or> map_of d ''cat.width'' \<noteq> None)) \<or>
     (type = ''property'' \<and> dict_get d ''property.cmd'' '''' = ''set''))"

definition refresh_one :: "sup_env \<Rightarrow> nat \<Rightarrow> supervision \<Rightarrow> supervision" where
  "refresh_one env c r = r\<lparr>su_elmers := map (\<lambda>s. if sv_client s = Some c \<and> sup_active env s then s\<lparr>sv_active := se_now env\<rparr> else s) (su_elmers r)\<rparr>"

definition sup_activity :: "sup_env \<Rightarrow> nat \<Rightarrow> dict \<Rightarrow> supervision list \<Rightarrow> supervision list \<times> sup_env \<times> sup_effect list" where
  "sup_activity env c d rs =
     (if \<not> human d then (rs, env, [])
      else let (rs, env, out) = rrserver_supervision_tick env rs in (map (refresh_one env c) rs, env, out))"

section \<open>Runs and consent\<close>

datatype sup_event =
    Sup_tick
  | Sup_check nat cstr bool string
  | Sup_command nat string string
  | Sup_closed nat
  | Sup_activity nat dict

fun sup_step :: "sup_env \<times> sup_event \<Rightarrow> supervision list \<Rightarrow> supervision list" where
  "sup_step (env, Sup_tick) rs = fst (rrserver_supervision_tick env rs)"
| "sup_step (env, Sup_check c room ask random) rs = fst (snd (sup_check env c room ask random rs))"
| "sup_step (env, Sup_command c text room) rs = fst (sup_command env c text room rs)"
| "sup_step (env, Sup_closed c) rs = fst (sup_closed env c rs)"
| "sup_step (env, Sup_activity c d) rs = fst (sup_activity env c d rs)"

definition sup_run :: "nat \<Rightarrow> (sup_env \<times> sup_event) list \<Rightarrow> supervision list" where
  "sup_run n h = fold sup_step h (replicate n (no_supervision n))"

text \<open>The tickets asked for, in order.\<close>

fun tickets :: "(sup_env \<times> sup_event) list \<Rightarrow> string list" where
  "tickets [] = []"
| "tickets ((env, Sup_check c room ask random) # h) = random # tickets h"
| "tickets (_ # h) = tickets h"

text \<open>A command of operator \<open>e\<close> about the ticket, in words.\<close>

definition says :: "string \<Rightarrow> string \<Rightarrow> string \<Rightarrow> bool" where
  "says action ticket text \<longleftrightarrow> (\<exists>a. scan_words [15, 32, 1] text = [a, ticket] \<and> strcaseeq a action)"

text \<open>
  \<open>consent h c room ticket e token t\<close>: in the history \<open>h\<close> the elmer \<open>e\<close>, not \<open>c\<close> itself, accepted
  the ticket, which \<open>c\<close> had asked for before; since then \<open>e\<close> has not withdrawn it and neither has
  disconnected; \<open>t\<close> is the time of the acceptance or of a later sign of life of \<open>e\<close>.
\<close>

definition undone :: "nat \<Rightarrow> string \<Rightarrow> string \<Rightarrow> nat \<Rightarrow> sup_env \<times> sup_event \<Rightarrow> bool" where
  "undone c room ticket e x \<longleftrightarrow> snd x = Sup_closed e \<or> snd x = Sup_closed c \<or>
     (\<exists>text. snd x = Sup_command e text room \<and> says ''decline'' ticket text \<and> is_elmer (fst x) (Some e) \<and> eligible (fst x) (Some c))"

definition issued :: "(sup_env \<times> sup_event) list \<Rightarrow> nat \<Rightarrow> string \<Rightarrow> bool" where
  "issued h c ticket \<longleftrightarrow> (\<exists>env room. (env, Sup_check c room True ticket) \<in> set h)"

definition consent :: "(sup_env \<times> sup_event) list \<Rightarrow> nat \<Rightarrow> string \<Rightarrow> string \<Rightarrow> nat \<Rightarrow> string \<Rightarrow> int \<Rightarrow> bool" where
  "consent h c room ticket e token t \<longleftrightarrow> (\<exists>pre post env text. h = pre @ (env, Sup_command e text room) # post \<and>
     says ''accept'' ticket text \<and> is_elmer env (Some e) \<and> eligible env (Some c) \<and> e \<noteq> c \<and> cn_token (se_conn env e) = token \<and>
     issued pre c ticket \<and> (\<forall>x \<in> set post. \<not> undone c room ticket e x) \<and>
     (t = se_now env \<or> (\<exists>env' d. (env', Sup_activity e d) \<in> set post \<and> human d \<and> t = se_now env')))"

lemma consent_more: "consent h c room ticket e token t \<Longrightarrow> \<not> undone c room ticket e x \<Longrightarrow> consent (h @ [x]) c room ticket e token t"
  unfolding consent_def
proof (elim exE conjE, goal_cases)
  case (1 pre post env line)
  then show ?case
    by (intro exI [of _ pre] exI [of _ "post @ [x]"] exI [of _ env] exI [of _ line]) auto
qed

lemma consent_active:
  "consent h c room ticket e token t \<Longrightarrow> human d \<Longrightarrow> consent (h @ [(env', Sup_activity e d)]) c room ticket e token (se_now env')"
  unfolding consent_def
proof (elim exE conjE, goal_cases)
  case (1 pre post env line)
  then show ?case
    by (intro exI [of _ pre] exI [of _ "post @ [(env', Sup_activity e d)]"] exI [of _ env] exI [of _ line]) (auto simp: undone_def)
qed

lemma issued_more: "issued h c ticket \<Longrightarrow> issued (h @ [x]) c ticket"
  by (simp add: issued_def) blast

lemma tickets_snoc: "tickets (h @ [x]) = tickets h @ tickets [x]"
  by (induction h rule: tickets.induct) auto

section \<open>The invariant\<close>

definition pending_ok :: "(sup_env \<times> sup_event) list \<Rightarrow> supervision \<Rightarrow> bool" where
  "pending_ok h r \<longleftrightarrow> (su_client r = None \<longrightarrow> su_id r = []) \<and>
     (su_id r = [] \<longrightarrow> \<not> su_granted r \<and> (\<forall>s \<in> set (su_elmers r). sv_client s = None)) \<and>
     (su_id r \<noteq> [] \<longrightarrow> su_id r \<in> set (tickets h)) \<and>
     (\<forall>c. su_client r = Some c \<longrightarrow>
        (su_id r \<noteq> [] \<longrightarrow> issued h c (su_id r)) \<and>
        (\<forall>s \<in> set (su_elmers r). \<forall>e. sv_client s = Some e \<longrightarrow> consent h c (su_room r) (su_id r) e (sv_token s) (sv_active s)))"

definition open_ids :: "supervision list \<Rightarrow> string list" where
  "open_ids rs = filter (\<lambda>i. i \<noteq> []) (map su_id rs)"

definition sup_inv :: "(sup_env \<times> sup_event) list \<Rightarrow> supervision list \<Rightarrow> bool" where
  "sup_inv h rs \<longleftrightarrow> (\<forall>r \<in> set rs. pending_ok h r) \<and> distinct (open_ids rs)"

text \<open>What the tick does to a request: nothing that matters, or an end to everything granted.\<close>

definition tamed :: "supervision \<Rightarrow> supervision \<Rightarrow> bool" where
  "tamed r r' \<longleftrightarrow> su_client r' = su_client r \<and> su_room r' = su_room r \<and>
     ((su_id r' = su_id r \<and> su_elmers r' = su_elmers r \<and> su_granted r' = su_granted r) \<or>
      (su_id r' = [] \<and> \<not> su_granted r' \<and> (\<forall>s \<in> set (su_elmers r'). sv_client s = None) \<and> su_client r \<noteq> None))"

lemma offer_only_invites: "\<exists>inv. fst (offer_all env closing cs r) = r\<lparr>su_invited := inv\<rparr>"
proof (induction cs arbitrary: r)
  case (Cons c cs)
  have "\<exists>inv. fst (offer env closing c r) = r\<lparr>su_invited := inv\<rparr>"
    by (auto simp: offer_def split: option.splits intro: exI [of _ "su_invited r"])
  with Cons [of "fst (offer env closing c r)"] show ?case by (auto simp: Let_def split: prod.splits)
next
  case Nil
  have "r = r\<lparr>su_invited := su_invited r\<rparr>" by simp
  then show ?case unfolding offer_all.simps fst_conv by (rule exI)
qed

lemma tick_one_tamed: "tick_one closing r env = (r', env', out) \<Longrightarrow> tamed r r'"
proof (cases "su_client r")
  case (Some c)
  assume t: "tick_one closing r env = (r', env', out)"
  define r1 where "r1 = (if su_granted r \<and> \<not> sup_allowed env r then revoke r else r)"
  have r1: "tamed r r1" using Some by (auto simp: r1_def tamed_def revoke_def no_supervisor_def)
  have "\<exists>inv. r' = r1\<lparr>su_invited := inv\<rparr>"
    using t Some offer_only_invites [of env closing "se_live env" r1] unfolding tick_one_def Let_def r1_def [symmetric]
    by (auto split: prod.splits if_splits intro: exI [of _ "su_invited r1"])
  with r1 show ?thesis by (auto simp: tamed_def)
qed (auto simp: tick_one_def tamed_def)

lemma tick_all_tamed: "tick_all closing rs env = (rs', env', out) \<Longrightarrow> list_all2 tamed rs rs'"
proof (induction rs arbitrary: env rs' env' out)
  case (Cons r rs)
  then show ?case by (auto simp: Let_def split: prod.splits dest: tick_one_tamed)
qed simp

lemma tamed_ok: "pending_ok h r \<Longrightarrow> tamed r r' \<Longrightarrow> pending_ok h r'"
  by (auto simp: pending_ok_def tamed_def)

lemma open_ids_simps [simp]: "open_ids [] = []" "open_ids (r # rs) = (if su_id r = [] then open_ids rs else su_id r # open_ids rs)"
  by (simp_all add: open_ids_def)

lemma tamed_ids: "list_all2 tamed rs rs' \<Longrightarrow> distinct (open_ids rs) \<Longrightarrow> distinct (open_ids rs') \<and> set (open_ids rs') \<subseteq> set (open_ids rs)"
proof (induction rs rs' rule: list_all2_induct)
  case (Cons r rs r' rs')
  then have "su_id r' = su_id r \<or> su_id r' = []" by (auto simp: tamed_def)
  with Cons show ?case by (auto split: if_splits)
qed simp

lemma tick_inv: "sup_inv h rs \<Longrightarrow> sup_inv h (fst (tick_all closing rs env))"
proof -
  assume inv: "sup_inv h rs"
  obtain rs' env' out where t: "tick_all closing rs env = (rs', env', out)" by (metis prod_cases3)
  from tick_all_tamed [OF t] inv tamed_ids have "distinct (open_ids rs')" by (simp add: sup_inv_def)
  moreover have "\<forall>r' \<in> set rs'. pending_ok h r'"
    using tick_all_tamed [OF t] inv tamed_ok by (metis in_set_conv_nth list_all2_conv_all_nth sup_inv_def)
  ultimately show ?thesis using t by (simp add: sup_inv_def)
qed

lemma pending_ok_more:
  assumes "pending_ok h r" "\<And>c s e. su_client r = Some c \<Longrightarrow> s \<in> set (su_elmers r) \<Longrightarrow> sv_client s = Some e \<Longrightarrow> \<not> undone c (su_room r) (su_id r) e x"
  shows "pending_ok (h @ [x]) r"
proof -
  have "consent (h @ [x]) c (su_room r) (su_id r) e (sv_token s) (sv_active s)"
    if "su_client r = Some c" "s \<in> set (su_elmers r)" "sv_client s = Some e" for c s e
    using assms(1) consent_more [OF _ assms(2) [OF that]] that by (auto simp: pending_ok_def)
  with assms(1) show ?thesis by (auto simp: pending_ok_def tickets_snoc issued_more)
qed

lemma last_idx_SomeD: "last_idx P xs = Some i \<Longrightarrow> i < length xs \<and> P (xs ! i)"
proof -
  assume "last_idx P xs = Some i"
  then have n: "filter (\<lambda>i. P (xs ! i)) [0..<length xs] \<noteq> []" and i: "i = last (filter (\<lambda>i. P (xs ! i)) [0..<length xs])"
    by (auto simp: last_idx_def split: list.splits)
  from last_in_set [OF n] i show ?thesis by simp
qed

lemma last_idx_None: "last_idx P xs = None \<longleftrightarrow> (\<forall>x \<in> set xs. \<not> P x)"
proof -
  have "last_idx P xs = None \<longleftrightarrow> filter (\<lambda>i. P (xs ! i)) [0..<length xs] = []"
    unfolding last_idx_def by (cases "filter (\<lambda>i. P (xs ! i)) [0..<length xs]") simp_all
  also have "\<dots> \<longleftrightarrow> (\<forall>i < length xs. \<not> P (xs ! i))" by (auto simp: filter_empty_conv)
  also have "\<dots> \<longleftrightarrow> (\<forall>x \<in> set xs. \<not> P x)" by (simp add: all_set_conv_all_nth)
  finally show ?thesis .
qed

lemma open_ids_append: "open_ids (xs @ ys) = open_ids xs @ open_ids ys"
  by (simp add: open_ids_def)

lemma open_ids_update:
  assumes "i < length rs" "distinct (open_ids rs)" "su_id r = su_id (rs ! i) \<or> (su_id (rs ! i) = [] \<and> su_id r \<notin> set (open_ids rs))"
  shows "distinct (open_ids (rs[i := r]))"
proof -
  obtain xs ys where s: "rs = xs @ rs ! i # ys" "length xs = i" using id_take_nth_drop [OF assms(1)] assms(1) by (metis length_take min.absorb4)
  obtain r0 where r0: "rs ! i = r0" by simp
  have rs: "rs = xs @ r0 # ys" using s r0 by simp
  have "rs[i := r] = xs @ r # ys" using s(2) by (simp add: rs list_update_append)
  then show ?thesis using assms(2,3) unfolding r0 by (auto simp: rs open_ids_append split: if_splits)
qed

lemma filter_distinct_nth: "distinct (filter P xs) \<Longrightarrow> i < length xs \<Longrightarrow> j < length xs \<Longrightarrow> xs ! i = xs ! j \<Longrightarrow> P (xs ! i) \<Longrightarrow> i = j"
proof (induction xs arbitrary: i j)
  case (Cons x xs)
  then show ?case by (cases i; cases j) (auto split: if_splits)
qed simp

lemma open_ids_unique:
  "distinct (open_ids rs) \<Longrightarrow> i < length rs \<Longrightarrow> j < length rs \<Longrightarrow> su_id (rs ! i) = su_id (rs ! j) \<Longrightarrow> su_id (rs ! i) \<noteq> [] \<Longrightarrow> i = j"
  using filter_distinct_nth [of "\<lambda>i. i \<noteq> []" "map su_id rs" i j] by (simp add: open_ids_def)

lemma update_inv:
  assumes "sup_inv h rs" "i < length rs" "pending_ok h r" "su_id r = su_id (rs ! i) \<or> (su_id (rs ! i) = [] \<and> su_id r \<notin> set (open_ids rs))"
  shows "sup_inv h (rs[i := r])"
  using assms open_ids_update [OF assms(2) _ assms(4)] set_update_subset_insert [of rs i r] by (auto simp: sup_inv_def)

lemma inv_more:
  assumes "sup_inv h rs" "\<And>r c s e. r \<in> set rs \<Longrightarrow> su_client r = Some c \<Longrightarrow> s \<in> set (su_elmers r) \<Longrightarrow> sv_client s = Some e \<Longrightarrow>
    \<not> undone c (su_room r) (su_id r) e x"
  shows "sup_inv (h @ [x]) rs"
  using assms pending_ok_more unfolding sup_inv_def by metis

lemma quiet_inv: "sup_inv h rs \<Longrightarrow> \<forall>c t. snd x \<noteq> Sup_closed c \<Longrightarrow> (\<And>e text room. snd x \<noteq> Sup_command e text room) \<Longrightarrow> sup_inv (h @ [x]) rs"
  by (rule inv_more) (auto simp: undone_def)

lemma scan_word_nonempty: "w \<in> set (scan_words ns s) \<Longrightarrow> w \<noteq> []"
  by (induction ns s rule: scan_words.induct) (auto split: prod.splits if_splits)

lemma check_inv:
  assumes "sup_inv h rs" "random \<noteq> []" "random \<notin> set (tickets h)"
    and x_def: "x = (env, Sup_check c room ask random)"
  shows "sup_inv (h @ [x]) (sup_step x rs)"
proof -
  obtain rs1 env1 out where t: "rrserver_supervision_tick env rs = (rs1, env1, out)" by (metis prod_cases3)
  have h: "sup_inv h rs1" using tick_inv [OF assms(1), of None env] t by (simp add: rrserver_supervision_tick_def)
  then have inv: "sup_inv (h @ [x]) rs1" by (rule quiet_inv) (simp_all add: x_def)
  define i where "i = sup_find env1 c room rs1"
  define slot where "slot = (case i of Some i \<Rightarrow> Some i | None \<Rightarrow> find_idx (\<lambda>r. su_client r = None) rs1)"
  consider "sup_step x rs = rs1"
    | j where "slot = Some j" "ask" "i = None \<or> su_id (rs1 ! the i) = []" "sup_step x rs = rs1[j := fst (open_request env1 c room random (rs1 ! j))]"
  proof -
    have "sup_step x rs = rs1 \<or> (\<exists>j. slot = Some j \<and> ask \<and> (i = None \<or> su_id (rs1 ! the i) = []) \<and>
        sup_step x rs = rs1[j := fst (open_request env1 c room random (rs1 ! j))])"
      unfolding x_def sup_step.simps sup_check_def t Let_def prod.case i_def [symmetric] slot_def [symmetric]
      by (cases slot) (simp_all add: split_beta)
    with that show thesis by blast
  qed
  then show ?thesis
  proof cases
    case 1
    with inv show ?thesis by simp
  next
    case (2 j)
    have j: "j < length rs1" "su_id (rs1 ! j) = []"
    proof -
      have "j < length rs1 \<and> (i = Some j \<or> su_client (rs1 ! j) = None)"
      proof (cases i)
        case None
        then show ?thesis using 2(1) find_idx_SomeD [of "\<lambda>r. su_client r = None" rs1 j] by (simp add: slot_def)
      next
        case (Some k)
        then show ?thesis using 2(1) find_idx_SomeD by (fastforce simp: slot_def i_def sup_find_def)
      qed
      moreover have "pending_ok h (rs1 ! j)" if "j < length rs1" using h that by (simp add: sup_inv_def)
      ultimately show "j < length rs1" "su_id (rs1 ! j) = []" using 2(3) by (auto simp: pending_ok_def)
    qed
    let ?r = "fst (open_request env1 c room random (rs1 ! j))"
    obtain inv' where r: "?r = (rs1 ! j)\<lparr>su_client := Some c, su_token := cn_token (se_conn env1 c),
        su_room := snprintf_s 128 (case room of None \<Rightarrow> se_home_room env1 | Some s \<Rightarrow> s), su_id := random, su_invited := inv'\<rparr>"
      using offer_only_invites [of env1 None "se_live env1" "(rs1 ! j)\<lparr>su_client := Some c, su_token := cn_token (se_conn env1 c),
        su_room := snprintf_s 128 (case room of None \<Rightarrow> se_home_room env1 | Some s \<Rightarrow> s), su_id := random\<rparr>"]
      by (auto simp: open_request_def Let_def split_beta)
    have "pending_ok h (rs1 ! j)" using h j(1) by (simp add: sup_inv_def)
    then have "\<not> su_granted (rs1 ! j)" "\<forall>s \<in> set (su_elmers (rs1 ! j)). sv_client s = None" using j(2) by (simp_all add: pending_ok_def)
    then have "pending_ok (h @ [x]) ?r" using assms(2) 2(2) by (auto simp: pending_ok_def r x_def tickets_snoc issued_def)
    moreover have "random \<notin> set (open_ids rs1)" using h assms(3) by (auto simp: sup_inv_def open_ids_def pending_ok_def)
    then have "su_id ?r \<notin> set (open_ids rs1)" by (simp add: r)
    ultimately show ?thesis using 2(4) update_inv [OF inv j(1), of ?r] j(2) by simp
  qed
qed

lemma accept_not_decline: "strcaseeq a ''accept'' \<Longrightarrow> \<not> strcaseeq a ''decline''"
proof
  assume "strcaseeq a ''accept''" "strcaseeq a ''decline''"
  then have "map to_lower ''accept'' = map to_lower ''decline''" by (simp only: strcaseeq_def)
  moreover have "map to_lower ''accept'' \<noteq> map to_lower ''decline''" by code_simp
  ultimately show False by blast
qed

text \<open>Which request a command changes, and how.\<close>

lemma command_cases:
  obtains (refused) "sup_step (env, Sup_command e text room) rs = rs"
      "\<forall>ticket i c. says ''decline'' ticket text \<longrightarrow> is_elmer env (Some e) \<longrightarrow> last_idx (named_request ticket room) rs = Some i \<longrightarrow>
         su_client (rs ! i) = Some c \<longrightarrow> c = e \<or> \<not> eligible env (Some c)"
    | (withdrawn) ticket i where "says ''decline'' ticket text" "last_idx (named_request ticket room) rs = Some i"
      "sup_step (env, Sup_command e text room) rs = fst (tick_all None (rs[i := withdraw e (rs ! i)]) env)"
    | (accepted) ticket i c j where "is_elmer env (Some e)" "says ''accept'' ticket text" "\<And>t. \<not> says ''decline'' t text"
      "last_idx (named_request ticket room) rs = Some i" "su_client (rs ! i) = Some c" "c \<noteq> e" "eligible env (Some c)"
      "sup_step (env, Sup_command e text room) rs = rs[i := accept env e j (rs ! i)]" "ticket \<noteq> []"
proof -
  let ?words = "scan_words [15, 32, 1] text"
  let ?step = "sup_step (env, Sup_command e text room) rs"
  consider "\<not> is_elmer env (Some e)" | "\<forall>a t. ?words \<noteq> [a, t]"
    | a t where "is_elmer env (Some e)" "?words = [a, t]" "last_idx (named_request t room) rs = None"
    | a t i where "is_elmer env (Some e)" "?words = [a, t]" "last_idx (named_request t room) rs = Some i"
    by (cases "is_elmer env (Some e)") (auto, metis not_Some_eq)
  then show thesis
  proof cases
    case 1
    then show thesis by (intro refused) (auto simp: sup_command_def)
  next
    case 2
    then have "?step = rs" by (auto simp: sup_command_def Let_def split: list.splits)
    moreover have "\<not> says action ticket text" for action ticket using 2 by (auto simp: says_def)
    ultimately show thesis by (intro refused) auto
  next
    case 3
    then show thesis by (intro refused) (auto simp: sup_command_def says_def)
  next
    case (4 a t i)
    have w: "a \<in> set ?words" "t \<in> set ?words" using 4(2) by auto
    have t: "says action ticket text \<longleftrightarrow> ticket = t \<and> strcaseeq a action" for action ticket using 4(2) by (auto simp: says_def)
    obtain c where c: "su_client (rs ! i) = Some c" using last_idx_SomeD [OF 4(3)] by (auto simp: named_request_def)
    show thesis
    proof (cases "\<not> eligible env (Some c) \<or> c = e")
      case True
      then show thesis using 4 c by (intro refused) (auto simp: sup_command_def t)
    next
      case ok: False
      show thesis
      proof (cases "strcaseeq a ''decline''")
        case True
        with 4 ok c have "?step = fst (tick_all None (rs[i := withdraw e (rs ! i)]) env)"
          by (simp add: sup_command_def rrserver_supervision_tick_def split_beta Let_def del: scan_words.simps)
        with True 4 show thesis by (intro withdrawn) (simp_all add: t)
      next
        case no: False
        show thesis
        proof (cases "strcaseeq a ''accept'' \<and> accept_slot env e (rs ! i) \<noteq> None")
          case True
          then obtain j where "accept_slot env e (rs ! i) = Some j" by auto
          with True no 4 ok c have "?step = rs[i := accept env e j (rs ! i)]" by (simp add: sup_command_def Let_def del: scan_words.simps)
          with True no 4 ok c scan_word_nonempty [OF w(2)] show thesis by (intro accepted [of t i c j]) (simp_all add: t)
        next
          case False
          with no 4 ok c have "?step = rs" by (auto simp: sup_command_def Let_def simp del: scan_words.simps)
          with no show thesis by (intro refused) (simp_all add: t)
        qed
      qed
    qed
  qed
qed

lemma command_inv:
  assumes inv: "sup_inv h rs"
  shows "sup_inv (h @ [(env, Sup_command e text room)]) (sup_step (env, Sup_command e text room) rs)"
proof -
  let ?x = "(env, Sup_command e text room)"
  have undone: "\<exists>ticket i. last_idx (named_request ticket room) rs = Some i \<and> says ''decline'' ticket text \<and> rs ! i = r \<and>
      is_elmer env (Some e) \<and> eligible env (Some c) \<and> c \<noteq> e \<and> e' = e \<and> su_room r = room"
    if "undone c (su_room r) (su_id r) e' ?x" "r \<in> set rs" "su_client r = Some c" "s \<in> set (su_elmers r)" "sv_client s = Some e'" for r c s e'
  proof -
    have u: "says ''decline'' (su_id r) text" "su_room r = room" "e' = e" "is_elmer env (Some e)" "eligible env (Some c)"
      using that(1) by (auto simp: undone_def)
    have "pending_ok h r" using inv that(2) by (simp add: sup_inv_def)
    with that(3-5) have id: "su_id r \<noteq> []" and "consent h c (su_room r) (su_id r) e' (sv_token s) (sv_active s)"
      by (auto simp: pending_ok_def)
    then have "c \<noteq> e" using u(3) by (auto simp: consent_def)
    have named: "named_request (su_id r) room r" using \<open>su_client r = Some c\<close> u(2) by (simp add: named_request_def)
    then obtain i where i: "last_idx (named_request (su_id r) room) rs = Some i" using last_idx_None [of "named_request (su_id r) room" rs] \<open>r \<in> set rs\<close> by (metis not_Some_eq)
    from last_idx_SomeD [OF i] have "i < length rs" "su_id (rs ! i) = su_id r" by (simp_all add: named_request_def)
    moreover obtain k where "k < length rs" "rs ! k = r" using \<open>r \<in> set rs\<close> by (auto simp: in_set_conv_nth)
    ultimately have "rs ! i = r" using open_ids_unique [of rs i k] inv id by (auto simp: sup_inv_def)
    with i u \<open>c \<noteq> e\<close> show ?thesis by blast
  qed
  have more: "sup_inv (h @ [?x]) rs" if "\<And>ticket i c. says ''decline'' ticket text \<Longrightarrow> is_elmer env (Some e) \<Longrightarrow>
      last_idx (named_request ticket room) rs = Some i \<Longrightarrow> su_client (rs ! i) = Some c \<Longrightarrow> c = e \<or> \<not> eligible env (Some c)"
  proof (rule inv_more [OF inv])
    fix r c s e'
    assume r: "r \<in> set rs" "su_client r = Some c" "s \<in> set (su_elmers r)" "sv_client s = Some e'"
    show "\<not> undone c (su_room r) (su_id r) e' ?x"
    proof
      assume "undone c (su_room r) (su_id r) e' ?x"
      from undone [OF this r] that r(2) show False by blast
    qed
  qed
  show ?thesis
  proof (cases rule: command_cases [of env e "text" room rs])
    case refused
    from refused(2) more have "sup_inv (h @ [?x]) rs" by blast
    with refused(1) show ?thesis by simp
  next
    case (withdrawn ticket i)
    have i: "i < length rs" using last_idx_SomeD [OF withdrawn(2)] by simp
    let ?rs = "rs[i := withdraw e (rs ! i)]"
    have "pending_ok (h @ [?x]) (?rs ! k)" if k: "k < length rs" for k
    proof (cases "k = i")
      case True
      have "pending_ok h (rs ! i)" using inv i by (simp add: sup_inv_def)
      then have "pending_ok h (withdraw e (rs ! i))" by (auto simp: pending_ok_def withdraw_def no_supervisor_def)
      then have "pending_ok (h @ [?x]) (withdraw e (rs ! i))"
        by (rule pending_ok_more) (auto simp: undone_def withdraw_def no_supervisor_def split: if_splits)
      with True i show ?thesis by simp
    next
      case False
      have "pending_ok h (rs ! k)" using inv k by (simp add: sup_inv_def)
      then have "pending_ok (h @ [?x]) (rs ! k)"
      proof (rule pending_ok_more)
        fix c s e'
        assume r: "su_client (rs ! k) = Some c" "s \<in> set (su_elmers (rs ! k))" "sv_client s = Some e'"
        show "\<not> undone c (su_room (rs ! k)) (su_id (rs ! k)) e' ?x"
        proof
          assume u: "undone c (su_room (rs ! k)) (su_id (rs ! k)) e' ?x"
          from undone [OF u _ r] k obtain t j where t: "last_idx (named_request t room) rs = Some j" "says ''decline'' t text" "rs ! j = rs ! k"
            by auto
          have "t = ticket" using t(2) withdrawn(1) by (auto simp: says_def)
          with t withdrawn(2) have "rs ! i = rs ! k" by simp
          moreover have "su_id (rs ! k) \<noteq> []" using inv k r by (auto simp: sup_inv_def pending_ok_def)
          ultimately show False using open_ids_unique [of rs i k] inv i k False by (auto simp: sup_inv_def)
        qed
      qed
      with False show ?thesis by simp
    qed
    moreover have "distinct (open_ids ?rs)" using inv open_ids_update [OF i] by (simp add: sup_inv_def withdraw_def)
    ultimately have "sup_inv (h @ [?x]) ?rs" by (auto simp: sup_inv_def in_set_conv_nth)
    then show ?thesis unfolding withdrawn(3) by (rule tick_inv)
  next
    case (accepted ticket i c j)
    have i: "i < length rs" "named_request ticket room (rs ! i)" using last_idx_SomeD [OF accepted(4)] by simp_all
    have rs: "sup_inv (h @ [?x]) rs" using accepted(3) more by blast
    have r: "pending_ok h (rs ! i)" "pending_ok (h @ [?x]) (rs ! i)" using inv rs i(1) by (simp_all add: sup_inv_def)
    have "consent (h @ [?x]) c room ticket e (cn_token (se_conn env e)) (se_now env)"
      unfolding consent_def
      using accepted(1,2,5-7,9) r(1) i(2)
      by (intro exI [of _ h] exI [of _ "[]"] exI [of _ env] exI [of _ "text"]) (auto simp: pending_ok_def named_request_def)
    with r(2) i(2) accepted(5,9) have "pending_ok (h @ [?x]) (accept env e j (rs ! i))"
      by (auto simp: pending_ok_def accept_def named_request_def dest!: set_update_subset_insert [THEN subsetD])
    then show ?thesis unfolding accepted(8) by (rule update_inv [OF rs i(1)]) (simp add: accept_def)
  qed
qed

lemma close_one_ok:
  assumes "pending_ok h r"
  shows "pending_ok (h @ [(env, Sup_closed c)]) (fst (close_one env c r))"
proof (cases "su_client r = Some c")
  case True
  then show ?thesis
    by (auto simp: close_one_def pending_ok_def no_supervision_def no_supervisor_def Let_def split: if_splits)
next
  case False
  have "pending_ok h (fst (close_one env c r))"
    using assms False by (auto simp: close_one_def pending_ok_def no_supervisor_def Let_def)
  then show ?thesis
    by (rule pending_ok_more) (use False in \<open>auto simp: close_one_def undone_def no_supervisor_def Let_def split: if_splits\<close>)
qed

lemma close_ids: "su_id (fst (close_one env c r)) = su_id r \<or> su_id (fst (close_one env c r)) = []"
  by (simp add: close_one_def no_supervision_def Let_def)

lemma closed_inv: "sup_inv h rs \<Longrightarrow> sup_inv (h @ [(env, Sup_closed c)]) (sup_step (env, Sup_closed c) rs)"
proof -
  assume inv: "sup_inv h rs"
  have "distinct (open_ids rs) \<Longrightarrow> distinct (open_ids (map (fst \<circ> close_one env c) rs)) \<and>
      set (open_ids (map (fst \<circ> close_one env c) rs)) \<subseteq> set (open_ids rs)" for rs
  proof (induction rs)
    case (Cons r rs)
    with close_ids [of env c r] show ?case by (auto split: if_splits)
  qed simp
  then have "sup_inv (h @ [(env, Sup_closed c)]) (map (fst \<circ> close_one env c) rs)"
    using inv close_one_ok by (auto simp: sup_inv_def)
  from tick_inv [OF this, of "Some c" env] show ?thesis by (simp add: sup_closed_def split_beta)
qed

text \<open>The tick changes connections, not the clock.\<close>

lemma tick_one_now: "se_now (fst (snd (tick_one closing r env))) = se_now env"
  unfolding tick_one_def by (cases "su_client r") (simp_all add: Let_def split_beta)

lemma tick_all_now: "se_now (fst (snd (tick_all closing rs env))) = se_now env"
proof (induction rs arbitrary: env)
  case (Cons r rs)
  then show ?case using tick_one_now [of closing r env] by (simp add: split_beta)
qed simp

lemma activity_inv: "sup_inv h rs \<Longrightarrow> sup_inv (h @ [(env, Sup_activity e d)]) (sup_step (env, Sup_activity e d) rs)"
proof -
  let ?x = "(env, Sup_activity e d)"
  assume inv: "sup_inv h rs"
  show ?thesis
  proof (cases "human d")
    case False
    then show ?thesis using quiet_inv [OF inv, of ?x] by (simp add: sup_activity_def)
  next
    case True
    obtain rs' env' out where t: "rrserver_supervision_tick env rs = (rs', env', out)" by (metis prod_cases3)
    have env: "se_now env' = se_now env" using t tick_all_now [of None rs env] by (simp add: rrserver_supervision_tick_def)
    have inv': "sup_inv h rs'" using tick_inv [OF inv, of None env] t by (simp add: rrserver_supervision_tick_def)
    have more: "sup_inv (h @ [?x]) rs'" using inv' by (rule quiet_inv) simp_all
    have "pending_ok (h @ [?x]) (refresh_one env' e r)" if r: "r \<in> set rs'" for r
    proof -
      have ok: "pending_ok h r" "pending_ok (h @ [?x]) r" using inv' more r by (simp_all add: sup_inv_def)
      have c: "consent (h @ [?x]) c (su_room r) (su_id r) f (sv_token s) (sv_active s)" "f = e \<Longrightarrow> consent (h @ [?x]) c (su_room r) (su_id r) e (sv_token s) (se_now env')"
        if "su_client r = Some c" "s \<in> set (su_elmers r)" "sv_client s = Some f" for c s f
        using ok that consent_active [OF _ True, of h c "su_room r" "su_id r" e "sv_token s" "sv_active s" env] env
        by (simp_all add: pending_ok_def)
      show ?thesis using ok(2) c by (auto simp: pending_ok_def refresh_one_def)
    qed
    moreover have "open_ids (map (refresh_one env' e) rs') = open_ids rs'"
      by (induction rs') (simp_all add: refresh_one_def)
    ultimately show ?thesis using True inv' t by (simp add: sup_activity_def sup_inv_def)
  qed
qed

lemma step_inv:
  assumes "sup_inv h rs" "distinct (tickets (h @ [x]))" "[] \<notin> set (tickets (h @ [x]))"
  shows "sup_inv (h @ [x]) (sup_step x rs)"
proof -
  obtain env ev where x: "x = (env, ev)" by (cases x)
  show ?thesis
  proof (cases ev)
    case Sup_tick
    have "sup_inv (h @ [x]) rs" using assms(1) by (rule quiet_inv) (simp_all add: x Sup_tick)
    then show ?thesis unfolding x Sup_tick by (simp add: rrserver_supervision_tick_def tick_inv)
  next
    case (Sup_check c room ask random)
    show ?thesis by (rule check_inv [OF assms(1) _ _ x [unfolded Sup_check]]) (use assms(2,3) in \<open>auto simp: tickets_snoc x Sup_check\<close>)
  qed (simp_all only: x command_inv [OF assms(1)] closed_inv [OF assms(1)] activity_inv [OF assms(1)])
qed

lemma sup_run_inv: "distinct (tickets h) \<Longrightarrow> [] \<notin> set (tickets h) \<Longrightarrow> sup_inv h (sup_run n h)"
proof (induction h rule: rev_induct)
  case Nil
  have "open_ids (replicate m (no_supervision n)) = []" for m by (induction m) (simp_all add: no_supervision_def)
  then show ?case by (simp add: sup_run_def sup_inv_def pending_ok_def no_supervision_def no_supervisor_def)
next
  case (snoc x h)
  then have "sup_inv h (sup_run n h)" by (simp add: tickets_snoc)
  from step_inv [OF this snoc.prems] show ?case by (simp add: sup_run_def)
qed

section \<open>What is promised\<close>

text \<open>
  C2. No transmission without a control operator: whenever a user who needs supervision is
  allowed to transmit, after any run of ticks, requests, commands, disconnections and activity, some
  elmer, eligible and logged in by the same token as then, has accepted a ticket this user had asked for in the room, has
  not withdrawn it, neither has disconnected since, and the elmer's last sign of life is within the idle limit.
\<close>

theorem supervised_transmission:
  assumes "distinct (tickets h)" "[] \<notin> set (tickets h)"
    and needs: "needs_supervision env (Some c)"
    and may: "rrserver_supervision_allowed env (sup_run n h) c"
  shows "\<exists>e ticket t. consent h c (cn_ptt_room (se_conn env c)) ticket e (cn_token (se_conn env e)) t \<and> is_elmer env (Some e) \<and>
    t \<le> se_now env \<and> se_now env - t < (if se_idle env \<le> 0 then 300 else se_idle env)"
proof -
  let ?rs = "sup_run n h"
  obtain i where i: "sup_find env c (Some (cn_ptt_room (se_conn env c))) ?rs = Some i" "sup_allowed env (?rs ! i)"
    using needs may by (auto simp: rrserver_supervision_allowed_def found_allowed_def split: if_splits option.splits)
  then have f: "i < length ?rs" "su_client (?rs ! i) = Some c" "su_room (?rs ! i) = cn_ptt_room (se_conn env c)"
    using find_idx_SomeD [OF i(1) [unfolded sup_find_def]] by simp_all
  from i(2) obtain s where s: "s \<in> set (su_elmers (?rs ! i))" "sup_active env s" by (auto simp: sup_allowed_def list_ex_iff)
  then obtain e where e: "sv_client s = Some e" by (cases "sv_client s") (simp_all add: sup_active_def is_elmer_def eligible_def)
  have "pending_ok h (?rs ! i)" using sup_run_inv [OF assms(1,2), of n] f(1) by (simp add: sup_inv_def)
  with f s e have "consent h c (cn_ptt_room (se_conn env c)) (su_id (?rs ! i)) e (sv_token s) (sv_active s)"
    by (auto simp: pending_ok_def)
  with s e show ?thesis
    by (intro exI [of _ e] exI [of _ "su_id (?rs ! i)"] exI [of _ "sv_active s"]) (simp add: sup_active_def)
qed

definition sample_conn :: "nat \<Rightarrow> conn" where
  "sample_conn c = \<lparr>cn_token = (if c = 0 then ''a'' else ''b''), cn_authenticated = True, cn_user = True, cn_enabled = True, cn_muted = False,
     cn_password_change = False, cn_password_expires = 0, cn_uid = int c, cn_noob = (c \<noteq> 0), cn_admin = False, cn_elmer = (c = 0),
     cn_ptt = False, cn_ptt_room = ''r''\<rparr>"

definition sample_sup_env :: "int \<Rightarrow> sup_env" where
  "sample_sup_env t = \<lparr>se_now = t, se_conn = sample_conn, se_live = [0, 1], se_idle = 300, se_home_room = ''r'', se_all_off = (\<lambda>f. f)\<rparr>"

definition sample_sup_run :: "(sup_env \<times> sup_event) list" where
  "sample_sup_run = [(sample_sup_env 0, Sup_check 1 (Some ''r'') True ''k''), (sample_sup_env 10, Sup_command 0 ''accept k'' ''r''),
     (sample_sup_env 250, Sup_activity 0 [(''msg.type'', ''talk''), (''talk.cmd'', ''msg'')])]"

lemma supervised_transmission_witness:
  "rrserver_supervision_allowed (sample_sup_env 400) (sup_run 2 sample_sup_run) 1 \<and>
   (\<exists>e ticket t. consent sample_sup_run 1 (cn_ptt_room (se_conn (sample_sup_env 400) 1)) ticket e (cn_token (se_conn (sample_sup_env 400) e)) t \<and>
      is_elmer (sample_sup_env 400) (Some e) \<and> t \<le> se_now (sample_sup_env 400) \<and>
      se_now (sample_sup_env 400) - t < (if se_idle (sample_sup_env 400) \<le> 0 then 300 else se_idle (sample_sup_env 400)))"
proof -
  have may: "rrserver_supervision_allowed (sample_sup_env 400) (sup_run 2 sample_sup_run) 1" by code_simp
  have "distinct (tickets sample_sup_run)" "[] \<notin> set (tickets sample_sup_run)" "needs_supervision (sample_sup_env 400) (Some 1)" by code_simp+
  from supervised_transmission [OF this may] may show ?thesis by blast
qed

lemma tick_one_stops:
  "All_off \<in> set (snd (snd (tick_one closing r env))) \<longleftrightarrow>
     (\<exists>c. su_client r = Some c \<and> cn_ptt (se_conn env c) \<and> su_room r = cn_ptt_room (se_conn env c) \<and> \<not> sup_allowed env r)"
  "All_off \<notin> set (snd (snd (tick_one closing r env))) \<Longrightarrow> fst (snd (tick_one closing r env)) = env"
proof -
  have quiet: "All_off \<notin> set (snd (offer_all env closing cs r))" for cs r
  proof (induction cs arbitrary: r)
    case (Cons c cs)
    have "All_off \<notin> set (snd (offer env closing c r))" by (simp add: offer_def split: option.splits)
    with Cons show ?case by (simp add: split_beta)
  qed simp
  have closed: "All_off \<notin> set (close_offer env r)" for r by (auto simp: close_offer_def)
  define r1 where "r1 = (if su_granted r \<and> \<not> sup_allowed env r then revoke r else r)"
  let ?o = "if su_id r1 \<noteq> [] then offer_all env closing (se_live env) r1 else (r1, [])"
  have allowed: "sup_allowed env (fst ?o) = sup_allowed env r" and room: "su_room (fst ?o) = su_room r"
    using offer_only_invites [of env closing "se_live env" r1] by (auto simp: sup_allowed_def r1_def revoke_def)
  show "All_off \<in> set (snd (snd (tick_one closing r env))) \<longleftrightarrow>
     (\<exists>c. su_client r = Some c \<and> cn_ptt (se_conn env c) \<and> su_room r = cn_ptt_room (se_conn env c) \<and> \<not> sup_allowed env r)"
    "All_off \<notin> set (snd (snd (tick_one closing r env))) \<Longrightarrow> fst (snd (tick_one closing r env)) = env"
    using quiet closed allowed room unfolding tick_one_def Let_def r1_def [symmetric]
    by (auto simp: split_beta split: option.splits if_splits)
qed

text \<open>
  C22. The tick stops all transmitters exactly when it finds a request whose user is keyed in the
  room of the request without being allowed to: with no grant, with no active elmer left, no longer
  eligible or logged in anew.
\<close>

theorem tick_stops_unsupervised:
  "All_off \<in> set (snd (snd (rrserver_supervision_tick env rs))) \<longleftrightarrow>
     (\<exists>r \<in> set rs. \<exists>c. su_client r = Some c \<and> cn_ptt (se_conn env c) \<and> su_room r = cn_ptt_room (se_conn env c) \<and> \<not> sup_allowed env r)"
proof -
  have "All_off \<in> set (snd (snd (tick_all None rs env))) \<longleftrightarrow>
     (\<exists>r \<in> set rs. \<exists>c. su_client r = Some c \<and> cn_ptt (se_conn env c) \<and> su_room r = cn_ptt_room (se_conn env c) \<and> \<not> sup_allowed env r)" for env
  proof (induction rs)
    case (Cons r rs)
    show ?case
    proof (cases "All_off \<in> set (snd (snd (tick_one None r env)))")
      case True
      then have "\<exists>c. su_client r = Some c \<and> cn_ptt (se_conn env c) \<and> su_room r = cn_ptt_room (se_conn env c) \<and> \<not> sup_allowed env r"
        by (simp only: tick_one_stops(1))
      with True show ?thesis by (simp add: split_beta)
    next
      case False
      then have "\<not> (\<exists>c. su_client r = Some c \<and> cn_ptt (se_conn env c) \<and> su_room r = cn_ptt_room (se_conn env c) \<and> \<not> sup_allowed env r)"
        by (simp only: tick_one_stops(1)) simp
      with False Cons tick_one_stops(2) [OF False] show ?thesis
        by (simp only: tick_all.simps Let_def split_beta snd_conv set_append Un_iff bex_simps list.set simp_thms)
    qed
  qed simp
  then show ?thesis by (simp add: rrserver_supervision_tick_def)
qed

lemma find_idx_update_same: "find_idx P xs = Some i \<Longrightarrow> P y \<Longrightarrow> find_idx P (xs[i := y]) = Some i"
  by (induction xs arbitrary: i) (auto split: if_splits nat.splits)

lemma accept_slot_ok: "list_ex (\<lambda>s. sv_client s = Some e \<or> \<not> sup_active env s) (su_elmers r) \<Longrightarrow>
  \<exists>j < length (su_elmers r). accept_slot env e r = Some j"
proof -
  assume ex: "list_ex (\<lambda>s. sv_client s = Some e \<or> \<not> sup_active env s) (su_elmers r)"
  show ?thesis
  proof (cases "find_idx (\<lambda>s. sv_client s = Some e) (su_elmers r)")
    case (Some j)
    with find_idx_SomeD [OF Some] show ?thesis by (simp add: accept_slot_def)
  next
    case None
    then have n: "find_idx (\<lambda>s. sv_client s = Some e) (su_elmers r) = None" by simp
    have "last_idx (\<lambda>s. \<not> sup_active env s) (su_elmers r) \<noteq> None"
      using ex None by (auto simp: last_idx_None list_ex_iff)
    then obtain j where "last_idx (\<lambda>s. \<not> sup_active env s) (su_elmers r) = Some j" by blast
    with last_idx_SomeD [OF this] show ?thesis unfolding accept_slot_def n by simp
  qed
qed

text \<open>
  Consent takes effect at once: after an elmer accepts the pending ticket of another, eligible
  user by the command sent in the room, the user may transmit there; it fails only when every place of the
  ticket is held by other active elmers.
\<close>

theorem accepted_may_transmit:
  assumes "distinct (open_ids rs)" "sup_find env c (Some room) rs = Some i" "su_id (rs ! i) = ticket" "ticket \<noteq> []"
    and "is_elmer env (Some e)" "e \<noteq> c" "eligible env (Some c)" "cn_ptt_room (se_conn env c) = room"
    and says: "says ''accept'' ticket line"
    and place: "list_ex (\<lambda>s. sv_client s = Some e \<or> \<not> sup_active env s) (su_elmers (rs ! i))"
  shows "rrserver_supervision_allowed env (fst (sup_command env e line room rs)) c"
proof -
  from says obtain a where w: "scan_words [15, 32, 1] line = [a, ticket]" "strcaseeq a ''accept''" by (auto simp: says_def)
  have f: "i < length rs" "su_client (rs ! i) = Some c" "su_token (rs ! i) = cn_token (se_conn env c)" "su_room (rs ! i) = room"
    using find_idx_SomeD [OF assms(2) [unfolded sup_find_def]] by simp_all
  then have named: "named_request ticket room (rs ! i)" using assms(3) by (simp add: named_request_def)
  then obtain k where k: "last_idx (named_request ticket room) rs = Some k" using last_idx_None [of "named_request ticket room" rs] f(1) by fastforce
  then have "k = i" using last_idx_SomeD [OF k] open_ids_unique [OF assms(1) _ f(1), of k] assms(3,4) by (simp add: named_request_def)
  obtain j where j: "j < length (su_elmers (rs ! i))" "accept_slot env e (rs ! i) = Some j" using accept_slot_ok [OF place] by blast
  let ?r = "accept env e j (rs ! i)"
  have out: "fst (sup_command env e line room rs) = rs[i := ?r]"
    using w k \<open>k = i\<close> j(2) f(2) assms(5-7) accept_not_decline [OF w(2)] by (simp add: sup_command_def Let_def del: scan_words.simps)
  have "sup_find env c (Some room) (rs[i := ?r]) = Some i"
    using assms(2) f by (simp add: sup_find_def find_idx_update_same accept_def)
  moreover have "sup_allowed env ?r"
    using f(2,3) assms(5,7) j(1) by (auto simp: sup_allowed_def accept_def list_ex_iff sup_active_def intro!: bexI [OF _ set_update_memI])
  ultimately show ?thesis using assms(7,8) f(1) out by (simp add: rrserver_supervision_allowed_def found_allowed_def)
qed

lemma accepted_may_transmit_witness:
  "rrserver_supervision_allowed (sample_sup_env 10)
     (fst (sup_command (sample_sup_env 10) 0 ''ACCEPT k'' ''r'' (sup_run 2 (take 1 sample_sup_run)))) 1"
proof (rule accepted_may_transmit [where room = "''r''" and i = 0 and ticket = "''k''"])
  let ?rs = "sup_run 2 (take 1 sample_sup_run)"
  show "distinct (open_ids ?rs)" "sup_find (sample_sup_env 10) 1 (Some ''r'') ?rs = Some 0" "su_id (?rs ! 0) = ''k''" "''k'' \<noteq> []"
    "is_elmer (sample_sup_env 10) (Some 0)" "(0 :: nat) \<noteq> 1" "eligible (sample_sup_env 10) (Some 1)"
    "cn_ptt_room (se_conn (sample_sup_env 10) 1) = ''r''"
    "list_ex (\<lambda>s. sv_client s = Some 0 \<or> \<not> sup_active (sample_sup_env 10) s) (su_elmers (?rs ! 0))" by code_simp+
  have "scan_words [15, 32, 1] ''ACCEPT k'' = [''ACCEPT'', ''k'']" "strcaseeq ''ACCEPT'' ''accept''" by code_simp+
  then show "says ''accept'' ''k'' ''ACCEPT k''" by (simp add: says_def)
qed

end
