(* ===== verification/Grants.thy ===== *)
theory Grants
  imports Dict
begin

text \<open>
  Resource grants (\<^verbatim>\<open>rrserver/database.privileges.c\<close>): what a user of this or of a linked server may do
  with a rig, a room or the site. Rules come from three places: grants to the user, sets of
  privileges assigned to the user, and groups the user is a member of. A rule that denies wins.

  The three branches of the query are comprehensions over the tables; \<open>COLLATE NOCASE\<close> is
  \<open>strcaseeq\<close>. SQLite may return the rows in any order and may fail at any time, which \<open>grants_io\<close> says.
\<close>

section \<open>Tables\<close>

datatype rr_resource_access = RR_RESOURCE_DENY | RR_RESOURCE_ALLOW | RR_RESOURCE_UNSET

record resource_privilege =
  rp_user :: string
  rp_host :: string
  rp_kind :: string
  rp_uuid :: string
  rp_privilege :: string
  rp_effect :: cstr
  rp_expires :: "int option"
  rp_remote :: bool

record set_assignment =
  sa_set :: nat
  sa_user :: string
  sa_host :: string
  sa_kind :: string
  sa_uuid :: string
  sa_expires :: "int option"
  sa_remote :: bool

record set_entry =
  se_set :: nat
  se_privilege :: string
  se_effect :: cstr

record group_member =
  gm_group :: string
  gm_user :: string
  gm_host :: string

record group_privilege =
  gp_group :: string
  gp_kind :: string
  gp_name :: string
  gp_privilege :: string
  gp_effect :: cstr

record grants_db =
  db_direct :: "resource_privilege list"
  db_assigned :: "set_assignment list"
  db_entries :: "set_entry list"
  db_members :: "group_member list"
  db_groups :: "group_privilege list"

text \<open>Whether the statement can be prepared and bound, the order of the rows, how many are read before an error.\<close>

record grants_io =
  io_prepared :: bool
  io_order :: "cstr list \<Rightarrow> cstr list"
  io_rows :: "nat option"

text \<open>What is asked: the subject, the resource with its symbolic name, the privilege, the time.\<close>

record access_query =
  aq_user :: string
  aq_host :: string
  aq_kind :: string
  aq_uuid :: string
  aq_privilege :: string
  aq_now :: int
  aq_symbol :: string

section \<open>The query\<close>

definition subject_matches :: "access_query \<Rightarrow> string \<Rightarrow> string \<Rightarrow> bool" where
  "subject_matches q user host \<longleftrightarrow> strcaseeq user (aq_user q) \<and> (strcaseeq host (aq_host q) \<or> (aq_host q \<noteq> [] \<and> host = ''*''))"

definition resource_matches :: "access_query \<Rightarrow> string \<Rightarrow> string \<Rightarrow> bool" where
  "resource_matches q kind uuid \<longleftrightarrow> kind = aq_kind q \<and> (uuid = aq_uuid q \<or> (kind \<in> {''rig'', ''room''} \<and> uuid = ''*'') \<or>
     (aq_symbol q \<noteq> [] \<and> strcaseeq uuid (aq_symbol q)))"

definition privilege_matches :: "access_query \<Rightarrow> string \<Rightarrow> string \<Rightarrow> bool" where
  "privilege_matches q kind privilege \<longleftrightarrow> privilege = aq_privilege q \<or> (kind = ''rig'' \<and> privilege = ''rig.full'')"

definition in_force :: "access_query \<Rightarrow> int option \<Rightarrow> bool \<Rightarrow> bool" where
  "in_force q expires remote \<longleftrightarrow> (case expires of None \<Rightarrow> True | Some t \<Rightarrow> aq_now q < t) \<and> (aq_host q = [] \<or> remote)"

definition direct_effects :: "grants_db \<Rightarrow> access_query \<Rightarrow> cstr list" where
  "direct_effects db q = [rp_effect r. r \<leftarrow> db_direct db, subject_matches q (rp_user r) (rp_host r), resource_matches q (rp_kind r) (rp_uuid r),
     privilege_matches q (rp_kind r) (rp_privilege r), in_force q (rp_expires r) (rp_remote r)]"

definition set_effects :: "grants_db \<Rightarrow> access_query \<Rightarrow> cstr list" where
  "set_effects db q = [se_effect e. a \<leftarrow> db_assigned db, e \<leftarrow> db_entries db, se_set e = sa_set a, subject_matches q (sa_user a) (sa_host a),
     resource_matches q (sa_kind a) (sa_uuid a), privilege_matches q (sa_kind a) (se_privilege e), in_force q (sa_expires a) (sa_remote a)]"

definition group_effects :: "grants_db \<Rightarrow> access_query \<Rightarrow> cstr list" where
  "group_effects db q = [gp_effect p. m \<leftarrow> db_members db, p \<leftarrow> db_groups db, gp_group p = gm_group m, subject_matches q (gm_user m) (gm_host m),
     gp_kind p = aq_kind q, gp_name p = ''*'' \<or> (aq_symbol q \<noteq> [] \<and> strcaseeq (gp_name p) (aq_symbol q)),
     privilege_matches q (gp_kind p) (gp_privilege p)]"

definition query_effects :: "grants_db \<Rightarrow> access_query \<Rightarrow> cstr list" where
  "query_effects db q = direct_effects db q @ set_effects db q @ group_effects db q"

section \<open>The evaluation\<close>

fun step_rows :: "bool \<Rightarrow> bool \<Rightarrow> cstr list \<Rightarrow> rr_resource_access" where
  "step_rows finished allow [] = (if \<not> finished then RR_RESOURCE_DENY else if allow then RR_RESOURCE_ALLOW else RR_RESOURCE_UNSET)"
| "step_rows finished allow (e # es) =
     (if e = Some ''deny'' then RR_RESOURCE_DENY else step_rows finished (if e = Some ''allow'' then True else allow) es)"

definition db_resource_access_named ::
  "grants_io \<Rightarrow> grants_db option \<Rightarrow> cstr \<Rightarrow> cstr \<Rightarrow> cstr \<Rightarrow> cstr \<Rightarrow> cstr \<Rightarrow> int \<Rightarrow> cstr \<Rightarrow> rr_resource_access" where
  "db_resource_access_named io db user host kind uuid privilege now symbol =
     (if db = None \<or> user = None \<or> user = Some [] \<or> host = None \<or> kind = None \<or> kind = Some [] \<or>
         uuid = None \<or> uuid = Some [] \<or> privilege = None \<or> privilege = Some [] then RR_RESOURCE_DENY
      else if \<not> io_prepared io then RR_RESOURCE_DENY
      else let q = \<lparr>aq_user = the user, aq_host = the host, aq_kind = the kind, aq_uuid = the uuid, aq_privilege = the privilege,
                 aq_now = now, aq_symbol = (case symbol of None \<Rightarrow> [] | Some s \<Rightarrow> s)\<rparr>;
               rows = io_order io (query_effects (the db) q) in
        case io_rows io of
          None \<Rightarrow> step_rows True False rows
        | Some n \<Rightarrow> step_rows False False (take n rows))"

definition db_resource_access ::
  "grants_io \<Rightarrow> grants_db option \<Rightarrow> cstr \<Rightarrow> cstr \<Rightarrow> cstr \<Rightarrow> cstr \<Rightarrow> cstr \<Rightarrow> int \<Rightarrow> rr_resource_access" where
  "db_resource_access io db user host kind uuid privilege now = db_resource_access_named io db user host kind uuid privilege now None"

section \<open>Rules\<close>

text \<open>\<open>rule db q e\<close>: some rule with the effect \<open>e\<close> names the subject and the resource, covers the privilege and is in force.\<close>

inductive rule :: "grants_db \<Rightarrow> access_query \<Rightarrow> string \<Rightarrow> bool" for db q where
  rule_direct: "r \<in> set (db_direct db) \<Longrightarrow> rp_effect r = Some e \<Longrightarrow> subject_matches q (rp_user r) (rp_host r) \<Longrightarrow>
     resource_matches q (rp_kind r) (rp_uuid r) \<Longrightarrow> privilege_matches q (rp_kind r) (rp_privilege r) \<Longrightarrow>
     in_force q (rp_expires r) (rp_remote r) \<Longrightarrow> rule db q e"
| rule_set: "a \<in> set (db_assigned db) \<Longrightarrow> x \<in> set (db_entries db) \<Longrightarrow> se_set x = sa_set a \<Longrightarrow> se_effect x = Some e \<Longrightarrow>
     subject_matches q (sa_user a) (sa_host a) \<Longrightarrow> resource_matches q (sa_kind a) (sa_uuid a) \<Longrightarrow>
     privilege_matches q (sa_kind a) (se_privilege x) \<Longrightarrow> in_force q (sa_expires a) (sa_remote a) \<Longrightarrow> rule db q e"
| rule_group: "m \<in> set (db_members db) \<Longrightarrow> p \<in> set (db_groups db) \<Longrightarrow> gp_group p = gm_group m \<Longrightarrow> gp_effect p = Some e \<Longrightarrow>
     subject_matches q (gm_user m) (gm_host m) \<Longrightarrow> gp_kind p = aq_kind q \<Longrightarrow>
     gp_name p = ''*'' \<or> (aq_symbol q \<noteq> [] \<and> strcaseeq (gp_name p) (aq_symbol q)) \<Longrightarrow>
     privilege_matches q (gp_kind p) (gp_privilege p) \<Longrightarrow> rule db q e"

lemma rule_effects: "Some e \<in> set (query_effects db q) \<longleftrightarrow> rule db q e"
proof
  assume "Some e \<in> set (query_effects db q)"
  then consider "Some e \<in> set (direct_effects db q)" | "Some e \<in> set (set_effects db q)" | "Some e \<in> set (group_effects db q)"
    by (auto simp: query_effects_def)
  then show "rule db q e"
  proof cases
    case 1
    then show ?thesis by (auto simp: direct_effects_def split: if_splits intro: rule_direct)
  next
    case 2
    then show ?thesis by (auto simp: set_effects_def split: if_splits intro: rule_set)
  next
    case 3
    then show ?thesis by (auto simp: group_effects_def split: if_splits intro: rule_group)
  qed
next
  assume "rule db q e"
  then show "Some e \<in> set (query_effects db q)"
  proof cases
    case (rule_direct r)
    then show ?thesis by (auto simp: query_effects_def direct_effects_def intro!: bexI [of _ r])
  next
    case (rule_set a x)
    then have "Some e \<in> set (set_effects db q)" by (auto simp: set_effects_def intro!: bexI [of _ a] bexI [of _ x])
    then show ?thesis by (simp add: query_effects_def)
  next
    case (rule_group m p)
    then have "Some e \<in> set (group_effects db q)" by (auto simp: group_effects_def intro!: bexI [of _ m] bexI [of _ p])
    then show ?thesis by (simp add: query_effects_def)
  qed
qed

lemma step_rows_eq: "step_rows finished allow es =
  (if Some ''deny'' \<in> set es \<or> \<not> finished then RR_RESOURCE_DENY
   else if allow \<or> Some ''allow'' \<in> set es then RR_RESOURCE_ALLOW else RR_RESOURCE_UNSET)"
  by (induction es arbitrary: allow) auto

section \<open>What a grant is\<close>

text \<open>
  The specification of the tables, apart from the query: every row of the three sources is an \<open>access_rule\<close> with a subject, a resource, a
  privilege, an end and whether it is for users of this server alone. Groups name a resource by its symbolic name
  only, and have no end. \<open>covers\<close> says when a grant speaks of a request.
\<close>

record access_rule =
  ar_user :: string
  ar_host :: string
  ar_kind :: string
  ar_resource :: string
  ar_by_uuid :: bool
  ar_privilege :: string
  ar_effect :: cstr
  ar_until :: "int option"
  ar_local :: bool

inductive access_rule_of :: "grants_db \<Rightarrow> access_rule \<Rightarrow> bool" for db where
  to_user: "r \<in> set (db_direct db) \<Longrightarrow> access_rule_of db \<lparr>ar_user = rp_user r, ar_host = rp_host r, ar_kind = rp_kind r, ar_resource = rp_uuid r, ar_by_uuid = True,
     ar_privilege = rp_privilege r, ar_effect = rp_effect r, ar_until = rp_expires r, ar_local = (\<not> rp_remote r)\<rparr>"
| by_set: "a \<in> set (db_assigned db) \<Longrightarrow> x \<in> set (db_entries db) \<Longrightarrow> sa_set a = se_set x \<Longrightarrow>
     access_rule_of db \<lparr>ar_user = sa_user a, ar_host = sa_host a, ar_kind = sa_kind a, ar_resource = sa_uuid a, ar_by_uuid = True,
       ar_privilege = se_privilege x, ar_effect = se_effect x, ar_until = sa_expires a, ar_local = (\<not> sa_remote a)\<rparr>"
| by_group: "m \<in> set (db_members db) \<Longrightarrow> p \<in> set (db_groups db) \<Longrightarrow> gm_group m = gp_group p \<Longrightarrow>
     access_rule_of db \<lparr>ar_user = gm_user m, ar_host = gm_host m, ar_kind = gp_kind p, ar_resource = gp_name p, ar_by_uuid = False,
       ar_privilege = gp_privilege p, ar_effect = gp_effect p, ar_until = None, ar_local = False\<rparr>"

text \<open>A request of the user \<open>user\<close> of the server \<open>host\<close>, which is empty for this server.\<close>

definition covers :: "string \<Rightarrow> string \<Rightarrow> string \<Rightarrow> string \<Rightarrow> string \<Rightarrow> int \<Rightarrow> string \<Rightarrow> access_rule \<Rightarrow> bool" where
  "covers user host kind uuid privilege now symbol g \<longleftrightarrow>
     strcaseeq (ar_user g) user \<and>
     (if host = [] then strcaseeq (ar_host g) [] else (strcaseeq (ar_host g) host \<or> ar_host g = ''*'') \<and> \<not> ar_local g) \<and>
     ar_kind g = kind \<and>
     ((ar_by_uuid g \<and> ar_resource g = uuid) \<or> (ar_resource g = ''*'' \<and> (ar_by_uuid g \<longrightarrow> kind = ''rig'' \<or> kind = ''room'')) \<or>
       (symbol \<noteq> [] \<and> strcaseeq (ar_resource g) symbol)) \<and>
     (ar_privilege g = privilege \<or> (kind = ''rig'' \<and> ar_privilege g = ''rig.full'')) \<and>
     (\<forall>t. ar_until g = Some t \<longrightarrow> now < t)"

definition rules_say :: "grants_db \<Rightarrow> string \<Rightarrow> string \<Rightarrow> string \<Rightarrow> string \<Rightarrow> string \<Rightarrow> int \<Rightarrow> string \<Rightarrow> string \<Rightarrow> bool" where
  "rules_say db user host kind uuid privilege now symbol e \<longleftrightarrow>
     (\<exists>g. access_rule_of db g \<and> covers user host kind uuid privilege now symbol g \<and> ar_effect g = Some e)"

text \<open>The question a call asks, when its arguments are complete.\<close>

definition asked :: "string \<Rightarrow> string \<Rightarrow> string \<Rightarrow> string \<Rightarrow> string \<Rightarrow> int \<Rightarrow> cstr \<Rightarrow> access_query" where
  "asked user host kind uuid privilege now symbol = \<lparr>aq_user = user, aq_host = host, aq_kind = kind, aq_uuid = uuid, aq_privilege = privilege,
     aq_now = now, aq_symbol = (case symbol of None \<Rightarrow> [] | Some s \<Rightarrow> s)\<rparr>"

definition symbol_text :: "cstr \<Rightarrow> string" where
  "symbol_text symbol = (case symbol of None \<Rightarrow> [] | Some s \<Rightarrow> s)"

lemma rules_sayI: "access_rule_of db g \<Longrightarrow> covers user host kind uuid privilege now symbol g \<Longrightarrow> ar_effect g = Some e \<Longrightarrow>
    rules_say db user host kind uuid privilege now symbol e"
  unfolding rules_say_def by blast

lemmas match_simps = covers_def asked_def symbol_text_def subject_matches_def resource_matches_def privilege_matches_def in_force_def

lemma rule_says:
  "rule db (asked user host kind uuid privilege now symbol) e \<longleftrightarrow> rules_say db user host kind uuid privilege now (symbol_text symbol) e"
proof
  assume "rule db (asked user host kind uuid privilege now symbol) e"
  then show "rules_say db user host kind uuid privilege now (symbol_text symbol) e"
  proof cases
    case (rule_direct r)
    show ?thesis by (rule rules_sayI [OF to_user [OF rule_direct(1)]]) (use rule_direct in \<open>auto simp: match_simps split: option.splits if_splits\<close>)
  next
    case (rule_set a x)
    show ?thesis by (rule rules_sayI [OF by_set [OF rule_set(1,2)]]) (use rule_set in \<open>auto simp: match_simps split: option.splits if_splits\<close>)
  next
    case (rule_group m p)
    show ?thesis by (rule rules_sayI [OF by_group [OF rule_group(1,2)]]) (use rule_group in \<open>auto simp: match_simps split: option.splits if_splits\<close>)
  qed
next
  assume "rules_say db user host kind uuid privilege now (symbol_text symbol) e"
  then obtain g where g: "access_rule_of db g" "covers user host kind uuid privilege now (symbol_text symbol) g" "ar_effect g = Some e"
    unfolding rules_say_def by blast
  from g(1) show "rule db (asked user host kind uuid privilege now symbol) e"
  proof cases
    case (to_user r)
    with g(2,3) show ?thesis
      by (intro rule_direct [of r]) (auto simp: match_simps split: option.splits if_splits)
  next
    case (by_set a x)
    with g(2,3) show ?thesis
      by (intro rule_set [of a _ x]) (auto simp: match_simps split: option.splits if_splits)
  next
    case (by_group m p)
    with g(2,3) show ?thesis
      by (intro rule_group [of m _ p]) (auto simp: covers_def asked_def symbol_text_def subject_matches_def privilege_matches_def split: option.splits if_splits)
  qed
qed

text \<open>
  C21. Access is what the grants say, in whatever order the rows come: denied if a grant that covers the request denies, or the
  database fails after any number of rows; allowed if none denies and one allows; and else left unset, which the callers that
  do not fall back on another resource take for a refusal. A grant covers a request of its subject, for its
  resource and privilege, until it expires, and a request from another server only if it is not for users of this one alone.
\<close>

theorem resource_access_decided:
  assumes order: "\<And>es. set (io_order io es) = set es"
    and args: "user \<noteq> []" "kind \<noteq> []" "uuid \<noteq> []" "privilege \<noteq> []"
  shows "db_resource_access_named io (Some db) (Some user) (Some host) (Some kind) (Some uuid) (Some privilege) now symbol =
    (let says = rules_say db user host kind uuid privilege now (symbol_text symbol) in
     if \<not> io_prepared io \<or> io_rows io \<noteq> None \<or> says ''deny'' then RR_RESOURCE_DENY
     else if says ''allow'' then RR_RESOURCE_ALLOW else RR_RESOURCE_UNSET)"
  unfolding rule_says [symmetric]
  using args by (cases "io_rows io")
    (simp_all add: db_resource_access_named_def step_rows_eq order rule_effects Let_def asked_def [symmetric])

text \<open>A denying rule more never gives access, and rules not allowed for remote users never matter to them.\<close>

lemma rule_mono:
  assumes "rule db q e" "set (db_direct db) \<subseteq> set (db_direct db')" "set (db_assigned db) \<subseteq> set (db_assigned db')"
    "set (db_entries db) \<subseteq> set (db_entries db')" "set (db_members db) \<subseteq> set (db_members db')" "set (db_groups db) \<subseteq> set (db_groups db')"
  shows "rule db' q e"
  using assms(1)
proof cases
  case (rule_direct r)
  with assms(2) show ?thesis by (intro rule.rule_direct [of r]) auto
next
  case (rule_set a x)
  with assms(3,4) show ?thesis by (intro rule.rule_set [of a _ x]) auto
next
  case (rule_group m p)
  with assms(5,6) show ?thesis by (intro rule.rule_group [of m _ p]) auto
qed

definition sample_grants :: grants_db where
  "sample_grants = \<lparr>
     db_direct = [\<lparr>rp_user = ''Alice'', rp_host = ''camp'', rp_kind = ''rig'', rp_uuid = ''u1'', rp_privilege = ''tx'',
       rp_effect = Some ''deny'', rp_expires = Some 100, rp_remote = True\<rparr>],
     db_assigned = [\<lparr>sa_set = 1, sa_user = ''alice'', sa_host = ''*'', sa_kind = ''rig'', sa_uuid = ''*'', sa_expires = None, sa_remote = True\<rparr>],
     db_entries = [\<lparr>se_set = 1, se_privilege = ''rig.full'', se_effect = Some ''allow''\<rparr>], db_members = [], db_groups = []\<rparr>"

definition sample_grants_io :: grants_io where
  "sample_grants_io = \<lparr>io_prepared = True, io_order = rev, io_rows = None\<rparr>"

lemma resource_access_decided_witness:
  "db_resource_access_named sample_grants_io (Some sample_grants) (Some ''alice'') (Some ''camp'') (Some ''rig'') (Some ''u1'') (Some ''tx'') 50 None = RR_RESOURCE_DENY \<and>
   db_resource_access_named sample_grants_io (Some sample_grants) (Some ''alice'') (Some ''camp'') (Some ''rig'') (Some ''u1'') (Some ''tx'') 150 None = RR_RESOURCE_ALLOW"
proof -
  have order: "set (io_order sample_grants_io es) = set es" for es by (simp add: sample_grants_io_def)
  have r: "rule sample_grants (asked ''alice'' ''camp'' ''rig'' ''u1'' ''tx'' t None) ''deny'' \<longleftrightarrow> t < 100"
    "rule sample_grants (asked ''alice'' ''camp'' ''rig'' ''u1'' ''tx'' t None) ''allow''" for t
  proof -
    have eq: "strcaseeq ''Alice'' ''alice''" "strcaseeq ''camp'' ''camp''" "\<not> strcaseeq ''*'' ''camp''" by code_simp+
    have "query_effects sample_grants (asked ''alice'' ''camp'' ''rig'' ''u1'' ''tx'' t None) =
        (if t < 100 then [Some ''deny'', Some ''allow''] else [Some ''allow''])"
      by (simp add: query_effects_def direct_effects_def set_effects_def group_effects_def sample_grants_def asked_def subject_matches_def
        resource_matches_def privilege_matches_def in_force_def eq)
    then show "rule sample_grants (asked ''alice'' ''camp'' ''rig'' ''u1'' ''tx'' t None) ''deny'' \<longleftrightarrow> t < 100"
      "rule sample_grants (asked ''alice'' ''camp'' ''rig'' ''u1'' ''tx'' t None) ''allow''"
      unfolding rule_effects [symmetric] by simp_all
  qed
  have io: "io_prepared sample_grants_io" "io_rows sample_grants_io = None" by (simp_all add: sample_grants_io_def)
  have g: "rules_say sample_grants ''alice'' ''camp'' ''rig'' ''u1'' ''tx'' t (symbol_text None) ''deny'' \<longleftrightarrow> t < 100"
    "rules_say sample_grants ''alice'' ''camp'' ''rig'' ''u1'' ''tx'' t (symbol_text None) ''allow''" for t
    using r unfolding rule_says by simp_all
  have "db_resource_access_named sample_grants_io (Some sample_grants) (Some ''alice'') (Some ''camp'') (Some ''rig'') (Some ''u1'') (Some ''tx'') t None =
      (if t < 100 then RR_RESOURCE_DENY else RR_RESOURCE_ALLOW)" for t
    by (subst resource_access_decided [OF order]) (simp_all add: io g Let_def)
  then show ?thesis by simp
qed

end
