(* ===== verification/DirectMedia.thy ===== *)
theory DirectMedia
  imports RelayMedia Supervision "HOL-Library.Multiset"
begin

unbundle bit_operations_syntax

text \<open>
  Direct media grants (\<^verbatim>\<open>rrserver/media.direct.c\<close>): a client that asks for RTP gets a private attachment
  for one channel, good for five minutes. A grant that ends must not leave the transmitter keyed by
  a client whose only audio path it was.

  The state is the array of 128 grants. \<open>direct_env\<close> is what an event finds: connections (those of
  \<open>Supervision\<close>), their channels, the media table of \<open>RelayMedia\<close>, the pools, the RTP sockets (a
  library) and the liveness of proxied audio, which \<open>RelaySessions\<close> provides. Releasing the
  transmitter changes the connection it is released for, so the environment is handed through; one reading of the
  clock, \<open>de_mono\<close>, serves a whole event, where the code reads it anew at every decision; what the
  protocol library does with an accepted frame is its return value only.
\<close>

section \<open>State\<close>

definition MAX_GRANTS :: nat where "MAX_GRANTS = 128"
definition UINT64_MAX_n :: nat where "UINT64_MAX_n = 2 ^ 64 - 1"

record media_channel =
  mc_uuid :: string
  mc_room :: string
  mc_rig :: string
  mc_subsystem :: nat
  mc_direction :: nat

record media_pool =
  mp_section :: string
  mp_encrypted :: bool

record grant =
  gr_client :: "nat option"
  gr_pool :: "nat option"
  gr_uuid :: string
  gr_attachment :: "nat option"
  gr_key :: string
  gr_ssrc :: "32 word"
  gr_expires :: nat
  gr_headers :: bool
  gr_force :: bool
  gr_relay :: bool
  gr_stream :: nat
  gr_direction :: nat

datatype acl_result = ACL_DENY | ACL_DEFER | ACL_ALLOW | ACL_NO_MATCH

record direct_env =
  de_conn :: "nat \<Rightarrow> conn"
  de_now :: int
  de_mono :: nat
  de_rx :: "nat \<Rightarrow> nat list"
  de_tx :: "nat \<Rightarrow> nat list"
  de_ip :: "nat \<Rightarrow> string"
  de_channel :: "string \<Rightarrow> (nat \<times> media_channel) option"
  de_in_room :: "nat \<Rightarrow> nat \<Rightarrow> bool"
  de_media :: media_env
  de_maps :: media_state
  de_dir_rx :: nat
  de_priv :: "int \<Rightarrow> string \<Rightarrow> bool"
  de_pools :: "media_pool list"
  de_rtp_acl :: string
  de_acl :: "string \<Rightarrow> cstr \<Rightarrow> nat \<Rightarrow> acl_result"
  de_active :: "nat option \<Rightarrow> nat \<Rightarrow> bool"
  de_proxy :: "conn \<Rightarrow> nat \<Rightarrow> string \<Rightarrow> nat \<Rightarrow> bool"
  de_release :: "nat \<Rightarrow> conn \<Rightarrow> conn"
  de_process :: "nat \<Rightarrow> string \<Rightarrow> bool"

datatype direct_effect =
    Released nat
  | Attach nat
  | Detach "nat option"
  | Stream_headers string nat
  | Rtp_send "nat option" string
  | Direct_error nat string

definition no_grant :: grant where
  "no_grant = \<lparr>gr_client = None, gr_pool = None, gr_uuid = [], gr_attachment = None, gr_key = [], gr_ssrc = 0, gr_expires = 0,
     gr_headers = False, gr_force = False, gr_relay = False, gr_stream = 0, gr_direction = 0\<rparr>"

section \<open>Pools\<close>

definition pool_section :: "direct_env \<Rightarrow> media_pool \<Rightarrow> string" where
  "pool_section env p = (if mp_section p = ''rtp'' \<and> de_rtp_acl env = [] then ''listener:media'' else mp_section p)"

definition select_pool :: "direct_env \<Rightarrow> nat \<Rightarrow> nat option" where
  "select_pool env c =
     (let cn = de_conn env c; ip = (if de_ip env c = [] then None else Some (de_ip env c)) in
      if \<not> cn_authenticated cn \<or> \<not> cn_user cn \<or> \<not> cn_enabled cn then None
      else find_idx (\<lambda>p. let result = de_acl env (pool_section env p) ip c in
        result = ACL_ALLOW \<or> (ip = None \<and> result = ACL_DEFER)) (de_pools env))"

section \<open>Validity\<close>

definition account_open :: "direct_env \<Rightarrow> nat \<Rightarrow> bool" where
  "account_open env c = (let cn = de_conn env c in cn_authenticated cn \<and> cn_user cn \<and> cn_enabled cn \<and> \<not> cn_password_change cn \<and>
     (cn_password_expires cn = 0 \<or> de_now env < cn_password_expires cn))"

definition valid :: "direct_env \<Rightarrow> grant \<Rightarrow> bool" where
  "valid env g = (case gr_client g of None \<Rightarrow> False | Some c \<Rightarrow>
     if gr_relay g then account_open env c \<and> rrserver_relay_media_valid (de_media env) c (gr_uuid g) (gr_stream g) (de_maps env)
     else (case de_channel env (gr_uuid g) of
       None \<Rightarrow> False
     | Some (i, ch) \<Rightarrow>
         (let tx = (mc_direction ch = me_dir_tx (de_media env)) in
          if \<not> account_open env c \<or> \<not> de_in_room env c i then False
          else if tx \<and> (cn_muted (de_conn env c) \<or> \<not> de_priv env (cn_uid (de_conn env c)) ''admin|owner|tx|noob'') then False
          else i + 1 \<in> set (if tx then de_tx env c else de_rx env c))))"

definition tx_grant :: "direct_env \<Rightarrow> nat \<Rightarrow> string \<Rightarrow> grant \<Rightarrow> bool" where
  "tx_grant env c room g \<longleftrightarrow> gr_client g = Some c \<and> (case de_channel env (gr_uuid g) of
     None \<Rightarrow> False | Some (i, ch) \<Rightarrow> mc_direction ch = me_dir_tx (de_media env) \<and> mc_room ch = room)"

definition rrserver_direct_tx_ready :: "direct_env \<Rightarrow> grant list \<Rightarrow> nat \<Rightarrow> cstr \<Rightarrow> bool" where
  "rrserver_direct_tx_ready env gs c room = (case room of None \<Rightarrow> False | Some r \<Rightarrow>
     list_ex (\<lambda>g. tx_grant env c r g \<and> valid env g \<and> de_active env (gr_attachment g) (de_mono env)) gs)"

section \<open>The end of a grant\<close>

definition keyed_by :: "direct_env \<Rightarrow> nat \<Rightarrow> grant \<Rightarrow> bool" where
  "keyed_by env c g \<longleftrightarrow> tx_grant env c (cn_ptt_room (de_conn env c)) g \<and> cn_ptt (de_conn env c) \<and>
     (gr_force g \<or> \<not> de_proxy env (de_conn env c) c (cn_ptt_room (de_conn env c)) (de_mono env))"

definition release_ptt :: "nat \<Rightarrow> direct_env \<Rightarrow> direct_env" where
  "release_ptt c env = env\<lparr>de_conn := (de_conn env)(c := de_release env c (de_conn env c))\<rparr>"

definition revoke_attachment :: "direct_env \<Rightarrow> grant \<Rightarrow> grant \<times> direct_env \<times> direct_effect list" where
  "revoke_attachment env g =
     (let release = (case gr_client g of None \<Rightarrow> False | Some c \<Rightarrow> keyed_by env c g) in
      (g\<lparr>gr_attachment := None, gr_key := [], gr_expires := UINT64_MAX_n\<rparr>,
       if release then release_ptt (the (gr_client g)) env else env,
       (if release then [Released (the (gr_client g))] else []) @ [Detach (gr_attachment g)]))"

definition remove_grant :: "direct_env \<Rightarrow> grant \<Rightarrow> grant \<times> direct_env \<times> direct_effect list" where
  "remove_grant env g = (case revoke_attachment env g of (_, env, out) \<Rightarrow> (no_grant, env, out))"

text \<open>One pass over the grants, each of which may change connections.\<close>

fun each_grant :: "(direct_env \<Rightarrow> grant \<Rightarrow> grant \<times> direct_env \<times> direct_effect list) \<Rightarrow> direct_env \<Rightarrow> grant list \<Rightarrow>
    grant list \<times> direct_env \<times> direct_effect list" where
  "each_grant f env [] = ([], env, [])"
| "each_grant f env (g # gs) =
     (let (g, env, out) = f env g; (gs, env, out') = each_grant f env gs in (g # gs, env, out @ out'))"

definition rrserver_direct_close :: "direct_env \<Rightarrow> nat \<Rightarrow> grant list \<Rightarrow> grant list \<times> direct_env \<times> direct_effect list" where
  "rrserver_direct_close env c = each_grant (\<lambda>env g. if gr_client g = Some c then remove_grant env g else (g, env, [])) env"

section \<open>The poll\<close>

definition expire_grant :: "direct_env \<Rightarrow> grant \<Rightarrow> grant \<times> direct_env \<times> direct_effect list" where
  "expire_grant env g =
     (if gr_client g = None then (g, env, [])
      else if \<not> valid env g \<or> (\<not> gr_force g \<and> gr_expires g \<le> de_mono env) then remove_grant env g
      else if gr_force g \<and> gr_expires g \<le> de_mono env then revoke_attachment env g
      else (g, env, []))"

text \<open>A frame, or the first sign of life of the peer, on the attachment of a grant.\<close>

definition tx_frame :: "direct_env \<Rightarrow> nat \<Rightarrow> string \<Rightarrow> bool" where
  "tx_frame env stream data = (case me_parse (de_media env) data of
     None \<Rightarrow> False
   | Some h \<Rightarrow> bf_stream h = stream \<and> bf_direction h = me_dir_tx (de_media env) \<and> bf_subsystem h = me_audio (de_media env))"

definition receive_frame :: "direct_env \<Rightarrow> grant \<Rightarrow> cstr \<Rightarrow> bool \<times> grant \<times> direct_env \<times> direct_effect list" where
  "receive_frame env g data =
     (let c = the (gr_client g) in
      if \<not> valid env g \<or> gr_expires g \<le> de_mono env then (False, g, env, [])
      else if gr_relay g then
        (case data of
           None \<Rightarrow> (True, g, env, [])
         | Some bytes \<Rightarrow> if gr_direction g \<noteq> me_dir_tx (de_media env) \<or> \<not> tx_frame env (gr_stream g) bytes then (False, g, env, [])
             else (de_process env c bytes, g, env, []))
      else
        (let (i, ch) = the (de_channel env (gr_uuid g)) in
         case data of
           None \<Rightarrow> if \<not> gr_headers g \<and> mc_direction ch = de_dir_rx env
             then (True, g\<lparr>gr_headers := True\<rparr>, env, [Stream_headers (gr_uuid g) c]) else (True, g, env, [])
         | Some bytes \<Rightarrow> if mc_direction ch \<noteq> me_dir_tx (de_media env) \<or> \<not> tx_frame env (i + 1) bytes then (False, g, env, [])
             else (de_process env c bytes, g, env, [])))"

fun receive_frames :: "direct_env \<Rightarrow> (nat \<times> cstr) list \<Rightarrow> grant list \<Rightarrow> grant list \<times> direct_env \<times> direct_effect list" where
  "receive_frames env [] gs = (gs, env, [])"
| "receive_frames env ((i, data) # frames) gs =
     (if i < length gs then
        (let (_, g, env, out) = receive_frame env (gs ! i) data; (gs, env, out') = receive_frames env frames (gs[i := g])
         in (gs, env, out @ out'))
      else receive_frames env frames gs)"

definition silence_grant :: "direct_env \<Rightarrow> grant \<Rightarrow> grant \<times> direct_env \<times> direct_effect list" where
  "silence_grant env g =
     (case gr_client g of
        None \<Rightarrow> (g, env, [])
      | Some c \<Rightarrow> if \<not> de_active env (gr_attachment g) (de_mono env) \<and> keyed_by env c g
          then (g, release_ptt c env, [Released c]) else (g, env, []))"

definition poll_media :: "direct_env \<Rightarrow> (nat \<times> cstr) list \<Rightarrow> grant list \<Rightarrow> grant list \<times> direct_env \<times> direct_effect list" where
  "poll_media env frames gs =
     (let (gs, env, out1) = each_grant expire_grant env gs;
          (gs, env, out2) = receive_frames env frames gs;
          (gs, env, out3) = each_grant silence_grant env gs
      in (gs, env, out1 @ out2 @ out3))"

section \<open>Requests and replies of the client\<close>

text \<open>
  The slot of a client's request: the grant it has for the channel, else the first free one. The
  loop of the home server's grants stops at the match, too.
\<close>

definition grant_slot :: "nat \<Rightarrow> string \<Rightarrow> grant list \<Rightarrow> nat option" where
  "grant_slot c uuid gs = (case find_idx (\<lambda>g. gr_client g = Some c \<and> gr_uuid g = uuid) gs of
     Some i \<Rightarrow> Some i
   | None \<Rightarrow> find_idx (\<lambda>g. gr_client g = None) gs)"

definition lease :: "direct_env \<Rightarrow> nat" where
  "lease env = de_mono env + 300000000"

definition subscribe_grant :: "direct_env \<Rightarrow> nat \<Rightarrow> nat \<Rightarrow> bool \<Rightarrow> string \<Rightarrow> grant \<Rightarrow> grant \<times> direct_env \<times> direct_effect list" where
  "subscribe_grant env c pool force uuid g =
     (let (g, env, out) =
        (if gr_client g \<noteq> None \<and> (gr_attachment g = None \<or> \<not> valid env g \<or> gr_expires g \<le> de_mono env \<or> gr_pool g \<noteq> Some pool \<or> gr_force g \<noteq> force)
         then remove_grant env g else (g, env, []))
      in (g\<lparr>gr_client := Some c, gr_force := force, gr_pool := Some pool, gr_uuid := snprintf_s 64 uuid, gr_expires := lease env\<rparr>, env, out))"

definition direct_request :: "direct_env \<Rightarrow> nat \<Rightarrow> dict \<Rightarrow> grant list \<Rightarrow> bool \<times> grant list \<times> direct_env \<times> direct_effect list" where
  "direct_request env c d gs =
     (let uuid = dict_get d ''media.chan-uuid'' ''''; cmd = dict_get d ''media.cmd'' '''';
          force = (dict_get d ''media.transport'' '''' = ''direct'');
          direct = (force \<or> dict_get d ''media.transport'' '''' = ''rtp'');
          pool = select_pool env c in
      if \<not> cn_authenticated (de_conn env c) \<or> dict_get d ''msg.type'' '''' \<noteq> ''media'' then (False, gs, env, [])
      else case de_channel env uuid of
        None \<Rightarrow> (False, gs, env, [])
      | Some (i, ch) \<Rightarrow>
          if force \<and> cmd = ''subscribe'' \<and> (pool = None \<or> mc_subsystem ch \<noteq> me_audio (de_media env))
          then (True, gs, env, [Direct_error c ''Direct RTP media is not available for this channel on its owner''])
          else if de_pools env = [] \<or> mc_subsystem ch \<noteq> me_audio (de_media env) then (False, gs, env, [])
          else (case grant_slot c uuid gs of
            None \<Rightarrow> if force then (True, gs, env, [Direct_error c ''Direct RTP attachment limit reached'']) else (False, gs, env, [])
          | Some k \<Rightarrow>
              if cmd = ''unsubscribe'' \<or> (cmd = ''subscribe'' \<and> \<not> direct)
              then (if gr_client (gs ! k) = Some c then (case remove_grant env (gs ! k) of (g, env, out) \<Rightarrow> (False, gs[k := g], env, out))
                    else (False, gs, env, []))
              else if cmd = ''subscribe'' \<and> direct \<and> pool \<noteq> None \<and> de_in_room env c i
              then (case subscribe_grant env c (the pool) force uuid (gs ! k) of (g, env, out) \<Rightarrow> (False, gs[k := g], env, out))
              else (False, gs, env, [])))"

text \<open>
  A \<open>media.subscribed\<close> on its way to the client turns the grant into an attachment. \<open>keys\<close>: the
  random key and source number, if any; \<open>attached\<close>: the library's attachment; \<open>shown\<close>: whether there is an endpoint to show.
\<close>

definition fail_grant :: "direct_env \<Rightarrow> grant \<Rightarrow> grant \<times> direct_env \<times> direct_effect list" where
  "fail_grant env g = (if gr_force g then revoke_attachment env g else remove_grant env g)"

definition attach_grant :: "direct_env \<Rightarrow> nat \<Rightarrow> string \<Rightarrow> (string \<times> 32 word) option \<Rightarrow> nat option \<Rightarrow> grant \<Rightarrow>
    bool \<times> grant \<times> direct_env \<times> direct_effect list" where
  "attach_grant env c uuid keys attached g =
     (if gr_attachment g \<noteq> None \<and> gr_ssrc g \<noteq> 0 \<and> de_mono env < gr_expires g \<and> valid env g then (True, g, env, [])
      else let force = gr_force g; pool = gr_pool g;
               (g, env, out) = (if gr_attachment g \<noteq> None then remove_grant env g else (g, env, []));
               g = g\<lparr>gr_client := Some c, gr_pool := pool, gr_force := force, gr_uuid := snprintf_s 64 uuid\<rparr> in
        case keys of
          None \<Rightarrow> (case fail_grant env g of (g, env, out') \<Rightarrow> (False, g, env, out @ out'))
        | Some (key, r) \<Rightarrow>
            (let ssrc = r AND 0x7fffffff;
                 g = g\<lparr>gr_key := key, gr_ssrc := (if ssrc = 0 then 1 else ssrc), gr_attachment := attached\<rparr> in
             if attached = None then (case fail_grant env g of (g, env, out') \<Rightarrow> (False, g, env, out @ out'))
             else (True, g, env, out @ [Attach (the attached)])))"

definition direct_sent :: "direct_env \<Rightarrow> nat \<Rightarrow> (string \<times> 32 word) option \<Rightarrow> nat option \<Rightarrow> bool \<Rightarrow> dict \<Rightarrow> grant list \<Rightarrow>
    bool \<times> grant list \<times> direct_env \<times> direct_effect list" where
  "direct_sent env c keys attached shown d gs =
     (if de_pools env = [] \<or> dict_get d ''msg.type'' '''' \<noteq> ''media'' then (False, gs, env, [])
      else case de_channel env (dict_get d ''media.chan-uuid'' '''') of
        None \<Rightarrow> (False, gs, env, [])
      | Some (i, ch) \<Rightarrow>
          if mc_subsystem ch \<noteq> me_audio (de_media env) \<or> dict_get d ''media.cmd'' '''' \<noteq> ''subscribed'' then (False, gs, env, [])
          else (case find_idx (\<lambda>g. gr_client g = Some c \<and> gr_uuid g = mc_uuid ch) gs of
            None \<Rightarrow> (False, gs, env, [])
          | Some k \<Rightarrow>
              if \<not> valid env (gs ! k) then (case remove_grant env (gs ! k) of (g, env, out) \<Rightarrow> (False, gs[k := g], env, out))
              else (case attach_grant env c (mc_uuid ch) keys attached (gs ! k) of (ok, g, env, out) \<Rightarrow>
                if \<not> ok then (False, gs[k := g], env, out)
                else if \<not> shown then (case remove_grant env (g\<lparr>gr_expires := lease env\<rparr>) of (g, env, out') \<Rightarrow> (False, gs[k := g], env, out @ out'))
                else (True, gs[k := g\<lparr>gr_expires := lease env\<rparr>], env, out))))"

text \<open>The home server's grant for a channel of another server.\<close>

definition rrserver_direct_relay_grant :: "direct_env \<Rightarrow> nat \<Rightarrow> (string \<times> 32 word) option \<Rightarrow> nat option \<Rightarrow> bool \<Rightarrow> dict \<Rightarrow> nat \<Rightarrow> nat \<Rightarrow> grant list \<Rightarrow>
    bool \<times> grant list \<times> direct_env \<times> direct_effect list" where
  "rrserver_direct_relay_grant env c keys attached shown d stream direction gs =
     (let uuid = dict_get d ''media.chan-uuid'' ''''; pool = select_pool env c in
      if pool = None \<or> \<not> rrserver_relay_media_valid (de_media env) c uuid stream (de_maps env) then (False, gs, env, [])
      else case grant_slot c uuid gs of
        None \<Rightarrow> (False, gs, env, [])
      | Some k \<Rightarrow>
          (let (g, env, out) = (if gr_client (gs ! k) = None then (gs ! k, env, []) else remove_grant env (gs ! k));
               g = g\<lparr>gr_client := Some c, gr_pool := pool, gr_relay := True, gr_stream := stream, gr_direction := direction,
                     gr_uuid := snprintf_s 64 uuid\<rparr> in
           case keys of
             None \<Rightarrow> (case remove_grant env g of (g, env, out') \<Rightarrow> (False, gs[k := g], env, out @ out'))
           | Some (key, r) \<Rightarrow>
               (let g = g\<lparr>gr_key := key, gr_ssrc := (r AND 0x7fffffff) OR 1, gr_attachment := attached\<rparr> in
                if attached = None then (case remove_grant env g of (g, env, out') \<Rightarrow> (False, gs[k := g], env, out @ out'))
                else let g = g\<lparr>gr_expires := lease env\<rparr>; out = out @ [Attach (the attached)] in
                  if \<not> shown then (case remove_grant env g of (g, env, out') \<Rightarrow> (False, gs[k := g], env, out @ out'))
                  else (True, gs[k := g], env, out))))"

text \<open>A frame for a client: over RTP when it has an active attachment; a forced client gets no other.\<close>

definition direct_binary :: "direct_env \<Rightarrow> nat \<Rightarrow> bool \<Rightarrow> nat \<Rightarrow> string \<Rightarrow> grant list \<Rightarrow> bool \<times> direct_effect list" where
  "direct_binary env c setup_frame max_frame data gs =
     (case me_parse (de_media env) data of
        None \<Rightarrow> (False, [])
      | Some h \<Rightarrow>
          if de_pools env = [] \<or> setup_frame \<or> bf_direction h \<noteq> de_dir_rx env then (False, [])
          else (case find_idx (\<lambda>g. gr_client g = Some c \<and> ((gr_relay g \<and> gr_stream g = bf_stream h) \<or>
              (case de_channel env (gr_uuid g) of None \<Rightarrow> False | Some (i, ch) \<Rightarrow> i + 1 = bf_stream h)) \<and> valid env g) gs of
            None \<Rightarrow> (False, [])
          | Some k \<Rightarrow>
              if \<not> de_active env (gr_attachment (gs ! k)) (de_mono env) \<or> max_frame < length data then (gr_force (gs ! k), [])
              else (True, [Rtp_send (gr_attachment (gs ! k)) data])))"


section \<open>Runs\<close>

datatype direct_event =
    D_request nat dict
  | D_sent nat "(string \<times> 32 word) option" "nat option" bool dict
  | D_relay nat "(string \<times> 32 word) option" "nat option" bool dict nat nat
  | D_close nat
  | D_poll "(nat \<times> cstr) list"

fun direct_step :: "direct_env \<times> direct_event \<Rightarrow> grant list \<Rightarrow> grant list \<times> direct_effect list" where
  "direct_step (env, D_request c d) gs = (case direct_request env c d gs of (_, gs, _, out) \<Rightarrow> (gs, out))"
| "direct_step (env, D_sent c keys attached shown d) gs = (case direct_sent env c keys attached shown d gs of (_, gs, _, out) \<Rightarrow> (gs, out))"
| "direct_step (env, D_relay c keys attached shown d stream direction) gs =
     (case rrserver_direct_relay_grant env c keys attached shown d stream direction gs of (_, gs, _, out) \<Rightarrow> (gs, out))"
| "direct_step (env, D_close c) gs = (case rrserver_direct_close env c gs of (gs, _, out) \<Rightarrow> (gs, out))"
| "direct_step (env, D_poll frames) gs = (case poll_media env frames gs of (gs, _, out) \<Rightarrow> (gs, out))"

fun direct_runs :: "(direct_env \<times> direct_event) list \<Rightarrow> grant list \<Rightarrow> grant list \<times> direct_effect list" where
  "direct_runs [] gs = (gs, [])"
| "direct_runs (x # xs) gs = (let (gs, out) = direct_step x gs; (gs, out') = direct_runs xs gs in (gs, out @ out'))"

section \<open>Attachments are neither lost nor detached twice\<close>

definition handles :: "grant list \<Rightarrow> nat multiset" where
  "handles gs = mset (concat (map (\<lambda>g. case gr_attachment g of None \<Rightarrow> [] | Some a \<Rightarrow> [a]) gs))"

definition attaches :: "direct_effect list \<Rightarrow> nat multiset" where
  "attaches out = mset (concat (map (\<lambda>e. case e of Attach a \<Rightarrow> [a] | _ \<Rightarrow> []) out))"

definition detaches :: "direct_effect list \<Rightarrow> nat multiset" where
  "detaches out = mset (concat (map (\<lambda>e. case e of Detach (Some a) \<Rightarrow> [a] | _ \<Rightarrow> []) out))"

lemma account_simps [simp]:
  "handles [] = {#}" "handles (g # gs) = (case gr_attachment g of None \<Rightarrow> {#} | Some a \<Rightarrow> {#a#}) + handles gs"
  "attaches [] = {#}" "attaches (e # out) = (case e of Attach a \<Rightarrow> {#a#} | _ \<Rightarrow> {#}) + attaches out"
  "detaches [] = {#}" "detaches (e # out) = (case e of Detach (Some a) \<Rightarrow> {#a#} | _ \<Rightarrow> {#}) + detaches out"
  "attaches (out @ out') = attaches out + attaches out'" "detaches (out @ out') = detaches out + detaches out'"
  "handles (gs @ gs') = handles gs + handles gs'"
  by (simp_all add: handles_def attaches_def detaches_def split: option.split direct_effect.split)

definition balanced :: "grant list \<Rightarrow> grant list \<Rightarrow> direct_effect list \<Rightarrow> bool" where
  "balanced gs gs' out \<longleftrightarrow> handles gs + attaches out = handles gs' + detaches out"

lemma balanced_refl [simp]: "balanced gs gs []"
  by (simp add: balanced_def)

lemma add_equations: "a + b = c + d \<Longrightarrow> a' + b' = c' + d' \<Longrightarrow> (a + a') + (b + b') = (c + c') + (d + d')" for a :: "nat multiset"
proof -
  assume 1: "a + b = c + d" "a' + b' = c' + d'"
  have "(a + a') + (b + b') = (a + b) + (a' + b')" by (simp add: ac_simps)
  also have "\<dots> = (c + c') + (d + d')" unfolding 1 by (simp add: ac_simps)
  finally show ?thesis .
qed

lemma balanced_trans: "balanced gs gs' out \<Longrightarrow> balanced gs' gs'' out' \<Longrightarrow> balanced gs gs'' (out @ out')"
  using add_equations [of "handles gs" "attaches out" "handles gs'" "detaches out" "handles gs'" "attaches out'" "handles gs''" "detaches out'"]
  by (simp add: balanced_def)

lemma balanced_app: "balanced gs gs' out \<Longrightarrow> balanced hs hs' out' \<Longrightarrow> balanced (gs @ hs) (gs' @ hs') (out @ out')"
  using add_equations [of "handles gs" "attaches out" "handles gs'" "detaches out" "handles hs" "attaches out'" "handles hs'" "detaches out'"]
  by (simp add: balanced_def)

lemma balanced_update: "k < length gs \<Longrightarrow> balanced [gs ! k] [g] out \<Longrightarrow> balanced gs (gs[k := g]) out"
proof -
  assume k: "k < length gs" and b: "balanced [gs ! k] [g] out"
  have u: "gs[k := g] = take k gs @ [g] @ drop (Suc k) gs" using k by (simp add: upd_conv_take_nth_drop)
  have e: "gs = take k gs @ [gs ! k] @ drop (Suc k) gs" using k by (simp add: id_take_nth_drop [symmetric])
  have "balanced (take k gs @ [gs ! k] @ drop (Suc k) gs) (take k gs @ [g] @ drop (Suc k) gs) ([] @ out @ [])"
    by (intro balanced_app b balanced_refl)
  with e u show ?thesis by simp
qed

text \<open>What a grant becomes: itself, or nothing; the key tells which.\<close>

definition grant_key :: "grant \<Rightarrow> (nat \<times> string) option" where
  "grant_key g = map_option (\<lambda>c. (c, gr_uuid g)) (gr_client g)"

definition clean :: "grant \<Rightarrow> bool" where
  "clean g \<longleftrightarrow> gr_client g = None \<longrightarrow> gr_attachment g = None"

definition keeps :: "grant \<Rightarrow> grant \<Rightarrow> direct_effect list \<Rightarrow> bool" where
  "keeps g g' out \<longleftrightarrow> balanced [g] [g'] out \<and> (clean g \<longrightarrow> clean g') \<and> (grant_key g' = None \<or> grant_key g' = grant_key g)"

lemma keeps_refl [simp]: "keeps g g []"
  by (simp add: keeps_def)

lemma revoke_keeps: "revoke_attachment env g = (g', env', out) \<Longrightarrow> keeps g g' out"
  by (auto simp: revoke_attachment_def keeps_def balanced_def clean_def grant_key_def Let_def split: option.splits if_splits)

lemma remove_keeps: "remove_grant env g = (g', env', out) \<Longrightarrow> keeps g g' out \<and> g' = no_grant"
  by (auto simp: remove_grant_def revoke_attachment_def keeps_def balanced_def clean_def grant_key_def no_grant_def Let_def
    split: option.splits if_splits)

lemma each_grant_keeps:
  assumes f: "\<And>env g g' env' out. f env g = (g', env', out) \<Longrightarrow> keeps g g' out"
  shows "each_grant f env gs = (gs', env', out) \<Longrightarrow>
    balanced gs gs' out \<and> list_all2 (\<lambda>g g'. (clean g \<longrightarrow> clean g') \<and> (grant_key g' = None \<or> grant_key g' = grant_key g)) gs gs'"
proof (induction gs arbitrary: env gs' env' out)
  case (Cons g gs)
  obtain g1 env1 out1 where 1: "f env g = (g1, env1, out1)" by (metis prod_cases3)
  obtain gs2 env2 out2 where 2: "each_grant f env1 gs = (gs2, env2, out2)" by (metis prod_cases3)
  from Cons.prems 1 2 have r: "gs' = g1 # gs2" "out = out1 @ out2" by auto
  from f [OF 1] have k: "balanced [g] [g1] out1" "clean g \<longrightarrow> clean g1" "grant_key g1 = None \<or> grant_key g1 = grant_key g" by (simp_all add: keeps_def)
  from Cons.IH [OF 2] balanced_app [OF k(1), of gs gs2 out2] k(2,3) show ?case by (simp add: r)
qed simp

text \<open>A slot taken for the key \<open>(c, uuid)\<close>.\<close>

definition turns :: "nat \<Rightarrow> string \<Rightarrow> grant \<Rightarrow> grant \<Rightarrow> direct_effect list \<Rightarrow> bool" where
  "turns c uuid g g' out \<longleftrightarrow> balanced [g] [g'] out \<and> (clean g \<longrightarrow> clean g') \<and>
     (grant_key g' = None \<or> grant_key g' = grant_key g \<or> grant_key g' = Some (c, uuid))"

lemma keeps_turns: "keeps g g' out \<Longrightarrow> turns c uuid g g' out"
  by (auto simp: keeps_def turns_def)

lemma turns_trans: "turns c uuid g g' out \<Longrightarrow> turns c uuid g' g'' out' \<Longrightarrow> turns c uuid g g'' (out @ out')"
  using balanced_trans [of "[g]" "[g']" out "[g'']" out'] by (auto simp: turns_def)

lemma turns_refl: "turns c uuid g g []"
  by (simp add: turns_def)

lemma taken_turns:
  "gr_client g' = Some c \<Longrightarrow> gr_uuid g' = uuid \<Longrightarrow> gr_attachment g' = gr_attachment g \<Longrightarrow> turns c uuid g g' []"
  by (simp add: turns_def balanced_def clean_def grant_key_def)

lemma attached_turns:
  "gr_client g' = Some c \<Longrightarrow> gr_uuid g' = uuid \<Longrightarrow> gr_attachment g = None \<Longrightarrow> gr_attachment g' = Some a \<Longrightarrow> turns c uuid g g' [Attach a]"
  by (simp add: turns_def balanced_def clean_def grant_key_def)

lemma fail_turns: "fail_grant env g = (g', env', out) \<Longrightarrow> turns c uuid g g' out"
  using revoke_keeps remove_keeps keeps_turns by (auto simp: fail_grant_def split: if_splits)

lemma subscribe_turns:
  assumes "subscribe_grant env c pool force uuid g = (g', env', out)" "length uuid < 64"
  shows "turns c uuid g g' out"
proof -
  obtain g1 env1 out1 where 1: "(if gr_client g \<noteq> None \<and> (gr_attachment g = None \<or> \<not> valid env g \<or> gr_expires g \<le> de_mono env \<or>
      gr_pool g \<noteq> Some pool \<or> gr_force g \<noteq> force) then remove_grant env g else (g, env, [])) = (g1, env1, out1)" by (metis prod_cases3)
  then have g': "g' = g1\<lparr>gr_client := Some c, gr_force := force, gr_pool := Some pool, gr_uuid := snprintf_s 64 uuid, gr_expires := lease env1\<rparr>" "out = out1"
    using assms(1) unfolding subscribe_grant_def Let_def 1 by auto
  from 1 have "turns c uuid g g1 out"
    unfolding g'(2) by (auto split: if_splits intro: turns_refl dest: remove_keeps keeps_turns)
  from turns_trans [OF this taken_turns [of g' c uuid g1]] assms(2) show ?thesis by (simp add: g')
qed

lemma attach_turns:
  assumes "attach_grant env c uuid keys attached g = (ok, g', env', out)" "length uuid < 64"
  shows "turns c uuid g g' out"
proof (cases "gr_attachment g \<noteq> None \<and> gr_ssrc g \<noteq> 0 \<and> de_mono env < gr_expires g \<and> valid env g")
  case True
  with assms(1) show ?thesis by (auto simp: attach_grant_def intro: turns_refl)
next
  case False
  obtain g1 env1 out1 where 1: "(if gr_attachment g \<noteq> None then remove_grant env g else (g, env, [])) = (g1, env1, out1)" by (metis prod_cases3)
  from 1 have t1: "turns c uuid g g1 out1" by (auto split: if_splits intro: turns_refl dest: remove_keeps keeps_turns)
  from 1 have n1: "gr_attachment g1 = None" by (auto split: if_splits dest!: remove_keeps simp: no_grant_def)
  define g2 where "g2 = g1\<lparr>gr_client := Some c, gr_pool := gr_pool g, gr_force := gr_force g, gr_uuid := snprintf_s 64 uuid\<rparr>"
  have t2: "turns c uuid g g2 out1" and n2: "gr_attachment g2 = None"
    using turns_trans [OF t1 taken_turns [of g2 c uuid g1]] assms(2) n1 by (simp_all add: g2_def)
  have a: "attach_grant env c uuid keys attached g = (case keys of
      None \<Rightarrow> (case fail_grant env1 g2 of (g, env, out') \<Rightarrow> (False, g, env, out1 @ out'))
    | Some (key, r) \<Rightarrow>
        (let ssrc = r AND 0x7fffffff;
             g = g2\<lparr>gr_key := key, gr_ssrc := (if ssrc = 0 then 1 else ssrc), gr_attachment := attached\<rparr> in
         if attached = None then (case fail_grant env1 g of (g, env, out') \<Rightarrow> (False, g, env, out1 @ out'))
         else (True, g, env1, out1 @ [Attach (the attached)])))"
    by (simp only: attach_grant_def if_not_P [OF False] Let_def 1 prod.case g2_def)
  show ?thesis
  proof (cases keys)
    case None
    obtain g3 env3 out3 where 3: "fail_grant env1 g2 = (g3, env3, out3)" by (metis prod_cases3)
    from assms(1) [unfolded a] None 3 have "g' = g3" "out = out1 @ out3" by auto
    with turns_trans [OF t2 fail_turns [OF 3]] show ?thesis by simp
  next
    case (Some key)
    define ssrc where "ssrc = snd key AND 0x7fffffff"
    define g3 where "g3 = g2\<lparr>gr_key := fst key, gr_ssrc := (if ssrc = 0 then 1 else ssrc), gr_attachment := attached\<rparr>"
    show ?thesis
    proof (cases attached)
      case None
      obtain g4 env4 out4 where 4: "fail_grant env1 g3 = (g4, env4, out4)" by (metis prod_cases3)
      from assms(1) [unfolded a] Some None 4 have r: "g' = g4" "out = out1 @ out4" by (auto simp: Let_def split_beta ssrc_def g3_def)
      have "turns c uuid g2 g3 []" using None n2 assms(2) by (intro taken_turns) (simp_all add: g3_def g2_def)
      from turns_trans [OF turns_trans [OF t2 this] fail_turns [OF 4]] show ?thesis by (simp add: r)
    next
      case (Some a)
      with assms(1) [unfolded a] \<open>keys = Some key\<close> have r: "g' = g3" "out = out1 @ [Attach a]" by (auto simp: Let_def split_beta ssrc_def g3_def)
      have "turns c uuid g2 g3 [Attach a]" using Some n2 assms(2) by (intro attached_turns) (simp_all add: g3_def g2_def)
      from turns_trans [OF t2 this] show ?thesis by (simp add: r)
    qed
  qed
qed

definition table :: "grant list \<Rightarrow> bool" where
  "table gs \<longleftrightarrow> (\<forall>g \<in> set gs. clean g) \<and>
     (\<forall>i < length gs. \<forall>j < length gs. \<forall>k. grant_key (gs ! i) = Some k \<longrightarrow> grant_key (gs ! j) = Some k \<longrightarrow> i = j)"

lemma table_shrinks:
  assumes "list_all2 (\<lambda>g g'. (clean g \<longrightarrow> clean g') \<and> (grant_key g' = None \<or> grant_key g' = grant_key g)) gs gs'" "table gs"
  shows "table gs'"
proof -
  have len: "length gs' = length gs" using assms(1) by (simp add: list_all2_lengthD)
  have n: "(clean (gs ! i) \<longrightarrow> clean (gs' ! i)) \<and> (grant_key (gs' ! i) = None \<or> grant_key (gs' ! i) = grant_key (gs ! i))" if "i < length gs" for i
    using assms(1) that by (simp add: list_all2_conv_all_nth)
  show ?thesis unfolding table_def
  proof (intro conjI ballI allI impI)
    fix g assume "g \<in> set gs'"
    then obtain i where i: "i < length gs" "g = gs' ! i" using len by (auto simp: in_set_conv_nth)
    then have "clean (gs ! i)" using assms(2) by (simp add: table_def)
    with n [OF i(1)] i show "clean g" by simp
  next
    fix i j k
    assume "i < length gs'" "j < length gs'" "grant_key (gs' ! i) = Some k" "grant_key (gs' ! j) = Some k"
    with n [of i] n [of j] len have "grant_key (gs ! i) = Some k" "grant_key (gs ! j) = Some k" "i < length gs" "j < length gs" by auto
    with assms(2) show "i = j" unfolding table_def by blast
  qed
qed

lemma grant_slot_SomeD: "grant_slot c uuid gs = Some k \<Longrightarrow> k < length gs \<and>
  (grant_key (gs ! k) = Some (c, uuid) \<or> (gr_client (gs ! k) = None \<and> (\<forall>g \<in> set gs. grant_key g \<noteq> Some (c, uuid))))"
  by (auto simp: grant_slot_def grant_key_def split: option.splits dest!: find_idx_SomeD)

lemma table_update:
  assumes "table gs" "grant_slot c uuid gs = Some k" "turns c uuid (gs ! k) g out"
  shows "table (gs[k := g])"
proof -
  have k: "k < length gs" and slot: "grant_key (gs ! k) = Some (c, uuid) \<or> (\<forall>g \<in> set gs. grant_key g \<noteq> Some (c, uuid))"
    using grant_slot_SomeD [OF assms(2)] by auto
  have clean: "clean g" using assms(1,3) k by (simp add: table_def turns_def)
  have other: "grant_key (gs ! i) \<noteq> grant_key g" if "i < length gs" "i \<noteq> k" "grant_key g \<noteq> None" for i
  proof
    assume e: "grant_key (gs ! i) = grant_key g"
    from assms(3) that(3) consider "grant_key g = grant_key (gs ! k)" | "grant_key g = Some (c, uuid)" by (auto simp: turns_def)
    then show False
    proof cases
      case 1
      then show ?thesis using e that k assms(1) unfolding table_def by (metis option.exhaust)
    next
      case 2
      then have "\<not> (\<forall>g \<in> set gs. grant_key g \<noteq> Some (c, uuid))" using e that(1) nth_mem [OF that(1)] by force
      then have "grant_key (gs ! k) = grant_key g" using slot 2 by auto
      then show ?thesis using e that k assms(1) unfolding table_def by (metis option.exhaust)
    qed
  qed
  show ?thesis unfolding table_def
  proof (intro conjI ballI allI impI)
    fix h assume "h \<in> set (gs[k := g])"
    then show "clean h" using set_update_subset_insert [of gs k g] assms(1) clean by (auto simp: table_def)
  next
    fix i j key
    assume h: "i < length (gs[k := g])" "j < length (gs[k := g])" "grant_key (gs[k := g] ! i) = Some key" "grant_key (gs[k := g] ! j) = Some key"
    show "i = j"
    proof (cases "i = k \<or> j = k")
      case True
      then show ?thesis using h other [of i] other [of j] k by (auto simp: nth_list_update split: if_splits)
    next
      case False
      then have "grant_key (gs ! i) = Some key" "grant_key (gs ! j) = Some key" "i < length gs" "j < length gs" using h by simp_all
      then show ?thesis using assms(1) unfolding table_def by blast
    qed
  qed
qed

definition step_ok :: "grant list \<Rightarrow> grant list \<Rightarrow> direct_effect list \<Rightarrow> bool" where
  "step_ok gs gs' out \<longleftrightarrow> length gs' = length gs \<and> balanced gs gs' out \<and> (table gs \<longrightarrow> table gs')"

lemma step_ok_refl [simp]: "step_ok gs gs []"
  by (simp add: step_ok_def)

lemma step_ok_trans: "step_ok gs gs' out \<Longrightarrow> step_ok gs' gs'' out' \<Longrightarrow> step_ok gs gs'' (out @ out')"
  using balanced_trans by (auto simp: step_ok_def)

lemma slot_step_ok: "grant_slot c uuid gs = Some k \<Longrightarrow> turns c uuid (gs ! k) g out \<Longrightarrow> step_ok gs (gs[k := g]) out"
  using grant_slot_SomeD [of c uuid gs k] balanced_update [of k gs g out] table_update [of gs c uuid k g out]
  by (auto simp: step_ok_def turns_def)

lemma each_grant_ok:
  assumes "\<And>env g g' env' out. f env g = (g', env', out) \<Longrightarrow> keeps g g' out" "each_grant f env gs = (gs', env', out)"
  shows "step_ok gs gs' out"
proof -
  have b: "balanced gs gs' out \<and> list_all2 (\<lambda>g g'. (clean g \<longrightarrow> clean g') \<and> (grant_key g' = None \<or> grant_key g' = grant_key g)) gs gs'"
    by (rule each_grant_keeps [OF _ assms(2)]) (rule assms(1))
  then have "length gs = length gs'" by (blast dest: list_all2_lengthD)
  with conjunct1 [OF b] table_shrinks [OF conjunct2 [OF b]] show ?thesis by (simp only: step_ok_def) blast
qed

definition names_short :: "direct_env \<Rightarrow> bool" where
  "names_short env \<longleftrightarrow> (\<forall>u i ch. de_channel env u = Some (i, ch) \<longrightarrow> mc_uuid ch = u \<and> length u < 64) \<and>
     (\<forall>m \<in> set (ms_maps (de_maps env)). length (rm_uuid m) < 64)"

lemma direct_request_ok:
  assumes "direct_request env c d gs = (handled, gs', env', out)" "names_short env"
  shows "step_ok gs gs' out"
proof -
  let ?uuid = "dict_get d ''media.chan-uuid'' ''''"
  have out: "step_ok gs gs [Direct_error c t]" for t by (simp add: step_ok_def balanced_def)
  define pool force direct cmd where "pool = select_pool env c" and "force = (dict_get d ''media.transport'' '''' = ''direct'')"
    and "direct = (force \<or> dict_get d ''media.transport'' '''' = ''rtp'')" and "cmd = dict_get d ''media.cmd'' ''''"
  define ending starting where "ending = (cmd = ''unsubscribe'' \<or> (cmd = ''subscribe'' \<and> \<not> direct))" and "starting = (cmd = ''subscribe'')"
  define skipped where "skipped = (\<not> cn_authenticated (de_conn env c) \<or> dict_get d ''msg.type'' '''' \<noteq> ''media'')"
  define no1 no2 where "no1 = ''Direct RTP media is not available for this channel on its owner''" and "no2 = ''Direct RTP attachment limit reached''"
  have req: "(if skipped then (False, gs, env, []) else case de_channel env ?uuid of
        None \<Rightarrow> (False, gs, env, [])
      | Some (i, ch) \<Rightarrow>
          if force \<and> starting \<and> (pool = None \<or> mc_subsystem ch \<noteq> me_audio (de_media env)) then (True, gs, env, [Direct_error c no1])
          else if de_pools env = [] \<or> mc_subsystem ch \<noteq> me_audio (de_media env) then (False, gs, env, [])
          else (case grant_slot c ?uuid gs of
            None \<Rightarrow> if force then (True, gs, env, [Direct_error c no2]) else (False, gs, env, [])
          | Some k \<Rightarrow>
              if ending
              then (if gr_client (gs ! k) = Some c then (case remove_grant env (gs ! k) of (g, env, out) \<Rightarrow> (False, gs[k := g], env, out))
                    else (False, gs, env, []))
              else if starting \<and> direct \<and> pool \<noteq> None \<and> de_in_room env c i
              then (case subscribe_grant env c (the pool) force ?uuid (gs ! k) of (g, env, out) \<Rightarrow> (False, gs[k := g], env, out))
              else (False, gs, env, []))) = (handled, gs', env', out)"
    using assms(1) unfolding direct_request_def Let_def pool_def direct_def force_def cmd_def ending_def starting_def skipped_def no1_def no2_def .
  show ?thesis
  proof (cases "gs' = gs \<and> (out = [] \<or> (\<exists>t. out = [Direct_error c t]))")
    case True
    then show ?thesis using out by auto
  next
    case F: False
    have "\<not> skipped" using req F by (cases skipped) simp_all
    note req = req [unfolded if_not_P [OF this]]
    obtain i ch where ch: "de_channel env ?uuid = Some (i, ch)" using req F by (cases "de_channel env ?uuid") auto
    have short: "length ?uuid < 64" using assms(2) [unfolded names_short_def, THEN conjunct1, rule_format, OF ch] by simp
    note req = req [unfolded ch option.case prod.case]
    have n1: "\<not> (force \<and> starting \<and> (pool = None \<or> mc_subsystem ch \<noteq> me_audio (de_media env)))" (is "\<not> ?C")
      using req F by (cases ?C) auto
    note req = req [unfolded if_not_P [OF n1]]
    have n2: "\<not> (de_pools env = [] \<or> mc_subsystem ch \<noteq> me_audio (de_media env))" (is "\<not> ?D") using req F by (cases ?D) simp_all
    note req = req [unfolded if_not_P [OF n2]]
    obtain k where k: "grant_slot c ?uuid gs = Some k" using req F by (cases "grant_slot c ?uuid gs") (auto split: if_splits)
    note req = req [unfolded k option.case]
    obtain g1 env1 out1 where r: "remove_grant env (gs ! k) = (g1, env1, out1)" by (metis prod_cases3)
    obtain g2 env2 out2 where t: "subscribe_grant env c (the pool) force ?uuid (gs ! k) = (g2, env2, out2)" by (metis prod_cases3)
    consider "gs' = gs[k := g1]" "out = out1" | "gs' = gs[k := g2]" "out = out2"
      using req F unfolding r t prod.case by (simp split: if_splits)
    then show ?thesis
    proof cases
      case 1
      from slot_step_ok [OF k keeps_turns [OF conjunct1 [OF remove_keeps [OF r]]]] 1 show ?thesis by simp
    next
      case 2
      from slot_step_ok [OF k subscribe_turns [OF t short]] 2 show ?thesis by simp
    qed
  qed
qed

lemma sent_ok:
  assumes "direct_sent env c keys attached shown d gs = (fin, gs', env', out)" "names_short env"
  shows "step_ok gs gs' out"
proof (cases "de_channel env (dict_get d ''media.chan-uuid'' '''')")
  case None
  with assms(1) show ?thesis by (auto simp: direct_sent_def split: if_splits)
next
  case (Some ich)
  then obtain i ch where ch: "de_channel env (dict_get d ''media.chan-uuid'' '''') = Some (i, ch)" by (cases ich) simp
  have short: "length (mc_uuid ch) < 64" using assms(2) [unfolded names_short_def, THEN conjunct1, rule_format, OF ch] by simp
  show ?thesis
  proof (cases "gs' = gs \<and> out = []")
    case False
    then obtain k where k: "find_idx (\<lambda>g. gr_client g = Some c \<and> gr_uuid g = mc_uuid ch) gs = Some k"
      and r: "(if \<not> valid env (gs ! k) then (case remove_grant env (gs ! k) of (g, env, out) \<Rightarrow> (False, gs[k := g], env, out))
              else (case attach_grant env c (mc_uuid ch) keys attached (gs ! k) of (ok, g, env, out) \<Rightarrow>
                if \<not> ok then (False, gs[k := g], env, out)
                else if \<not> shown then (case remove_grant env (g\<lparr>gr_expires := lease env\<rparr>) of (g, env, out') \<Rightarrow> (False, gs[k := g], env, out @ out'))
                else (True, gs[k := g\<lparr>gr_expires := lease env\<rparr>], env, out))) = (fin, gs', env', out)"
    proof -
      define skipped where "skipped = (de_pools env = [] \<or> dict_get d ''msg.type'' '''' \<noteq> ''media'')"
      define other where "other = (mc_subsystem ch \<noteq> me_audio (de_media env) \<or> dict_get d ''media.cmd'' '''' \<noteq> ''subscribed'')"
      note u = assms(1) [unfolded direct_sent_def ch option.case prod.case, folded skipped_def other_def]
      have ns: "\<not> skipped" using u False by (cases skipped) simp_all
      note u = u [unfolded if_not_P [OF ns]]
      have "\<not> other" using u False by (cases other) simp_all
      note v = u [unfolded if_not_P [OF this]]
      show thesis
      proof (cases "find_idx (\<lambda>g. gr_client g = Some c \<and> gr_uuid g = mc_uuid ch) gs")
        case None
        with v False show thesis by simp
      next
        case (Some k)
        from v [unfolded Some option.case] show thesis by (rule that [OF Some])
      qed
    qed
    have slot: "grant_slot c (mc_uuid ch) gs = Some k" by (simp add: grant_slot_def k)
    have renewed: "turns c (mc_uuid ch) g (g\<lparr>gr_expires := t\<rparr>) []" for g t
      by (simp add: turns_def balanced_def clean_def grant_key_def)
    obtain ok g env1 out1 where A: "attach_grant env c (mc_uuid ch) keys attached (gs ! k) = (ok, g, env1, out1)" by (metis prod_cases4)
    obtain g2 env2 out2 where B: "remove_grant env1 (g\<lparr>gr_expires := lease env1\<rparr>) = (g2, env2, out2)" by (metis prod_cases3)
    obtain g3 env3 out3 where C: "remove_grant env (gs ! k) = (g3, env3, out3)" by (metis prod_cases3)
    have t: "turns c (mc_uuid ch) (gs ! k) (g\<lparr>gr_expires := lease env1\<rparr>) out1"
      using turns_trans [OF attach_turns [OF A short] renewed] by simp
    consider "gs' = gs[k := g3]" "out = out3" | "gs' = gs[k := g]" "out = out1"
      | "gs' = gs[k := g2]" "out = out1 @ out2" | "gs' = gs[k := g\<lparr>gr_expires := lease env1\<rparr>]" "out = out1"
      using r by (auto simp: A B C split: if_splits)
    then show ?thesis
    proof cases
      case 1
      have "keeps (gs ! k) g3 out3" using remove_keeps [OF C] by (rule conjunct1)
      from slot_step_ok [OF slot keeps_turns [OF this]] 1 show ?thesis by simp
    next
      case 2
      then show ?thesis using slot_step_ok [OF slot attach_turns [OF A short]] by simp
    next
      case 3
      have "keeps (g\<lparr>gr_expires := lease env1\<rparr>) g2 out2" using remove_keeps [OF B] by (rule conjunct1)
      from slot_step_ok [OF slot turns_trans [OF t keeps_turns [OF this]]] 3 show ?thesis by simp
    next
      case 4
      then show ?thesis using slot_step_ok [OF slot t] by simp
    qed
  qed simp
qed

lemma relay_grant_ok:
  assumes "rrserver_direct_relay_grant env c keys attached shown d stream direction gs = (fin, gs', env', out)" "names_short env" "table gs"
  shows "step_ok gs gs' out"
proof -
  let ?uuid = "dict_get d ''media.chan-uuid'' ''''"
  consider "gs' = gs" "out = []" | k where "grant_slot c ?uuid gs = Some k" "rrserver_relay_media_valid (de_media env) c ?uuid stream (de_maps env)" "select_pool env c \<noteq> None"
    using assms(1) by (auto simp: rrserver_direct_relay_grant_def Let_def split: if_splits option.splits)
  then show ?thesis
  proof cases
    case (2 k)
    then obtain j where "find_idx (map_for c ?uuid) (ms_maps (de_maps env)) = Some j"
      by (auto simp: rrserver_relay_media_valid_def rr_relay_media_map_def split: option.splits if_splits)
    from find_idx_SomeD [OF this] have "ms_maps (de_maps env) ! j \<in> set (ms_maps (de_maps env))" "rm_uuid (ms_maps (de_maps env) ! j) = ?uuid"
      by (simp_all add: map_for_def)
    then have short: "length ?uuid < 64" using assms(2) unfolding names_short_def by metis
    obtain g1 env1 out1 where 1: "(if gr_client (gs ! k) = None then (gs ! k, env, []) else remove_grant env (gs ! k)) = (g1, env1, out1)" by (metis prod_cases3)
    have clean: "clean (gs ! k)" using assms(3) grant_slot_SomeD [OF 2(1)] by (simp add: table_def)
    from 1 have t1: "turns c ?uuid (gs ! k) g1 out1" by (auto split: if_splits intro: turns_refl dest: remove_keeps keeps_turns)
    from 1 clean have n1: "gr_attachment g1 = None" by (auto split: if_splits dest!: remove_keeps simp: no_grant_def clean_def)
    define g2 where "g2 = g1\<lparr>gr_client := Some c, gr_pool := select_pool env c, gr_relay := True, gr_stream := stream, gr_direction := direction,
      gr_uuid := snprintf_s 64 ?uuid\<rparr>"
    have t2: "turns c ?uuid (gs ! k) g2 out1" using turns_trans [OF t1 taken_turns [of g2 c ?uuid g1]] short by (simp add: g2_def)
    define g3 where "g3 = (\<lambda>key r. g2\<lparr>gr_key := key, gr_ssrc := (r AND 0x7fffffff) OR 1, gr_attachment := attached\<rparr>)"
    obtain a b cc where 4: "remove_grant env1 g2 = (a, b, cc)" by (metis prod_cases3)
    have np: "\<not> (select_pool env c = None \<or> \<not> rrserver_relay_media_valid (de_media env) c ?uuid stream (de_maps env))" using 2 by simp
    have r: "(case keys of
             None \<Rightarrow> (case remove_grant env1 g2 of (g, env, out') \<Rightarrow> (False, gs[k := g], env, out1 @ out'))
           | Some (key, r) \<Rightarrow>
               (if attached = None then (case remove_grant env1 (g3 key r) of (g, env, out') \<Rightarrow> (False, gs[k := g], env, out1 @ out'))
                else if \<not> shown then (case remove_grant env1 ((g3 key r)\<lparr>gr_expires := lease env1\<rparr>) of (g, env, out') \<Rightarrow>
                    (False, gs[k := g], env, (out1 @ [Attach (the attached)]) @ out'))
                  else (True, gs[k := (g3 key r)\<lparr>gr_expires := lease env1\<rparr>], env1, out1 @ [Attach (the attached)]))) = (fin, gs', env', out)"
      using assms(1) unfolding rrserver_direct_relay_grant_def Let_def if_not_P [OF np] 2(1) option.case 1 prod.case g2_def g3_def .
    have t3: "turns c ?uuid g2 ((g3 key r)\<lparr>gr_expires := lease env1\<rparr>) [Attach (the attached)]" if "attached \<noteq> None" for key r
      using that short n1 by (auto intro!: attached_turns simp: g3_def g2_def)
    have t3': "turns c ?uuid g2 (g3 key r) []" if "attached = None" for key r
      using that short n1 by (auto intro!: taken_turns simp: g3_def g2_def)
    have drop: "step_ok gs (gs[k := g']) (out1 @ out')" if "turns c ?uuid (gs ! k) g out1" "remove_grant e g = (g', e', out')" for g e g' e' out' out1
      by (rule slot_step_ok [OF 2(1) turns_trans [OF that(1) keeps_turns [OF conjunct1 [OF remove_keeps [OF that(2)]]]]])
    show ?thesis
    proof (cases keys)
      case None
      with r drop [OF t2 4] show ?thesis by (simp add: 4)
    next
      case (Some kr)
      then obtain key rn where kr: "keys = Some (key, rn)" by (cases kr) simp
      obtain g4 e4 o4 where 5: "remove_grant env1 (g3 key rn) = (g4, e4, o4)" by (metis prod_cases3)
      obtain g6 e6 o6 where 6: "remove_grant env1 ((g3 key rn)\<lparr>gr_expires := lease env1\<rparr>) = (g6, e6, o6)" by (metis prod_cases3)
      show ?thesis
      proof (cases attached)
        case None
        with r kr drop [OF turns_trans [OF t2 t3', simplified] 5] show ?thesis by (simp add: 5)
      next
        case (Some at)
        note t = turns_trans [OF t2 t3, of key rn]
        from r kr Some drop [OF t 6] slot_step_ok [OF 2(1) t] show ?thesis by (auto simp: 6 split: if_splits)
      qed
    qed
  qed simp
qed

lemma close_ok: "rrserver_direct_close env c gs = (gs', env', out) \<Longrightarrow> step_ok gs gs' out"
  unfolding rrserver_direct_close_def
  by (erule each_grant_ok [rotated]) (auto split: if_splits dest: remove_keeps)

lemma expire_keeps: "expire_grant env g = (g', env', out) \<Longrightarrow> keeps g g' out"
  by (auto simp: expire_grant_def split: if_splits dest: remove_keeps revoke_keeps)

lemma silence_keeps: "silence_grant env g = (g', env', out) \<Longrightarrow> keeps g g' out"
  by (auto simp: silence_grant_def keeps_def balanced_def split: option.splits if_splits)

lemma receive_frame_result:
  "\<exists>headers. fst (snd (receive_frame env g data)) = g\<lparr>gr_headers := headers\<rparr>"
  "fst (snd (snd (receive_frame env g data))) = env"
  "set (snd (snd (snd (receive_frame env g data)))) \<subseteq> {Stream_headers u c |u c. True}"
proof -
  have h: "\<exists>headers. g = g\<lparr>gr_headers := headers\<rparr>" by (rule exI [of _ "gr_headers g"]) simp
  show "\<exists>headers. fst (snd (receive_frame env g data)) = g\<lparr>gr_headers := headers\<rparr>"
    "fst (snd (snd (receive_frame env g data))) = env"
    "set (snd (snd (snd (receive_frame env g data)))) \<subseteq> {Stream_headers u c |u c. True}"
    unfolding receive_frame_def Let_def using h by (auto split: option.splits prod.splits)
qed

lemma receive_frames_ok: "receive_frames env frames gs = (gs', env', out) \<Longrightarrow> step_ok gs gs' out \<and> env' = env"
proof (induction env frames gs arbitrary: gs' env' out rule: receive_frames.induct)
  case (2 env i data frames gs)
  show ?case
  proof (cases "i < length gs")
    case True
    obtain ok g env1 out1 where 1: "receive_frame env (gs ! i) data = (ok, g, env1, out1)" by (metis prod_cases4)
    obtain gs2 env2 out2 where 3: "receive_frames env1 frames (gs[i := g]) = (gs2, env2, out2)" by (metis prod_cases3)
    from receive_frame_result [of env "gs ! i" data] 1
    obtain headers where g: "g = (gs ! i)\<lparr>gr_headers := headers\<rparr>" "env1 = env" and o1: "set out1 \<subseteq> {Stream_headers u c |u c. True}" by auto
    have "attaches out1 = {#} \<and> detaches out1 = {#}" using o1 by (induction out1) auto
    then have k: "keeps (gs ! i) g out1" by (simp add: g keeps_def balanced_def clean_def grant_key_def)
    have "step_ok gs (gs[i := g]) out1"
    proof -
      have "(clean (gs ! j) \<longrightarrow> clean (gs[i := g] ! j)) \<and> (grant_key (gs[i := g] ! j) = None \<or> grant_key (gs[i := g] ! j) = grant_key (gs ! j))" for j
        using k True by (cases "j = i") (simp_all add: keeps_def)
      then have "list_all2 (\<lambda>g g'. (clean g \<longrightarrow> clean g') \<and> (grant_key g' = None \<or> grant_key g' = grant_key g)) gs (gs[i := g])"
        by (simp add: list_all2_conv_all_nth)
      from table_shrinks [OF this] balanced_update [OF True, of g out1] k show ?thesis by (simp add: step_ok_def keeps_def)
    qed
    moreover have "step_ok (gs[i := g]) gs2 out2 \<and> env2 = env1" using "2.IH"(1) [OF True 1 [symmetric] refl refl refl 3] by simp
    ultimately show ?thesis using 2(3) True 1 3 step_ok_trans g(2) by (auto simp: Let_def)
  next
    case False
    with 2 show ?thesis by simp
  qed
qed simp

lemma poll_ok:
  assumes "poll_media env frames gs = (gs', env', out)"
  shows "step_ok gs gs' out"
proof -
  obtain gs1 env1 out1 where 1: "each_grant expire_grant env gs = (gs1, env1, out1)" by (metis prod_cases3)
  obtain gs2 env2 out2 where 2: "receive_frames env1 frames gs1 = (gs2, env2, out2)" by (metis prod_cases3)
  obtain gs3 env3 out3 where 3: "each_grant silence_grant env2 gs2 = (gs3, env3, out3)" by (metis prod_cases3)
  have "step_ok gs gs1 out1" by (rule each_grant_ok [OF _ 1]) (rule expire_keeps)
  moreover have "step_ok gs1 gs2 out2" using receive_frames_ok [OF 2] by simp
  moreover have "step_ok gs2 gs3 out3" by (rule each_grant_ok [OF _ 3]) (rule silence_keeps)
  ultimately have "step_ok gs gs3 (out1 @ out2 @ out3)" by (metis step_ok_trans append_assoc)
  with assms 1 2 3 show ?thesis by (simp add: poll_media_def)
qed

lemma direct_step_ok: "names_short env \<Longrightarrow> table gs \<Longrightarrow> direct_step (env, e) gs = (gs', out) \<Longrightarrow> step_ok gs gs' out"
  by (cases e) (auto split: prod.splits dest: direct_request_ok sent_ok relay_grant_ok close_ok poll_ok)

lemma direct_runs_ok:
  "\<forall>x \<in> set h. names_short (fst x) \<Longrightarrow> table gs \<Longrightarrow> direct_runs h gs = (gs', out) \<Longrightarrow> step_ok gs gs' out \<and> table gs'"
proof (induction h arbitrary: gs gs' out)
  case (Cons x xs)
  obtain gs1 out1 where 1: "direct_step x gs = (gs1, out1)" by (metis prod.exhaust)
  obtain gs2 out2 where 2: "direct_runs xs gs1 = (gs2, out2)" by (metis prod.exhaust)
  have s: "step_ok gs gs1 out1" using direct_step_ok [of "fst x" gs "snd x" gs1 out1] Cons.prems(1,2) 1 by simp
  then have "table gs1" using Cons.prems(2) by (simp add: step_ok_def)
  from Cons.IH [OF _ this 2] Cons.prems(1) have "step_ok gs1 gs2 out2 \<and> table gs2" by simp
  with step_ok_trans [OF s] Cons.prems(3) 1 2 show ?case by (auto simp: Let_def)
qed simp

definition no_grants :: "grant list" where
  "no_grants = replicate MAX_GRANTS no_grant"

lemma no_grants_table: "table no_grants" "handles no_grants = {#}"
proof -
  show "table no_grants" by (auto simp: table_def no_grants_def clean_def no_grant_def grant_key_def)
  have "handles (replicate n no_grant) = {#}" for n by (induction n) (simp_all add: no_grant_def)
  then show "handles no_grants = {#}" by (simp add: no_grants_def)
qed

section \<open>What is promised\<close>

text \<open>
  C31. Grants are private and none is lost: in every run there are 128 slots, no client has two
  grants for a channel, and the attachments taken from the RTP library are those in the table plus those given back,
  each given back once.
\<close>

theorem direct_grants_accounted:
  assumes "\<forall>x \<in> set h. names_short (fst x)" "direct_runs h no_grants = (gs, out)"
  shows "length gs = MAX_GRANTS \<and> attaches out = handles gs + detaches out \<and>
    (\<forall>i < length gs. \<forall>j < length gs. \<forall>c. gr_client (gs ! i) = Some c \<longrightarrow> gr_client (gs ! j) = Some c \<longrightarrow>
       gr_uuid (gs ! i) = gr_uuid (gs ! j) \<longrightarrow> i = j)"
proof -
  from direct_runs_ok [OF assms(1) no_grants_table(1) assms(2)] have s: "step_ok no_grants gs out" and t: "table gs" by simp_all
  have "attaches out = handles gs + detaches out" using s no_grants_table(2) by (simp add: step_ok_def balanced_def)
  moreover have "length gs = MAX_GRANTS" using s by (simp add: step_ok_def no_grants_def)
  moreover have "i = j" if "i < length gs" "j < length gs" "gr_client (gs ! i) = Some c" "gr_client (gs ! j) = Some c"
    "gr_uuid (gs ! i) = gr_uuid (gs ! j)" for i j c
  proof -
    have "grant_key (gs ! i) = Some (c, gr_uuid (gs ! i))" "grant_key (gs ! j) = Some (c, gr_uuid (gs ! i))"
      using that by (simp_all add: grant_key_def)
    with t that(1,2) show ?thesis unfolding table_def by blast
  qed
  ultimately show ?thesis by blast
qed

text \<open>A pass changes nothing of the environment but the connections of the clients it releases.\<close>

definition changes :: "direct_env \<Rightarrow> direct_env \<Rightarrow> direct_effect list \<Rightarrow> bool" where
  "changes env env' out \<longleftrightarrow> (\<exists>conns. env' = env\<lparr>de_conn := conns\<rparr> \<and> (\<forall>c. Released c \<in> set out \<or> conns c = de_conn env c))"

lemma changes_refl [simp]: "changes env env out"
  by (auto simp: changes_def intro: exI [of _ "de_conn env"])

lemma changes_release: "Released c \<in> set out \<Longrightarrow> changes env (release_ptt c env) out"
  unfolding changes_def release_ptt_def by (rule exI [of _ "(de_conn env)(c := de_release env c (de_conn env c))"]) auto

lemma changes_trans:
  assumes "changes env env1 out1" "changes env1 env2 out2"
  shows "changes env env2 (out1 @ out2)"
proof -
  obtain conns1 where 1: "env1 = env\<lparr>de_conn := conns1\<rparr>" "\<forall>c. Released c \<in> set out1 \<or> conns1 c = de_conn env c" using assms(1) by (auto simp: changes_def)
  obtain conns2 where 2: "env2 = env1\<lparr>de_conn := conns2\<rparr>" "\<forall>c. Released c \<in> set out2 \<or> conns2 c = de_conn env1 c" using assms(2) by (auto simp: changes_def)
  have "Released c \<in> set (out1 @ out2) \<or> conns2 c = de_conn env c" for c
    using 1(1) 1(2) [rule_format, of c] 2(2) [rule_format, of c] by auto
  then show ?thesis unfolding changes_def using 1(1) 2(1) by (intro exI [of _ conns2]) simp
qed

lemma silence_grant_changes: "silence_grant env g = (g', env', out) \<Longrightarrow> changes env env' out \<and> g' = g"
  by (auto simp: silence_grant_def changes_release split: option.splits if_splits)

lemma revoke_changes: "revoke_attachment env g = (g', env', out) \<Longrightarrow> changes env env' out"
  by (auto simp: revoke_attachment_def Let_def changes_release split: if_splits)

lemma expire_grant_changes: "expire_grant env g = (g', env', out) \<Longrightarrow> changes env env' out"
  by (auto simp: expire_grant_def remove_grant_def dest: revoke_changes split: if_splits prod.splits)

lemma pass_changes:
  assumes "\<And>env g g' env' out. f env g = (g', env', out) \<Longrightarrow> changes env env' out"
  shows "each_grant f env gs = (gs', env', out) \<Longrightarrow> changes env env' out"
proof (induction gs arbitrary: env gs' env' out)
  case (Cons g gs)
  obtain g1 env1 out1 where 1: "f env g = (g1, env1, out1)" by (metis prod_cases3)
  obtain gs2 env2 out2 where 2: "each_grant f env1 gs = (gs2, env2, out2)" by (metis prod_cases3)
  from Cons.prems 1 2 changes_trans [OF assms [OF 1] Cons.IH [OF 2]] show ?case by (simp add: Let_def)
qed simp

lemma silence_pass: "each_grant silence_grant env gs = (gs', env', out) \<Longrightarrow> changes env env' out \<and> gs' = gs"
proof
  show "changes env env' out" if "each_grant silence_grant env gs = (gs', env', out)"
    using pass_changes [of silence_grant, OF _ that] silence_grant_changes by blast
  show "gs' = gs" if "each_grant silence_grant env gs = (gs', env', out)" using that
    by (induction gs arbitrary: env gs' env' out) (auto simp: Let_def dest: silence_grant_changes split: prod.splits)
qed

lemma keyed_by_conn: "conns c = de_conn env c \<Longrightarrow> keyed_by (env\<lparr>de_conn := conns\<rparr>) c g = keyed_by env c g"
  by (simp add: keyed_by_def tx_grant_def split: option.split)

lemma silence_complete:
  assumes "each_grant silence_grant env gs = (gs', env', out)" "g \<in> set gs" "keyed_by env' c g" "\<not> de_active env' (gr_attachment g) (de_mono env')"
  shows "Released c \<in> set out"
  using assms
proof (induction gs arbitrary: env gs' env' out)
  case (Cons h gs)
  obtain g1 env1 out1 where 1: "silence_grant env h = (g1, env1, out1)" by (metis prod_cases3)
  obtain gs2 env2 out2 where 2: "each_grant silence_grant env1 gs = (gs2, env2, out2)" by (metis prod_cases3)
  from Cons.prems(1) 1 2 have r: "env' = env2" "out = out1 @ out2" by (simp_all add: Let_def)
  show ?case
  proof (cases "g = h")
    case True
    show ?thesis
    proof (rule ccontr)
      assume no: "Released c \<notin> set out"
      from silence_pass [OF Cons.prems(1)] no obtain conns where e: "env' = env\<lparr>de_conn := conns\<rparr>" "conns c = de_conn env c" unfolding changes_def by blast
      then have "keyed_by env c g" "\<not> de_active env (gr_attachment g) (de_mono env)" using Cons.prems(3,4) keyed_by_conn [of conns c env g] by simp_all
      then have "Released c \<in> set out1" using 1 True by (auto simp: silence_grant_def keyed_by_def tx_grant_def)
      with no r show False by simp
    qed
  next
    case False
    with Cons.prems(2) have "g \<in> set gs" by simp
    from Cons.IH [OF 2 this] Cons.prems(3,4) r show ?thesis by simp
  qed
qed simp

text \<open>
  The end of a grant: the client, the room, the right and the lease of a grant depend on the connection of its own client
  alone, so that nothing the pass does for others changes what it does for this one.
\<close>

lemma valid_conn: "gr_client g = Some c \<Longrightarrow> conns c = de_conn env c \<Longrightarrow> valid (env\<lparr>de_conn := conns\<rparr>) g = valid env g"
  by (auto simp: valid_def account_open_def Let_def split: option.splits)

definition ended :: "direct_env \<Rightarrow> grant \<Rightarrow> bool" where
  "ended env g \<longleftrightarrow> \<not> valid env g \<or> gr_expires g \<le> de_mono env"

lemma expire_silences: "keyed_by env c g \<Longrightarrow> ended env g \<Longrightarrow> expire_grant env g = (g', env', out) \<Longrightarrow> Released c \<in> set out"
  by (auto simp: expire_grant_def ended_def remove_grant_def revoke_attachment_def keyed_by_def tx_grant_def Let_def split: if_splits)

lemma expire_pass_silences:
  "each_grant expire_grant env gs = (gs', env', out) \<Longrightarrow> g \<in> set gs \<Longrightarrow> keyed_by env c g \<Longrightarrow> ended env g \<Longrightarrow> Released c \<in> set out"
proof (induction gs arbitrary: env gs' env' out)
  case (Cons h gs)
  obtain g1 env1 out1 where 1: "expire_grant env h = (g1, env1, out1)" by (metis prod_cases3)
  obtain gs2 env2 out2 where 2: "each_grant expire_grant env1 gs = (gs2, env2, out2)" by (metis prod_cases3)
  from Cons.prems(1) 1 2 have r: "out = out1 @ out2" by (simp add: Let_def)
  show ?case
  proof (cases "g = h \<or> Released c \<in> set out1")
    case True
    with expire_silences [OF Cons.prems(3,4)] 1 r show ?thesis by auto
  next
    case False
    with expire_grant_changes [OF 1] obtain conns where e: "env1 = env\<lparr>de_conn := conns\<rparr>" "conns c = de_conn env c" unfolding changes_def by blast
    have "gr_client g = Some c" using Cons.prems(3) by (simp add: keyed_by_def tx_grant_def)
    with e Cons.prems(3,4) have "keyed_by env1 c g" "ended env1 g" by (simp_all add: keyed_by_conn valid_conn ended_def)
    with Cons.IH [OF 2] Cons.prems(2) False r show ?thesis by auto
  qed
qed simp

definition leased :: "nat \<Rightarrow> grant \<Rightarrow> bool" where
  "leased t g \<longleftrightarrow> gr_attachment g \<noteq> None \<longrightarrow> t < gr_expires g"

lemma expire_leased: "clean g \<Longrightarrow> expire_grant env g = (g', env', out) \<Longrightarrow> leased (de_mono env) g' \<and> de_mono env' = de_mono env"
  by (auto simp: expire_grant_def leased_def clean_def remove_grant_def revoke_attachment_def release_ptt_def no_grant_def Let_def split: if_splits)

lemma expire_pass:
  "\<forall>g \<in> set gs. clean g \<Longrightarrow> each_grant expire_grant env gs = (gs', env', out) \<Longrightarrow>
     (\<forall>g \<in> set gs'. leased (de_mono env) g) \<and> de_mono env' = de_mono env"
proof (induction gs arbitrary: env gs' env' out)
  case (Cons g gs)
  obtain g1 env1 out1 where 1: "expire_grant env g = (g1, env1, out1)" by (metis prod_cases3)
  obtain gs2 env2 out2 where 2: "each_grant expire_grant env1 gs = (gs2, env2, out2)" by (metis prod_cases3)
  have l: "leased (de_mono env) g1" "de_mono env1 = de_mono env" using expire_leased [OF _ 1] Cons.prems(1) by simp_all
  from Cons.IH [OF _ 2] Cons.prems(1) have "\<forall>g \<in> set gs2. leased (de_mono env) g" "de_mono env2 = de_mono env" using l(2) by simp_all
  with l(1) Cons.prems(2) 1 2 show ?case by (auto simp: Let_def)
qed simp

lemma frames_leased: "receive_frames env frames gs = (gs', env', out) \<Longrightarrow> \<forall>g \<in> set gs. leased t g \<Longrightarrow> \<forall>g \<in> set gs'. leased t g"
proof (induction env frames gs arbitrary: gs' env' out rule: receive_frames.induct)
  case (2 env i data frames gs)
  show ?case
  proof (cases "i < length gs")
    case True
    obtain ok g env1 out1 where 1: "receive_frame env (gs ! i) data = (ok, g, env1, out1)" by (metis prod_cases4)
    obtain gs2 env2 out2 where 3: "receive_frames env1 frames (gs[i := g]) = (gs2, env2, out2)" by (metis prod_cases3)
    from receive_frame_result(1) [of env "gs ! i" data] 1 have "leased t g = leased t (gs ! i)" by (auto simp: leased_def)
    then have "\<forall>g \<in> set (gs[i := g]). leased t g" using 2(4) True set_update_subset_insert [of gs i g] by auto
    from "2.IH"(1) [OF True 1 [symmetric] refl refl refl 3 this] 2(3) True 1 3 show ?thesis by (simp add: Let_def)
  next
    case False
    with 2 show ?thesis by simp
  qed
qed simp

text \<open>C23. In the poll, a client that transmits by a transmit grant which is no longer valid or whose lease has run out, when the poll
  begins, is released; a client still keyed in the room of a transmit grant that remains, but whose attachment is not active, has been
  released in this very poll as well (the rig refused, or another grant of the client was in time). In both cases the exception is
  audio through the proxy that is live when the client did not insist on the direct path. And no attachment is kept beyond its lease.\<close>

theorem direct_poll_silences:
  assumes "poll_media env frames gs = (gs', env', out)" "\<forall>g \<in> set gs. clean g"
  shows "(\<forall>g \<in> set gs. keyed_by env c g \<longrightarrow> \<not> valid env g \<or> gr_expires g \<le> de_mono env \<longrightarrow> Released c \<in> set out) \<and>
    (\<forall>g \<in> set gs'. (keyed_by env' c g \<longrightarrow> \<not> de_active env' (gr_attachment g) (de_mono env') \<longrightarrow> Released c \<in> set out) \<and>
      (gr_attachment g \<noteq> None \<longrightarrow> de_mono env < gr_expires g))"
proof -
  obtain gs1 env1 out1 where 1: "each_grant expire_grant env gs = (gs1, env1, out1)" by (metis prod_cases3)
  obtain gs2 env2 out2 where 2: "receive_frames env1 frames gs1 = (gs2, env2, out2)" by (metis prod_cases3)
  obtain gs3 env3 out3 where 3: "each_grant silence_grant env2 gs2 = (gs3, env3, out3)" by (metis prod_cases3)
  have r: "gs' = gs3" "env' = env3" "out = out1 @ out2 @ out3" using assms(1) 1 2 3 by (simp_all add: poll_media_def)
  have same: "gs' = gs2" using silence_pass [OF 3] r(1) by simp
  have "Released c \<in> set out" if "g \<in> set gs" "keyed_by env c g" "ended env g" for g
    using expire_pass_silences [OF 1 that] by (simp add: r)
  moreover have "Released c \<in> set out" if "g \<in> set gs'" "keyed_by env' c g" "\<not> de_active env' (gr_attachment g) (de_mono env')" for g
    using silence_complete [OF 3 _ that(2,3) [unfolded r(2)]] that(1) by (simp add: r(3) same)
  moreover have "leased (de_mono env) g" if "g \<in> set gs'" for g using frames_leased [OF 2] expire_pass [OF assms(2) 1] that same by blast
  ultimately show ?thesis by (simp add: leased_def ended_def)
qed

text \<open>
  A remote session has no local account and so none of the privileges a transmit grant asks for:
  for it the direct path is never ready.
\<close>

lemma remote_never_direct:
  assumes "\<not> de_priv env (cn_uid (de_conn env c)) ''admin|owner|tx|noob''" "\<forall>g \<in> set gs. gr_client g = Some c \<longrightarrow> \<not> gr_relay g"
  shows "\<not> rrserver_direct_tx_ready env gs c room"
  using assms by (auto simp: rrserver_direct_tx_ready_def list_ex_iff tx_grant_def valid_def Let_def split: option.splits)

section \<open>Samples\<close>

definition sample_direct_env :: "bool \<Rightarrow> nat \<Rightarrow> direct_env" where
  "sample_direct_env keyed t = \<lparr>de_conn = (\<lambda>c. (sample_conn c)\<lparr>cn_ptt := keyed\<rparr>), de_now = 0, de_mono = t, de_rx = (\<lambda>_. []), de_tx = (\<lambda>_. [1]), de_ip = (\<lambda>_. []),
     de_channel = (\<lambda>u. if u = ''m'' then Some (0, \<lparr>mc_uuid = ''m'', mc_room = ''r'', mc_rig = ''g'', mc_subsystem = me_audio demo_media_env,
       mc_direction = me_dir_tx demo_media_env\<rparr>) else None),
     de_in_room = (\<lambda>_ _. True), de_media = demo_media_env, de_maps = \<lparr>ms_maps = [], ms_count = 0, ms_sequence = 0\<rparr>, de_dir_rx = 0, de_priv = (\<lambda>_ _. True),
     de_pools = [\<lparr>mp_section = ''rtp'', mp_encrypted = True\<rparr>], de_rtp_acl = [], de_acl = (\<lambda>_ _ _. ACL_ALLOW), de_active = (\<lambda>_ _. False),
     de_proxy = (\<lambda>_ _ _ _. False), de_release = (\<lambda>_ cn. cn), de_process = (\<lambda>_ _. True)\<rparr>"

definition sample_direct_run :: "(direct_env \<times> direct_event) list" where
  "sample_direct_run =
     [(sample_direct_env False 1, D_request 1 [(''msg.type'', ''media''), (''media.cmd'', ''subscribe''), (''media.transport'', ''direct''), (''media.chan-uuid'', ''m'')]),
      (sample_direct_env False 2, D_sent 1 (Some (''k'', 5)) (Some 7) True [(''msg.type'', ''media''), (''media.cmd'', ''subscribed''), (''media.chan-uuid'', ''m'')])]"

lemma sample_names_short: "names_short (sample_direct_env keyed t)"
  by (simp add: names_short_def sample_direct_env_def)

lemma direct_grants_accounted_witness:
  "snd (direct_runs sample_direct_run no_grants) = [Attach 7] \<and> handles (fst (direct_runs sample_direct_run no_grants)) = {#7#}"
proof -
  obtain gs out where r: "direct_runs sample_direct_run no_grants = (gs, out)" by (metis prod.exhaust)
  have out: "snd (direct_runs sample_direct_run no_grants) = [Attach 7]" by code_simp
  have "\<forall>x \<in> set sample_direct_run. names_short (fst x)" by (simp add: sample_direct_run_def sample_names_short)
  from direct_grants_accounted [OF this r] out r show ?thesis by simp
qed

definition lapsed_direct_env :: "direct_env" where
  "lapsed_direct_env = (sample_direct_env True (lease (sample_direct_env True 2)))\<lparr>de_active := (\<lambda>_ _. True)\<rparr>"

lemma direct_poll_silences_witness:
  "Released 1 \<in> set (snd (snd (poll_media (sample_direct_env True 3) [] (fst (direct_runs sample_direct_run no_grants))))) \<and>
   Released 1 \<in> set (snd (snd (poll_media lapsed_direct_env [] (fst (direct_runs sample_direct_run no_grants)))))"
proof
  let ?gs = "fst (direct_runs sample_direct_run no_grants)"
  have clean: "\<forall>g \<in> set ?gs. clean g" by code_simp
  obtain gs env' out where p: "poll_media (sample_direct_env True 3) [] ?gs = (gs, env', out)" by (metis prod_cases3)
  have "keyed_by (fst (snd (poll_media (sample_direct_env True 3) [] ?gs))) 1 (fst (poll_media (sample_direct_env True 3) [] ?gs) ! 0) \<and>
      \<not> de_active (fst (snd (poll_media (sample_direct_env True 3) [] ?gs))) (gr_attachment (fst (poll_media (sample_direct_env True 3) [] ?gs) ! 0))
         (de_mono (fst (snd (poll_media (sample_direct_env True 3) [] ?gs)))) \<and>
      0 < length (fst (poll_media (sample_direct_env True 3) [] ?gs))" by code_simp
  then have g: "keyed_by env' 1 (gs ! 0)" "\<not> de_active env' (gr_attachment (gs ! 0)) (de_mono env')" "gs ! 0 \<in> set gs" by (simp_all add: p)
  from direct_poll_silences [OF p clean, of 1] g have "Released 1 \<in> set out" by blast
  with p show "Released 1 \<in> set (snd (snd (poll_media (sample_direct_env True 3) [] ?gs)))" by simp
  obtain gs2 env2 out2 where q: "poll_media lapsed_direct_env [] ?gs = (gs2, env2, out2)" by (metis prod_cases3)
  have k: "keyed_by lapsed_direct_env 1 (?gs ! 0) \<and> gr_expires (?gs ! 0) \<le> de_mono lapsed_direct_env \<and> 0 < length ?gs" by code_simp
  then have "?gs ! 0 \<in> set ?gs" by simp
  with direct_poll_silences [OF q clean, of 1] k have "Released 1 \<in> set out2" by blast
  with q show "Released 1 \<in> set (snd (snd (poll_media lapsed_direct_env [] ?gs)))" by simp
qed

end
