(* ===== verification/RelaySessions.thy ===== *)
theory RelaySessions
  imports RelayCatalog DirectMedia Grants "HOL-Library.Sublist"
begin

text \<open>
  Sessions of remote users on the server that owns a rig (\<^verbatim>\<open>rrserver/relay.sessions.c\<close>, the session
  loop of \<^verbatim>\<open>rrserver/relay.c\<close> and the proxied transmission of \<^verbatim>\<open>rrserver/relay.media.c\<close>): how a request
  of a linked server is admitted, what keeps a remote user's transmitter keyed, and how it is released.

  A session is the relay's record and the connection the protocol library works on; \<open>relay_conn\<close> is the
  part of it the library changes. \<open>relay_world\<close> is what an event finds: the catalog with its environment
  (\<open>RelayCatalog\<close>), the grants (\<open>Grants\<close>), direct media (\<open>DirectMedia\<close>), supervision (\<open>Supervision\<close>), the
  rooms and the protocol library. Times are microseconds of the monotonic clock, which does not wrap.
\<close>

section \<open>State\<close>

definition MAX_RELAY_SESSIONS :: nat where "MAX_RELAY_SESSIONS = 128"

record relay_conn =
  rc_conn :: conn
  rc_rooms :: string
  rc_tx :: "nat list"
  rc_ip :: string
  rc_codecs :: string

record remote_session =
  rs_origin :: string
  rs_id :: string
  rs_handle :: nat
  rs_name :: string
  rs_client :: relay_conn
  rs_retry :: nat
  rs_started :: nat
  rs_frame :: nat
  rs_proxy :: "nat \<Rightarrow> bool"

record relay_sessions =
  ss_sessions :: "remote_session list"
  ss_count :: nat
  ss_media :: media_state
  ss_grants :: "grant list"

record relay_world =
  rw_relay :: relay_env
  rw_catalogs :: "catalog list"
  rw_io :: "string \<Rightarrow> string \<Rightarrow> grants_io"
  rw_db :: "grants_db option"
  rw_now :: int
  rw_mono :: nat
  rw_site :: cstr
  rw_next_hop_only :: bool
  rw_rig :: "string \<Rightarrow> (string \<times> cstr) option"
  rw_room_uuid :: "string \<Rightarrow> cstr"
  rw_channels :: "media_channel list"
  rw_direct :: direct_env
  rw_supervision :: "sup_env \<times> supervision list"
  rw_ip_valid :: "string \<Rightarrow> bool"
  rw_wire :: "dict \<Rightarrow> bool"
  rw_process :: "nat \<Rightarrow> dict \<Rightarrow> relay_conn \<Rightarrow> bool \<times> relay_conn"
  rw_administer :: "nat \<Rightarrow> dict \<Rightarrow> relay_conn \<Rightarrow> relay_conn"
  rw_member :: "relay_conn \<Rightarrow> string \<Rightarrow> bool"
  rw_session_closed :: "nat \<Rightarrow> conn \<Rightarrow> conn"
  rw_room_info :: "string \<Rightarrow> dict"
  rw_room_rig_base :: "string \<Rightarrow> bool"
  rw_room_tx_control :: "string \<Rightarrow> bool"
  rw_room_status :: "string \<Rightarrow> (bool \<times> bool) option"
  rw_max_name :: nat
  rw_token :: nat
  rw_ip_size :: nat
  rw_codecs_size :: nat

datatype session_effect =
    Reply string string dict
  | Tell nat string
  | Processed nat dict
  | Administered nat dict
  | Heard nat string
  | Keyed nat
  | Release nat
  | Closed_session nat
  | Direct direct_effect
  | Part_room string string
  | Announce nat string

section \<open>What the owner grants\<close>

definition route_to :: "relay_world \<Rightarrow> string \<Rightarrow> cstr" where
  "route_to w node = re_route (rw_relay w) node"

text \<open>The site of a remote user: the alias its server's node descriptor announces.\<close>

definition rrserver_relay_client_server :: "relay_world \<Rightarrow> remote_session \<Rightarrow> string" where
  "rrserver_relay_client_server w r =
     (case List.find (\<lambda>c. ct_owner c = rs_origin r \<and> dict_get (ct_descriptor c) ''object.type'' '''' = ''node'') (rw_catalogs w) of
        Some c \<Rightarrow> dict_get (ct_descriptor c) ''object.alias'' (rs_origin r)
      | None \<Rightarrow> rs_origin r)"

definition access :: "relay_world \<Rightarrow> string \<Rightarrow> string \<Rightarrow> string \<Rightarrow> string \<Rightarrow> string \<Rightarrow> cstr \<Rightarrow> rr_resource_access" where
  "access w user host kind uuid privilege symbol =
     db_resource_access_named (rw_io w kind privilege) (rw_db w) (Some user) (Some host) (Some kind) (Some uuid) (Some privilege) (rw_now w) symbol"

definition allowed_hops :: "relay_world \<Rightarrow> string \<Rightarrow> bool" where
  "allowed_hops w origin \<longleftrightarrow> \<not> rw_next_hop_only w \<or> route_to w origin = Some origin"

definition site_admin :: "relay_world \<Rightarrow> string \<Rightarrow> string \<Rightarrow> bool" where
  "site_admin w user host \<longleftrightarrow> access w user host ''site'' ''*'' ''remote-admin'' None = RR_RESOURCE_ALLOW \<and>
     (access w user host ''site'' ''*'' ''admin'' None = RR_RESOURCE_ALLOW \<or> access w user host ''site'' ''*'' ''owner'' None = RR_RESOURCE_ALLOW)"

definition rr_relay_cat_authorized :: "relay_world \<Rightarrow> remote_session \<Rightarrow> cstr \<Rightarrow> cstr \<Rightarrow> bool" where
  "rr_relay_cat_authorized w r room command =
     (if room = None \<or> room = Some [] \<or> command = None \<or> command = Some [] then False
      else let host = rrserver_relay_client_server w r in
        case rw_rig w (the room) of
          None \<Rightarrow> False
        | Some (uuid, symbol) \<Rightarrow>
            if host = [] \<or> uuid = [] then False
            else (case access w (rs_name r) host ''rig'' uuid ''tx'' symbol of
                RR_RESOURCE_ALLOW \<Rightarrow> True
              | RR_RESOURCE_DENY \<Rightarrow> False
              | RR_RESOURCE_UNSET \<Rightarrow> allowed_hops w (rs_origin r) \<and> site_admin w (rs_name r) host))"

definition rr_relay_chat_authorized :: "relay_world \<Rightarrow> remote_session \<Rightarrow> cstr \<Rightarrow> cstr \<Rightarrow> bool" where
  "rr_relay_chat_authorized w r room command =
     (if room = None \<or> room = Some [] \<or> command = None then False
      else let host = rrserver_relay_client_server w r;
               (kind, uuid, symbol, entry) = (case rw_rig w (the room) of
                   Some (uuid, symbol) \<Rightarrow> (''rig'', Some uuid, symbol, ''rig.use'')
                 | None \<Rightarrow> (''room'', rw_room_uuid w (the room), room, ''room.join'')) in
        if host = [] \<or> uuid = None \<or> uuid = Some [] then False
        else (case access w (rs_name r) host kind (the uuid) ''chat'' symbol of
            RR_RESOURCE_ALLOW \<Rightarrow> True
          | RR_RESOURCE_DENY \<Rightarrow> False
          | RR_RESOURCE_UNSET \<Rightarrow> access w (rs_name r) host kind (the uuid) entry symbol = RR_RESOURCE_ALLOW))"

text \<open>Entry to a room or rig of this server, for a user of another site.\<close>

definition room_scope :: "relay_world \<Rightarrow> remote_session \<Rightarrow> string \<Rightarrow> string \<Rightarrow> bool" where
  "room_scope w r user room =
     (let host = rrserver_relay_client_server w r;
          (kind, uuid, symbol, entry) = (case rw_rig w room of
              Some (uuid, symbol) \<Rightarrow> (''rig'', Some uuid, symbol, ''rig.use'')
            | None \<Rightarrow> (''room'', rw_room_uuid w room, Some room, ''room.join''))
      in host \<noteq> [] \<and> uuid \<noteq> None \<and> uuid \<noteq> Some [] \<and> rw_site w \<noteq> None \<and> rw_site w \<noteq> Some host \<and>
         access w user host kind (the uuid) entry symbol = RR_RESOURCE_ALLOW)"

definition admin_scope :: "relay_world \<Rightarrow> remote_session \<Rightarrow> string \<Rightarrow> string \<Rightarrow> bool" where
  "admin_scope w r origin user =
     (let host = rrserver_relay_client_server w r in
      allowed_hops w origin \<and> host \<noteq> [] \<and> rw_site w \<noteq> None \<and> rw_site w \<noteq> Some host \<and> site_admin w user host)"

definition rr_relay_permitted_message :: "dict \<Rightarrow> bool" where
  "rr_relay_permitted_message d =
     (let family = dict_get d ''msg.type'' ''''; cmd = dict_get d ''talk.cmd'' '''' in
      if family = ''file'' then dict_get d ''file.cmd'' '''' \<in>
        {''list'', ''read'', ''begin'', ''chunk'', ''commit'', ''cancel'', ''mkdir'', ''delete'', ''rename''}
      else if family = ''cat'' then True
      else if family = ''media'' then dict_get d ''media.cmd'' '''' \<in> {''subscribe'', ''unsubscribe'', ''codec'', ''frame'', ''feedback''}
      else if family = ''property'' then dict_get d ''property.cmd'' '''' \<in> {''set'', ''read'', ''menu-set''}
      else family = ''talk'' \<and> cmd \<in> {''join'', ''part'', ''msg'', ''typing'', ''topic'', ''supervise''})"

section \<open>Proxied transmission\<close>

abbreviation rs_conn :: "remote_session \<Rightarrow> conn" where
  "rs_conn r \<equiv> rc_conn (rs_client r)"

definition set_conn :: "conn \<Rightarrow> remote_session \<Rightarrow> remote_session" where
  "set_conn cn r = r\<lparr>rs_client := (rs_client r)\<lparr>rc_conn := cn\<rparr>\<rparr>"

definition session_open :: "relay_world \<Rightarrow> conn \<Rightarrow> bool" where
  "session_open w cn \<longleftrightarrow> cn_authenticated cn \<and> cn_user cn \<and> cn_enabled cn \<and> \<not> cn_password_change cn \<and>
     (cn_password_expires cn = 0 \<or> rw_now w < cn_password_expires cn)"

definition rr_relay_proxy_tx_subscribed :: "relay_world \<Rightarrow> remote_session \<Rightarrow> cstr \<Rightarrow> bool" where
  "rr_relay_proxy_tx_subscribed w r room =
     (if room = None \<or> \<not> session_open w (rs_conn r) \<or> cn_muted (rs_conn r) then False
      else list_ex (\<lambda>i. let ch = rw_channels w ! i; env = rw_direct w in
        rs_proxy r i \<and> mc_uuid ch \<noteq> [] \<and> mc_subsystem ch = me_audio (de_media env) \<and> mc_direction ch = me_dir_tx (de_media env) \<and>
        mc_room ch = the room \<and> de_in_room env (rs_handle r) i \<and> i + 1 \<in> set (rc_tx (rs_client r))) [0..<length (rw_channels w)])"

definition supervised :: "relay_world \<Rightarrow> remote_session \<Rightarrow> bool" where
  "supervised w r = (case rw_supervision w of (env, requests) \<Rightarrow>
     rrserver_supervision_allowed (env\<lparr>se_conn := (se_conn env)(rs_handle r := rs_conn r)\<rparr>) requests (rs_handle r))"

definition rrserver_relay_proxy_tx_active :: "relay_world \<Rightarrow> remote_session \<Rightarrow> string \<Rightarrow> nat \<Rightarrow> bool" where
  "rrserver_relay_proxy_tx_active w r room t =
     (if \<not> cn_ptt (rs_conn r) \<or> \<not> rr_relay_proxy_tx_subscribed w r (Some room) \<or> cn_ptt_room (rs_conn r) \<noteq> room \<or>
         \<not> rr_relay_cat_authorized w r (Some room) (Some ''ptt'') \<or> \<not> supervised w r then False
      else let heard = max (rs_frame r) (rs_started r) in heard \<noteq> 0 \<and> heard \<le> t \<and> t - heard < 3000000)"

text \<open>Direct media as it sees this session.\<close>

definition session_direct :: "relay_world \<Rightarrow> remote_session \<Rightarrow> direct_env" where
  "session_direct w r = (rw_direct w)\<lparr>de_conn := (de_conn (rw_direct w))(rs_handle r := rs_conn r), de_now := rw_now w, de_mono := rw_mono w,
     de_tx := (de_tx (rw_direct w))(rs_handle r := rc_tx (rs_client r)),
     de_proxy := (\<lambda>cn h room t. if h = rs_handle r then rrserver_relay_proxy_tx_active w (set_conn cn r) room t
       else de_proxy (rw_direct w) cn h room t)\<rparr>"

definition direct_ready :: "relay_world \<Rightarrow> grant list \<Rightarrow> remote_session \<Rightarrow> cstr \<Rightarrow> bool" where
  "direct_ready w gs r room = rrserver_direct_tx_ready (session_direct w r) gs (rs_handle r) room"

text \<open>An accepted frame (\<open>media.frame.tx.channel\<close>) keeps proxied transmission alive.\<close>

definition rr_relay_proxy_tx_frame :: "relay_world \<Rightarrow> string \<Rightarrow> remote_session \<Rightarrow> remote_session" where
  "rr_relay_proxy_tx_frame w data r =
     (case me_parse (de_media (rw_direct w)) data of
        None \<Rightarrow> r
      | Some h \<Rightarrow>
          if \<not> cn_ptt (rs_conn r) \<or> bf_subsystem h \<noteq> me_audio (de_media (rw_direct w)) \<or> bf_direction h \<noteq> me_dir_tx (de_media (rw_direct w)) \<or>
             bf_stream h = 0 \<or> length (rw_channels w) < bf_stream h \<or> bf_len h = 0 \<or> \<not> rs_proxy r (bf_stream h - 1) then r
          else r\<lparr>rs_frame := rw_mono w\<rparr>)"

section \<open>The poll\<close>

definition session_released :: "relay_world \<Rightarrow> remote_session \<Rightarrow> remote_session" where
  "session_released w r = set_conn (de_release (rw_direct w) (rs_handle r) (rs_conn r)) r"

definition retry_remote_ptt :: "relay_world \<Rightarrow> grant list \<Rightarrow> remote_session \<Rightarrow> remote_session \<times> session_effect list" where
  "retry_remote_ptt w gs r =
     (let room = cn_ptt_room (rs_conn r) in
      if \<not> cn_ptt (rs_conn r) \<or> direct_ready w gs r (Some room) \<or> rrserver_relay_proxy_tx_active w r room (rw_mono w)
      then (r\<lparr>rs_retry := 0\<rparr>, [])
      else if rw_mono w < rs_retry r then (r, [])
      else let r = session_released w r in
        (r\<lparr>rs_retry := (if cn_ptt (rs_conn r) then rw_mono w + 1000000 else 0)\<rparr>, [Release (rs_handle r)]))"

text \<open>\<open>strtok_r(rooms, ",", &save)\<close>.\<close>

fun room_tokens :: "string \<Rightarrow> string \<Rightarrow> string list" where
  "room_tokens word [] = (if word = [] then [] else [word])"
| "room_tokens word (ch # s) = (if ch = CHR '','' then (if word = [] then room_tokens [] s else word # room_tokens [] s) else room_tokens (word @ [ch]) s)"

definition rr_relay_remove_remote :: "relay_world \<Rightarrow> remote_session \<Rightarrow> media_state \<Rightarrow> grant list \<Rightarrow>
    remote_session option \<times> media_state \<times> grant list \<times> session_effect list" where
  "rr_relay_remove_remote w r media gs =
     (if \<not> cn_authenticated (rs_conn r) \<and> rw_mono w < rs_retry r then (Some r, media, gs, [])
      else let rooms = room_tokens [] (rc_rooms (rs_client r));
               r = set_conn ((rs_conn r)\<lparr>cn_authenticated := False\<rparr>) r;
               r = set_conn (rw_session_closed w (rs_handle r) (rs_conn r)) r;
               r = session_released w r;
               (gs, env, out) = rrserver_direct_close (session_direct w r) (rs_handle r) gs;
               r = set_conn (de_conn env (rs_handle r)) r;
               out = [Closed_session (rs_handle r), Release (rs_handle r)] @ map Direct out in
        if cn_ptt (rs_conn r) then (Some (r\<lparr>rs_retry := rw_mono w + 1000000\<rparr>), media, gs, out)
        else (None, fst (rr_relay_media_forget (Some (rs_handle r)) None None media), gs, out @ map (\<lambda>room. Part_room room (rs_name r)) rooms))"

text \<open>One pass over the sessions that removes those \<open>dead\<close> says.\<close>

fun session_pass :: "(remote_session \<Rightarrow> bool) \<Rightarrow> (grant list \<Rightarrow> remote_session \<Rightarrow> remote_session \<times> session_effect list) \<Rightarrow> relay_world \<Rightarrow>
    remote_session list \<Rightarrow> media_state \<Rightarrow> grant list \<Rightarrow> remote_session list \<times> media_state \<times> grant list \<times> session_effect list" where
  "session_pass dead live w [] media gs = ([], media, gs, [])"
| "session_pass dead live w (r # rs) media gs =
     (let (kept, media, gs, out) = (if dead r then rr_relay_remove_remote w r media gs else (case live gs r of (r, out) \<Rightarrow> (Some r, media, gs, out)));
          (rs, media, gs, out') = session_pass dead live w rs media gs
      in ((case kept of None \<Rightarrow> rs | Some r \<Rightarrow> r # rs), media, gs, out @ out'))"

definition pass_state :: "(remote_session \<Rightarrow> bool) \<Rightarrow> (grant list \<Rightarrow> remote_session \<Rightarrow> remote_session \<times> session_effect list) \<Rightarrow> relay_world \<Rightarrow>
    relay_sessions \<Rightarrow> relay_sessions \<times> session_effect list" where
  "pass_state dead live w st =
     (case session_pass dead live w (ss_sessions st) (ss_media st) (ss_grants st) of (rs, media, gs, out) \<Rightarrow>
        (st\<lparr>ss_sessions := rs, ss_count := ss_count st - (length (ss_sessions st) - length rs), ss_media := media, ss_grants := gs\<rparr>, out))"

definition poll_sessions :: "relay_world \<Rightarrow> relay_sessions \<Rightarrow> relay_sessions \<times> session_effect list" where
  "poll_sessions w = pass_state (\<lambda>r. \<not> session_open w (rs_conn r)) (retry_remote_ptt w) w"

definition lost_sessions :: "relay_world \<Rightarrow> relay_sessions \<Rightarrow> relay_sessions \<times> session_effect list" where
  "lost_sessions w = pass_state (\<lambda>r. route_to w (rs_origin r) = None) (\<lambda>gs r. (r, [])) w"

text \<open>The \<open>close\<close> packet of the server the user left.\<close>

definition close_sessions :: "relay_world \<Rightarrow> string \<Rightarrow> string \<Rightarrow> relay_sessions \<Rightarrow> relay_sessions \<times> session_effect list" where
  "close_sessions w origin uuid = pass_state (\<lambda>r. rs_origin r = origin \<and> rs_id r = uuid) (\<lambda>gs r. (r, [])) w"

definition rr_relay_media_removed :: "nat \<Rightarrow> remote_session \<Rightarrow> remote_session" where
  "rr_relay_media_removed i r = (if cn_authenticated (rs_conn r) then r\<lparr>rs_proxy := (rs_proxy r)(i := False)\<rparr> else r)"

definition rr_relay_remote_talker :: "relay_sessions \<Rightarrow> nat option \<Rightarrow> nat option" where
  "rr_relay_remote_talker st talker = (if talker \<noteq> None then talker
     else map_option rs_handle (List.find (\<lambda>r. cn_authenticated (rs_conn r) \<and> cn_ptt (rs_conn r)) (ss_sessions st)))"


section \<open>Sessions\<close>

text \<open>\<open>owner_session\<close>: the position of the session, and the table. \<open>fresh\<close> is the handle of a new connection, if there is memory.\<close>

definition new_session :: "relay_world \<Rightarrow> string \<Rightarrow> string \<Rightarrow> string \<Rightarrow> nat \<Rightarrow> remote_session" where
  "new_session w origin uuid user fresh = \<lparr>rs_origin = origin, rs_id = uuid, rs_handle = fresh, rs_name = user,
     rs_client = \<lparr>rc_conn = \<lparr>cn_token = snprintf_s (rw_token w) uuid, cn_authenticated = True, cn_user = True, cn_enabled = True, cn_muted = False,
         cn_password_change = False, cn_password_expires = 0, cn_uid = -1, cn_noob = False, cn_admin = False, cn_elmer = False,
         cn_ptt = False, cn_ptt_room = []\<rparr>, rc_rooms = [], rc_tx = [], rc_ip = [], rc_codecs = []\<rparr>,
     rs_retry = 0, rs_started = 0, rs_frame = 0, rs_proxy = (\<lambda>_. False)\<rparr>"

definition owner_session :: "relay_world \<Rightarrow> nat option \<Rightarrow> string \<Rightarrow> string \<Rightarrow> cstr \<Rightarrow> relay_sessions \<Rightarrow> nat option \<times> relay_sessions" where
  "owner_session w fresh origin uuid user st =
     (if \<not> re_uuid_valid (rw_relay w) origin \<or> route_to w origin = None \<or> \<not> re_uuid_valid (rw_relay w) uuid \<or>
         user = None \<or> user = Some [] \<or> rw_max_name w < length (the user) then (None, st)
      else case find_idx (\<lambda>r. rs_origin r = origin \<and> rs_id r = uuid) (ss_sessions st) of
        Some i \<Rightarrow> (let r = ss_sessions st ! i in
          if \<not> cn_authenticated (rs_conn r) \<or> \<not> strcaseeq (rs_name r) (the user) then (None, st) else (Some i, st))
      | None \<Rightarrow>
          (if ss_count st = MAX_RELAY_SESSIONS then (None, st)
           else case fresh of
             None \<Rightarrow> (None, st)
           | Some h \<Rightarrow> (Some 0, st\<lparr>ss_sessions := new_session w origin uuid (the user) h # ss_sessions st, ss_count := ss_count st + 1\<rparr>)))"

section \<open>The execution of a request\<close>

definition is_administration :: "dict \<Rightarrow> bool" where
  "is_administration d \<longleftrightarrow> dict_get d ''msg.type'' '''' = ''talk'' \<and> dict_get d ''talk.cmd'' '''' = ''admin''"

definition is_file :: "dict \<Rightarrow> bool" where
  "is_file d \<longleftrightarrow> dict_get d ''msg.type'' '''' = ''file''"

definition owned_room :: "relay_world \<Rightarrow> cstr \<Rightarrow> bool" where
  "owned_room w room = (case rr_relay_room_catalog (rw_catalogs w) room of
     None \<Rightarrow> False | Some c \<Rightarrow> rr_relay_local_owner (rw_relay w) (ct_owner c))"

definition scope :: "relay_world \<Rightarrow> string \<Rightarrow> string \<Rightarrow> remote_session option \<Rightarrow> cstr \<Rightarrow> dict \<Rightarrow> bool" where
  "scope w origin user r room d = (case r of
     None \<Rightarrow> False
   | Some r \<Rightarrow>
       if is_administration d then admin_scope w r origin user
       else if \<not> is_file d \<and> room \<noteq> None \<and> room \<noteq> Some [] then room_scope w r user (the room)
       else False)"

definition refused :: "relay_world \<Rightarrow> remote_session option \<Rightarrow> bool \<Rightarrow> cstr \<Rightarrow> dict \<Rightarrow> bool" where
  "refused w r scoped room d \<longleftrightarrow> r = None \<or> \<not> scoped \<or> (\<not> is_administration d \<and> \<not> is_file d \<and> \<not> owned_room w room) \<or>
     (\<not> is_administration d \<and> \<not> rr_relay_permitted_message d)"

definition refusal_reason :: "relay_world \<Rightarrow> remote_session option \<Rightarrow> bool \<Rightarrow> string \<Rightarrow> cstr \<Rightarrow> dict \<Rightarrow> string" where
  "refusal_reason w r scoped user room d =
     (case (r, room) of
        (Some r, Some name) \<Rightarrow>
          if name \<noteq> [] \<and> owned_room w room \<and> rr_relay_permitted_message d \<and> \<not> scoped then
            let (right, kind, uuid) = (case rw_rig w name of Some (uuid, _) \<Rightarrow> (''rig.use'', ''rig'', uuid)
                | None \<Rightarrow> (''room.join'', ''room'', case rw_room_uuid w name of None \<Rightarrow> ''unknown'' | Some u \<Rightarrow> u))
            in snprintf_s 512 (''Remote room '' @ name @ '' requires '' @ right @ '' grant for '' @ user @ ''@'' @ rrserver_relay_client_server w r @
                 '' on owning server (resource '' @ kind @ '' '' @ uuid @ '')'')
          else ''Remote operation denied by resource authorization or routing''
      | _ \<Rightarrow> ''Remote operation denied by resource authorization or routing'')"

definition refusal :: "relay_world \<Rightarrow> remote_session option \<Rightarrow> bool \<Rightarrow> string \<Rightarrow> cstr \<Rightarrow> dict \<Rightarrow> dict" where
  "refusal w r scoped user room d =
     (if is_file d then [(''msg.type'', ''file''), (''file.cmd'', ''result''), (''request.id'', dict_get d ''request.id'' ''''),
        (''file.path'', dict_get d ''file.path'' ''/''), (''file.error'', ''Remote share access requires an explicit resource grant'')]
      else [(''msg.type'', ''error''), (''error.msg'', refusal_reason w r scoped user room d)])"

text \<open>The fields the origin adds for the owner are taken off; a session keeps the address it came with.\<close>

definition bad_source :: "relay_world \<Rightarrow> remote_session \<Rightarrow> dict \<Rightarrow> bool" where
  "bad_source w r d = (case map_of d ''relay.ip'' of None \<Rightarrow> False
   | Some ip \<Rightarrow> \<not> rw_ip_valid w ip \<or> (rc_ip (rs_client r) \<noteq> [] \<and> rc_ip (rs_client r) \<noteq> ip))"

definition take_hints :: "relay_world \<Rightarrow> dict \<Rightarrow> remote_session \<Rightarrow> remote_session" where
  "take_hints w d r =
     (let r = (case map_of d ''relay.ip'' of None \<Rightarrow> r | Some ip \<Rightarrow> r\<lparr>rs_client := (rs_client r)\<lparr>rc_ip := snprintf_s (rw_ip_size w) ip\<rparr>\<rparr>)
      in case map_of d ''relay.codecs'' of None \<Rightarrow> r | Some s \<Rightarrow> r\<lparr>rs_client := (rs_client r)\<lparr>rc_codecs := snprintf_s (rw_codecs_size w) s\<rparr>\<rparr>)"

definition strip_hints :: "dict \<Rightarrow> dict" where
  "strip_hints d = dict_dels [''relay.ip'', ''relay.codecs'', ''relay.deadline''] d"

definition asks_ptt :: "relay_world \<Rightarrow> dict \<Rightarrow> bool" where
  "asks_ptt w d \<longleftrightarrow> (dict_get d ''cat.cmd'' '''' = ''ptt'' \<and> me_get_bool (de_media (rw_direct w)) d ''cat.ptt'' False) \<or>
     (dict_get d ''property.name'' '''' = ''ptt'' \<and> me_get_bool (de_media (rw_direct w)) d ''property.value'' False)"

definition live_path :: "relay_world \<Rightarrow> grant list \<Rightarrow> remote_session \<Rightarrow> cstr \<Rightarrow> bool" where
  "live_path w gs r room \<longleftrightarrow> direct_ready w gs r room \<or> rr_relay_proxy_tx_subscribed w r room"

definition is_frame :: "dict \<Rightarrow> bool" where
  "is_frame d \<longleftrightarrow> dict_get d ''msg.type'' '''' = ''media'' \<and> dict_get d ''media.cmd'' '''' = ''frame''"

definition frame_admitted :: "relay_world \<Rightarrow> grant list \<Rightarrow> remote_session \<Rightarrow> string \<Rightarrow> dict \<Rightarrow> (nat \<times> media_channel) option" where
  "frame_admitted w gs r room d =
     (let env = rw_direct w in case de_channel env (dict_get d ''media.chan-uuid'' '''') of
        None \<Rightarrow> None
      | Some (i, ch) \<Rightarrow>
          if mc_room ch \<noteq> room \<or> \<not> de_in_room env (rs_handle r) i then None
          else if mc_subsystem ch = me_audio (de_media env) \<and> (mc_direction ch \<noteq> me_dir_tx (de_media env) \<or>
            (\<not> rs_proxy r i \<and> \<not> direct_ready w gs r (Some room)) \<or> i + 1 \<notin> set (rc_tx (rs_client r))) then None
          else Some (i, ch))"

text \<open>After the request: the start of a transmission, and what was subscribed.\<close>

definition note_key :: "relay_world \<Rightarrow> bool \<Rightarrow> remote_session \<Rightarrow> remote_session" where
  "note_key w was r = (if \<not> was \<and> cn_ptt (rs_conn r) then r\<lparr>rs_started := rw_mono w, rs_frame := 0, rs_retry := 0\<rparr> else r)"

definition note_subscription :: "relay_world \<Rightarrow> bool \<Rightarrow> dict \<Rightarrow> remote_session \<Rightarrow> remote_session" where
  "note_subscription w ok d r =
     (if dict_get d ''msg.type'' '''' \<noteq> ''media'' \<or> \<not> ok then r
      else case de_channel (rw_direct w) (dict_get d ''media.chan-uuid'' '''') of
        None \<Rightarrow> r
      | Some (i, ch) \<Rightarrow>
          if mc_subsystem ch \<noteq> me_audio (de_media (rw_direct w)) \<or> mc_direction ch \<noteq> me_dir_tx (de_media (rw_direct w)) then r
          else if dict_get d ''media.cmd'' '''' = ''subscribe''
          then r\<lparr>rs_proxy := (rs_proxy r)(i := dict_get d ''media.transport'' '''' \<noteq> ''direct'')\<rparr>
          else if dict_get d ''media.cmd'' '''' = ''unsubscribe'' then r\<lparr>rs_proxy := (rs_proxy r)(i := False)\<rparr> else r)"

definition join_error :: "relay_world \<Rightarrow> string \<Rightarrow> string" where
  "join_error w room =
     (if rw_room_rig_base w room \<and> \<not> re_room_configured (rw_relay w) room
      then ''JOIN '' @ room @ '': owning server has no configured rig room (stale catalog or rig unavailable)''
      else if rw_room_rig_base w room \<and> \<not> rw_room_tx_control w room then ''JOIN '' @ room @ '': owning server has no active rig-room metadata''
      else case rw_room_status w room of
        None \<Rightarrow> ''JOIN '' @ room @ '': owning server could not read room database status''
      | Some (exists, deleted) \<Rightarrow> if deleted then ''JOIN '' @ room @ '': room is marked deleted on owning server''
          else ''JOIN '' @ room @ '': owning server rejected room membership; check relay.join and room logs'')"

definition joined_reply :: "relay_world \<Rightarrow> remote_session \<Rightarrow> string \<Rightarrow> dict" where
  "joined_reply w r room = [(''msg.type'', ''talk''), (''talk.cmd'', ''join''), (''talk.room'', room), (''talk.target'', room),
     (''talk.user'', rs_name r), (''talk.session'', rs_id r)] @ rw_room_info w room"

definition after_request :: "relay_world \<Rightarrow> bool \<Rightarrow> cstr \<Rightarrow> dict \<Rightarrow> remote_session \<Rightarrow> session_effect list" where
  "after_request w ok room d r =
     (let cmd = dict_get d ''talk.cmd'' ''''; name = (case room of None \<Rightarrow> [] | Some s \<Rightarrow> s); inside = rw_member w (rs_client r) name in
      (if cmd = ''join'' \<and> (\<not> ok \<or> \<not> inside) then [Tell (rs_handle r) (join_error w name)] else []) @
      (if ok \<and> cmd = ''join'' \<and> inside then [Reply (rs_origin r) (rs_id r) (joined_reply w r name), Announce (rs_handle r) name]
       else if ok \<and> cmd = ''part'' then [Part_room name (rs_name r)] else []))"

text \<open>
  The request \<open>d\<close> of the user of the linked server \<open>origin\<close>. \<open>alloc\<close>, \<open>t1\<close>, \<open>t2\<close> and \<open>block\<close> are
  the memory and the clock of the reassembly, \<open>base64\<close> its decoder.
\<close>

definition update_session :: "nat \<Rightarrow> remote_session \<Rightarrow> relay_sessions \<Rightarrow> relay_sessions" where
  "update_session i r st = st\<lparr>ss_sessions := (ss_sessions st)[i := r]\<rparr>"

definition execute_admitted ::
  "'k crypto \<Rightarrow> relay_world \<Rightarrow> bool \<Rightarrow> 64 word \<Rightarrow> 64 word \<Rightarrow> (nat \<Rightarrow> char) option \<Rightarrow> cstr \<Rightarrow> dict \<Rightarrow> nat \<Rightarrow> relay_sessions \<Rightarrow>
     relay_sessions \<times> session_effect list" where
  "execute_admitted base64 w alloc t1 t2 block room d i st =
     (let r = ss_sessions st ! i; h = rs_handle r in
      if bad_source w r d then (st, [Tell h ''Invalid remote session source address''])
      else let r = take_hints w d r; d = strip_hints d; st = update_session i r st in
      if asks_ptt w d \<and> \<not> live_path w (ss_grants st) r room
      then (st, [Tell h ''Remote PTT requires a live direct TX attachment or a proxy TX subscription''])
      else if is_frame d then
        (case frame_admitted w (ss_grants st) r (the room) d of
           None \<Rightarrow> (st, [])
         | Some (k, ch) \<Rightarrow>
             (case execute_fragment base64 (de_media (rw_direct w)) alloc t1 t2 block h (mc_uuid ch) (k + 1) d (ss_media st) of
                (media, whole) \<Rightarrow> (st\<lparr>ss_media := media\<rparr>, case whole of None \<Rightarrow> [] | Some bytes \<Rightarrow> [Heard h bytes])))
      else if \<not> rw_wire w d then (st, [Tell h ''Invalid remote client message''])
      else let was = cn_ptt (rs_conn r);
               (ok, client) = (if is_administration d then (True, rw_administer w h d (rs_client r)) else rw_process w h d (rs_client r));
               r = note_subscription w ok d (note_key w was (r\<lparr>rs_client := client\<rparr>))
        in (update_session i r st,
            [if is_administration d then Administered h d else Processed h d] @
            (if \<not> was \<and> cn_ptt (rs_conn r) then [Keyed h] else []) @ after_request w ok room d r))"

definition rr_relay_execute ::
  "'k crypto \<Rightarrow> relay_world \<Rightarrow> nat option \<Rightarrow> bool \<Rightarrow> 64 word \<Rightarrow> 64 word \<Rightarrow> (nat \<Rightarrow> char) option \<Rightarrow> string \<Rightarrow> string \<Rightarrow> cstr \<Rightarrow> dict \<Rightarrow> relay_sessions \<Rightarrow>
     relay_sessions \<times> session_effect list" where
  "rr_relay_execute base64 w fresh alloc t1 t2 block origin uuid user d st =
     (let (i, st) = owner_session w fresh origin uuid user st;
          r = map_option (\<lambda>i. ss_sessions st ! i) i;
          room = rr_relay_message_room (rw_catalogs w) d;
          scoped = scope w origin (the user) r room d in
      if refused w r scoped room d
      then (st, [Reply origin uuid (refusal w r scoped (case user of None \<Rightarrow> ''(null)'' | Some u \<Rightarrow> u) room d)])
      else execute_admitted base64 w alloc t1 t2 block room d (the i) st)"

section \<open>Runs\<close>

text \<open>
  What happens to the table while the process runs. The end of the process, \<open>rrserver_relay_fini\<close>, is no event: it frees the sessions
  up to the first whose removal is put off and zeroes the counter whatever is left.
\<close>

datatype session_event =
    S_request "nat option" bool "64 word" "64 word" "(nat \<Rightarrow> char) option" string string cstr dict
  | S_frame nat string
  | S_connection nat relay_conn
  | S_channel_removed nat
  | S_poll
  | S_lost
  | S_close string string

definition each_session :: "nat \<Rightarrow> (remote_session \<Rightarrow> remote_session) \<Rightarrow> relay_sessions \<Rightarrow> relay_sessions" where
  "each_session h f st = st\<lparr>ss_sessions := map (\<lambda>r. if rs_handle r = h then f r else r) (ss_sessions st)\<rparr>"

fun session_step :: "'k crypto \<Rightarrow> relay_world \<times> session_event \<Rightarrow> relay_sessions \<Rightarrow> relay_sessions \<times> session_effect list" where
  "session_step base64 (w, S_request fresh alloc t1 t2 block origin uuid user d) st =
     rr_relay_execute base64 w fresh alloc t1 t2 block origin uuid user d st"
| "session_step base64 (w, S_frame h data) st = (each_session h (rr_relay_proxy_tx_frame w data) st, [])"
| "session_step base64 (w, S_connection h client) st = (each_session h (\<lambda>r. r\<lparr>rs_client := client\<rparr>) st, [])"
| "session_step base64 (w, S_channel_removed i) st = (st\<lparr>ss_sessions := map (rr_relay_media_removed i) (ss_sessions st)\<rparr>, [])"
| "session_step base64 (w, S_poll) st = poll_sessions w st"
| "session_step base64 (w, S_lost) st = lost_sessions w st"
| "session_step base64 (w, S_close origin uuid) st = close_sessions w origin uuid st"

text \<open>The state after a run, and what was done when.\<close>

fun sessions_run :: "'k crypto \<Rightarrow> (relay_world \<times> session_event) list \<Rightarrow> relay_sessions \<Rightarrow> relay_sessions \<times> (nat \<times> session_effect) list" where
  "sessions_run base64 [] st = (st, [])"
| "sessions_run base64 (x # xs) st =
     (let (st, out) = session_step base64 x st; (st, acts) = sessions_run base64 xs st
      in (st, map (\<lambda>e. (rw_mono (fst x), e)) out @ acts))"

lemma sessions_run_snoc:
  "sessions_run base64 (xs @ [x]) st = (let (st, acts) = sessions_run base64 xs st; (st, out) = session_step base64 x st
     in (st, acts @ map (\<lambda>e. (rw_mono (fst x), e)) out))"
proof (induction xs arbitrary: st)
  case Nil
  show ?case by (simp add: Let_def split_beta)
next
  case (Cons y ys)
  show ?case using Cons [of "fst (session_step base64 y st)"] by (simp add: Let_def split_beta)
qed

section \<open>Where the times of a session come from\<close>

text \<open>
  \<open>timed acts frames r\<close>: a start or a frame of the session was recorded when it happened, and a
  pending retry is a second after an attempt to release.
\<close>

definition timed :: "(nat \<times> session_effect) list \<Rightarrow> (nat \<times> nat) set \<Rightarrow> remote_session \<Rightarrow> bool" where
  "timed acts frames r \<longleftrightarrow>
     (rs_started r \<noteq> 0 \<longrightarrow> (rs_started r, Keyed (rs_handle r)) \<in> set acts) \<and>
     (rs_frame r \<noteq> 0 \<longrightarrow> (rs_frame r, rs_handle r) \<in> frames) \<and>
     (rs_retry r \<noteq> 0 \<longrightarrow> (\<exists>t. rs_retry r = t + 1000000 \<and> (t, Release (rs_handle r)) \<in> set acts))"

definition frames_of :: "(relay_world \<times> session_event) list \<Rightarrow> (nat \<times> nat) set" where
  "frames_of h = {(rw_mono w, c) |w c. \<exists>data. (w, S_frame c data) \<in> set h}"

lemma frames_of_more: "frames_of h \<subseteq> frames_of (h @ [x])"
  by (auto simp: frames_of_def)

lemma timed_more: "timed acts frames r \<Longrightarrow> set acts \<subseteq> set acts' \<Longrightarrow> frames \<subseteq> frames' \<Longrightarrow> timed acts' frames' r"
  unfolding timed_def by blast

lemma timed_same:
  "timed acts frames r \<Longrightarrow> rs_started r' = rs_started r \<Longrightarrow> rs_frame r' = rs_frame r \<Longrightarrow> rs_retry r' = rs_retry r \<Longrightarrow>
     rs_handle r' = rs_handle r \<Longrightarrow> timed acts frames r'"
  by (simp add: timed_def)

lemma set_conn_simps [simp]:
  "rs_started (set_conn cn r) = rs_started r" "rs_frame (set_conn cn r) = rs_frame r" "rs_retry (set_conn cn r) = rs_retry r"
  "rs_handle (set_conn cn r) = rs_handle r" "rs_origin (set_conn cn r) = rs_origin r" "rs_id (set_conn cn r) = rs_id r"
  "rs_name (set_conn cn r) = rs_name r" "rs_proxy (set_conn cn r) = rs_proxy r" "rs_conn (set_conn cn r) = cn"
  by (simp_all add: set_conn_def)

lemma session_released_simps [simp]:
  "rs_started (session_released w r) = rs_started r" "rs_frame (session_released w r) = rs_frame r" "rs_retry (session_released w r) = rs_retry r"
  "rs_handle (session_released w r) = rs_handle r" "rs_origin (session_released w r) = rs_origin r" "rs_id (session_released w r) = rs_id r"
  "rs_name (session_released w r) = rs_name r"
  by (simp_all add: session_released_def)

text \<open>What the poll and the loss of a server leave of a session.\<close>

definition tried :: "relay_world \<Rightarrow> remote_session \<Rightarrow> session_effect list \<Rightarrow> bool" where
  "tried w r out \<longleftrightarrow> rw_mono w < rs_retry r \<or> Release (rs_handle r) \<in> set out"

definition kin :: "remote_session \<Rightarrow> remote_session \<Rightarrow> bool" where
  "kin r r' \<longleftrightarrow> rs_origin r' = rs_origin r \<and> rs_id r' = rs_id r \<and> rs_handle r' = rs_handle r \<and> rs_name r' = rs_name r"

lemma kin_refl [simp]: "kin r r"
  by (simp add: kin_def)

lemma kin_trans: "kin a b \<Longrightarrow> kin b c \<Longrightarrow> kin a c"
  by (simp add: kin_def)

lemma remove_kept:
  assumes "rr_relay_remove_remote w r media gs = (Some r', media', gs', out)"
  shows "kin r r' \<and> tried w r out \<and> rs_started r' = rs_started r \<and> rs_frame r' = rs_frame r \<and>
    ((rs_retry r' = rs_retry r \<and> out = []) \<or> (rs_retry r' = rw_mono w + 1000000 \<and> Release (rs_handle r) \<in> set out))"
  using assms unfolding rr_relay_remove_remote_def Let_def
  by (auto simp: kin_def tried_def split: if_splits prod.splits)

lemma retry_kept:
  assumes "retry_remote_ptt w gs r = (r', out)"
  shows "kin r r' \<and> rs_started r' = rs_started r \<and> rs_frame r' = rs_frame r \<and>
    (rs_retry r' = 0 \<or> rs_retry r' = rs_retry r \<or> (rs_retry r' = rw_mono w + 1000000 \<and> Release (rs_handle r) \<in> set out))"
  using assms unfolding retry_remote_ptt_def Let_def by (auto simp: kin_def split: if_splits)

definition kept_ok :: "relay_world \<Rightarrow> remote_session \<Rightarrow> remote_session \<Rightarrow> session_effect list \<Rightarrow> bool" where
  "kept_ok w r r' out \<longleftrightarrow> kin r r' \<and> rs_started r' = rs_started r \<and> rs_frame r' = rs_frame r \<and>
     (rs_retry r' = 0 \<or> rs_retry r' = rs_retry r \<or> (rs_retry r' = rw_mono w + 1000000 \<and> Release (rs_handle r) \<in> set out))"

lemma kept_timed:
  assumes "timed acts frames r" "kept_ok w r r' out"
  shows "timed (acts @ map (\<lambda>e. (rw_mono w, e)) out) frames r'"
  using assms unfolding timed_def kept_ok_def kin_def by auto

text \<open>Every session left by a pass was there before, and a fact that holds for each one step holds for the pass.\<close>

lemma session_pass_step:
  assumes dead: "\<And>r media gs r' media' gs' out. dead r \<Longrightarrow> G gs \<Longrightarrow> rr_relay_remove_remote w r media gs = (Some r', media', gs', out) \<Longrightarrow> P r r' out"
    and live: "\<And>r gs r' out. \<not> dead r \<Longrightarrow> G gs \<Longrightarrow> live gs r = (r', out) \<Longrightarrow> P r r' out"
    and grants: "\<And>r media gs kept media' gs' out. G gs \<Longrightarrow> rr_relay_remove_remote w r media gs = (kept, media', gs', out) \<Longrightarrow> G gs'"
    and more: "\<And>r r' out out'. P r r' out \<Longrightarrow> set out \<subseteq> set out' \<Longrightarrow> P r r' out'"
  shows "G gs \<Longrightarrow> session_pass dead live w rs media gs = (rs', media', gs', out) \<Longrightarrow>
    length rs' \<le> length rs \<and> (\<exists>sel. subseq sel rs \<and> list_all2 (\<lambda>r r'. P r r' out) sel rs')"
proof (induction rs arbitrary: media gs rs' media' gs' out)
  case Nil
  then show ?case by simp
next
  case (Cons r rs)
  define first where "first = (if dead r then rr_relay_remove_remote w r media gs else (case live gs r of (r, out) \<Rightarrow> (Some r, media, gs, out)))"
  obtain kept media1 gs1 out1 where 1: "first = (kept, media1, gs1, out1)" by (metis prod_cases4)
  obtain rs2 media2 gs2 out2 where 2: "session_pass dead live w rs media1 gs1 = (rs2, media2, gs2, out2)" by (metis prod_cases4)
  have r: "rs' = (case kept of None \<Rightarrow> rs2 | Some r \<Rightarrow> r # rs2)" "out = out1 @ out2"
    using Cons.prems(2) by (simp_all add: first_def [symmetric] 1 2)
  have g: "G gs1" using 1 Cons.prems(1) grants by (auto simp: first_def split: if_splits prod.splits)
  have k: "P r r' out" if "kept = Some r'" for r'
    using that 1 Cons.prems(1) more [of r r' out1 out] dead live r(2) by (auto simp: first_def split: if_splits prod.splits)
  from Cons.IH [OF g 2] obtain sel where sel: "length rs2 \<le> length rs" "subseq sel rs" "list_all2 (\<lambda>r r'. P r r' out2) sel rs2" by auto
  have m: "P a b out2 \<Longrightarrow> P a b out" for a b using more [of a b out2 out] r(2) by simp
  have "list_all2 (\<lambda>r r'. P r r' out) sel rs2" using sel(3) by (rule list_all2_mono) (rule m)
  with sel k show ?case
    by (cases kept) (auto simp: r(1) intro: exI [of _ sel] exI [of _ "r # sel"])
qed

lemma pass_members:
  assumes "subseq sel rs" "list_all2 P sel rs'" "r' \<in> set rs'"
  shows "\<exists>r \<in> set rs. P r r'"
proof -
  obtain i where i: "i < length rs'" "rs' ! i = r'" using assms(3) by (auto simp: in_set_conv_nth)
  then have "P (sel ! i) r'" "i < length sel" using assms(2) by (auto simp: list_all2_conv_all_nth)
  moreover have "sel ! i \<in> set rs" using list_emb_set [OF assms(1) nth_mem [OF \<open>i < length sel\<close>]] by auto
  ultimately show ?thesis by blast
qed

lemma kept_ok_more: "kept_ok w r r' out \<Longrightarrow> set out \<subseteq> set out' \<Longrightarrow> kept_ok w r r' out'"
  by (auto simp: kept_ok_def)

lemma poll_kept:
  assumes "poll_sessions w st = (st', out)"
  shows "\<exists>sel. subseq sel (ss_sessions st) \<and> list_all2 (\<lambda>r r'. kept_ok w r r' out) sel (ss_sessions st')"
proof -
  obtain rs media gs out1 where 1: "session_pass (\<lambda>r. \<not> session_open w (rs_conn r)) (retry_remote_ptt w) w (ss_sessions st) (ss_media st) (ss_grants st) =
      (rs, media, gs, out1)" by (metis prod_cases4)
  have "length rs \<le> length (ss_sessions st) \<and> (\<exists>sel. subseq sel (ss_sessions st) \<and> list_all2 (\<lambda>r r'. kept_ok w r r' out1) sel rs)"
    by (rule session_pass_step [where G = "\<lambda>_. True" and P = "kept_ok w", OF _ _ _ _ _ 1])
      (auto simp: kept_ok_def dest: remove_kept retry_kept)
  moreover have "ss_sessions st' = rs" "out = out1" using assms 1 by (auto simp: poll_sessions_def pass_state_def)
  ultimately show ?thesis by simp
qed

lemma removed_kept:
  assumes "pass_state dead (\<lambda>gs r. (r, [])) w st = (st', out)"
  shows "\<exists>sel. subseq sel (ss_sessions st) \<and> list_all2 (\<lambda>r r'. kept_ok w r r' out) sel (ss_sessions st')"
proof -
  obtain rs media gs out1 where 1: "session_pass dead (\<lambda>gs r. (r, [])) w (ss_sessions st) (ss_media st) (ss_grants st) =
      (rs, media, gs, out1)" by (metis prod_cases4)
  have "length rs \<le> length (ss_sessions st) \<and> (\<exists>sel. subseq sel (ss_sessions st) \<and> list_all2 (\<lambda>r r'. kept_ok w r r' out1) sel rs)"
    by (rule session_pass_step [where G = "\<lambda>_. True" and P = "kept_ok w", OF _ _ _ _ _ 1])
      (auto simp: kept_ok_def dest: remove_kept)
  moreover have "ss_sessions st' = rs" "out = out1" using assms 1 by (auto simp: pass_state_def)
  ultimately show ?thesis by simp
qed

lemma pass_timed:
  assumes "\<exists>sel. subseq sel rs \<and> list_all2 (\<lambda>r r'. kept_ok w r r' out) sel rs'" "\<forall>r \<in> set rs. timed acts frames r"
  shows "\<forall>r \<in> set rs'. timed (acts @ map (\<lambda>e. (rw_mono w, e)) out) frames r"
proof
  fix r' assume "r' \<in> set rs'"
  with assms(1) pass_members [of _ rs "\<lambda>r r'. kept_ok w r r' out" rs' r'] obtain r where "r \<in> set rs" "kept_ok w r r' out" by blast
  with assms(2) kept_timed show "timed (acts @ map (\<lambda>e. (rw_mono w, e)) out) frames r'" by blast
qed

text \<open>Execution: the sessions are those of before, perhaps with a new one in front, and one of them perhaps changed.\<close>

lemma owner_session_cases:
  obtains (none) "owner_session w fresh origin uuid user st = (None, st)"
    | (old) i u where "owner_session w fresh origin uuid user st = (Some i, st)" "user = Some u" "u \<noteq> []" "i < length (ss_sessions st)"
        "rs_origin (ss_sessions st ! i) = origin" "rs_id (ss_sessions st ! i) = uuid" "cn_authenticated (rs_conn (ss_sessions st ! i))"
        "strcaseeq (rs_name (ss_sessions st ! i)) u" "route_to w origin \<noteq> None"
    | (new) h u where "owner_session w fresh origin uuid user st =
          (Some 0, st\<lparr>ss_sessions := new_session w origin uuid u h # ss_sessions st, ss_count := ss_count st + 1\<rparr>)" "user = Some u" "u \<noteq> []"
        "\<forall>r \<in> set (ss_sessions st). rs_origin r \<noteq> origin \<or> rs_id r \<noteq> uuid" "ss_count st \<noteq> MAX_RELAY_SESSIONS" "route_to w origin \<noteq> None"
        "fresh = Some h"
proof (cases "\<not> re_uuid_valid (rw_relay w) origin \<or> route_to w origin = None \<or> \<not> re_uuid_valid (rw_relay w) uuid \<or>
    user = None \<or> user = Some [] \<or> rw_max_name w < length (the user)")
  case True
  then show thesis by (intro none) (auto simp: owner_session_def)
next
  case ok: False
  then obtain u where u: "user = Some u" "u \<noteq> []" "route_to w origin \<noteq> None" by auto
  show thesis
  proof (cases "find_idx (\<lambda>r. rs_origin r = origin \<and> rs_id r = uuid) (ss_sessions st)")
    case (Some i)
    with find_idx_SomeD [OF Some] ok u show thesis
      by (cases "cn_authenticated (rs_conn (ss_sessions st ! i)) \<and> strcaseeq (rs_name (ss_sessions st ! i)) u")
        (auto simp: owner_session_def Let_def intro: none old)
  next
    case None
    then have n: "\<forall>r \<in> set (ss_sessions st). rs_origin r \<noteq> origin \<or> rs_id r \<noteq> uuid" by auto
    show thesis
    proof (cases "ss_count st = MAX_RELAY_SESSIONS \<or> fresh = None")
      case True
      then have "owner_session w fresh origin uuid user st = (None, st)"
        unfolding owner_session_def if_not_P [OF ok] None option.case by (auto split: option.split)
      then show thesis by (rule none)
    next
      case False
      then obtain h where "fresh = Some h" by auto
      then have "owner_session w fresh origin uuid user st =
          (Some 0, st\<lparr>ss_sessions := new_session w origin uuid u h # ss_sessions st, ss_count := ss_count st + 1\<rparr>)"
        unfolding owner_session_def if_not_P [OF ok] None option.case using False u by simp
      then show thesis using False u n \<open>fresh = Some h\<close> by (intro new [of u h]) auto
    qed
  qed
qed

lemma hints_simps [simp]:
  "rs_started (take_hints w d r) = rs_started r" "rs_frame (take_hints w d r) = rs_frame r" "rs_retry (take_hints w d r) = rs_retry r"
  "kin r (take_hints w d r)" "rs_conn (take_hints w d r) = rs_conn r" "rs_proxy (take_hints w d r) = rs_proxy r"
  "rs_handle (take_hints w d r) = rs_handle r" "rs_origin (take_hints w d r) = rs_origin r" "rs_id (take_hints w d r) = rs_id r" "rs_name (take_hints w d r) = rs_name r"
  by (simp_all add: take_hints_def kin_def Let_def split: option.split)

lemma subscription_simps [simp]:
  "rs_started (note_subscription w ok d r) = rs_started r" "rs_frame (note_subscription w ok d r) = rs_frame r"
  "rs_retry (note_subscription w ok d r) = rs_retry r" "kin r (note_subscription w ok d r)" "rs_client (note_subscription w ok d r) = rs_client r"
  "rs_handle (note_subscription w ok d r) = rs_handle r" "rs_origin (note_subscription w ok d r) = rs_origin r" "rs_id (note_subscription w ok d r) = rs_id r" "rs_name (note_subscription w ok d r) = rs_name r"
  by (simp_all add: note_subscription_def kin_def split: option.split prod.split)

definition executed_ok :: "relay_world \<Rightarrow> remote_session \<Rightarrow> remote_session \<Rightarrow> session_effect list \<Rightarrow> bool" where
  "executed_ok w r r' out \<longleftrightarrow> kin r r' \<and>
     ((rs_started r' = rs_started r \<and> rs_frame r' = rs_frame r \<and> rs_retry r' = rs_retry r) \<or>
      (rs_started r' = rw_mono w \<and> rs_frame r' = 0 \<and> rs_retry r' = 0 \<and> Keyed (rs_handle r) \<in> set out))"

lemma executed_timed:
  assumes "timed acts frames r" "executed_ok w r r' out"
  shows "timed (acts @ map (\<lambda>e. (rw_mono w, e)) out) frames r'"
  using assms unfolding timed_def executed_ok_def kin_def by auto

lemma execute_admitted_sessions:
  assumes "execute_admitted base64 w alloc t1 t2 block room d i st = (st', out)"
  shows "\<exists>r'. ss_sessions st' = (ss_sessions st)[i := r'] \<and> ss_count st' = ss_count st \<and> (i < length (ss_sessions st) \<longrightarrow> executed_ok w (ss_sessions st ! i) r' out)"
proof -
  define r where "r = ss_sessions st ! i"
  define h where "h = rs_handle r"
  have same: "\<exists>r'. ss_sessions s = (ss_sessions st)[i := r'] \<and> ss_count s = ss_count st \<and> (i < length (ss_sessions st) \<longrightarrow> executed_ok w (ss_sessions st ! i) r' out)"
    if "ss_sessions s = ss_sessions st \<or> ss_sessions s = (ss_sessions st)[i := take_hints w d r]" "ss_count s = ss_count st" for s
    using that by (auto simp: executed_ok_def r_def intro: exI [of _ "ss_sessions st ! i"] exI [of _ "take_hints w d r"])
  consider "ss_sessions st' = ss_sessions st \<or> ss_sessions st' = (ss_sessions st)[i := take_hints w d r]" "ss_count st' = ss_count st"
    | ok client where "st' = update_session i (note_subscription w ok (strip_hints d) (note_key w (cn_ptt (rs_conn (take_hints w d r)))
          ((take_hints w d r)\<lparr>rs_client := client\<rparr>))) (update_session i (take_hints w d r) st)"
        "set out \<supseteq> set (if \<not> cn_ptt (rs_conn r) \<and> cn_ptt (rc_conn client) then [Keyed h] else [])"
  proof -
    let ?n = thesis
    show thesis
    proof (cases "bad_source w r d")
      case True
      then show thesis using assms that(1) by (simp add: execute_admitted_def r_def Let_def)
    next
      case ok: False
      show thesis
      proof (cases "asks_ptt w (strip_hints d) \<and> \<not> live_path w (ss_grants st) (take_hints w d r) room \<or> is_frame (strip_hints d) \<or> \<not> rw_wire w (strip_hints d)")
        case True
        then show thesis using assms ok that(1)
          by (auto simp: execute_admitted_def r_def [symmetric] Let_def update_session_def split: if_splits option.splits prod.splits)
      next
        case False
        define res where "res = (if is_administration (strip_hints d) then (True, rw_administer w h (strip_hints d) (rs_client (take_hints w d r)))
          else rw_process w h (strip_hints d) (rs_client (take_hints w d r)))"
        obtain ok client where res: "res = (ok, client)" by (cases res)
        from False have "\<not> (asks_ptt w (strip_hints d) \<and> \<not> live_path w (ss_grants st) (take_hints w d r) room)" "\<not> is_frame (strip_hints d)"
          "\<not> \<not> rw_wire w (strip_hints d)" by auto
        note n = this
        have g: "ss_grants (update_session i x st) = ss_grants st" for x by (simp add: update_session_def)
        have hh: "rs_handle (ss_sessions st ! i) = h" by (simp add: h_def r_def)
        note u = assms [unfolded execute_admitted_def Let_def r_def [symmetric] hints_simps h_def [symmetric] if_not_P [OF ok] g if_not_P [OF n(1)] if_not_P [OF n(2)]
          if_not_P [OF n(3)] res_def [symmetric] res prod.case]
        show thesis by (rule that(2) [of ok client]) (use u in \<open>auto simp: note_key_def\<close>)
      qed
    qed
  qed
  then show ?thesis
  proof cases
    case 1
    then show ?thesis by (rule same)
  next
    case (2 ok client)
    let ?r = "note_subscription w ok (strip_hints d) (note_key w (cn_ptt (rs_conn (take_hints w d r))) ((take_hints w d r)\<lparr>rs_client := client\<rparr>))"
    have "executed_ok w r ?r out"
      using 2(2) by (auto simp: executed_ok_def note_key_def kin_def h_def)
    then show ?thesis using 2(1) by (auto simp: update_session_def r_def intro: exI [of _ ?r])
  qed
qed

lemma step_timed:
  assumes step: "session_step base64 (w, e) st = (st', out)"
    and old: "\<forall>r \<in> set (ss_sessions st). timed acts frames r"
  shows "\<forall>r \<in> set (ss_sessions st'). timed (acts @ map (\<lambda>e. (rw_mono w, e)) out) (frames \<union> frames_of [(w, e)]) r"
proof (cases e)
  case (S_request fresh alloc t1 t2 block origin uuid user d)
  let ?acts = "acts @ map (\<lambda>e. (rw_mono w, e)) out"
  obtain i st1 where o: "owner_session w fresh origin uuid user st = (i, st1)" by (metis prod.exhaust)
  have t1: "\<forall>r \<in> set (ss_sessions st1). timed acts frames r"
    by (cases rule: owner_session_cases [of w fresh origin uuid user st]) (use o old in \<open>auto simp: timed_def new_session_def\<close>)
  have len: "\<And>k. i = Some k \<Longrightarrow> k < length (ss_sessions st1)"
    by (cases rule: owner_session_cases [of w fresh origin uuid user st]) (use o in auto)
  define room where "room = rr_relay_message_room (rw_catalogs w) d"
  define r where "r = map_option (\<lambda>i. ss_sessions st1 ! i) i"
  define scoped where "scoped = scope w origin (the user) r room d"
  note x = step [unfolded S_request session_step.simps rr_relay_execute_def o Let_def prod.case, folded room_def, folded r_def, folded scoped_def]
  have more: "timed acts frames r \<Longrightarrow> timed ?acts (frames \<union> frames_of [(w, e)]) r" for r by (erule timed_more) auto
  show ?thesis
  proof (cases "refused w r scoped room d")
    case True
    with x have "st' = st1" by auto
    with t1 more show ?thesis by blast
  next
    case False
    then obtain k where k: "i = Some k" by (cases i) (auto simp: refused_def r_def)
    from False x have "execute_admitted base64 w alloc t1 t2 block room d k st1 = (st', out)" by (simp add: k)
    from execute_admitted_sessions [OF this] len [OF k] obtain r' where
      r': "ss_sessions st' = (ss_sessions st1)[k := r']" "executed_ok w (ss_sessions st1 ! k) r' out" by auto
    have "timed ?acts frames r'" using executed_timed [OF _ r'(2)] t1 len [OF k] by simp
    then have "timed ?acts (frames \<union> frames_of [(w, e)]) r'" by (rule timed_more) auto
    moreover have "\<forall>r \<in> set (ss_sessions st1). timed ?acts (frames \<union> frames_of [(w, e)]) r" using t1 more by blast
    ultimately show ?thesis using set_update_subset_insert [of "ss_sessions st1" k r'] by (auto simp: r'(1))
  qed
next
  case (S_frame h data)
  then have st': "st' = each_session h (rr_relay_proxy_tx_frame w data) st" "out = []" using step by simp_all
  have "timed acts (frames \<union> frames_of [(w, e)]) (rr_relay_proxy_tx_frame w data r)" if "timed acts frames r" "rs_handle r = h" for r
    using that by (auto simp: rr_relay_proxy_tx_frame_def timed_def frames_of_def S_frame split: option.splits)
  moreover have "timed acts (frames \<union> frames_of [(w, e)]) r" if "timed acts frames r" for r using that by (rule timed_more) auto
  ultimately show ?thesis using old by (auto simp: st' each_session_def)
next
  case (S_connection h client)
  then have st': "st' = each_session h (\<lambda>r. r\<lparr>rs_client := client\<rparr>) st" "out = []" using step by simp_all
  have "timed acts frames r \<Longrightarrow> timed acts (frames \<union> frames_of [(w, e)]) (r\<lparr>rs_client := client\<rparr>)"
    "timed acts frames r \<Longrightarrow> timed acts (frames \<union> frames_of [(w, e)]) r" for r by (auto simp: timed_def)
  then show ?thesis using old by (auto simp: st' each_session_def)
next
  case (S_channel_removed i)
  then have st': "st' = st\<lparr>ss_sessions := map (rr_relay_media_removed i) (ss_sessions st)\<rparr>" "out = []" using step by simp_all
  have "timed acts frames r \<Longrightarrow> timed acts (frames \<union> frames_of [(w, e)]) (rr_relay_media_removed i r)" for r
    by (auto simp: timed_def rr_relay_media_removed_def)
  then show ?thesis using old by (auto simp: st')
next
  case S_poll
  with step have "poll_sessions w st = (st', out)" by simp
  from pass_timed [OF poll_kept [OF this] old] show ?thesis by (auto elim: timed_more)
next
  case S_lost
  with step have "lost_sessions w st = (st', out)" by simp
  from pass_timed [OF removed_kept [OF this [unfolded lost_sessions_def]] old] show ?thesis by (auto elim: timed_more)
next
  case (S_close origin uuid)
  with step have "close_sessions w origin uuid st = (st', out)" by simp
  from pass_timed [OF removed_kept [OF this [unfolded close_sessions_def]] old] show ?thesis by (auto elim: timed_more)
qed

definition no_sessions :: relay_sessions where
  "no_sessions = \<lparr>ss_sessions = [], ss_count = 0, ss_media = \<lparr>ms_maps = [], ms_count = 0, ms_sequence = 0\<rparr>, ss_grants = no_grants\<rparr>"

lemma run_timed:
  "sessions_run base64 h no_sessions = (st, acts) \<Longrightarrow> \<forall>r \<in> set (ss_sessions st). timed acts (frames_of h) r"
proof (induction h arbitrary: st acts rule: rev_induct)
  case Nil
  then show ?case by (auto simp: no_sessions_def)
next
  case (snoc x xs)
  obtain w e where x: "x = (w, e)" by (metis prod.exhaust)
  obtain st1 acts1 where 1: "sessions_run base64 xs no_sessions = (st1, acts1)" by (metis prod.exhaust)
  obtain st2 out where 2: "session_step base64 (w, e) st1 = (st2, out)" by (metis prod.exhaust)
  from snoc.prems have "st = st2" "acts = acts1 @ map (\<lambda>e. (rw_mono w, e)) out" by (simp_all add: sessions_run_snoc 1 x 2)
  moreover have "frames_of xs \<union> frames_of [(w, e)] = frames_of (xs @ [x])" by (auto simp: frames_of_def x)
  ultimately show ?case using step_timed [OF 2 snoc.IH [OF 1]] by simp
qed

text \<open>The direct grants a session is judged by during the poll are grants the poll began with.\<close>

lemma each_grant_set:
  assumes "\<And>env g g' env' out. f env g = (g', env', out) \<Longrightarrow> g' = g \<or> g' = no_grant"
  shows "each_grant f env gs = (gs', env', out) \<Longrightarrow> set gs' \<subseteq> insert no_grant (set gs)"
proof (induction gs arbitrary: env gs' env' out)
  case (Cons g gs)
  obtain g1 env1 out1 where 1: "f env g = (g1, env1, out1)" by (metis prod_cases3)
  obtain gs2 env2 out2 where 2: "each_grant f env1 gs = (gs2, env2, out2)" by (metis prod_cases3)
  from Cons.prems 1 2 have "gs' = g1 # gs2" by (auto simp: Let_def)
  with Cons.IH [OF 2] assms [OF 1] show ?case by auto
qed simp

lemma close_set: "rrserver_direct_close env c gs = (gs', env', out) \<Longrightarrow> set gs' \<subseteq> insert no_grant (set gs)"
  unfolding rrserver_direct_close_def by (rule each_grant_set, auto split: if_splits dest!: remove_keeps)

lemma remove_grants:
  "rr_relay_remove_remote w r media gs = (kept, media', gs', out) \<Longrightarrow> set gs' \<subseteq> insert no_grant (set gs)"
  unfolding rr_relay_remove_remote_def Let_def by (auto split: if_splits prod.splits dest!: close_set)

lemma direct_ready_mono:
  assumes "direct_ready w gs r room" "set gs \<subseteq> insert no_grant (set gs0)"
  shows "direct_ready w gs0 r room"
proof -
  obtain room' where room: "room = Some room'" using assms(1) by (cases room) (auto simp: direct_ready_def rrserver_direct_tx_ready_def)
  define ok where "ok = (\<lambda>g. tx_grant (session_direct w r) (rs_handle r) room' g \<and> valid (session_direct w r) g \<and>
    de_active (session_direct w r) (gr_attachment g) (de_mono (session_direct w r)))"
  have "\<not> ok no_grant" by (simp add: ok_def tx_grant_def no_grant_def)
  moreover have "\<exists>g \<in> set gs. ok g" using assms(1) by (simp add: direct_ready_def rrserver_direct_tx_ready_def room list_ex_iff ok_def)
  ultimately have "\<exists>g \<in> set gs0. ok g" using assms(2) by blast
  then show ?thesis by (simp add: direct_ready_def rrserver_direct_tx_ready_def room list_ex_iff ok_def)
qed

section \<open>What is promised\<close>

definition live_transmission :: "relay_world \<Rightarrow> relay_sessions \<Rightarrow> remote_session \<Rightarrow> bool" where
  "live_transmission w st r \<longleftrightarrow> direct_ready w (ss_grants st) r (Some (cn_ptt_room (rs_conn r))) \<or>
     rrserver_relay_proxy_tx_active w r (cn_ptt_room (rs_conn r)) (rw_mono w)"

definition judged :: "relay_world \<Rightarrow> relay_sessions \<Rightarrow> remote_session \<Rightarrow> remote_session \<Rightarrow> session_effect list \<Rightarrow> bool" where
  "judged w st r r' out \<longleftrightarrow> kin r r' \<and> (cn_ptt (rs_conn r') \<longrightarrow> (rs_client r' = rs_client r \<and> live_transmission w st r) \<or> tried w r out)"

lemma retry_judged:
  assumes "retry_remote_ptt w gs r = (r', out)"
  shows "kin r r' \<and> (cn_ptt (rs_conn r') \<longrightarrow> (rs_client r' = rs_client r \<and> (direct_ready w gs r (Some (cn_ptt_room (rs_conn r))) \<or>
    rrserver_relay_proxy_tx_active w r (cn_ptt_room (rs_conn r)) (rw_mono w))) \<or> tried w r out)"
  using assms unfolding retry_remote_ptt_def Let_def by (auto simp: kin_def tried_def split: if_splits)

lemma poll_judged:
  assumes "poll_sessions w st = (st', out)" "r' \<in> set (ss_sessions st')"
  shows "\<exists>r \<in> set (ss_sessions st). judged w st r r' out"
proof -
  obtain rs media gs out1 where 1: "session_pass (\<lambda>r. \<not> session_open w (rs_conn r)) (retry_remote_ptt w) w (ss_sessions st) (ss_media st) (ss_grants st) =
      (rs, media, gs, out1)" by (metis prod_cases4)
  let ?G = "\<lambda>gs. set gs \<subseteq> insert no_grant (set (ss_grants st))"
  have "length rs \<le> length (ss_sessions st) \<and> (\<exists>sel. subseq sel (ss_sessions st) \<and> list_all2 (\<lambda>r r'. judged w st r r' out1) sel rs)"
  proof (rule session_pass_step [where G = ?G and P = "judged w st", OF _ _ _ _ _ 1])
    fix r media gs r' media' gs' out
    assume "rr_relay_remove_remote w r media gs = (Some r', media', gs', out)"
    from remove_kept [OF this] show "judged w st r r' out" by (simp add: judged_def)
  next
    fix r gs r' out
    assume g: "?G gs" and t: "retry_remote_ptt w gs r = (r', out)"
    have "direct_ready w gs r room \<Longrightarrow> direct_ready w (ss_grants st) r room" for room by (rule direct_ready_mono [OF _ g])
    with retry_judged [OF t] show "judged w st r r' out" unfolding judged_def live_transmission_def by blast
  next
    fix r media gs kept media' gs' out
    assume "?G gs" "rr_relay_remove_remote w r media gs = (kept, media', gs', out)"
    with remove_grants show "?G gs'" by fast
  next
    fix r r' :: remote_session and out out' :: "session_effect list"
    assume "judged w st r r' out" "set out \<subseteq> set out'"
    then show "judged w st r r' out'" by (auto simp: judged_def tried_def)
  qed (rule subset_insertI)
  then obtain sel where sel: "subseq sel (ss_sessions st)" "list_all2 (\<lambda>r r'. judged w st r r' out1) sel rs" by blast
  have "ss_sessions st' = rs" "out = out1" using assms(1) 1 by (auto simp: poll_sessions_def pass_state_def)
  with pass_members [OF sel] assms(2) show ?thesis by simp
qed

text \<open>
  C5. No remote user stays keyed unheard: after a poll at any point of any run, a remote session that is
  still keyed has an active direct attachment; or it may transmit there by the grants of this server, is supervised if it must be and
  subscribed, and was keyed or heard within the last three seconds (the statement counts every frame event of the session; the code's tests of the frame let fewer count); or a release was attempted less than a second before, and the rig refused.
\<close>

theorem remote_transmission_live:
  assumes run: "sessions_run base64 h no_sessions = (st, acts)"
    and poll: "poll_sessions w st = (st', out)"
    and keyed: "r' \<in> set (ss_sessions st')" "cn_ptt (rs_conn r')"
  shows "(\<exists>r \<in> set (ss_sessions st). kin r r' \<and> rs_client r' = rs_client r \<and>
      (direct_ready w (ss_grants st) r (Some (cn_ptt_room (rs_conn r))) \<or>
       (rr_relay_cat_authorized w r (Some (cn_ptt_room (rs_conn r))) (Some ''ptt'') \<and> supervised w r \<and>
        rr_relay_proxy_tx_subscribed w r (Some (cn_ptt_room (rs_conn r))) \<and>
        (\<exists>t \<le> rw_mono w. rw_mono w - t < 3000000 \<and> ((t, Keyed (rs_handle r')) \<in> set acts \<or> (t, rs_handle r') \<in> frames_of h))))) \<or>
    (\<exists>t. rw_mono w < t + 1000000 \<and> (t, Release (rs_handle r')) \<in> set (acts @ map (\<lambda>e. (rw_mono w, e)) out))"
proof -
  obtain r where r: "r \<in> set (ss_sessions st)" "judged w st r r' out" using poll_judged [OF poll keyed(1)] by blast
  have t: "timed acts (frames_of h) r" using run_timed [OF run] r(1) by blast
  have same: "rs_handle r' = rs_handle r" using r(2) by (simp add: judged_def kin_def)
  from r(2) keyed(2) consider "rs_client r' = rs_client r" "live_transmission w st r" | "tried w r out" by (auto simp: judged_def)
  then show ?thesis
  proof cases
    case 1
    show ?thesis
    proof (cases "direct_ready w (ss_grants st) r (Some (cn_ptt_room (rs_conn r)))")
      case True
      with 1(1) r show ?thesis unfolding judged_def by blast
    next
      case False
      with 1(2) have a: "rrserver_relay_proxy_tx_active w r (cn_ptt_room (rs_conn r)) (rw_mono w)" by (simp add: live_transmission_def)
      define heard where "heard = max (rs_frame r) (rs_started r)"
      have p: "rr_relay_cat_authorized w r (Some (cn_ptt_room (rs_conn r))) (Some ''ptt'') \<and> supervised w r \<and>
          rr_relay_proxy_tx_subscribed w r (Some (cn_ptt_room (rs_conn r)))"
        "heard \<noteq> 0" "heard \<le> rw_mono w" "rw_mono w - heard < 3000000"
        using a by (auto simp: rrserver_relay_proxy_tx_active_def Let_def heard_def [symmetric] split: if_splits)
      have "(heard, Keyed (rs_handle r')) \<in> set acts \<or> (heard, rs_handle r') \<in> frames_of h"
        using t p(2) by (auto simp: timed_def heard_def same max_def split: if_splits)
      with 1(1) r p show ?thesis unfolding judged_def by blast
    qed
  next
    case 2
    have "\<exists>t. rw_mono w < t + 1000000 \<and> (t, Release (rs_handle r')) \<in> set (acts @ map (\<lambda>e. (rw_mono w, e)) out)"
    proof (cases "Release (rs_handle r) \<in> set out")
      case True
      then show ?thesis by (intro exI [of _ "rw_mono w"]) (simp add: same)
    next
      case False
      with 2 have "rw_mono w < rs_retry r" by (simp add: tried_def)
      with t show ?thesis by (auto simp: timed_def same)
    qed
    then show ?thesis ..
  qed
qed

section \<open>Admission\<close>

definition granted :: "relay_world \<Rightarrow> string \<Rightarrow> string \<Rightarrow> string \<Rightarrow> string \<Rightarrow> string \<Rightarrow> cstr \<Rightarrow> bool" where
  "granted w user host kind uuid right symbol \<longleftrightarrow> (\<exists>db. rw_db w = Some db \<and>
     rule db (asked user host kind uuid right (rw_now w) symbol) ''allow'' \<and> \<not> rule db (asked user host kind uuid right (rw_now w) symbol) ''deny'')"

definition room_granted :: "relay_world \<Rightarrow> string \<Rightarrow> string \<Rightarrow> string \<Rightarrow> bool" where
  "room_granted w user host room = (case rw_rig w room of
     Some (uuid, symbol) \<Rightarrow> granted w user host ''rig'' uuid ''rig.use'' symbol
   | None \<Rightarrow> (\<exists>uuid. rw_room_uuid w room = Some uuid \<and> granted w user host ''room'' uuid ''room.join'' (Some room)))"

lemma access_granted:
  assumes "\<And>kind right es. set (io_order (rw_io w kind right) es) = set es" "access w user host kind uuid right symbol = RR_RESOURCE_ALLOW"
  shows "granted w user host kind uuid right symbol"
  using assms(2) unfolding access_def db_resource_access_named_def Let_def
  by (auto simp: granted_def asked_def step_rows_eq assms(1) rule_effects split: if_splits option.splits)

lemma room_scope_granted:
  assumes "\<And>kind right es. set (io_order (rw_io w kind right) es) = set es" "room_scope w r user room"
  shows "room_granted w user (rrserver_relay_client_server w r) room \<and> rw_site w \<noteq> Some (rrserver_relay_client_server w r)"
proof (cases "rw_rig w room")
  case None
  with assms(2) obtain uuid where "rw_room_uuid w room = Some uuid" "access w user (rrserver_relay_client_server w r) ''room'' uuid ''room.join'' (Some room) = RR_RESOURCE_ALLOW"
    "rw_site w \<noteq> Some (rrserver_relay_client_server w r)" by (auto simp: room_scope_def Let_def)
  with None access_granted [OF assms(1)] show ?thesis by (simp add: room_granted_def)
next
  case (Some us)
  then obtain uuid symbol where "rw_rig w room = Some (uuid, symbol)" by (cases us) simp
  with assms(2) access_granted [OF assms(1)] show ?thesis by (auto simp: room_scope_def Let_def room_granted_def)
qed

lemma after_request_done: "Processed h d \<notin> set (after_request w ok room d' r)"
  by (simp add: after_request_def Let_def)

lemma admitted_processed:
  assumes "execute_admitted base64 w alloc t1 t2 block room d i st = (st', out)" "Processed h d' \<in> set out"
  shows "h = rs_handle (ss_sessions st ! i) \<and> d' = strip_hints d \<and> \<not> is_administration d' \<and>
    (asks_ptt w d' \<longrightarrow> live_path w (ss_grants st) (take_hints w d (ss_sessions st ! i)) room)"
proof -
  define r where "r = ss_sessions st ! i"
  have ok: "\<not> bad_source w r d" using assms by (auto simp: execute_admitted_def r_def Let_def split: if_splits)
  have g: "ss_grants (update_session i x st) = ss_grants st" for x by (simp add: update_session_def)
  note x = assms(1) [unfolded execute_admitted_def Let_def r_def [symmetric] hints_simps if_not_P [OF ok] g]
  have n1: "\<not> (asks_ptt w (strip_hints d) \<and> \<not> live_path w (ss_grants st) (take_hints w d r) room)" (is "\<not> ?A")
    using x assms(2) by (cases ?A) auto
  note x = x [unfolded if_not_P [OF n1]]
  have n2: "\<not> is_frame (strip_hints d)"
  proof
    assume f: "is_frame (strip_hints d)"
    note x = x [unfolded if_P [OF f]]
    from x assms(2) show False
      by (cases "frame_admitted w (ss_grants st) (take_hints w d r) (the room) (strip_hints d)") (auto simp: split_beta split: option.splits)
  qed
  note x = x [unfolded if_not_P [OF n2]]
  have n3: "\<not> \<not> rw_wire w (strip_hints d)" (is "\<not> ?W") using x assms(2) by (cases ?W) auto
  note x = x [unfolded if_not_P [OF n3]]
  show ?thesis
    using x assms(2) n1 after_request_done by (auto simp: split_beta r_def split: if_splits)
qed

text \<open>
  C9. The grants of the owner decide: when a request of a linked server is handed to the protocol library, it came for a
  session of this origin, over a known route, by the user of the session, about a room this server owns; a rule
  in force gives this user of that site the room or its rig and none denies it; and a request to
  transmit found a direct attachment or a subscribed transmit channel for the room.
\<close>

theorem remote_request_admitted:
  assumes order: "\<And>kind right es. set (io_order (rw_io w kind right) es) = set es"
    and run: "rr_relay_execute base64 w fresh alloc t1 t2 block origin uuid user d st = (st', out)"
    and processed: "Processed h d' \<in> set out"
  shows "\<exists>u room. \<exists>r \<in> set (ss_sessions (snd (owner_session w fresh origin uuid user st))).
    user = Some u \<and> rs_origin r = origin \<and> rs_id r = uuid \<and> rs_handle r = h \<and> strcaseeq (rs_name r) u \<and> route_to w origin \<noteq> None \<and>
    rr_relay_message_room (rw_catalogs w) d = Some room \<and> owned_room w (Some room) \<and>
    rw_site w \<noteq> Some (rrserver_relay_client_server w r) \<and> room_granted w u (rrserver_relay_client_server w r) room \<and>
    (asks_ptt w d' \<longrightarrow> live_path w (ss_grants st) (take_hints w d r) (Some room))"
proof -
  obtain i st1 where o: "owner_session w fresh origin uuid user st = (i, st1)" by (metis prod.exhaust)
  define room where "room = rr_relay_message_room (rw_catalogs w) d"
  define r where "r = map_option (\<lambda>i. ss_sessions st1 ! i) i"
  define scoped where "scoped = scope w origin (the user) r room d"
  note x = run [unfolded rr_relay_execute_def o Let_def prod.case, folded room_def, folded r_def, folded scoped_def]
  have nr: "\<not> refused w r scoped room d" using x processed by (cases "refused w r scoped room d") auto
  then obtain k where k: "i = Some k" by (cases i) (auto simp: refused_def r_def)
  define s where "s = ss_sessions st1 ! k"
  have s: "r = Some s" by (simp add: r_def k s_def)
  have x: "execute_admitted base64 w alloc t1 t2 block room d k st1 = (st', out)" using x nr by (simp add: k)
  note p = admitted_processed [OF x processed, folded s_def]
  have strip: "is_administration (strip_hints d) = is_administration d"
    by (simp add: is_administration_def strip_hints_def dict_get_def map_of_dels)
  have admin: "\<not> is_administration d" using p strip by auto
  have sc: "scoped" "owned_room w room \<or> is_file d" using nr admin by (auto simp: refused_def)
  then have "\<not> is_file d" "room \<noteq> None" "room_scope w s (the user) (the room)"
    using admin s by (auto simp: scoped_def scope_def split: if_splits)
  then obtain name where name: "room = Some name" "owned_room w (Some name)" "room_scope w s (the user) name" using sc by auto
  have gr: "ss_grants st1 = ss_grants st" and own: "\<exists>u. user = Some u \<and> strcaseeq (rs_name s) u" "route_to w origin \<noteq> None"
    "rs_origin s = origin" "rs_id s = uuid" "s \<in> set (ss_sessions st1)"
    by (cases rule: owner_session_cases [of w fresh origin uuid user st], use o k s_def in \<open>auto simp: new_session_def\<close>)+
  from own(1) obtain u where u: "user = Some u" "strcaseeq (rs_name s) u" by blast
  have mem: "s \<in> set (ss_sessions (snd (owner_session w fresh origin uuid user st)))" using own(5) by (simp add: o)
  have room: "rr_relay_message_room (rw_catalogs w) d = Some name" using name(1) by (simp add: room_def)
  from room_scope_granted [OF order name(3)] u(1)
  have grants: "room_granted w u (rrserver_relay_client_server w s) name" "rw_site w \<noteq> Some (rrserver_relay_client_server w s)" by simp_all
  have live: "rs_handle s = h" "asks_ptt w d' \<longrightarrow> live_path w (ss_grants st) (take_hints w d s) (Some name)"
    using p gr name(1) by simp_all
  show ?thesis
    by (intro exI [of _ u] exI [of _ name] bexI [OF _ mem] conjI) (rule u own room name grants live)+
qed

text \<open>
  The site is what the node descriptor of the origin says: two servers that announce the same alias
  speak for the same site, and each has the grants of the other's users.
\<close>

lemma site_is_announced:
  assumes "List.find (\<lambda>c. ct_owner c = rs_origin r \<and> dict_get (ct_descriptor c) ''object.type'' '''' = ''node'') (rw_catalogs w) = Some a"
    "List.find (\<lambda>c. ct_owner c = rs_origin r' \<and> dict_get (ct_descriptor c) ''object.type'' '''' = ''node'') (rw_catalogs w) = Some b"
    "map_of (ct_descriptor a) ''object.alias'' = Some site" "map_of (ct_descriptor b) ''object.alias'' = Some site"
  shows "room_scope w r user room = room_scope w r' user room"
  using assms by (simp add: room_scope_def rrserver_relay_client_server_def dict_get_def)

text \<open>File requests have no room, so nothing can grant them: every one of a linked server is refused.\<close>

lemma remote_files_refused: "is_file d \<Longrightarrow> refused w r (scope w origin user r room d) room d"
  by (auto simp: refused_def scope_def is_file_def is_administration_def split: option.split)

section \<open>The table of sessions\<close>

definition session_key :: "remote_session \<Rightarrow> string \<times> string" where
  "session_key r = (rs_origin r, rs_id r)"

definition sessions_ok :: "relay_sessions \<Rightarrow> bool" where
  "sessions_ok st \<longleftrightarrow> ss_count st = length (ss_sessions st) \<and> length (ss_sessions st) \<le> MAX_RELAY_SESSIONS \<and>
     distinct (map session_key (ss_sessions st))"

lemma kin_key: "kin r r' \<Longrightarrow> session_key r' = session_key r"
  by (simp add: kin_def session_key_def)

lemma subseq_distinct: "subseq xs ys \<Longrightarrow> distinct ys \<Longrightarrow> distinct xs"
proof (induction xs ys rule: list_emb.induct)
  case (list_emb_Cons2 x y xs ys)
  then have "x \<in> set xs \<Longrightarrow> False" using list_emb_set [of "(=)" xs ys x] by auto
  with list_emb_Cons2 show ?case by auto
qed simp_all

lemma pass_ok:
  assumes "pass_state dead live w st = (st', out)" "sessions_ok st" "\<And>gs r r' out. live gs r = (r', out) \<Longrightarrow> kin r r'"
  shows "sessions_ok st'"
proof -
  obtain rs media gs out1 where 1: "session_pass dead live w (ss_sessions st) (ss_media st) (ss_grants st) = (rs, media, gs, out1)" by (metis prod_cases4)
  have l: "length rs \<le> length (ss_sessions st) \<and> (\<exists>sel. subseq sel (ss_sessions st) \<and> list_all2 (\<lambda>r r'. kin r r') sel rs)"
    by (rule session_pass_step [where G = "\<lambda>_. True" and P = "\<lambda>r r' out. kin r r'", OF _ _ _ _ _ 1]) (auto dest: remove_kept assms(3))
  then obtain sel where sel: "subseq sel (ss_sessions st)" "list_all2 kin sel rs" by blast
  have "map session_key rs = map session_key sel" using sel(2) by (induction rule: list_all2_induct) (simp_all add: kin_key)
  moreover have "distinct (map session_key sel)"
    using assms(2) subseq_map [OF sel(1), of session_key] subseq_distinct by (auto simp: sessions_ok_def)
  ultimately show ?thesis using assms(1,2) l 1 by (auto simp: sessions_ok_def pass_state_def)
qed

lemma map_ok:
  assumes "sessions_ok st" "\<And>r. kin r (f r)"
  shows "sessions_ok (st\<lparr>ss_sessions := map f (ss_sessions st)\<rparr>)"
proof -
  have "session_key \<circ> f = session_key" using kin_key [OF assms(2)] by (simp add: comp_def)
  with assms(1) show ?thesis by (simp add: sessions_ok_def)
qed

lemma execute_ok:
  assumes "rr_relay_execute base64 w fresh alloc t1 t2 block origin uuid user d st = (st', out)" "sessions_ok st"
  shows "sessions_ok st'"
proof -
  obtain i st1 where o: "owner_session w fresh origin uuid user st = (i, st1)" by (metis prod.exhaust)
  have ok: "sessions_ok st1"
    by (cases rule: owner_session_cases [of w fresh origin uuid user st])
      (use o assms(2) in \<open>auto simp: sessions_ok_def session_key_def new_session_def\<close>)
  have len: "\<And>k. i = Some k \<Longrightarrow> k < length (ss_sessions st1)"
    by (cases rule: owner_session_cases [of w fresh origin uuid user st]) (use o in auto)
  note x = assms(1) [unfolded rr_relay_execute_def o Let_def prod.case]
  show ?thesis
  proof (cases "st' = st1")
    case False
    then obtain k where k: "i = Some k" using x by (cases i) (auto simp: refused_def)
    obtain room where "execute_admitted base64 w alloc t1 t2 block room d k st1 = (st', out)" using x False by (auto simp: k split: if_splits)
    from execute_admitted_sessions [OF this] len [OF k] obtain r' where
      r': "ss_sessions st' = (ss_sessions st1)[k := r']" "ss_count st' = ss_count st1" "kin (ss_sessions st1 ! k) r'"
      by (auto simp: executed_ok_def)
    have "map session_key ((ss_sessions st1)[k := r']) = map session_key (ss_sessions st1)"
      using len [OF k] kin_key [OF r'(3)] by (simp add: map_update list_update_same_conv)
    with ok r' show ?thesis by (simp add: sessions_ok_def)
  qed (use ok in simp)
qed

text \<open>
  C34. The table of remote sessions stays sound over every run: its counter is exact, it holds at
  most 128 sessions, and one for each session of each server.
\<close>

theorem relay_sessions_bounded:
  assumes "sessions_run base64 h no_sessions = (st, acts)"
  shows "ss_count st = length (ss_sessions st) \<and> length (ss_sessions st) \<le> 128 \<and> distinct (map session_key (ss_sessions st))"
proof -
  have "sessions_run base64 h no_sessions = (st, acts) \<Longrightarrow> sessions_ok st" for st acts
  proof (induction h arbitrary: st acts rule: rev_induct)
    case Nil
    then show ?case by (auto simp: sessions_ok_def no_sessions_def MAX_RELAY_SESSIONS_def)
  next
    case (snoc x xs)
    obtain w e where x: "x = (w, e)" by (metis prod.exhaust)
    obtain st1 acts1 where 1: "sessions_run base64 xs no_sessions = (st1, acts1)" by (metis prod.exhaust)
    obtain st2 out where 2: "session_step base64 (w, e) st1 = (st2, out)" by (metis prod.exhaust)
    have st: "st = st2" using snoc.prems by (simp add: sessions_run_snoc 1 x 2)
    note ok = snoc.IH [OF 1]
    show ?case
    proof (cases e)
      case S_poll
      with 2 have "poll_sessions w st1 = (st2, out)" by simp
      from pass_ok [OF this [unfolded poll_sessions_def] ok] retry_kept show ?thesis unfolding st by blast
    next
      case S_lost
      with 2 have "lost_sessions w st1 = (st2, out)" by simp
      from pass_ok [OF this [unfolded lost_sessions_def] ok] show ?thesis unfolding st by simp
    next
      case (S_close origin uuid)
      with 2 have "close_sessions w origin uuid st1 = (st2, out)" by simp
      from pass_ok [OF this [unfolded close_sessions_def] ok] show ?thesis unfolding st by simp
    next
      case (S_frame c data)
      have "kin r (if rs_handle r = c then rr_relay_proxy_tx_frame w data r else r)" for r
        by (simp add: kin_def rr_relay_proxy_tx_frame_def split: option.split)
      with map_ok [OF ok] 2 S_frame show ?thesis by (auto simp: st each_session_def)
    next
      case (S_connection c client)
      have "kin r (if rs_handle r = c then r\<lparr>rs_client := client\<rparr> else r)" for r by (simp add: kin_def)
      with map_ok [OF ok] 2 S_connection show ?thesis by (auto simp: st each_session_def)
    next
      case (S_channel_removed i)
      have "kin r (rr_relay_media_removed i r)" for r by (simp add: kin_def rr_relay_media_removed_def)
      with map_ok [OF ok] 2 S_channel_removed show ?thesis by (auto simp: st)
    qed (use 2 execute_ok ok in \<open>auto simp: st\<close>)
  qed
  from this [OF assms] show ?thesis by (simp add: sessions_ok_def MAX_RELAY_SESSIONS_def)
qed

section \<open>Samples\<close>

definition sample_origin :: string where
  "sample_origin = replicate 36 CHR ''1''"

definition sample_uuid :: string where
  "sample_uuid = replicate 36 CHR ''2''"

definition sample_world :: "nat \<Rightarrow> relay_world" where
  "sample_world t = \<lparr>rw_relay = demo_relay_env,
     rw_catalogs = [\<lparr>ct_owner = sample_origin, ct_key = sample_origin, ct_descriptor = [(''object.type'', ''node''), (''object.alias'', ''camp'')], ct_seen = True\<rparr>,
       \<lparr>ct_owner = replicate 36 CHR ''0'', ct_key = ''room:#rig'', ct_descriptor = [], ct_seen = True\<rparr>],
     rw_io = (\<lambda>_ _. sample_grants_io), rw_db = Some sample_grants, rw_now = 150, rw_mono = t, rw_site = Some ''home'', rw_next_hop_only = False,
     rw_rig = (\<lambda>room. if room = ''#rig'' then Some (''u1'', None) else None), rw_room_uuid = (\<lambda>_. None),
     rw_channels = [\<lparr>mc_uuid = ''m'', mc_room = ''#rig'', mc_rig = ''u1'', mc_subsystem = 1, mc_direction = 1\<rparr>],
     rw_direct = (sample_direct_env False t)\<lparr>de_release := (\<lambda>_ cn. cn\<lparr>cn_ptt := False\<rparr>)\<rparr>,
     rw_supervision = (\<lparr>se_now = 150, se_conn = sample_conn, se_live = [7], se_idle = 60, se_home_room = [], se_all_off = (\<lambda>conns. conns)\<rparr>, []),
     rw_ip_valid = (\<lambda>_. True), rw_wire = (\<lambda>_. True),
     rw_process = (\<lambda>_ d client. if dict_get d ''msg.type'' '''' = ''cat''
       then (True, client\<lparr>rc_conn := (rc_conn client)\<lparr>cn_ptt := True, cn_ptt_room := ''#rig''\<rparr>\<rparr>) else (True, client\<lparr>rc_tx := [1]\<rparr>)),
     rw_administer = (\<lambda>_ _ client. client), rw_member = (\<lambda>_ _. True), rw_session_closed = (\<lambda>_ cn. cn), rw_room_info = (\<lambda>_. []),
     rw_room_rig_base = (\<lambda>_. False), rw_room_tx_control = (\<lambda>_. True), rw_room_status = (\<lambda>_. None), rw_max_name = 16, rw_token = 37,
     rw_ip_size = 46, rw_codecs_size = 256\<rparr>"

definition sample_request :: "dict \<Rightarrow> session_event" where
  "sample_request d = S_request (Some 7) True 0 0 None sample_origin sample_uuid (Some ''alice'') d"

definition sample_subscribe :: "relay_world \<times> session_event" where
  "sample_subscribe = (sample_world 1000000,
     sample_request [(''msg.type'', ''media''), (''media.cmd'', ''subscribe''), (''media.room'', ''#rig''), (''media.chan-uuid'', ''m'')])"

definition sample_ptt :: dict where
  "sample_ptt = [(''msg.type'', ''cat''), (''cat.cmd'', ''ptt''), (''cat.ptt'', ''true''), (''cat.room'', ''#rig'')]"

definition sample_subscribed :: relay_sessions where
  "sample_subscribed = fst (sessions_run demo_base64 [sample_subscribe] no_sessions)"

definition sample_admitted :: "relay_sessions \<times> session_effect list" where
  "sample_admitted = rr_relay_execute demo_base64 (sample_world 2000000) (Some 7) True 0 0 None sample_origin sample_uuid (Some ''alice'') sample_ptt sample_subscribed"

definition sample_keyed :: "(relay_world \<times> session_event) list" where
  "sample_keyed = [sample_subscribe, (sample_world 2000000, sample_request sample_ptt)]"

text \<open>Keyed at two seconds and never heard: still keyed at four, released at five.\<close>

definition still_keyed :: "relay_sessions \<Rightarrow> nat \<Rightarrow> bool" where
  "still_keyed st t = (case poll_sessions (sample_world t) st of
     (st, out) \<Rightarrow> (case ss_sessions st of [r] \<Rightarrow> cn_ptt (rs_conn r) \<and> out = [] | _ \<Rightarrow> False))"

lemma sample_admitted_ptt: "Processed 7 sample_ptt \<in> set (snd sample_admitted)"
  by code_simp

lemma sample_polled:
  "case sessions_run demo_base64 sample_keyed no_sessions of (st, acts) \<Rightarrow> length (ss_sessions st) = 1 \<and> still_keyed st 4000000 \<and> \<not> still_keyed st 5000000"
  by code_simp

lemma relay_sessions_bounded_witness:
  "length (ss_sessions (fst (sessions_run demo_base64 sample_keyed no_sessions))) = 1 \<and>
   ss_count (fst (sessions_run demo_base64 sample_keyed no_sessions)) = 1"
proof -
  obtain st acts where r: "sessions_run demo_base64 sample_keyed no_sessions = (st, acts)" by (metis prod.exhaust)
  have "length (ss_sessions st) = 1" using sample_polled by (auto simp: r)
  with relay_sessions_bounded [OF r] r show ?thesis by simp
qed

lemma remote_transmission_live_witness:
  "\<exists>st acts st' r'. sessions_run demo_base64 sample_keyed no_sessions = (st, acts) \<and> poll_sessions (sample_world 4000000) st = (st', []) \<and>
     r' \<in> set (ss_sessions st') \<and> cn_ptt (rs_conn r') \<and>
     ((\<exists>r \<in> set (ss_sessions st). kin r r' \<and> rs_client r' = rs_client r) \<or> (\<exists>t. 4000000 < t + 1000000 \<and> (t, Release (rs_handle r')) \<in> set acts))"
proof -
  obtain st acts where r: "sessions_run demo_base64 sample_keyed no_sessions = (st, acts)" by (metis prod.exhaust)
  obtain st' out where p: "poll_sessions (sample_world 4000000) st = (st', out)" by (metis prod.exhaust)
  from sample_polled have "still_keyed st 4000000" by (simp add: r)
  then obtain r' where k: "ss_sessions st' = [r']" "cn_ptt (rs_conn r')" "out = []" by (auto simp: still_keyed_def p split: list.splits)
  have "rw_mono (sample_world 4000000) = 4000000" by (simp add: sample_world_def)
  with remote_transmission_live [OF r p, of r'] k r p show ?thesis
    by (intro exI [of _ st] exI [of _ acts] exI [of _ st'] exI [of _ r']) auto
qed

lemma remote_request_admitted_witness:
  "Processed 7 sample_ptt \<in> set (snd sample_admitted) \<and>
   (\<exists>u room. room_granted (sample_world 2000000) u ''camp'' room \<and> owned_room (sample_world 2000000) (Some room))"
proof -
  obtain st out where x: "sample_admitted = (st, out)" by (metis prod.exhaust)
  have order: "set (io_order (rw_io (sample_world 2000000) kind right) es) = set es" for kind right es
    by (simp add: sample_world_def sample_grants_io_def)
  from sample_admitted_ptt have p: "Processed 7 sample_ptt \<in> set out" by (simp add: x)
  have "rrserver_relay_client_server (sample_world 2000000) r = ''camp''" if "rs_origin r = sample_origin" for r
    using that by (simp add: rrserver_relay_client_server_def sample_world_def dict_get_def)
  with remote_request_admitted [OF order x [unfolded sample_admitted_def] p] sample_admitted_ptt show ?thesis by fastforce
qed

end
