(* ===== verification/SerialExports.thy ===== *)
theory SerialExports
  imports Supervision Dict "HOL-Library.Multiset"
begin

text \<open>
  Exported serial devices (\<^verbatim>\<open>rrserver/serial.c\<close>): who may open one, the stream of bytes between the
  client and the device, software modems, and the lines of GPS receivers.

  \<open>serial\<close> is the array of exports with the table of stream identifiers of each connection. A client is
  the number of its connection (\<open>conn\<close> of \<open>Supervision\<close>), a file descriptor stands for the device it was
  opened on. \<open>serial_env\<close> is what an event finds: accounts, clock, devices, memory, and what the kernel and
  the transport answer. \<open>serial_request\<close> is what the accessors of the typed dictionary say of a message.
\<close>

section \<open>State\<close>

definition SERIAL_PORTS_MAX :: nat where "SERIAL_PORTS_MAX = 32"
definition SERIAL_STREAMS_MAX :: nat where "SERIAL_STREAMS_MAX = 256"

record serial_settings =
  ss_baud :: int
  ss_bits :: nat
  ss_parity :: char
  ss_stops :: nat

record serial_export =
  sx_name :: string
  sx_path :: string
  sx_client_name :: string
  sx_command :: string
  sx_service :: nat
  sx_auto :: bool
  sx_modem :: bool
  sx_retry_at :: int
  sx_failures :: nat
  sx_limit :: nat
  sx_buffer :: string
  sx_settings :: serial_settings
  sx_defaults :: serial_settings
  sx_owner :: "nat option"
  sx_fd :: "nat option"
  sx_stream :: nat
  sx_tx_seq :: "32 word"
  sx_rx_seq :: "32 word"
  sx_rx_pending :: bool
  sx_close_pending :: bool
  sx_pending :: string
  sx_offset :: nat
  sx_scope :: string
  sx_nmea :: bool
  sx_line :: string
  sx_dropping :: bool

text \<open>\<open>sl_sessions\<close> holds the stream identifiers issued on each connection, the newest connection first.\<close>

record serial =
  sl_exports :: "serial_export list"
  sl_sessions :: "(nat \<times> nat list) list"

datatype baud_field = Baud_absent | Baud_text string | Baud_number "int option" | Baud_other

record serial_request =
  rq_cmd :: string
  rq_name :: string
  rq_port :: cstr
  rq_has_path :: bool
  rq_stream :: "nat option option"
  rq_seq :: "32 word option option"
  rq_mode :: cstr
  rq_baud :: baud_field

datatype write_result = Wrote nat | Write_again | Write_failed
datatype read_result = Got string | Eof | Read_again | Read_failed

record serial_env =
  sv_now :: int
  sv_mono :: int
  sv_conn :: "nat \<Rightarrow> conn"
  sv_priv :: "int \<Rightarrow> string \<Rightarrow> bool"
  sv_enable :: bool
  sv_auto_export :: bool
  sv_chr :: "string \<Rightarrow> bool"
  sv_dev :: "string list option"
  sv_stat :: "string \<Rightarrow> nat option"
  sv_fstat :: "nat \<Rightarrow> nat option"
  sv_mode :: "string \<Rightarrow> serial_settings \<Rightarrow> serial_settings option"
  sv_apply :: "nat \<Rightarrow> serial_settings \<Rightarrow> bool"
  sv_open :: "string \<Rightarrow> serial_settings \<Rightarrow> nat option"
  sv_spawn :: "string \<Rightarrow> nat option"
  sv_malloc :: bool
  sv_calloc :: bool
  sv_frame :: "string \<Rightarrow> (nat \<times> 32 word \<times> string) option"
  sv_write :: "nat \<Rightarrow> string \<Rightarrow> write_result"
  sv_read :: "nat \<Rightarrow> nat \<Rightarrow> read_result"
  sv_block :: nat
  sv_can_send :: "nat \<Rightarrow> bool"
  sv_packet :: "string \<Rightarrow> bool"
  sv_send :: "nat \<Rightarrow> string \<Rightarrow> bool"
  sv_public_scope :: "string \<Rightarrow> string"
  sv_nmea_valid :: "string \<Rightarrow> bool"

datatype serial_effect =
    Reply nat string string "(string \<times> nat \<times> 32 word) option" cstr
  | Started string nat nat
  | Taken string "32 word" string
  | Device_wrote string string
  | Written string "32 word"
  | Device_read string string
  | Packet string nat nat "32 word" string
  | Acknowledged string "32 word"
  | Closed_port string
  | Discarded string string
  | Worker_stopped string
  | Gps_sentence string string

section \<open>Ports\<close>

definition allowed :: "serial_env \<Rightarrow> nat \<Rightarrow> serial_export \<Rightarrow> bool" where
  "allowed env c p \<longleftrightarrow> (let cn = sv_conn env c in
     cn_authenticated cn \<and> cn_user cn \<and> \<not> cn_password_change cn \<and> \<not> (0 < cn_password_expires cn \<and> cn_password_expires cn \<le> sv_now env) \<and>
     sv_enable env \<and> (sv_priv env (cn_uid cn) ''serial'' \<or> sv_priv env (cn_uid cn) (''serial.'' @ sx_name p)))"

text \<open>\<open>ws_send_dict\<close> of a reply: the command, the name, and of the port its name, stream and sequence number.\<close>

definition reply_port :: "string \<Rightarrow> serial_export \<Rightarrow> (string \<times> nat \<times> 32 word) option" where
  "reply_port cmd p = Some (sx_name p, sx_stream p, if cmd = ''written'' then sx_tx_seq p else sx_rx_seq p)"

definition reply :: "nat \<Rightarrow> string \<Rightarrow> string \<Rightarrow> serial_export \<Rightarrow> cstr \<Rightarrow> serial_effect" where
  "reply c cmd name p err = Reply c cmd name (reply_port cmd p) err"

definition refuse :: "nat \<Rightarrow> string \<Rightarrow> string \<Rightarrow> serial_effect" where
  "refuse c name err = Reply c ''error'' name None (Some err)"

definition close_port :: "serial_export \<Rightarrow> serial_export" where
  "close_port p = p\<lparr>sx_buffer := [], sx_fd := (if sx_modem p then sx_fd p else None), sx_owner := None, sx_stream := 0, sx_client_name := [],
     sx_pending := [], sx_offset := 0, sx_rx_pending := False, sx_close_pending := False, sx_settings := sx_defaults p\<rparr>"

definition modem_failed :: "serial_env \<Rightarrow> serial_export \<Rightarrow> serial_export \<times> serial_effect list" where
  "modem_failed env p =
     (if \<not> sx_modem p then (p, [])
      else (p\<lparr>sx_fd := None, sx_failures := (if sx_failures p < 5 then sx_failures p + 1 else sx_failures p),
              sx_retry_at := sv_mono env + 2 ^ min (sx_failures p) 5 * 1000000\<rparr>, [Worker_stopped (sx_name p)]))"

definition modem_ensure_running :: "serial_env \<Rightarrow> serial_export \<Rightarrow> serial_export \<times> serial_effect list" where
  "modem_ensure_running env p =
     (if \<not> sx_modem p \<or> sx_fd p \<noteq> None \<or> sv_mono env < sx_retry_at p then (p, [])
      else case sv_spawn env (sx_command p) of
        Some fd \<Rightarrow> (p\<lparr>sx_fd := Some fd, sx_retry_at := 0, sx_failures := 0\<rparr>, [])
      | None \<Rightarrow> modem_failed env p)"

section \<open>Discovery of USB devices\<close>

definition all_digits :: "string \<Rightarrow> bool" where
  "all_digits s \<longleftrightarrow> s \<noteq> [] \<and> list_all is_digit s"

definition serial_auto_name :: "string \<Rightarrow> bool" where
  "serial_auto_name name \<longleftrightarrow> (take 6 name = ''ttyUSB'' \<or> take 6 name = ''ttyACM'') \<and> all_digits (drop 6 name)"

definition gone :: "serial_env \<Rightarrow> serial_export \<Rightarrow> bool" where
  "gone env p \<longleftrightarrow> sx_auto p \<and> sx_owner p = None \<and> \<not> sv_chr env (sx_path p)"

text \<open>A removed export is replaced by the last, and the same position looked at again.\<close>

function drop_gone :: "serial_env \<Rightarrow> nat \<Rightarrow> serial_export list \<Rightarrow> serial_export list" where
  "drop_gone env i ps =
     (if length ps \<le> i then ps
      else if gone env (ps ! i) then drop_gone env i (butlast (ps[i := last ps]))
      else drop_gone env (i + 1) ps)"
  by auto
termination by (relation "measure (\<lambda>(env, i, ps). length ps - i)") auto

declare drop_gone.simps [simp del]

definition usb_export :: "string \<Rightarrow> serial_export" where
  "usb_export name = (let settings = \<lparr>ss_baud = 9600, ss_bits = 8, ss_parity = CHR ''n'', ss_stops = 1\<rparr> in
     \<lparr>sx_name = snprintf_s 64 name, sx_path = snprintf_s 4096 (''/dev/'' @ name), sx_client_name = [], sx_command = [], sx_service = 0, sx_auto = True,
      sx_modem = False, sx_retry_at = 0, sx_failures = 0, sx_limit = 16384, sx_buffer = [], sx_settings = settings, sx_defaults = settings,
      sx_owner = None, sx_fd = None, sx_stream = 0, sx_tx_seq = 0, sx_rx_seq = 0, sx_rx_pending = False, sx_close_pending = False,
      sx_pending = [], sx_offset = 0, sx_scope = [], sx_nmea = False, sx_line = [], sx_dropping = False\<rparr>)"

fun add_usb :: "serial_env \<Rightarrow> string list \<Rightarrow> serial_export list \<Rightarrow> serial_export list" where
  "add_usb env [] ps = ps"
| "add_usb env (name # names) ps =
     (if SERIAL_PORTS_MAX \<le> length ps then ps
      else if \<not> serial_auto_name name \<or> list_ex (\<lambda>p. sx_name p = name) ps \<or> \<not> sv_chr env (snprintf_s 4096 (''/dev/'' @ name)) then add_usb env names ps
      else add_usb env names (ps @ [usb_export name]))"

definition serial_discover_usb :: "serial_env \<Rightarrow> serial_export list \<Rightarrow> serial_export list" where
  "serial_discover_usb env ps =
     (if \<not> sv_auto_export env then ps
      else let ps = drop_gone env 0 ps in case sv_dev env of None \<Rightarrow> ps | Some names \<Rightarrow> add_usb env names ps)"

section \<open>Requests\<close>

text \<open>\<open>strtol\<close> sets \<open>errno\<close> only outside 64 bits, which is out of range here as well.\<close>

definition baud_value :: "baud_field \<Rightarrow> int option" where
  "baud_value b = (case b of
     Baud_text s \<Rightarrow> (case c_strtoll s of (v, rest) \<Rightarrow> if s = [] \<or> rest \<noteq> [] then None else Some v)
   | Baud_number v \<Rightarrow> v
   | _ \<Rightarrow> None)"

definition settings_from :: "serial_env \<Rightarrow> serial_request \<Rightarrow> serial_settings \<Rightarrow> serial_settings option" where
  "settings_from env rq s =
     (case (case rq_mode rq of None \<Rightarrow> Some s | Some mode \<Rightarrow> sv_mode env mode s) of
        None \<Rightarrow> None
      | Some proposed \<Rightarrow>
          if rq_baud rq = Baud_absent then Some proposed
          else case baud_value (rq_baud rq) of
            None \<Rightarrow> None
          | Some v \<Rightarrow> if v < 0 \<or> 921600 < v then None else Some (proposed\<lparr>ss_baud := v\<rparr>))"

fun issue :: "nat \<Rightarrow> nat \<Rightarrow> (nat \<times> nat list) list \<Rightarrow> (nat \<times> nat list) list" where
  "issue c k [] = []"
| "issue c k ((c', ids) # ss) = (if c' = c then (c', k # ids) # ss else (c', ids) # issue c k ss)"

definition issued_ids :: "(nat \<times> nat list) list \<Rightarrow> nat \<Rightarrow> nat list" where
  "issued_ids ss c = (case map_of ss c of None \<Rightarrow> [] | Some ids \<Rightarrow> ids)"

definition allocate_stream :: "serial_env \<Rightarrow> nat \<Rightarrow> (nat \<times> nat list) list \<Rightarrow> nat \<times> (nat \<times> nat list) list" where
  "allocate_stream env c ss =
     (if map_of ss c = None \<and> \<not> sv_calloc env then (0, ss)
      else let ss = (if map_of ss c = None then (c, []) # ss else ss) in
        case List.find (\<lambda>k. k \<notin> set (issued_ids ss c)) [1..<SERIAL_STREAMS_MAX] of
          None \<Rightarrow> (0, ss)
        | Some k \<Rightarrow> (k, issue c k ss))"

definition owned :: "nat \<Rightarrow> string \<Rightarrow> serial_export list \<Rightarrow> nat option" where
  "owned c name ps = find_idx (\<lambda>p. sx_owner p = Some c \<and> sx_client_name p = name) ps"

definition malformed :: "serial_request \<Rightarrow> bool" where
  "malformed rq \<longleftrightarrow> (case rq_stream rq of None \<Rightarrow> False | Some None \<Rightarrow> True | Some (Some v) \<Rightarrow> SERIAL_STREAMS_MAX \<le> v) \<or> rq_seq rq = Some None"

definition stream_field :: "serial_request \<Rightarrow> nat" where
  "stream_field rq = (case rq_stream rq of Some (Some v) \<Rightarrow> v | _ \<Rightarrow> 0)"

definition seq_field :: "serial_request \<Rightarrow> 32 word" where
  "seq_field rq = (case rq_seq rq of Some (Some v) \<Rightarrow> v | _ \<Rightarrow> 0)"

definition device_busy :: "serial_env \<Rightarrow> serial_export \<Rightarrow> serial_export list \<Rightarrow> bool" where
  "device_busy env p ps \<longleftrightarrow> \<not> sx_modem p \<and> (case sv_stat env (sx_path p) of None \<Rightarrow> False
     | Some dev \<Rightarrow> list_ex (\<lambda>q. sx_owner q \<noteq> None \<and> (case sx_fd q of None \<Rightarrow> False | Some fd \<Rightarrow> sv_fstat env fd = Some dev)) ps)"

definition open_device :: "serial_env \<Rightarrow> serial_settings \<Rightarrow> serial_export \<Rightarrow> serial_export \<times> serial_effect list" where
  "open_device env proposed p =
     (if sx_modem p then modem_ensure_running env p else (p\<lparr>sx_fd := sv_open env (sx_path p) proposed\<rparr>, []))"

definition serial_list :: "serial_env \<Rightarrow> nat \<Rightarrow> serial_export list \<Rightarrow> serial_effect list" where
  "serial_list env c ps =
     map (\<lambda>p. reply c ''available'' (sx_name p) p None) (filter (\<lambda>p. sx_service p = 0 \<and> allowed env c p) ps) @ [Reply c ''list-end'' [] None None]"

definition serial_opened :: "nat \<Rightarrow> string \<Rightarrow> nat \<Rightarrow> serial_settings \<Rightarrow> serial_export \<Rightarrow> serial_export" where
  "serial_opened c name stream proposed p =
     p\<lparr>sx_settings := proposed, sx_owner := Some c, sx_stream := stream, sx_tx_seq := 0, sx_rx_seq := 0, sx_client_name := snprintf_s 64 name\<rparr>"

definition open_port :: "serial_env \<Rightarrow> nat \<Rightarrow> string \<Rightarrow> serial_settings \<Rightarrow> nat \<Rightarrow> serial \<Rightarrow> serial \<times> serial_effect list" where
  "open_port env c name proposed i st =
     (let (p, out) = open_device env proposed (sl_exports st ! i) in
      if sx_fd p = None then (st\<lparr>sl_exports := (sl_exports st)[i := p]\<rparr>, out @ [refuse c name ''device-open-failed''])
      else let (stream, ss) = allocate_stream env c (sl_sessions st) in
        if stream = 0
        then (st\<lparr>sl_exports := (sl_exports st)[i := close_port p], sl_sessions := ss\<rparr>, out @ [Closed_port (sx_name p), refuse c name ''stream-limit-reconnect''])
        else let p = serial_opened c name stream proposed p in
          (st\<lparr>sl_exports := (sl_exports st)[i := p], sl_sessions := ss\<rparr>, out @ [Started (sx_name p) c stream, reply c ''opened'' name p None]))"

definition serial_open :: "serial_env \<Rightarrow> nat \<Rightarrow> serial_request \<Rightarrow> serial \<Rightarrow> serial \<times> serial_effect list" where
  "serial_open env c rq st =
     (let name = rq_name rq; ps = sl_exports st in
      if name = [] \<or> 64 \<le> length name \<or> rq_has_path rq \<or> rq_port rq = None \<or> rq_port rq = Some [] \<or> CHR ''/'' \<in> set (the (rq_port rq))
      then (st, [refuse c name ''invalid-request''])
      else let port = the (rq_port rq) in
        case owned c name ps of
          Some i \<Rightarrow> (st, [if \<not> allowed env c (ps ! i) \<or> sx_name (ps ! i) \<noteq> port then refuse c name ''forbidden-device'' else reply c ''opened'' name (ps ! i) None])
        | None \<Rightarrow>
            (case find_idx (\<lambda>p. sx_service p = 0 \<and> sx_name p = port) ps of
               None \<Rightarrow> (st, [refuse c name ''not-found''])
             | Some i \<Rightarrow>
                 if \<not> allowed env c (ps ! i) then (st, [refuse c name ''forbidden-device''])
                 else if sx_owner (ps ! i) \<noteq> None \<or> device_busy env (ps ! i) ps then (st, [refuse c name ''device-busy''])
                 else case settings_from env rq (sx_settings (ps ! i)) of
                   None \<Rightarrow> (st, [refuse c name ''invalid-settings''])
                 | Some proposed \<Rightarrow>
                     if \<not> sv_malloc env then (st, [refuse c name ''no-buffer-memory''])
                     else open_port env c name proposed i st))"

definition put_port :: "nat \<Rightarrow> serial_export \<Rightarrow> serial \<Rightarrow> serial" where
  "put_port i p st = st\<lparr>sl_exports := (sl_exports st)[i := p]\<rparr>"

definition serial_command :: "serial_env \<Rightarrow> nat \<Rightarrow> serial_request \<Rightarrow> nat \<Rightarrow> serial \<Rightarrow> serial \<times> serial_effect list" where
  "serial_command env c rq i st =
     (let p = sl_exports st ! i; name = rq_name rq in
      if rq_cmd rq = ''close'' then
        (if sx_pending p = [] then (put_port i (close_port p) st, [reply c ''closed'' name p None, Closed_port (sx_name p)])
         else (put_port i (p\<lparr>sx_close_pending := True\<rparr>) st, []))
      else if rq_cmd rq = ''configure'' then
        (if sx_modem p then (st, [reply c ''error'' name p (Some ''unsupported-settings'')])
         else case settings_from env rq (sx_settings p) of
           None \<Rightarrow> (st, [reply c ''error'' name p (Some ''settings-failed'')])
         | Some proposed \<Rightarrow>
             if sx_fd p = None \<or> \<not> sv_apply env (the (sx_fd p)) proposed then (st, [reply c ''error'' name p (Some ''settings-failed'')])
             else (put_port i (p\<lparr>sx_settings := proposed\<rparr>) st, [reply c ''configured'' name (p\<lparr>sx_settings := proposed\<rparr>) None]))
      else if rq_cmd rq = ''read'' then
        (if sx_rx_pending p \<and> seq_field rq = sx_rx_seq p then (put_port i (p\<lparr>sx_rx_pending := False\<rparr>) st, [Acknowledged (sx_name p) (sx_rx_seq p)]) else (st, []))
      else (st, [reply c ''error'' name p (Some ''unknown-command'')]))"

definition serial_request :: "serial_env \<Rightarrow> nat \<Rightarrow> serial_request \<Rightarrow> serial \<Rightarrow> serial \<times> serial_effect list" where
  "serial_request env c rq st =
     (if malformed rq then (st, [refuse c (rq_name rq) ''invalid-request''])
      else let st = (if rq_cmd rq = ''list'' \<or> rq_cmd rq = ''open'' then st\<lparr>sl_exports := serial_discover_usb env (sl_exports st)\<rparr> else st) in
      if rq_cmd rq = ''list'' then (st, serial_list env c (sl_exports st))
      else if rq_cmd rq = ''open'' then serial_open env c rq st
      else case owned c (rq_name rq) (sl_exports st) of
        None \<Rightarrow> (st, [refuse c (rq_name rq) ''not-open''])
      | Some i \<Rightarrow>
          if \<not> allowed env c (sl_exports st ! i) then (st, [refuse c (rq_name rq) ''not-open''])
          else if stream_field rq \<noteq> 0 \<and> stream_field rq \<noteq> sx_stream (sl_exports st ! i) then (st, [])
          else serial_command env c rq i st)"

section \<open>Frames and the end of a connection\<close>

definition frame_port :: "serial_env \<Rightarrow> nat \<Rightarrow> nat \<Rightarrow> serial_export \<Rightarrow> bool" where
  "frame_port env c stream p \<longleftrightarrow> sx_service p = 0 \<and> sx_owner p = Some c \<and> sx_stream p = stream \<and> allowed env c p"

definition serial_frame :: "serial_env \<Rightarrow> nat \<Rightarrow> string \<Rightarrow> serial \<Rightarrow> serial \<times> serial_effect list" where
  "serial_frame env c bytes st =
     (case sv_frame env bytes of
        None \<Rightarrow> (st, [])
      | Some (stream, seq, data) \<Rightarrow>
          (case find_idx (frame_port env c stream) (sl_exports st) of
             None \<Rightarrow> (st, [])
           | Some i \<Rightarrow>
               let p = sl_exports st ! i in
               if sx_pending p \<noteq> [] \<or> seq \<noteq> sx_tx_seq p + 1
               then (put_port i (close_port p) st, [reply c ''error'' (sx_client_name p) p (Some ''invalid-sequence''), Closed_port (sx_name p)])
               else (put_port i (p\<lparr>sx_pending := data, sx_offset := 0, sx_tx_seq := seq\<rparr>) st, [Taken (sx_name p) seq data])))"

definition serial_closed :: "nat \<Rightarrow> serial \<Rightarrow> serial \<times> serial_effect list" where
  "serial_closed c st =
     (\<lparr>sl_exports = map (\<lambda>p. if sx_owner p = Some c then close_port p else p) (sl_exports st),
       sl_sessions = filter (\<lambda>s. fst s \<noteq> c) (sl_sessions st)\<rparr>,
      map (\<lambda>p. Closed_port (sx_name p)) (filter (\<lambda>p. sx_owner p = Some c) (sl_exports st)))"

section \<open>GPS services\<close>

definition gps_char :: "char \<Rightarrow> serial_env \<Rightarrow> serial_export \<Rightarrow> serial_export \<times> serial_effect list" where
  "gps_char ch env p =
     (if ch = CHR 13 \<or> ch = CHR 10 then
        (p\<lparr>sx_line := [], sx_dropping := False\<rparr>,
         if \<not> sx_dropping p \<and> sx_line p \<noteq> [] \<and> sv_nmea_valid env (sx_line p) then [Gps_sentence (sx_scope p) (sx_line p)] else [])
      else if chr_ord ch < 32 \<or> 126 < chr_ord ch then (p\<lparr>sx_dropping := True, sx_line := []\<rparr>, [])
      else if sx_dropping p then (p, [])
      else if 512 \<le> length (sx_line p) + 1 then (p\<lparr>sx_dropping := True, sx_line := []\<rparr>, [])
      else (p\<lparr>sx_line := sx_line p @ [ch]\<rparr>, []))"

fun gps_input :: "serial_env \<Rightarrow> string \<Rightarrow> serial_export \<Rightarrow> serial_export \<times> serial_effect list" where
  "gps_input env [] p = (p, [])"
| "gps_input env (ch # s) p = (let (p, out) = gps_char ch env p; (p, out') = gps_input env s p in (p, out @ out'))"

text \<open>\<open>gps_output\<close>: a sentence of a source for the outputs of its scope; \<open>raw\<close> as received, otherwise made of a position.\<close>

definition gps_put :: "serial_env \<Rightarrow> bool \<Rightarrow> string \<Rightarrow> string \<Rightarrow> bool \<Rightarrow> serial_export \<Rightarrow> serial_export" where
  "gps_put env raw scope sentence fixed p =
     (if sx_service p \<noteq> 2 \<or> sx_fd p = None \<or> sv_public_scope env (sx_scope p) \<noteq> scope then p
      else if (if raw then \<not> sx_nmea p else sx_nmea p \<and> \<not> fixed) then p
      else if sx_limit p - length (sx_buffer p) < length sentence + 2 then p
      else p\<lparr>sx_buffer := sx_buffer p @ sentence @ [CHR 13, CHR 10]\<rparr>)"

definition gps_output :: "serial_env \<Rightarrow> bool \<Rightarrow> string \<Rightarrow> string \<Rightarrow> bool \<Rightarrow> serial \<Rightarrow> serial" where
  "gps_output env raw scope sentence fixed st =
     (if (raw \<and> 512 \<le> length sentence) \<or> sentence = [] \<or> \<not> sv_nmea_valid env sentence then st
      else st\<lparr>sl_exports := map (gps_put env raw scope sentence fixed) (sl_exports st)\<rparr>)"

section \<open>The poll\<close>

definition port_write :: "serial_env \<Rightarrow> serial_export \<Rightarrow> string \<Rightarrow> write_result" where
  "port_write env p bytes = (case sx_fd p of None \<Rightarrow> Write_failed | Some fd \<Rightarrow> sv_write env fd bytes)"

definition port_read :: "serial_env \<Rightarrow> serial_export \<Rightarrow> nat \<Rightarrow> read_result" where
  "port_read env p room = (case sx_fd p of None \<Rightarrow> Read_failed | Some fd \<Rightarrow> sv_read env fd room)"

definition poll_service :: "serial_env \<Rightarrow> serial_export \<Rightarrow> serial_export \<times> serial_effect list" where
  "poll_service env p =
     (if sx_fd p = None then (p, [])
      else if sx_service p = 2 \<and> sx_buffer p \<noteq> [] then
        (case port_write env p (sx_buffer p) of
           Wrote n \<Rightarrow> (p\<lparr>sx_buffer := drop n (sx_buffer p)\<rparr>, [Device_wrote (sx_name p) (take n (sx_buffer p))])
         | Write_again \<Rightarrow> (p, [])
         | Write_failed \<Rightarrow> (close_port p, [Closed_port (sx_name p)]))
      else if sx_service p = 1 then
        (case port_read env p 512 of
           Got bytes \<Rightarrow> if bytes = [] then (close_port p, [Closed_port (sx_name p)]) else gps_input env bytes p
         | Read_again \<Rightarrow> (p, [])
         | _ \<Rightarrow> (close_port p, [Closed_port (sx_name p)]))
      else (p, []))"

text \<open>The steps for an owned port: each says whether the rest of the turn runs, is skipped, or the device is lost.\<close>

datatype turn = Go | Skip | Lost

definition turn_write :: "serial_env \<Rightarrow> nat \<Rightarrow> serial_export \<Rightarrow> serial_export \<times> turn \<times> serial_effect list" where
  "turn_write env c p =
     (if sx_pending p = [] then (p, Go, [])
      else case port_write env p (drop (sx_offset p) (sx_pending p)) of
        Wrote n \<Rightarrow>
          if n = 0 then (p, Go, [])
          else let out = [Device_wrote (sx_name p) (take n (drop (sx_offset p) (sx_pending p)))]; p = p\<lparr>sx_offset := sx_offset p + n\<rparr> in
            if sx_offset p \<noteq> length (sx_pending p) then (p, Go, out)
            else let p = p\<lparr>sx_pending := [], sx_offset := 0\<rparr>; out = out @ [reply c ''written'' (sx_client_name p) p None, Written (sx_name p) (sx_tx_seq p)] in
              if sx_close_pending p then (close_port p, Skip, out @ [reply c ''closed'' (sx_client_name p) p None, Closed_port (sx_name p)]) else (p, Go, out)
      | Write_again \<Rightarrow> (p, Go, [])
      | Write_failed \<Rightarrow> (p, Lost, []))"

definition turn_read :: "serial_env \<Rightarrow> serial_export \<Rightarrow> serial_export \<times> turn \<times> serial_effect list" where
  "turn_read env p =
     (if sx_limit p \<le> length (sx_buffer p) then (p, Go, [])
      else case port_read env p (min (sv_block env) (sx_limit p - length (sx_buffer p))) of
        Got bytes \<Rightarrow> if bytes = [] then (p, Lost, []) else (p\<lparr>sx_buffer := sx_buffer p @ bytes\<rparr>, Go, [Device_read (sx_name p) bytes])
      | Read_again \<Rightarrow> (p, Go, [])
      | _ \<Rightarrow> (p, Lost, []))"

definition turn_send :: "serial_env \<Rightarrow> nat \<Rightarrow> serial_export \<Rightarrow> serial_export \<times> turn \<times> serial_effect list" where
  "turn_send env c p =
     (if sx_rx_pending p \<or> sx_buffer p = [] \<or> \<not> sv_can_send env c then (p, Skip, [])
      else let n = min (sv_block env) (length (sx_buffer p)); data = take n (sx_buffer p); seq = sx_rx_seq p + 1 in
        if \<not> sv_packet env data then (p\<lparr>sx_rx_seq := seq\<rparr>, Lost, [])
        else if \<not> sv_send env c data then (p, Skip, [])
        else (p\<lparr>sx_rx_seq := seq, sx_rx_pending := True, sx_buffer := drop n (sx_buffer p)\<rparr>, Skip, [Packet (sx_name p) c (sx_stream p) seq data]))"

definition port_lost :: "serial_env \<Rightarrow> nat \<Rightarrow> serial_export \<Rightarrow> serial_export \<times> serial_effect list" where
  "port_lost env c p = (case modem_failed env p of (q, out) \<Rightarrow>
     (close_port q, [reply c ''closed'' (sx_client_name p) p (Some ''device-disconnected'')] @ out @ [Closed_port (sx_name p)]))"

definition then_turn :: "serial_export \<times> turn \<times> serial_effect list \<Rightarrow> (serial_export \<Rightarrow> serial_export \<times> turn \<times> serial_effect list) \<Rightarrow>
    serial_export \<times> turn \<times> serial_effect list" where
  "then_turn x f = (case x of (p, t, out) \<Rightarrow> if t = Go then (case f p of (q, t, out') \<Rightarrow> (q, t, out @ out')) else (p, t, out))"

definition poll_owned :: "serial_env \<Rightarrow> nat \<Rightarrow> serial_export \<Rightarrow> serial_export \<times> serial_effect list" where
  "poll_owned env c p =
     (if \<not> allowed env c p then (close_port p, [reply c ''closed'' (sx_client_name p) p (Some ''permission-revoked''), Closed_port (sx_name p)])
      else case then_turn (then_turn (turn_write env c p) (turn_read env)) (turn_send env c) of
        (q, t, out) \<Rightarrow> if t = Lost then (case port_lost env c q of (q, out') \<Rightarrow> (q, out @ out')) else (q, out))"

text \<open>A modem runs without a client; what it writes then is read and thrown away.\<close>

definition poll_idle_modem :: "serial_env \<Rightarrow> serial_export \<Rightarrow> serial_export \<times> serial_effect list" where
  "poll_idle_modem env p =
     (if sx_fd p = None then (p, [])
      else case port_read env p 1024 of
        Got bytes \<Rightarrow> if bytes = [] then modem_failed env p else (p, [Discarded (sx_name p) bytes])
      | Read_again \<Rightarrow> (p, [])
      | _ \<Rightarrow> modem_failed env p)"

definition poll_port :: "serial_env \<Rightarrow> serial_export \<Rightarrow> serial_export \<times> serial_effect list" where
  "poll_port env p =
     (if sx_service p \<noteq> 0 then poll_service env p
      else let (p, out) = (if sx_modem p then modem_ensure_running env p else (p, [])) in
        case sx_owner p of
          None \<Rightarrow> if sx_modem p then (case poll_idle_modem env p of (q, out') \<Rightarrow> (q, out @ out')) else (p, out)
        | Some c \<Rightarrow>
            if sx_modem p \<and> sx_fd p = None
            then (close_port p, out @ [reply c ''closed'' (sx_client_name p) p (Some ''worker-unavailable''), Closed_port (sx_name p)])
            else (case poll_owned env c p of (q, out') \<Rightarrow> (q, out @ out')))"

definition rrserver_serial_poll :: "serial_env \<Rightarrow> serial \<Rightarrow> serial \<times> serial_effect list" where
  "rrserver_serial_poll env st =
     (st\<lparr>sl_exports := map (fst \<circ> poll_port env) (sl_exports st)\<rparr>, concat (map (snd \<circ> poll_port env) (sl_exports st)))"

definition serial_active :: "serial_export \<Rightarrow> bool" where
  "serial_active p \<longleftrightarrow> (if sx_service p \<noteq> 0 then sx_fd p \<noteq> None else sx_owner p \<noteq> None)"

section \<open>Runs\<close>

definition serial_active_port :: "serial_env \<Rightarrow> serial_export \<Rightarrow> bool" where
  "serial_active_port env p \<longleftrightarrow> (if sx_service p \<noteq> 0 then sx_fd p \<noteq> None
     else sx_owner p \<noteq> None \<and> \<not> (sx_modem p \<and> sx_fd (fst (modem_ensure_running env p)) = None))"

datatype serial_event =
    X_request nat serial_request
  | X_frame nat string
  | X_closed nat
  | X_gps bool string string bool
  | X_poll

fun serial_step :: "serial_env \<times> serial_event \<Rightarrow> serial \<Rightarrow> serial \<times> serial_effect list" where
  "serial_step (env, X_request c rq) st = serial_request env c rq st"
| "serial_step (env, X_frame c bytes) st = serial_frame env c bytes st"
| "serial_step (env, X_closed c) st = serial_closed c st"
| "serial_step (env, X_gps raw scope sentence fixed) st = (gps_output env raw scope sentence fixed st, [])"
| "serial_step (env, X_poll) st = rrserver_serial_poll env st"

fun serial_run :: "(serial_env \<times> serial_event) list \<Rightarrow> serial \<Rightarrow> serial \<times> serial_effect list" where
  "serial_run [] st = (st, [])"
| "serial_run (x # xs) st = (let (st, out) = serial_step x st; (st, out') = serial_run xs st in (st, out @ out'))"

lemma serial_run_snoc:
  "serial_run (xs @ [x]) st = (let (st, out) = serial_run xs st; (st, out') = serial_step x st in (st, out @ out'))"
proof (induction xs arbitrary: st)
  case Nil
  show ?case by (simp add: Let_def split_beta)
next
  case (Cons y ys)
  show ?case using Cons [of "fst (serial_step y st)"] by (simp add: Let_def split_beta)
qed

section \<open>What a session is promised\<close>

text \<open>
  \<open>port_log\<close> is the history of a port since it was opened, made of the effects alone: the frames taken from the
  client, the bytes that reached the device, the bytes it sent, the packets made of them and how many the client acknowledged.
  \<open>lg_kept\<close> records that the promises held whenever something was done: a frame is taken when those before are written, confirmed
  when it is written itself, a packet sent when those before are acknowledged.
\<close>

record port_log =
  lg_taken :: "(32 word \<times> string) list"
  lg_wrote :: string
  lg_read :: string
  lg_sent :: "(32 word \<times> string) list"
  lg_acknowledged :: nat
  lg_kept :: bool

definition fresh_log :: port_log where
  "fresh_log = \<lparr>lg_taken = [], lg_wrote = [], lg_read = [], lg_sent = [], lg_acknowledged = 0, lg_kept = True\<rparr>"

abbreviation data_of :: "(32 word \<times> string) list \<Rightarrow> string" where
  "data_of xs \<equiv> concat (map snd xs)"

fun note_effect :: "string \<Rightarrow> serial_effect \<Rightarrow> port_log \<Rightarrow> port_log" where
  "note_effect name (Started n c s) l = (if n = name then fresh_log else l)"
| "note_effect name (Taken n seq data) l = (if n \<noteq> name then l
     else l\<lparr>lg_taken := lg_taken l @ [(seq, data)], lg_kept := lg_kept l \<and> lg_wrote l = data_of (lg_taken l)\<rparr>)"
| "note_effect name (Device_wrote n bytes) l = (if n \<noteq> name then l else l\<lparr>lg_wrote := lg_wrote l @ bytes\<rparr>)"
| "note_effect name (Written n seq) l = (if n \<noteq> name then l
     else l\<lparr>lg_kept := lg_kept l \<and> lg_taken l \<noteq> [] \<and> fst (last (lg_taken l)) = seq \<and> lg_wrote l = data_of (lg_taken l)\<rparr>)"
| "note_effect name (Device_read n bytes) l = (if n \<noteq> name then l else l\<lparr>lg_read := lg_read l @ bytes\<rparr>)"
| "note_effect name (Packet n c s seq data) l = (if n \<noteq> name then l
     else l\<lparr>lg_sent := lg_sent l @ [(seq, data)], lg_kept := lg_kept l \<and> lg_acknowledged l = length (lg_sent l)\<rparr>)"
| "note_effect name (Acknowledged n seq) l = (if n \<noteq> name then l
     else l\<lparr>lg_acknowledged := lg_acknowledged l + 1, lg_kept := lg_kept l \<and> lg_sent l \<noteq> [] \<and> fst (last (lg_sent l)) = seq\<rparr>)"
| "note_effect name _ l = l"

definition log_of :: "string \<Rightarrow> serial_effect list \<Rightarrow> port_log" where
  "log_of name out = fold (note_effect name) out fresh_log"

lemma log_of_append: "log_of name (xs @ ys) = fold (note_effect name) ys (log_of name xs)"
  by (simp add: log_of_def)

text \<open>The sequence numbers of the wire: one, two, three and so on, modulo \<open>2 ^ 32\<close>.\<close>

definition numbered :: "(32 word \<times> string) list \<Rightarrow> bool" where
  "numbered xs \<longleftrightarrow> map fst xs = map (\<lambda>i. of_nat (i + 1)) [0..<length xs]"

lemma numbered_Nil [simp]: "numbered []"
  by (simp add: numbered_def)

lemma numbered_snoc [simp]: "numbered (xs @ [(k, v)]) \<longleftrightarrow> numbered xs \<and> k = of_nat (length xs) + 1"
  by (auto simp: numbered_def add.commute)

lemma numbered_last: "numbered xs \<Longrightarrow> xs \<noteq> [] \<Longrightarrow> fst (last xs) = of_nat (length xs)"
  by (cases xs rule: rev_cases) (auto simp: add.commute)

lemma numbered_last_Suc: "numbered xs \<Longrightarrow> length xs = Suc n \<Longrightarrow> fst (last xs) = 1 + of_nat n"
  using numbered_last [of xs] by (cases xs) auto

definition faithful :: "serial_export \<Rightarrow> port_log \<Rightarrow> bool" where
  "faithful p l \<longleftrightarrow>
     numbered (lg_taken l) \<and> sx_tx_seq p = of_nat (length (lg_taken l)) \<and> data_of (lg_taken l) = lg_wrote l @ drop (sx_offset p) (sx_pending p) \<and>
     numbered (lg_sent l) \<and> sx_rx_seq p = of_nat (length (lg_sent l)) \<and> lg_read l = data_of (lg_sent l) @ sx_buffer p \<and>
     length (lg_sent l) = lg_acknowledged l + (if sx_rx_pending p then 1 else 0) \<and> lg_kept l"

definition tracks :: "serial_export \<Rightarrow> port_log \<Rightarrow> bool" where
  "tracks p l \<longleftrightarrow> (sx_service p = 0 \<and> sx_owner p \<noteq> None \<longrightarrow>
     faithful p l \<and> sx_offset p \<le> length (sx_pending p) \<and> (sx_pending p \<noteq> [] \<longrightarrow> lg_taken l \<noteq> []) \<and> (sx_pending p = [] \<longrightarrow> sx_offset p = 0)) \<and>
     (sx_service p = 0 \<and> sx_owner p = None \<longrightarrow> sx_pending p = [] \<and> sx_offset p = 0 \<and> sx_buffer p = [] \<and> \<not> sx_rx_pending p)"

fun effect_port :: "serial_effect \<Rightarrow> string option" where
  "effect_port (Reply c cmd name port err) = None"
| "effect_port (Started n c s) = Some n"
| "effect_port (Taken n seq data) = Some n"
| "effect_port (Device_wrote n bytes) = Some n"
| "effect_port (Written n seq) = Some n"
| "effect_port (Device_read n bytes) = Some n"
| "effect_port (Packet n c s seq data) = Some n"
| "effect_port (Acknowledged n seq) = Some n"
| "effect_port (Closed_port n) = Some n"
| "effect_port (Discarded n bytes) = Some n"
| "effect_port (Worker_stopped n) = Some n"
| "effect_port (Gps_sentence scope line) = None"

definition only :: "string \<Rightarrow> serial_effect list \<Rightarrow> bool" where
  "only name out \<longleftrightarrow> (\<forall>e \<in> set out. effect_port e = None \<or> effect_port e = Some name)"

lemma only_simps [simp]: "only name []" "only name (e # out) \<longleftrightarrow> (effect_port e = None \<or> effect_port e = Some name) \<and> only name out"
  "only name (xs @ ys) \<longleftrightarrow> only name xs \<and> only name ys"
  by (auto simp: only_def)

lemma note_other: "effect_port e = None \<or> effect_port e = Some n \<Longrightarrow> n \<noteq> name \<Longrightarrow> note_effect name e l = l"
  by (cases e) auto

lemma notes_other: "only n out \<Longrightarrow> n \<noteq> name \<Longrightarrow> fold (note_effect name) out l = l"
  by (induction out) (auto simp: note_other)

lemma close_port_simps [simp]:
  "sx_name (close_port p) = sx_name p" "sx_owner (close_port p) = None" "sx_service (close_port p) = sx_service p" "sx_limit (close_port p) = sx_limit p"
  "sx_buffer (close_port p) = []" "sx_line (close_port p) = sx_line p" "sx_modem (close_port p) = sx_modem p" "sx_path (close_port p) = sx_path p"
  by (simp_all add: close_port_def)

lemma tracks_close [simp]: "tracks (close_port p) l"
  by (simp add: tracks_def close_port_def)

text \<open>One port: \<open>port_ok\<close> says that a step of it kept its name and service, did nothing to another and kept the promises.\<close>

definition port_ok :: "serial_export \<Rightarrow> serial_export \<times> serial_effect list \<Rightarrow> bool" where
  "port_ok p x \<longleftrightarrow> (case x of (q, out) \<Rightarrow> sx_name q = sx_name p \<and> sx_service q = sx_service p \<and> only (sx_name p) out \<and>
     (\<forall>l. tracks p l \<longrightarrow> tracks q (fold (note_effect (sx_name p)) out l)))"

lemma port_okD: "port_ok p (q, out) \<Longrightarrow> sx_name q = sx_name p \<and> sx_service q = sx_service p \<and> only (sx_name p) out \<and>
     (tracks p l \<longrightarrow> tracks q (fold (note_effect (sx_name p)) out l))"
  by (simp add: port_ok_def)

lemma port_ok_trans: "port_ok p (q, out) \<Longrightarrow> port_ok q (r, out') \<Longrightarrow> port_ok p (r, out @ out')"
  by (simp add: port_ok_def)

lemma port_ok_refl [simp]: "port_ok p (p, [])"
  by (simp add: port_ok_def)

lemma port_ok_reply [simp]: "port_ok p (q, Reply c cmd name port err # out) = port_ok p (q, out)"
  by (simp add: port_ok_def)

lemma port_ok_closed [simp]: "port_ok p (close_port p, [Closed_port (sx_name p)])"
  by (simp add: port_ok_def)

text \<open>A change of what the promises do not mention.\<close>

definition same_stream :: "serial_export \<Rightarrow> serial_export \<Rightarrow> bool" where
  "same_stream p q \<longleftrightarrow> sx_name q = sx_name p \<and> sx_service q = sx_service p \<and> sx_owner q = sx_owner p \<and> sx_pending q = sx_pending p \<and>
     sx_offset q = sx_offset p \<and> sx_buffer q = sx_buffer p \<and> sx_rx_pending q = sx_rx_pending p \<and> sx_tx_seq q = sx_tx_seq p \<and> sx_rx_seq q = sx_rx_seq p"

lemma same_stream_tracks: "same_stream p q \<Longrightarrow> tracks q l = tracks p l"
  by (simp add: same_stream_def tracks_def faithful_def)

lemma same_stream_ok: "same_stream p q \<Longrightarrow> port_ok p (q, [])"
  using same_stream_tracks [of p q] by (simp add: port_ok_def) (simp add: same_stream_def)

lemma port_ok_stopped [simp]: "port_ok p (q, [Worker_stopped (sx_name p)]) = port_ok p (q, [])"
  by (simp add: port_ok_def)

lemma modem_failed_ok: "port_ok p (modem_failed env p)"
proof -
  have "same_stream p (fst (modem_failed env p))" by (simp add: modem_failed_def same_stream_def)
  from same_stream_ok [OF this] show ?thesis by (cases "sx_modem p") (simp_all add: modem_failed_def)
qed

lemma modem_ensure_ok: "port_ok p (modem_ensure_running env p)"
proof -
  have "port_ok p (p\<lparr>sx_fd := fd, sx_retry_at := 0, sx_failures := 0\<rparr>, [])" for fd
    by (rule same_stream_ok) (simp add: same_stream_def)
  with modem_failed_ok show ?thesis by (simp add: modem_ensure_running_def split: option.split)
qed

definition io_ok :: "serial_env \<Rightarrow> bool" where
  "io_ok env \<longleftrightarrow> (\<forall>fd bytes n. sv_write env fd bytes = Wrote n \<longrightarrow> n \<le> length bytes) \<and>
     (\<forall>fd room bytes. sv_read env fd room = Got bytes \<longrightarrow> length bytes \<le> room) \<and>
     (\<forall>names. sv_dev env = Some names \<longrightarrow> (\<forall>n \<in> set names. length n < 64))"

lemma port_write_bound: "io_ok env \<Longrightarrow> port_write env p bytes = Wrote n \<Longrightarrow> n \<le> length bytes"
  by (auto simp: io_ok_def port_write_def split: option.splits)

lemma port_read_bound: "io_ok env \<Longrightarrow> port_read env p room = Got bytes \<Longrightarrow> length bytes \<le> room"
  by (auto simp: io_ok_def port_read_def split: option.splits)

lemma gps_char_keeps:
  "sx_name (fst (gps_char ch env p)) = sx_name p \<and> sx_service (fst (gps_char ch env p)) = sx_service p \<and> only n (snd (gps_char ch env p))"
  by (simp add: gps_char_def)

lemma gps_input_keeps:
  "gps_input env s p = (q, out) \<Longrightarrow> sx_name q = sx_name p \<and> sx_service q = sx_service p \<and> only n out"
proof (induction s arbitrary: p q out)
  case (Cons ch s)
  obtain p1 out1 where 1: "gps_char ch env p = (p1, out1)" by (metis prod.exhaust)
  obtain p2 out2 where 2: "gps_input env s p1 = (p2, out2)" by (metis prod.exhaust)
  from Cons.IH [OF 2] gps_char_keeps [of ch env p n] Cons.prems show ?case by (auto simp: 1 2)
qed simp

lemma poll_service_ok:
  assumes "sx_service p \<noteq> 0"
  shows "port_ok p (poll_service env p)"
proof -
  have "port_ok p (gps_input env s p)" for s
    using gps_input_keeps [of env s p _ _ "sx_name p"] assms by (cases "gps_input env s p") (auto simp: port_ok_def tracks_def)
  moreover have "port_ok p (p\<lparr>sx_buffer := s\<rparr>, [Device_wrote (sx_name p) t])" for s t
    using assms by (simp add: port_ok_def tracks_def)
  ultimately show ?thesis by (simp add: poll_service_def split: write_result.split read_result.split)
qed

lemma turn_write_ok:
  assumes "io_ok env" "sx_service p = 0" "sx_owner p = Some c"
  shows "case turn_write env c p of (q, t, out) \<Rightarrow> port_ok p (q, out) \<and> sx_service q = 0 \<and> (t = Go \<or> t = Lost \<longrightarrow> sx_owner q = Some c)"
proof (cases "sx_pending p = []")
  case True
  then show ?thesis using assms by (simp add: turn_write_def)
next
  case False
  show ?thesis
  proof (cases "port_write env p (drop (sx_offset p) (sx_pending p))")
    case (Wrote n)
    define bytes where "bytes = take n (drop (sx_offset p) (sx_pending p))"
    let ?p1 = "p\<lparr>sx_offset := sx_offset p + n\<rparr>"
    let ?p2 = "p\<lparr>sx_pending := [], sx_offset := 0\<rparr>"
    have n: "n \<le> length (sx_pending p) - sx_offset p" using port_write_bound [OF assms(1) Wrote] by simp
    have drop: "drop (sx_offset p) (sx_pending p) = bytes @ drop (sx_offset p + n) (sx_pending p)"
      unfolding bytes_def by (metis add.commute append_take_drop_id drop_drop)
    have 1: "port_ok p (?p1, [Device_wrote (sx_name p) bytes])"
      using assms(2,3) False n drop by (auto simp: port_ok_def tracks_def faithful_def)
    have 2: "port_ok p (?p2, [Device_wrote (sx_name p) bytes, Written (sx_name p) (sx_tx_seq p)])" if "sx_offset p + n = length (sx_pending p)"
    proof -
      have "drop (sx_offset p) (sx_pending p) = bytes" using drop that by simp
      then show ?thesis using assms(2,3) False numbered_last by (auto simp: port_ok_def tracks_def faithful_def)
    qed
    have 3: "port_ok ?p2 (close_port ?p2, [Closed_port (sx_name p)])" using port_ok_closed [of ?p2] by simp
    show ?thesis
    proof (cases "n = 0 \<or> sx_offset p + n \<noteq> length (sx_pending p)")
      case True
      then have "n = 0 \<or> (n \<noteq> 0 \<and> sx_offset p + n \<noteq> length (sx_pending p))" by blast
      with 1 assms(2,3) False show ?thesis by (elim disjE) (simp_all add: turn_write_def Wrote Let_def bytes_def [symmetric])
    next
      case full: False
      then have full': "n \<noteq> 0 \<and> sx_offset p + n = length (sx_pending p)" by simp
      have r: "port_ok p (?p2, [Device_wrote (sx_name p) bytes, r, Written (sx_name p) (sx_tx_seq p)])"
        if "effect_port r = None" "\<And>l. note_effect (sx_name p) r l = l" for r
        using 2 conjunct2 [OF full'] that by (simp add: port_ok_def)
      have r': "port_ok p (close_port ?p2, [Device_wrote (sx_name p) bytes, r, Written (sx_name p) (sx_tx_seq p), r', Closed_port (sx_name p)])"
        if "effect_port r = None" "effect_port r' = None" "\<And>l. note_effect (sx_name p) r l = l" "\<And>l. note_effect (sx_name p) r' l = l" for r r'
        using port_ok_trans [OF 2 3] conjunct2 [OF full'] that by (simp add: port_ok_def)
      show ?thesis using full' False assms(2,3) by (auto simp: turn_write_def Wrote Let_def bytes_def [symmetric] reply_def intro!: r r')
    qed
  qed (use assms False in \<open>simp_all add: turn_write_def\<close>)
qed

lemma turn_read_ok:
  assumes "sx_service p = 0" "sx_owner p = Some c"
  shows "case turn_read env p of (q, t, out) \<Rightarrow> port_ok p (q, out) \<and> sx_service q = 0 \<and> sx_owner q = Some c"
proof -
  have "port_ok p (p\<lparr>sx_buffer := sx_buffer p @ bytes\<rparr>, [Device_read (sx_name p) bytes])" for bytes
    using assms by (auto simp: port_ok_def tracks_def faithful_def)
  then show ?thesis using assms by (simp add: turn_read_def split: read_result.split)
qed

text \<open>A turn that is lost may have spoiled the number of the next packet; the port is closed then.\<close>

lemma turn_send_ok:
  assumes "sx_service p = 0" "sx_owner p = Some c"
  shows "case turn_send env c p of (q, t, out) \<Rightarrow> t \<noteq> Go \<and> sx_name q = sx_name p \<and> sx_service q = sx_service p \<and> only (sx_name p) out \<and> (t = Skip \<longrightarrow> port_ok p (q, out))"
proof -
  have "port_ok p (p\<lparr>sx_rx_seq := sx_rx_seq p + 1, sx_rx_pending := True, sx_buffer := drop n (sx_buffer p)\<rparr>,
      [Packet (sx_name p) c (sx_stream p) (sx_rx_seq p + 1) (take n (sx_buffer p))])" if "\<not> sx_rx_pending p" for n
    using assms that by (auto simp: port_ok_def tracks_def faithful_def)
  then show ?thesis by (simp add: turn_send_def Let_def)
qed

lemma port_lost_ok: "sx_name q = sx_name p \<and> sx_service q = sx_service p \<and> only (sx_name p) out \<Longrightarrow> port_lost env c q = (r, out') \<Longrightarrow> port_ok p (r, out @ out')"
  by (cases "sx_modem q") (auto simp: port_lost_def port_ok_def modem_failed_def reply_def)

lemma poll_owned_ok:
  assumes "io_ok env" "sx_service p = 0" "sx_owner p = Some c"
  shows "port_ok p (poll_owned env c p)"
proof (cases "allowed env c p")
  case False
  then show ?thesis by (simp add: poll_owned_def reply_def)
next
  case True
  obtain p1 t1 out1 where 1: "turn_write env c p = (p1, t1, out1)" by (metis prod_cases3)
  from turn_write_ok [OF assms] have w: "port_ok p (p1, out1)" "sx_service p1 = 0" "t1 = Go \<or> t1 = Lost \<longrightarrow> sx_owner p1 = Some c"
    by (simp_all add: 1)
  have lost: "port_ok p (case port_lost env c q of (r, out') \<Rightarrow> (r, out @ out'))"
    if "sx_name q = sx_name p \<and> sx_service q = sx_service p \<and> only (sx_name p) out" for q out
    using port_lost_ok [OF that] by (cases "port_lost env c q") auto
  show ?thesis
  proof (cases t1)
    case Go
    obtain p2 t2 out2 where 2: "turn_read env p1 = (p2, t2, out2)" by (metis prod_cases3)
    from turn_read_ok [OF w(2), of c env] w(3) Go have r: "port_ok p1 (p2, out2)" "sx_service p2 = 0" "sx_owner p2 = Some c" by (simp_all add: 2)
    note wr = port_ok_trans [OF w(1) r(1)]
    show ?thesis
    proof (cases "t2 = Go")
      case True
      obtain p3 t3 out3 where 3: "turn_send env c p2 = (p3, t3, out3)" by (metis prod_cases3)
      from turn_send_ok [OF r(2,3), of env] have s: "t3 \<noteq> Go" "sx_name p3 = sx_name p2 \<and> sx_service p3 = sx_service p2 \<and> only (sx_name p2) out3" "t3 = Skip \<longrightarrow> port_ok p2 (p3, out3)"
        by (simp_all add: 3)
      from s wr port_ok_trans [OF wr] lost [of p3 "out1 @ out2 @ out3"] show ?thesis
        using \<open>allowed env c p\<close> by (cases t3) (auto simp: poll_owned_def then_turn_def 1 2 3 Go True port_ok_def)
    next
      case False
      from wr lost [of p2 "out1 @ out2"] show ?thesis
        using \<open>allowed env c p\<close> False by (cases t2) (auto simp: poll_owned_def then_turn_def 1 2 Go port_ok_def)
    qed
  next
    case Skip
    with w(1) \<open>allowed env c p\<close> show ?thesis by (simp add: poll_owned_def then_turn_def 1)
  next
    case Lost
    with w(1) lost [of p1 out1] \<open>allowed env c p\<close> show ?thesis by (auto simp: poll_owned_def then_turn_def 1 port_ok_def)
  qed
qed

lemma poll_port_ok:
  assumes "io_ok env"
  shows "port_ok p (poll_port env p)"
proof (cases "sx_service p = 0")
  case False
  then show ?thesis using poll_service_ok by (simp add: poll_port_def)
next
  case True
  obtain p1 out1 where 1: "(if sx_modem p then modem_ensure_running env p else (p, [])) = (p1, out1)" by (metis prod.exhaust)
  have ok: "port_ok p (p1, out1)" using 1 modem_ensure_ok [of p env] by (auto split: if_splits)
  have s: "sx_service p1 = 0" "sx_name p1 = sx_name p" using ok True by (simp_all add: port_ok_def)
  show ?thesis
  proof (cases "sx_owner p1")
    case None
    obtain q out2 where 2: "poll_idle_modem env p1 = (q, out2)" by (metis prod.exhaust)
    have "port_ok p1 (p1, [Discarded (sx_name p1) bytes])" for bytes by (simp add: port_ok_def)
    then have "port_ok p1 (poll_idle_modem env p1)"
      using modem_failed_ok by (simp add: poll_idle_modem_def split: read_result.split)
    with 2 port_ok_trans [OF ok, of q out2] ok show ?thesis by (simp add: poll_port_def True 1 None)
  next
    case (Some c)
    obtain q out2 where 2: "poll_owned env c p1 = (q, out2)" by (metis prod.exhaust)
    have o: "port_ok p1 (q, out2)" using poll_owned_ok [OF assms s(1) Some] by (simp add: 2)
    have "port_ok p1 (close_port p1, [reply c cmd name p1 err, Closed_port (sx_name p1)])" for cmd name err by (simp add: reply_def)
    from port_ok_trans [OF ok this] port_ok_trans [OF ok o] show ?thesis by (simp add: poll_port_def True 1 Some 2)
  qed
qed

section \<open>The table\<close>

definition serial_ok :: "serial \<Rightarrow> serial_effect list \<Rightarrow> bool" where
  "serial_ok st out \<longleftrightarrow> distinct (map sx_name (sl_exports st)) \<and> (\<forall>p \<in> set (sl_exports st). tracks p (log_of (sx_name p) out))"

lemma serial_ok_put:
  assumes "serial_ok st out" "i < length (sl_exports st)" "port_ok (sl_exports st ! i) (q, out')" "sl_exports st' = (sl_exports st)[i := q]"
  shows "serial_ok st' (out @ out')"
proof -
  let ?p = "sl_exports st ! i"
  note k = port_okD [OF assms(3)]
  have names: "map sx_name (sl_exports st') = map sx_name (sl_exports st)" using k by (simp add: assms(4) map_update_same)
  have "tracks r (log_of (sx_name r) (out @ out'))" if "r \<in> set (sl_exports st')" for r
  proof -
    from that obtain j where j: "j < length (sl_exports st)" "r = (sl_exports st)[i := q] ! j" by (auto simp: assms(4) in_set_conv_nth)
    show ?thesis
    proof (cases "j = i")
      case True
      have "tracks ?p (log_of (sx_name ?p) out)" using assms(1,2) by (simp add: serial_ok_def)
      with k show ?thesis using True j assms(2) by (simp add: log_of_append)
    next
      case False
      then have r: "r = sl_exports st ! j" using j by simp
      have "sx_name r \<noteq> sx_name ?p"
        using assms(1,2) j(1) False nth_eq_iff_index_eq [of "map sx_name (sl_exports st)" j i] by (simp add: serial_ok_def r)
      then have "log_of (sx_name r) (out @ out') = log_of (sx_name r) out"
        using notes_other [of "sx_name ?p" out' "sx_name r"] k by (simp add: log_of_append)
      then show ?thesis using assms(1) j(1) by (simp add: serial_ok_def r)
    qed
  qed
  then show ?thesis using assms(1) by (simp add: serial_ok_def names)
qed

lemma notes_all:
  assumes "distinct (map sx_name ps)" "p \<in> set ps" "\<And>p. only (sx_name p) (snd (f p))"
  shows "fold (note_effect (sx_name p)) (concat (map (snd \<circ> f) ps)) l = fold (note_effect (sx_name p)) (snd (f p)) l"
proof -
  have out: "fold (note_effect (sx_name p)) (concat (map (snd \<circ> f) qs)) l = l" if "sx_name p \<notin> sx_name ` set qs" for qs l
    using that by (induction qs arbitrary: l) (auto simp: notes_other [OF assms(3)])
  from assms(1,2) show ?thesis
  proof (induction ps arbitrary: l)
    case (Cons q ps)
    show ?case
    proof (cases "p = q")
      case True
      with Cons.prems have n: "sx_name p \<notin> sx_name ` set ps" by auto
      show ?thesis using out [OF n] by (simp add: comp_def True [symmetric])
    next
      case False
      with Cons.prems have "sx_name q \<noteq> sx_name p" by force
      with Cons False show ?thesis by (simp add: notes_other [OF assms(3)])
    qed
  qed simp
qed

lemma serial_ok_map:
  assumes "serial_ok st out" "\<And>p. port_ok p (f p)" "sl_exports st' = map (fst \<circ> f) (sl_exports st)" "out' = concat (map (snd \<circ> f) (sl_exports st))"
  shows "serial_ok st' (out @ out')"
proof -
  have k: "sx_name (fst (f p)) = sx_name p" "only (sx_name p) (snd (f p))"
    "tracks p l \<longrightarrow> tracks (fst (f p)) (fold (note_effect (sx_name p)) (snd (f p)) l)" for p l
    using assms(2) [of p] by (simp_all add: port_ok_def split_beta)
  have d: "distinct (map sx_name (sl_exports st))" using assms(1) by (simp add: serial_ok_def)
  have names: "map sx_name (sl_exports st') = map sx_name (sl_exports st)" by (simp add: assms(3) k(1))
  have "tracks (fst (f p)) (log_of (sx_name (fst (f p))) (out @ out'))" if p: "p \<in> set (sl_exports st)" for p
  proof -
    have "tracks p (log_of (sx_name p) out)" using assms(1) p by (simp add: serial_ok_def)
    then show ?thesis using k(3) [of p] by (simp add: k(1) log_of_append assms(4) notes_all [OF d p k(2)])
  qed
  then show ?thesis using d by (simp add: serial_ok_def names) (simp add: assms(3))
qed

lemma butlast_last_set: "i < length xs \<Longrightarrow> set (butlast (xs[i := last xs])) \<subseteq> set xs"
proof -
  assume i: "i < length xs"
  then have "set (butlast (xs[i := last xs])) \<subseteq> set (xs[i := last xs])" by (auto dest: in_set_butlastD)
  then have "set (butlast (xs[i := last xs])) \<subseteq> insert (last xs) (set xs)" using set_update_subset_insert by fast
  moreover have "last xs \<in> set xs" using i by (intro last_in_set) auto
  ultimately show ?thesis by (simp add: insert_absorb)
qed

lemma butlast_last_distinct:
  assumes "distinct xs" "i < length xs"
  shows "distinct (butlast (xs[i := last xs]))"
proof -
  obtain ys y where xs: "xs = ys @ [y]" using assms(2) by (cases xs rule: rev_cases) auto
  show ?thesis
  proof (cases "i < length ys")
    case True
    then show ?thesis using assms(1) by (simp add: xs list_update_append distinct_list_update)
  next
    case False
    then show ?thesis using assms by (simp add: xs list_update_append)
  qed
qed

lemma drop_gone_ok: "set (drop_gone env i ps) \<subseteq> set ps \<and> (distinct (map sx_name ps) \<longrightarrow> distinct (map sx_name (drop_gone env i ps))) \<and>
    length (drop_gone env i ps) \<le> length ps"
proof (induction env i ps rule: drop_gone.induct)
  case (1 env i ps)
  let ?qs = "butlast (ps[i := last ps])"
  show ?case
  proof (cases "length ps \<le> i")
    case True
    then show ?thesis by (subst (1 2 3) drop_gone.simps) simp
  next
    case in_range: False
    show ?thesis
    proof (cases "gone env (ps ! i)")
      case True
      have m: "map sx_name ?qs = butlast ((map sx_name ps)[i := last (map sx_name ps)])"
        using in_range by (cases ps rule: rev_cases) (auto simp: map_butlast map_update)
      have "drop_gone env i ps = drop_gone env i ?qs" using in_range True by (subst drop_gone.simps) simp
      with "1.IH"(1) [OF in_range True] butlast_last_set [of i ps] butlast_last_distinct [of "map sx_name ps" i] in_range m
      show ?thesis by (auto simp: subset_iff)
    next
      case False
      have "drop_gone env i ps = drop_gone env (i + 1) ps" using in_range False by (subst drop_gone.simps) simp
      with "1.IH"(2) [OF in_range False] show ?thesis by simp
    qed
  qed
qed

lemma usb_export_simps [simp]:
  "sx_name (usb_export name) = snprintf_s 64 name" "sx_owner (usb_export name) = None" "sx_limit (usb_export name) = 16384"
  "sx_buffer (usb_export name) = []" "sx_line (usb_export name) = []" "tracks (usb_export name) l" "sx_service (usb_export name) = 0"
  by (simp_all add: usb_export_def Let_def tracks_def)

lemma add_usb_ok:
  assumes "\<forall>n \<in> set names. length n < 64"
  shows "(distinct (map sx_name ps) \<longrightarrow> distinct (map sx_name (add_usb env names ps))) \<and>
    set (add_usb env names ps) \<subseteq> set ps \<union> usb_export ` set names \<and> (length ps \<le> 32 \<longrightarrow> length (add_usb env names ps) \<le> 32)"
  using assms
proof (induction names arbitrary: ps)
  case (Cons name names)
  then have IH: "(distinct (map sx_name qs) \<longrightarrow> distinct (map sx_name (add_usb env names qs))) \<and>
    set (add_usb env names qs) \<subseteq> set qs \<union> usb_export ` set names \<and> (length qs \<le> 32 \<longrightarrow> length (add_usb env names qs) \<le> 32)" for qs by simp
  have n: "snprintf_s 64 name = name" using Cons.prems by simp
  show ?case
  proof (cases "SERIAL_PORTS_MAX \<le> length ps \<or> \<not> serial_auto_name name \<or> list_ex (\<lambda>p. sx_name p = name) ps \<or> \<not> sv_chr env (snprintf_s 4096 (''/dev/'' @ name))")
    case True
    with IH [of ps] show ?thesis by auto
  next
    case False
    then have "distinct (map sx_name ps) \<longrightarrow> distinct (map sx_name (ps @ [usb_export name]))" "length ps < 32"
      by (auto simp: n list_ex_iff SERIAL_PORTS_MAX_def)
    with IH [of "ps @ [usb_export name]"] False show ?thesis by auto
  qed
qed simp

lemma discover_ok:
  assumes "io_ok env"
  shows "(distinct (map sx_name ps) \<longrightarrow> distinct (map sx_name (serial_discover_usb env ps))) \<and>
    (\<forall>p \<in> set (serial_discover_usb env ps). p \<in> set ps \<or> (\<exists>name. p = usb_export name)) \<and>
    (length ps \<le> 32 \<longrightarrow> length (serial_discover_usb env ps) \<le> 32)"
proof (cases "sv_auto_export env")
  case True
  from drop_gone_ok [of env 0 ps] show ?thesis
  proof (cases "sv_dev env")
    case (Some names)
    with assms have "\<forall>n \<in> set names. length n < 64" by (simp add: io_ok_def)
    from add_usb_ok [OF this, of "drop_gone env 0 ps" env] drop_gone_ok [of env 0 ps]
    show ?thesis unfolding serial_discover_usb_def by (simp add: True Some) blast
  qed (auto simp: serial_discover_usb_def True)
qed (simp add: serial_discover_usb_def)

lemma serial_ok_discover:
  assumes "serial_ok st out" "io_ok env"
  shows "serial_ok (st\<lparr>sl_exports := serial_discover_usb env (sl_exports st)\<rparr>) out"
  using discover_ok [OF assms(2), of "sl_exports st"] assms(1) by (auto simp: serial_ok_def)

section \<open>Requests and frames\<close>

lemma open_device_ok: "open_device env proposed p = (q, out) \<Longrightarrow> sx_service p = 0 \<Longrightarrow> sx_owner p = None \<Longrightarrow>
    port_ok p (q, out) \<and> sx_service q = 0 \<and> sx_owner q = None \<and> sx_limit q = sx_limit p \<and> sx_line q = sx_line p"
proof -
  assume a: "open_device env proposed p = (q, out)" "sx_service p = 0" "sx_owner p = None"
  have "port_ok p (p\<lparr>sx_fd := fd\<rparr>, [])" for fd by (rule same_stream_ok) (simp add: same_stream_def)
  then show ?thesis using a modem_ensure_ok [of p env]
    by (auto simp: open_device_def modem_ensure_running_def modem_failed_def split: if_splits option.splits)
qed

lemma serial_opened_ok:
  assumes "sx_service p = 0" "sx_owner p = None"
  shows "port_ok p (serial_opened c name stream proposed p, [Started (sx_name p) c stream, reply c cmd name q err])"
  using assms by (auto simp: port_ok_def serial_opened_def tracks_def faithful_def fresh_log_def reply_def)

lemma serial_opened_name [simp]: "sx_name (serial_opened c name stream proposed p) = sx_name p"
  by (simp add: serial_opened_def)

lemma open_port_ok:
  assumes "serial_ok st out" "i < length (sl_exports st)" "sx_service (sl_exports st ! i) = 0" "sx_owner (sl_exports st ! i) = None"
    and "open_port env c name proposed i st = (st', out')"
  shows "serial_ok st' (out @ out')"
proof -
  obtain p o1 where 1: "open_device env proposed (sl_exports st ! i) = (p, o1)" by (metis prod.exhaust)
  from open_device_ok [OF 1 assms(3,4)] have p: "port_ok (sl_exports st ! i) (p, o1)" "sx_service p = 0" "sx_owner p = None" by simp_all
  obtain stream ss where 2: "allocate_stream env c (sl_sessions st) = (stream, ss)" by (metis prod.exhaust)
  have r: "port_ok (sl_exports st ! i) (q, o1 @ [refuse c name err])" if "port_ok (sl_exports st ! i) (q, o1)" for q err
    using that by (simp add: port_ok_def refuse_def)
  have closed: "port_ok (sl_exports st ! i) (close_port p, o1 @ [Closed_port (sx_name p), refuse c name err])" for err
    using port_ok_trans [OF p(1) port_ok_closed] by (simp add: port_ok_def refuse_def)
  note opened = port_ok_trans [OF p(1) serial_opened_ok [OF p(2,3)]]
  show ?thesis
  proof (cases "sx_fd p = None")
    case True
    then show ?thesis using assms(5) serial_ok_put [OF assms(1,2) r [OF p(1)], of st'] by (auto simp: open_port_def 1)
  next
    case False
    then show ?thesis using assms(5) serial_ok_put [OF assms(1,2) closed, of st'] serial_ok_put [OF assms(1,2) opened, of st']
      by (cases "stream = 0") (auto simp: open_port_def 1 2 Let_def)
  qed
qed

lemma serial_ok_reply: "serial_ok st out \<Longrightarrow> effect_port e = None \<Longrightarrow> serial_ok st (out @ [e])"
  by (cases e) (simp_all add: serial_ok_def log_of_append)

lemma serial_open_ok:
  assumes "serial_ok st out" "serial_open env c rq st = (st', out')"
  shows "serial_ok st' (out @ out')"
proof -
  define bad where "bad \<longleftrightarrow> rq_name rq = [] \<or> 64 \<le> length (rq_name rq) \<or> rq_has_path rq \<or> rq_port rq = None \<or> rq_port rq = Some [] \<or> CHR ''/'' \<in> set (the (rq_port rq))"
  have e: "effect_port (refuse c n e) = None" "effect_port (reply c cmd n p err) = None" for n e cmd p err by (simp_all add: refuse_def reply_def)
  have one: ?thesis if "st' = st" "out' = [e]" "effect_port e = None" for e using that serial_ok_reply [OF assms(1)] by simp
  note x = assms(2) [unfolded serial_open_def Let_def, folded bad_def]
  show ?thesis
  proof (cases "bad \<or> owned c (rq_name rq) (sl_exports st) \<noteq> None")
    case True
    then show ?thesis using x one e by (auto split: if_splits)
  next
    case False
    note x = x [unfolded if_not_P [OF conjunct1 [OF False [unfolded de_Morgan_disj]]]]
    have n: "owned c (rq_name rq) (sl_exports st) = None" using False by simp
    note x = x [unfolded n option.case]
    show ?thesis
    proof (cases "find_idx (\<lambda>p. sx_service p = 0 \<and> sx_name p = the (rq_port rq)) (sl_exports st)")
      case None
      note x = x [unfolded None option.case]
      show ?thesis using x one e by auto
    next
      case (Some i)
      let ?p = "sl_exports st ! i"
      from find_idx_SomeD [OF Some] have i: "i < length (sl_exports st)" "sx_service ?p = 0" by auto
      note x = x [unfolded Some option.case]
      show ?thesis
      proof (cases "\<not> allowed env c ?p \<or> sx_owner ?p \<noteq> None \<or> device_busy env ?p (sl_exports st) \<or> settings_from env rq (sx_settings ?p) = None \<or> \<not> sv_malloc env")
        case True
        then show ?thesis using x one e by (auto split: if_splits option.splits)
      next
        case False
        then obtain proposed where "open_port env c (rq_name rq) proposed i st = (st', out')" using x by auto
        with open_port_ok [OF assms(1) i] False show ?thesis by auto
      qed
    qed
  qed
qed

lemma serial_command_ok:
  assumes "serial_ok st out" "i < length (sl_exports st)" "serial_command env c rq i st = (st', out')"
  shows "serial_ok st' (out @ out')"
proof -
  let ?p = "sl_exports st ! i"
  have put: "serial_ok (put_port i q st) (out @ o')" if "port_ok ?p (q, o')" for q o'
    using serial_ok_put [OF assms(1,2) that, of "put_port i q st"] by (simp add: put_port_def)
  have e: "effect_port (reply c cmd n p err) = None" for cmd n p err by (simp add: reply_def)
  have one: "serial_ok st (out @ [reply c cmd n p err])" for cmd n p err using serial_ok_reply [OF assms(1)] e by simp
  have quiet: "port_ok ?p (?p\<lparr>sx_close_pending := True\<rparr>, [])" "port_ok ?p (?p\<lparr>sx_settings := s\<rparr>, [])" for s
    by (rule same_stream_ok, simp add: same_stream_def)+
  have read: "port_ok ?p (?p\<lparr>sx_rx_pending := False\<rparr>, [Acknowledged (sx_name ?p) (sx_rx_seq ?p)])" if "sx_rx_pending ?p"
    using that numbered_last_Suc by (auto simp: port_ok_def tracks_def faithful_def)
  have closed: "port_ok ?p (close_port ?p, [reply c cmd n q err, Closed_port (sx_name ?p)])" for cmd n q err by (simp add: reply_def)
  have conf: "port_ok ?p (?p\<lparr>sx_settings := s\<rparr>, [reply c cmd n q err])" for s cmd n q err using quiet(2) by (simp add: reply_def)
  consider "rq_cmd rq = ''close''" | "rq_cmd rq = ''configure''" | "rq_cmd rq = ''read''" | "rq_cmd rq \<notin> {''close'', ''configure'', ''read''}" by blast
  then show ?thesis
  proof cases
    case 1
    then show ?thesis using assms(3) put [OF closed] put [OF quiet(1)] by (auto simp: serial_command_def Let_def split: if_splits)
  next
    case 2
    then show ?thesis using assms(3) one put [OF conf] by (auto simp: serial_command_def Let_def split: if_splits option.splits)
  next
    case 3
    then show ?thesis using assms(1,3) put [OF read] by (auto simp: serial_command_def Let_def split: if_splits)
  next
    case 4
    then show ?thesis using assms(3) one by (auto simp: serial_command_def Let_def)
  qed
qed

lemma serial_list_ok: "serial_ok st out \<Longrightarrow> serial_ok st (out @ serial_list env c ps)"
proof -
  have "fold (note_effect name) (serial_list env c ps) l = l" for name l
  proof -
    have "only ''x'' (serial_list env c ps) \<and> only ''y'' (serial_list env c ps)" by (auto simp: serial_list_def only_def reply_def)
    then show ?thesis using notes_other [of "''x''" _ name] notes_other [of "''y''" _ name] by (cases "name = ''x''") auto
  qed
  then show "serial_ok st out \<Longrightarrow> serial_ok st (out @ serial_list env c ps)" by (simp add: serial_ok_def log_of_append)
qed

lemma serial_request_ok:
  assumes "serial_ok st out" "io_ok env" "serial_request env c rq st = (st', out')"
  shows "serial_ok st' (out @ out')"
proof -
  define st1 where "st1 = (if rq_cmd rq = ''list'' \<or> rq_cmd rq = ''open'' then st\<lparr>sl_exports := serial_discover_usb env (sl_exports st)\<rparr> else st)"
  have ok: "serial_ok st1 out" using assms(1) serial_ok_discover [OF assms(1,2)] by (simp add: st1_def)
  have e: "effect_port (refuse c n err) = None" for n err by (simp add: refuse_def)
  note x = assms(3) [unfolded serial_request_def Let_def, folded st1_def]
  show ?thesis
  proof (cases "malformed rq")
    case True
    then show ?thesis using x assms(1) serial_ok_reply e by auto
  next
    case False
    note x = x [unfolded if_not_P [OF False]]
    show ?thesis
    proof (cases "rq_cmd rq = ''list'' \<or> rq_cmd rq = ''open''")
      case True
      then show ?thesis using x ok serial_list_ok serial_open_ok by (auto split: if_splits)
    next
      case False
      then have x: "(case owned c (rq_name rq) (sl_exports st1) of None \<Rightarrow> (st1, [refuse c (rq_name rq) ''not-open''])
        | Some i \<Rightarrow> if \<not> allowed env c (sl_exports st1 ! i) then (st1, [refuse c (rq_name rq) ''not-open''])
            else if stream_field rq \<noteq> 0 \<and> stream_field rq \<noteq> sx_stream (sl_exports st1 ! i) then (st1, []) else serial_command env c rq i st1) = (st', out')"
        using x by simp
      show ?thesis
      proof (cases "owned c (rq_name rq) (sl_exports st1)")
        case None
        then show ?thesis using x ok serial_ok_reply e by auto
      next
        case (Some i)
        then have "i < length (sl_exports st1)" using find_idx_SomeD by (auto simp: owned_def)
        then show ?thesis using x ok serial_ok_reply e serial_command_ok by (auto simp: Some split: if_splits)
      qed
    qed
  qed
qed

lemma serial_frame_ok:
  assumes "serial_ok st out" "serial_frame env c bytes st = (st', out')"
  shows "serial_ok st' (out @ out')"
proof (cases "sv_frame env bytes")
  case None
  then show ?thesis using assms by (auto simp: serial_frame_def)
next
  case (Some f)
  then obtain stream seq data where f: "sv_frame env bytes = Some (stream, seq, data)" by (cases f) auto
  show ?thesis
  proof (cases "find_idx (frame_port env c stream) (sl_exports st)")
    case None
    show ?thesis using assms by (auto simp: serial_frame_def f None [simplified] None)
  next
    case (Some i)
    let ?p = "sl_exports st ! i"
    from find_idx_SomeD [OF Some] have i: "i < length (sl_exports st)" "sx_service ?p = 0" "sx_owner ?p = Some c" by (auto simp: frame_port_def)
    have put: "serial_ok (put_port i q st) (out @ o')" if "port_ok ?p (q, o')" for q o'
      using serial_ok_put [OF assms(1) i(1) that, of "put_port i q st"] by (simp add: put_port_def)
    have closed: "port_ok ?p (close_port ?p, [reply c cmd n q err, Closed_port (sx_name ?p)])" for cmd n q err by (simp add: reply_def)
    have taken: "port_ok ?p (?p\<lparr>sx_pending := data, sx_offset := 0, sx_tx_seq := sx_tx_seq ?p + 1\<rparr>, [Taken (sx_name ?p) (sx_tx_seq ?p + 1) data])"
      if "sx_pending ?p = []" using i that by (auto simp: port_ok_def tracks_def faithful_def)
    show ?thesis
    proof (cases "sx_pending ?p \<noteq> [] \<or> seq \<noteq> sx_tx_seq ?p + 1")
      case True
      then show ?thesis using assms(2) put [OF closed] by (auto simp: serial_frame_def f Some Let_def)
    next
      case False
      then show ?thesis using assms(2) put [OF taken] by (auto simp: serial_frame_def f Some Let_def)
    qed
  qed
qed

lemma serial_step_ok:
  assumes "serial_ok st out" "io_ok env" "serial_step (env, e) st = (st', out')"
  shows "serial_ok st' (out @ out')"
proof (cases e)
  case (X_closed c)
  have "port_ok p (if sx_owner p = Some c then (close_port p, [Closed_port (sx_name p)]) else (p, []))" for p by simp
  moreover have "concat (map (snd \<circ> (\<lambda>p. if sx_owner p = Some c then (close_port p, [Closed_port (sx_name p)]) else (p, []))) ps) =
      map (\<lambda>p. Closed_port (sx_name p)) (filter (\<lambda>p. sx_owner p = Some c) ps)" for ps by (induction ps) auto
  ultimately show ?thesis
    using assms(3) X_closed serial_ok_map [OF assms(1), of "\<lambda>p. if sx_owner p = Some c then (close_port p, [Closed_port (sx_name p)]) else (p, [])" st' out']
    by (auto simp: serial_closed_def comp_def if_distrib)
next
  case (X_gps raw scope sentence fixed)
  let ?f = "gps_put env raw scope sentence fixed"
  have "port_ok p (?f p, [])" for p by (auto simp: gps_put_def port_ok_def tracks_def)
  moreover have none: "concat (map (\<lambda>x. []) ps) = []" for ps :: "serial_export list" by (induction ps) auto
  ultimately show ?thesis using serial_ok_map [OF assms(1), of "\<lambda>p. (?f p, [])" st' out'] assms(1,3) X_gps
    by (auto simp: gps_output_def comp_def none split: if_splits)
next
  case X_poll
  with assms(3) serial_ok_map [OF assms(1), of "poll_port env" st' out', OF poll_port_ok [OF assms(2)]]
  show ?thesis by (auto simp: rrserver_serial_poll_def)
qed (use assms serial_request_ok serial_frame_ok in auto)

definition serial_ready :: "serial \<Rightarrow> bool" where
  "serial_ready st \<longleftrightarrow> distinct (map sx_name (sl_exports st)) \<and> length (sl_exports st) \<le> 32 \<and> sl_sessions st = [] \<and>
     (\<forall>p \<in> set (sl_exports st). sx_owner p = None \<and> sx_pending p = [] \<and> sx_offset p = 0 \<and> sx_buffer p = [] \<and> \<not> sx_rx_pending p \<and> sx_line p = [])"

lemma serial_run_ok:
  assumes "serial_ready st0" "\<forall>x \<in> set run. io_ok (fst x)" "serial_run run st0 = (st, out)"
  shows "serial_ok st out"
  using assms(2,3)
proof (induction run arbitrary: st out rule: rev_induct)
  case Nil
  then show ?case using assms(1) by (auto simp: serial_ok_def serial_ready_def tracks_def)
next
  case (snoc x xs)
  obtain st1 out1 where 1: "serial_run xs st0 = (st1, out1)" by (metis prod.exhaust)
  obtain st2 out2 where 2: "serial_step x st1 = (st2, out2)" by (metis prod.exhaust)
  have ok: "serial_ok st1 out1" using snoc.IH [OF _ 1] snoc.prems(1) by simp
  from serial_step_ok [OF ok, of "fst x" "snd x"] 2 snoc.prems show ?case by (simp add: serial_run_snoc 1 2)
qed

text \<open>
  C26. A serial session is an exact and ordered pipe in both directions. At any point of any run, of a port that a client holds: the frames
  taken since it was opened are numbered one after the other, and their bytes are those written to the device followed by
  those still pending; the bytes the device sent are those of the packets followed by those buffered, and the packets
  are numbered as well, at most one of them not acknowledged; a frame was confirmed only when written.
\<close>

theorem serial_stream_exact:
  assumes "serial_ready st0" "\<forall>x \<in> set run. io_ok (fst x)" "serial_run run st0 = (st, out)"
    and "p \<in> set (sl_exports st)" "sx_service p = 0" "sx_owner p \<noteq> None"
  shows "let l = log_of (sx_name p) out in
    numbered (lg_taken l) \<and> sx_tx_seq p = of_nat (length (lg_taken l)) \<and> data_of (lg_taken l) = lg_wrote l @ drop (sx_offset p) (sx_pending p) \<and>
    numbered (lg_sent l) \<and> sx_rx_seq p = of_nat (length (lg_sent l)) \<and> lg_read l = data_of (lg_sent l) @ sx_buffer p \<and>
    length (lg_sent l) = lg_acknowledged l + (if sx_rx_pending p then 1 else 0) \<and> lg_kept l"
  using serial_run_ok [OF assms(1-3)] assms(4-6) by (auto simp: serial_ok_def tracks_def faithful_def Let_def)

section \<open>Authority\<close>

fun moves :: "serial_effect \<Rightarrow> string option" where
  "moves (Started n c s) = Some n"
| "moves (Taken n seq data) = Some n"
| "moves (Device_wrote n bytes) = Some n"
| "moves (Device_read n bytes) = Some n"
| "moves (Packet n c s seq data) = Some n"
| "moves _ = None"

definition still :: "serial_effect list \<Rightarrow> bool" where
  "still out \<longleftrightarrow> (\<forall>e \<in> set out. moves e = None)"

lemma still_simps [simp]: "still []" "still (e # out) \<longleftrightarrow> moves e = None \<and> still out" "still (xs @ ys) \<longleftrightarrow> still xs \<and> still ys"
  by (auto simp: still_def)

lemma moves_reply [simp]: "moves (reply c cmd n p err) = None" "moves (refuse c n why) = None"
  by (simp_all add: reply_def refuse_def)

definition permitted :: "serial_env \<Rightarrow> serial_export \<Rightarrow> bool" where
  "permitted env p \<longleftrightarrow> sx_service p \<noteq> 0 \<or> (\<exists>c. sx_owner p = Some c \<and> allowed env c p)"

lemma modem_still: "still (snd (modem_ensure_running env p)) \<and> still (snd (modem_failed env p))"
  by (simp add: modem_ensure_running_def modem_failed_def split: option.split)

lemma modem_ensure_same: "sx_name (fst (modem_ensure_running env p)) = sx_name p \<and> sx_owner (fst (modem_ensure_running env p)) = sx_owner p \<and>
    sx_service (fst (modem_ensure_running env p)) = sx_service p"
  by (simp add: modem_ensure_running_def modem_failed_def split: option.split)

lemma allowed_name: "sx_name q = sx_name p \<Longrightarrow> allowed env c q = allowed env c p"
  by (simp add: allowed_def)

lemma port_ok_moves: "port_ok p (q, out) \<Longrightarrow> e \<in> set out \<Longrightarrow> moves e = Some n \<Longrightarrow> n = sx_name p"
  by (cases e) (auto simp: port_ok_def only_def)

lemma poll_port_permitted:
  assumes "io_ok env" "e \<in> set (snd (poll_port env p))" "moves e = Some n"
  shows "n = sx_name p \<and> permitted env p"
proof -
  have n: "n = sx_name p" using poll_port_ok [OF assms(1), of p] assms(2,3) port_ok_moves by (metis prod.collapse)
  have "permitted env p"
  proof (cases "sx_service p = 0")
    case True
    obtain p1 out1 where 1: "(if sx_modem p then modem_ensure_running env p else (p, [])) = (p1, out1)" by (metis prod.exhaust)
    have p1: "sx_name p1 = sx_name p" "sx_owner p1 = sx_owner p" "still out1"
      using 1 modem_ensure_same [of env p] modem_still [of env p] by (auto split: if_splits)
    have idle: "still (snd (poll_idle_modem env p1))" using modem_still by (simp add: poll_idle_modem_def split: read_result.split)
    have revoked: "still (snd (poll_owned env c p1))" if "\<not> allowed env c p" for c
      using that allowed_name [OF p1(1)] by (simp add: poll_owned_def)
    have "still (snd (poll_port env p))" if "\<not> permitted env p"
      using that True p1 idle revoked
      by (cases "sx_owner p") (auto simp: permitted_def poll_port_def 1 split_beta)
    with assms(2,3) show ?thesis unfolding still_def by (cases "permitted env p") auto
  qed (simp add: permitted_def)
  with n show ?thesis by simp
qed

lemma serial_command_still: "serial_command env c rq i st = (st', out) \<Longrightarrow> still out"
  by (auto simp: serial_command_def Let_def split: if_splits option.splits)

lemma serial_open_permitted:
  assumes "serial_open env c rq st = (st', out)" "e \<in> set out" "moves e = Some n"
  shows "\<exists>p \<in> set (sl_exports st'). sx_name p = n \<and> permitted env p"
proof -
  define bad where "bad \<longleftrightarrow> rq_name rq = [] \<or> 64 \<le> length (rq_name rq) \<or> rq_has_path rq \<or> rq_port rq = None \<or> rq_port rq = Some [] \<or> CHR ''/'' \<in> set (the (rq_port rq))"
  have one: "False" if "out = [r]" "moves r = None" for r using that assms(2,3) by auto
  note x = assms(1) [unfolded serial_open_def Let_def, folded bad_def]
  have n1: "\<not> bad" using x one by auto
  note x = x [unfolded if_not_P [OF n1]]
  have n2: "owned c (rq_name rq) (sl_exports st) = None" using x one by (cases "owned c (rq_name rq) (sl_exports st)") (auto split: if_splits)
  note x = x [unfolded n2 option.case]
  obtain i where i: "find_idx (\<lambda>p. sx_service p = 0 \<and> sx_name p = the (rq_port rq)) (sl_exports st) = Some i"
    using x one by (cases "find_idx (\<lambda>p. sx_service p = 0 \<and> sx_name p = the (rq_port rq)) (sl_exports st)") auto
  let ?p = "sl_exports st ! i"
  from find_idx_SomeD [OF i] have len: "i < length (sl_exports st)" "sx_service ?p = 0" by auto
  note x = x [unfolded i option.case]
  have a: "allowed env c ?p" "sx_owner ?p = None" using x one by (auto split: if_splits)
  obtain proposed where o: "open_port env c (rq_name rq) proposed i st = (st', out)" using x one by (auto split: if_splits option.splits)
  obtain q o1 where 1: "open_device env proposed ?p = (q, o1)" by (metis prod.exhaust)
  have q: "sx_name q = sx_name ?p" "still o1"
    using 1 modem_ensure_same [of env ?p] modem_still [of env ?p] by (auto simp: open_device_def split: if_splits)
  obtain stream ss where 2: "allocate_stream env c (sl_sessions st) = (stream, ss)" by (metis prod.exhaust)
  have ne: "sx_fd q \<noteq> None" "stream \<noteq> 0" using o assms(2,3) q(2) by (auto simp: open_port_def 1 2 Let_def still_def split: if_splits)
  let ?r = "serial_opened c (rq_name rq) stream proposed q"
  have "sl_exports st' = (sl_exports st)[i := ?r]" "out = o1 @ [Started (sx_name q) c stream, reply c ''opened'' (rq_name rq) ?r None]"
    using o ne by (auto simp: open_port_def 1 2 Let_def)
  then have "?r \<in> set (sl_exports st')" "sx_name ?r = n" using len(1) assms(2,3) q by (auto simp: set_update_memI still_def)
  moreover have "permitted env ?r" using a(1) q(1) allowed_name [of ?r ?p env c] by (simp add: permitted_def serial_opened_def)
  ultimately show ?thesis by blast
qed

text \<open>
  C29. Nothing moves without authority. In every step, whatever the state: when a port is opened, takes bytes of a client,
  writes or reads its device or sends a packet, it is a GPS service of the server, or held by a client whose account is
  good at that moment and has the privilege for all serial devices or for this one.
\<close>

theorem serial_authorized:
  assumes "io_ok env" "serial_step (env, e) st = (st', out)" "x \<in> set out" "moves x = Some n"
  shows "\<exists>p \<in> set (sl_exports st) \<union> set (sl_exports st'). sx_name p = n \<and>
    (sx_service p \<noteq> 0 \<or> (\<exists>c. sx_owner p = Some c \<and> allowed env c p))"
proof -
  have "\<exists>p \<in> set (sl_exports st) \<union> set (sl_exports st'). sx_name p = n \<and> permitted env p"
  proof (cases e)
    case (X_request c rq)
    define st1 where "st1 = (if rq_cmd rq = ''list'' \<or> rq_cmd rq = ''open'' then st\<lparr>sl_exports := serial_discover_usb env (sl_exports st)\<rparr> else st)"
    have moved: "\<not> still out" using assms(3,4) by (auto simp: still_def)
    note y = assms(2) [unfolded X_request serial_step.simps serial_request_def Let_def, folded st1_def]
    have "\<not> malformed rq" using y moved by (cases "malformed rq") auto
    note y = y [unfolded if_not_P [OF this]]
    have "rq_cmd rq \<noteq> ''list''" using y moved by (auto simp: serial_list_def still_def)
    moreover have "rq_cmd rq = ''open''"
    proof (rule ccontr)
      assume "rq_cmd rq \<noteq> ''open''"
      with y moved serial_command_still \<open>rq_cmd rq \<noteq> ''list''\<close> show False
        by (cases "owned c (rq_name rq) (sl_exports st1)") (auto split: if_splits)
    qed
    ultimately have "serial_open env c rq st1 = (st', out)" using y by simp
    from serial_open_permitted [OF this assms(3,4)] show ?thesis by blast
  next
    case (X_frame c bytes)
    then have y: "serial_frame env c bytes st = (st', out)" using assms(2) by simp
    obtain stream seq data where f: "sv_frame env bytes = Some (stream, seq, data)"
      using y assms(3) by (cases "sv_frame env bytes") (auto simp: serial_frame_def)
    obtain i where i: "find_idx (frame_port env c stream) (sl_exports st) = Some i"
      using y assms(3) by (cases "find_idx (frame_port env c stream) (sl_exports st)") (auto simp: serial_frame_def f)
    let ?p = "sl_exports st ! i"
    from find_idx_SomeD [OF i] have p: "?p \<in> set (sl_exports st)" "permitted env ?p" by (auto simp: frame_port_def permitted_def)
    moreover have "sx_name ?p = n" using y assms(3,4) by (auto simp: serial_frame_def f i Let_def split: if_splits)
    ultimately show ?thesis by blast
  next
    case X_poll
    then obtain p where p: "p \<in> set (sl_exports st)" "x \<in> set (snd (poll_port env p))"
      using assms(2,3) by (auto simp: rrserver_serial_poll_def)
    from poll_port_permitted [OF assms(1) p(2) assms(4)] p(1) show ?thesis by blast
  qed (use assms(2-4) in \<open>auto simp: serial_closed_def\<close>)
  then show ?thesis by (simp add: permitted_def)
qed

section \<open>Stream identifiers\<close>

definition holders :: "serial_export list \<Rightarrow> (nat \<times> nat) list" where
  "holders ps = map (\<lambda>p. (the (sx_owner p), sx_stream p)) (filter (\<lambda>p. sx_owner p \<noteq> None) ps)"

definition streams_ok :: "serial \<Rightarrow> bool" where
  "streams_ok st \<longleftrightarrow> distinct (holders (sl_exports st)) \<and> (\<forall>c. distinct (issued_ids (sl_sessions st) c)) \<and>
     (\<forall>c. set (issued_ids (sl_sessions st) c) \<subseteq> {1..<SERIAL_STREAMS_MAX}) \<and> (\<forall>(c, s) \<in> set (holders (sl_exports st)). s \<in> set (issued_ids (sl_sessions st) c))"

definition starts :: "nat \<Rightarrow> serial_effect list \<Rightarrow> nat list" where
  "starts c out = concat (map (\<lambda>e. case e of Started n c' s \<Rightarrow> if c' = c then [s] else [] | _ \<Rightarrow> []) out)"

lemma starts_simps [simp]: "starts c [] = []" "starts c (xs @ ys) = starts c xs @ starts c ys"
  "starts c (Started n c' s # out) = (if c' = c then s # starts c out else starts c out)"
  "starts c (Reply c' cmd name port err # out) = starts c out" "starts c (Closed_port n # out) = starts c out"
  by (simp_all add: starts_def)

definition unstarted :: "serial_effect list \<Rightarrow> bool" where
  "unstarted out \<longleftrightarrow> (\<forall>e \<in> set out. case e of Started n c s \<Rightarrow> False | _ \<Rightarrow> True)"

lemma unstarted_simps [simp]: "unstarted []" "unstarted (xs @ ys) \<longleftrightarrow> unstarted xs \<and> unstarted ys"
  "unstarted (e # out) \<longleftrightarrow> (case e of Started n c s \<Rightarrow> False | _ \<Rightarrow> True) \<and> unstarted out"
  by (auto simp: unstarted_def)

lemma unstarted_starts: "unstarted out \<Longrightarrow> starts c out = []"
  by (induction out) (auto simp: starts_def split: serial_effect.splits)

text \<open>A port that is not opened keeps its client and stream or loses them.\<close>

definition keeps_stream :: "serial_export \<Rightarrow> serial_export \<times> serial_effect list \<Rightarrow> bool" where
  "keeps_stream p x \<longleftrightarrow> (case x of (q, out) \<Rightarrow> unstarted out \<and> (sx_owner q = None \<or> (sx_owner q = sx_owner p \<and> sx_stream q = sx_stream p)))"

lemma keeps_stream_trans: "keeps_stream p (q, out) \<Longrightarrow> keeps_stream q (r, out') \<Longrightarrow> keeps_stream p (r, out @ out')"
  by (auto simp: keeps_stream_def)

lemma keeps_stream_refl [simp]: "keeps_stream p (p, [])"
  by (simp add: keeps_stream_def)

lemma modem_keeps: "keeps_stream p (modem_failed env p)" "keeps_stream p (modem_ensure_running env p)"
  by (auto simp: keeps_stream_def modem_failed_def modem_ensure_running_def split: option.split)

lemma turn_keeps:
  "case turn_write env c p of (q, t, out) \<Rightarrow> keeps_stream p (q, out)" "case turn_read env p of (q, t, out) \<Rightarrow> keeps_stream p (q, out)"
  "case turn_send env c p of (q, t, out) \<Rightarrow> keeps_stream p (q, out)"
  by (simp_all add: keeps_stream_def turn_write_def turn_read_def turn_send_def Let_def reply_def split: write_result.split read_result.split)

lemma then_turn_keeps:
  assumes "case x of (q, t, out) \<Rightarrow> keeps_stream p (q, out)" "\<And>q. case f q of (r, t, out) \<Rightarrow> keeps_stream q (r, out)"
  shows "case then_turn x f of (q, t, out) \<Rightarrow> keeps_stream p (q, out)"
proof -
  obtain q t out where 1: "x = (q, t, out)" by (metis prod_cases3)
  obtain r t' out' where 2: "f q = (r, t', out')" by (metis prod_cases3)
  show ?thesis using assms(1) assms(2) [of q] keeps_stream_trans [of p q out r out'] by (simp add: then_turn_def 1 2)
qed

lemma port_lost_keeps: "keeps_stream p (port_lost env c p)"
  using modem_keeps(1) [of p env] by (cases "modem_failed env p") (simp add: port_lost_def keeps_stream_def reply_def)

lemma poll_owned_keeps: "keeps_stream p (poll_owned env c p)"
proof (cases "allowed env c p")
  case False
  then show ?thesis by (simp add: poll_owned_def keeps_stream_def reply_def)
next
  case True
  let ?x = "then_turn (then_turn (turn_write env c p) (turn_read env)) (turn_send env c)"
  obtain q t out where x: "?x = (q, t, out)" by (metis prod_cases3)
  have "case ?x of (q, t, out) \<Rightarrow> keeps_stream p (q, out)" by (intro then_turn_keeps turn_keeps)
  then have k: "keeps_stream p (q, out)" by (simp add: x)
  obtain r out' where l: "port_lost env c q = (r, out')" by (metis prod.exhaust)
  show ?thesis using True k keeps_stream_trans [OF k, of r out'] port_lost_keeps [of q env c] by (simp add: poll_owned_def x l)
qed

lemma gps_input_unstarted: "unstarted (snd (gps_input env s p)) \<and> sx_owner (fst (gps_input env s p)) = sx_owner p \<and>
    sx_stream (fst (gps_input env s p)) = sx_stream p"
proof (induction s arbitrary: p)
  case (Cons ch s)
  have "unstarted (snd (gps_char ch env p)) \<and> sx_owner (fst (gps_char ch env p)) = sx_owner p \<and> sx_stream (fst (gps_char ch env p)) = sx_stream p"
    by (simp add: gps_char_def)
  with Cons [of "fst (gps_char ch env p)"] show ?case by (simp add: split_beta)
qed simp

lemma poll_service_keeps: "keeps_stream p (poll_service env p)"
  using gps_input_unstarted [of env _ p] by (simp add: poll_service_def keeps_stream_def split_beta split: write_result.split read_result.split)

lemma poll_port_keeps: "keeps_stream p (poll_port env p)"
proof (cases "sx_service p = 0")
  case False
  then show ?thesis using poll_service_keeps by (simp add: poll_port_def)
next
  case True
  obtain p1 out1 where 1: "(if sx_modem p then modem_ensure_running env p else (p, [])) = (p1, out1)" by (metis prod.exhaust)
  have k: "keeps_stream p (p1, out1)" using 1 modem_keeps(2) [of p env] by (auto split: if_splits)
  have idle: "keeps_stream p1 (poll_idle_modem env p1)" using modem_keeps(1) [of p1 env] by (simp add: poll_idle_modem_def keeps_stream_def split: read_result.split)
  have closed: "keeps_stream p1 (close_port p1, [reply c cmd n q err, Closed_port m])" for c cmd n q err m by (simp add: keeps_stream_def reply_def)
  show ?thesis
  proof (cases "sx_owner p1")
    case None
    with k idle keeps_stream_trans [OF k] show ?thesis by (cases "poll_idle_modem env p1") (simp add: poll_port_def True 1)
  next
    case (Some c)
    with k poll_owned_keeps [of p1 env c] keeps_stream_trans [OF k] keeps_stream_trans [OF k closed] show ?thesis
      by (cases "poll_owned env c p1") (simp add: poll_port_def True 1)
  qed
qed

lemma holders_map:
  assumes "\<And>p. sx_owner (g p) = None \<or> (sx_owner (g p) = sx_owner p \<and> sx_stream (g p) = sx_stream p)"
  shows "mset (holders (map g ps)) \<subseteq># mset (holders ps)"
proof (induction ps)
  case (Cons p ps)
  with assms [of p] show ?case by (auto simp: holders_def intro: subset_mset.order_trans)
qed (simp add: holders_def)

lemma holders_update:
  assumes "i < length ps" "sx_owner q = None \<or> (sx_owner q = sx_owner (ps ! i) \<and> sx_stream q = sx_stream (ps ! i))"
  shows "mset (holders (ps[i := q])) \<subseteq># mset (holders ps)"
proof -
  have "ps = take i ps @ ps ! i # drop (Suc i) ps" using assms(1) by (rule id_take_nth_drop)
  moreover have "ps[i := q] = take i ps @ q # drop (Suc i) ps" using assms(1) by (rule upd_conv_take_nth_drop)
  moreover have "mset (holders (xs @ q # ys)) \<subseteq># mset (holders (xs @ ps ! i # ys))" for xs ys using assms(2) by (auto simp: holders_def)
  ultimately show ?thesis by metis
qed

lemma distinct_mset_less:
  assumes "mset xs \<subseteq># mset ys" "distinct ys"
  shows "distinct xs"
proof -
  have le: "count (mset xs) a \<le> 1" for a
  proof -
    have "count (mset ys) a = (if a \<in> set ys then 1 else 0)" using assms(2) by (simp only: distinct_count_atmost_1)
    also have "\<dots> \<le> 1" by simp
    finally show ?thesis using mset_subset_eq_count [OF assms(1), of a] by (rule order_trans [rotated])
  qed
  show ?thesis unfolding distinct_count_atmost_1
  proof
    fix a
    show "count (mset xs) a = (if a \<in> set xs then 1 else 0)" using le [of a] count_greater_zero_iff [of "mset xs" a] by (auto simp: le_antisym Suc_leI)
  qed
qed

lemma streams_ok_less:
  assumes "streams_ok st" "mset (holders (sl_exports st')) \<subseteq># mset (holders (sl_exports st))" "sl_sessions st' = sl_sessions st"
  shows "streams_ok st'"
proof -
  have "set (holders (sl_exports st')) \<subseteq> set (holders (sl_exports st))" using assms(2) by (metis set_mset_mono set_mset_mset)
  moreover have "distinct (holders (sl_exports st'))"
    using assms(1) distinct_mset_less [OF assms(2)] by (simp add: streams_ok_def)
  ultimately show ?thesis using assms(1,3) by (auto simp: streams_ok_def)
qed

lemma issue_other: "c' \<noteq> c \<Longrightarrow> issued_ids (issue c k ss) c' = issued_ids ss c'"
  by (induction c k ss rule: issue.induct) (auto simp: issued_ids_def)

lemma issue_same: "map_of ss c \<noteq> None \<Longrightarrow> issued_ids (issue c k ss) c = k # issued_ids ss c"
  by (induction c k ss rule: issue.induct) (auto simp: issued_ids_def)

lemma allocate_cases:
  assumes "allocate_stream env c ss = (k, ss')"
  shows "(k = 0 \<and> (\<forall>c'. issued_ids ss' c' = issued_ids ss c')) \<or>
    (1 \<le> k \<and> k < SERIAL_STREAMS_MAX \<and> k \<notin> set (issued_ids ss c) \<and> issued_ids ss' c = k # issued_ids ss c \<and> (\<forall>c'. c' \<noteq> c \<longrightarrow> issued_ids ss' c' = issued_ids ss c'))"
proof (cases "map_of ss c = None \<and> \<not> sv_calloc env")
  case True
  then show ?thesis using assms by (simp add: allocate_stream_def)
next
  case False
  define ss1 where "ss1 = (if map_of ss c = None then (c, []) # ss else ss)"
  have s: "issued_ids ss1 c' = issued_ids ss c'" "map_of ss1 c \<noteq> None" for c' by (auto simp: ss1_def issued_ids_def)
  note x = assms [unfolded allocate_stream_def if_not_P [OF False] Let_def, folded ss1_def]
  show ?thesis
  proof (cases "List.find (\<lambda>k. k \<notin> set (issued_ids ss1 c)) [1..<SERIAL_STREAMS_MAX]")
    case None
    then show ?thesis using x s by simp
  next
    case (Some j)
    from find_SomeD [OF Some] have "1 \<le> j" "j < SERIAL_STREAMS_MAX" "j \<notin> set (issued_ids ss1 c)" by auto
    moreover have "k = j" "ss' = issue c j ss1" using x [unfolded Some option.case] by auto
    ultimately show ?thesis using s issue_other issue_same [OF s(2)] by auto
  qed
qed

text \<open>One step: streams stay sound, and what is started is issued.\<close>

definition step_streams :: "nat \<Rightarrow> serial \<Rightarrow> serial \<times> serial_effect list \<Rightarrow> bool" where
  "step_streams c st x \<longleftrightarrow> (case x of (st', out) \<Rightarrow> streams_ok st' \<and> issued_ids (sl_sessions st') c = rev (starts c out) @ issued_ids (sl_sessions st) c)"

lemma step_streams_quiet:
  "streams_ok st \<Longrightarrow> mset (holders (sl_exports st')) \<subseteq># mset (holders (sl_exports st)) \<Longrightarrow> sl_sessions st' = sl_sessions st \<Longrightarrow> unstarted out \<Longrightarrow>
     step_streams c st (st', out)"
  using streams_ok_less [of st st'] by (simp add: step_streams_def unstarted_starts)

lemma step_streams_put:
  assumes "streams_ok st" "i < length (sl_exports st)" "keeps_stream (sl_exports st ! i) (q, out)"
  shows "step_streams c st (put_port i q st, out)"
  using assms holders_update [OF assms(2), of q] by (intro step_streams_quiet) (auto simp: keeps_stream_def put_port_def)

lemma holders_gone: "mset (holders (drop_gone env i ps)) = mset (holders ps)"
proof (induction env i ps rule: drop_gone.induct)
  case (1 env i ps)
  let ?qs = "butlast (ps[i := last ps])"
  show ?case
  proof (cases "length ps \<le> i")
    case True
    then show ?thesis by (subst drop_gone.simps) simp
  next
    case in_range: False
    show ?thesis
    proof (cases "gone env (ps ! i)")
      case True
      then have none: "sx_owner (ps ! i) = None" by (simp add: gone_def)
      obtain ys y where ps: "ps = ys @ [y]" using in_range by (cases ps rule: rev_cases) auto
      have "mset (holders ?qs) = mset (holders ps)"
      proof (cases "i < length ys")
        case True
        then have "ys = take i ys @ ps ! i # drop (Suc i) ys" by (simp add: ps nth_append id_take_nth_drop)
        moreover have "?qs = take i ys @ y # drop (Suc i) ys" using True by (simp add: ps list_update_append upd_conv_take_nth_drop butlast_append)
        moreover have "mset (holders (as @ y # bs)) = mset (holders ((as @ ps ! i # bs) @ [y]))" for as bs using none by (simp add: holders_def)
        ultimately show ?thesis using ps by metis
      next
        case False
        then show ?thesis using none in_range by (simp add: ps holders_def list_update_append nth_append)
      qed
      moreover have "drop_gone env i ps = drop_gone env i ?qs" using in_range True by (subst drop_gone.simps) simp
      ultimately show ?thesis using "1.IH"(1) [OF in_range True] by simp
    next
      case False
      have "drop_gone env i ps = drop_gone env (i + 1) ps" using in_range False by (subst drop_gone.simps) simp
      with "1.IH"(2) [OF in_range False] show ?thesis by simp
    qed
  qed
qed

lemma holders_usb: "holders (add_usb env names ps) = holders ps"
  by (induction env names ps rule: add_usb.induct) (auto simp: holders_def)

lemma holders_discover: "mset (holders (serial_discover_usb env ps)) = mset (holders ps)"
  by (simp add: serial_discover_usb_def Let_def holders_gone holders_usb split: option.split)

lemma streams_ok_same:
  "streams_ok st \<Longrightarrow> sl_exports st' = sl_exports st \<Longrightarrow> (\<And>c. issued_ids (sl_sessions st') c = issued_ids (sl_sessions st) c) \<Longrightarrow> streams_ok st'"
  by (simp add: streams_ok_def)

lemma open_port_streams:
  assumes "streams_ok st" "i < length (sl_exports st)" "sx_owner (sl_exports st ! i) = None" "open_port env c0 name proposed i st = (st', out)"
  shows "step_streams c st (st', out)"
proof -
  let ?p = "sl_exports st ! i"
  obtain p o1 where 1: "open_device env proposed ?p = (p, o1)" by (metis prod.exhaust)
  have p: "sx_owner p = None" "unstarted o1"
    using 1 modem_keeps(2) [of ?p env] assms(3) by (auto simp: open_device_def keeps_stream_def split: if_splits)
  have less: "mset (holders ((sl_exports st)[i := q])) \<subseteq># mset (holders (sl_exports st))" if "sx_owner q = None" for q
    using holders_update [OF assms(2), of q] that by simp
  obtain k ss where 2: "allocate_stream env c0 (sl_sessions st) = (k, ss)" by (metis prod.exhaust)
  note a = allocate_cases [OF 2]
  consider "sx_fd p = None" | "sx_fd p \<noteq> None" "k = 0" | "sx_fd p \<noteq> None" "k \<noteq> 0" by blast
  then show ?thesis
  proof cases
    case 1
    then show ?thesis using assms(1,4) less [OF p(1)] p(2) by (intro step_streams_quiet) (auto simp: open_port_def \<open>open_device env proposed ?p = (p, o1)\<close> refuse_def)
  next
    case 2
    let ?st = "st\<lparr>sl_exports := (sl_exports st)[i := close_port p]\<rparr>"
    have "streams_ok ?st" using less [of "close_port p"] by (intro streams_ok_less [OF assms(1)]) simp_all
    moreover have ids: "issued_ids ss c' = issued_ids (sl_sessions st) c'" for c' using a 2 by auto
    moreover have "st' = ?st\<lparr>sl_sessions := ss\<rparr>" "starts c out = []"
      using assms(4) 2 p(2) by (auto simp: open_port_def 1 \<open>allocate_stream env c0 (sl_sessions st) = (k, ss)\<close> Let_def unstarted_starts refuse_def)
    ultimately show ?thesis using streams_ok_same [of ?st st'] by (simp add: step_streams_def)
  next
    case 3
    let ?q = "serial_opened c0 name k proposed p"
    have st': "sl_exports st' = (sl_exports st)[i := ?q]" "sl_sessions st' = ss" "starts c out = (if c0 = c then [k] else [])"
      using assms(4) 3 p(2) by (auto simp: open_port_def 1 2 Let_def unstarted_starts reply_def)
    from a 3 have k: "1 \<le> k" "k < SERIAL_STREAMS_MAX" "k \<notin> set (issued_ids (sl_sessions st) c0)" "issued_ids ss c0 = k # issued_ids (sl_sessions st) c0"
      "\<forall>c'. c' \<noteq> c0 \<longrightarrow> issued_ids ss c' = issued_ids (sl_sessions st) c'" by auto
    have split: "sl_exports st = take i (sl_exports st) @ ?p # drop (Suc i) (sl_exports st)" using assms(2) by (rule id_take_nth_drop)
    have "holders (sl_exports st) = holders (take i (sl_exports st)) @ holders (drop (Suc i) (sl_exports st))"
      by (subst split) (use assms(3) in \<open>simp add: holders_def\<close>)
    moreover have "holders (sl_exports st') = holders (take i (sl_exports st)) @ (c0, k) # holders (drop (Suc i) (sl_exports st))"
      unfolding st'(1) upd_conv_take_nth_drop [OF assms(2)] by (simp add: holders_def serial_opened_def)
    moreover have "(c0, k) \<notin> set (holders (sl_exports st))" using assms(1) k(3) by (auto simp: streams_ok_def)
    ultimately have "distinct (holders (sl_exports st'))" "set (holders (sl_exports st')) = insert (c0, k) (set (holders (sl_exports st)))"
      using assms(1) by (auto simp: streams_ok_def)
    moreover have "distinct (issued_ids ss c')" for c' using assms(1) k(3-5) by (cases "c' = c0") (auto simp: streams_ok_def)
    moreover have "set (issued_ids ss c') \<subseteq> {1..<SERIAL_STREAMS_MAX}" for c'
    proof (cases "c' = c0")
      case True
      have "set (issued_ids (sl_sessions st) c0) \<subseteq> {1..<SERIAL_STREAMS_MAX}" using assms(1) by (simp add: streams_ok_def)
      with True k(1,2,4) show ?thesis by simp
    qed (use assms(1) k(5) in \<open>simp add: streams_ok_def\<close>)
    moreover have "set (issued_ids (sl_sessions st) c') \<subseteq> set (issued_ids ss c')" for c' using k(4,5) by (cases "c' = c0") auto
    ultimately have "streams_ok st'" using assms(1) k(1,2,4) unfolding streams_ok_def st'(2) by fastforce
    then show ?thesis using st' k(4,5) by (auto simp: step_streams_def)
  qed
qed

lemma serial_open_streams:
  assumes "streams_ok st" "serial_open env c0 rq st = (st', out)"
  shows "step_streams c st (st', out)"
proof -
  have one: "step_streams c st (st', out)" if "st' = st" "out = [r]" "unstarted [r]" for r
    using that assms(1) by (intro step_streams_quiet) auto
  have r: "unstarted [refuse c1 n why]" "unstarted [reply c1 cmd n p err]" for c1 n why cmd p err by (simp_all add: refuse_def reply_def)
  define bad where "bad \<longleftrightarrow> rq_name rq = [] \<or> 64 \<le> length (rq_name rq) \<or> rq_has_path rq \<or> rq_port rq = None \<or> rq_port rq = Some [] \<or> CHR ''/'' \<in> set (the (rq_port rq))"
  note x = assms(2) [unfolded serial_open_def Let_def, folded bad_def]
  show ?thesis
  proof (cases "bad")
    case True
    then show ?thesis using x one r by auto
  next
    case False
    note x = x [unfolded if_not_P [OF False]]
    show ?thesis
    proof (cases "owned c0 (rq_name rq) (sl_exports st)")
      case (Some i)
      then show ?thesis using x one r by (auto split: if_splits)
    next
      case None
      note x = x [unfolded None option.case]
      show ?thesis
      proof (cases "find_idx (\<lambda>p. sx_service p = 0 \<and> sx_name p = the (rq_port rq)) (sl_exports st)")
        case None
        note x = x [unfolded None option.case]
        show ?thesis using x one r by auto
      next
        case (Some i)
        from find_idx_SomeD [OF Some] have i: "i < length (sl_exports st)" by auto
        note x = x [unfolded Some option.case]
        show ?thesis using x one r open_port_streams [OF assms(1) i] by (auto split: if_splits option.splits)
      qed
    qed
  qed
qed

lemma serial_command_streams:
  assumes "streams_ok st" "i < length (sl_exports st)" "serial_command env c0 rq i st = (st', out)"
  shows "step_streams c st (st', out)"
proof -
  let ?p = "sl_exports st ! i"
  have put: "step_streams c st (put_port i q st, o')" if "unstarted o'" "sx_owner q = None \<or> (sx_owner q = sx_owner ?p \<and> sx_stream q = sx_stream ?p)" for q o'
    using that by (intro step_streams_put [OF assms(1,2)]) (simp add: keeps_stream_def)
  have same: "step_streams c st (st, o')" if "unstarted o'" for o' using that assms(1) by (intro step_streams_quiet) auto
  show ?thesis using assms(3) same put by (auto simp: serial_command_def Let_def reply_def split: if_splits option.splits)
qed

lemma serial_request_streams:
  assumes "streams_ok st" "serial_request env c0 rq st = (st', out)"
  shows "step_streams c st (st', out)"
proof -
  define st1 where "st1 = (if rq_cmd rq = ''list'' \<or> rq_cmd rq = ''open'' then st\<lparr>sl_exports := serial_discover_usb env (sl_exports st)\<rparr> else st)"
  have s: "sl_sessions st1 = sl_sessions st" "mset (holders (sl_exports st1)) = mset (holders (sl_exports st))"
    by (simp_all add: st1_def holders_discover)
  then have ok: "streams_ok st1" by (intro streams_ok_less [OF assms(1)]) simp_all
  have up: "step_streams c st (st', out)" if "step_streams c st1 (st', out)" using that by (simp add: step_streams_def s)
  have same: "step_streams c st1 (st1, o')" "step_streams c st (st, o')" if "unstarted o'" for o'
    using that assms(1) ok by (auto intro: step_streams_quiet)
  have l: "unstarted (serial_list env c0 ps)" for ps by (auto simp: serial_list_def unstarted_def reply_def)
  have r: "unstarted [refuse c0 n why]" for n why by (simp add: refuse_def)
  note x = assms(2) [unfolded serial_request_def Let_def, folded st1_def]
  show ?thesis
  proof (cases "malformed rq")
    case True
    then show ?thesis using x same(2) [OF r] by auto
  next
    case False
    note x = x [unfolded if_not_P [OF False]]
    consider "rq_cmd rq = ''list''" | "rq_cmd rq = ''open''" | "rq_cmd rq \<notin> {''list'', ''open''}" by blast
    then show ?thesis
    proof cases
      case 1
      then show ?thesis using x same(1) [OF l] up by auto
    next
      case 2
      then show ?thesis using x serial_open_streams [OF ok] up by simp
    next
      case 3
      then have x: "(case owned c0 (rq_name rq) (sl_exports st1) of None \<Rightarrow> (st1, [refuse c0 (rq_name rq) ''not-open''])
        | Some i \<Rightarrow> if \<not> allowed env c0 (sl_exports st1 ! i) then (st1, [refuse c0 (rq_name rq) ''not-open''])
            else if stream_field rq \<noteq> 0 \<and> stream_field rq \<noteq> sx_stream (sl_exports st1 ! i) then (st1, []) else serial_command env c0 rq i st1) = (st', out)"
        using x by simp
      show ?thesis
      proof (cases "owned c0 (rq_name rq) (sl_exports st1)")
        case None
        then show ?thesis using x same(1) [OF r] up by auto
      next
        case (Some i)
        then have "i < length (sl_exports st1)" using find_idx_SomeD by (auto simp: owned_def)
        from serial_command_streams [OF ok this] show ?thesis using x same(1) [OF r] same(1) [of "[]"] up by (auto simp: Some split: if_splits)
      qed
    qed
  qed
qed

lemma serial_step_streams:
  assumes "streams_ok st" "serial_step (env, e) st = (st', out)"
  shows "streams_ok st' \<and> (e \<noteq> X_closed c \<longrightarrow> issued_ids (sl_sessions st') c = rev (starts c out) @ issued_ids (sl_sessions st) c)"
proof (cases e)
  case (X_request c0 rq)
  with serial_request_streams [OF assms(1)] assms(2) show ?thesis by (auto simp: step_streams_def)
next
  case (X_frame c0 bytes)
  have "step_streams c st (st', out)"
  proof (cases "sv_frame env bytes")
    case None
    then show ?thesis using assms X_frame by (auto simp: serial_frame_def intro: step_streams_quiet)
  next
    case (Some f)
    then obtain stream seq data where f: "sv_frame env bytes = Some (stream, seq, data)" by (cases f) auto
    show ?thesis
    proof (cases "find_idx (frame_port env c0 stream) (sl_exports st)")
      case None
      show ?thesis using assms X_frame by (auto simp: serial_frame_def f None [simplified] None intro: step_streams_quiet)
    next
      case (Some i)
      from find_idx_SomeD [OF Some] have i: "i < length (sl_exports st)" by auto
      show ?thesis using assms(2) X_frame step_streams_put [OF assms(1) i]
        by (auto simp: serial_frame_def f Some Let_def keeps_stream_def reply_def split: if_splits)
    qed
  qed
  then show ?thesis by (simp add: step_streams_def)
next
  case (X_closed c0)
  let ?ps = "sl_exports st" and ?g = "\<lambda>p. if sx_owner p = Some c0 then close_port p else p"
  have st': "sl_exports st' = map ?g ?ps" "sl_sessions st' = filter (\<lambda>s. fst s \<noteq> c0) (sl_sessions st)" "starts c out = []" for c
  proof -
    show "starts c out = []" using assms(2) X_closed by (auto simp: serial_closed_def unstarted_def intro!: unstarted_starts)
  qed (use assms(2) X_closed in \<open>auto simp: serial_closed_def\<close>)
  have "mset (holders (sl_exports st')) \<subseteq># mset (holders ?ps)" unfolding st'(1) by (rule holders_map) simp
  then have less: "distinct (holders (sl_exports st'))" "set (holders (sl_exports st')) \<subseteq> set (holders ?ps)"
    using assms(1) distinct_mset_less [of "holders (sl_exports st')" "holders ?ps"] set_mset_mono [of "mset (holders (sl_exports st'))" "mset (holders ?ps)"] by (simp_all add: streams_ok_def)
  have gone: "c' \<noteq> c0" if "(c', s) \<in> set (holders (sl_exports st'))" for c' s using that by (auto simp: st'(1) holders_def split: if_splits)
  have "map_of (filter (\<lambda>s. fst s \<noteq> c0) ss) c' = (if c' = c0 then None else map_of ss c')" for ss :: "(nat \<times> nat list) list" and c'
    by (induction ss) auto
  then have ids: "issued_ids (sl_sessions st') c' = (if c' = c0 then [] else issued_ids (sl_sessions st) c')" for c' by (simp add: issued_ids_def st'(2))
  have held: "k \<in> set (issued_ids (sl_sessions st') c')" if "(c', k) \<in> set (holders (sl_exports st'))" for c' k
  proof -
    have "(c', k) \<in> set (holders ?ps)" using less(2) that by blast
    then have "k \<in> set (issued_ids (sl_sessions st) c')" using assms(1) by (auto simp: streams_ok_def)
    with gone [OF that] show ?thesis by (simp add: ids)
  qed
  have "distinct (issued_ids (sl_sessions st') c')" "set (issued_ids (sl_sessions st') c') \<subseteq> {1..<SERIAL_STREAMS_MAX}" for c'
    using assms(1) by (simp_all add: ids streams_ok_def)
  with held less(1) have "streams_ok st'" unfolding streams_ok_def by blast
  then show ?thesis using ids st'(3) X_closed by simp
next
  case (X_gps raw scope sentence fixed)
  have "sl_sessions st' = sl_sessions st" "out = []" "mset (holders (sl_exports st')) \<subseteq># mset (holders (sl_exports st))"
    using assms(2) X_gps holders_map [of "gps_put env raw scope sentence fixed"] by (auto simp: gps_output_def gps_put_def)
  then show ?thesis using step_streams_quiet [OF assms(1), of st' out c] by (simp add: step_streams_def)
next
  case X_poll
  have k: "unstarted (snd (poll_port env p))" "sx_owner (fst (poll_port env p)) = None \<or>
      (sx_owner (fst (poll_port env p)) = sx_owner p \<and> sx_stream (fst (poll_port env p)) = sx_stream p)" for p
    using poll_port_keeps [of p env] by (auto simp: keeps_stream_def split_beta)
  have less: "mset (holders (map (fst \<circ> poll_port env) ps)) \<subseteq># mset (holders ps)" for ps by (rule holders_map) (use k(2) in simp)
  have "sl_sessions st' = sl_sessions st" "mset (holders (sl_exports st')) \<subseteq># mset (holders (sl_exports st))" "unstarted out"
    using assms(2) X_poll k(1) less by (auto simp: rrserver_serial_poll_def unstarted_def)
  then show ?thesis using step_streams_quiet [OF assms(1), of st' out c] by (simp add: step_streams_def)
qed

lemma serial_run_streams:
  assumes "streams_ok st" "serial_run run st = (st', out)"
  shows "streams_ok st' \<and> ((\<forall>x \<in> set run. snd x \<noteq> X_closed c) \<longrightarrow> issued_ids (sl_sessions st') c = rev (starts c out) @ issued_ids (sl_sessions st) c)"
  using assms
proof (induction run arbitrary: st st' out)
  case (Cons x xs)
  obtain st1 out1 where 1: "serial_step x st = (st1, out1)" by (metis prod.exhaust)
  obtain st2 out2 where 2: "serial_run xs st1 = (st2, out2)" by (metis prod.exhaust)
  from serial_step_streams [OF Cons.prems(1), of "fst x" "snd x" st1 out1 c] 1 have s: "streams_ok st1"
    "snd x \<noteq> X_closed c \<longrightarrow> issued_ids (sl_sessions st1) c = rev (starts c out1) @ issued_ids (sl_sessions st) c" by simp_all
  from Cons.IH [OF s(1) 2] s Cons.prems(2) show ?case by (auto simp: 1 2)
qed simp

text \<open>
  C35. A stream identifier is never used twice on a connection: whatever ran before, as long as a client stays connected
  no two ports it opens get the same stream, none gets one it still holds, and each is from 1 to 255. No two ports are held
  on the same stream of the same client.
\<close>

theorem serial_streams_unique:
  assumes "serial_ready st0" "serial_run before st0 = (st, out0)" "serial_run run st = (st', out)" "\<forall>x \<in> set run. snd x \<noteq> X_closed c"
  shows "distinct (starts c out) \<and> set (starts c out) \<subseteq> {1..255} \<and> (\<forall>s \<in> set (starts c out). (c, s) \<notin> set (holders (sl_exports st))) \<and>
    distinct (holders (sl_exports st'))"
proof -
  have "streams_ok st0" using assms(1) by (auto simp: serial_ready_def streams_ok_def holders_def issued_ids_def filter_empty_conv)
  from serial_run_streams [OF this assms(2)] have ok: "streams_ok st" by simp
  from serial_run_streams [OF ok assms(3), of c] assms(4) have s: "streams_ok st'" "issued_ids (sl_sessions st') c = rev (starts c out) @ issued_ids (sl_sessions st) c" by simp_all
  from s have d: "distinct (starts c out)" "set (starts c out) \<inter> set (issued_ids (sl_sessions st) c) = {}" "set (starts c out) \<subseteq> {1..<SERIAL_STREAMS_MAX}"
    unfolding streams_ok_def by (metis distinct_append distinct_rev set_rev, metis distinct_append set_rev, metis le_sup_iff set_append set_rev)
  have "(c, k) \<notin> set (holders (sl_exports st))" if "k \<in> set (starts c out)" for k
    using that d(2) ok by (auto simp: streams_ok_def)
  with d s(1) show ?thesis by (auto simp: streams_ok_def SERIAL_STREAMS_MAX_def)
qed

section \<open>GPS lines\<close>

text \<open>The receiver's lines: what is between line ends, if it is printable and short enough.\<close>

fun split_lines :: "string \<Rightarrow> string \<Rightarrow> string list" where
  "split_lines line [] = []"
| "split_lines line (ch # s) = (if ch = CHR 13 \<or> ch = CHR 10 then line # split_lines [] s else split_lines (line @ [ch]) s)"

definition good_line :: "string \<Rightarrow> bool" where
  "good_line s \<longleftrightarrow> s \<noteq> [] \<and> length s < 512 \<and> list_all (\<lambda>ch. 32 \<le> chr_ord ch \<and> chr_ord ch \<le> 126) s"

fun sentences :: "serial_effect list \<Rightarrow> (string \<times> string) list" where
  "sentences [] = []"
| "sentences (Gps_sentence scope line # out) = (scope, line) # sentences out"
| "sentences (e # out) = sentences out"

lemma sentences_append [simp]: "sentences (xs @ ys) = sentences xs @ sentences ys"
  by (induction xs rule: sentences.induct) auto

definition reading :: "string \<Rightarrow> serial_export \<Rightarrow> bool" where
  "reading line p \<longleftrightarrow> (if sx_dropping p then line \<noteq> [] \<and> \<not> good_line line \<and> (\<forall>s. \<not> good_line (line @ s)) else sx_line p = line \<and> (line = [] \<or> good_line line))"

lemma good_line_prefix: "good_line (a @ b) \<Longrightarrow> a \<noteq> [] \<Longrightarrow> good_line a"
  by (auto simp: good_line_def)

lemma gps_input_reads:
  "reading line p \<Longrightarrow> sentences (snd (gps_input env s p)) =
     map (Pair (sx_scope p)) (filter (\<lambda>l. good_line l \<and> sv_nmea_valid env l) (split_lines line s))"
proof (induction s arbitrary: line p)
  case (Cons ch s)
  let ?p = "fst (gps_char ch env p)"
  have scope: "sx_scope ?p = sx_scope p" by (simp add: gps_char_def)
  show ?case
  proof (cases "ch = CHR 13 \<or> ch = CHR 10")
    case True
    have "reading [] ?p" using True by (simp add: reading_def gps_char_def)
    note IH = Cons.IH [OF this]
    have "sentences (snd (gps_char ch env p)) = (if good_line line \<and> sv_nmea_valid env line then [(sx_scope p, line)] else [])"
      using True Cons.prems by (auto simp: gps_char_def reading_def good_line_def split: if_splits)
    with IH True show ?thesis by (simp add: split_beta scope)
  next
    case False
    have "reading (line @ [ch]) ?p \<and> sentences (snd (gps_char ch env p)) = []"
      using False Cons.prems by (auto simp: gps_char_def reading_def good_line_def)
    with Cons.IH [of "line @ [ch]" ?p] False show ?thesis by (simp add: split_beta scope)
  qed
qed simp

text \<open>
  The sentences passed on are exactly the valid ones among the lines of the receiver, however its bytes were cut into reads.
\<close>

lemma gps_lines_exact:
  assumes "sx_line p = []" "\<not> sx_dropping p"
  shows "sentences (snd (gps_input env s p)) = map (Pair (sx_scope p)) (filter (\<lambda>l. good_line l \<and> sv_nmea_valid env l) (split_lines [] s))"
  using gps_input_reads [of "[]" p env s] assms by (simp add: reading_def)

lemma gps_input_append:
  "gps_input env (s @ t) p = (case gps_input env s p of (q, out) \<Rightarrow> case gps_input env t q of (r, out') \<Rightarrow> (r, out @ out'))"
  by (induction s arbitrary: p) (simp_all add: split_beta)

section \<open>Samples\<close>

definition sample_port :: serial_export where
  "sample_port = (usb_export ''ttyUSB0'')\<lparr>sx_auto := False\<rparr>"

definition sample_serial :: serial where
  "sample_serial = \<lparr>sl_exports = [sample_port], sl_sessions = []\<rparr>"

definition sample_serial_env :: serial_env where
  "sample_serial_env = \<lparr>sv_now = 0, sv_mono = 0, sv_conn = sample_conn, sv_priv = (\<lambda>uid p. p = ''serial.ttyUSB0''), sv_enable = True, sv_auto_export = False,
     sv_chr = (\<lambda>_. True), sv_dev = None, sv_stat = (\<lambda>_. Some 188), sv_fstat = (\<lambda>_. None), sv_mode = (\<lambda>_ s. Some s), sv_apply = (\<lambda>_ _. True),
     sv_open = (\<lambda>_ _. Some 9), sv_spawn = (\<lambda>_. None), sv_malloc = True, sv_calloc = True,
     sv_frame = (\<lambda>bytes. Some (1, if bytes = ''AT'' then 1 else 2, bytes)), sv_write = (\<lambda>_ bytes. Wrote (min 1 (length bytes))),
     sv_read = (\<lambda>_ room. if 2 \<le> room then Got ''OK'' else Read_again), sv_block = 512, sv_can_send = (\<lambda>_. True), sv_packet = (\<lambda>_. True), sv_send = (\<lambda>_ _. True),
     sv_public_scope = (\<lambda>s. s), sv_nmea_valid = (\<lambda>_. True)\<rparr>"

definition sample_open :: serial_request where
  "sample_open = \<lparr>rq_cmd = ''open'', rq_name = ''modem'', rq_port = Some ''ttyUSB0'', rq_has_path = False, rq_stream = None, rq_seq = None, rq_mode = None,
     rq_baud = Baud_text ''4800''\<rparr>"

definition sample_close :: serial_request where
  "sample_close = sample_open\<lparr>rq_cmd := ''close''\<rparr>"

definition sample_serial_run :: "(serial_env \<times> serial_event) list" where
  "sample_serial_run = map (Pair sample_serial_env) [X_request 1 sample_open, X_frame 1 ''AT'', X_poll]"

definition sample_reopen :: "(serial_env \<times> serial_event) list" where
  "sample_reopen = map (Pair sample_serial_env) [X_request 1 sample_open, X_request 1 sample_close, X_request 1 sample_open]"

lemma sample_serial_ready: "serial_ready sample_serial"
  by (simp add: serial_ready_def sample_serial_def sample_port_def usb_export_def Let_def)

lemma sample_serial_io: "io_ok sample_serial_env"
  by (auto simp: io_ok_def sample_serial_env_def split: if_splits)

lemma sample_log:
  "case serial_run sample_serial_run sample_serial of (st, out) \<Rightarrow> (case sl_exports st of [p] \<Rightarrow>
     sx_name p = ''ttyUSB0'' \<and> sx_service p = 0 \<and> sx_owner p = Some 1 \<and> drop (sx_offset p) (sx_pending p) = ''T'' \<and> sx_buffer p = [] | _ \<Rightarrow> False) \<and>
     lg_wrote (log_of ''ttyUSB0'' out) = ''A'' \<and> lg_read (log_of ''ttyUSB0'' out) = ''OK''"
  by code_simp

lemma serial_stream_exact_witness:
  "case serial_run sample_serial_run sample_serial of (st, out) \<Rightarrow>
     data_of (lg_taken (log_of ''ttyUSB0'' out)) = ''AT'' \<and> data_of (lg_sent (log_of ''ttyUSB0'' out)) = ''OK''"
proof -
  obtain st out where r: "serial_run sample_serial_run sample_serial = (st, out)" by (metis prod.exhaust)
  from sample_log obtain p where p: "sl_exports st = [p]" "sx_name p = ''ttyUSB0''" "sx_service p = 0" "sx_owner p = Some 1"
    "drop (sx_offset p) (sx_pending p) = ''T''" "sx_buffer p = []" "lg_wrote (log_of ''ttyUSB0'' out) = ''A''" "lg_read (log_of ''ttyUSB0'' out) = ''OK''"
    by (auto simp: r split: list.splits)
  have io: "\<forall>x \<in> set sample_serial_run. io_ok (fst x)" by (simp add: sample_serial_run_def sample_serial_io)
  from serial_stream_exact [OF sample_serial_ready io r, of p] p show ?thesis by (simp add: r Let_def)
qed

lemma sample_step:
  "Taken ''ttyUSB0'' 1 ''AT'' \<in> set (snd (serial_step (sample_serial_env, X_frame 1 ''AT'') (fst (serial_step (sample_serial_env, X_request 1 sample_open) sample_serial))))"
  by code_simp

lemma serial_authorized_witness:
  "\<exists>p. sx_name p = ''ttyUSB0'' \<and> (sx_service p \<noteq> 0 \<or> (\<exists>c. sx_owner p = Some c \<and> allowed sample_serial_env c p))"
proof -
  obtain st' out where s: "serial_step (sample_serial_env, X_frame 1 ''AT'') (fst (serial_step (sample_serial_env, X_request 1 sample_open) sample_serial)) = (st', out)"
    by (metis prod.exhaust)
  have "Taken ''ttyUSB0'' 1 ''AT'' \<in> set out" using sample_step by (simp only: s snd_conv)
  from serial_authorized [OF sample_serial_io s this] show ?thesis by auto
qed

lemma sample_starts: "starts 1 (snd (serial_run sample_reopen sample_serial)) = [1, 2]"
  by code_simp

lemma serial_streams_unique_witness:
  "starts 1 (snd (serial_run sample_reopen sample_serial)) = [1, 2] \<and> distinct (holders (sl_exports (fst (serial_run sample_reopen sample_serial))))"
proof -
  obtain st out where r: "serial_run sample_reopen sample_serial = (st, out)" by (metis prod.exhaust)
  have "serial_run [] sample_serial = (sample_serial, [])" "\<forall>x \<in> set sample_reopen. snd x \<noteq> X_closed 1" by (simp_all add: sample_reopen_def)
  from serial_streams_unique [OF sample_serial_ready this(1) r this(2)] sample_starts r show ?thesis by simp
qed

end
