(* ===== verification/SharedFiles.thy ===== *)
theory SharedFiles
  imports Supervision Dict
begin

text \<open>
  Shared files (\<^verbatim>\<open>rrserver/files.c\<close>): which names and paths are accepted, what a client may do below an
  exported share, and uploads, which are written under a temporary name, flushed by a worker and published afterwards.

  \<open>fsys\<close> is the file system as the code sees it: a directory or regular file is an inode, an entry leads from
  a directory to an inode, \<open>fs_link\<close> says that it is a symbolic link, which would lead anywhere, and the rest is a device; \<open>fs_next\<close> is the number of the next inode. A descriptor is the inode it was opened on.
  \<open>files_env\<close> is what an event finds: the configuration, accounts, the library, and which calls the kernel refuses for
  reasons of its own; \<open>fe_refresh\<close> is what \<^verbatim>\<open>ws_auth_refresh\<close> says of a client and whether it closed the session, and
  \<open>fe_keys\<close> are the keys of the configuration. No other process changes the shares during an upload.
\<close>

section \<open>The file system\<close>

type_synonym inode = nat

record fsys =
  fs_dir :: "inode \<Rightarrow> (string \<times> inode) list option"
  fs_file :: "inode \<Rightarrow> string option"
  fs_link :: "inode \<Rightarrow> bool"
  fs_mode :: "inode \<Rightarrow> nat"
  fs_next :: inode

definition entry_of :: "fsys \<Rightarrow> inode \<Rightarrow> string \<Rightarrow> inode option" where
  "entry_of fs dir name = (if name = ''.'' then Some dir else case fs_dir fs dir of None \<Rightarrow> None | Some es \<Rightarrow> map_of es name)"

text \<open>\<open>openat\<close> with \<open>O_DIRECTORY | O_NOFOLLOW\<close>, and \<open>fstatat\<close> with \<open>AT_SYMLINK_NOFOLLOW\<close>.\<close>

definition open_dir :: "fsys \<Rightarrow> inode \<Rightarrow> string \<Rightarrow> inode option" where
  "open_dir fs dir name = (case entry_of fs dir name of Some i \<Rightarrow> if fs_dir fs i \<noteq> None \<and> \<not> fs_link fs i then Some i else None | None \<Rightarrow> None)"

datatype kind = Is_dir | Is_file | Is_other

definition kind_of :: "fsys \<Rightarrow> inode \<Rightarrow> kind" where
  "kind_of fs i = (if fs_link fs i then Is_other else if fs_dir fs i \<noteq> None then Is_dir else if fs_file fs i \<noteq> None then Is_file else Is_other)"

definition set_entry :: "inode \<Rightarrow> string \<Rightarrow> inode \<Rightarrow> fsys \<Rightarrow> fsys" where
  "set_entry dir name i fs = (case fs_dir fs dir of None \<Rightarrow> fs
     | Some es \<Rightarrow> fs\<lparr>fs_dir := (fs_dir fs)(dir := Some (AList.update name i es))\<rparr>)"

definition remove_entry :: "inode \<Rightarrow> string \<Rightarrow> fsys \<Rightarrow> fsys" where
  "remove_entry dir name fs = (case fs_dir fs dir of None \<Rightarrow> fs
     | Some es \<Rightarrow> fs\<lparr>fs_dir := (fs_dir fs)(dir := Some (AList.delete name es))\<rparr>)"

section \<open>State\<close>

definition FILE_CHUNK :: nat where "FILE_CHUNK = 24576"
definition FILE_PATH :: nat where "FILE_PATH = 4096"
definition FILE_JOBS :: nat where "FILE_JOBS = 128"

datatype file_error = EINVAL | EACCES | ENOENT | EPERM | EBUSY | EEXIST | ENOSPC | EFBIG | ENOMEM | EAGAIN | EOVERFLOW | E_system

record upload =
  up_client :: "nat option"
  up_parent :: inode
  up_fd :: inode
  up_path :: string
  up_temp :: string
  up_size :: nat
  up_overwrite :: bool
  up_syncing :: bool
  up_error :: bool

record files =
  fi_uploads :: "upload option list"
  fi_flushed :: "nat list"
  fi_fs :: fsys

datatype syscall = C_open | C_openat | C_read | C_create | C_dup | C_chmod | C_link | C_rename | C_mkdir | C_unlink | C_alloc

datatype pool = Pool_ok | Pool_unavailable | Pool_retained

record files_env =
  fe_now :: int
  fe_conn :: "nat \<Rightarrow> conn"
  fe_priv :: "int \<Rightarrow> string \<Rightarrow> bool"
  fe_cfg :: "string \<Rightarrow> cstr"
  fe_cfg_bool :: "string \<Rightarrow> bool"
  fe_keys :: "string list"
  fe_utf8 :: "string \<Rightarrow> bool"
  fe_root :: "string \<Rightarrow> inode option"
  fe_fails :: "syscall \<Rightarrow> bool"
  fe_uuid :: string
  fe_written :: "string \<Rightarrow> nat \<times> bool"
  fe_encode :: "string \<Rightarrow> string"
  fe_decode :: "string \<Rightarrow> string"
  fe_bool :: "dict \<Rightarrow> string \<Rightarrow> bool"
  fe_ull :: "dict \<Rightarrow> string \<Rightarrow> nat"
  fe_strtoull :: "string \<Rightarrow> nat option"
  fe_pool :: pool
  fe_refresh :: "nat \<Rightarrow> bool \<times> bool"

datatype files_effect =
    Result nat "file_error option"
  | Data nat string nat nat bool
  | Entry nat string kind nat bool bool
  | End_list nat
  | List_nodes nat
  | Read_at inode string inode
  | Begun nat inode string bool
  | Stored nat inode string
  | Chmod nat inode nat
  | Queued nat
  | Published nat inode string inode bool
  | Made_dir inode string
  | Removed inode string
  | Renamed inode string inode string
  | Dropped_temp inode string

section \<open>Names, permissions and paths\<close>

definition rrserver_files_valid_name :: "files_env \<Rightarrow> string \<Rightarrow> bool" where
  "rrserver_files_valid_name env s \<longleftrightarrow> s \<noteq> [] \<and> length s \<le> 255 \<and> s \<noteq> ''.'' \<and> s \<noteq> ''..'' \<and> take 11 s \<noteq> ''.rr-upload-'' \<and> fe_utf8 env s \<and>
     list_all (\<lambda>ch. 32 \<le> chr_ord ch \<and> ch \<noteq> CHR ''/'' \<and> ch \<noteq> CHR 92) s"

definition share_key :: "string \<Rightarrow> string \<Rightarrow> string" where
  "share_key share what = ''share:'' @ share @ ''.'' @ what"

definition permission :: "files_env \<Rightarrow> nat \<Rightarrow> string \<Rightarrow> bool \<Rightarrow> bool" where
  "permission env c share writing =
     (let cn = fe_conn env c; grant = fe_cfg env (share_key share (if writing then ''write'' else ''read'')) in
      if \<not> fe_cfg_bool env (share_key share ''enabled'') \<or> \<not> cn_authenticated cn \<or> \<not> cn_user cn then False
      else if grant = Some ''none'' then False
      else fe_priv env (cn_uid cn) (if grant \<noteq> None \<and> grant \<noteq> Some [] then the grant else if writing then ''files.write'' else ''files.read''))"

text \<open>The parts of a path between slashes.\<close>

fun parts :: "string \<Rightarrow> string list" where
  "parts [] = [[]]"
| "parts (ch # s) = (if ch = CHR ''/'' then [] # parts s else (case parts s of p # ps \<Rightarrow> (ch # p) # ps | [] \<Rightarrow> [[ch]]))"

fun walk :: "files_env \<Rightarrow> fsys \<Rightarrow> inode \<Rightarrow> string list \<Rightarrow> file_error + inode \<times> string" where
  "walk env fs dir [] = Inl EINVAL"
| "walk env fs dir [name] = (if rrserver_files_valid_name env name then Inr (dir, name) else Inl EINVAL)"
| "walk env fs dir (part # next # rest) =
     (if \<not> rrserver_files_valid_name env part \<or> (next = [] \<and> rest = []) then Inl EINVAL
      else if fe_fails env C_openat then Inl E_system
      else case open_dir fs dir part of None \<Rightarrow> Inl E_system | Some i \<Rightarrow> walk env fs i (next # rest))"

definition resolve :: "files_env \<Rightarrow> fsys \<Rightarrow> nat \<Rightarrow> string \<Rightarrow> bool \<Rightarrow> file_error + inode \<times> string" where
  "resolve env fs c path writing =
     (if path = [] \<or> hd path \<noteq> CHR ''/'' \<or> FILE_PATH \<le> length path \<or> path = ''/'' then Inl EINVAL
      else case parts (tl path) of
        [] \<Rightarrow> Inl EINVAL
      | share # rest \<Rightarrow>
          if \<not> rrserver_files_valid_name env share \<or> \<not> permission env c share writing then Inl EACCES
          else if fe_cfg env (share_key share ''path'') = None \<or> fe_cfg env (share_key share ''path'') = Some [] then Inl ENOENT
          else (case fe_root env (the (fe_cfg env (share_key share ''path''))) of
            None \<Rightarrow> Inl E_system
          | Some root \<Rightarrow>
              if fe_fails env C_open \<or> fs_dir fs root = None \<or> fs_link fs root then Inl E_system
              else if rest = [] \<or> rest = [[]] then Inr (root, ''.'')
              else walk env fs root rest))"

section \<open>Uploads\<close>

definition job_index :: "nat \<Rightarrow> files \<Rightarrow> nat option" where
  "job_index c st = find_idx (\<lambda>u. case u of None \<Rightarrow> False | Some u \<Rightarrow> up_client u = Some c) (fi_uploads st)"

definition upload_at :: "files \<Rightarrow> nat \<Rightarrow> upload" where
  "upload_at st i = the (fi_uploads st ! i)"

definition put_upload :: "nat \<Rightarrow> upload option \<Rightarrow> files \<Rightarrow> files" where
  "put_upload i u st = st\<lparr>fi_uploads := (fi_uploads st)[i := u]\<rparr>"

text \<open>An upload the worker holds is only disowned.\<close>

definition discard :: "nat \<Rightarrow> files \<Rightarrow> files \<times> files_effect list" where
  "discard i st =
     (let u = upload_at st i in
      if up_syncing u then (put_upload i (Some (u\<lparr>up_client := None\<rparr>)) st, [])
      else ((put_upload i None st)\<lparr>fi_fs := remove_entry (up_parent u) (up_temp u) (fi_fs st)\<rparr>, [Dropped_temp (up_parent u) (up_temp u)]))"

definition discard_job :: "nat \<Rightarrow> files \<Rightarrow> files \<times> files_effect list" where
  "discard_job c st = (case job_index c st of None \<Rightarrow> (st, []) | Some i \<Rightarrow> discard i st)"

definition queue_flush :: "files_env \<Rightarrow> nat \<Rightarrow> nat \<Rightarrow> files \<Rightarrow> bool \<times> files \<times> files_effect list" where
  "queue_flush env c i st =
     (if fe_pool env = Pool_unavailable \<or> fe_fails env C_alloc then (False, st, [])
      else let u = (upload_at st i)\<lparr>up_syncing := True\<rparr> in
        if fe_pool env = Pool_retained then (True, put_upload i (Some (u\<lparr>up_client := None\<rparr>)) st, [Result c (Some EAGAIN)])
        else (True, put_upload i (Some u) st, [Queued c]))"

text \<open>The worker has flushed the upload in a slot.\<close>

definition flush_upload :: "nat \<Rightarrow> bool \<Rightarrow> files \<Rightarrow> files" where
  "flush_upload i failed st =
     (if i < length (fi_uploads st) \<and> fi_uploads st ! i \<noteq> None \<and> up_syncing (upload_at st i) \<and> i \<notin> set (fi_flushed st)
      then (put_upload i (Some ((upload_at st i)\<lparr>up_error := failed\<rparr>)) st)\<lparr>fi_flushed := fi_flushed st @ [i]\<rparr> else st)"

text \<open>What the second look at the path says before an upload is published.\<close>

definition publish :: "files_env \<Rightarrow> nat \<Rightarrow> upload \<Rightarrow> fsys \<Rightarrow> file_error option \<times> fsys \<times> files_effect list" where
  "publish env c u fs =
     (case resolve env fs c (up_path u) True of
        Inl e \<Rightarrow> (Some e, fs, [])
      | Inr (dir, name) \<Rightarrow>
          if dir \<noteq> up_parent u then (Some EACCES, fs, [])
          else let target = entry_of fs dir name in
            if target \<noteq> None \<and> (\<not> up_overwrite u \<or> kind_of fs (the target) \<noteq> Is_file) then (Some EEXIST, fs, [])
            else (case entry_of fs dir (up_temp u) of
              None \<Rightarrow> (Some E_system, fs, [])
            | Some i \<Rightarrow>
                if fe_fails env (if up_overwrite u then C_rename else C_link) then (Some E_system, fs, [])
                else (None, set_entry dir name i (if up_overwrite u then remove_entry dir (up_temp u) fs else fs), [Published c dir name i (target \<noteq> None)])))"

definition complete_one :: "files_env \<Rightarrow> nat \<Rightarrow> files \<Rightarrow> files \<times> files_effect list" where
  "complete_one env i st =
     (let u = upload_at st i; c = up_client u;
          ask = c \<noteq> None \<and> \<not> up_error u;
          (ok, gone) = (if ask then fe_refresh env (the c) else (True, False));
          e = (if up_error u then Some E_system else if ask \<and> \<not> ok then Some EACCES else None);
          u = (if gone then u\<lparr>up_client := None\<rparr> else u);
          (e, fs, out) = (if ask \<and> e = None \<and> \<not> gone then publish env (the c) u (fi_fs st) else (e, fi_fs st, []));
          out = out @ (case up_client u of None \<Rightarrow> [] | Some c \<Rightarrow> [Result c e]);
          (st, out') = discard i ((put_upload i (Some (u\<lparr>up_syncing := False\<rparr>)) st)\<lparr>fi_fs := fs\<rparr>)
      in (st, out @ out'))"

fun complete_all :: "files_env \<Rightarrow> nat list \<Rightarrow> files \<Rightarrow> files \<times> files_effect list" where
  "complete_all env [] st = (st, [])"
| "complete_all env (i # is) st = (let (st, out) = complete_one env i st; (st, out') = complete_all env is st in (st, out @ out'))"

definition complete_uploads :: "files_env \<Rightarrow> files \<Rightarrow> files \<times> files_effect list" where
  "complete_uploads env st = complete_all env (fi_flushed st) (st\<lparr>fi_flushed := []\<rparr>)"
section \<open>Requests\<close>

definition file_read :: "files_env \<Rightarrow> nat \<Rightarrow> dict \<Rightarrow> inode \<Rightarrow> string \<Rightarrow> files \<Rightarrow> files_effect list" where
  "file_read env c d dir name st =
     (let fs = fi_fs st; offset = fe_ull env d ''file.offset'' in
      case entry_of fs dir name of
        None \<Rightarrow> [Result c (Some E_system)]
      | Some i \<Rightarrow>
          if fe_fails env C_openat \<or> fs_link fs i then [Result c (Some E_system)]
          else (case fs_file fs i of
            None \<Rightarrow> [Result c (Some EINVAL)]
          | Some bytes \<Rightarrow>
              if length bytes < offset then [Result c (Some EINVAL)]
              else if fe_fails env C_read then [Result c (Some E_system)]
              else let data = take FILE_CHUNK (drop offset bytes) in
                [Read_at dir name i, Data c (fe_encode env data) offset (length bytes) (length bytes \<le> offset + length data)]))"

definition free_slot :: "files \<Rightarrow> nat option" where
  "free_slot st = find_idx (\<lambda>u. u = None) (fi_uploads st)"

definition file_begin :: "files_env \<Rightarrow> nat \<Rightarrow> dict \<Rightarrow> string \<Rightarrow> inode \<Rightarrow> string \<Rightarrow> files \<Rightarrow> files \<times> file_error option \<times> files_effect list" where
  "file_begin env c d path dir name st =
     (let target = entry_of (fi_fs st) dir name; overwrite = fe_bool env d ''file.overwrite''; temp = ''.rr-upload-'' @ fe_uuid env in
      if job_index c st \<noteq> None then (st, Some EBUSY, [])
      else if target \<noteq> None \<and> (\<not> overwrite \<or> kind_of (fi_fs st) (the target) \<noteq> Is_file) then (st, Some EEXIST, [])
      else case free_slot st of
        None \<Rightarrow> (st, Some ENOSPC, [])
      | Some slot \<Rightarrow>
          if fe_fails env C_alloc then (st, Some ENOMEM, [])
          else if fe_fails env C_create \<or> entry_of (fi_fs st) dir temp \<noteq> None \<or> fs_dir (fi_fs st) dir = None then (st, Some E_system, [])
          else if fe_fails env C_dup then (st, Some E_system, [])
          else let i = fs_next (fi_fs st); fs = set_entry dir temp i (fi_fs st);
                   u = \<lparr>up_client = Some c, up_parent = dir, up_fd = i, up_path = path, up_temp = temp, up_size = 0, up_overwrite = overwrite,
                        up_syncing = False, up_error = False\<rparr> in
            ((put_upload slot (Some u) st)\<lparr>fi_fs := fs\<lparr>fs_next := i + 1, fs_file := (fs_file fs)(i := Some []), fs_mode := (fs_mode fs)(i := 384)\<rparr>\<rparr>, None, [Begun c dir temp overwrite]))"

text \<open>The limit of \<open>files.max-size\<close>; a value that is no number allows nothing.\<close>

definition max_size :: "files_env \<Rightarrow> nat" where
  "max_size env = (case fe_cfg env ''files.max-size'' of
     None \<Rightarrow> 1073741824
   | Some s \<Rightarrow> if s = [] \<or> hd s = CHR ''-'' then 0 else (case fe_strtoull env s of None \<Rightarrow> 0 | Some n \<Rightarrow> n))"

definition with_error :: "file_error \<Rightarrow> files \<times> files_effect list \<Rightarrow> files \<times> file_error option \<times> files_effect list" where
  "with_error e x = (case x of (st, out) \<Rightarrow> (st, Some e, out))"

text \<open>\<open>fe_written bytes\<close>: how many bytes the loop of \<open>write\<close> gets written, and whether it fails before the last.\<close>

definition file_chunk :: "files_env \<Rightarrow> nat \<Rightarrow> dict \<Rightarrow> nat \<Rightarrow> files \<Rightarrow> files \<times> file_error option \<times> files_effect list" where
  "file_chunk env c d i st =
     (let u = upload_at st i; encoded = dict_get d ''file.data'' ''''; bytes = fe_decode env encoded; fs = fi_fs st in
      if FILE_CHUNK * 4 div 3 < length encoded \<or> fe_ull env d ''file.offset'' \<noteq> up_size u then (st, Some EINVAL, [])
      else if fe_encode env bytes \<noteq> encoded then with_error EINVAL (discard i st)
      else if FILE_CHUNK < length bytes \<or> max_size env < up_size u + length bytes then with_error EFBIG (discard i st)
      else case fe_written env bytes of (n, failed) \<Rightarrow>
        let data = (if failed then take n bytes else bytes); old = (case fs_file fs (up_fd u) of None \<Rightarrow> [] | Some s \<Rightarrow> s);
            st = st\<lparr>fi_fs := fs\<lparr>fs_file := (fs_file fs)(up_fd u := Some (old @ data))\<rparr>\<rparr> in
        if failed then (case discard i st of (st, out) \<Rightarrow> (st, Some E_system, Stored c (up_fd u) data # out))
        else (put_upload i (Some (u\<lparr>up_size := up_size u + length bytes\<rparr>)) st, None, [Stored c (up_fd u) bytes]))"

text \<open>\<open>None\<close> is an answer that the completion gives later.\<close>

definition file_commit :: "files_env \<Rightarrow> nat \<Rightarrow> inode \<Rightarrow> string \<Rightarrow> nat \<Rightarrow> files \<Rightarrow> files \<times> file_error option option \<times> files_effect list" where
  "file_commit env c dir name i st =
     (let u = upload_at st i; target = entry_of (fi_fs st) dir name in
      if target \<noteq> None \<and> (\<not> up_overwrite u \<or> kind_of (fi_fs st) (the target) \<noteq> Is_file) then (case discard i st of (st, out) \<Rightarrow> (st, Some (Some EEXIST), out))
      else if target \<noteq> None \<and> fe_fails env C_chmod then (case discard i st of (st, out) \<Rightarrow> (st, Some (Some E_system), out))
      else let mode = fs_mode (fi_fs st) (the target) mod 512;
               st = (if target = None then st else st\<lparr>fi_fs := (fi_fs st)\<lparr>fs_mode := (fs_mode (fi_fs st))(up_fd u := mode)\<rparr>\<rparr>);
               changed = (if target = None then [] else [Chmod c (up_fd u) mode]) in
        case queue_flush env c i st of (ok, st, out) \<Rightarrow>
          if ok then (st, None, changed @ out) else (case discard i st of (st, out') \<Rightarrow> (st, Some (Some ENOMEM), changed @ out @ out')))"

definition file_mkdir :: "files_env \<Rightarrow> inode \<Rightarrow> string \<Rightarrow> files \<Rightarrow> files \<times> file_error option \<times> files_effect list" where
  "file_mkdir env dir name st =
     (if fe_fails env C_mkdir \<or> entry_of (fi_fs st) dir name \<noteq> None \<or> fs_dir (fi_fs st) dir = None then (st, Some E_system, [])
      else let i = fs_next (fi_fs st); fs = set_entry dir name i (fi_fs st) in
        (st\<lparr>fi_fs := fs\<lparr>fs_next := i + 1, fs_dir := (fs_dir fs)(i := Some [])\<rparr>\<rparr>, None, [Made_dir dir name]))"

definition file_delete :: "files_env \<Rightarrow> inode \<Rightarrow> string \<Rightarrow> files \<Rightarrow> files \<times> file_error option \<times> files_effect list" where
  "file_delete env dir name st =
     (if name = ''.'' then (st, Some EPERM, [])
      else case entry_of (fi_fs st) dir name of
        None \<Rightarrow> (st, Some E_system, [])
      | Some i \<Rightarrow>
          if kind_of (fi_fs st) i = Is_other then (st, Some EINVAL, [])
          else if fe_fails env C_unlink \<or> (kind_of (fi_fs st) i = Is_dir \<and> fs_dir (fi_fs st) i \<noteq> Some []) then (st, Some E_system, [])
          else (st\<lparr>fi_fs := remove_entry dir name (fi_fs st)\<rparr>, None, [Removed dir name]))"

definition file_rename :: "files_env \<Rightarrow> nat \<Rightarrow> dict \<Rightarrow> string \<Rightarrow> inode \<Rightarrow> string \<Rightarrow> files \<Rightarrow> files \<times> file_error option \<times> files_effect list" where
  "file_rename env c d path dir name st =
     (let fs = fi_fs st in
      case resolve env fs c path False of
        Inl e \<Rightarrow> (st, Some e, [])
      | Inr _ \<Rightarrow>
          (case resolve env fs c (dict_get d ''file.dest'' '''') True of
            Inl e \<Rightarrow> (st, Some e, [])
          | Inr (other, dest) \<Rightarrow>
              if dest = ''.'' \<or> entry_of fs other dest \<noteq> None then (st, Some EEXIST, [])
              else (case entry_of fs dir name of
                None \<Rightarrow> (st, Some EINVAL, [])
              | Some i \<Rightarrow>
                  if kind_of fs i = Is_other then (st, Some EINVAL, [])
                  else if fe_fails env C_rename then (st, Some E_system, [])
                  else (st\<lparr>fi_fs := set_entry other dest i (remove_entry dir name fs)\<rparr>, None, [Renamed dir name other dest]))))"

definition answer :: "nat \<Rightarrow> files \<times> file_error option \<times> files_effect list \<Rightarrow> files \<times> files_effect list" where
  "answer c x = (case x of (st, e, out) \<Rightarrow> (st, out @ [Result c e]))"

definition upload_command :: "files_env \<Rightarrow> nat \<Rightarrow> dict \<Rightarrow> string \<Rightarrow> string \<Rightarrow> inode \<Rightarrow> string \<Rightarrow> files \<Rightarrow> files \<times> files_effect list" where
  "upload_command env c d cmd path dir name st =
     (case job_index c st of
        None \<Rightarrow> (st, [Result c (Some EINVAL)])
      | Some i \<Rightarrow>
          if up_path (upload_at st i) \<noteq> path \<or> up_parent (upload_at st i) \<noteq> dir then (st, [Result c (Some EINVAL)])
          else if cmd = ''cancel'' then answer c (case discard i st of (st, out) \<Rightarrow> (st, None, out))
          else if up_syncing (upload_at st i) then (st, [Result c (Some EBUSY)])
          else if cmd = ''chunk'' then answer c (file_chunk env c d i st)
          else (case file_commit env c dir name i st of (st, e, out) \<Rightarrow> (st, out @ (case e of None \<Rightarrow> [] | Some e \<Rightarrow> [Result c e]))))"

definition share_entry :: "files_env \<Rightarrow> nat \<Rightarrow> string \<Rightarrow> files_effect list" where
  "share_entry env c share = (let r = permission env c share False; w = permission env c share True in
     if r \<or> w then [Entry c share Is_dir 0 r w] else [])"

text \<open>The name of a share in a configuration key \<^verbatim>\<open>share:\<close>name\<^verbatim>\<open>.path\<close>.\<close>

definition share_of_key :: "string \<Rightarrow> string list" where
  "share_of_key key = (let n = length key - 11 in
     if take 6 key \<noteq> ''share:'' \<or> drop (length key - 5) key \<noteq> ''.path'' \<or> n = 0 \<or> 256 \<le> n then [] else [take n (drop 6 key)])"

definition dir_entry :: "files_env \<Rightarrow> nat \<Rightarrow> fsys \<Rightarrow> bool \<Rightarrow> string \<times> inode \<Rightarrow> files_effect list" where
  "dir_entry env c fs writable x = (case x of (name, i) \<Rightarrow>
     if \<not> rrserver_files_valid_name env name \<or> kind_of fs i = Is_other then []
     else [Entry c name (kind_of fs i) (case fs_file fs i of None \<Rightarrow> 0 | Some s \<Rightarrow> length s) True writable])"

definition file_list :: "files_env \<Rightarrow> nat \<Rightarrow> string \<Rightarrow> files \<Rightarrow> files_effect list" where
  "file_list env c path st =
     (let fs = fi_fs st in
      if path = ''/'' then concat (map (share_entry env c) (concat (map share_of_key (fe_keys env)))) @ [List_nodes c, End_list c]
      else case resolve env fs c path False of
        Inl e \<Rightarrow> [Result c (Some e)]
      | Inr (dir, name) \<Rightarrow>
          (case open_dir fs dir name of
            None \<Rightarrow> [Result c (Some E_system)]
          | Some i \<Rightarrow>
              if fe_fails env C_openat then [Result c (Some E_system)]
              else let writable = (case resolve env fs c path True of Inl _ \<Rightarrow> False | Inr _ \<Rightarrow> True);
                       rows = concat (map (dir_entry env c fs writable) (case fs_dir fs i of None \<Rightarrow> [] | Some es \<Rightarrow> es)) in
                Read_at dir name i # (if 10000 < length rows then take 10000 rows @ [Result c (Some EOVERFLOW)] else rows @ [End_list c])))"

definition file_command :: "files_env \<Rightarrow> nat \<Rightarrow> dict \<Rightarrow> string \<Rightarrow> string \<Rightarrow> inode \<Rightarrow> string \<Rightarrow> files \<Rightarrow> files \<times> files_effect list" where
  "file_command env c d cmd path dir name st =
     (if cmd \<noteq> ''read'' \<and> name = ''.'' then (st, [Result c (Some EPERM)])
      else if cmd = ''read'' then (st, file_read env c d dir name st)
      else if cmd = ''begin'' then answer c (file_begin env c d path dir name st)
      else if cmd = ''chunk'' \<or> cmd = ''commit'' \<or> cmd = ''cancel'' then upload_command env c d cmd path dir name st
      else if cmd = ''mkdir'' then answer c (file_mkdir env dir name st)
      else if cmd = ''delete'' then answer c (file_delete env dir name st)
      else if cmd = ''rename'' then answer c (file_rename env c d path dir name st)
      else (st, [Result c (Some EINVAL)]))"

definition file_request :: "files_env \<Rightarrow> nat \<Rightarrow> dict \<Rightarrow> files \<Rightarrow> files \<times> files_effect list" where
  "file_request env c d st =
     (let cmd = dict_get d ''file.cmd'' ''''; path = dict_get d ''file.path'' ''/''; request = map_of d ''request.id'' in
      if \<not> cn_authenticated (fe_conn env c) \<or> \<not> cn_user (fe_conn env c) then (st, [])
      else if request = None \<or> request = Some [] \<or> 64 < length (the request) then (st, [Result c (Some EINVAL)])
      else if cmd = ''list'' then (st, file_list env c path st)
      else case resolve env (fi_fs st) c path (cmd \<noteq> ''read'') of
        Inl e \<Rightarrow>
          (case (if cmd = ''chunk'' \<or> cmd = ''commit'' \<or> cmd = ''cancel'' then discard_job c st else (st, [])) of (st, out) \<Rightarrow> (st, out @ [Result c (Some e)]))
      | Inr (dir, name) \<Rightarrow>
          file_command env c d cmd path dir name st)"

section \<open>Shutdown\<close>

text \<open>The workers are waited for, nothing is published any more, and every upload is removed.\<close>

fun drop_all :: "upload option list \<Rightarrow> fsys \<Rightarrow> fsys \<times> files_effect list" where
  "drop_all [] fs = (fs, [])"
| "drop_all (None # us) fs = drop_all us fs"
| "drop_all (Some u # us) fs = (case drop_all us (remove_entry (up_parent u) (up_temp u) fs) of (fs, out) \<Rightarrow> (fs, Dropped_temp (up_parent u) (up_temp u) # out))"

definition rrserver_files_fini :: "files \<Rightarrow> files \<times> files_effect list" where
  "rrserver_files_fini st = (case drop_all (fi_uploads st) (fi_fs st) of (fs, out) \<Rightarrow>
     (\<lparr>fi_uploads = map (\<lambda>u. None) (fi_uploads st), fi_flushed = [], fi_fs = fs\<rparr>, out))"

section \<open>Runs\<close>

datatype files_event = F_request nat dict | F_flushed nat bool | F_complete | F_closed nat | F_stop

fun files_step :: "files_env \<times> files_event \<Rightarrow> files \<Rightarrow> files \<times> files_effect list" where
  "files_step (env, F_request c d) st = file_request env c d st"
| "files_step (env, F_flushed i failed) st = (flush_upload i failed st, [])"
| "files_step (env, F_complete) st = complete_uploads env st"
| "files_step (env, F_closed c) st = discard_job c st"
| "files_step (env, F_stop) st = rrserver_files_fini st"

fun files_run :: "(files_env \<times> files_event) list \<Rightarrow> files \<Rightarrow> files \<times> files_effect list" where
  "files_run [] st = (st, [])"
| "files_run (x # xs) st = (let (st, out) = files_step x st; (st, out') = files_run xs st in (st, out @ out'))"

lemma files_run_snoc:
  "files_run (xs @ [x]) st = (let (st, out) = files_run xs st; (st, out') = files_step x st in (st, out @ out'))"
proof (induction xs arbitrary: st)
  case Nil
  show ?case by (simp add: Let_def split_beta)
next
  case (Cons y ys)
  show ?case using Cons [of "fst (files_step y st)"] by (simp add: Let_def split_beta)
qed

section \<open>What a path reaches\<close>

text \<open>Directories below a root, by valid names and never through a link; and the places where a client may read or write.\<close>

inductive reach :: "files_env \<Rightarrow> fsys \<Rightarrow> inode \<Rightarrow> inode \<Rightarrow> bool" for env fs root where
  reach_root: "reach env fs root root"
| reach_step: "reach env fs root dir \<Longrightarrow> rrserver_files_valid_name env name \<Longrightarrow> entry_of fs dir name = Some i \<Longrightarrow> fs_dir fs i \<noteq> None \<Longrightarrow> \<not> fs_link fs i \<Longrightarrow> reach env fs root i"

definition place :: "files_env \<Rightarrow> fsys \<Rightarrow> nat \<Rightarrow> bool \<Rightarrow> inode \<Rightarrow> string \<Rightarrow> bool" where
  "place env fs c writing dir name \<longleftrightarrow> (\<exists>share path root. permission env c share writing \<and> fe_cfg env (share_key share ''path'') = Some path \<and>
     fe_root env path = Some root \<and> fs_dir fs root \<noteq> None \<and> \<not> fs_link fs root \<and> reach env fs root dir \<and> (rrserver_files_valid_name env name \<or> (name = ''.'' \<and> dir = root)))"

lemma open_dir_SomeD: "open_dir fs dir name = Some i \<Longrightarrow> entry_of fs dir name = Some i \<and> fs_dir fs i \<noteq> None \<and> \<not> fs_link fs i"
  by (auto simp: open_dir_def split: option.splits if_splits)

lemma walk_reach:
  "reach env fs root dir \<Longrightarrow> walk env fs dir ps = Inr (d, name) \<Longrightarrow> reach env fs root d \<and> rrserver_files_valid_name env name"
proof (induction env fs dir ps rule: walk.induct)
  case (3 env fs dir part nxt rest)
  then show ?case using open_dir_SomeD reach_step by (auto split: if_splits option.splits)
qed (auto split: if_splits)

lemma resolve_place: "resolve env fs c path writing = Inr (dir, name) \<Longrightarrow> place env fs c writing dir name"
proof -
  assume r: "resolve env fs c path writing = Inr (dir, name)"
  then obtain share rest where p: "parts (tl path) = share # rest" by (auto simp: resolve_def split: if_splits list.splits)
  define key where "key = fe_cfg env (share_key share ''path'')"
  have ok: "\<not> (path = [] \<or> hd path \<noteq> CHR ''/'' \<or> FILE_PATH \<le> length path \<or> path = ''/'')" (is "\<not> ?bad") using r by (cases ?bad) (simp_all add: resolve_def)
  note r = r [unfolded resolve_def if_not_P [OF ok] p list.case, folded key_def]
  have k: "permission env c share writing" "key \<noteq> None" using r by (auto split: if_splits)
  then obtain root where root: "fe_root env (the key) = Some root" using r by (auto split: if_splits option.splits)
  have d: "fs_dir fs root \<noteq> None" "\<not> fs_link fs root" using r by (auto simp: root split: if_splits)
  have "(dir, name) = (root, ''.'') \<or> walk env fs root rest = Inr (dir, name)" using r by (auto simp: root split: if_splits)
  with k d root walk_reach [OF reach_root, of env fs root rest dir name] show ?thesis
    unfolding place_def by (intro exI [of _ share] exI [of _ "the key"] exI [of _ root]) (auto simp: key_def intro: reach_root)
qed

definition temp_name :: "string \<Rightarrow> bool" where
  "temp_name s \<longleftrightarrow> take 11 s = ''.rr-upload-''"

lemma valid_not_temp: "rrserver_files_valid_name env name \<Longrightarrow> \<not> temp_name name \<and> name \<noteq> ''.''"
  by (simp add: rrserver_files_valid_name_def temp_name_def)

lemma temp_not_dot: "temp_name s \<Longrightarrow> s \<noteq> ''.''"
  by (auto simp: temp_name_def)

lemma place_name: "place env fs c writing dir name \<Longrightarrow> name \<noteq> ''.'' \<Longrightarrow> rrserver_files_valid_name env name"
  by (auto simp: place_def)

section \<open>Entries\<close>

lemma entry_set [simp]:
  "entry_of (set_entry dir name i fs) d n = (if n = ''.'' then Some d else if d = dir \<and> n = name \<and> fs_dir fs dir \<noteq> None then Some i else entry_of fs d n)"
  by (auto simp: entry_of_def set_entry_def update_conv' split: option.splits)

lemma entry_remove [simp]:
  "entry_of (remove_entry dir name fs) d n = (if n = ''.'' then Some d else if d = dir \<and> n = name then None else entry_of fs d n)"
  by (auto simp: entry_of_def remove_entry_def delete_conv' split: option.splits)

lemma fs_kept [simp]:
  "fs_file (set_entry dir name i fs) = fs_file fs" "fs_file (remove_entry dir name fs) = fs_file fs"
  "fs_link (set_entry dir name i fs) = fs_link fs" "fs_link (remove_entry dir name fs) = fs_link fs" "fs_next (set_entry dir name i fs) = fs_next fs" "fs_next (remove_entry dir name fs) = fs_next fs"
  "fs_dir (set_entry dir name i fs) d = None \<longleftrightarrow> fs_dir fs d = None" "fs_dir (remove_entry dir name fs) d = None \<longleftrightarrow> fs_dir fs d = None"
  by (auto simp: set_entry_def remove_entry_def split: option.splits)

section \<open>Uploads in progress\<close>

text \<open>What a client began and sent, from the effects alone.\<close>

record upload_log =
  lo_bytes :: string
  lo_overwrite :: bool

fun note_file :: "nat \<Rightarrow> files_effect \<Rightarrow> upload_log \<Rightarrow> upload_log" where
  "note_file c (Begun c' dir temp overwrite) l = (if c' = c then \<lparr>lo_bytes = [], lo_overwrite = overwrite\<rparr> else l)"
| "note_file c (Stored c' fd bytes) l = (if c' = c then l\<lparr>lo_bytes := lo_bytes l @ bytes\<rparr> else l)"
| "note_file c _ l = l"

definition upload_log_of :: "nat \<Rightarrow> files_effect list \<Rightarrow> upload_log" where
  "upload_log_of c out = fold (note_file c) out \<lparr>lo_bytes = [], lo_overwrite = False\<rparr>"

lemma upload_log_append: "upload_log_of c (xs @ ys) = fold (note_file c) ys (upload_log_of c xs)"
  by (simp add: upload_log_of_def)

definition upload_sound :: "fsys \<Rightarrow> files_effect list \<Rightarrow> upload \<Rightarrow> bool" where
  "upload_sound fs out u \<longleftrightarrow> temp_name (up_temp u) \<and> entry_of fs (up_parent u) (up_temp u) = Some (up_fd u) \<and> up_fd u < fs_next fs \<and>
     fs_dir fs (up_fd u) = None \<and> (\<forall>c. up_client u = Some c \<longrightarrow> fs_file fs (up_fd u) = Some (lo_bytes (upload_log_of c out)) \<and>
       up_size u = length (lo_bytes (upload_log_of c out)) \<and> up_overwrite u = lo_overwrite (upload_log_of c out) \<and>
       Begun c (up_parent u) (up_temp u) (up_overwrite u) \<in> set out)"

definition apart :: "upload \<Rightarrow> upload \<Rightarrow> bool" where
  "apart u v \<longleftrightarrow> up_fd u \<noteq> up_fd v \<and> (up_parent u, up_temp u) \<noteq> (up_parent v, up_temp v) \<and> (up_client u = None \<or> up_client u \<noteq> up_client v)"

definition fs_sound :: "fsys \<Rightarrow> bool" where
  "fs_sound fs \<longleftrightarrow> (\<forall>i \<ge> fs_next fs. fs_file fs i = None \<and> fs_dir fs i = None \<and> \<not> fs_link fs i)"

definition files_ok :: "files \<Rightarrow> files_effect list \<Rightarrow> bool" where
  "files_ok st out \<longleftrightarrow> length (fi_uploads st) = FILE_JOBS \<and> fs_sound (fi_fs st) \<and>
     (\<forall>k < FILE_JOBS. \<forall>u. fi_uploads st ! k = Some u \<longrightarrow> upload_sound (fi_fs st) out u \<and>
        (\<forall>j < FILE_JOBS. \<forall>v. j \<noteq> k \<longrightarrow> fi_uploads st ! j = Some v \<longrightarrow> apart u v)) \<and>
     distinct (fi_flushed st) \<and> (\<forall>k \<in> set (fi_flushed st). k < FILE_JOBS \<and> (\<exists>u. fi_uploads st ! k = Some u \<and> up_syncing u))"

lemma files_okD:
  assumes "files_ok st out" "k < FILE_JOBS" "fi_uploads st ! k = Some u"
  shows "upload_sound (fi_fs st) out u" "\<And>j v. j < FILE_JOBS \<Longrightarrow> j \<noteq> k \<Longrightarrow> fi_uploads st ! j = Some v \<Longrightarrow> apart u v"
  using assms by (auto simp: files_ok_def)

lemma job_index_SomeD: "job_index c st = Some i \<Longrightarrow> i < length (fi_uploads st) \<and> (\<exists>u. fi_uploads st ! i = Some u \<and> up_client u = Some c)"
  using find_idx_SomeD [of _ "fi_uploads st" i] by (force simp: job_index_def split: option.splits)

text \<open>Effects that do not touch the log of any client.\<close>

definition plain :: "files_effect list \<Rightarrow> bool" where
  "plain out \<longleftrightarrow> (\<forall>e \<in> set out. case e of Begun c dir temp overwrite \<Rightarrow> False | Stored c fd bytes \<Rightarrow> False | _ \<Rightarrow> True)"

lemma plain_simps [simp]: "plain []" "plain (xs @ ys) \<longleftrightarrow> plain xs \<and> plain ys"
  "plain (e # out) \<longleftrightarrow> (case e of Begun c dir temp overwrite \<Rightarrow> False | Stored c fd bytes \<Rightarrow> False | _ \<Rightarrow> True) \<and> plain out"
  by (auto simp: plain_def)

lemma plain_log: "plain out' \<Longrightarrow> upload_log_of c (out @ out') = upload_log_of c out"
proof -
  have "plain out' \<Longrightarrow> fold (note_file c) out' l = l" for l by (induction out' arbitrary: l) (auto split: files_effect.splits)
  then show "plain out' \<Longrightarrow> upload_log_of c (out @ out') = upload_log_of c out" by (simp add: upload_log_append)
qed

text \<open>Changes of the file system that no upload notices.\<close>

definition calm :: "fsys \<Rightarrow> fsys \<Rightarrow> bool" where
  "calm fs fs' \<longleftrightarrow> fs_next fs \<le> fs_next fs' \<and> (fs_sound fs \<longrightarrow> fs_sound fs') \<and> (\<forall>i < fs_next fs. fs_file fs' i = fs_file fs i \<and> (fs_dir fs i = None \<longrightarrow> fs_dir fs' i = None)) \<and>
     (\<forall>dir s. temp_name s \<longrightarrow> entry_of fs' dir s = entry_of fs dir s)"

lemma calm_refl [simp]: "calm fs fs"
  by (simp add: calm_def)

lemma calm_set: "\<not> temp_name name \<Longrightarrow> calm fs (set_entry dir name i fs)"
  by (auto simp: calm_def fs_sound_def dest: temp_not_dot)

lemma calm_remove: "\<not> temp_name name \<Longrightarrow> calm fs (remove_entry dir name fs)"
  by (auto simp: calm_def fs_sound_def dest: temp_not_dot)

lemma calm_trans: "calm a b \<Longrightarrow> calm b c \<Longrightarrow> calm a c"
  by (simp add: calm_def)

lemma calm_sound: "calm fs fs' \<Longrightarrow> plain out' \<Longrightarrow> upload_sound fs out u \<Longrightarrow> upload_sound fs' (out @ out') u"
  by (auto simp: calm_def upload_sound_def plain_log)

lemma files_ok_calm:
  assumes "files_ok st out" "calm (fi_fs st) (fi_fs st')" "plain out'" "fi_uploads st' = fi_uploads st" "fi_flushed st' = fi_flushed st"
  shows "files_ok st' (out @ out')"
  using assms(1,2,4,5) calm_sound [OF assms(2,3)] by (auto simp: files_ok_def calm_def)

lemma files_ok_plain: "files_ok st out \<Longrightarrow> plain out' \<Longrightarrow> files_ok st (out @ out')"
  by (rule files_ok_calm [where st = st]) auto

section \<open>Operations on uploads\<close>

lemma files_ok_update:
  assumes "files_ok st out" "k < FILE_JOBS" "fi_uploads st' = (fi_uploads st)[k := Some u']" "fi_flushed st' = fi_flushed st"
    and "fs_sound (fi_fs st')" "upload_sound (fi_fs st') (out @ out') u'"
    and "\<And>j v. j < FILE_JOBS \<Longrightarrow> j \<noteq> k \<Longrightarrow> fi_uploads st ! j = Some v \<Longrightarrow> upload_sound (fi_fs st') (out @ out') v \<and> apart u' v"
    and "k \<in> set (fi_flushed st) \<longrightarrow> up_syncing u'"
  shows "files_ok st' (out @ out')"
proof -
  have len: "length (fi_uploads st) = FILE_JOBS" using assms(1) by (simp add: files_ok_def)
  have sym: "apart v u \<longleftrightarrow> apart u v" for u v by (auto simp: apart_def)
  have "upload_sound (fi_fs st') (out @ out') u \<and> (\<forall>j < FILE_JOBS. \<forall>v. j \<noteq> i \<longrightarrow> fi_uploads st' ! j = Some v \<longrightarrow> apart u v)"
    if "i < FILE_JOBS" "fi_uploads st' ! i = Some u" for i u
  proof (cases "i = k")
    case True
    with that assms(2,3,6,7) len show ?thesis by auto
  next
    case False
    with that(2) have u: "fi_uploads st ! i = Some u" by (simp add: assms(3))
    have "apart u v" if "j < FILE_JOBS" "j \<noteq> i" "fi_uploads st' ! j = Some v" for j v
    proof (cases "j = k")
      case True
      with that(3) len assms(2,3) have "v = u'" by simp
      with assms(7) [OF \<open>i < FILE_JOBS\<close> False u] sym show ?thesis by simp
    next
      case jk: False
      with that(3) have "fi_uploads st ! j = Some v" by (simp add: assms(3))
      with files_okD(2) [OF assms(1) \<open>i < FILE_JOBS\<close> u that(1,2)] show ?thesis by simp
    qed
    with assms(7) [OF that(1) False u] show ?thesis by blast
  qed
  moreover have "\<forall>j \<in> set (fi_flushed st'). j < FILE_JOBS \<and> (\<exists>u. fi_uploads st' ! j = Some u \<and> up_syncing u)"
  proof
    fix j assume "j \<in> set (fi_flushed st')"
    with assms(1,2,4,8) len show "j < FILE_JOBS \<and> (\<exists>u. fi_uploads st' ! j = Some u \<and> up_syncing u)"
      by (cases "j = k") (auto simp: files_ok_def assms(3))
  qed
  ultimately show ?thesis using assms(1,4,5) len by (auto simp: files_ok_def assms(3))
qed

lemma upload_at_eq: "fi_uploads st ! k = Some u \<Longrightarrow> upload_at st k = u"
  by (simp add: upload_at_def)

text \<open>A change of an upload that keeps its file, and loses its client at most.\<close>

lemma files_ok_disown:
  assumes "files_ok st out" "k < FILE_JOBS" "fi_uploads st ! k = Some u" "fi_uploads st' = (fi_uploads st)[k := Some u']" "fi_flushed st' = fi_flushed st"
    and "calm (fi_fs st) (fi_fs st')" "plain out'" "up_client u' = up_client u \<or> up_client u' = None" "up_fd u' = up_fd u" "up_parent u' = up_parent u"
    and "up_temp u' = up_temp u" "up_size u' = up_size u" "up_overwrite u' = up_overwrite u" "up_syncing u \<longrightarrow> up_syncing u'"
  shows "files_ok st' (out @ out')"
proof (rule files_ok_update [OF assms(1,2,4,5)])
  note k = files_okD [OF assms(1-3)]
  have "upload_sound (fi_fs st') (out @ out') u" by (rule calm_sound [OF assms(6,7) k(1)])
  then show "upload_sound (fi_fs st') (out @ out') u'" using assms(8-13) by (auto simp: upload_sound_def)
  show "fs_sound (fi_fs st')" using assms(1,6) by (simp add: files_ok_def calm_def)
  show "upload_sound (fi_fs st') (out @ out') v \<and> apart u' v" if "j < FILE_JOBS" "j \<noteq> k" "fi_uploads st ! j = Some v" for j v
    using calm_sound [OF assms(6,7) files_okD(1) [OF assms(1) that(1,3)]] k(2) [OF that] assms(8-11) by (auto simp: apart_def)
  show "k \<in> set (fi_flushed st) \<longrightarrow> up_syncing u'" using assms(1,3,14) by (auto simp: files_ok_def)
qed

text \<open>Dropping an upload: the slot is empty and its temporary name gone.\<close>

lemma files_ok_drop:
  assumes "files_ok st out" "k < FILE_JOBS" "fi_uploads st ! k = Some u" "fi_uploads st' = (fi_uploads st)[k := None]" "fi_flushed st' = fi_flushed st"
    and "calm (fi_fs st) fs" "fi_fs st' = remove_entry (up_parent u) (up_temp u) fs" "plain out'" "k \<notin> set (fi_flushed st)"
  shows "files_ok st' (out @ out')"
proof -
  have len: "length (fi_uploads st) = FILE_JOBS" using assms(1) by (simp add: files_ok_def)
  have sound: "upload_sound (fi_fs st') (out @ out') v" if "j < FILE_JOBS" "j \<noteq> k" "fi_uploads st ! j = Some v" for j v
  proof -
    from calm_sound [OF assms(6,8) files_okD(1) [OF assms(1) that(1,3)]] have "upload_sound fs (out @ out') v" .
    moreover have "(up_parent u, up_temp u) \<noteq> (up_parent v, up_temp v)" using files_okD(2) [OF assms(1-3) that] by (simp add: apart_def)
    ultimately show ?thesis by (auto simp: upload_sound_def assms(7) dest: temp_not_dot)
  qed
  have "fs_sound (fi_fs st')" using assms(1,6) by (simp add: files_ok_def calm_def fs_sound_def assms(7))
  moreover have "upload_sound (fi_fs st') (out @ out') v \<and> (\<forall>j < FILE_JOBS. \<forall>w. j \<noteq> i \<longrightarrow> fi_uploads st' ! j = Some w \<longrightarrow> apart v w)"
    if "i < FILE_JOBS" "fi_uploads st' ! i = Some v" for i v
  proof -
    have i: "i \<noteq> k" "fi_uploads st ! i = Some v" using that len assms(2) by (auto simp: assms(4) nth_list_update split: if_splits)
    have "apart v w" if "j < FILE_JOBS" "j \<noteq> i" "fi_uploads st' ! j = Some w" for j w
      using files_okD(2) [OF assms(1) \<open>i < FILE_JOBS\<close> i(2) that(1,2), of w] that(1,3) len assms(2) by (auto simp: assms(4) nth_list_update split: if_splits)
    with sound [OF that(1) i] show ?thesis by blast
  qed
  moreover have "\<forall>j \<in> set (fi_flushed st'). j < FILE_JOBS \<and> (\<exists>u. fi_uploads st' ! j = Some u \<and> up_syncing u)"
  proof
    fix j assume "j \<in> set (fi_flushed st')"
    then have "j \<in> set (fi_flushed st)" "j \<noteq> k" using assms(5,9) by auto
    then show "j < FILE_JOBS \<and> (\<exists>u. fi_uploads st' ! j = Some u \<and> up_syncing u)" using assms(1) by (simp add: assms(4) files_ok_def)
  qed
  ultimately show ?thesis using assms(1) len by (auto simp: files_ok_def assms(4,5))
qed

lemma discard_ok:
  assumes "files_ok st out" "k < FILE_JOBS" "fi_uploads st ! k = Some u" "discard k st = (st', out')"
  shows "files_ok st' (out @ out') \<and> plain out'"
proof (cases "up_syncing u")
  case True
  with assms(4) upload_at_eq [OF assms(3)] have "st' = put_upload k (Some (u\<lparr>up_client := None\<rparr>)) st" "out' = []" by (simp_all add: discard_def Let_def)
  moreover have "files_ok (put_upload k (Some (u\<lparr>up_client := None\<rparr>)) st) (out @ [])"
    by (rule files_ok_disown [OF assms(1-3), where u' = "u\<lparr>up_client := None\<rparr>"]) (simp_all add: put_upload_def True)
  ultimately show ?thesis by simp
next
  case False
  with assms(4) upload_at_eq [OF assms(3)] have st': "st' = (put_upload k None st)\<lparr>fi_fs := remove_entry (up_parent u) (up_temp u) (fi_fs st)\<rparr>"
    "out' = [Dropped_temp (up_parent u) (up_temp u)]" by (simp_all add: discard_def Let_def)
  have "k \<notin> set (fi_flushed st)" using assms(1,3) False by (auto simp: files_ok_def)
  then have "files_ok st' (out @ out')" unfolding st' by (intro files_ok_drop [OF assms(1-3), where fs = "fi_fs st"]) (simp_all add: put_upload_def)
  then show ?thesis by (simp add: st')
qed

lemma discard_job_ok: "files_ok st out \<Longrightarrow> discard_job c st = (st', out') \<Longrightarrow> files_ok st' (out @ out') \<and> plain out'"
proof (cases "job_index c st")
  case (Some k)
  assume a: "files_ok st out" "discard_job c st = (st', out')"
  from job_index_SomeD [OF Some] a(1) obtain u where "k < FILE_JOBS" "fi_uploads st ! k = Some u" by (auto simp: files_ok_def)
  with discard_ok [OF a(1)] a(2) show "files_ok st' (out @ out') \<and> plain out'" by (simp add: discard_job_def Some)
qed (simp add: discard_job_def)

lemma queue_flush_ok:
  assumes "files_ok st out" "k < FILE_JOBS" "fi_uploads st ! k = Some u" "queue_flush env c k st = (ok, st', out')"
  shows "files_ok st' (out @ out') \<and> plain out' \<and> (\<exists>u'. fi_uploads st' ! k = Some u')"
proof -
  have len: "length (fi_uploads st) = FILE_JOBS" using assms(1) by (simp add: files_ok_def)
  have p: "files_ok (put_upload k (Some (u\<lparr>up_syncing := True, up_client := cl\<rparr>)) st) (out @ o')" if "plain o'" "cl = up_client u \<or> cl = None" for o' cl
    by (rule files_ok_disown [OF assms(1-3), where u' = "u\<lparr>up_syncing := True, up_client := cl\<rparr>"]) (use that in \<open>simp_all add: put_upload_def\<close>)
  have up: "u\<lparr>up_syncing := True, up_client := up_client u\<rparr> = u\<lparr>up_syncing := True\<rparr>" by simp
  have some: "fi_uploads (put_upload k (Some v) st) ! k = Some v" for v using len assms(2) by (simp add: put_upload_def)
  note q = assms(4) [unfolded queue_flush_def upload_at_eq [OF assms(3)] Let_def]
  consider "fe_pool env = Pool_unavailable \<or> fe_fails env C_alloc" | "fe_pool env = Pool_retained" "\<not> fe_fails env C_alloc"
    | "fe_pool env = Pool_ok" "\<not> fe_fails env C_alloc" by (cases "fe_pool env") auto
  then show ?thesis
  proof cases
    case 1
    with q have "st' = st" "out' = []" by auto
    with assms(1,3) show ?thesis by simp
  next
    case 2
    with q have "st' = put_upload k (Some (u\<lparr>up_syncing := True, up_client := None\<rparr>)) st" "out' = [Result c (Some EAGAIN)]" by auto
    with p [of out' None] some show ?thesis by auto
  next
    case 3
    with q have "st' = put_upload k (Some (u\<lparr>up_syncing := True\<rparr>)) st" "out' = [Queued c]" by auto
    with p [of out' "up_client u"] some show ?thesis unfolding up by auto
  qed
qed

lemma flush_upload_ok: "files_ok st out \<Longrightarrow> files_ok (flush_upload k failed st) out"
proof -
  assume ok: "files_ok st out"
  show "files_ok (flush_upload k failed st) out"
  proof (cases "k < length (fi_uploads st) \<and> fi_uploads st ! k \<noteq> None \<and> up_syncing (upload_at st k) \<and> k \<notin> set (fi_flushed st)")
    case True
    then obtain u where u: "fi_uploads st ! k = Some u" "up_syncing u" "k < FILE_JOBS" "k \<notin> set (fi_flushed st)"
      using ok by (auto simp: upload_at_def files_ok_def)
    have "files_ok (put_upload k (Some (u\<lparr>up_error := failed\<rparr>)) st) (out @ [])"
      by (rule files_ok_disown [OF ok u(3,1), where u' = "u\<lparr>up_error := failed\<rparr>"]) (simp_all add: put_upload_def)
    then have "files_ok ((put_upload k (Some (u\<lparr>up_error := failed\<rparr>)) st)\<lparr>fi_flushed := fi_flushed st @ [k]\<rparr>) out"
      using u ok by (auto simp: files_ok_def put_upload_def)
    with True u show ?thesis by (simp add: flush_upload_def upload_at_eq)
  next
    case False
    then have "flush_upload k failed st = st" by (simp only: flush_upload_def if_False)
    with ok show ?thesis by simp
  qed
qed


section \<open>Publication\<close>

definition published_ok :: "files_env \<Rightarrow> fsys \<Rightarrow> fsys \<Rightarrow> files_effect list \<Rightarrow> files_effect \<Rightarrow> bool" where
  "published_ok env fs fs' out x \<longleftrightarrow> (case x of
     Published c dir name i replaced \<Rightarrow> place env fs c True dir name \<and> fs_file fs' i = Some (lo_bytes (upload_log_of c out)) \<and>
       (replaced \<longrightarrow> lo_overwrite (upload_log_of c out)) \<and> entry_of fs' dir name = Some i
   | _ \<Rightarrow> True)"

text \<open>Publishing links the new name, and may take the temporary one away.\<close>

lemma publish_cases:
  assumes "upload_sound fs out u" "up_client u = Some c" "publish env c u fs = (e, fs', out')"
  obtains "fs' = fs" "out' = []"
    | name replaced where "rrserver_files_valid_name env name \<or> name = ''.''" "place env fs c True (up_parent u) name"
        "fs' = set_entry (up_parent u) name (up_fd u) (if up_overwrite u then remove_entry (up_parent u) (up_temp u) fs else fs)"
        "out' = [Published c (up_parent u) name (up_fd u) replaced]" "replaced \<longrightarrow> up_overwrite u" "name \<noteq> ''.''"
proof (cases "resolve env fs c (up_path u) True")
  case (Inl e)
  with assms(3) that(1) show ?thesis by (simp add: publish_def)
next
  case (Inr x)
  then obtain dir name where r: "resolve env fs c (up_path u) True = Inr (dir, name)" by (cases x) auto
  have temp: "entry_of fs (up_parent u) (up_temp u) = Some (up_fd u)" using assms(1) by (simp add: upload_sound_def)
  note p = assms(3) [unfolded publish_def r sum.case prod.case Let_def]
  define blocked where "blocked \<longleftrightarrow> entry_of fs dir name \<noteq> None \<and> (\<not> up_overwrite u \<or> kind_of fs (the (entry_of fs dir name)) \<noteq> Is_file)"
  note p = p [folded blocked_def]
  show ?thesis
  proof (cases "dir \<noteq> up_parent u \<or> blocked \<or> fe_fails env (if up_overwrite u then C_rename else C_link)")
    case True
    with p temp that(1) show ?thesis by (auto split: if_splits)
  next
    case False
    then have f: "dir = up_parent u" "\<not> blocked" by auto
    have "name \<noteq> ''.''"
    proof
      assume "name = ''.''"
      then have "entry_of fs dir name = Some dir" by (simp add: entry_of_def)
      moreover have "fs_dir fs dir \<noteq> None" using temp f(1) temp_not_dot assms(1) by (auto simp: entry_of_def upload_sound_def split: option.splits)
      ultimately show False using f(2) by (auto simp: blocked_def kind_of_def split: if_splits)
    qed
    moreover have "place env fs c True (up_parent u) name" using resolve_place [OF r] f(1) by simp
    moreover have "fs' = set_entry (up_parent u) name (up_fd u) (if up_overwrite u then remove_entry (up_parent u) (up_temp u) fs else fs)"
      "out' = [Published c (up_parent u) name (up_fd u) (entry_of fs dir name \<noteq> None)]" using p False f temp by auto
    moreover have "entry_of fs dir name \<noteq> None \<longrightarrow> up_overwrite u" using f(2) by (auto simp: blocked_def)
    ultimately show ?thesis using that(2) [of name "entry_of fs dir name \<noteq> None"] place_name [of env fs c True "up_parent u" name] by simp
  qed
qed

text \<open>A change that makes no directory reachable that was not.\<close>

definition no_new_dirs :: "fsys \<Rightarrow> fsys \<Rightarrow> bool" where
  "no_new_dirs fs fs' \<longleftrightarrow> fs_link fs' = fs_link fs \<and> (\<forall>d. fs_dir fs' d = None \<longleftrightarrow> fs_dir fs d = None) \<and>
     (\<forall>dir name i. entry_of fs' dir name = Some i \<longrightarrow> fs_dir fs' i \<noteq> None \<longrightarrow> entry_of fs dir name = Some i)"

lemma no_new_dirs_reach: "reach env fs' root d \<Longrightarrow> no_new_dirs fs fs' \<Longrightarrow> reach env fs root d"
proof (induction rule: reach.induct)
  case (reach_step dir name i)
  then have "entry_of fs dir name = Some i" "fs_dir fs i \<noteq> None" unfolding no_new_dirs_def by metis+
  moreover have "\<not> fs_link fs i" using reach_step by (simp add: no_new_dirs_def)
  ultimately show ?case using reach_step by (metis reach.reach_step)
qed (rule reach_root)

lemma no_new_dirs_place: "place env fs' c writing dir name \<Longrightarrow> no_new_dirs fs fs' \<Longrightarrow> place env fs c writing dir name"
proof -
  assume p: "place env fs' c writing dir name" and n: "no_new_dirs fs fs'"
  have "fs_dir fs d \<noteq> None" if "fs_dir fs' d \<noteq> None" for d using n that unfolding no_new_dirs_def by metis
  moreover have "fs_link fs' = fs_link fs" using n by (simp add: no_new_dirs_def)
  ultimately show "place env fs c writing dir name" using p no_new_dirs_reach [OF _ n] unfolding place_def by metis
qed

lemma no_new_dirs_refl [simp]: "no_new_dirs fs fs"
  by (simp add: no_new_dirs_def)

lemma no_new_dirs_trans: "no_new_dirs a b \<Longrightarrow> no_new_dirs b c \<Longrightarrow> no_new_dirs a c"
  unfolding no_new_dirs_def by (simp del: not_None_eq)

lemma no_new_dirs_remove: "no_new_dirs fs (remove_entry dir name fs)"
  by (auto simp: no_new_dirs_def entry_of_def [of fs _ "''.''"] split: if_splits)

lemma no_new_dirs_set: "fs_dir fs i = None \<Longrightarrow> no_new_dirs fs (set_entry dir name i fs)"
  by (auto simp: no_new_dirs_def entry_of_def [of fs _ "''.''"] split: if_splits)

lemma complete_one_ok:
  assumes "files_ok st out" "k < FILE_JOBS" "fi_uploads st ! k = Some u" "k \<notin> set (fi_flushed st)" "complete_one env k st = (st', out')"
  shows "files_ok st' (out @ out') \<and> plain out' \<and> (\<forall>x \<in> set out'. published_ok env (fi_fs st) (fi_fs st') out x) \<and>
    fi_flushed st' = fi_flushed st \<and> (\<forall>j. j \<noteq> k \<longrightarrow> fi_uploads st' ! j = fi_uploads st ! j) \<and> fs_file (fi_fs st') = fs_file (fi_fs st) \<and>
    no_new_dirs (fi_fs st) (fi_fs st')"
proof -
  define ask where "ask \<longleftrightarrow> up_client u \<noteq> None \<and> \<not> up_error u"
  obtain ok gone where og: "(if ask then fe_refresh env (the (up_client u)) else (True, False)) = (ok, gone)" by (metis prod.exhaust)
  define e0 where "e0 = (if up_error u then Some E_system else if ask \<and> \<not> ok then Some EACCES else None)"
  define u1 where "u1 = (if gone then u\<lparr>up_client := None\<rparr> else u)"
  obtain e fs o1 where pub: "(if ask \<and> e0 = None \<and> \<not> gone then publish env (the (up_client u)) u1 (fi_fs st) else (e0, fi_fs st, [])) = (e, fs, o1)" by (metis prod_cases3)
  define o2 where "o2 = (case up_client u1 of None \<Rightarrow> [] | Some c \<Rightarrow> [Result c e])"
  define st1 where "st1 = (put_upload k (Some (u1\<lparr>up_syncing := False\<rparr>)) st)\<lparr>fi_fs := fs\<rparr>"
  have len: "length (fi_uploads st) = FILE_JOBS" using assms(1) by (simp add: files_ok_def)
  have at: "upload_at st1 k = u1\<lparr>up_syncing := False\<rparr>" using len assms(2) by (simp add: st1_def put_upload_def upload_at_def)
  have same: "up_parent u1 = up_parent u" "up_temp u1 = up_temp u" by (simp_all add: u1_def)
  have st': "st' = st\<lparr>fi_uploads := (fi_uploads st)[k := None], fi_fs := remove_entry (up_parent u) (up_temp u) fs\<rparr>"
    "out' = o1 @ o2 @ [Dropped_temp (up_parent u) (up_temp u)]"
    using assms(5) unfolding complete_one_def upload_at_eq [OF assms(3)] Let_def ask_def [symmetric] og prod.case e0_def [symmetric] u1_def [symmetric] pub
      o2_def [symmetric] st1_def [symmetric] discard_def at
    by (auto simp: st1_def put_upload_def same)
  note sound = files_okD(1) [OF assms(1-3)]
  have plain: "plain o2" by (simp add: o2_def split: option.split)
  have o2: "\<forall>x \<in> set o2. published_ok env a b c x" for a b c by (cases "up_client u1") (simp_all add: o2_def published_ok_def)
  have calm_drop: "files_ok st' (out @ out')" if "calm (fi_fs st) fs1" "remove_entry (up_parent u) (up_temp u) fs = remove_entry (up_parent u) (up_temp u) fs1" "plain out'" for fs1
    by (rule files_ok_drop [OF assms(1-3), where fs = fs1]) (use that assms(4) in \<open>simp_all add: st'(1)\<close>)
  have idle: ?thesis if "fs = fi_fs st" "o1 = []"
    using calm_drop [of fs] that plain o2 no_new_dirs_remove by (auto simp: st' published_ok_def)
  show ?thesis
  proof (cases "ask \<and> e0 = None \<and> \<not> gone")
    case False
    with pub have "fs = fi_fs st" "o1 = []" by auto
    with idle show ?thesis by simp
  next
    case True
    then obtain c where c: "up_client u = Some c" by (auto simp: ask_def)
    have u1: "u1 = u" using True by (simp add: u1_def)
    from pub True c u1 have p: "publish env c u (fi_fs st) = (e, fs, o1)" by simp
    from sound c have log: "fs_file (fi_fs st) (up_fd u) = Some (lo_bytes (upload_log_of c out))" "up_overwrite u = lo_overwrite (upload_log_of c out)"
      and fd: "temp_name (up_temp u)" "entry_of (fi_fs st) (up_parent u) (up_temp u) = Some (up_fd u)" by (auto simp: upload_sound_def)
    show ?thesis
    proof (rule publish_cases [OF sound c p])
      assume "fs = fi_fs st" "o1 = []"
      with idle show ?thesis by simp
    next
      fix name replaced
      assume pl: "place env (fi_fs st) c True (up_parent u) name" and nd: "name \<noteq> ''.''"
        and fs: "fs = set_entry (up_parent u) name (up_fd u) (if up_overwrite u then remove_entry (up_parent u) (up_temp u) (fi_fs st) else fi_fs st)"
        and o1: "o1 = [Published c (up_parent u) name (up_fd u) replaced]" and rep: "replaced \<longrightarrow> up_overwrite u"
      have nt: "\<not> temp_name name" "name \<noteq> up_temp u" using place_name [OF pl nd] valid_not_temp fd(1) by auto
      have d: "fs_dir (fi_fs st) (up_parent u) \<noteq> None" using fd temp_not_dot by (auto simp: entry_of_def split: option.splits)
      let ?fs1 = "set_entry (up_parent u) name (up_fd u) (fi_fs st)"
      have "remove_entry (up_parent u) (up_temp u) fs = remove_entry (up_parent u) (up_temp u) ?fs1"
        using nt(2) by (auto simp: fs set_entry_def remove_entry_def AList.delete_idem AList.delete_update split: option.splits intro!: ext)
      from calm_drop [OF calm_set [OF nt(1)] this] plain o1 have ok: "files_ok st' (out @ out')" by (simp add: st')
      have "published_ok env (fi_fs st) (fi_fs st') out (Published c (up_parent u) name (up_fd u) replaced)"
        using pl log rep nt nd d by (auto simp: published_ok_def st' fs)
      moreover have "no_new_dirs (fi_fs st) (fi_fs st')"
      proof -
        have "fs_dir (fi_fs st) (up_fd u) = None" using sound by (simp add: upload_sound_def)
        then have "no_new_dirs (fi_fs st) fs" by (auto simp: fs intro: no_new_dirs_set no_new_dirs_trans [OF no_new_dirs_remove no_new_dirs_set])
        then show ?thesis by (simp add: st' no_new_dirs_trans [OF _ no_new_dirs_remove])
      qed
      ultimately show ?thesis using ok plain o2 by (auto simp: st' o1 fs published_ok_def)
    qed
  qed
qed

definition published_exact :: "files_env \<Rightarrow> fsys \<Rightarrow> fsys \<Rightarrow> files_effect list \<Rightarrow> files_effect \<Rightarrow> bool" where
  "published_exact env fs fs' out x \<longleftrightarrow> (case x of
     Published c dir name i replaced \<Rightarrow> place env fs c True dir name \<and> fs_file fs' i = Some (lo_bytes (upload_log_of c out)) \<and>
       (replaced \<longrightarrow> lo_overwrite (upload_log_of c out))
   | _ \<Rightarrow> True)"

lemma complete_all_ok:
  assumes "files_ok st out" "distinct ks" "\<forall>k \<in> set ks. k < FILE_JOBS \<and> k \<notin> set (fi_flushed st) \<and> fi_uploads st ! k \<noteq> None" "complete_all env ks st = (st', out')"
  shows "files_ok st' (out @ out') \<and> plain out' \<and> (\<forall>x \<in> set out'. published_exact env (fi_fs st) (fi_fs st') out x) \<and>
    fs_file (fi_fs st') = fs_file (fi_fs st)"
  using assms
proof (induction ks arbitrary: st out out')
  case (Cons k ks)
  obtain st1 o1 where one: "complete_one env k st = (st1, o1)" by (metis prod.exhaust)
  obtain o2 where all: "complete_all env ks st1 = (st', o2)" and out': "out' = o1 @ o2" using Cons.prems(4) one by (auto split: prod.splits)
  obtain u where u: "k < FILE_JOBS" "fi_uploads st ! k = Some u" "k \<notin> set (fi_flushed st)" using Cons.prems(3) by auto
  note step = complete_one_ok [OF Cons.prems(1) u one]
  have slots: "\<forall>j \<in> set ks. fi_uploads st1 ! j = fi_uploads st ! j" using step Cons.prems(2) by auto
  have "files_ok st' ((out @ o1) @ o2) \<and> plain o2 \<and> (\<forall>x \<in> set o2. published_exact env (fi_fs st1) (fi_fs st') (out @ o1) x) \<and> fs_file (fi_fs st') = fs_file (fi_fs st1)"
    by (rule Cons.IH) (use step Cons.prems(2,3) slots all in auto)
  moreover have "published_exact env (fi_fs st) (fi_fs st') out x" if "published_exact env (fi_fs st1) (fi_fs st') (out @ o1) x" for x
    using that step no_new_dirs_place by (cases x) (auto simp: published_exact_def plain_log)
  moreover have "published_exact env (fi_fs st) (fi_fs st') out x" if "x \<in> set o1" "fs_file (fi_fs st') = fs_file (fi_fs st1)" for x
  proof -
    from that(1) step have "published_ok env (fi_fs st) (fi_fs st1) out x" by blast
    with that(2) show ?thesis by (cases x) (simp_all add: published_exact_def published_ok_def)
  qed
  ultimately show ?case using step by (auto simp: out')
qed simp

lemma complete_uploads_ok:
  assumes "files_ok st out" "complete_uploads env st = (st', out')"
  shows "files_ok st' (out @ out') \<and> (\<forall>x \<in> set out'. published_exact env (fi_fs st) (fi_fs st') out x)"
proof -
  have "files_ok (st\<lparr>fi_flushed := []\<rparr>) out" using assms(1) by (simp add: files_ok_def)
  moreover have "distinct (fi_flushed st)" "\<forall>k \<in> set (fi_flushed st). k < FILE_JOBS \<and> fi_uploads st ! k \<noteq> None" using assms(1) by (auto simp: files_ok_def)
  ultimately show ?thesis using complete_all_ok [of "st\<lparr>fi_flushed := []\<rparr>" out "fi_flushed st" env st' out'] assms(2) by (simp add: complete_uploads_def)
qed

section \<open>Requests keep the uploads sound\<close>

lemma entry_kept [simp]: "entry_of (fs\<lparr>fs_file := f\<rparr>) = entry_of fs" "entry_of (fs\<lparr>fs_mode := m\<rparr>) = entry_of fs" "entry_of (fs\<lparr>fs_next := n\<rparr>) = entry_of fs"
  by (simp_all add: entry_of_def fun_eq_iff)

lemma files_ok_store:
  assumes "files_ok st out" "k < FILE_JOBS" "fi_uploads st ! k = Some u" "fi_uploads st' = (fi_uploads st)[k := Some u']" "fi_flushed st' = fi_flushed st"
    and fs: "fi_fs st' = (fi_fs st)\<lparr>fs_file := (fs_file (fi_fs st))(up_fd u := Some x)\<rparr>"
    and log: "\<And>c. up_client u \<noteq> Some c \<Longrightarrow> upload_log_of c (out @ out') = upload_log_of c out"
    and same: "up_client u' = up_client u \<or> up_client u' = None" "up_fd u' = up_fd u" "up_parent u' = up_parent u" "up_temp u' = up_temp u" "up_syncing u' = up_syncing u" "up_overwrite u' = up_overwrite u"
    and new: "\<And>c. up_client u' = Some c \<Longrightarrow> x = lo_bytes (upload_log_of c (out @ out')) \<and> up_size u' = length x \<and> up_overwrite u' = lo_overwrite (upload_log_of c (out @ out'))"
  shows "files_ok st' (out @ out')"
proof (rule files_ok_update [OF assms(1,2,4,5)])
  note k = files_okD [OF assms(1-3)]
  have fd: "up_fd u < fs_next (fi_fs st)" using k(1) by (simp add: upload_sound_def)
  with assms(1) show "fs_sound (fi_fs st')" by (auto simp: files_ok_def fs_sound_def fs)
  show "upload_sound (fi_fs st') (out @ out') u'" using k(1) new same(1) by (auto simp: upload_sound_def same(2-) fs)
  show "k \<in> set (fi_flushed st) \<longrightarrow> up_syncing u'" using assms(1,3) by (auto simp: files_ok_def same)
  show "upload_sound (fi_fs st') (out @ out') v \<and> apart u' v" if "j < FILE_JOBS" "j \<noteq> k" "fi_uploads st ! j = Some v" for j v
  proof -
    have a: "apart u v" by (rule k(2) [OF that])
    have "upload_log_of c (out @ out') = upload_log_of c out" if "up_client v = Some c" for c using a that log by (auto simp: apart_def)
    with files_okD(1) [OF assms(1) that(1,3)] a have "upload_sound (fi_fs st') (out @ out') v" by (auto simp: upload_sound_def fs apart_def)
    with a same show ?thesis by (auto simp: apart_def)
  qed
qed

lemma free_slot_SomeD: "free_slot st = Some k \<Longrightarrow> k < length (fi_uploads st) \<and> fi_uploads st ! k = None"
  using find_idx_SomeD [of _ "fi_uploads st" k] by (force simp: free_slot_def)

lemma job_index_NoneD: "job_index c st = None \<Longrightarrow> k < length (fi_uploads st) \<Longrightarrow> fi_uploads st ! k = Some u \<Longrightarrow> up_client u \<noteq> Some c"
  by (force simp: job_index_def find_idx_None in_set_conv_nth)

lemma note_begun: "upload_log_of c (out @ [Begun c' dir temp overwrite]) = (if c' = c then \<lparr>lo_bytes = [], lo_overwrite = overwrite\<rparr> else upload_log_of c out)"
  by (simp add: upload_log_append)

lemma note_stored: "upload_log_of c (out @ [Stored c' fd bytes]) =
    (if c' = c then (upload_log_of c out)\<lparr>lo_bytes := lo_bytes (upload_log_of c out) @ bytes\<rparr> else upload_log_of c out)"
  by (simp add: upload_log_append)

lemma file_begin_ok:
  assumes "files_ok st out" "file_begin env c d path dir name st = (st', e, out')"
  shows "files_ok st' (out @ out')"
proof -
  define i where "i = fs_next (fi_fs st)"
  define temp where "temp = ''.rr-upload-'' @ fe_uuid env"
  define ow where "ow = fe_bool env d ''file.overwrite''"
  define blocked where "blocked \<longleftrightarrow> entry_of (fi_fs st) dir name \<noteq> None \<and> (\<not> ow \<or> kind_of (fi_fs st) (the (entry_of (fi_fs st) dir name)) \<noteq> Is_file)"
  note b = assms(2) [unfolded file_begin_def Let_def, folded temp_def ow_def, folded blocked_def i_def]
  have len: "length (fi_uploads st) = FILE_JOBS" using assms(1) by (simp add: files_ok_def)
  define refused where "refused \<longleftrightarrow> job_index c st \<noteq> None \<or> blocked \<or> free_slot st = None \<or> fe_fails env C_alloc \<or> fe_fails env C_create \<or>
    entry_of (fi_fs st) dir temp \<noteq> None \<or> fs_dir (fi_fs st) dir = None \<or> fe_fails env C_dup"
  show ?thesis
  proof (cases refused)
    case True
    with b have "st' = st" "out' = []" by (auto simp: refused_def split: option.splits if_splits)
    with assms(1) show ?thesis by simp
  next
    case False
    then have r: "job_index c st = None" "\<not> blocked" "\<not> fe_fails env C_alloc" "\<not> fe_fails env C_create" "entry_of (fi_fs st) dir temp = None"
      "fs_dir (fi_fs st) dir \<noteq> None" "\<not> fe_fails env C_dup" by (auto simp: refused_def)
    from False obtain k where slot: "free_slot st = Some k" by (auto simp: refused_def)
    from free_slot_SomeD [OF slot] len have k: "k < FILE_JOBS" "fi_uploads st ! k = None" by auto
    define u where "u = \<lparr>up_client = Some c, up_parent = dir, up_fd = i, up_path = path, up_temp = temp, up_size = 0, up_overwrite = ow, up_syncing = False, up_error = False\<rparr>"
    define fs where "fs = (set_entry dir temp i (fi_fs st))\<lparr>fs_next := i + 1, fs_file := (fs_file (fi_fs st))(i := Some []), fs_mode := (fs_mode (set_entry dir temp i (fi_fs st)))(i := 384)\<rparr>"
    have st': "st' = (put_upload k (Some u) st)\<lparr>fi_fs := fs\<rparr>" and out': "out' = [Begun c dir temp ow]"
      using b r slot by (auto simp: u_def fs_def)
    have entry: "entry_of fs = entry_of (set_entry dir temp i (fi_fs st))" by (simp add: fs_def)
    have dirs: "fs_dir fs a = None \<longleftrightarrow> fs_dir (fi_fs st) a = None" for a by (simp add: fs_def)
    have temp: "temp_name temp" by (simp add: temp_def temp_name_def)
    have snd: "fs_sound (fi_fs st)" using assms(1) by (simp add: files_ok_def)
    show ?thesis
    proof (rule files_ok_update [OF assms(1) k(1)])
      show "fi_uploads st' = (fi_uploads st)[k := Some u]" "fi_flushed st' = fi_flushed st" by (simp_all add: st' put_upload_def)
      show "fs_sound (fi_fs st')" using snd dirs by (auto simp: st' fs_sound_def i_def) (simp_all add: fs_def i_def)
      have "upload_sound fs (out @ out') u" using temp temp_not_dot [OF temp] r(6) snd dirs [of i]
        by (simp add: upload_sound_def u_def entry out' note_begun fs_sound_def) (simp add: fs_def i_def)
      then show "upload_sound (fi_fs st') (out @ out') u" by (simp add: st')
      show "k \<in> set (fi_flushed st) \<longrightarrow> up_syncing u" using assms(1) k(2) by (auto simp: files_ok_def)
      fix j v assume j: "j < FILE_JOBS" "j \<noteq> k" "fi_uploads st ! j = Some v"
      have v: "upload_sound (fi_fs st) out v" by (rule files_okD(1) [OF assms(1) j(1,3)])
      have "up_client v \<noteq> Some c" using job_index_NoneD [OF r(1) _ j(3)] j(1) len by simp
      moreover have "up_fd v \<noteq> i" "(up_parent v, up_temp v) \<noteq> (dir, temp)" using v r(5) by (auto simp: upload_sound_def i_def)
      ultimately have "upload_sound fs (out @ out') v \<and> apart u v" using v dirs temp_not_dot [of "up_temp v"]
        by (auto simp: upload_sound_def apart_def u_def entry out' note_begun) (auto simp: fs_def i_def)
      then show "upload_sound (fi_fs st') (out @ out') v \<and> apart u v" by (simp add: st')
    qed
  qed
qed

lemma file_chunk_ok:
  assumes "files_ok st out" "k < FILE_JOBS" "fi_uploads st ! k = Some u" "up_client u = Some c" "\<not> up_syncing u" "file_chunk env c d k st = (st', e, out')"
  shows "files_ok st' (out @ out')"
proof -
  define encoded where "encoded = dict_get d ''file.data'' ''''"
  define bytes where "bytes = fe_decode env encoded"
  obtain n failed where w: "fe_written env bytes = (n, failed)" by (metis prod.exhaust)
  note s = assms(6) [unfolded file_chunk_def Let_def upload_at_eq [OF assms(3)], folded encoded_def, folded bytes_def, unfolded w prod.case]
  have sound: "fs_file (fi_fs st) (up_fd u) = Some (lo_bytes (upload_log_of c out))" "up_size u = length (lo_bytes (upload_log_of c out))"
    "up_overwrite u = lo_overwrite (upload_log_of c out)" using files_okD(1) [OF assms(1-3)] assms(4) by (auto simp: upload_sound_def)
  let ?fs = "\<lambda>data. (fi_fs st)\<lparr>fs_file := (fs_file (fi_fs st))(up_fd u := Some data)\<rparr>"
  have drop: "files_ok s' (out @ o')" if "discard k st = (s', o')" for s' o' using discard_ok [OF assms(1-3) that] by simp
  consider "st' = st" "out' = []" | "discard k st = (st', out')" | o2 where "failed" "discard k (st\<lparr>fi_fs := ?fs (lo_bytes (upload_log_of c out) @ take n bytes)\<rparr>) = (st', o2)" "out' = Stored c (up_fd u) (take n bytes) # o2"
    | "\<not> failed" "st' = put_upload k (Some (u\<lparr>up_size := up_size u + length bytes\<rparr>)) (st\<lparr>fi_fs := ?fs (lo_bytes (upload_log_of c out) @ bytes)\<rparr>)" "out' = [Stored c (up_fd u) bytes]"
  proof -
    show thesis
    proof (cases "FILE_CHUNK * 4 div 3 < length encoded \<or> fe_ull env d ''file.offset'' \<noteq> up_size u")
      case True
      with s that(1) show thesis by simp
    next
      case f1: False
      note s = s [unfolded if_not_P [OF f1]]
      show thesis
      proof (cases "fe_encode env bytes \<noteq> encoded \<or> FILE_CHUNK < length bytes \<or> max_size env < up_size u + length bytes")
        case True
        with s that(2) show thesis by (cases "discard k st") (auto simp: with_error_def split: if_splits)
      next
        case f2: False
        with s that(3,4) show thesis by (cases failed) (auto simp: sound with_error_def split: prod.splits)
      qed
    qed
  qed
  then show ?thesis
  proof cases
    case 1
    with assms(1) show ?thesis by simp
  next
    case 2
    then show ?thesis by (rule drop)
  next
    case 3
    let ?data = "lo_bytes (upload_log_of c out) @ take n bytes"
    let ?st = "put_upload k (Some (u\<lparr>up_client := None\<rparr>)) (st\<lparr>fi_fs := ?fs ?data\<rparr>)"
    have ok: "files_ok ?st (out @ [Stored c (up_fd u) (take n bytes)])"
      by (rule files_ok_store [OF assms(1-3), where u' = "u\<lparr>up_client := None\<rparr>" and x = ?data]) (use assms(4) in \<open>auto simp: put_upload_def note_stored\<close>)
    have len: "k < length (fi_uploads st)" using assms(1,2) by (simp add: files_ok_def)
    have "discard k ?st = (st', o2)" using 3(2) assms(3,5) len by (simp add: discard_def upload_at_def put_upload_def)
    with discard_ok [OF ok assms(2)] len 3(3) show ?thesis by (simp add: put_upload_def)
  next
    case 4
    show ?thesis
      by (rule files_ok_store [OF assms(1-3), where u' = "u\<lparr>up_size := up_size u + length bytes\<rparr>" and x = "lo_bytes (upload_log_of c out) @ bytes"])
        (use assms(4) sound in \<open>auto simp: 4 put_upload_def note_stored\<close>)
  qed
qed

lemma calm_mode: "calm fs (fs\<lparr>fs_mode := m\<rparr>)"
  by (simp add: calm_def fs_sound_def)

lemma file_commit_ok:
  assumes "files_ok st out" "k < FILE_JOBS" "fi_uploads st ! k = Some u" "file_commit env c dir name k st = (st', e, out')"
  shows "files_ok st' (out @ out')"
proof -
  define target where "target = entry_of (fi_fs st) dir name"
  define refused where "refused \<longleftrightarrow> target \<noteq> None \<and> (\<not> up_overwrite u \<or> kind_of (fi_fs st) (the target) \<noteq> Is_file)"
  define mode where "mode = fs_mode (fi_fs st) (the target) mod 512"
  define st1 where "st1 = (if target = None then st else st\<lparr>fi_fs := (fi_fs st)\<lparr>fs_mode := (fs_mode (fi_fs st))(up_fd u := mode)\<rparr>\<rparr>)"
  define changed where "changed = (if target = None then [] else [Chmod c (up_fd u) mode])"
  note s = assms(4) [unfolded file_commit_def Let_def upload_at_eq [OF assms(3)], folded target_def, folded refused_def mode_def, folded changed_def st1_def]
  show ?thesis
  proof (cases "refused \<or> (target \<noteq> None \<and> fe_fails env C_chmod)")
    case True
    with s have "discard k st = (st', out')" by (auto split: prod.splits if_splits)
    with discard_ok [OF assms(1-3)] show ?thesis by simp
  next
    case False
    have ok1: "files_ok st1 (out @ changed)"
      by (rule files_ok_calm [OF assms(1)]) (auto simp: st1_def changed_def calm_mode)
    have u1: "fi_uploads st1 ! k = Some u" using assms(3) by (simp add: st1_def)
    obtain ok st2 o1 where q: "queue_flush env c k st1 = (ok, st2, o1)" by (metis prod_cases3)
    note f = queue_flush_ok [OF ok1 assms(2) u1 q]
    from False s q have r: "(if ok then (st2, None, changed @ o1) else case discard k st2 of (st, out') \<Rightarrow> (st, Some (Some ENOMEM), changed @ o1 @ out')) = (st', e, out')" by auto
    show ?thesis
    proof (cases ok)
      case True
      with r f show ?thesis by simp
    next
      case nok: False
      then obtain o2 where o2: "discard k st2 = (st', o2)" "out' = changed @ o1 @ o2" using r by (auto split: prod.splits)
      from f obtain u' where "files_ok st2 ((out @ changed) @ o1)" "fi_uploads st2 ! k = Some u'" by blast
      from discard_ok [OF this(1) assms(2) this(2) o2(1)] show ?thesis by (simp add: o2(2))
    qed
  qed
qed

lemma calm_new:
  assumes "\<not> temp_name name" "fs_dir fs dir \<noteq> None" "fs_sound fs"
  shows "calm fs ((set_entry dir name i fs)\<lparr>fs_next := fs_next fs + 1, fs_dir := (fs_dir (set_entry dir name i fs))(fs_next fs := Some [])\<rparr>)"
proof -
  let ?fs = "(set_entry dir name i fs)\<lparr>fs_next := fs_next fs + 1, fs_dir := (fs_dir (set_entry dir name i fs))(fs_next fs := Some [])\<rparr>"
  have "entry_of ?fs a s = entry_of fs a s" if "temp_name s" for a s
  proof (cases "a = fs_next fs")
    case True
    with that assms(3) show ?thesis by (auto simp: entry_of_def fs_sound_def temp_not_dot)
  next
    case False
    then have "entry_of ?fs a s = entry_of (set_entry dir name i fs) a s" by (simp add: entry_of_def)
    with that assms temp_not_dot [OF that(1)] show ?thesis by auto
  qed
  then show ?thesis using assms by (auto simp: calm_def fs_sound_def)
qed

lemma place_plain: "place env fs c writing dir name \<Longrightarrow> name \<noteq> ''.'' \<Longrightarrow> \<not> temp_name name"
  using place_name valid_not_temp by blast

lemma file_mkdir_ok:
  assumes "files_ok st out" "\<not> temp_name name" "file_mkdir env dir name st = (st', e, out')"
  shows "files_ok st' (out @ out')"
proof (cases "fe_fails env C_mkdir \<or> entry_of (fi_fs st) dir name \<noteq> None \<or> fs_dir (fi_fs st) dir = None")
  case True
  with assms show ?thesis by (auto simp: file_mkdir_def)
next
  case False
  with assms(3) have st': "st' = st\<lparr>fi_fs := (set_entry dir name (fs_next (fi_fs st)) (fi_fs st))\<lparr>fs_next := fs_next (fi_fs st) + 1,
      fs_dir := (fs_dir (set_entry dir name (fs_next (fi_fs st)) (fi_fs st)))(fs_next (fi_fs st) := Some [])\<rparr>\<rparr>" "out' = [Made_dir dir name]"
    by (auto simp: file_mkdir_def Let_def)
  have "fs_sound (fi_fs st)" using assms(1) by (simp add: files_ok_def)
  with False have "calm (fi_fs st) (fi_fs st')" unfolding st' by simp (rule calm_new [unfolded Suc_eq_plus1 [symmetric]], use assms(2) in auto)
  then show ?thesis by (rule files_ok_calm [OF assms(1)]) (simp_all add: st')
qed

lemma file_delete_ok:
  assumes "files_ok st out" "\<not> temp_name name" "file_delete env dir name st = (st', e, out')"
  shows "files_ok st' (out @ out')"
proof -
  have "calm (fi_fs st) (fi_fs st') \<and> plain out' \<and> fi_uploads st' = fi_uploads st \<and> fi_flushed st' = fi_flushed st"
    using assms(3) calm_remove [OF assms(2)] by (auto simp: file_delete_def split: if_splits option.splits)
  with files_ok_calm [OF assms(1)] show ?thesis by blast
qed

lemma file_rename_ok:
  assumes "files_ok st out" "\<not> temp_name name" "file_rename env c d path dir name st = (st', e, out')"
  shows "files_ok st' (out @ out')"
proof -
  have dest: "\<not> temp_name dest" if "resolve env (fi_fs st) c p True = Inr (other, dest)" "dest \<noteq> ''.''" for p other dest
    using place_plain [OF resolve_place [OF that(1)] that(2)] .
  have "calm (fi_fs st) (set_entry other dest i (remove_entry dir name (fi_fs st)))" if "resolve env (fi_fs st) c p True = Inr (other, dest)" "dest \<noteq> ''.''" for p other dest i
    by (rule calm_trans [OF calm_remove [OF assms(2)] calm_set [OF dest [OF that]]])
  then have "calm (fi_fs st) (fi_fs st') \<and> plain out' \<and> fi_uploads st' = fi_uploads st \<and> fi_flushed st' = fi_flushed st"
    using assms(3) by (auto simp: file_rename_def Let_def split: if_splits option.splits sum.splits)
  with files_ok_calm [OF assms(1)] show ?thesis by blast
qed

lemma file_list_plain: "plain (file_list env c path st)"
proof -
  have rows: "plain (concat (map (dir_entry env c fs w) es))" for fs w es
    by (induction es) (auto simp: dir_entry_def)
  have shares: "plain (concat (map (share_entry env c) ss))" for ss
    by (induction ss) (auto simp: share_entry_def Let_def)
  have part: "plain (take n xs)" if "plain xs" for n xs using that set_take_subset [of n xs] by (auto simp: plain_def)
  show ?thesis using rows shares part by (auto simp: file_list_def Let_def split: sum.splits option.splits)
qed

lemma file_read_plain: "plain (file_read env c d dir name st)"
  by (auto simp: file_read_def Let_def split: option.splits)

lemma answer_ok: "(\<And>s e o'. x = (s, e, o') \<Longrightarrow> files_ok s (out @ o')) \<Longrightarrow> answer c x = (st', out') \<Longrightarrow> files_ok st' (out @ out')"
proof -
  assume ok: "\<And>s e o'. x = (s, e, o') \<Longrightarrow> files_ok s (out @ o')" and a: "answer c x = (st', out')"
  obtain s e o' where x: "x = (s, e, o')" by (metis prod_cases3)
  from files_ok_plain [OF ok [OF x], of "[Result c e]"] a x show "files_ok st' (out @ out')" by (auto simp: answer_def)
qed

lemma upload_command_ok:
  assumes "files_ok st out" "upload_command env c d cmd path dir name st = (st', out')"
  shows "files_ok st' (out @ out')"
proof (cases "job_index c st")
  case None
  with assms files_ok_plain [OF assms(1)] show ?thesis by (auto simp: upload_command_def)
next
  case (Some k)
  from job_index_SomeD [OF Some] assms(1) obtain u where u: "k < FILE_JOBS" "fi_uploads st ! k = Some u" "up_client u = Some c" by (auto simp: files_ok_def)
  note x = assms(2) [unfolded upload_command_def Some option.case upload_at_eq [OF u(2)]]
  have res: "files_ok st' (out @ out')" if "st' = st" "out' = [Result c e]" for e using files_ok_plain [OF assms(1)] that by simp
  show ?thesis
  proof (cases "up_path u \<noteq> path \<or> up_parent u \<noteq> dir")
    case True
    with x res show ?thesis by auto
  next
    case f1: False
    note x = x [unfolded if_not_P [OF f1]]
    show ?thesis
    proof (cases "cmd = ''cancel''")
      case True
      with x have "answer c (case discard k st of (st, out) \<Rightarrow> (st, None, out)) = (st', out')" by simp
      then show ?thesis by (rule answer_ok [rotated]) (use discard_ok [OF assms(1) u(1,2)] in \<open>auto split: prod.splits\<close>)
    next
      case f2: False
      note x = x [unfolded if_not_P [OF f2]]
      show ?thesis
      proof (cases "up_syncing u")
        case True
        with x res show ?thesis by auto
      next
        case f3: False
        note x = x [unfolded if_not_P [OF f3]]
        show ?thesis
        proof (cases "cmd = ''chunk''")
          case True
          with x have "answer c (file_chunk env c d k st) = (st', out')" by simp
          then show ?thesis by (rule answer_ok [rotated]) (rule file_chunk_ok [OF assms(1) u f3])
        next
          case f4: False
          note x = x [unfolded if_not_P [OF f4]]
          obtain s e o' where r: "file_commit env c dir name k st = (s, e, o')" by (metis prod_cases3)
          from file_commit_ok [OF assms(1) u(1,2) r] have "files_ok s (out @ o')" .
          with files_ok_plain [OF this, of "case e of None \<Rightarrow> [] | Some e \<Rightarrow> [Result c e]"] x r show ?thesis by (auto split: option.splits)
        qed
      qed
    qed
  qed
qed

lemma file_command_cases:
  assumes "file_command env c d cmd path dir name st = (st', out')"
  obtains (read) "cmd = ''read''" "st' = st" "out' = file_read env c d dir name st"
  | (start) "cmd \<noteq> ''read''" "name \<noteq> ''.''" "answer c (file_begin env c d path dir name st) = (st', out')"
  | (command) "cmd \<noteq> ''read''" "name \<noteq> ''.''" "upload_command env c d cmd path dir name st = (st', out')"
  | (mkdir) "cmd \<noteq> ''read''" "name \<noteq> ''.''" "answer c (file_mkdir env dir name st) = (st', out')"
  | (delete) "cmd \<noteq> ''read''" "name \<noteq> ''.''" "answer c (file_delete env dir name st) = (st', out')"
  | (rename) "cmd \<noteq> ''read''" "name \<noteq> ''.''" "answer c (file_rename env c d path dir name st) = (st', out')"
  | (refused) e where "st' = st" "out' = [Result c e]"
proof (cases "cmd \<noteq> ''read'' \<and> name = ''.''")
  case True
  with assms have "st' = st" "out' = [Result c (Some EPERM)]" by (simp_all add: file_command_def)
  then show thesis by (rule refused)
next
  case f0: False
  note x = assms [unfolded file_command_def if_not_P [OF f0]]
  show thesis
  proof (cases "cmd = ''read''")
    case True
    with x have "st' = st" "out' = file_read env c d dir name st" by auto
    with True show thesis by (rule read)
  next
    case f1: False
    with f0 have n: "name \<noteq> ''.''" by simp
    note x = x [unfolded if_not_P [OF f1]]
    consider "cmd = ''begin''" | "cmd = ''chunk'' \<or> cmd = ''commit'' \<or> cmd = ''cancel''" | "cmd = ''mkdir''" | "cmd = ''delete''" | "cmd = ''rename''"
      | "cmd \<noteq> ''begin''" "\<not> (cmd = ''chunk'' \<or> cmd = ''commit'' \<or> cmd = ''cancel'')" "cmd \<noteq> ''mkdir''" "cmd \<noteq> ''delete''" "cmd \<noteq> ''rename''" by meson
    then show thesis
    proof cases
      case 1
      from x [unfolded if_P [OF 1]] start [OF f1 n] show thesis by simp
    next
      case 2
      then have "cmd \<noteq> ''begin''" by auto
      from x [unfolded if_not_P [OF this] if_P [OF 2]] command [OF f1 n] show thesis by simp
    next
      case 3
      with x have "answer c (file_mkdir env dir name st) = (st', out')" by simp
      with mkdir [OF f1 n] show thesis by simp
    next
      case 4
      with x have "answer c (file_delete env dir name st) = (st', out')" by simp
      with delete [OF f1 n] show thesis by simp
    next
      case 5
      with x have "answer c (file_rename env c d path dir name st) = (st', out')" by simp
      with rename [OF f1 n] show thesis by simp
    next
      case 6
      from x [unfolded if_not_P [OF 6(1)] if_not_P [OF 6(2)] if_not_P [OF 6(3)] if_not_P [OF 6(4)] if_not_P [OF 6(5)]]
      have "st' = st" "out' = [Result c (Some EINVAL)]" by simp_all
      then show thesis by (rule refused)
    qed
  qed
qed

lemma file_command_ok:
  assumes "files_ok st out" "name \<noteq> ''.'' \<Longrightarrow> \<not> temp_name name" "file_command env c d cmd path dir name st = (st', out')"
  shows "files_ok st' (out @ out')"
proof (cases rule: file_command_cases [OF assms(3)])
  case 1
  with files_ok_plain [OF assms(1) file_read_plain] show ?thesis by simp
next
  case 2
  from 2(3) show ?thesis by (rule answer_ok [rotated]) (rule file_begin_ok [OF assms(1)])
next
  case 3
  show ?thesis by (rule upload_command_ok [OF assms(1) 3(3)])
next
  case 4
  from 4(3) show ?thesis by (rule answer_ok [rotated]) (rule file_mkdir_ok [OF assms(1) assms(2) [OF 4(2)]])
next
  case 5
  from 5(3) show ?thesis by (rule answer_ok [rotated]) (rule file_delete_ok [OF assms(1) assms(2) [OF 5(2)]])
next
  case 6
  from 6(3) show ?thesis by (rule answer_ok [rotated]) (rule file_rename_ok [OF assms(1) assms(2) [OF 6(2)]])
next
  case (7 e)
  with files_ok_plain [OF assms(1)] show ?thesis by simp
qed

lemma file_request_cases:
  assumes "file_request env c d st = (st', out')"
  obtains (refused) "st' = st" "out' = [] \<or> out' = [Result c (Some EINVAL)]"
  | (list) path where "st' = st" "out' = file_list env c path st"
  | (unresolved) e s o' where "(s, o') = discard_job c st \<or> (s, o') = (st, [])" "st' = s" "out' = o' @ [Result c (Some e)]"
  | (command) cmd path dir name where "resolve env (fi_fs st) c path (cmd \<noteq> ''read'') = Inr (dir, name)"
      "file_command env c d cmd path dir name st = (st', out')"
proof -
  define cmd where "cmd = dict_get d ''file.cmd'' ''''"
  define path where "path = dict_get d ''file.path'' ''/''"
  define request where "request = map_of d ''request.id''"
  note x = assms [unfolded file_request_def Let_def, folded cmd_def path_def request_def]
  show thesis
  proof (cases "\<not> cn_authenticated (fe_conn env c) \<or> \<not> cn_user (fe_conn env c)")
    case True
    with x have "st' = st" "out' = []" by simp_all
    then show thesis using refused by simp
  next
    case f1: False
    note x = x [unfolded if_not_P [OF f1]]
    show thesis
    proof (cases "request = None \<or> request = Some [] \<or> 64 < length (the request)")
      case True
      from x [unfolded if_P [OF True]] have "st' = st" "out' = [Result c (Some EINVAL)]" by simp_all
      then show thesis using refused by simp
    next
      case f2: False
      note x = x [unfolded if_not_P [OF f2]]
      show thesis
      proof (cases "cmd = ''list''")
        case True
        from x [unfolded if_P [OF True]] have "st' = st" "out' = file_list env c path st" by auto
        then show thesis by (rule list)
      next
        case False
        note x = x [unfolded if_not_P [OF False]]
        show thesis
        proof (cases "resolve env (fi_fs st) c path (cmd \<noteq> ''read'')")
          case (Inl e)
          obtain s o' where r: "(if cmd = ''chunk'' \<or> cmd = ''commit'' \<or> cmd = ''cancel'' then discard_job c st else (st, [])) = (s, o')" by (metis prod.exhaust)
          from x [unfolded Inl sum.case r prod.case] have "st' = s" "out' = o' @ [Result c (Some e)]" by simp_all
          moreover have "(s, o') = discard_job c st \<or> (s, o') = (st, [])" using r by (simp split: if_split_asm)
          ultimately show thesis using unresolved by blast
        next
          case (Inr y)
          then obtain dir name where y: "y = (dir, name)" by (cases y)
          from x [unfolded Inr y sum.case prod.case] show thesis by (rule command [OF Inr [unfolded y]])
        qed
      qed
    qed
  qed
qed

lemma file_request_ok:
  assumes "files_ok st out" "file_request env c d st = (st', out')"
  shows "files_ok st' (out @ out')"
proof (cases rule: file_request_cases [OF assms(2)])
  case 1
  then have "plain out'" by auto
  from files_ok_plain [OF assms(1) this] 1(1) show ?thesis by simp
next
  case 2
  with files_ok_plain [OF assms(1) file_list_plain] show ?thesis by simp
next
  case (3 e s o')
  have "files_ok s (out @ o')" using 3(1) discard_job_ok [OF assms(1)] assms(1) by auto
  from files_ok_plain [OF this, of "[Result c (Some e)]"] 3 show ?thesis by simp
next
  case (4 cmd path dir name)
  show ?thesis by (rule file_command_ok [OF assms(1) _ 4(2)]) (rule place_plain [OF resolve_place [OF 4(1)]])
qed


section \<open>Runs keep the uploads sound\<close>

definition files_start :: "fsys \<Rightarrow> files" where
  "files_start fs = \<lparr>fi_uploads = replicate FILE_JOBS None, fi_flushed = [], fi_fs = fs\<rparr>"

lemma drop_all_kept: "drop_all us fs = (fs', out) \<Longrightarrow> (fs_sound fs' \<longleftrightarrow> fs_sound fs) \<and> (\<forall>x \<in> set out. \<exists>dir name. x = Dropped_temp dir name)"
proof (induction us fs arbitrary: out rule: drop_all.induct)
  case (3 u us fs)
  have s: "fs_sound (remove_entry (up_parent u) (up_temp u) fs) \<longleftrightarrow> fs_sound fs" by (simp add: fs_sound_def)
  from 3(2) obtain o' where "drop_all us (remove_entry (up_parent u) (up_temp u) fs) = (fs', o')" "out = Dropped_temp (up_parent u) (up_temp u) # o'"
    by (auto split: prod.splits)
  with 3(1) [of o'] s show ?case by simp
qed simp_all

lemma files_fini_ok:
  assumes "files_ok st out" "rrserver_files_fini st = (st', out')"
  shows "files_ok st' (out @ out') \<and> (\<forall>x \<in> set out'. \<exists>dir name. x = Dropped_temp dir name)"
proof -
  obtain fs o' where d: "drop_all (fi_uploads st) (fi_fs st) = (fs, o')" by (metis prod.exhaust)
  with assms(2) have st': "st' = \<lparr>fi_uploads = map (\<lambda>u. None) (fi_uploads st), fi_flushed = [], fi_fs = fs\<rparr>" "out' = o'" by (simp_all add: rrserver_files_fini_def)
  show ?thesis using drop_all_kept [OF d] assms(1) by (auto simp: st' files_ok_def)
qed

lemma files_step_ok:
  assumes "files_ok st out" "files_step x st = (st', out')"
  shows "files_ok st' (out @ out')"
proof (cases x)
  case (Pair env e)
  show ?thesis using assms file_request_ok flush_upload_ok complete_uploads_ok discard_job_ok files_fini_ok by (cases e) (auto simp: Pair)
qed

lemma files_run_ok: "fs_sound fs \<Longrightarrow> files_run xs (files_start fs) = (st, out) \<Longrightarrow> files_ok st out"
proof (induction xs arbitrary: st out rule: rev_induct)
  case Nil
  then show ?case by (auto simp: files_start_def files_ok_def)
next
  case (snoc x xs)
  obtain s o1 where s: "files_run xs (files_start fs) = (s, o1)" by (metis prod.exhaust)
  obtain s' o2 where s': "files_step x s = (s', o2)" by (metis prod.exhaust)
  from files_step_ok [OF snoc.IH [OF snoc.prems(1) s] s'] snoc.prems(2) show ?case by (simp add: files_run_snoc s s')
qed

section \<open>Confinement\<close>

text \<open>
  What an effect of a request of a client may touch, in the file system the request found and after the effects \<open>out\<close>: a file or
  directory at a place of the client that is not a link, or the temporary file of an upload the client has begun.
\<close>

definition began :: "nat \<Rightarrow> files_effect list \<Rightarrow> inode \<Rightarrow> string \<Rightarrow> bool" where
  "began c out dir temp \<longleftrightarrow> temp_name temp \<and> (\<exists>overwrite. Begun c dir temp overwrite \<in> set out)"

definition own_upload :: "files_env \<Rightarrow> fsys \<Rightarrow> nat \<Rightarrow> files_effect list \<Rightarrow> inode \<Rightarrow> bool" where
  "own_upload env fs c out i \<longleftrightarrow> (\<exists>dir temp name. began c out dir temp \<and> entry_of fs dir temp = Some i \<and> name \<noteq> ''.'' \<and> place env fs c True dir name)"

definition unlinked :: "fsys \<Rightarrow> inode \<Rightarrow> string \<Rightarrow> bool" where
  "unlinked fs dir name \<longleftrightarrow> (\<exists>i. entry_of fs dir name = Some i \<and> \<not> fs_link fs i)"

definition confined :: "files_env \<Rightarrow> fsys \<Rightarrow> nat \<Rightarrow> files_effect list \<Rightarrow> files_effect \<Rightarrow> bool" where
  "confined env fs c out x \<longleftrightarrow> (case x of
     Read_at dir name i \<Rightarrow> place env fs c False dir name \<and> entry_of fs dir name = Some i \<and> \<not> fs_link fs i
   | Begun c' dir temp overwrite \<Rightarrow> c' = c \<and> temp_name temp \<and> entry_of fs dir temp = None \<and> (\<exists>name. name \<noteq> ''.'' \<and> place env fs c True dir name)
   | Stored c' i bytes \<Rightarrow> c' = c \<and> own_upload env fs c out i
   | Chmod c' i mode \<Rightarrow> c' = c \<and> own_upload env fs c out i
   | Made_dir dir name \<Rightarrow> name \<noteq> ''.'' \<and> place env fs c True dir name \<and> entry_of fs dir name = None
   | Removed dir name \<Rightarrow> name \<noteq> ''.'' \<and> place env fs c True dir name \<and> unlinked fs dir name
   | Renamed dir name other dest \<Rightarrow> name \<noteq> ''.'' \<and> place env fs c True dir name \<and> place env fs c False dir name \<and> unlinked fs dir name \<and>
       dest \<noteq> ''.'' \<and> place env fs c True other dest \<and> entry_of fs other dest = None
   | Dropped_temp dir temp \<Rightarrow> began c out dir temp
   | Published _ _ _ _ _ \<Rightarrow> False
   | Data c' _ _ _ _ \<Rightarrow> c' = c
   | Entry c' _ _ _ _ _ \<Rightarrow> c' = c
   | List_nodes c' \<Rightarrow> c' = c
   | End_list c' \<Rightarrow> c' = c
   | Queued c' \<Rightarrow> c' = c
   | Result c' _ \<Rightarrow> c' = c)"

lemma resolve_same: "resolve env fs c path False = Inr x \<Longrightarrow> resolve env fs c path True = Inr y \<Longrightarrow> x = y"
  by (auto simp: resolve_def split: if_splits list.splits option.splits)

lemma result_confined [simp]: "confined env fs c out (Result c e)" "confined env fs c out (Queued c)"
  by (simp_all add: confined_def)

lemma upload_began: "files_ok st out \<Longrightarrow> k < FILE_JOBS \<Longrightarrow> fi_uploads st ! k = Some u \<Longrightarrow> up_client u = Some c \<Longrightarrow> began c out (up_parent u) (up_temp u)"
  using files_okD(1) by (fastforce simp: upload_sound_def began_def)

lemma discard_effects: "discard k st = (s, o') \<Longrightarrow> x \<in> set o' \<Longrightarrow> x = Dropped_temp (up_parent (upload_at st k)) (up_temp (upload_at st k))"
  by (auto simp: discard_def Let_def split: if_splits)

lemma discard_confined:
  assumes "files_ok st out" "k < FILE_JOBS" "fi_uploads st ! k = Some u" "up_client u = Some c" "discard k st = (s, o')" "x \<in> set o'"
  shows "confined env fs c out x"
  using discard_effects [OF assms(5,6)] upload_began [OF assms(1-4)] upload_at_eq [OF assms(3)] by (simp add: confined_def)

lemma discard_job_confined: "files_ok st out \<Longrightarrow> discard_job c st = (s, o') \<Longrightarrow> x \<in> set o' \<Longrightarrow> confined env fs c out x"
proof (cases "job_index c st")
  case (Some k)
  assume a: "files_ok st out" "discard_job c st = (s, o')" "x \<in> set o'"
  from job_index_SomeD [OF Some] a(1) obtain u where u: "k < FILE_JOBS" "fi_uploads st ! k = Some u" "up_client u = Some c" by (auto simp: files_ok_def)
  from discard_confined [OF a(1) u] a(2,3) show ?thesis by (simp add: discard_job_def Some)
qed (simp add: discard_job_def)

lemma queue_effects: "queue_flush env c k st = (ok, s, o') \<Longrightarrow> x \<in> set o' \<Longrightarrow> x = Queued c \<or> x = Result c (Some EAGAIN)"
  by (auto simp: queue_flush_def Let_def split: if_splits)

lemma queue_upload: "queue_flush env c k st = (False, s, o') \<Longrightarrow> s = st \<and> o' = []"
  by (auto simp: queue_flush_def Let_def split: if_splits)

lemma chunk_confined:
  assumes "files_ok st out" "k < FILE_JOBS" "fi_uploads st ! k = Some u" "up_client u = Some c" "own_upload env (fi_fs st) c out (up_fd u)"
    and "file_chunk env c d k st = (s, e, o')" "x \<in> set o'"
  shows "confined env (fi_fs st) c out x"
proof -
  have at: "upload_at (st\<lparr>fi_fs := fs\<rparr>) k = u" for fs using assms(3) by (simp add: upload_at_def)
  have drop: "confined env (fi_fs st) c out y" if "discard k (st\<lparr>fi_fs := fs\<rparr>) = (s', o2)" "y \<in> set o2" for fs s' o2 y
    using discard_effects [OF that] upload_began [OF assms(1-4)] by (simp add: at confined_def)
  have drop': "confined env (fi_fs st) c out y" if "discard k st = (s', o2)" "y \<in> set o2" for s' o2 y
    using drop [of "fi_fs st"] that by simp
  have own: "confined env (fi_fs st) c out (Stored c (up_fd u) bytes)" for bytes using assms(5) by (simp add: confined_def)
  from assms(6,7) show ?thesis
    unfolding file_chunk_def Let_def upload_at_eq [OF assms(3)] with_error_def
    by (auto intro: own drop drop' split: if_splits prod.splits)
qed

lemma commit_confined:
  assumes "files_ok st out" "k < FILE_JOBS" "fi_uploads st ! k = Some u" "up_client u = Some c" "own_upload env (fi_fs st) c out (up_fd u)"
    and "file_commit env c dir name k st = (s, e, o')" "x \<in> set o'"
  shows "confined env (fi_fs st) c out x"
proof -
  have at: "upload_at (st\<lparr>fi_fs := fs\<rparr>) k = u" for fs using assms(3) by (simp add: upload_at_def)
  have drop: "confined env (fi_fs st) c out y" if "discard k (st\<lparr>fi_fs := fs\<rparr>) = (s', o2)" "y \<in> set o2" for fs s' o2 y
    using discard_effects [OF that] upload_began [OF assms(1-4)] by (simp add: at confined_def)
  have own: "confined env (fi_fs st) c out (Chmod c (up_fd u) mode)" for mode using assms(5) by (simp add: confined_def)
  define target where "target = entry_of (fi_fs st) dir name"
  define refused where "refused \<longleftrightarrow> target \<noteq> None \<and> (\<not> up_overwrite u \<or> kind_of (fi_fs st) (the target) \<noteq> Is_file)"
  define mode where "mode = fs_mode (fi_fs st) (the target) mod 512"
  define fs where "fs = (if target = None then fi_fs st else (fi_fs st)\<lparr>fs_mode := (fs_mode (fi_fs st))(up_fd u := mode)\<rparr>)"
  define changed where "changed = (if target = None then [] else [Chmod c (up_fd u) mode])"
  have st1: "(if target = None then st else st\<lparr>fi_fs := (fi_fs st)\<lparr>fs_mode := (fs_mode (fi_fs st))(up_fd u := mode)\<rparr>\<rparr>) = st\<lparr>fi_fs := fs\<rparr>"
    by (simp add: fs_def)
  note x = assms(6) [unfolded file_commit_def Let_def upload_at_eq [OF assms(3)], folded target_def, folded refused_def mode_def, folded changed_def, unfolded st1]
  show ?thesis
  proof (cases "refused \<or> (target \<noteq> None \<and> fe_fails env C_chmod)")
    case True
    with x have "discard k (st\<lparr>fi_fs := fi_fs st\<rparr>) = (s, o')" by (auto split: prod.splits if_splits)
    then show ?thesis using assms(7) by (rule drop)
  next
    case False
    obtain ok st2 o1 where q: "queue_flush env c k (st\<lparr>fi_fs := fs\<rparr>) = (ok, st2, o1)" by (metis prod_cases3)
    from False x q have r: "(if ok then (st2, None, changed @ o1) else case discard k st2 of (st, out') \<Rightarrow> (st, Some (Some ENOMEM), changed @ o1 @ out')) = (s, e, o')" by auto
    have here: "confined env (fi_fs st) c out y" if "y \<in> set (changed @ o1)" for y
    proof -
      from that queue_effects [OF q, of y] have "y = Chmod c (up_fd u) mode \<or> y = Queued c \<or> y = Result c (Some EAGAIN)"
        by (auto simp: changed_def split: if_splits)
      with own show ?thesis by auto
    qed
    show ?thesis
    proof (cases ok)
      case True
      with r assms(7) here show ?thesis by auto
    next
      case nok: False
      with queue_upload [of env c k "st\<lparr>fi_fs := fs\<rparr>" st2 o1] q have "st2 = st\<lparr>fi_fs := fs\<rparr>" by simp
      with r nok assms(7) here drop show ?thesis by (auto split: prod.splits)
    qed
  qed
qed

lemma answer_confined: "(\<And>s e o' x. y = (s, e, o') \<Longrightarrow> x \<in> set o' \<Longrightarrow> confined env fs c out x) \<Longrightarrow> answer c y = (st', out') \<Longrightarrow> x \<in> set out' \<Longrightarrow> confined env fs c out x"
  by (cases y) (auto simp: answer_def)

lemma upload_command_confined:
  assumes "files_ok st out" "place env (fi_fs st) c True dir name" "name \<noteq> ''.''" "upload_command env c d cmd path dir name st = (st', out')" "x \<in> set out'"
  shows "confined env (fi_fs st) c out x"
proof (cases "job_index c st")
  case (Some k)
  from job_index_SomeD [OF Some] assms(1) obtain u where u: "k < FILE_JOBS" "fi_uploads st ! k = Some u" "up_client u = Some c" by (auto simp: files_ok_def)
  note x = assms(4) [unfolded upload_command_def Some option.case upload_at_eq [OF u(2)]]
  show ?thesis
  proof (cases "up_path u \<noteq> path \<or> up_parent u \<noteq> dir")
    case True
    with x assms(5) show ?thesis by auto
  next
    case False
    note x = x [unfolded if_not_P [OF False]]
    have "entry_of (fi_fs st) dir (up_temp u) = Some (up_fd u)" using files_okD(1) [OF assms(1) u(1,2)] False by (simp add: upload_sound_def)
    with upload_began [OF assms(1) u] assms(2,3) False have own: "own_upload env (fi_fs st) c out (up_fd u)" unfolding own_upload_def by blast
    obtain s o' where dis: "discard k st = (s, o')" by (metis prod.exhaust)
    obtain s1 e1 o1 where ch: "file_chunk env c d k st = (s1, e1, o1)" by (metis prod_cases3)
    obtain s2 e2 o2 where co: "file_commit env c dir name k st = (s2, e2, o2)" by (metis prod_cases3)
    have "out' \<in> {o' @ [Result c None], [Result c (Some EBUSY)], o1 @ [Result c e1]} \<or> (\<exists>e. out' = o2 @ (case e of None \<Rightarrow> [] | Some e \<Rightarrow> [Result c e]))"
      using x by (auto simp: dis ch co answer_def split: if_split_asm)
    with assms(5) discard_confined [OF assms(1) u dis] chunk_confined [OF assms(1) u own ch] commit_confined [OF assms(1) u own co]
    show ?thesis by (auto split: option.splits)
  qed
qed (use assms in \<open>auto simp: upload_command_def\<close>)

lemma list_confined: "x \<in> set (file_list env c path st) \<Longrightarrow> confined env (fi_fs st) c out x"
proof -
  have rows: "\<forall>x \<in> set (concat (map (dir_entry env c fs w) es)). confined env (fi_fs st) c out x" for fs w es
    by (auto simp: dir_entry_def confined_def split: prod.splits if_splits)
  have shares: "\<forall>x \<in> set (concat (map (share_entry env c) ss)). confined env (fi_fs st) c out x" for ss
    by (auto simp: share_entry_def confined_def Let_def split: if_splits)
  have part: "\<forall>x \<in> set (take n xs). confined env (fi_fs st) c out x" if "\<forall>x \<in> set xs. confined env (fi_fs st) c out x" for n xs
    using that set_take_subset by fast
  have last: "confined env (fi_fs st) c out (End_list c)" "confined env (fi_fs st) c out (List_nodes c)" by (simp_all add: confined_def)
  assume x: "x \<in> set (file_list env c path st)"
  show "confined env (fi_fs st) c out x"
  proof (cases "path = ''/''")
    case True
    with x shares last show ?thesis by (auto simp: file_list_def Let_def)
  next
    case False
    show ?thesis
    proof (cases "resolve env (fi_fs st) c path False")
      case (Inl e)
      with x False show ?thesis by (simp add: file_list_def Let_def)
    next
      case (Inr y)
      then obtain dir name where y: "resolve env (fi_fs st) c path False = Inr (dir, name)" by (cases y) auto
      have here: "confined env (fi_fs st) c out (Read_at dir name i)" if "open_dir (fi_fs st) dir name = Some i" for i
        using resolve_place [OF y] open_dir_SomeD [OF that] by (simp add: confined_def)
      from x False y here last rows part [OF rows] show ?thesis
        by (auto simp: file_list_def Let_def simp del: set_concat split: option.splits if_split_asm)
    qed
  qed
qed

lemma read_confined: "place env (fi_fs st) c False dir name \<Longrightarrow> x \<in> set (file_read env c d dir name st) \<Longrightarrow> confined env (fi_fs st) c out x"
  by (auto simp: file_read_def confined_def Let_def split: option.splits if_split_asm)

lemma begin_confined:
  "place env (fi_fs st) c True dir name \<Longrightarrow> name \<noteq> ''.'' \<Longrightarrow> file_begin env c d path dir name st = (s, e, o') \<Longrightarrow> x \<in> set o' \<Longrightarrow> confined env (fi_fs st) c out x"
  by (auto simp: file_begin_def confined_def temp_name_def Let_def split: option.splits if_split_asm)

lemma mkdir_confined:
  "place env (fi_fs st) c True dir name \<Longrightarrow> name \<noteq> ''.'' \<Longrightarrow> file_mkdir env dir name st = (s, e, o') \<Longrightarrow> x \<in> set o' \<Longrightarrow> confined env (fi_fs st) c out x"
  by (auto simp: file_mkdir_def confined_def Let_def split: if_split_asm)

lemma not_other: "kind_of fs i \<noteq> Is_other \<Longrightarrow> \<not> fs_link fs i"
  by (auto simp: kind_of_def)

lemma delete_confined:
  "place env (fi_fs st) c True dir name \<Longrightarrow> name \<noteq> ''.'' \<Longrightarrow> file_delete env dir name st = (s, e, o') \<Longrightarrow> x \<in> set o' \<Longrightarrow> confined env (fi_fs st) c out x"
  by (auto simp: file_delete_def confined_def unlinked_def Let_def dest: not_other split: option.splits if_split_asm)

lemma rename_confined:
  assumes "resolve env (fi_fs st) c path True = Inr (dir, name)" "name \<noteq> ''.''" "file_rename env c d path dir name st = (s, e, o')" "x \<in> set o'"
  shows "confined env (fi_fs st) c out x"
proof -
  define dest_path where "dest_path = dict_get d ''file.dest'' ''''"
  note r = assms(3,4) [unfolded file_rename_def Let_def, folded dest_path_def]
  obtain y where y: "resolve env (fi_fs st) c path False = Inr y" using assms(4) r(1) by (cases "resolve env (fi_fs st) c path False") auto
  with resolve_same [OF y assms(1)] have y: "resolve env (fi_fs st) c path False = Inr (dir, name)" by simp
  obtain other dest where z: "resolve env (fi_fs st) c dest_path True = Inr (other, dest)" using assms(4) r(1) y by (cases "resolve env (fi_fs st) c dest_path True") auto
  have "x = Renamed dir name other dest" "dest \<noteq> ''.''" "entry_of (fi_fs st) other dest = None" "unlinked (fi_fs st) dir name"
    using r y z by (auto simp: unlinked_def dest: not_other split: if_split_asm option.splits)
  with resolve_place [OF assms(1)] resolve_place [OF y] resolve_place [OF z] assms(2) show ?thesis by (simp add: confined_def)
qed

lemma command_confined:
  assumes "files_ok st out" "resolve env (fi_fs st) c path (cmd \<noteq> ''read'') = Inr (dir, name)" "file_command env c d cmd path dir name st = (st', out')" "x \<in> set out'"
  shows "confined env (fi_fs st) c out x"
proof (cases rule: file_command_cases [OF assms(3)])
  case 1
  with read_confined resolve_place [OF assms(2)] assms(4) show ?thesis by simp
next
  case 2
  show ?thesis by (rule answer_confined [OF _ 2(3) assms(4)]) (use begin_confined resolve_place [OF assms(2)] 2(1,2) in auto)
next
  case 3
  show ?thesis by (rule upload_command_confined [OF assms(1) _ 3(2) 3(3) assms(4)]) (use resolve_place [OF assms(2)] 3(1) in simp)
next
  case 4
  show ?thesis by (rule answer_confined [OF _ 4(3) assms(4)]) (use mkdir_confined resolve_place [OF assms(2)] 4(1,2) in auto)
next
  case 5
  show ?thesis by (rule answer_confined [OF _ 5(3) assms(4)]) (use delete_confined resolve_place [OF assms(2)] 5(1,2) in auto)
next
  case 6
  show ?thesis by (rule answer_confined [OF _ 6(3) assms(4)]) (use rename_confined assms(2) 6(1,2) in auto)
next
  case (7 e)
  with assms(4) show ?thesis by simp
qed

lemma request_confined: "files_ok st out \<Longrightarrow> file_request env c d st = (st', out') \<Longrightarrow> x \<in> set out' \<Longrightarrow> confined env (fi_fs st) c out x"
proof -
  assume ok: "files_ok st out" and r: "file_request env c d st = (st', out')" and x: "x \<in> set out'"
  show "confined env (fi_fs st) c out x"
  proof (cases rule: file_request_cases [OF r])
    case 1
    with x show ?thesis by auto
  next
    case 2
    with x list_confined show ?thesis by simp
  next
    case (3 e s o')
    then have "discard_job c st = (s, o') \<or> o' = []" by auto
    with x 3(3) discard_job_confined [OF ok] show ?thesis by auto
  next
    case (4 cmd path dir name)
    show ?thesis by (rule command_confined [OF ok 4 x])
  qed
qed

section \<open>Nothing else changes\<close>

text \<open>\<open>explained\<close>: every change of the file system is one that the effects name.\<close>

definition touched :: "files_effect list \<Rightarrow> inode \<Rightarrow> string \<Rightarrow> bool" where
  "touched out dir name \<longleftrightarrow> (\<exists>x \<in> set out. case x of
     Begun _ d n _ \<Rightarrow> d = dir \<and> n = name
   | Dropped_temp d n \<Rightarrow> d = dir \<and> n = name
   | Made_dir d n \<Rightarrow> d = dir \<and> n = name
   | Removed d n \<Rightarrow> d = dir \<and> n = name
   | Renamed d n d' n' \<Rightarrow> (d = dir \<and> n = name) \<or> (d' = dir \<and> n' = name)
   | _ \<Rightarrow> False)"

definition explained :: "fsys \<Rightarrow> fsys \<Rightarrow> files_effect list \<Rightarrow> bool" where
  "explained fs fs' out \<longleftrightarrow> fs_next fs \<le> fs_next fs' \<and> (\<forall>dir name. entry_of fs' dir name = entry_of fs dir name \<or> touched out dir name) \<and>
     (\<forall>i < fs_next fs. (fs_file fs' i = fs_file fs i \<or> (\<exists>c b. Stored c i b \<in> set out)) \<and> (fs_mode fs' i = fs_mode fs i \<or> (\<exists>c m. Chmod c i m \<in> set out)) \<and>
       (fs_dir fs' i = None \<longleftrightarrow> fs_dir fs i = None) \<and> fs_link fs' i = fs_link fs i)"

lemma touched_simps [simp]: "\<not> touched [] dir name" "touched (xs @ ys) dir name \<longleftrightarrow> touched xs dir name \<or> touched ys dir name"
  "touched (x # y # xs) dir name \<longleftrightarrow> touched [x] dir name \<or> touched (y # xs) dir name"
  by (auto simp: touched_def)

lemma touched_one [simp]: "touched [Begun c d n w] dir name \<longleftrightarrow> d = dir \<and> n = name" "touched [Dropped_temp d n] dir name \<longleftrightarrow> d = dir \<and> n = name"
  "touched [Made_dir d n] dir name \<longleftrightarrow> d = dir \<and> n = name" "touched [Removed d n] dir name \<longleftrightarrow> d = dir \<and> n = name"
  "touched [Renamed d n d' n'] dir name \<longleftrightarrow> (d = dir \<and> n = name) \<or> (d' = dir \<and> n' = name)"
  by (simp_all add: touched_def)

lemma entry_dot [simp]: "entry_of fs dir ''.'' = Some dir"
  by (simp add: entry_of_def)

lemma explained_refl [simp]: "explained fs fs out"
  by (simp add: explained_def)

lemma explained_trans: "explained a b o1 \<Longrightarrow> explained b c o2 \<Longrightarrow> explained a c (o1 @ o2)"
  unfolding explained_def by (simp, metis order_less_le_trans)

lemma explained_more: "explained a b out \<Longrightarrow> explained a b (out @ out')"
  using explained_trans [of a b out b out'] by simp

lemma mode_kept [simp]: "fs_mode (set_entry dir name i fs) = fs_mode fs" "fs_mode (remove_entry dir name fs) = fs_mode fs"
  by (simp_all add: set_entry_def remove_entry_def split: option.splits)

lemma explained_remove: "touched out dir name \<Longrightarrow> explained fs (remove_entry dir name fs) out"
  by (simp add: explained_def)

lemma discard_explained: "discard k st = (s, o') \<Longrightarrow> explained (fi_fs st) (fi_fs s) o'"
  by (auto simp: discard_def Let_def put_upload_def explained_remove split: if_splits)

lemma discard_job_explained: "discard_job c st = (s, o') \<Longrightarrow> explained (fi_fs st) (fi_fs s) o'"
  by (auto simp: discard_job_def intro: discard_explained split: option.splits)

lemma begin_explained: "file_begin env c d path dir name st = (s, e, o') \<Longrightarrow> explained (fi_fs st) (fi_fs s) o'"
  by (auto simp: file_begin_def Let_def put_upload_def explained_def split: option.splits if_split_asm)

lemma write_explained: "Stored c fd b \<in> set out \<Longrightarrow> explained fs (fs\<lparr>fs_file := (fs_file fs)(fd := x)\<rparr>) out"
  by (auto simp: explained_def)

lemma chunk_explained:
  assumes "file_chunk env c d k st = (s, e, o')"
  shows "explained (fi_fs st) (fi_fs s) o'"
proof -
  have late: "explained (fi_fs st) (fi_fs s') (Stored c fd b # o2)"
    if "discard k (st\<lparr>fi_fs := (fi_fs st)\<lparr>fs_file := (fs_file (fi_fs st))(fd := x)\<rparr>\<rparr>) = (s', o2)" for s' fd b o2 x
    using explained_trans [OF write_explained [of c fd b "[Stored c fd b]" "fi_fs st" x], of "fi_fs s'" o2] discard_explained [OF that] by simp
  from assms show ?thesis unfolding file_chunk_def Let_def with_error_def
    by (auto simp: put_upload_def write_explained intro: late discard_explained split: if_splits prod.splits)
qed

lemma queue_fs: "queue_flush env c k st = (ok, s, o') \<Longrightarrow> fi_fs s = fi_fs st"
  by (auto simp: queue_flush_def Let_def put_upload_def split: if_splits)

lemma commit_explained:
  assumes "file_commit env c dir name k st = (s, e, o')"
  shows "explained (fi_fs st) (fi_fs s) o'"
proof -
  define fd where "fd = up_fd (upload_at st k)"
  define target where "target = entry_of (fi_fs st) dir name"
  define refused where "refused \<longleftrightarrow> target \<noteq> None \<and> (\<not> up_overwrite (upload_at st k) \<or> kind_of (fi_fs st) (the target) \<noteq> Is_file)"
  define mode where "mode = fs_mode (fi_fs st) (the target) mod 512"
  define st1 where "st1 = (if target = None then st else st\<lparr>fi_fs := (fi_fs st)\<lparr>fs_mode := (fs_mode (fi_fs st))(fd := mode)\<rparr>\<rparr>)"
  define changed where "changed = (if target = None then [] else [Chmod c fd mode])"
  note x = assms [unfolded file_commit_def Let_def, folded target_def fd_def, folded refused_def mode_def, folded changed_def st1_def]
  show ?thesis
  proof (cases "refused \<or> (target \<noteq> None \<and> fe_fails env C_chmod)")
    case True
    with x have "discard k st = (s, o')" by (auto split: prod.splits if_splits)
    then show ?thesis by (rule discard_explained)
  next
    case False
    have c: "explained (fi_fs st) (fi_fs st1) changed" by (auto simp: explained_def st1_def changed_def)
    obtain ok st2 o1 where q: "queue_flush env c k st1 = (ok, st2, o1)" by (metis prod_cases3)
    from False x q have r: "(if ok then (st2, None, changed @ o1) else case discard k st2 of (st, out') \<Rightarrow> (st, Some (Some ENOMEM), changed @ o1 @ out')) = (s, e, o')" by auto
    have c2: "explained (fi_fs st) (fi_fs st2) (changed @ o1)" using explained_more [OF c] queue_fs [OF q] by simp
    show ?thesis
    proof (cases ok)
      case True
      with r c2 show ?thesis by simp
    next
      case False
      then obtain o2 where "discard k st2 = (s, o2)" "o' = (changed @ o1) @ o2" using r by (auto split: prod.splits)
      with explained_trans [OF c2 discard_explained] show ?thesis by simp
    qed
  qed
qed

lemma mkdir_explained:
  assumes "fs_sound (fi_fs st)" "file_mkdir env dir name st = (s, e, o')"
  shows "explained (fi_fs st) (fi_fs s) o'"
proof (cases "fe_fails env C_mkdir \<or> entry_of (fi_fs st) dir name \<noteq> None \<or> fs_dir (fi_fs st) dir = None")
  case True
  with assms(2) have "s = st" by (auto simp: file_mkdir_def)
  then show ?thesis by simp
next
  case False
  define fs where "fs = set_entry dir name (fs_next (fi_fs st)) (fi_fs st)"
  have s: "fi_fs s = fs\<lparr>fs_next := fs_next (fi_fs st) + 1, fs_dir := (fs_dir fs)(fs_next (fi_fs st) := Some [])\<rparr>" "o' = [Made_dir dir name]"
    using assms(2) False by (auto simp: file_mkdir_def Let_def fs_def)
  have new: "fs_dir (fi_fs st) (fs_next (fi_fs st)) = None" using assms(1) by (simp add: fs_sound_def)
  have entry: "entry_of (fi_fs s) a n = entry_of fs a n" for a n
  proof (cases "a = fs_next (fi_fs st)")
    case True
    have "fs_dir fs (fs_next (fi_fs st)) = None" using new by (simp add: fs_def)
    with True show ?thesis by (simp add: entry_of_def s)
  qed (simp add: entry_of_def s)
  have "entry_of (fi_fs s) a n = entry_of (fi_fs st) a n \<or> touched o' a n" for a n by (simp add: entry s(2)) (simp add: fs_def)
  moreover have "fs_next (fi_fs st) \<le> fs_next (fi_fs s)" by (simp add: s)
  moreover have "\<forall>i < fs_next (fi_fs st). fs_file (fi_fs s) i = fs_file (fi_fs st) i \<and> fs_mode (fi_fs s) i = fs_mode (fi_fs st) i \<and>
    (fs_dir (fi_fs s) i = None \<longleftrightarrow> fs_dir (fi_fs st) i = None) \<and> fs_link (fi_fs s) i = fs_link (fi_fs st) i"
    by (simp add: s fs_def)
  ultimately show ?thesis unfolding explained_def by blast
qed

lemma delete_explained: "file_delete env dir name st = (s, e, o') \<Longrightarrow> explained (fi_fs st) (fi_fs s) o'"
  by (auto simp: file_delete_def explained_remove split: option.splits if_splits)

lemma rename_explained: "file_rename env c d path dir name st = (s, e, o') \<Longrightarrow> explained (fi_fs st) (fi_fs s) o'"
  by (auto simp: file_rename_def Let_def explained_def split: option.splits if_splits sum.splits)

lemma answer_explained: "(\<And>s e o'. y = (s, e, o') \<Longrightarrow> explained fs (fi_fs s) o') \<Longrightarrow> answer c y = (st', out') \<Longrightarrow> explained fs (fi_fs st') out'"
  using explained_more by (cases y) (auto simp: answer_def)

lemma upload_command_explained:
  assumes "upload_command env c d cmd path dir name st = (st', out')"
  shows "explained (fi_fs st) (fi_fs st') out'"
proof (cases "job_index c st")
  case (Some k)
  obtain s o' where dis: "discard k st = (s, o')" by (metis prod.exhaust)
  obtain s1 e1 o1 where ch: "file_chunk env c d k st = (s1, e1, o1)" by (metis prod_cases3)
  obtain s2 e2 o2 where co: "file_commit env c dir name k st = (s2, e2, o2)" by (metis prod_cases3)
  have "st' = st \<or> (st' = s \<and> out' = o' @ [Result c None]) \<or> (st' = s1 \<and> out' = o1 @ [Result c e1]) \<or> (st' = s2 \<and> (\<exists>x. out' = o2 @ x))"
    using assms by (auto simp: upload_command_def Some dis ch co answer_def split: if_split_asm)
  then show ?thesis using discard_explained [OF dis] chunk_explained [OF ch] commit_explained [OF co] by (auto intro: explained_more)
qed (use assms in \<open>simp add: upload_command_def\<close>)

lemma request_explained:
  assumes "fs_sound (fi_fs st)" "file_request env c d st = (st', out')"
  shows "explained (fi_fs st) (fi_fs st') out'"
proof (cases rule: file_request_cases [OF assms(2)])
  case (3 e s o')
  then have "discard_job c st = (s, o') \<or> s = st" by auto
  with 3 discard_job_explained show ?thesis by (auto intro: explained_more)
next
  case (4 cmd path dir name)
  show ?thesis
  proof (cases rule: file_command_cases [OF 4(2)])
    case 2
    show ?thesis by (rule answer_explained [OF _ 2(3)]) (rule begin_explained)
  next
    case 3
    show ?thesis by (rule upload_command_explained [OF 3(3)])
  next
    case 4
    show ?thesis by (rule answer_explained [OF _ 4(3)]) (rule mkdir_explained [OF assms(1)])
  next
    case 5
    show ?thesis by (rule answer_explained [OF _ 5(3)]) (rule delete_explained)
  next
    case 6
    show ?thesis by (rule answer_explained [OF _ 6(3)]) (rule rename_explained)
  qed simp_all
qed simp_all

section \<open>Properties\<close>

text \<open>C30. In every state the server reaches, what a request of a client reads, creates, removes and renames lies below a share whose
  permission the client holds for that: in a directory reached from the root of the share by valid names, under a valid name, never the root itself
  where something changes; and no link is followed, neither on the way nor at the end. What it writes, changes the mode of or drops besides is the temporary
  file of an upload the client itself has begun. Nothing else in the file system changes, what is sent goes to the client
  alone, nothing is published by the request itself, and an unauthenticated client gets and changes nothing.\<close>

theorem files_confined:
  assumes "fs_sound fs" "files_run xs (files_start fs) = (st, out)" "files_step (env, F_request c d) st = (st', out')"
  shows "(\<forall>x \<in> set out'. confined env (fi_fs st) c out x) \<and> explained (fi_fs st) (fi_fs st') out' \<and>
    (\<not> cn_authenticated (fe_conn env c) \<longrightarrow> st' = st \<and> out' = [])"
proof -
  have r: "file_request env c d st = (st', out')" using assms(3) by simp
  note ok = files_run_ok [OF assms(1,2)]
  have "st' = st \<and> out' = []" if "\<not> cn_authenticated (fe_conn env c)" using r that by (simp add: file_request_def Let_def)
  with request_confined [OF ok r] request_explained [OF _ r] ok show ?thesis by (auto simp: files_ok_def)
qed

text \<open>C27. After any run of requests, flushes, completions and closed connections, a file that is published holds exactly
  the bytes its client has sent since it began the upload, in order and complete; it replaces a file only if the client asked
  for that at the beginning; and it is published at a place where the client has write permission at that moment.\<close>

theorem upload_published_exact:
  assumes "fs_sound fs" "files_run xs (files_start fs) = (st, out)" "files_step (env, e) st = (st', out')"
  shows "\<forall>x \<in> set out'. published_exact env (fi_fs st) (fi_fs st') out x"
proof -
  note ok = files_run_ok [OF assms(1,2)]
  have other: "published_exact env a b o2 x" if "\<forall>c dir name i r. x \<noteq> Published c dir name i r" for a b o2 x
    using that by (cases x) (auto simp: published_exact_def)
  have confined: "published_exact env a b o2 x" if "confined env a' c o3 x" for a a' b c o2 o3 x
    using that by (cases x) (auto simp: published_exact_def confined_def)
  show ?thesis
  proof (cases e)
    case (F_request c d)
    then have r: "file_request env c d st = (st', out')" using assms(3) by simp
    show ?thesis using request_confined [OF ok r] confined by blast
  next
    case (F_flushed i failed)
    with assms(3) show ?thesis by auto
  next
    case F_complete
    with complete_uploads_ok [OF ok] assms(3) show ?thesis by simp
  next
    case (F_closed c)
    then have r: "discard_job c st = (st', out')" using assms(3) by simp
    show ?thesis using discard_job_confined [OF ok r] confined by blast
  next
    case F_stop
    then have r: "rrserver_files_fini st = (st', out')" using assms(3) by simp
    show ?thesis using files_fini_ok [OF ok r] other by auto
  qed
qed

section \<open>Sample\<close>

definition sample_fs :: fsys where
  "sample_fs = \<lparr>fs_dir = (\<lambda>i. if i = 0 then Some [(''old'', 1)] else None), fs_file = (\<lambda>i. if i = 1 then Some ''x'' else None),
     fs_link = (\<lambda>i. False), fs_mode = (\<lambda>i. 420), fs_next = 2\<rparr>"

definition sample_files_env :: files_env where
  "sample_files_env = \<lparr>fe_now = 0, fe_conn = sample_conn, fe_priv = (\<lambda>uid p. True),
     fe_cfg = (\<lambda>k. if k = ''share:s.path'' then Some ''/srv'' else None), fe_cfg_bool = (\<lambda>k. True), fe_keys = [''share:s.path''], fe_utf8 = (\<lambda>s. True),
     fe_root = (\<lambda>p. if p = ''/srv'' then Some 0 else None), fe_fails = (\<lambda>k. False), fe_uuid = ''1'', fe_written = (\<lambda>s. (length s, False)),
     fe_encode = id, fe_decode = id, fe_bool = (\<lambda>d k. map_of d k = Some ''true''),
     fe_ull = (\<lambda>d k. if map_of d k = Some ''2'' then 2 else 0), fe_strtoull = (\<lambda>s. None), fe_pool = Pool_ok, fe_refresh = (\<lambda>c. (True, False))\<rparr>"

definition file_message :: "string \<Rightarrow> dict \<Rightarrow> dict" where
  "file_message cmd d = [(''file.cmd'', cmd), (''file.path'', ''/s/old''), (''request.id'', ''r'')] @ d"

definition sample_upload :: "(files_env \<times> files_event) list" where
  "sample_upload = map (Pair sample_files_env)
     [F_request 1 (file_message ''begin'' [(''file.overwrite'', ''true'')]),
      F_request 1 (file_message ''chunk'' [(''file.data'', ''ab'')]),
      F_request 1 (file_message ''chunk'' [(''file.data'', ''c''), (''file.offset'', ''2'')]),
      F_request 1 (file_message ''commit'' []), F_flushed 0 False]"

lemma sample_fs_sound: "fs_sound sample_fs"
  by (simp add: fs_sound_def sample_fs_def)

lemma sample_published:
  "case files_run sample_upload (files_start sample_fs) of (st, out) \<Rightarrow> lo_bytes (upload_log_of 1 out) = ''abc'' \<and> lo_overwrite (upload_log_of 1 out) \<and>
     Published 1 0 ''old'' 2 True \<in> set (snd (files_step (sample_files_env, F_complete) st))"
  by code_simp

lemma upload_published_exact_witness:
  "case files_run sample_upload (files_start sample_fs) of (st, out) \<Rightarrow> case files_step (sample_files_env, F_complete) st of (st', out') \<Rightarrow>
     Published 1 0 ''old'' 2 True \<in> set out' \<and> fs_file (fi_fs st') 2 = Some ''abc''"
proof -
  obtain st out where r: "files_run sample_upload (files_start sample_fs) = (st, out)" by (metis prod.exhaust)
  obtain st' out' where s: "files_step (sample_files_env, F_complete) st = (st', out')" by (metis prod.exhaust)
  have p: "lo_bytes (upload_log_of 1 out) = ''abc''" "Published 1 0 ''old'' 2 True \<in> set out'" using sample_published by (simp_all only: r s prod.case snd_conv)
  from bspec [OF upload_published_exact [OF sample_fs_sound r s] p(2)] p show ?thesis by (simp only: r s prod.case published_exact_def files_effect.case simp_thms)
qed

lemma sample_read: "case files_run sample_upload (files_start sample_fs) of (st, out) \<Rightarrow>
    Read_at 0 ''old'' 1 \<in> set (snd (files_step (sample_files_env, F_request 1 (file_message ''read'' [])) st))"
  by code_simp

lemma files_confined_witness:
  "case files_run sample_upload (files_start sample_fs) of (st, out) \<Rightarrow> place sample_files_env (fi_fs st) 1 False 0 ''old'' \<and> \<not> fs_link (fi_fs st) 1"
proof -
  obtain st out where r: "files_run sample_upload (files_start sample_fs) = (st, out)" by (metis prod.exhaust)
  obtain st' out' where s: "files_step (sample_files_env, F_request 1 (file_message ''read'' [])) st = (st', out')" by (metis prod.exhaust)
  have "Read_at 0 ''old'' 1 \<in> set out'" using sample_read by (simp only: r s prod.case snd_conv)
  with files_confined [OF sample_fs_sound r s] have "confined sample_files_env (fi_fs st) 1 out (Read_at 0 ''old'' 1)" by blast
  then show ?thesis by (simp add: r confined_def)
qed

end
