(* ===== verification/Spec2Isabelle.thy ===== *)
theory Spec2Isabelle
  imports LinkTree LinkMesh AudioGraph Accounting Usage RigRegistry Hardware PlatformControls PttControl BackendWorker Protection Wsjtx Dict Identity Enrollment MeshAuth RelayCatalog Base64 RelayMedia Supervision Grants DirectMedia RelaySessions SerialExports SharedFiles
begin

text \<open>
  A verification library for rustyrig-fw, a server and client for remote operation of amateur radio
  stations. It models the parts of the program that decide something (who may transmit, which
  server owns what, where a message goes, what a packet means) and leaves out what only moves
  pixels, samples or files. All paths are below \<^verbatim>\<open>src/\<close>.

  \<^bold>\<open>The program and how its parts meet.\<close> A server (\<^verbatim>\<open>rrserver/\<close>) owns rigs and keys their
  transmitters for its users, and links with other servers into a mesh. A client (\<^verbatim>\<open>rrclient/\<close>) shows
  and controls rigs and routes their audio. In the server:

  \<^item> transmitting: a request goes to \<^verbatim>\<open>ptt.c\<close>, which checks interlocks and talkers and queues a job
    with \<^verbatim>\<open>backend.worker.c\<close>; a second thread executes it on the radio, and its answer comes back to
    \<^verbatim>\<open>ptt.c\<close>. \<^verbatim>\<open>faults.c\<close>, \<^verbatim>\<open>thermal.c\<close> and \<^verbatim>\<open>protection.c\<close> halt all transmission through
    \<^verbatim>\<open>ptt.c\<close>;
  \<^item> the mesh: a new server is admitted by an invitation (\<^verbatim>\<open>identity.c\<close>), every connection is
    authenticated in both directions (\<^verbatim>\<open>mesh.auth.c\<close>), the servers behind it are entered in the link
    tree (\<^verbatim>\<open>link.tree.c\<close>), from which routes are taken, or from the mesh topology (\<^verbatim>\<open>link.mesh.c\<close>);
    over a link the servers publish signed descriptors (\<^verbatim>\<open>relay.catalog.c\<close>, \<^verbatim>\<open>relay.c\<close>), checked
    against pinned keys and recorded revisions (\<^verbatim>\<open>identity.c\<close>);
  \<^item> users of other servers: an admitted request runs in a session of the relay (\<^verbatim>\<open>relay.sessions.c\<close>), decided by the grants of the
    owner (\<^verbatim>\<open>database.privileges.c\<close>); their audio comes in fragments over the link (\<^verbatim>\<open>relay.media.c\<close>) or over a
    private attachment (\<^verbatim>\<open>media.direct.c\<close>); whoever needs it transmits under supervision (\<^verbatim>\<open>supervision.c\<close>);
  \<^item> what a server owns: its rigs (\<^verbatim>\<open>rig.registry.c\<close>), devices (\<^verbatim>\<open>hardware.c\<close>) and node controls
    (\<^verbatim>\<open>platform.controls.c\<close>, \<^verbatim>\<open>platform.backlight.c\<close>), serial ports (\<^verbatim>\<open>serial.c\<close>) and files (\<^verbatim>\<open>files.c\<close>) that it shares, and what
    its users consume (\<^verbatim>\<open>usage.c\<close>, \<^verbatim>\<open>database.accounting.c\<close>).

  \<^bold>\<open>How the code is modelled.\<close> A C struct is a record, a linked list or array its list of entries
  in the order the code walks them, a module's static variables one state record, an operation a
  function of the state that returns the new state, its result, and what it does to others as a
  list of effects. A refusal is a value. A C string is a \<^typ>\<open>string\<close> without its terminator, a
  pointer that may be NULL an option, a machine integer a word where it can wrap. What the
  code asks of code that is not in the repository (the cryptographic library, the two submodules, the
  operating system) or of a part not modelled is a parameter; SQL statements are maps with a record
  that says which of them fail. Loops that do not recurse on a list have termination proofs by a
  measure; there is no fuel anywhere.

  \<^bold>\<open>The theories.\<close>

  \<^item> \<open>Prelude\<close>: C strings, array scans, decimal printing; the interfaces \<open>machine\<close> (steps that keep
    an invariant) and \<open>keyed_registry\<close> (a table with unique keys), which the components instantiate.
  \<^item> \<open>Dict\<close>: string dictionaries, number parsing and bounded copies as the mesh code uses them.
  \<^item> \<open>LinkTree\<close> (\<^verbatim>\<open>rrserver/link.tree.c\<close>): \<open>link_tree\<close> is the array of nodes. Shown: which
    components \<open>rr_link_tree_attach\<close> accepts, what a removal takes, that the route is the head of the
    branch, over every run of peers, and the bounds.
  \<^item> \<open>LinkMesh\<close> (\<^verbatim>\<open>rrserver/link.mesh.c\<close>): the search is proved against best paths defined by an
    inductive predicate; alternate routes avoid what they must; a loaded policy is checked.
  \<^item> \<open>Identity\<close>, \<open>Enrollment\<close> (\<^verbatim>\<open>rrserver/identity.c\<close>): the signed bytes are unambiguous, pins and
    revisions only go forward, an invitation admits one server once.
  \<^item> \<open>MeshAuth\<close> (\<^verbatim>\<open>rrserver/mesh.auth.c\<close>): a peer is authenticated only by its own fresh proof for
    this channel, and two honest servers succeed.
  \<^item> \<open>RelayCatalog\<close> (\<^verbatim>\<open>rrserver/relay.catalog.c\<close>, parts of \<^verbatim>\<open>relay.c\<close>): the invariant of the catalog
    over every sequence of messages, with routes from \<open>LinkTree\<close> and keys from \<open>Identity\<close>. It has one exception, which is the code's: an
    entry that another server has put under the identifier of one of this server's rigs loses its valid signature when
    the rig is collected (\<open>own_rig_claimed\<close>).
  \<^item> \<open>Base64\<close>: the encoding the link frames use, inverted exactly.
  \<^item> \<open>RelayMedia\<close> (\<^verbatim>\<open>rrserver/relay.media.c\<close>): the table of remote streams, fragments and their reassembly: what is
    delivered is what was sent, and nothing is ever assembled from two frames or written outside the buffer.
  \<^item> \<open>Grants\<close> (\<^verbatim>\<open>rrserver/database.privileges.c\<close>): the query as written against a specification of the tables that does not share its tests.
  \<^item> \<open>Supervision\<close> (\<^verbatim>\<open>rrserver/supervision.c\<close>): consent, its renewal and expiry; a transmission that needs a supervisor has one or is stopped.
  \<^item> \<open>DirectMedia\<close> (\<^verbatim>\<open>rrserver/media.direct.c\<close>): the table of grants accounts for every attachment, and the end of a grant or of its path
    releases the transmitter it kept keyed.
  \<^item> \<open>RelaySessions\<close> (\<^verbatim>\<open>rrserver/relay.sessions.c\<close>, the loops of \<^verbatim>\<open>relay.c\<close>): admission of a request, the bound on sessions, and that no remote
    user stays keyed unheard. Process exit is not an event of its runs.
  \<^item> \<open>SerialExports\<close> (\<^verbatim>\<open>rrserver/serial.c\<close>): streams of a serial port to one authorized client, byte by byte in order.
  \<^item> \<open>SharedFiles\<close> (\<^verbatim>\<open>rrserver/files.c\<close>): paths, permissions and uploads on a file system of inodes with links: what a request touches, and
    that a published file is exactly what was sent.
  \<^item> \<open>RigRegistry\<close>, \<open>Hardware\<close>, \<open>PlatformControls\<close> (the files of these names, and \<^verbatim>\<open>rrserver/platform.backlight.c\<close>): uniqueness, numbering of
    rigs, exclusive leases and release order, guarded writes down to the brightness file.
  \<^item> \<open>BackendWorker\<close> (\<^verbatim>\<open>rrserver/backend.worker.c\<close>): the two threads as steps that interleave freely,
    one per critical section; every job completes once, a release goes first, stopping ends.
  \<^item> \<open>PttControl\<close> (\<^verbatim>\<open>rrserver/ptt.c\<close>, \<^verbatim>\<open>backend.c\<close>): interlocks, the race between key-downs and
    releases, the talk timeout, late answers.
  \<^item> \<open>Protection\<close> (\<^verbatim>\<open>rrserver/faults.c\<close>, \<^verbatim>\<open>thermal.c\<close>, \<^verbatim>\<open>protection.c\<close>, \<^verbatim>\<open>main.c\<close>): the fault register
    and, with \<open>PttControl\<close>, that trouble silences the transmitter.
  \<^item> \<open>Accounting\<close> (\<^verbatim>\<open>rrserver/database.accounting.c\<close>, the table \<^verbatim>\<open>user_usage\<close>): each statement as written, with saturation at the largest SQL integer.
  \<^item> \<open>Usage\<close> (\<^verbatim>\<open>rrserver/usage.c\<close>): amounts, name patterns, and, on \<open>Accounting\<close>, a ledger that neither loses nor doubles.
  \<^item> \<open>AudioGraph\<close> (\<^verbatim>\<open>rrclient/audio.graph.c\<close>): the routing graph stays acyclic, with one input each.
  \<^item> \<open>Wsjtx\<close> (\<^verbatim>\<open>rrclient/wsjtx.c\<close>): decoding of the WSJT-X datagrams, safe on every input.

  \<^bold>\<open>Assumed.\<close> Every hypothesis of a property about code outside is one of: an identifier test accepts
  no empty string, or only text of the shape of a UUID; the signature scheme accepts what the key
  signed; the text encodings invert; the query returns its rows in some order; the parser of media frames reads the stream number from its byte; the
  file system has nothing under the numbers of inodes it has not used yet, and no other process changes it during a run; counters stay below their
  width; differences of two C \<open>int\<close> values wrap. Each property with a hypothesis has a witness at a concrete input. An event sees one reading of
  the clock, even where the code reads it several times.

  \<^bold>\<open>Not modelled.\<close> The GTK interface and the client's connection, media and chat code; the server's
  sockets (\<^verbatim>\<open>link.c\<close>, \<^verbatim>\<open>mesh.wss.c\<close>), the demand counters, subscriptions and inventory of the relay, the CAT protocols of particular radios,
  and databases beyond the tables named above; the IRC library, the audio pipelines and the bridge processes. They
  are mostly input and output, or rest on libraries the repository does not contain. Allocation failure is modelled where the code recovers from it with a changed
  state, and not where it only returns an error.
\<close>

end
